(* ===== verification/Prelude.thy ===== *)
theory Prelude
  imports Main "HOL-Library.Word"
begin

text \<open>
  What every component of the development shares: machine integer types, C memory read
  through a cursor, results that carry the failure of the C code as a value, and the
  lemmas and collections the component proofs run on.

  A \<^emph>\<open>cursor\<close> is a pointer into a block of bytes, represented by the bytes from the
  pointer to the end of the block.  Dereferencing a pointer that has been moved past the
  block is \<open>Out_Of_Bounds\<close>, so a proof that a function never returns that value is a proof
  that the C function never reads outside its argument.  A C string is a block that holds
  a zero byte; the functions of \<^verbatim>\<open>src/src/json.c\<close> never look behind it.
\<close>

unbundle bit_operations_syntax

type_synonym u8 = "8 word"
type_synonym u16 = "16 word"
type_synonym u32 = "32 word"
type_synonym bytes = "8 word list"
type_synonym cursor = "8 word list"

section \<open>Results\<close>

text \<open>
  \<open>Rejected\<close> is the C function's own failure return (\<^verbatim>\<open>return false\<close>, \<^verbatim>\<open>return NULL\<close>);
  \<open>Assertion\<close> is a failing \<^verbatim>\<open>assert\<close>; \<open>Out_Of_Bounds\<close> is a read or a write outside
  the block a pointer belongs to, or through a dangling or null pointer; \<open>Undefined\<close> is an
  operation C leaves undefined (signed overflow, a conversion out of range); \<open>Diverges\<close> is a
  loop that never ends.
\<close>

datatype err = Rejected | Assertion | Out_Of_Bounds | Undefined | Diverges

definition bind_res :: "'e + 'a \<Rightarrow> ('a \<Rightarrow> 'e + 'b) \<Rightarrow> 'e + 'b" where
  "bind_res m f = (case m of Inl e \<Rightarrow> Inl e | Inr x \<Rightarrow> f x)"

definition check_that :: "bool \<Rightarrow> err \<Rightarrow> err + unit" where
  "check_that b e = (if b then Inr () else Inl e)"

text \<open>The byte at a cursor, and the cursor moved by one: \<^verbatim>\<open>*s\<close> and \<^verbatim>\<open>s++\<close>.\<close>

definition deref :: "cursor \<Rightarrow> err + u8" where
  "deref s = (case s of [] \<Rightarrow> Inl Out_Of_Bounds | c # _ \<Rightarrow> Inr c)"

definition read_inc :: "cursor \<Rightarrow> err + (u8 \<times> cursor)" where
  "read_inc s = (case s of [] \<Rightarrow> Inl Out_Of_Bounds | c # s' \<Rightarrow> Inr (c, s'))"

definition cstr :: "bytes \<Rightarrow> cursor" where
  "cstr xs = xs @ [0]"

text \<open>The bytes of an ASCII literal of the source.\<close>

definition ascii :: "string \<Rightarrow> bytes" where
  "ascii = List.map of_char"

lemma bind_res_Inl [simp]: "bind_res (Inl e) f = Inl e"
  by (simp add: bind_res_def)

lemma bind_res_Inr [simp]: "bind_res (Inr x) f = f x"
  by (simp add: bind_res_def)

lemma bind_res_eq_Inr: "bind_res m f = Inr y \<longleftrightarrow> (\<exists>x. m = Inr x \<and> f x = Inr y)"
  by (cases m) simp_all

lemma bind_res_eq_Inl:
  "bind_res m f = Inl e \<longleftrightarrow> m = Inl e \<or> (\<exists>x. m = Inr x \<and> f x = Inl e)"
  by (cases m) simp_all

lemma bind_res_cong [fundef_cong]:
  "m = m' \<Longrightarrow> (\<And>x. m' = Inr x \<Longrightarrow> f x = f' x) \<Longrightarrow> bind_res m f = bind_res m' f'"
  by (cases m') simp_all

lemma bind_res_assoc: "bind_res (bind_res m f) g = bind_res m (\<lambda>x. bind_res (f x) g)"
  by (cases m) simp_all

lemma check_that_simps [simp]:
  "b \<Longrightarrow> check_that b e = Inr ()"
  "\<not> b \<Longrightarrow> check_that b e = Inl e"
  by (simp_all add: check_that_def)

lemma deref_simps [simp]:
  "deref [] = Inl Out_Of_Bounds"
  "deref (c # s) = Inr c"
  by (simp_all add: deref_def)

lemma read_inc_simps [simp]:
  "read_inc [] = Inl Out_Of_Bounds"
  "read_inc (c # s) = Inr (c, s)"
  by (simp_all add: read_inc_def)

lemma read_inc_eq_Inr: "read_inc s = Inr (c, s') \<longleftrightarrow> s = c # s'"
  by (cases s) auto

lemma ascii_simps [simp]:
  "ascii [] = []"
  "ascii (c # cs) = of_char c # ascii cs"
  by (simp_all add: ascii_def)

text \<open>The collections the component proofs use.\<close>

named_theorems res_simps \<open>inversion of results\<close>

lemmas [res_simps] = bind_res_eq_Inr bind_res_eq_Inl read_inc_eq_Inr

section \<open>Arrays and counting loops\<close>

text \<open>
  An array is the list of its elements, and a pointer into it the index it points at, an integer.
\<close>

definition load :: "'a list \<Rightarrow> int \<Rightarrow> err + 'a" where
  "load m p = (if 0 \<le> p \<and> p < int (length m) then Inr (m ! nat p) else Inl Out_Of_Bounds)"

definition store :: "'a list \<Rightarrow> int \<Rightarrow> 'a \<Rightarrow> err + 'a list" where
  "store m p v = (if 0 \<le> p \<and> p < int (length m) then Inr (m[nat p := v]) else Inl Out_Of_Bounds)"

text \<open>\<open>loop k f i\<close> is a counting loop with \<open>k\<close> rounds from \<open>i\<close> on.\<close>

primrec loop :: "nat \<Rightarrow> (nat \<Rightarrow> 's \<Rightarrow> err + 's) \<Rightarrow> nat \<Rightarrow> 's \<Rightarrow> err + 's" where
  "loop 0 f i s = Inr s"
| "loop (Suc k) f i s = bind_res (f i s) (loop k f (Suc i))"

lemma loop_ok:
  "(\<And>j s. i \<le> j \<Longrightarrow> j < i + k \<Longrightarrow> I j s \<Longrightarrow> \<exists>s'. f j s = Inr s' \<and> I (Suc j) s') \<Longrightarrow> I i s \<Longrightarrow>
   \<exists>s'. loop k f i s = Inr s' \<and> I (i + k) s'"
proof (induction k arbitrary: i s)
  case (Suc k)
  obtain t where t: "f i s = Inr t" "I (Suc i) t" using Suc.prems(1) [of i s] Suc.prems(2) by auto
  have "\<exists>s'. loop k f (Suc i) t = Inr s' \<and> I (Suc i + k) s'"
    by (rule Suc.IH [OF _ t(2)]) (use Suc.prems(1) in simp)
  with t(1) show ?case by simp
qed simp

lemma loop0_ok:
  assumes "\<And>j s. j < k \<Longrightarrow> I j s \<Longrightarrow> \<exists>s'. f j s = Inr s' \<and> I (Suc j) s'" and "I 0 s"
  shows "\<exists>s'. loop k f 0 s = Inr s' \<and> I k s'"
  using loop_ok [of 0 k I f s] assms by simp

text \<open>Loops with equal bodies, one loop after the other, and nested loops.\<close>

lemma loop_cong: "(\<And>j s. i \<le> j \<Longrightarrow> j < i + k \<Longrightarrow> f j s = g j s) \<Longrightarrow> loop k f i s = loop k g i s"
proof (induction k arbitrary: i s)
  case (Suc k)
  have "loop k f (Suc i) t = loop k g (Suc i) t" for t by (rule Suc.IH) (use Suc.prems in simp)
  with Suc.prems [of i s] show ?case by (simp cong: bind_res_cong)
qed simp

lemma bind_res_Inr_right: "bind_res m Inr = m"
  by (cases m) simp_all

lemma loop_add: "loop (k + l) f i s = bind_res (loop k f i s) (loop l f (i + k))"
  by (induction k arbitrary: i s) (simp_all add: bind_res_assoc cong: bind_res_cong)

lemma loop_Suc_end: "loop (Suc k) f i s = bind_res (loop k f i s) (f (i + k))"
  using loop_add [of k 1 f i s] by (simp add: bind_res_Inr_right cong: bind_res_cong)

lemma loop_shift: "loop k f (i + j) s = loop k (\<lambda>x. f (x + j)) i s"
proof (induction k arbitrary: i s)
  case (Suc k)
  from Suc.IH [of "Suc i"] show ?case by (simp cong: bind_res_cong)
qed simp

lemma loop_nested: "loop n (\<lambda>j. loop m (\<lambda>i. g j i) 0) 0 s = loop (n * m) (\<lambda>b. g (b div m) (b mod m)) 0 s"
proof (induction n arbitrary: s)
  case (Suc n)
  have "loop m (\<lambda>b. g (b div m) (b mod m)) (n * m) t = loop m (\<lambda>i. g n i) 0 t" for t
  proof -
    have "loop m (\<lambda>b. g (b div m) (b mod m)) (0 + n * m) t = loop m (\<lambda>x. g ((x + n * m) div m) ((x + n * m) mod m)) 0 t"
      by (rule loop_shift)
    also have "\<dots> = loop m (\<lambda>i. g n i) 0 t" by (rule loop_cong) simp
    finally show ?thesis by simp
  qed
  then show ?case
    using loop_add [of n 1 "\<lambda>j. loop m (\<lambda>i. g j i) 0" 0 s] loop_add [of "n * m" m "\<lambda>b. g (b div m) (b mod m)" 0 s] Suc.IH
    by (simp add: add.commute [of m] bind_res_Inr_right cong: bind_res_cong)
qed simp

lemma loop_nested_3:
  "loop n (\<lambda>k. loop m (\<lambda>j. loop l (\<lambda>i. g k j i) 0) 0) 0 s =
     loop (n * m * l) (\<lambda>b. g (b div l div m) (b div l mod m) (b mod l)) 0 s"
  by (rule trans [OF loop_nested [of n m "\<lambda>k j. loop l (\<lambda>i. g k j i) 0"]])
    (rule loop_nested [of "n * m" l "\<lambda>q i. g (q div m) (q mod m) i"])

lemma loop_nested_4:
  "loop o' (\<lambda>h. loop n (\<lambda>k. loop m (\<lambda>j. loop l (\<lambda>i. g h k j i) 0) 0) 0) 0 s =
     loop (o' * n * m * l) (\<lambda>b. g (b div l div m div n) (b div l div m mod n) (b div l mod m) (b mod l)) 0 s"
  by (rule trans [OF loop_nested [of o' n "\<lambda>h k. loop m (\<lambda>j. loop l (\<lambda>i. g h k j i) 0) 0"]])
    (rule loop_nested_3 [of "o' * n" m l "\<lambda>q j i. g (q div n) (q mod n) j i"])

section \<open>Computations that may not end\<close>

text \<open>
  A loop along pointers need not end.  Such code gets fuel: \<open>None\<close> is running out of it, and
  \<open>Some r\<close> is the result \<open>r\<close>.  That enough fuel exists is a theorem where it is claimed.
\<close>

type_synonym 'a run = "(err + 'a) option"

definition bind_run :: "'a run \<Rightarrow> ('a \<Rightarrow> 'b run) \<Rightarrow> 'b run" where
  "bind_run m f = (case m of None \<Rightarrow> None | Some (Inl e) \<Rightarrow> Some (Inl e) | Some (Inr x) \<Rightarrow> f x)"

lemma bind_run_simps [simp]:
  "bind_run None f = None"
  "bind_run (Some (Inl e)) f = Some (Inl e)"
  "bind_run (Some (Inr x)) f = f x"
  by (simp_all add: bind_run_def)

lemma bind_run_cong [fundef_cong]:
  "m = m' \<Longrightarrow> (\<And>x. m' = Some (Inr x) \<Longrightarrow> f x = f' x) \<Longrightarrow> bind_run m f = bind_run m' f'"
  by (auto simp: bind_run_def split: option.splits sum.splits)

lemma bind_run_eq_Some: "bind_run m f = Some (Inr y) \<longleftrightarrow> (\<exists>x. m = Some (Inr x) \<and> f x = Some (Inr y))"
  by (auto simp: bind_run_def split: option.splits sum.splits)

section \<open>Machine words\<close>

text \<open>A statement about one byte is a statement about the 256 values it can take.\<close>

lemma all_u8_iff: "(\<forall>c :: u8. P c) \<longleftrightarrow> (\<forall>n \<in> set [0..<256]. P (word_of_nat n))"
proof
  assume r: "\<forall>n \<in> set [0..<256]. P (word_of_nat n)"
  show "\<forall>c :: u8. P c"
  proof
    fix c :: u8
    have "unat c \<in> set [0..<256]"
      using unsigned_less [of c] by simp
    with r have "P (word_of_nat (unat c))" by blast
    then show "P c" by simp
  qed
qed simp

lemma unat_u8_less [simp]: "unat (c :: u8) < 256"
  using unsigned_less [of c] by simp

lemma unat_u16_less [simp]: "unat (c :: u16) < 65536"
  using unsigned_less [of c] by simp

lemma unat_u32_less [simp]: "unat (c :: u32) < 4294967296"
  using unsigned_less [of c] by simp

text \<open>Masks, shifts and disjoint unions as arithmetic on naturals.\<close>

lemma unat_and_mask:
  "unat (w AND mask n :: 'a::len word) = unat w mod 2 ^ n"
  by (metis take_bit_eq_mask take_bit_eq_mod unsigned_take_bit_eq)

lemma unat_drop_bit: "unat (drop_bit n w :: 'a::len word) = unat w div 2 ^ n"
  by (metis drop_bit_eq_div take_bit_length_eq unsigned_drop_bit_eq unsigned_take_bit_eq)

lemma unat_push_bit:
  assumes "unat w * 2 ^ n < 2 ^ LENGTH('a)"
  shows "unat (push_bit n w :: 'a::len word) = unat w * 2 ^ n"
proof -
  have "unat (push_bit n w) = take_bit LENGTH('a) (push_bit n (unat w))"
    by (rule unsigned_push_bit_eq)
  also have "\<dots> = take_bit LENGTH('a) (unat w * 2 ^ n)"
    by (simp only: push_bit_eq_mult [of n "unat w"])
  finally have "unat (push_bit n w) = take_bit LENGTH('a) (unat w * 2 ^ n)" .
  with assms show ?thesis by (simp add: take_bit_nat_eq_self)
qed

lemma unat_or_disjoint:
  assumes "unat a < 2 ^ n" and "2 ^ n dvd unat b"
  shows "unat (a OR b :: 'a::len word) = unat a + unat b"
proof -
  from assms(2) obtain k where k: "unat b = push_bit n k"
    by (metis dvd_def mult.commute push_bit_eq_mult)
  have "unat a AND unat b = 0"
  proof (rule bit_eqI)
    fix m
    have "m < n" if "bit (unat a) m"
      using assms(1) that by (metis bit_take_bit_iff take_bit_nat_eq_self)
    then show "bit (unat a AND unat b) m = bit (0 :: nat) m"
      by (auto simp: k bit_and_iff bit_push_bit_iff)
  qed
  then show ?thesis
    by (simp add: unsigned_or_eq disjunctive_add_eq_or)
qed

lemma append_nul_eq:
  "x \<notin> set xs \<Longrightarrow> x \<notin> set ys \<Longrightarrow> xs @ x # r = ys @ x # r' \<longleftrightarrow> xs = ys \<and> r = r'"
proof (induction xs arbitrary: ys)
  case Nil
  then show ?case by (cases ys) auto
next
  case (Cons a xs)
  then show ?case by (cases ys) auto
qed

lemma unat_ucast_up:
  "unat (ucast (c :: u8) :: u32) = unat c"
  "unat (ucast (d :: u16) :: u32) = unat d"
proof -
  have "unat c < 2 ^ 32" and "unat d < 2 ^ 32"
    by (rule less_trans [OF unat_u8_less], simp) (rule less_trans [OF unat_u16_less], simp)
  then show "unat (ucast c :: u32) = unat c" and "unat (ucast d :: u32) = unat d"
    by (simp_all add: unsigned_ucast_eq take_bit_nat_eq_self)
qed

lemma unat_join:
  assumes "unat b < 2 ^ n" and "unat a * 2 ^ n < 2 ^ LENGTH('a)"
  shows "unat (push_bit n a OR b :: 'a::len word) = unat a * 2 ^ n + unat b"
proof -
  have p: "unat (push_bit n a) = unat a * 2 ^ n"
    using assms(2) by (rule unat_push_bit)
  have "unat (b OR push_bit n a) = unat b + unat (push_bit n a)"
    using assms(1) by (rule unat_or_disjoint) (simp add: p)
  then show ?thesis by (simp add: p or.commute)
qed

lemma mod_base: "m dvd b \<Longrightarrow> x < m \<Longrightarrow> (b + x) mod m = (x :: nat)"
  by (auto elim!: dvdE)

end
