(* ===== verification/Json_Buffer.thy ===== *)
theory Json_Buffer
  imports Prelude
begin

text \<open>
  The string buffer \<^verbatim>\<open>SB\<close> of \<^verbatim>\<open>src/src/json.c\<close>.  \<open>sb_data\<close> is what lies between
  \<^verbatim>\<open>start\<close> and \<^verbatim>\<open>cur\<close>, \<open>sb_alloc\<close> is \<^verbatim>\<open>end - start\<close>; the block behind \<^verbatim>\<open>start\<close>
  has \<open>sb_alloc + 1\<close> bytes.  A store that leaves this block is \<open>Out_Of_Bounds\<close>, so the
  theorems here say that the buffer is never overrun.  Running out of memory ends the
  process in the source and is not modelled.  Sizes are natural numbers here; they stand for the
  machine integers of the source as long as pieces are shorter than \<open>2 ^ 31\<close> and buffers than
  \<open>2 ^ 61\<close> bytes, which \<open>Json_Buffer_Int\<close> proves.
\<close>

section \<open>The buffer\<close>

record sb =
  sb_data :: bytes
  sb_alloc :: nat

definition sb_init :: sb where
  "sb_init = \<lparr>sb_data = [], sb_alloc = 16\<rparr>"

text \<open>The loop of \<^verbatim>\<open>sb_grow\<close>: doubling never ends when the size is 0.\<close>

function grow_alloc :: "nat \<Rightarrow> nat \<Rightarrow> err + nat" where
  "grow_alloc alloc want =
     (if 2 * alloc < want then (if alloc = 0 then Inl Diverges else grow_alloc (2 * alloc) want)
      else Inr (2 * alloc))"
  by pat_completeness auto
termination
  by (relation "measure (\<lambda>(alloc, want). want - alloc)") auto

declare grow_alloc.simps [simp del]

definition sb_grow :: "sb \<Rightarrow> nat \<Rightarrow> err + sb" where
  "sb_grow b need =
     bind_res (grow_alloc (sb_alloc b) (length (sb_data b) + need)) (\<lambda>alloc.
       Inr (b\<lparr>sb_alloc := alloc\<rparr>))"

definition sb_need :: "sb \<Rightarrow> nat \<Rightarrow> err + sb" where
  "sb_need b need =
     (if int (sb_alloc b) - int (length (sb_data b)) < int need then sb_grow b need else Inr b)"

text \<open>Stores through \<^verbatim>\<open>cur\<close> (or a copy of it), after which \<^verbatim>\<open>cur\<close> points behind them.\<close>

definition sb_store :: "sb \<Rightarrow> bytes \<Rightarrow> err + sb" where
  "sb_store b xs =
     (if length (sb_data b) + length xs \<le> sb_alloc b + 1
      then Inr (b\<lparr>sb_data := sb_data b @ xs\<rparr>) else Inl Out_Of_Bounds)"

definition sb_put :: "sb \<Rightarrow> bytes \<Rightarrow> err + sb" where
  "sb_put b xs = bind_res (sb_need b (length xs)) (\<lambda>b'. sb_store b' xs)"

definition sb_putc :: "sb \<Rightarrow> u8 \<Rightarrow> err + sb" where
  "sb_putc b c =
     bind_res (if length (sb_data b) \<ge> sb_alloc b then sb_grow b 1 else Inr b) (\<lambda>b'.
       sb_store b' [c])"

definition sb_puts :: "sb \<Rightarrow> bytes \<Rightarrow> err + sb" where
  "sb_puts b str = sb_put b str"

definition sb_finish :: "sb \<Rightarrow> err + bytes" where
  "sb_finish b =
     bind_res (sb_store b [0]) (\<lambda>_.
     bind_res (check_that (length (takeWhile (\<lambda>c. c \<noteq> 0) (sb_data b @ [0])) = length (sb_data b))
                 Assertion) (\<lambda>_.
       Inr (sb_data b)))"

text \<open>Every reachable buffer has room, and what is written fits in it.\<close>

definition sb_inv :: "sb \<Rightarrow> bool" where
  "sb_inv b \<longleftrightarrow> 0 < sb_alloc b \<and> length (sb_data b) \<le> sb_alloc b"

section \<open>Growing\<close>

lemma grow_alloc_enough:
  assumes "0 < alloc"
  shows "\<exists>a k. grow_alloc alloc want = Inr a \<and> a = alloc * 2 ^ Suc k \<and> want \<le> a \<and>
    (a = 2 * alloc \<or> a < 2 * want)"
  using assms
proof (induction alloc want rule: grow_alloc.induct)
  case (1 alloc want)
  show ?case
  proof (cases "2 * alloc < want")
    case True
    have "\<exists>a k. grow_alloc (2 * alloc) want = Inr a \<and> a = 2 * alloc * 2 ^ Suc k \<and> want \<le> a \<and>
        (a = 2 * (2 * alloc) \<or> a < 2 * want)"
      by (rule 1(1) [OF True]) (use 1(2) in simp_all)
    then obtain a k where "grow_alloc (2 * alloc) want = Inr a" "a = 2 * alloc * 2 ^ Suc k"
      "want \<le> a" "a = 2 * (2 * alloc) \<or> a < 2 * want"
      by blast
    moreover have "2 * alloc * 2 ^ Suc k = alloc * 2 ^ Suc (Suc k)" by simp
    ultimately show ?thesis
      using True 1(2) by (subst grow_alloc.simps) (auto simp del: power_Suc)
  next
    case False
    then show ?thesis by (subst grow_alloc.simps) (auto intro: exI [of _ 0])
  qed
qed

lemma sb_grow_room:
  assumes "sb_inv b"
  shows "\<exists>b'. sb_grow b need = Inr b' \<and> sb_inv b' \<and> sb_data b' = sb_data b \<and>
    length (sb_data b) + need \<le> sb_alloc b'"
proof -
  obtain a k where "grow_alloc (sb_alloc b) (length (sb_data b) + need) = Inr a"
    "a = sb_alloc b * 2 ^ Suc k" "length (sb_data b) + need \<le> a"
    using grow_alloc_enough assms unfolding sb_inv_def by blast
  with assms show ?thesis by (auto simp: sb_grow_def sb_inv_def)
qed

lemma sb_need_room:
  assumes "sb_inv b"
  shows "\<exists>b'. sb_need b need = Inr b' \<and> sb_inv b' \<and> sb_data b' = sb_data b \<and>
    length (sb_data b) + need \<le> sb_alloc b'"
  using assms sb_grow_room [OF assms, of need] by (auto simp: sb_need_def)

lemma sb_store_fits:
  assumes "sb_inv b" and "length (sb_data b) + length xs \<le> sb_alloc b"
  shows "sb_store b xs = Inr (b\<lparr>sb_data := sb_data b @ xs\<rparr>)" and
    "sb_inv (b\<lparr>sb_data := sb_data b @ xs\<rparr>)"
  using assms by (simp_all add: sb_store_def sb_inv_def)

lemma sb_inv_init: "sb_inv sb_init"
  by (simp add: sb_inv_def sb_init_def)

lemma sb_finish_data:
  assumes "sb_inv b" and "0 \<notin> set (sb_data b)"
  shows "sb_finish b = Inr (sb_data b)"
proof -
  have "takeWhile (\<lambda>c. c \<noteq> 0) (sb_data b @ [0]) = sb_data b"
    using assms(2) by (subst takeWhile_append2) auto
  with assms show ?thesis
    by (simp add: sb_finish_def sb_store_def sb_inv_def)
qed

section \<open>Sinks of bytes\<close>

text \<open>
  What the emitters rely on: appending to a sink that is in a good state succeeds, leaves a
  good state and adds exactly the given bytes.  A \<^emph>\<open>writer\<close> of \<open>xs\<close> is an operation with
  the same contract; writers compose.
\<close>

locale byte_sink =
  fixes inv :: "'s \<Rightarrow> bool"
    and content :: "'s \<Rightarrow> bytes"
    and put :: "'s \<Rightarrow> bytes \<Rightarrow> err + 's"
  assumes put_ok: "inv s \<Longrightarrow> \<exists>s'. put s xs = Inr s' \<and> inv s' \<and> content s' = content s @ xs"
begin

definition writes :: "('s \<Rightarrow> err + 's) \<Rightarrow> bytes \<Rightarrow> bool" where
  "writes w xs \<longleftrightarrow> (\<forall>s. inv s \<longrightarrow> (\<exists>s'. w s = Inr s' \<and> inv s' \<and> content s' = content s @ xs))"

lemma writesI:
  "(\<And>s. inv s \<Longrightarrow> \<exists>s'. w s = Inr s' \<and> inv s' \<and> content s' = content s @ xs) \<Longrightarrow> writes w xs"
  by (simp add: writes_def)

lemma writesD:
  "writes w xs \<Longrightarrow> inv s \<Longrightarrow> \<exists>s'. w s = Inr s' \<and> inv s' \<and> content s' = content s @ xs"
  by (simp add: writes_def)

lemma writes_put: "writes (\<lambda>s. put s xs) xs"
  using put_ok by (rule writesI)

lemma writes_skip: "writes Inr []"
  by (simp add: writes_def)

lemma writes_seq:
  assumes "writes w xs" and "writes v ys"
  shows "writes (\<lambda>s. bind_res (w s) v) (xs @ ys)"
proof (rule writesI)
  fix s assume "inv s"
  then obtain s1 where 1: "w s = Inr s1" "inv s1" "content s1 = content s @ xs"
    using assms(1) writesD by blast
  then obtain s2 where "v s1 = Inr s2" "inv s2" "content s2 = content s1 @ ys"
    using assms(2) writesD by blast
  with 1 show "\<exists>s'. bind_res (w s) v = Inr s' \<and> inv s' \<and> content s' = content s @ xs @ ys"
    by auto
qed

lemma writes_if: "(b \<Longrightarrow> writes w xs) \<Longrightarrow> (\<not> b \<Longrightarrow> writes v xs) \<Longrightarrow> writes (\<lambda>s. if b then w s else v s) xs"
  by (cases b) simp_all

end

text \<open>The buffer is such a sink, with \<^verbatim>\<open>sb_put\<close> and with \<^verbatim>\<open>sb_putc\<close>.\<close>

lemma sb_put_ok:
  assumes "sb_inv b"
  shows "\<exists>b'. sb_put b xs = Inr b' \<and> sb_inv b' \<and> sb_data b' = sb_data b @ xs"
proof -
  obtain b1 where "sb_need b (length xs) = Inr b1" "sb_inv b1" "sb_data b1 = sb_data b"
    "length (sb_data b) + length xs \<le> sb_alloc b1"
    using sb_need_room [OF assms] by blast
  then show ?thesis
    using sb_store_fits [of b1 xs] by (simp add: sb_put_def)
qed

lemma sb_putc_ok:
  assumes "sb_inv b"
  shows "\<exists>b'. sb_putc b c = Inr b' \<and> sb_inv b' \<and> sb_data b' = sb_data b @ [c]"
proof (cases "length (sb_data b) \<ge> sb_alloc b")
  case True
  obtain b1 where "sb_grow b 1 = Inr b1" "sb_inv b1" "sb_data b1 = sb_data b"
    "length (sb_data b) + 1 \<le> sb_alloc b1"
    using sb_grow_room [OF assms] by blast
  with True show ?thesis
    using sb_store_fits [of b1 "[c]"] by (simp add: sb_putc_def)
next
  case False
  then show ?thesis
    using sb_store_fits [of b "[c]"] assms by (simp add: sb_putc_def)
qed

interpretation sb_sink: byte_sink sb_inv sb_data sb_put
  using sb_put_ok by unfold_locales

lemma sb_writes_putc: "sb_sink.writes (\<lambda>b. sb_putc b c) [c]"
  using sb_putc_ok by (rule sb_sink.writesI)

lemma sb_writes_puts: "sb_sink.writes (\<lambda>b. sb_puts b xs) xs"
  unfolding sb_puts_def by (rule sb_sink.writes_put)

end
