(* ===== verification/Json_Buffer_Int.thy ===== *)
theory Json_Buffer_Int
  imports Json_Buffer
begin

text \<open>
  The string buffer at the widths of \<^verbatim>\<open>src/src/json.c\<close>: \<^verbatim>\<open>count\<close> and \<^verbatim>\<open>need\<close> are of type \<^verbatim>\<open>int\<close>, the sizes in \<^verbatim>\<open>sb_grow\<close>
  of type \<^verbatim>\<open>size_t\<close>, and \<^verbatim>\<open>sb_puts\<close> narrows the result of \<^verbatim>\<open>strlen\<close> to \<^verbatim>\<open>int\<close>.  The parser and the printer are modelled on
  \<^verbatim>\<open>Json_Buffer\<close>, where sizes are natural numbers; here the two are shown to agree as long as each piece is
  shorter than \<open>2 ^ 31\<close> and the content at most \<open>2 ^ 61\<close> bytes.  A longer piece is another matter: \<^verbatim>\<open>sb_puts\<close> of a string of
  \<open>2 ^ 31\<close> bytes copies out of bounds.
\<close>

section \<open>The operations\<close>

text \<open>
  The loop of \<^verbatim>\<open>sb_grow\<close>, with a bound on its rounds: 64 doublings shift all bits out, and from a size of 0 the loop
  never ends.
\<close>

primrec grow_rounds :: "nat \<Rightarrow> 64 word \<Rightarrow> 64 word \<Rightarrow> err + 64 word" where
  "grow_rounds 0 alloc want = Inl Diverges"
| "grow_rounds (Suc n) alloc want =
     (let alloc = alloc * 2 in if alloc < want then grow_rounds n alloc want else Inr alloc)"

definition sb_grow_int :: "sb \<Rightarrow> int \<Rightarrow> err + sb" where
  "sb_grow_int b need =
     bind_res (grow_rounds 64 (of_nat (sb_alloc b)) (of_nat (length (sb_data b)) + of_int need)) (\<lambda>alloc.
       Inr (b\<lparr>sb_alloc := unat alloc\<rparr>))"

definition sb_need_int :: "sb \<Rightarrow> int \<Rightarrow> err + sb" where
  "sb_need_int b need =
     (if int (sb_alloc b) - int (length (sb_data b)) < need then sb_grow_int b need else Inr b)"

text \<open>\<open>bytes\<close> is the block the argument points to; \<^verbatim>\<open>memcpy\<close> takes a negative \<open>count\<close> for a number no block has.\<close>

definition sb_put_int :: "sb \<Rightarrow> bytes \<Rightarrow> int \<Rightarrow> err + sb" where
  "sb_put_int b bytes count =
     bind_res (sb_need_int b count) (\<lambda>b.
       if 0 \<le> count \<and> count \<le> int (length bytes) then sb_store b (take (nat count) bytes) else Inl Out_Of_Bounds)"

definition sb_putc_int :: "sb \<Rightarrow> u8 \<Rightarrow> err + sb" where
  "sb_putc_int b c =
     bind_res (if length (sb_data b) \<ge> sb_alloc b then sb_grow_int b 1 else Inr b) (\<lambda>b. sb_store b [c])"

definition c_strlen :: "bytes \<Rightarrow> err + nat" where
  "c_strlen s = (if 0 \<in> set s then Inr (length (takeWhile (\<lambda>c. c \<noteq> 0) s)) else Inl Out_Of_Bounds)"

definition narrow_int :: "nat \<Rightarrow> int" where
  "narrow_int n = sint (of_nat n :: 32 word)"

definition sb_puts_int :: "sb \<Rightarrow> bytes \<Rightarrow> err + sb" where
  "sb_puts_int b str = bind_res (c_strlen str) (\<lambda>n. sb_put_int b str (narrow_int n))"

section \<open>Agreement below the limits\<close>

lemma grow_rounds_eq:
  assumes "0 < alloc" "alloc \<le> 2 ^ 62" "want \<le> 2 ^ 62" "want \<le> alloc * 2 ^ n" "0 < n"
  shows "\<exists>a. grow_alloc alloc want = Inr a \<and> grow_rounds n (of_nat alloc) (of_nat want) = Inr (of_nat a)"
  using assms
proof (induction n arbitrary: alloc)
  case (Suc n)
  have w: "of_nat alloc * 2 = (of_nat (2 * alloc) :: 64 word)" by simp
  have u: "unat (of_nat k :: 64 word) = k" if "k < 2 ^ 64" for k using that by (simp add: unat_of_nat)
  have "unat (of_nat (2 * alloc) :: 64 word) = 2 * alloc" "unat (of_nat want :: 64 word) = want"
    by (rule u; use Suc.prems(2,3) in simp)+
  then have less: "of_nat (2 * alloc) < (of_nat want :: 64 word) \<longleftrightarrow> 2 * alloc < want"
    by (simp only: word_less_nat_alt)
  show ?case
  proof (cases "2 * alloc < want")
    case True
    then have "0 < n" using Suc.prems(4) by (cases n) simp_all
    then have "\<exists>a. grow_alloc (2 * alloc) want = Inr a \<and>
        grow_rounds n (of_nat (2 * alloc)) (of_nat want) = Inr (of_nat a)"
      using True Suc.prems by (intro Suc.IH) simp_all
    with True Suc.prems(1) show ?thesis
      unfolding grow_rounds.simps Let_def w less by (subst grow_alloc.simps) simp
  next
    case False
    then show ?thesis unfolding grow_rounds.simps Let_def w less by (subst grow_alloc.simps) simp
  qed
qed simp

lemma sb_grow_int_eq:
  assumes "sb_inv b" "sb_alloc b \<le> 2 ^ 62" "length (sb_data b) + need \<le> 2 ^ 62"
  shows "sb_grow_int b (int need) = sb_grow b need"
proof -
  let ?want = "length (sb_data b) + need"
  have "1 * (2 ^ 62 :: nat) \<le> sb_alloc b * 2 ^ 64" using assms(1) by (intro mult_le_mono) (simp_all add: sb_inv_def)
  then have "?want \<le> sb_alloc b * 2 ^ 64" using assms(3) by linarith
  then obtain a where a: "grow_alloc (sb_alloc b) ?want = Inr a"
    "grow_rounds 64 (of_nat (sb_alloc b)) (of_nat ?want) = Inr (of_nat a)"
    using grow_rounds_eq [of "sb_alloc b" ?want 64] assms by (auto simp: sb_inv_def)
  have "a \<le> 2 ^ 63"
    using grow_alloc_enough [of "sb_alloc b" ?want] a(1) assms by (auto simp: sb_inv_def)
  then have "unat (of_nat a :: 64 word) = a" by (simp add: unat_of_nat)
  with a show ?thesis by (simp add: sb_grow_int_def sb_grow_def)
qed

lemma sb_put_int_eq:
  assumes "sb_inv b" "sb_alloc b \<le> 2 ^ 62" "length (sb_data b) + n \<le> 2 ^ 62" "n \<le> length xs"
  shows "sb_put_int b xs (int n) = sb_put b (take n xs)"
proof -
  have "sb_need_int b (int n) = sb_need b (length (take n xs))"
    using assms sb_grow_int_eq [OF assms(1-3)] by (simp add: sb_need_int_def sb_need_def min_absorb2)
  with assms(4) show ?thesis by (simp add: sb_put_int_def sb_put_def)
qed

lemma sb_putc_int_eq:
  "sb_inv b \<Longrightarrow> sb_alloc b \<le> 2 ^ 62 \<Longrightarrow> length (sb_data b) + 1 \<le> 2 ^ 62 \<Longrightarrow> sb_putc_int b c = sb_putc b c"
  using sb_grow_int_eq [of b 1] by (simp add: sb_putc_int_def sb_putc_def)

lemma narrow_int_less: "n < 2 ^ 31 \<Longrightarrow> narrow_int n = int n"
  by (simp add: narrow_int_def signed_of_nat signed_take_bit_int_eq_self)

lemma sb_puts_int_eq:
  assumes "sb_inv b" "sb_alloc b \<le> 2 ^ 62" "length (sb_data b) + length (takeWhile (\<lambda>c. c \<noteq> 0) xs) \<le> 2 ^ 62"
    and "length (takeWhile (\<lambda>c. c \<noteq> 0) xs) < 2 ^ 31"
  shows "sb_puts_int b (cstr xs) = sb_puts b (takeWhile (\<lambda>c. c \<noteq> 0) xs)"
proof -
  have t: "takeWhile (\<lambda>c. c \<noteq> 0) (cstr xs) = takeWhile (\<lambda>c. c \<noteq> 0) xs"
    by (induction xs) (simp_all add: cstr_def)
  have "take (length (takeWhile (\<lambda>c. c \<noteq> 0) xs)) (cstr xs) = takeWhile (\<lambda>c. c \<noteq> 0) xs"
    unfolding t [symmetric] by (rule takeWhile_eq_take [symmetric])
  moreover have "length (takeWhile (\<lambda>c. c \<noteq> 0) xs) \<le> length (cstr xs)"
    unfolding t [symmetric] by (rule length_takeWhile_le)
  moreover have "0 \<in> set (cstr xs)" by (simp add: cstr_def)
  ultimately show ?thesis
    using sb_put_int_eq [OF assms(1-3), of "cstr xs"] narrow_int_less [OF assms(4)]
    by (simp add: sb_puts_int_def c_strlen_def t sb_puts_def)
qed

section \<open>Sequences of operations\<close>

datatype sb_call = Put bytes | Puts bytes | Putc u8

text \<open>The bytes an operation adds: \<^verbatim>\<open>sb_puts\<close> stops at the first zero.\<close>

fun call_bytes :: "sb_call \<Rightarrow> bytes" where
  "call_bytes (Put xs) = xs"
| "call_bytes (Puts xs) = takeWhile (\<lambda>c. c \<noteq> 0) xs"
| "call_bytes (Putc c) = [c]"

fun sb_do :: "sb_call \<Rightarrow> sb \<Rightarrow> err + sb" where
  "sb_do (Put xs) b = sb_put_int b xs (narrow_int (length xs))"
| "sb_do (Puts xs) b = sb_puts_int b (cstr xs)"
| "sb_do (Putc c) b = sb_putc_int b c"

primrec sb_calls :: "sb_call list \<Rightarrow> sb \<Rightarrow> err + sb" where
  "sb_calls [] b = Inr b"
| "sb_calls (x # xs) b = bind_res (sb_do x b) (sb_calls xs)"

text \<open>Capacities are \<open>16 * 2 ^ k\<close>, and no more than twice what is needed.\<close>

definition roomy :: "sb \<Rightarrow> bool" where
  "roomy b \<longleftrightarrow> sb_inv b \<and> (\<exists>k. sb_alloc b = 16 * 2 ^ k) \<and> (sb_alloc b = 16 \<or> sb_alloc b \<le> 2 * length (sb_data b))"

lemma roomy_le: "roomy b \<Longrightarrow> length (sb_data b) \<le> 2 ^ 61 \<Longrightarrow> sb_alloc b \<le> 2 ^ 62"
  by (auto simp: roomy_def)

lemma grow_store_roomy:
  assumes "roomy b" "sb_alloc b < length (sb_data b) + length xs"
  shows "\<exists>b'. bind_res (sb_grow b (length xs)) (\<lambda>b. sb_store b xs) = Inr b' \<and> roomy b' \<and> sb_data b' = sb_data b @ xs"
proof -
  have inv: "sb_inv b" using assms(1) by (simp add: roomy_def)
  obtain a k where g: "grow_alloc (sb_alloc b) (length (sb_data b) + length xs) = Inr a" "a = sb_alloc b * 2 ^ Suc k"
    "length (sb_data b) + length xs \<le> a" "a = 2 * sb_alloc b \<or> a < 2 * (length (sb_data b) + length xs)"
    using grow_alloc_enough inv unfolding sb_inv_def by blast
  define b1 where "b1 = b\<lparr>sb_alloc := a\<rparr>"
  have b1: "sb_grow b (length xs) = Inr b1" "sb_inv b1" "length (sb_data b1) + length xs \<le> sb_alloc b1"
    using g inv by (simp_all add: sb_grow_def b1_def sb_inv_def)
  obtain j where "sb_alloc b = 16 * 2 ^ j" using assms(1) by (auto simp: roomy_def)
  then have "a = 16 * 2 ^ (j + Suc k)" using g(2) by (simp add: power_add)
  then have "\<exists>k. a = 16 * 2 ^ k" by blast
  moreover have "a \<le> 2 * (length (sb_data b) + length xs)" using g(4) assms(2) by auto
  ultimately show ?thesis
    using b1 sb_store_fits [OF b1(2,3)] by (simp add: roomy_def b1_def)
qed

lemma store_roomy:
  "roomy b \<Longrightarrow> length (sb_data b) + length xs \<le> sb_alloc b \<Longrightarrow>
   \<exists>b'. sb_store b xs = Inr b' \<and> roomy b' \<and> sb_data b' = sb_data b @ xs"
  using sb_store_fits [of b xs] by (auto simp: roomy_def)

lemma sb_put_roomy: "roomy b \<Longrightarrow> \<exists>b'. sb_put b xs = Inr b' \<and> roomy b' \<and> sb_data b' = sb_data b @ xs"
  using grow_store_roomy [of b xs] store_roomy [of b xs] by (auto simp: sb_put_def sb_need_def)

lemma sb_putc_roomy: "roomy b \<Longrightarrow> \<exists>b'. sb_putc b c = Inr b' \<and> roomy b' \<and> sb_data b' = sb_data b @ [c]"
  using grow_store_roomy [of b "[c]"] store_roomy [of b "[c]"] by (auto simp: sb_putc_def)

lemma sb_call_roomy:
  assumes b: "roomy b" and x: "length (call_bytes x) < 2 ^ 31" "length (sb_data b) + length (call_bytes x) \<le> 2 ^ 61"
  shows "\<exists>b'. sb_do x b = Inr b' \<and> roomy b' \<and> sb_data b' = sb_data b @ call_bytes x"
proof -
  have inv: "sb_inv b" using b by (simp add: roomy_def)
  have le: "sb_alloc b \<le> 2 ^ 62" by (rule roomy_le [OF b]) (use x(2) in simp)
  show ?thesis
  proof (cases x)
    case (Put xs)
    then show ?thesis
      using sb_put_int_eq [OF inv le, of "length xs" xs] sb_put_roomy [OF b] x narrow_int_less [of "length xs"] by simp
  next
    case (Puts xs)
    then show ?thesis using sb_puts_int_eq [OF inv le, of xs] sb_put_roomy [OF b] x by (simp add: sb_puts_def)
  next
    case (Putc c)
    then show ?thesis using sb_putc_int_eq [OF inv le] sb_putc_roomy [OF b] x(2) by simp
  qed
qed

lemma sb_calls_roomy:
  "roomy b \<Longrightarrow> \<forall>x \<in> set xs. length (call_bytes x) < 2 ^ 31 \<Longrightarrow>
   length (sb_data b) + length (concat (List.map call_bytes xs)) \<le> 2 ^ 61 \<Longrightarrow>
   \<exists>b'. sb_calls xs b = Inr b' \<and> roomy b' \<and> sb_data b' = sb_data b @ concat (List.map call_bytes xs)"
proof (induction xs arbitrary: b)
  case (Cons x xs)
  have "\<exists>b'. sb_do x b = Inr b' \<and> roomy b' \<and> sb_data b' = sb_data b @ call_bytes x"
    by (rule sb_call_roomy [OF Cons.prems(1)]) (use Cons.prems in simp_all)
  then obtain b1 where b1: "sb_do x b = Inr b1" "roomy b1" "sb_data b1 = sb_data b @ call_bytes x" by blast
  have "\<exists>b'. sb_calls xs b1 = Inr b' \<and> roomy b' \<and> sb_data b' = sb_data b1 @ concat (List.map call_bytes xs)"
    by (rule Cons.IH [OF b1(2)]) (use Cons.prems b1(3) in simp_all)
  with b1 show ?case by auto
qed simp

lemma roomy_init: "roomy sb_init"
  using sb_inv_init by (auto simp: roomy_def sb_init_def intro: exI [of _ 0])

section \<open>Beyond the limits\<close>

text \<open>\<^verbatim>\<open>sb_puts\<close> of a string of \<open>2 ^ 31\<close> bytes or more takes its length for negative.\<close>

lemma sb_puts_overrun:
  assumes "sb_inv b" "c_strlen str = Inr n" "2 ^ 31 \<le> n" "n < 2 ^ 32"
  shows "sb_puts_int b str = Inl Out_Of_Bounds"
proof -
  have "int n div 2 ^ 31 = 1"
    by (rule int_div_pos_eq [where r = "int n - 2 ^ 31"]) (use assms(3,4) in simp_all)
  then have "bit (int n) 31" by (simp add: bit_iff_odd)
  moreover have "take_bit 32 (int n) = int n" using assms(4) by (simp add: take_bit_int_eq_self)
  ultimately have "narrow_int n = int n - 2 ^ 32"
    by (simp add: narrow_int_def signed_of_nat signed_take_bit_eq_take_bit_minus)
  then have "narrow_int n < 0" using assms(4) by simp
  with assms(1,2) show ?thesis by (simp add: sb_puts_int_def sb_put_int_def sb_need_int_def sb_inv_def)
qed

end
