(* ===== verification/Json_Lex.thy ===== *)
theory Json_Lex
  imports Prelude
begin

text \<open>
  The lexical functions of \<^verbatim>\<open>src/src/json.c\<close>: white space, literals, four-digit
  hexadecimal numbers and the strict scanner of JSON numbers.  Each is shown to keep the
  contract \<open>lexer\<close>: it consumes a prefix without a zero byte, and on a zero-terminated
  block its only failure is its own rejection, so it never reads outside the block.
\<close>

section \<open>The functions of the source\<close>

definition is_space :: "u8 \<Rightarrow> bool" where
  "is_space c \<longleftrightarrow> c = 0x09 \<or> c = 0x0A \<or> c = 0x0D \<or> c = 0x20"

definition is_digit :: "u8 \<Rightarrow> bool" where
  "is_digit c \<longleftrightarrow> c \<ge> 0x30 \<and> c \<le> 0x39"

fun skip_space :: "cursor \<Rightarrow> err + cursor" where
  "skip_space [] = Inl Out_Of_Bounds"
| "skip_space (c # s) = (if is_space c then skip_space s else Inr (c # s))"

fun expect_literal :: "cursor \<Rightarrow> bytes \<Rightarrow> err + cursor" where
  "expect_literal s [] = Inr s"
| "expect_literal [] (x # str) = Inl Out_Of_Bounds"
| "expect_literal (c # s) (x # str) = (if c \<noteq> x then Inl Rejected else expect_literal s str)"

text \<open>\<^verbatim>\<open>parse_hex16\<close>: the loop over \<^verbatim>\<open>i\<close>, with the accumulator \<^verbatim>\<open>ret\<close>.\<close>

definition hex_digit :: "u8 \<Rightarrow> u16 option" where
  "hex_digit c =
     (if c \<ge> 0x30 \<and> c \<le> 0x39 then Some (ucast (c - 0x30))
      else if c \<ge> 0x41 \<and> c \<le> 0x46 then Some (ucast (c - 0x41 + 10))
      else if c \<ge> 0x61 \<and> c \<le> 0x66 then Some (ucast (c - 0x61 + 10))
      else None)"

fun parse_hex16_loop :: "nat \<Rightarrow> u16 \<Rightarrow> cursor \<Rightarrow> err + (u16 \<times> cursor)" where
  "parse_hex16_loop 0 ret s = Inr (ret, s)"
| "parse_hex16_loop (Suc i) ret s =
     bind_res (read_inc s) (\<lambda>(c, s').
       case hex_digit c of
         None \<Rightarrow> Inl Rejected
       | Some tmp \<Rightarrow> parse_hex16_loop i (push_bit 4 ret + tmp) s')"

definition parse_hex16 :: "cursor \<Rightarrow> err + (u16 \<times> cursor)" where
  "parse_hex16 s = parse_hex16_loop 4 0 s"

definition hex_chars :: bytes where
  "hex_chars = ascii ''0123456789ABCDEF''"

definition write_hex16 :: "u16 \<Rightarrow> bytes" where
  "write_hex16 val =
     [hex_chars ! unat (drop_bit 12 val AND 0xF), hex_chars ! unat (drop_bit 8 val AND 0xF),
      hex_chars ! unat (drop_bit 4 val AND 0xF), hex_chars ! unat (val AND 0xF)]"

text \<open>
  \<^verbatim>\<open>parse_number\<close>.  The loops \<^verbatim>\<open>do s++; while (is_digit(*s))\<close> run after a check that
  \<^verbatim>\<open>*s\<close> is a digit: \<open>digits1\<close> is the check and the loop.
\<close>

fun skip_digits :: "cursor \<Rightarrow> err + cursor" where
  "skip_digits [] = Inl Out_Of_Bounds"
| "skip_digits (c # s) = (if is_digit c then skip_digits s else Inr (c # s))"

definition digits1 :: "cursor \<Rightarrow> err + cursor" where
  "digits1 s = bind_res (deref s) (\<lambda>c. if \<not> is_digit c then Inl Rejected else skip_digits s)"

definition scan_int :: "cursor \<Rightarrow> err + cursor" where
  "scan_int s =
     bind_res (deref s) (\<lambda>c.
       let s1 = (if c = 0x2D then tl s else s)
       in bind_res (deref s1) (\<lambda>c1. if c1 = 0x30 then Inr (tl s1) else digits1 s1))"

definition scan_frac :: "cursor \<Rightarrow> err + cursor" where
  "scan_frac s = bind_res (deref s) (\<lambda>c. if c = 0x2E then digits1 (tl s) else Inr s)"

definition scan_exp :: "cursor \<Rightarrow> err + cursor" where
  "scan_exp s =
     bind_res (deref s) (\<lambda>c.
       if c = 0x45 \<or> c = 0x65 then
         bind_res (deref (tl s)) (\<lambda>c1.
           digits1 (if c1 = 0x2B \<or> c1 = 0x2D then tl (tl s) else tl s))
       else Inr s)"

text \<open>
  \<^verbatim>\<open>strtod\<close> of the C library is a parameter: it is applied to the cursor at which the
  number begins, as in the source.
\<close>

definition parse_number :: "(cursor \<Rightarrow> 'd) \<Rightarrow> bool \<Rightarrow> cursor \<Rightarrow> err + ('d option \<times> cursor)" where
  "parse_number strtod out s =
     bind_res (scan_int s) (\<lambda>s1. bind_res (scan_frac s1) (\<lambda>s2. bind_res (scan_exp s2) (\<lambda>s3.
       Inr (if out then Some (strtod s) else None, s3))))"

definition number_is_valid :: "cursor \<Rightarrow> err + bool" where
  "number_is_valid num =
     (case parse_number (\<lambda>_. ()) False num of
        Inr (_, s) \<Rightarrow> bind_res (deref s) (\<lambda>c. Inr (c = 0))
      | Inl e \<Rightarrow> (if e = Rejected then Inr False else Inl e))"

section \<open>The contract of the lexical functions\<close>

text \<open>\<open>advances s s'\<close>: the cursor moved from \<open>s\<close> to \<open>s'\<close> without passing a zero byte.\<close>

definition advances :: "cursor \<Rightarrow> cursor \<Rightarrow> bool" where
  "advances s s' \<longleftrightarrow> (\<exists>c. s = c @ s' \<and> 0 \<notin> set c)"

lemma advances_refl [simp, intro]: "advances s s"
  by (simp add: advances_def)

lemma advances_trans [trans]: "advances s t \<Longrightarrow> advances t u \<Longrightarrow> advances s u"
  by (fastforce simp: advances_def)

lemma advances_Cons: "c \<noteq> 0 \<Longrightarrow> advances s t \<Longrightarrow> advances (c # s) t"
  unfolding advances_def by (metis Cons_eq_appendI set_ConsD)

lemma advances_append: "0 \<notin> set c \<Longrightarrow> advances (c @ s) s"
  by (auto simp: advances_def)

lemma advances_terminated: "advances s t \<Longrightarrow> 0 \<in> set s \<Longrightarrow> 0 \<in> set t"
  by (auto simp: advances_def)

lemma advances_length: "advances s t \<Longrightarrow> length t \<le> length s"
  by (auto simp: advances_def)

locale lexer =
  fixes run :: "cursor \<Rightarrow> err + ('a \<times> cursor)"
  assumes run_advances: "run s = Inr (x, t) \<Longrightarrow> advances s t"
    and run_fails: "0 \<in> set s \<Longrightarrow> run s = Inl e \<Longrightarrow> e = Rejected"
begin

lemma run_terminated: "0 \<in> set s \<Longrightarrow> run s = Inr (x, t) \<Longrightarrow> 0 \<in> set t"
  using run_advances advances_terminated by blast

lemma run_length: "run s = Inr (x, t) \<Longrightarrow> length t \<le> length s"
  using run_advances advances_length by blast

lemma run_cases:
  assumes "0 \<in> set s"
  obtains (rejected) "run s = Inl Rejected"
    | (accepted) x t where "run s = Inr (x, t)" "advances s t" "0 \<in> set t"
proof (cases "run s")
  case (Inl e)
  with assms run_fails have "e = Rejected" by blast
  with Inl rejected show thesis by simp
next
  case (Inr r)
  then obtain x t where "run s = Inr (x, t)" by (cases r) simp
  with assms accepted run_advances run_terminated show thesis by blast
qed

end

text \<open>A lexer that consumes at least one byte when it accepts: what a recursive parser needs.\<close>

locale strict_lexer = lexer +
  assumes run_strict: "run s \<noteq> Inr (x, s)"
begin

lemma run_decreases: "run s = Inr (x, t) \<Longrightarrow> length t < length s"
  using run_advances run_strict by (fastforce simp: advances_def)

end

text \<open>Functions that return only the cursor, as lexers.\<close>

definition with_unit :: "(cursor \<Rightarrow> err + cursor) \<Rightarrow> cursor \<Rightarrow> err + (unit \<times> cursor)" where
  "with_unit f s = map_sum id (\<lambda>t. ((), t)) (f s)"

lemma with_unit_simps:
  "with_unit f s = Inr (u, t) \<longleftrightarrow> f s = Inr t"
  "with_unit f s = Inl e \<longleftrightarrow> f s = Inl e"
  by (cases "f s"; auto simp: with_unit_def)+

section \<open>White space and literals\<close>

lemma skip_space_advances: "skip_space s = Inr t \<Longrightarrow> advances s t"
  by (induction s rule: skip_space.induct)
    (auto simp: is_space_def intro: advances_Cons split: if_splits)

lemma skip_space_total: "0 \<in> set s \<Longrightarrow> \<exists>t. skip_space s = Inr t"
  by (induction s rule: skip_space.induct) (auto simp: is_space_def)

lemma skip_space_hd: "skip_space s = Inr t \<Longrightarrow> t \<noteq> [] \<and> \<not> is_space (hd t)"
  by (induction s rule: skip_space.induct) (auto split: if_splits)

lemma skip_space_stop: "\<not> is_space c \<Longrightarrow> skip_space (c # s) = Inr (c # s)"
  by simp

lemma skip_space_prefix:
  "\<forall>c \<in> set w. is_space c \<Longrightarrow> skip_space (w @ s) = skip_space s"
  by (induction w) auto

interpretation spaces: lexer "with_unit skip_space"
proof
  show "advances s t" if "with_unit skip_space s = Inr (x, t)" for s t and x :: unit
    using that by (simp add: with_unit_simps skip_space_advances)
  show "e = Rejected" if "0 \<in> set s" "with_unit skip_space s = Inl e" for s e
    using that skip_space_total [of s] by (auto simp: with_unit_simps)
qed

lemma expect_literal_iff:
  "0 \<notin> set str \<Longrightarrow> expect_literal s str = Inr t \<longleftrightarrow> s = str @ t"
  by (induction s str rule: expect_literal.induct) auto

lemma expect_literal_fails:
  "0 \<in> set s \<Longrightarrow> 0 \<notin> set str \<Longrightarrow> expect_literal s str = Inl e \<Longrightarrow> e = Rejected"
  by (induction s str rule: expect_literal.induct) (auto split: if_splits)

section \<open>Hexadecimal numbers\<close>

lemma hex_digit_nonzero: "hex_digit 0 = None"
  by (simp add: hex_digit_def)

lemma parse_hex16_loop_advances:
  "parse_hex16_loop i ret s = Inr (v, t) \<Longrightarrow> advances s t \<and> length s = i + length t"
  by (induction i ret s rule: parse_hex16_loop.induct)
    (auto simp: res_simps hex_digit_def intro!: advances_Cons split: option.splits if_splits)

lemma parse_hex16_loop_fails:
  "0 \<in> set s \<Longrightarrow> parse_hex16_loop i ret s = Inl e \<Longrightarrow> e = Rejected"
proof (induction i ret s rule: parse_hex16_loop.induct)
  case (2 i ret s)
  then show ?case
    by (cases s; cases "hd s = 0") (auto simp: res_simps hex_digit_nonzero split: option.splits)
qed simp

interpretation hex16: strict_lexer parse_hex16
proof
  show "advances s t" if "parse_hex16 s = Inr (x, t)" for s t x
    using that parse_hex16_loop_advances by (simp add: parse_hex16_def)
  show "e = Rejected" if "0 \<in> set s" "parse_hex16 s = Inl e" for s e
    using that parse_hex16_loop_fails by (simp add: parse_hex16_def)
  show "parse_hex16 s \<noteq> Inr (x, s)" for s x
    using parse_hex16_loop_advances [of 4 0 s x s] by (auto simp: parse_hex16_def)
qed

lemma hex_digit_chars:
  assumes "n < 16"
  shows "hex_digit (hex_chars ! n) = Some (word_of_nat n)"
proof -
  have "\<forall>n \<in> set [0..<16]. hex_digit (hex_chars ! n) = Some (word_of_nat n)"
    by code_simp
  with assms show ?thesis by simp
qed

lemma unat_nibbles:
  "unat (drop_bit 12 v AND 0xF :: u16) < 16" "unat (drop_bit 8 v AND 0xF :: u16) < 16"
  "unat (drop_bit 4 v AND 0xF :: u16) < 16" "unat (v AND 0xF :: u16) < 16"
  using unat_and_mask [of "drop_bit 12 v" 4] unat_and_mask [of "drop_bit 8 v" 4]
    unat_and_mask [of "drop_bit 4 v" 4] unat_and_mask [of v 4]
  by (simp_all add: mask_eq_exp_minus_1)

lemma nibbles_join:
  "push_bit 4 (push_bit 4 (push_bit 4 (push_bit 4 0 + (drop_bit 12 v AND 0xF)) +
     (drop_bit 8 v AND 0xF)) + (drop_bit 4 v AND 0xF)) + (v AND 0xF) = (v :: u16)"
proof -
  have m: "unat (drop_bit 12 v AND 0xF :: u16) = unat v div 4096"
    "unat (drop_bit 8 v AND 0xF :: u16) = unat v div 256 mod 16"
    "unat (drop_bit 4 v AND 0xF :: u16) = unat v div 16 mod 16"
    "unat (v AND 0xF :: u16) = unat v mod 16"
    using unat_and_mask [of "drop_bit 12 v" 4] unat_and_mask [of "drop_bit 8 v" 4]
      unat_and_mask [of "drop_bit 4 v" 4] unat_and_mask [of v 4] unat_u16_less [of v]
    by (simp_all add: mask_eq_exp_minus_1 unat_drop_bit)
  have d: "unat v div 256 = unat v div 16 div 16" "unat v div 4096 = unat v div 16 div 16 div 16"
    by (simp_all add: div_mult2_eq [symmetric])
  define a b c e where "a = unat v div 4096" and "b = unat v div 256 mod 16"
    and "c = unat v div 16 mod 16" and "e = unat v mod 16"
  have r: "unat v = 4096 * a + 256 * b + 16 * c + e" "a < 16" "b < 16" "c < 16" "e < 16"
    using mult_div_mod_eq [of 16 "unat v"] mult_div_mod_eq [of 16 "unat v div 16"]
      mult_div_mod_eq [of 16 "unat v div 16 div 16"] unat_u16_less [of v]
    unfolding a_def b_def c_def e_def d by linarith+
  have step: "unat (push_bit 4 x + y) = 16 * unat x + unat y"
    if "unat x < 4096" "unat y < 16" for x y :: u16
    using that by (simp add: unat_plus_if' unat_push_bit)
  have 1: "unat (push_bit 4 (drop_bit 12 v AND 0xF) + (drop_bit 8 v AND 0xF)) = 16 * a + b"
    using r m by (subst step) (simp_all add: a_def b_def)
  have 2: "unat (push_bit 4 (push_bit 4 (drop_bit 12 v AND 0xF) + (drop_bit 8 v AND 0xF)) +
      (drop_bit 4 v AND 0xF)) = 16 * (16 * a + b) + c"
    using r m by (subst step) (simp_all only: 1, simp_all add: c_def)
  have "unat (push_bit 4 (push_bit 4 (push_bit 4 (drop_bit 12 v AND 0xF) +
      (drop_bit 8 v AND 0xF)) + (drop_bit 4 v AND 0xF)) + (v AND 0xF)) = unat v"
    using r m by (subst step) (simp_all only: 2, simp_all add: e_def)
  then show ?thesis
    by (simp only: word_eq_iff_unsigned [where ?'a = nat] push_bit_of_0 add_0)
qed

lemma parse_write_hex16: "parse_hex16 (write_hex16 v @ rest) = Inr (v, rest)"
proof -
  have "parse_hex16_loop 4 0 s = parse_hex16_loop (Suc (Suc (Suc (Suc 0)))) 0 s" for s
    by (simp add: numeral_eq_Suc)
  then have "parse_hex16 (write_hex16 v @ rest) = Inr
    (push_bit 4 (push_bit 4 (push_bit 4 (push_bit 4 0 + (drop_bit 12 v AND 0xF)) +
     (drop_bit 8 v AND 0xF)) + (drop_bit 4 v AND 0xF)) + (v AND 0xF), rest)"
    by (simp add: parse_hex16_def write_hex16_def hex_digit_chars unat_nibbles del: push_bit_and)
  then show ?thesis by (simp only: nibbles_join)
qed

lemma write_hex16_nonzero: "0 \<notin> set (write_hex16 v)"
proof -
  have "\<forall>n \<in> set [0..<16]. hex_chars ! n \<noteq> 0" by code_simp
  then have "hex_chars ! unat n \<noteq> 0" if "unat n < 16" for n :: u16
    using that by simp
  from this [OF unat_nibbles(1)] this [OF unat_nibbles(2)] this [OF unat_nibbles(3)]
    this [OF unat_nibbles(4)]
  show ?thesis by (simp add: write_hex16_def)
qed

section \<open>The grammar of numbers\<close>

text \<open>
  The grammar stated in the comment above \<^verbatim>\<open>parse_number\<close>:
  \<^verbatim>\<open>'-'? (0 | [1-9][0-9]*) ('.' [0-9]+)? ([Ee] [+-]? [0-9]+)?\<close>
\<close>

definition some_digits :: "bytes \<Rightarrow> bool" where
  "some_digits ds \<longleftrightarrow> ds \<noteq> [] \<and> list_all is_digit ds"

definition int_part :: "bytes \<Rightarrow> bool" where
  "int_part ip \<longleftrightarrow> ip = [0x30] \<or> (some_digits ip \<and> hd ip \<noteq> 0x30)"

definition frac_part :: "bytes \<Rightarrow> bool" where
  "frac_part fr \<longleftrightarrow> fr = [] \<or> (hd fr = 0x2E \<and> some_digits (tl fr))"

definition exp_part :: "bytes \<Rightarrow> bool" where
  "exp_part ex \<longleftrightarrow> ex = [] \<or>
     ((hd ex = 0x45 \<or> hd ex = 0x65) \<and>
      (some_digits (tl ex) \<or>
       (tl ex \<noteq> [] \<and> (hd (tl ex) = 0x2B \<or> hd (tl ex) = 0x2D) \<and> some_digits (tl (tl ex)))))"

definition json_number :: "bytes \<Rightarrow> bool" where
  "json_number t \<longleftrightarrow> (\<exists>sg ip fr ex. t = sg @ ip @ fr @ ex \<and> (sg = [] \<or> sg = [0x2D]) \<and>
     int_part ip \<and> frac_part fr \<and> exp_part ex)"

text \<open>A byte that cannot continue a number.\<close>

definition num_stop :: "u8 \<Rightarrow> bool" where
  "num_stop c \<longleftrightarrow> \<not> is_digit c \<and> c \<noteq> 0x2E \<and> c \<noteq> 0x45 \<and> c \<noteq> 0x65"

lemma is_digit_consts [simp]:
  "\<not> is_digit 0" "\<not> is_digit 0x2D" "\<not> is_digit 0x2B" "\<not> is_digit 0x2E" "\<not> is_digit 0x45"
  "\<not> is_digit 0x65" "is_digit 0x30"
  by (simp_all add: is_digit_def)

lemma skip_digits_all:
  "list_all is_digit ds \<Longrightarrow> \<not> is_digit c \<Longrightarrow> skip_digits (ds @ c # r) = Inr (c # r)"
  by (induction ds) simp_all

lemma skip_digits_split:
  "skip_digits s = Inr t \<Longrightarrow> \<exists>ds. s = ds @ t \<and> list_all is_digit ds \<and> t \<noteq> [] \<and> \<not> is_digit (hd t)"
proof (induction s rule: skip_digits.induct)
  case (2 c s)
  show ?case
  proof (cases "is_digit c")
    case True
    with 2 obtain ds where "s = ds @ t" "list_all is_digit ds" "t \<noteq> []" "\<not> is_digit (hd t)"
      by auto
    with True show ?thesis by (intro exI [of _ "c # ds"]) simp
  next
    case False
    with 2 show ?thesis by (intro exI [of _ "[]"]) auto
  qed
qed simp

lemma digits1_all:
  "some_digits ds \<Longrightarrow> \<not> is_digit c \<Longrightarrow> digits1 (ds @ c # r) = Inr (c # r)"
  by (cases ds) (simp_all add: some_digits_def digits1_def skip_digits_all)

lemma digits1_split:
  assumes "digits1 s = Inr t"
  shows "\<exists>ds. s = ds @ t \<and> some_digits ds \<and> t \<noteq> [] \<and> \<not> is_digit (hd t)"
proof -
  obtain c r where s: "s = c # r" "is_digit c" "skip_digits s = Inr t"
    using assms by (cases s) (auto simp: digits1_def split: if_splits)
  obtain ds where "s = ds @ t" "list_all is_digit ds" "t \<noteq> []" "\<not> is_digit (hd t)"
    using skip_digits_split [OF s(3)] by blast
  moreover have "ds \<noteq> []" using calculation s by auto
  ultimately show ?thesis by (auto simp: some_digits_def)
qed

lemma some_digits_nonzero: "some_digits ds \<Longrightarrow> 0 \<notin> set ds"
  by (auto simp: some_digits_def list_all_iff)

lemma digits1_fails: "0 \<in> set s \<Longrightarrow> digits1 s = Inl e \<Longrightarrow> e = Rejected"
proof -
  have "0 \<in> set s \<Longrightarrow> \<exists>t. skip_digits s = Inr t" for s
    by (induction s rule: skip_digits.induct) auto
  then show "0 \<in> set s \<Longrightarrow> digits1 s = Inl e \<Longrightarrow> e = Rejected"
    by (cases s) (fastforce simp: digits1_def res_simps split: if_splits)+
qed

subsection \<open>What the scanner accepts is a number\<close>

lemma scan_int_split:
  assumes "scan_int s = Inr t"
  shows "\<exists>sg ip. s = sg @ ip @ t \<and> (sg = [] \<or> sg = [0x2D]) \<and> int_part ip"
proof -
  obtain c r where s: "s = c # r" using assms by (cases s) (auto simp: scan_int_def)
  have body: "\<exists>ip. u = ip @ t \<and> int_part ip"
    if b: "bind_res (deref u) (\<lambda>c1. if c1 = 0x30 then Inr (tl u) else digits1 u) = Inr t" for u
  proof -
    obtain d v where u: "u = d # v" using b by (cases u) auto
    show ?thesis
    proof (cases "d = 0x30")
      case True
      with b u show ?thesis by (intro exI [of _ "[0x30]"]) (simp add: int_part_def)
    next
      case False
      with b u obtain ds where "u = ds @ t" "some_digits ds"
        using digits1_split [of u t] by auto
      moreover have "hd ds = d" using calculation u by (cases ds) (auto simp: some_digits_def)
      ultimately show ?thesis using False by (auto simp: int_part_def)
    qed
  qed
  show ?thesis
  proof (cases "c = 0x2D")
    case True
    with assms s body [of r] obtain ip where "r = ip @ t" "int_part ip"
      by (auto simp: scan_int_def)
    with True s show ?thesis by (intro exI [of _ "[0x2D]"] exI [of _ ip]) simp
  next
    case False
    with assms s have "bind_res (deref s) (\<lambda>c1. if c1 = 0x30 then Inr (tl s) else digits1 s) = Inr t"
      by (simp add: scan_int_def Let_def cong: if_cong)
    from body [OF this] obtain ip where "s = ip @ t" "int_part ip"
      by blast
    then show ?thesis by (intro exI [of _ "[]"] exI [of _ ip]) simp
  qed
qed

lemma scan_frac_split:
  assumes "scan_frac s = Inr t"
  shows "\<exists>fr. s = fr @ t \<and> frac_part fr"
proof -
  obtain c r where s: "s = c # r" using assms by (cases s) (auto simp: scan_frac_def)
  show ?thesis
  proof (cases "c = 0x2E")
    case True
    with assms s obtain ds where "r = ds @ t" "some_digits ds"
      using digits1_split [of r t] by (auto simp: scan_frac_def)
    with s True show ?thesis by (intro exI [of _ "c # ds"]) (simp add: frac_part_def)
  next
    case False
    with assms s show ?thesis by (intro exI [of _ "[]"]) (simp add: scan_frac_def frac_part_def)
  qed
qed

lemma scan_exp_split:
  assumes "scan_exp s = Inr t"
  shows "\<exists>ex. s = ex @ t \<and> exp_part ex"
proof -
  obtain c r where s: "s = c # r" using assms by (cases s) (auto simp: scan_exp_def)
  show ?thesis
  proof (cases "c = 0x45 \<or> c = 0x65")
    case e: True
    with assms s obtain d r' where r: "r = d # r'"
      by (cases r) (auto simp: scan_exp_def)
    show ?thesis
    proof (cases "d = 0x2B \<or> d = 0x2D")
      case True
      with e assms s r obtain ds where "r' = ds @ t" "some_digits ds"
        using digits1_split [of r' t] by (auto simp: scan_exp_def)
      with True e s r show ?thesis
        by (intro exI [of _ "c # d # ds"]) (auto simp: exp_part_def)
    next
      case False
      with e assms s r obtain ds where "r = ds @ t" "some_digits ds"
        using digits1_split [of r t] by (auto simp: scan_exp_def)
      with e s show ?thesis by (intro exI [of _ "c # ds"]) (auto simp: exp_part_def)
    qed
  next
    case False
    with assms s show ?thesis by (intro exI [of _ "[]"]) (simp add: scan_exp_def exp_part_def)
  qed
qed

lemma parse_number_sound:
  assumes "parse_number strtod out s = Inr (d, t)"
  shows "\<exists>n. s = n @ t \<and> json_number n \<and> d = (if out then Some (strtod s) else None)"
proof -
  from assms obtain s1 s2 where p: "scan_int s = Inr s1" "scan_frac s1 = Inr s2"
    "scan_exp s2 = Inr t" "d = (if out then Some (strtod s) else None)"
    by (auto simp: parse_number_def res_simps)
  from scan_int_split [OF p(1)] scan_frac_split [OF p(2)] scan_exp_split [OF p(3)]
  obtain sg ip fr ex where "s = sg @ ip @ fr @ ex @ t" "sg = [] \<or> sg = [0x2D]" "int_part ip"
    "frac_part fr" "exp_part ex" by blast
  with p(4) show ?thesis
    by (intro exI [of _ "sg @ ip @ fr @ ex"]) (auto simp: json_number_def)
qed

subsection \<open>Every number is accepted\<close>

lemma part_head:
  "exp_part ex \<Longrightarrow> num_stop c \<Longrightarrow> \<exists>h r'. ex @ c # r = h # r' \<and> \<not> is_digit h \<and> h \<noteq> 0x2E"
  "frac_part fr \<Longrightarrow> \<not> is_digit h \<Longrightarrow> \<exists>h' r'. fr @ h # r = h' # r' \<and> \<not> is_digit h'"
  by (cases ex; auto simp: exp_part_def num_stop_def)
    (cases fr; auto simp: frac_part_def)

lemma scan_int_all:
  assumes "sg = [] \<or> sg = [0x2D]" "int_part ip" "\<not> is_digit c"
  shows "scan_int (sg @ ip @ c # r) = Inr (c # r)"
proof -
  obtain d ds where ip: "ip = d # ds" using assms(2) by (cases ip) (auto simp: int_part_def some_digits_def)
  have "d \<noteq> 0x2D" using assms(2) ip by (auto simp: int_part_def some_digits_def)
  moreover have "(if d = 0x30 then Inr (ds @ c # r) else digits1 (ip @ c # r)) = Inr (c # r)"
    using assms(2,3) ip digits1_all [of ip c r] by (auto simp: int_part_def)
  ultimately show ?thesis
    using assms(1) ip by (auto simp: scan_int_def Let_def)
qed

lemma scan_frac_all:
  assumes "frac_part fr" "\<not> is_digit c" "c \<noteq> 0x2E"
  shows "scan_frac (fr @ c # r) = Inr (c # r)"
  using assms digits1_all [of "tl fr" c r] by (cases fr) (auto simp: frac_part_def scan_frac_def)

lemma scan_exp_all:
  assumes "exp_part ex" "num_stop c"
  shows "scan_exp (ex @ c # r) = Inr (c # r)"
proof (cases ex)
  case Nil
  with assms(2) show ?thesis by (simp add: scan_exp_def num_stop_def)
next
  case (Cons e ex')
  have "\<not> is_digit c" using assms(2) by (simp add: num_stop_def)
  moreover obtain d ds where "ex' = d # ds"
    using assms(1) Cons by (cases ex') (auto simp: exp_part_def some_digits_def)
  ultimately show ?thesis
    using assms(1) Cons digits1_all [of ex' c r] digits1_all [of ds c r]
    by (auto simp: exp_part_def scan_exp_def some_digits_def)
qed

lemma parse_number_complete:
  assumes "json_number n" and "num_stop c"
  shows "parse_number strtod out (n @ c # r) =
    Inr (if out then Some (strtod (n @ c # r)) else None, c # r)"
proof -
  from assms(1) obtain sg ip fr ex where n: "n = sg @ ip @ fr @ ex" "sg = [] \<or> sg = [0x2D]"
    "int_part ip" "frac_part fr" "exp_part ex" by (auto simp: json_number_def)
  obtain h r1 where h: "ex @ c # r = h # r1" "\<not> is_digit h" "h \<noteq> 0x2E"
    using part_head(1) [OF n(5) assms(2)] by blast
  obtain h' r2 where h': "fr @ h # r1 = h' # r2" "\<not> is_digit h'"
    using part_head(2) [OF n(4) h(2)] by blast
  have "scan_int (n @ c # r) = Inr (fr @ ex @ c # r)"
    using scan_int_all [OF n(2,3) h'(2), of r2] n(1) h h' by simp
  moreover have "scan_frac (fr @ ex @ c # r) = Inr (ex @ c # r)"
    using scan_frac_all [OF n(4) h(2,3), of r1] h by simp
  ultimately show ?thesis
    using scan_exp_all [OF n(5) assms(2)] by (simp add: parse_number_def)
qed

lemma json_number_nonzero: "json_number n \<Longrightarrow> 0 \<notin> set n"
proof -
  have "frac_part fr \<Longrightarrow> 0 \<notin> set fr" for fr
    using some_digits_nonzero [of "tl fr"] by (cases fr) (auto simp: frac_part_def)
  moreover have "exp_part ex \<Longrightarrow> 0 \<notin> set ex" for ex
    using some_digits_nonzero [of "tl ex"] some_digits_nonzero [of "tl (tl ex)"]
    by (cases ex; cases "tl ex") (auto simp: exp_part_def)
  moreover have "int_part ip \<Longrightarrow> 0 \<notin> set ip" for ip
    using some_digits_nonzero [of ip] by (auto simp: int_part_def)
  ultimately show "json_number n \<Longrightarrow> 0 \<notin> set n"
    by (auto simp: json_number_def)
qed

lemma parse_number_fails:
  assumes "0 \<in> set s" "parse_number strtod out s = Inl e"
  shows "e = Rejected"
proof -
  have i: "e = Rejected" if z: "0 \<in> set s" and f: "scan_int s = Inl e" for s e
    using that digits1_fails [of s e] digits1_fails [of "tl s" e]
    by (cases s; cases "tl s") (auto simp: scan_int_def res_simps Let_def split: if_splits)
  have fr: "e = Rejected" if "0 \<in> set s" "scan_frac s = Inl e" for s e
    using that digits1_fails [of "tl s" e]
    by (cases s) (auto simp: scan_frac_def split: if_splits)
  have ex: "e = Rejected" if "0 \<in> set s" "scan_exp s = Inl e" for s e
    using that digits1_fails [of "tl s" e] digits1_fails [of "tl (tl s)" e]
    by (cases s; cases "tl s") (auto simp: scan_exp_def split: if_splits)
  have z: "0 \<in> set s1" if "scan_int s = Inr s1" for s1
  proof -
    from scan_int_split [OF that] obtain sg ip where d: "s = sg @ ip @ s1" "sg = [] \<or> sg = [0x2D]"
      "int_part ip" by blast
    have "json_number ip"
      unfolding json_number_def
      using d(3) by (intro exI [of _ "[]"] exI [of _ ip]) (simp add: frac_part_def exp_part_def)
    with d assms(1) show ?thesis using json_number_nonzero by auto
  qed
  show ?thesis
  proof (cases "scan_int s")
    case (Inl e')
    with i [OF assms(1)] assms(2) show ?thesis by (simp add: parse_number_def)
  next
    case (Inr s1)
    note s1 = z [OF Inr]
    show ?thesis
    proof (cases "scan_frac s1")
      case (Inl e')
      with Inr fr [OF s1] assms(2) show ?thesis by (simp add: parse_number_def)
    next
      case s2: (Inr s2)
      obtain f where f: "s1 = f @ s2" "frac_part f" using scan_frac_split [OF s2] by blast
      have "json_number (0x30 # f)"
        unfolding json_number_def
        using f(2) by (intro exI [of _ "[]"] exI [of _ "[0x30]"] exI [of _ f])
          (simp add: int_part_def exp_part_def)
      then have "0 \<in> set s2" using f(1) s1 json_number_nonzero by fastforce
      with Inr s2 ex [of s2] assms(2) show ?thesis
        by (auto simp: parse_number_def res_simps)
    qed
  qed
qed

interpretation number: strict_lexer "parse_number strtod out" for strtod :: "cursor \<Rightarrow> 'd" and out
proof
  fix s t and x :: "'d option"
  assume "parse_number strtod out s = Inr (x, t)"
  from parse_number_sound [OF this] show "advances s t"
    using json_number_nonzero by (auto simp: advances_def)
next
  show "e = Rejected" if "0 \<in> set s" "parse_number strtod out s = Inl e" for s e
    using that by (rule parse_number_fails)
next
  fix s and x :: "'d option"
  have "\<not> json_number []" by (auto simp: json_number_def int_part_def some_digits_def)
  then show "parse_number strtod out s \<noteq> Inr (x, s)"
    using parse_number_sound [of strtod out s x s] by auto
qed

lemma number_is_valid_iff:
  assumes "0 \<notin> set n"
  shows "number_is_valid (cstr n) = Inr (json_number n)"
proof (cases "parse_number (\<lambda>_. ()) False (cstr n)")
  case (Inl e)
  have "e = Rejected" using parse_number_fails [OF _ Inl] by (simp add: cstr_def)
  moreover have "\<not> json_number n"
    using parse_number_complete [of n 0 "\<lambda>_. ()" False "[]"] Inl by (auto simp: cstr_def num_stop_def)
  ultimately show ?thesis using Inl by (simp add: number_is_valid_def)
next
  case (Inr r)
  obtain d t where r: "r = (d, t)" by (cases r)
  obtain m where m: "cstr n = m @ t" "json_number m"
    using parse_number_sound Inr r by blast
  have "0 \<notin> set m" using m(2) by (rule json_number_nonzero)
  then obtain c t' where t: "t = c # t'" using m(1) by (cases t) (auto simp: cstr_def)
  have "json_number n \<longleftrightarrow> c = 0"
  proof
    assume "json_number n"
    then have "t = [0]"
      using parse_number_complete [of n 0 "\<lambda>_. ()" False "[]"] Inr r by (simp add: cstr_def num_stop_def)
    with t show "c = 0" by simp
  next
    assume "c = 0"
    with m t \<open>0 \<notin> set m\<close> assms have "n = m" by (simp add: cstr_def append_nul_eq)
    with m show "json_number n" by simp
  qed
  with Inr r t show ?thesis by (simp add: number_is_valid_def)
qed

end
