(* ===== verification/Json_Utf8.thy ===== *)
theory Json_Utf8
  imports Prelude
begin

text \<open>
  The Unicode helpers of \<^verbatim>\<open>src/src/json.c\<close>: validation, reading and writing of one
  UTF-8 character, validation of a C string, and UTF-16 surrogate pairs.  The theorems show
  that the validator accepts exactly the encodings of the Unicode scalar values, that reading
  and writing are inverse to each other, and that no function looks behind the terminating
  zero byte.
\<close>

section \<open>The functions of the source\<close>

text \<open>
  \<^verbatim>\<open>utf8_validate_cz\<close>: the length of the character at the cursor, 0 if there is no valid one.
  The source reads the second byte once more for each range check; the value is the same.
\<close>

definition is_cont :: "u8 \<Rightarrow> bool" where
  "is_cont c \<longleftrightarrow> c AND 0xC0 = 0x80"

definition utf8_validate_cz :: "cursor \<Rightarrow> err + nat" where
  "utf8_validate_cz s =
     bind_res (read_inc s) (\<lambda>(c, s1).
       if c \<le> 0x7F then Inr 1
       else if c \<le> 0xC1 then Inr 0
       else if c \<le> 0xDF then
         bind_res (read_inc s1) (\<lambda>(c1, s2).
           if \<not> is_cont c1 then Inr 0 else Inr 2)
       else if c \<le> 0xEF then
         bind_res (read_inc s1) (\<lambda>(c1, s2).
           if c = 0xE0 \<and> c1 < 0xA0 then Inr 0
           else if c = 0xED \<and> c1 > 0x9F then Inr 0
           else if \<not> is_cont c1 then Inr 0
           else bind_res (read_inc s2) (\<lambda>(c2, s3).
             if \<not> is_cont c2 then Inr 0 else Inr 3))
       else if c \<le> 0xF4 then
         bind_res (read_inc s1) (\<lambda>(c1, s2).
           if c = 0xF0 \<and> c1 < 0x90 then Inr 0
           else if c = 0xF4 \<and> c1 > 0x8F then Inr 0
           else if \<not> is_cont c1 then Inr 0
           else bind_res (read_inc s2) (\<lambda>(c2, s3).
             if \<not> is_cont c2 then Inr 0
             else bind_res (read_inc s3) (\<lambda>(c3, s4).
               if \<not> is_cont c3 then Inr 0 else Inr 4)))
       else Inr 0)"

function utf8_validate :: "cursor \<Rightarrow> err + bool" where
  "utf8_validate s =
     bind_res (deref s) (\<lambda>c.
       if c = 0 then Inr True
       else bind_res (utf8_validate_cz s) (\<lambda>len.
         if len = 0 then Inr False else utf8_validate (drop len s)))"
  by pat_completeness auto
termination
  by (relation "measure length") (auto simp: deref_def split: list.splits)

declare utf8_validate.simps [simp del]

text \<open>\<^verbatim>\<open>c[i]\<close> through a pointer.\<close>

definition byte_at :: "cursor \<Rightarrow> nat \<Rightarrow> err + u8" where
  "byte_at s i = deref (drop i s)"

definition utf8_read_char :: "cursor \<Rightarrow> err + (nat \<times> u32)" where
  "utf8_read_char s =
     bind_res (utf8_validate_cz s) (\<lambda>len.
     bind_res (check_that (len \<noteq> 0) Assertion) (\<lambda>_.
     bind_res (byte_at s 0) (\<lambda>c0.
       if c0 \<le> 0x7F then Inr (1, ucast c0)
       else if c0 \<le> 0xDF then
         bind_res (byte_at s 1) (\<lambda>c1.
           Inr (2, push_bit 6 (ucast c0 AND 0x1F) OR (ucast c1 AND 0x3F)))
       else if c0 \<le> 0xEF then
         bind_res (byte_at s 1) (\<lambda>c1. bind_res (byte_at s 2) (\<lambda>c2.
           Inr (3, push_bit 12 (ucast c0 AND 0xF) OR
                   push_bit 6 (ucast c1 AND 0x3F) OR (ucast c2 AND 0x3F))))
       else
         bind_res (byte_at s 1) (\<lambda>c1. bind_res (byte_at s 2) (\<lambda>c2.
         bind_res (byte_at s 3) (\<lambda>c3.
           Inr (4, push_bit 18 (ucast c0 AND 0x7) OR push_bit 12 (ucast c1 AND 0x3F) OR
                   push_bit 6 (ucast c2 AND 0x3F) OR (ucast c3 AND 0x3F))))))))"

text \<open>\<^verbatim>\<open>utf8_write_char\<close> returns the bytes it stores at \<^verbatim>\<open>out\<close>; its return value is their number.\<close>

definition scalar :: "u32 \<Rightarrow> bool" where
  "scalar u \<longleftrightarrow> u \<le> 0x10FFFF \<and> \<not> (0xD800 \<le> u \<and> u \<le> 0xDFFF)"

definition utf8_enc :: "u32 \<Rightarrow> bytes" where
  "utf8_enc u =
     (if u \<le> 0x7F then [ucast u]
      else if u \<le> 0x7FF then
        [ucast (0xC0 OR drop_bit 6 u), ucast (0x80 OR (u AND 0x3F))]
      else if u \<le> 0xFFFF then
        [ucast (0xE0 OR drop_bit 12 u), ucast (0x80 OR (drop_bit 6 u AND 0x3F)),
         ucast (0x80 OR (u AND 0x3F))]
      else
        [ucast (0xF0 OR drop_bit 18 u), ucast (0x80 OR (drop_bit 12 u AND 0x3F)),
         ucast (0x80 OR (drop_bit 6 u AND 0x3F)), ucast (0x80 OR (u AND 0x3F))])"

definition utf8_write_char :: "u32 \<Rightarrow> err + bytes" where
  "utf8_write_char u = (if scalar u then Inr (utf8_enc u) else Inl Assertion)"

definition from_surrogate_pair :: "u16 \<Rightarrow> u16 \<Rightarrow> u32 option" where
  "from_surrogate_pair uc lc =
     (if uc \<ge> 0xD800 \<and> uc \<le> 0xDBFF \<and> lc \<ge> 0xDC00 \<and> lc \<le> 0xDFFF
      then Some (0x10000 + (push_bit 10 (ucast uc AND 0x3FF) OR ucast (lc AND 0x3FF)))
      else None)"

definition to_surrogate_pair :: "u32 \<Rightarrow> err + (u16 \<times> u16)" where
  "to_surrogate_pair u =
     (if u \<ge> 0x10000 \<and> u \<le> 0x10FFFF then
        (let n = u - 0x10000
         in Inr (ucast ((drop_bit 10 n AND 0x3FF) OR 0xD800), ucast ((n AND 0x3FF) OR 0xDC00)))
      else Inl Assertion)"

section \<open>Bytes as numbers\<close>

lemma unat_and_masks:
  "unat (x AND 0x3F :: u32) = unat x mod 64"
  "unat (x AND 0x1F :: u32) = unat x mod 32"
  "unat (x AND 0xF :: u32) = unat x mod 16"
  "unat (x AND 0x7 :: u32) = unat x mod 8"
  "unat (x AND 0x3FF :: u32) = unat x mod 1024"
  "unat (y AND 0x3FF :: u16) = unat y mod 1024"
  using unat_and_mask [of x 6] unat_and_mask [of x 5] unat_and_mask [of x 4]
    unat_and_mask [of x 3] unat_and_mask [of x 10] unat_and_mask [of y 10]
  by (simp_all add: mask_eq_exp_minus_1)

lemma unat_lead_byte:
  assumes "unat (a :: u32) < 2 ^ n" and "2 ^ n dvd unat (k :: u32)" and "unat k + 2 ^ n \<le> 256"
  shows "unat (ucast (k OR a) :: u8) = unat k + unat a"
proof -
  have "unat (k OR a) = unat k + unat a"
    using unat_or_disjoint [OF assms(1,2)] by (simp add: or.commute)
  then show ?thesis
    using assms by (simp add: unsigned_ucast_eq take_bit_nat_eq_self)
qed

lemma is_cont_iff: "is_cont c \<longleftrightarrow> 128 \<le> unat c \<and> unat c < 192"
proof -
  have "\<forall>c :: u8. is_cont c \<longleftrightarrow> 128 \<le> unat c \<and> unat c < 192"
    unfolding all_u8_iff is_cont_def by code_simp
  then show ?thesis by blast
qed

lemma scalar_iff:
  "scalar u \<longleftrightarrow> unat u < 1114112 \<and> \<not> (55296 \<le> unat u \<and> unat u < 57344)"
  by (auto simp: scalar_def word_le_nat_alt)

lemma unat_utf8_enc:
  assumes "unat u < 1114112"
  shows "List.map unat (utf8_enc u) =
    (let n = unat u in
     if n < 128 then [n]
     else if n < 2048 then [192 + n div 64, 128 + n mod 64]
     else if n < 65536 then [224 + n div 4096, 128 + (n div 64) mod 64, 128 + n mod 64]
     else [240 + n div 262144, 128 + (n div 4096) mod 64, 128 + (n div 64) mod 64,
           128 + n mod 64])"
proof -
  have tail: "unat (ucast (0x80 OR (x AND 0x3F)) :: u8) = 128 + unat x mod 64" for x :: u32
    by (subst unat_lead_byte [where n = 6]) (simp_all add: unat_and_masks)
  have lead2: "unat (ucast (0xC0 OR drop_bit 6 u) :: u8) = 192 + unat u div 64" if "unat u < 2048"
    using that by (subst unat_lead_byte [where n = 5]) (simp_all add: unat_drop_bit)
  have lead3: "unat (ucast (0xE0 OR drop_bit 12 u) :: u8) = 224 + unat u div 4096" if "unat u < 65536"
    using that by (subst unat_lead_byte [where n = 4]) (simp_all add: unat_drop_bit)
  have lead4: "unat (ucast (0xF0 OR drop_bit 18 u) :: u8) = 240 + unat u div 262144"
    using assms by (subst unat_lead_byte [where n = 3]) (simp_all add: unat_drop_bit)
  have ascii: "unat (ucast u :: u8) = unat u" if "unat u < 128"
    using that by (simp add: unsigned_ucast_eq take_bit_nat_eq_self)
  show ?thesis
    using assms
    by (auto simp: utf8_enc_def Let_def word_le_nat_alt tail lead2 lead3 lead4 ascii unat_drop_bit)
qed

lemma u8_eq_numeral: "(c :: u8) = numeral k \<longleftrightarrow> unat c = unat (numeral k :: u8)"
  by (rule word_eq_iff_unsigned)

lemmas u8_arith = is_cont_iff word_le_nat_alt word_less_nat_alt u8_eq_numeral

lemma map_unat_eq_iff: "List.map unat xs = List.map unat ys \<longleftrightarrow> xs = (ys :: bytes)"
  by (rule inj_map_eq_map) (simp add: inj_def word_eq_iff_unsigned [where ?'a = nat, symmetric])

section \<open>The validator accepts the encodings of the scalar values, and nothing else\<close>

lemma utf8_enc_length: "0 < length (utf8_enc u) \<and> length (utf8_enc u) \<le> 4"
  by (simp add: utf8_enc_def)

lemma utf8_validate_cz_enc:
  assumes "scalar u"
  shows "utf8_validate_cz (utf8_enc u @ rest) = Inr (length (utf8_enc u))"
proof -
  have n: "unat u < 1114112" "\<not> (55296 \<le> unat u \<and> unat u < 57344)"
    using assms by (simp_all add: scalar_iff)
  note e = unat_utf8_enc [OF n(1), unfolded Let_def]
  consider "unat u < 128" | "128 \<le> unat u" "unat u < 2048" | "2048 \<le> unat u" "unat u < 65536"
    | "65536 \<le> unat u" by linarith
  then show ?thesis
  proof cases
    case 1
    with e show ?thesis
      by (auto simp: map_eq_Cons_conv utf8_validate_cz_def u8_arith)
  next
    case 2
    with e n show ?thesis
      by (auto simp: map_eq_Cons_conv utf8_validate_cz_def u8_arith)
  next
    case 3
    have d: "unat u div 4096 = unat u div 64 div 64"
      by (simp add: div_mult2_eq [symmetric])
    have q: "unat u div 64 = 64 * (unat u div 4096) + unat u div 64 mod 64"
      unfolding d by simp
    have b: "32 \<le> unat u div 64" "unat u div 4096 < 16"
      "unat u < 55296 \<Longrightarrow> unat u div 64 < 864"
      using 3 by linarith+
    have r: "unat u div 4096 < 16"
      "unat u div 64 mod 64 < 32 \<Longrightarrow> 0 < unat u div 4096"
      "unat u div 4096 = 13 \<Longrightarrow> unat u < 55296 \<Longrightarrow> unat u div 64 mod 64 < 32"
      using q b by linarith+
    from 3 e n r show ?thesis
      by (auto simp: map_eq_Cons_conv utf8_validate_cz_def u8_arith)
  next
    case 4
    have d: "unat u div 262144 = unat u div 4096 div 64"
      by (simp add: div_mult2_eq [symmetric])
    have q: "unat u div 4096 = 64 * (unat u div 262144) + unat u div 4096 mod 64"
      unfolding d by simp
    have b: "16 \<le> unat u div 4096" "unat u div 262144 < 5" "unat u div 4096 < 272"
      using 4 n(1) by linarith+
    have r: "unat u div 262144 < 5"
      "unat u div 4096 mod 64 < 16 \<Longrightarrow> 0 < unat u div 262144"
      "unat u div 262144 = 4 \<Longrightarrow> unat u div 4096 mod 64 < 16"
      using q b by linarith+
    from 4 e n r show ?thesis
      by (auto simp: map_eq_Cons_conv utf8_validate_cz_def u8_arith)
  qed
qed

text \<open>The code point a byte sequence stands for, as a number.\<close>

lemma utf8_enc_of_nat:
  assumes "n < 1114112"
  shows "List.map unat (utf8_enc (word_of_nat n)) =
    (if n < 128 then [n]
     else if n < 2048 then [192 + n div 64, 128 + n mod 64]
     else if n < 65536 then [224 + n div 4096, 128 + (n div 64) mod 64, 128 + n mod 64]
     else [240 + n div 262144, 128 + (n div 4096) mod 64, 128 + (n div 64) mod 64,
           128 + n mod 64])"
proof -
  have u: "unat (word_of_nat n :: u32) = n"
    using assms by (simp add: unsigned_of_nat take_bit_nat_eq_self)
  show ?thesis
    using unat_utf8_enc [of "word_of_nat n"] assms by (simp only: u Let_def)
qed

lemma digits2:
  "(b :: nat) < 64 \<Longrightarrow> (64 * a + b) div 64 = a \<and> (64 * a + b) mod 64 = b"
  by simp

lemma utf8_scalar_intro:
  assumes "s = xs @ r" "n = length xs" "List.map unat xs = List.map unat (utf8_enc (word_of_nat m))"
    and "m < 1114112" "\<not> (55296 \<le> m \<and> m < 57344)"
  shows "\<exists>u r. scalar u \<and> s = utf8_enc u @ r \<and> n = length (utf8_enc u)"
proof -
  have "scalar (word_of_nat m)"
    using assms(4,5) by (simp add: scalar_iff unsigned_of_nat take_bit_nat_eq_self)
  moreover have "xs = utf8_enc (word_of_nat m)"
    using assms(3) by (simp only: map_unat_eq_iff)
  ultimately show ?thesis using assms(1,2) by blast
qed

lemma utf8_validate_cz_cases:
  assumes "utf8_validate_cz s = Inr n" and "n \<noteq> 0"
  obtains
      (one) c r where "s = c # r" "n = 1" "unat c < 128"
    | (two) c c1 r where "s = c # c1 # r" "n = 2" "194 \<le> unat c" "unat c < 224" "is_cont c1"
    | (three) c c1 c2 r where "s = c # c1 # c2 # r" "n = 3" "224 \<le> unat c" "unat c < 240"
        "is_cont c1" "is_cont c2" "unat c = 224 \<longrightarrow> 160 \<le> unat c1"
        "unat c = 237 \<longrightarrow> unat c1 < 160"
    | (four) c c1 c2 c3 r where "s = c # c1 # c2 # c3 # r" "n = 4" "240 \<le> unat c" "unat c < 245"
        "is_cont c1" "is_cont c2" "is_cont c3" "unat c = 240 \<longrightarrow> 144 \<le> unat c1"
        "unat c = 244 \<longrightarrow> unat c1 < 144"
  using assms
  by (auto simp: utf8_validate_cz_def res_simps word_le_nat_alt word_less_nat_alt u8_eq_numeral
      split: if_splits)

lemma utf8_three_bytes:
  assumes "a < 16" "b < 64" "d < 64" "unat c = 224 + a" "unat c1 = 128 + b" "unat c2 = 128 + d"
    and "a = 0 \<longrightarrow> 32 \<le> b" "a = 13 \<longrightarrow> b < 32"
  shows "\<exists>u r'. scalar u \<and> c # c1 # c2 # r = utf8_enc u @ r' \<and> 3 = length (utf8_enc u)"
proof -
  define m where "m = 64 * (64 * a + b) + d"
  have dig: "m div 64 = 64 * a + b" "m mod 64 = d" "m div 4096 = a"
    using digits2 [of d "64 * a + b"] digits2 [of b a] assms div_mult2_eq [of m 64 64]
    by (simp_all add: m_def)
  have "2048 \<le> m" and "m < 65536" and "\<not> (55296 \<le> m \<and> m < 57344)"
    subgoal using assms(1-3,7) unfolding m_def by (cases "a = 0") auto
    subgoal using assms(1-3) unfolding m_def by auto
    subgoal using assms(1-3,8) unfolding m_def by (cases "a = 13") auto
    done
  with assms dig show ?thesis
    by (intro utf8_scalar_intro [of _ "[c, c1, c2]" r _ m]) (simp_all add: utf8_enc_of_nat)
qed

lemma utf8_four_bytes:
  assumes "a < 5" "b < 64" "d < 64" "e < 64" "unat c = 240 + a" "unat c1 = 128 + b"
    and "unat c2 = 128 + d" "unat c3 = 128 + e" "a = 0 \<longrightarrow> 16 \<le> b" "a = 4 \<longrightarrow> b < 16"
  shows "\<exists>u r'. scalar u \<and> c # c1 # c2 # c3 # r = utf8_enc u @ r' \<and> 4 = length (utf8_enc u)"
proof -
  define m where "m = 64 * (64 * (64 * a + b) + d) + e"
  have dig: "m div 64 = 64 * (64 * a + b) + d" "m mod 64 = e" "m div 4096 = 64 * a + b"
    "m div 262144 = a" "(m div 64) mod 64 = d"
    using digits2 [of e "64 * (64 * a + b) + d"] digits2 [of d "64 * a + b"] digits2 [of b a]
      assms div_mult2_eq [of m 64 64] div_mult2_eq [of m 4096 64] by (simp_all add: m_def)
  have "65536 \<le> m" and "m < 1114112"
    subgoal using assms(1-4,9) unfolding m_def by (cases "a = 0") auto
    subgoal using assms(1-4,10) unfolding m_def by (cases "a = 4") auto
    done
  then have "List.map unat [c, c1, c2, c3] = List.map unat (utf8_enc (word_of_nat m))"
    using assms dig(2-5) by (subst utf8_enc_of_nat) simp_all
  with \<open>65536 \<le> m\<close> \<open>m < 1114112\<close> show ?thesis
    by (intro utf8_scalar_intro [of _ "[c, c1, c2, c3]" r _ m]) simp_all
qed

lemma utf8_validate_cz_sound:
  assumes "utf8_validate_cz s = Inr n" and "n \<noteq> 0"
  shows "\<exists>u r. scalar u \<and> s = utf8_enc u @ r \<and> n = length (utf8_enc u)"
  using assms
proof (cases rule: utf8_validate_cz_cases)
  case (one c r)
  then show ?thesis
    using utf8_enc_of_nat [of "unat c"]
    by (intro utf8_scalar_intro [of _ "[c]" r _ "unat c"]) simp_all
next
  case (two c c1 r)
  define a b where "a = unat c - 192" and "b = unat c1 - 128"
  have ab: "2 \<le> a" "a < 32" "b < 64" "unat c = 192 + a" "unat c1 = 128 + b"
    using two by (auto simp: a_def b_def is_cont_iff)
  have "64 * a + b < 2048" "128 \<le> 64 * a + b" using ab by linarith+
  with ab two show ?thesis
    by (intro utf8_scalar_intro [of _ "[c, c1]" r _ "64 * a + b"])
      (simp_all add: utf8_enc_of_nat digits2 del: of_nat_add of_nat_mult)
next
  case (three c c1 c2 r)
  have "\<exists>u r'. scalar u \<and> c # c1 # c2 # r = utf8_enc u @ r' \<and> 3 = length (utf8_enc u)"
    by (rule utf8_three_bytes [of "unat c - 224" "unat c1 - 128" "unat c2 - 128"])
      (use three in \<open>auto simp: is_cont_iff\<close>)
  with three show ?thesis by blast
next
  case (four c c1 c2 c3 r)
  have "\<exists>u r'. scalar u \<and> c # c1 # c2 # c3 # r = utf8_enc u @ r' \<and> 4 = length (utf8_enc u)"
    by (rule utf8_four_bytes
        [of "unat c - 240" "unat c1 - 128" "unat c2 - 128" "unat c3 - 128"])
      (use four in \<open>auto simp: is_cont_iff\<close>)
  with four show ?thesis by blast
qed

section \<open>Reading inverts writing\<close>

lemma unat_tail_bits:
  assumes "unat (c1 :: u8) = 128 + a" "unat (c2 :: u8) = 128 + b" "unat (c3 :: u8) = 128 + d"
    and "a < 64" "b < 64" "d < 64"
  shows "unat (ucast c3 AND 0x3F :: u32) = d"
    and "unat (push_bit 6 (ucast c2 AND 0x3F) OR (ucast c3 AND 0x3F) :: u32) = 64 * b + d"
    and "unat (push_bit 12 (ucast c1 AND 0x3F) OR push_bit 6 (ucast c2 AND 0x3F) OR
           (ucast c3 AND 0x3F) :: u32) = 4096 * a + 64 * b + d"
proof -
  show 1: "unat (ucast c3 AND 0x3F :: u32) = d"
    using assms by (simp add: unat_and_masks unat_ucast_up mod_base)
  show 2: "unat (push_bit 6 (ucast c2 AND 0x3F) OR (ucast c3 AND 0x3F) :: u32) = 64 * b + d"
    by (subst unat_join)
      (use assms 1 in \<open>simp_all add: unat_and_masks unat_ucast_up mod_base del: push_bit_and\<close>)
  show "unat (push_bit 12 (ucast c1 AND 0x3F) OR push_bit 6 (ucast c2 AND 0x3F) OR
           (ucast c3 AND 0x3F) :: u32) = 4096 * a + 64 * b + d"
    by (subst unat_join)
      (use assms in \<open>simp_all only: 2\<close>,
       simp_all add: unat_and_masks unat_ucast_up mod_base)
qed

lemma utf8_read_char_enc:
  assumes "scalar u"
  shows "utf8_read_char (utf8_enc u @ rest) = Inr (length (utf8_enc u), u)"
proof -
  note v = utf8_validate_cz_enc [OF assms, of rest]
  have n: "unat u < 1114112"
    using assms by (simp add: scalar_iff)
  note e = unat_utf8_enc [OF n, unfolded Let_def]
  have d: "unat u div 4096 = unat u div 64 div 64" "unat u div 262144 = unat u div 4096 div 64"
    by (simp_all add: div_mult2_eq [symmetric])
  consider "unat u < 128" | "128 \<le> unat u" "unat u < 2048" | "2048 \<le> unat u" "unat u < 65536"
    | "65536 \<le> unat u" by linarith
  then show ?thesis
  proof cases
    case 1
    with e obtain c where c: "utf8_enc u = [c]" "unat c = unat u"
      by (auto simp: map_eq_Cons_conv)
    then have "ucast c = u" by (simp add: word_eq_iff_unsigned [where ?'a = nat] unat_ucast_up)
    with c v 1 show ?thesis
      by (simp add: utf8_read_char_def byte_at_def word_le_nat_alt)
  next
    case 2
    with e obtain c c1 where c: "utf8_enc u = [c, c1]" "unat c = 192 + unat u div 64"
      "unat c1 = 128 + unat u mod 64"
      by (auto simp: map_eq_Cons_conv)
    have "unat u div 64 < 32" using 2 by linarith
    with c have "push_bit 6 (ucast c AND 0x1F) OR (ucast c1 AND 0x3F) = u"
      by (simp add: word_eq_iff_unsigned [where ?'a = nat] unat_join unat_and_masks  unat_ucast_up mod_base del: push_bit_and)
    with c v 2 \<open>unat u div 64 < 32\<close> show ?thesis
      by (simp add: utf8_read_char_def byte_at_def word_le_nat_alt)
  next
    case 3
    with e obtain c c1 c2 where c: "utf8_enc u = [c, c1, c2]" "unat c = 224 + unat u div 4096"
      "unat c1 = 128 + unat u div 64 mod 64" "unat c2 = 128 + unat u mod 64"
      by (auto simp: map_eq_Cons_conv)
    have b: "unat u div 4096 < 16" using 3 by linarith
    have t: "unat (push_bit 6 (ucast c1 AND 0x3F) OR (ucast c2 AND 0x3F) :: u32) =
        64 * (unat u div 64 mod 64) + unat u mod 64"
      using c by (intro unat_tail_bits(2) [of c1 "unat u div 64 mod 64"]) simp_all
    have "unat (push_bit 12 (ucast c AND 0xF) OR push_bit 6 (ucast c1 AND 0x3F) OR
        (ucast c2 AND 0x3F) :: u32) =
        4096 * (unat u div 4096) + (64 * (unat u div 64 mod 64) + unat u mod 64)"
      by (subst unat_join)
        (use b c in \<open>simp_all add: t unat_and_masks unat_ucast_up mod_base del: push_bit_and\<close>)
    also have "\<dots> = unat u"
      using mult_div_mod_eq [of 64 "unat u"] mult_div_mod_eq [of 64 "unat u div 64"] d
      by linarith
    finally have "push_bit 12 (ucast c AND 0xF) OR push_bit 6 (ucast c1 AND 0x3F) OR
        (ucast c2 AND 0x3F) = u"
      by (simp only: word_eq_iff_unsigned [where ?'a = nat])
    with c v 3 b show ?thesis
      by (simp add: utf8_read_char_def byte_at_def word_le_nat_alt)
  next
    case 4
    with e obtain c c1 c2 c3 where c: "utf8_enc u = [c, c1, c2, c3]"
      "unat c = 240 + unat u div 262144" "unat c1 = 128 + unat u div 4096 mod 64"
      "unat c2 = 128 + unat u div 64 mod 64" "unat c3 = 128 + unat u mod 64"
      by (auto simp: map_eq_Cons_conv)
    have b: "unat u div 262144 < 8" using n by linarith
    have t: "unat (push_bit 12 (ucast c1 AND 0x3F) OR push_bit 6 (ucast c2 AND 0x3F) OR
           (ucast c3 AND 0x3F) :: u32) =
        4096 * (unat u div 4096 mod 64) + 64 * (unat u div 64 mod 64) + unat u mod 64"
      using c by (intro unat_tail_bits(3)) simp_all
    have "unat u div 4096 mod 64 < 64" "unat u div 64 mod 64 < 64" "unat u mod 64 < 64"
      by simp_all
    then have lt: "4096 * (unat u div 4096 mod 64) + 64 * (unat u div 64 mod 64) +
        unat u mod 64 < 262144"
      by linarith
    have e18: "(2 :: nat) ^ 18 = 262144" by simp
    have top: "unat (ucast c AND 0x7 :: u32) = unat u div 262144"
      using b c by (simp add: unat_and_masks unat_ucast_up mod_base)
    have "unat (push_bit 18 (ucast c AND 0x7) OR push_bit 12 (ucast c1 AND 0x3F) OR
        push_bit 6 (ucast c2 AND 0x3F) OR (ucast c3 AND 0x3F) :: u32) =
        unat u div 262144 * 2 ^ 18 +
        (4096 * (unat u div 4096 mod 64) + 64 * (unat u div 64 mod 64) + unat u mod 64)"
      unfolding top [symmetric] t [symmetric]
      by (rule unat_join) (use b lt in \<open>simp_all only: top t\<close>, simp_all)
    also have "\<dots> = unat u"
      unfolding e18
      using mult_div_mod_eq [of 64 "unat u"] mult_div_mod_eq [of 64 "unat u div 64"]
        mult_div_mod_eq [of 64 "unat u div 4096"] d
      by linarith
    finally have "push_bit 18 (ucast c AND 0x7) OR push_bit 12 (ucast c1 AND 0x3F) OR
        push_bit 6 (ucast c2 AND 0x3F) OR (ucast c3 AND 0x3F) = u"
      by (simp only: word_eq_iff_unsigned [where ?'a = nat])
    with c v 4 show ?thesis
      by (simp add: utf8_read_char_def byte_at_def word_le_nat_alt)
  qed
qed

section \<open>Surrogate pairs\<close>

lemma from_to_surrogate_pair:
  assumes "0x10000 \<le> u" and "u \<le> 0x10FFFF"
  shows "\<exists>uc lc. to_surrogate_pair u = Inr (uc, lc) \<and> from_surrogate_pair uc lc = Some u"
proof -
  define n :: u32 where "n = u - 0x10000"
  have un: "unat n = unat u - 65536" "unat u < 1114112" "65536 \<le> unat u"
    using assms by (auto simp: n_def word_le_nat_alt unat_sub)
  define uc :: u16 where "uc = ucast ((drop_bit 10 n AND 0x3FF) OR 0xD800)"
  define lc :: u16 where "lc = ucast ((n AND 0x3FF) OR 0xDC00)"
  have uc: "unat uc = 55296 + unat n div 1024"
    using unat_or_disjoint [of "drop_bit 10 n AND 0x3FF" 10 "0xD800"] un
    by (simp add: uc_def unsigned_ucast_eq unat_and_masks unat_drop_bit take_bit_nat_eq_self)
  have lc: "unat lc = 56320 + unat n mod 1024"
    using unat_or_disjoint [of "n AND 0x3FF" 10 "0xDC00"]
    by (simp add: lc_def unsigned_ucast_eq unat_and_masks take_bit_nat_eq_self)
  have "unat n div 1024 < 1024"
    using un by linarith
  then have m: "(55296 + unat n div 1024) mod 1024 = unat n div 1024"
      "(56320 + unat n mod 1024) mod 1024 = unat n mod 1024"
    by (simp_all add: mod_base)
  have "unat (push_bit 10 (ucast uc AND 0x3FF) OR ucast (lc AND 0x3FF) :: u32) = unat n"
    using \<open>unat n div 1024 < 1024\<close> by (simp add: unat_join unat_and_masks unat_ucast_up uc lc m
        del: push_bit_and)
  then have "push_bit 10 (ucast uc AND 0x3FF) OR ucast (lc AND 0x3FF) = n"
    by (simp add: word_eq_iff_unsigned [where ?'a = nat])
  moreover have "to_surrogate_pair u = Inr (uc, lc)"
    using assms by (simp add: to_surrogate_pair_def Let_def uc_def lc_def n_def)
  ultimately show ?thesis
    using \<open>unat n div 1024 < 1024\<close>
    by (simp add: from_surrogate_pair_def word_le_nat_alt uc lc n_def)
qed

lemma to_from_surrogate_pair:
  assumes "from_surrogate_pair uc lc = Some u"
  shows "to_surrogate_pair u = Inr (uc, lc) \<and> 0x10000 \<le> u \<and> u \<le> 0x10FFFF"
proof -
  have r: "55296 \<le> unat uc" "unat uc < 56320" "56320 \<le> unat lc" "unat lc < 57344"
    using assms by (auto simp: from_surrogate_pair_def word_le_nat_alt split: if_splits)
  define a b where "a = unat uc - 55296" and "b = unat lc - 56320"
  have ab: "unat uc = 55296 + a" "unat lc = 56320 + b" "a < 1024" "b < 1024"
    using r by (simp_all add: a_def b_def)
  have m: "(55296 + a) mod 1024 = a" "(56320 + b) mod 1024 = b"
    using ab by (simp_all add: mod_base)
  define n :: u32 where "n = push_bit 10 (ucast uc AND 0x3FF) OR ucast (lc AND 0x3FF)"
  have un: "unat n = 1024 * a + b"
    using ab by (simp add: n_def unat_join unat_and_masks unat_ucast_up m del: push_bit_and)
  then have dm: "unat n div 1024 = a" "unat n mod 1024 = b"
    using ab by simp_all
  have u: "u = 0x10000 + n"
    using assms by (auto simp: from_surrogate_pair_def n_def split: if_splits)
  have uu: "unat u = 65536 + unat n"
    using un ab by (simp add: u unat_plus_if')
  have "unat (ucast ((drop_bit 10 n AND 0x3FF) OR 0xD800) :: u16) = unat uc"
    using unat_or_disjoint [of "drop_bit 10 n AND 0x3FF" 10 "0xD800"] ab dm
    by (simp add: unsigned_ucast_eq unat_and_masks unat_drop_bit take_bit_nat_eq_self)
  moreover have "unat (ucast ((n AND 0x3FF) OR 0xDC00) :: u16) = unat lc"
    using unat_or_disjoint [of "n AND 0x3FF" 10 "0xDC00"] ab dm
    by (simp add: unsigned_ucast_eq unat_and_masks take_bit_nat_eq_self)
  moreover have "0x10000 \<le> u" "u \<le> 0x10FFFF"
    using uu un ab by (simp_all add: word_le_nat_alt)
  ultimately show ?thesis
    by (simp add: to_surrogate_pair_def Let_def u word_eq_iff_unsigned [where ?'a = nat])
qed

section \<open>Memory safety\<close>

lemma utf8_validate_cz_in_bounds:
  assumes "0 \<in> set s"
  shows "\<exists>n. utf8_validate_cz s = Inr n \<and> n \<le> 4"
proof -
  have z: "\<not> is_cont 0" by (simp add: is_cont_def)
  obtain c s1 where s: "s = c # s1" using assms by (cases s) auto
  show ?thesis
  proof (cases "c = 0")
    case True
    with s show ?thesis by (simp add: utf8_validate_cz_def)
  next
    case False
    with assms s obtain c1 s2 where s1: "s1 = c1 # s2" "c1 = 0 \<or> 0 \<in> set s2"
      by (cases s1) auto
    show ?thesis
      using s s1 z
      by (cases s2; cases "tl s2"; auto simp: utf8_validate_cz_def)
  qed
qed

lemma zero_in_utf8_enc:
  assumes "scalar u"
  shows "0 \<in> set (utf8_enc u) \<longleftrightarrow> u = 0"
proof -
  have "0 \<in> set (utf8_enc u) \<longleftrightarrow> 0 \<in> set (List.map unat (utf8_enc u))"
    by (auto simp: image_iff unat_eq_zero intro: bexI [of _ 0])
  also have "\<dots> \<longleftrightarrow> unat u = 0"
    using assms unat_utf8_enc [of u] by (auto simp: scalar_iff Let_def)
  finally show ?thesis by (simp add: unat_eq_zero)
qed

lemma hd_utf8_enc_zero:
  assumes "scalar u" and "hd (utf8_enc u) = 0"
  shows "u = 0"
  using assms zero_in_utf8_enc [of u] utf8_enc_length [of u]
  by (metis hd_in_set length_greater_0_conv)

lemma utf8_validate_enc:
  assumes "scalar u" and "u \<noteq> 0"
  shows "utf8_validate (utf8_enc u @ rest) = utf8_validate rest"
proof -
  have "utf8_enc u \<noteq> []" using utf8_enc_length [of u] by auto
  then obtain c cs where c: "utf8_enc u = c # cs" by (cases "utf8_enc u") auto
  have "c \<noteq> 0" using hd_utf8_enc_zero [OF assms(1)] assms(2) c by auto
  then show ?thesis
    using c utf8_validate_cz_enc [OF assms(1), of rest]
    by (subst utf8_validate.simps) simp
qed

lemma utf8_validate_nil [simp]: "utf8_validate (0 # rest) = Inr True"
  by (subst utf8_validate.simps) simp

text \<open>Strings of characters: what the validator accepts is a sequence of encodings.\<close>

lemma utf8_validate_encs:
  "\<forall>u \<in> set us. scalar u \<and> u \<noteq> 0 \<Longrightarrow>
   utf8_validate (concat (List.map utf8_enc us) @ rest) = utf8_validate rest"
  by (induction us) (simp_all add: utf8_validate_enc)

lemma utf8_validate_split:
  assumes "0 \<in> set s"
  shows "\<exists>b. utf8_validate s = Inr b \<and>
    (b \<longrightarrow> (\<exists>us r. s = concat (List.map utf8_enc us) @ 0 # r \<and> (\<forall>u \<in> set us. scalar u \<and> u \<noteq> 0)))"
  using assms
proof (induction s rule: utf8_validate.induct)
  case (1 s)
  obtain c s' where s: "s = c # s'" using 1(2) by (cases s) auto
  obtain n where n: "utf8_validate_cz s = Inr n" using utf8_validate_cz_in_bounds [OF 1(2)] by blast
  consider "c = 0" | "c \<noteq> 0" "n = 0" | "c \<noteq> 0" "n \<noteq> 0" by blast
  then show ?case
  proof cases
    case 1
    then have "utf8_validate s = Inr True" and "s = concat (List.map utf8_enc []) @ 0 # s'"
      using s by simp_all
    then show ?thesis by (metis empty_iff list.set(1))
  next
    case 2
    then have "utf8_validate s = Inr False" using s n by (subst utf8_validate.simps) simp
    then show ?thesis by (intro exI [of _ False]) simp
  next
    case False: 3
    then obtain u r where u: "scalar u" "s = utf8_enc u @ r" "n = length (utf8_enc u)"
      using utf8_validate_cz_sound [OF n] by auto
    have "hd (utf8_enc u) = c" using u s utf8_enc_length [of u] by (cases "utf8_enc u") auto
    moreover have "utf8_enc 0 = [0]" by (simp add: utf8_enc_def)
    ultimately have u0: "u \<noteq> 0" using False by auto
    have r: "0 \<in> set r" "drop n s = r" using u u0 1(2) zero_in_utf8_enc by auto
    have "\<exists>b. utf8_validate (drop n s) = Inr b \<and> (b \<longrightarrow> (\<exists>us r'.
        drop n s = concat (List.map utf8_enc us) @ 0 # r' \<and> (\<forall>u \<in> set us. scalar u \<and> u \<noteq> 0)))"
      by (rule 1(1) [of c n]) (use s n False r in simp_all)
    then obtain b where b: "utf8_validate r = Inr b"
      "b \<longrightarrow> (\<exists>us r'. r = concat (List.map utf8_enc us) @ 0 # r' \<and> (\<forall>u \<in> set us. scalar u \<and> u \<noteq> 0))"
      unfolding r(2) by blast
    moreover have "utf8_validate s = utf8_validate r"
      using u(2) utf8_validate_enc [OF u(1) u0] by simp
    moreover have "\<exists>us' r'. s = concat (List.map utf8_enc us') @ 0 # r' \<and> (\<forall>u \<in> set us'. scalar u \<and> u \<noteq> 0)"
      if "r = concat (List.map utf8_enc us) @ 0 # r'" "\<forall>u \<in> set us. scalar u \<and> u \<noteq> 0" for us r'
      using that u u0 by (intro exI [of _ "u # us"] exI [of _ r']) simp
    ultimately show ?thesis by auto
  qed
qed

lemma utf8_validate_iff:
  assumes "0 \<notin> set xs"
  shows "utf8_validate (cstr xs) = Inr True \<longleftrightarrow>
    (\<exists>us. xs = concat (List.map utf8_enc us) \<and> (\<forall>u \<in> set us. scalar u \<and> u \<noteq> 0))"
proof
  assume v: "utf8_validate (cstr xs) = Inr True"
  have "0 \<in> set (cstr xs)" by (simp add: cstr_def)
  from utf8_validate_split [OF this] v obtain us r where
    us: "cstr xs = concat (List.map utf8_enc us) @ 0 # r" "\<forall>u \<in> set us. scalar u \<and> u \<noteq> 0"
    by auto
  have "0 \<notin> set (concat (List.map utf8_enc us))"
    using us(2) zero_in_utf8_enc by auto
  with us(1) assms have "xs = concat (List.map utf8_enc us)"
    by (simp add: cstr_def append_nul_eq)
  with us(2) show "\<exists>us. xs = concat (List.map utf8_enc us) \<and> (\<forall>u \<in> set us. scalar u \<and> u \<noteq> 0)"
    by blast
next
  assume "\<exists>us. xs = concat (List.map utf8_enc us) \<and> (\<forall>u \<in> set us. scalar u \<and> u \<noteq> 0)"
  then show "utf8_validate (cstr xs) = Inr True"
    by (auto simp: cstr_def utf8_validate_encs)
qed

end
