(* ===== verification/Json_String.thy ===== *)
theory Json_String
  imports Json_Buffer Json_Lex Json_Utf8
begin

text \<open>
  String literals of \<^verbatim>\<open>src/src/json.c\<close>: \<^verbatim>\<open>parse_string\<close> (with and without an output) and
  \<^verbatim>\<open>emit_string\<close>.  Both write through a raw pointer into space reserved beforehand; the
  theorems show that the reservations (4 bytes in the parser, its 4-byte throwaway buffer,
  14 bytes in the emitter) are always enough, that a parsed string is valid UTF-8 without a
  zero byte, and when parsing inverts emitting.
\<close>

section \<open>The parser\<close>

text \<open>\<^verbatim>\<open>while (len--) *b++ = *s++;\<close>\<close>

fun copy_bytes :: "nat \<Rightarrow> cursor \<Rightarrow> err + (bytes \<times> cursor)" where
  "copy_bytes 0 s = Inr ([], s)"
| "copy_bytes (Suc len) s =
     bind_res (read_inc s) (\<lambda>(c, s1). bind_res (copy_bytes len s1) (\<lambda>(cs, s2). Inr (c # cs, s2)))"

text \<open>The case \<^verbatim>\<open>'u'\<close>: the code point of one escape or of a surrogate pair.\<close>

definition parse_unicode_escape :: "cursor \<Rightarrow> err + (bytes \<times> cursor)" where
  "parse_unicode_escape s =
     bind_res (parse_hex16 s) (\<lambda>(uc, s1).
     bind_res
       (if uc \<ge> 0xD800 \<and> uc \<le> 0xDFFF then
          bind_res (read_inc s1) (\<lambda>(c1, s2). if c1 \<noteq> 0x5C then Inl Rejected else
          bind_res (read_inc s2) (\<lambda>(c2, s3). if c2 \<noteq> 0x75 then Inl Rejected else
          bind_res (parse_hex16 s3) (\<lambda>(lc, s4).
            case from_surrogate_pair uc lc of
              None \<Rightarrow> Inl Rejected
            | Some unicode \<Rightarrow> Inr (unicode, s4))))
        else if uc = 0 then Inl Rejected
        else Inr (ucast uc, s1)) (\<lambda>(unicode, s5).
     bind_res (utf8_write_char unicode) (\<lambda>b. Inr (b, s5))))"

definition parse_escape :: "cursor \<Rightarrow> err + (bytes \<times> cursor)" where
  "parse_escape s =
     bind_res (read_inc s) (\<lambda>(c, s1).
       if c = 0x22 \<or> c = 0x5C \<or> c = 0x2F then Inr ([c], s1)
       else if c = 0x62 then Inr ([0x08], s1)
       else if c = 0x66 then Inr ([0x0C], s1)
       else if c = 0x6E then Inr ([0x0A], s1)
       else if c = 0x72 then Inr ([0x0D], s1)
       else if c = 0x74 then Inr ([0x09], s1)
       else if c = 0x75 then parse_unicode_escape s1
       else Inl Rejected)"

text \<open>One round of the loop: the bytes it writes to \<^verbatim>\<open>b\<close> and the cursor behind the character.\<close>

definition parse_char :: "cursor \<Rightarrow> err + (bytes \<times> cursor)" where
  "parse_char s =
     bind_res (read_inc s) (\<lambda>(c, s1).
       if c = 0x5C then parse_escape s1
       else if c \<le> 0x1F then Inl Rejected
       else bind_res (utf8_validate_cz s) (\<lambda>len.
         if len = 0 then Inl Rejected else copy_bytes len s))"

text \<open>
  Where the bytes go: into the string buffer if there is an output, otherwise into
  \<^verbatim>\<open>throwaway_buffer[4]\<close>, which is written from its start in every round.
\<close>

datatype sink = Buffer sb | Throwaway

fun commit :: "sink \<Rightarrow> bytes \<Rightarrow> err + sink" where
  "commit (Buffer sb) b =
     bind_res (sb_store sb b) (\<lambda>sb1. bind_res (sb_need sb1 4) (\<lambda>sb2. Inr (Buffer sb2)))"
| "commit Throwaway b = (if length b \<le> 4 then Inr Throwaway else Inl Out_Of_Bounds)"

section \<open>One character\<close>

lemma scalar_u16:
  assumes "\<not> (uc \<ge> 0xD800 \<and> uc \<le> 0xDFFF)"
  shows "scalar (ucast (uc :: u16))"
  using assms less_trans [OF unat_u16_less [of uc], of 1114112]
  by (simp add: scalar_iff unat_ucast_up word_le_nat_alt not_le) linarith

lemma ucast_u8_round: "(ucast (ucast c :: u32) :: u8) = c"
  by (rule ucast_up_ucast_id) (simp add: is_up)

lemma scalar_byte: "c \<le> 0x7F \<Longrightarrow> scalar (ucast (c :: u8)) \<and> utf8_enc (ucast c) = [c]"
  by (auto simp: scalar_iff unat_ucast_up word_le_nat_alt utf8_enc_def ucast_u8_round)

lemma copy_bytes_append: "copy_bytes (length xs) (xs @ r) = Inr (xs, r)"
  by (induction xs) simp_all

lemma ucast_u16_zero: "(ucast (uc :: u16) :: u32) = 0 \<longleftrightarrow> uc = 0"
  by (metis unat_ucast_up(2) unat_eq_zero)

lemma ucast_u8_zero: "(ucast (c :: u8) :: u32) = 0 \<longleftrightarrow> c = 0"
  by (metis unat_ucast_up(1) unat_eq_zero)

lemma parse_unicode_escape_sound:
  assumes "parse_unicode_escape s = Inr (b, t)"
  shows "advances s t \<and> (\<exists>u. scalar u \<and> u \<noteq> 0 \<and> b = utf8_enc u)"
proof -
  from assms obtain uc s1 where h: "parse_hex16 s = Inr (uc, s1)"
    by (auto simp: parse_unicode_escape_def res_simps)
  have a1: "advances s s1" using hex16.run_advances [OF h] .
  show ?thesis
  proof (cases "uc \<ge> 0xD800 \<and> uc \<le> 0xDFFF")
    case True
    with assms h obtain s3 lc s4 u where
      p: "s1 = 0x5C # 0x75 # s3" "parse_hex16 s3 = Inr (lc, s4)" "from_surrogate_pair uc lc = Some u"
        "utf8_write_char u = Inr b" "t = s4"
      by (auto simp: parse_unicode_escape_def res_simps split: if_splits option.splits)
    have "advances s1 t"
      using hex16.run_advances [OF p(2)] p(1,5) by (auto intro!: advances_Cons)
    moreover have "u \<noteq> 0" using to_from_surrogate_pair [OF p(3)] by auto
    ultimately show ?thesis
      using a1 p(4) advances_trans by (auto simp: utf8_write_char_def split: if_splits)
  next
    case False
    with assms h have p: "uc \<noteq> 0" "utf8_write_char (ucast uc) = Inr b" "t = s1"
      by (auto simp: parse_unicode_escape_def res_simps split: if_splits)
    then show ?thesis
      using a1 ucast_u16_zero by (auto simp: utf8_write_char_def split: if_splits)
  qed
qed

lemma parse_unicode_escape_fails:
  assumes "0 \<in> set s" "parse_unicode_escape s = Inl e"
  shows "e = Rejected"
  using assms(1)
proof (cases rule: hex16.run_cases)
  case rejected
  with assms(2) show ?thesis by (simp add: parse_unicode_escape_def)
next
  case (accepted uc s1)
  show ?thesis
  proof (cases "uc \<ge> 0xD800 \<and> uc \<le> 0xDFFF")
    case True
    obtain c1 s2 where s1: "s1 = c1 # s2" using accepted by (cases s1) auto
    show ?thesis
    proof (cases "c1 = 0x5C \<and> hd s2 = 0x75")
      case c: True
      with s1 accepted obtain s3 where s2: "s2 = 0x75 # s3" "0 \<in> set s3" by (cases s2) auto
      show ?thesis
        using s2(2)
      proof (cases rule: hex16.run_cases)
        case rejected
        with True c s1 s2 accepted(1) assms(2) show ?thesis
          by (simp add: parse_unicode_escape_def)
      next
        case h: (accepted lc s4)
        have "scalar u" if "from_surrogate_pair uc lc = Some u" for u
          using to_from_surrogate_pair [OF that] by (simp add: scalar_iff word_le_nat_alt)
        with True c s1 s2 accepted(1) h(1) assms(2) show ?thesis
          by (auto simp: parse_unicode_escape_def utf8_write_char_def split: option.splits)
      qed
    next
      case False
      with True s1 accepted assms(2) show ?thesis
        by (cases s2) (auto simp: parse_unicode_escape_def split: if_splits)
    qed
  next
    case False
    with accepted(1) assms(2) scalar_u16 [of uc] show ?thesis
      by (auto simp: parse_unicode_escape_def utf8_write_char_def split: if_splits)
  qed
qed

lemma parse_char_sound:
  assumes "parse_char s = Inr (b, t)"
  shows "advances s t \<and> length t < length s \<and> (\<exists>u. scalar u \<and> u \<noteq> 0 \<and> b = utf8_enc u)"
proof -
  obtain c s1 where s: "s = c # s1" using assms by (cases s) (auto simp: parse_char_def)
  show ?thesis
  proof (cases "c = 0x5C")
    case True
    have esc: "advances s1 t \<and> length t < length s1 \<and> (\<exists>u. scalar u \<and> u \<noteq> 0 \<and> b = utf8_enc u)"
      if "s1 = d # s2" "d \<noteq> 0" "t = s2 \<and> b = [x] \<and> x \<noteq> 0 \<and> x \<le> 0x7F \<or> parse_unicode_escape s2 = Inr (b, t)"
      for d s2 x
      using that(3)
    proof (elim disjE conjE)
      assume "t = s2" "b = [x]" "x \<noteq> 0" "x \<le> 0x7F"
      with that scalar_byte [of x] ucast_u8_zero [of x] show ?thesis
        by (auto intro!: advances_Cons exI [of _ "ucast x"])
    next
      assume "parse_unicode_escape s2 = Inr (b, t)"
      from parse_unicode_escape_sound [OF this] that(1,2) advances_length show ?thesis
        by (auto intro!: advances_Cons simp: less_Suc_eq_le)
    qed
    from assms s True obtain d s2 where d: "s1 = d # s2" by (cases s1) (auto simp: parse_char_def parse_escape_def)
    from assms s True d have "advances s1 t \<and> length t < length s1 \<and> (\<exists>u. scalar u \<and> u \<noteq> 0 \<and> b = utf8_enc u)"
      using esc [of d s2 d] esc [of d s2 "hd b"]
      by (auto simp: parse_char_def parse_escape_def split: if_splits)
    with s True show ?thesis by (auto intro!: advances_Cons)
  next
    case False
    with assms s obtain len where len: "utf8_validate_cz s = Inr len" "len \<noteq> 0"
      "copy_bytes len s = Inr (b, t)" "\<not> c \<le> 0x1F"
      by (auto simp: parse_char_def res_simps split: if_splits)
    obtain u r where u: "scalar u" "s = utf8_enc u @ r" "len = length (utf8_enc u)"
      using utf8_validate_cz_sound [OF len(1,2)] by blast
    have bt: "b = utf8_enc u" "t = r" using len(3) u copy_bytes_append by auto
    have "utf8_enc 0 = [0]" by (simp add: utf8_enc_def)
    then have u0: "u \<noteq> 0" using u s len(4) by auto
    show ?thesis
      using u bt u0 zero_in_utf8_enc [OF u(1)] advances_append utf8_enc_length [of u] by auto
  qed
qed

lemma parse_char_fails:
  assumes "0 \<in> set s" "parse_char s = Inl e"
  shows "e = Rejected"
proof -
  obtain c s1 where s: "s = c # s1" using assms(1) by (cases s) auto
  show ?thesis
  proof (cases "c = 0x5C")
    case True
    with s assms(1) obtain d s2 where d: "s1 = d # s2" by (cases s1) auto
    show ?thesis
    proof (cases "d = 0x75")
      case u: True
      with True s d assms have "parse_unicode_escape s2 = Inl e"
        by (auto simp: parse_char_def parse_escape_def)
      with assms(1) True s d u show ?thesis by (auto intro: parse_unicode_escape_fails)
    next
      case False
      with True s d assms(2) show ?thesis
        by (auto simp: parse_char_def parse_escape_def split: if_splits)
    qed
  next
    case False
    obtain len where len: "utf8_validate_cz s = Inr len"
      using utf8_validate_cz_in_bounds [OF assms(1)] by blast
    show ?thesis
    proof (cases "len = 0 \<or> c \<le> 0x1F")
      case True
      with False s len assms(2) show ?thesis
        by (auto simp: parse_char_def split: if_splits)
    next
      case l: False
      then obtain u r where "s = utf8_enc u @ r" "len = length (utf8_enc u)"
        using utf8_validate_cz_sound [OF len] by blast
      then have "copy_bytes len s = Inr (utf8_enc u, r)" by (simp add: copy_bytes_append)
      with False l s len assms(2) show ?thesis by (simp add: parse_char_def)
    qed
  qed
qed

section \<open>The loop\<close>

function parse_string_loop :: "sink \<Rightarrow> cursor \<Rightarrow> err + (sink \<times> cursor)" where
  "parse_string_loop o1 s =
     bind_res (deref s) (\<lambda>c.
       if c = 0x22 then Inr (o1, s)
       else bind_res (parse_char s) (\<lambda>(b, s1).
            bind_res (commit o1 b) (\<lambda>o2. parse_string_loop o2 s1)))"
  by pat_completeness auto
termination
  by (relation "measure (\<lambda>(o1, s). length s)") (auto dest: parse_char_sound)

declare parse_string_loop.simps [simp del]

definition parse_string :: "bool \<Rightarrow> cursor \<Rightarrow> err + (bytes option \<times> cursor)" where
  "parse_string out s =
     bind_res (read_inc s) (\<lambda>(c, s1).
       if c \<noteq> 0x22 then Inl Rejected
       else
         bind_res (if out then bind_res (sb_need sb_init 4) (\<lambda>sb. Inr (Buffer sb))
                   else Inr Throwaway) (\<lambda>o1.
         bind_res (parse_string_loop o1 s1) (\<lambda>(o2, s2).
         bind_res (read_inc s2) (\<lambda>(_, s3).
           case o2 of
             Buffer sb \<Rightarrow> bind_res (sb_finish sb) (\<lambda>str. Inr (Some str, s3))
           | Throwaway \<Rightarrow> Inr (None, s3)))))"

text \<open>The loop without its sink: the bytes of the literal and the cursor at the closing quote.\<close>

function string_body :: "cursor \<Rightarrow> err + (bytes \<times> cursor)" where
  "string_body s =
     bind_res (deref s) (\<lambda>c.
       if c = 0x22 then Inr ([], s)
       else bind_res (parse_char s) (\<lambda>(b, s1).
            bind_res (string_body s1) (\<lambda>(x, s2). Inr (b @ x, s2))))"
  by pat_completeness auto
termination
  by (relation "measure length") (auto dest: parse_char_sound)

declare string_body.simps [simp del]

lemma string_body_step:
  "string_body [] = Inl Out_Of_Bounds"
  "string_body (c # s) = (if c = 0x22 then Inr ([], c # s)
     else bind_res (parse_char (c # s)) (\<lambda>(b, s1).
          bind_res (string_body s1) (\<lambda>(x, s2). Inr (b @ x, s2))))"
  by (simp_all add: string_body.simps [of "[]"] string_body.simps [of "c # s"])

lemma parse_string_loop_step:
  "parse_string_loop o1 [] = Inl Out_Of_Bounds"
  "parse_string_loop o1 (c # s) = (if c = 0x22 then Inr (o1, c # s)
     else bind_res (parse_char (c # s)) (\<lambda>(b, s1).
          bind_res (commit o1 b) (\<lambda>o2. parse_string_loop o2 s1)))"
  by (simp_all add: parse_string_loop.simps [of o1 "[]"] parse_string_loop.simps [of o1 "c # s"])

text \<open>Four bytes of room are an invariant of the loop.\<close>

fun sink_ok :: "sink \<Rightarrow> bool" where
  "sink_ok (Buffer sb) \<longleftrightarrow> sb_inv sb \<and> length (sb_data sb) + 4 \<le> sb_alloc sb"
| "sink_ok Throwaway \<longleftrightarrow> True"

fun sink_holds :: "sink \<Rightarrow> bytes \<Rightarrow> sink \<Rightarrow> bool" where
  "sink_holds (Buffer sb) x o2 \<longleftrightarrow> (\<exists>sb'. o2 = Buffer sb' \<and> sb_data sb' = sb_data sb @ x)"
| "sink_holds Throwaway x o2 \<longleftrightarrow> o2 = Throwaway"

lemma commit_ok:
  assumes "sink_ok o1" and "length b \<le> 4"
  shows "\<exists>o2. commit o1 b = Inr o2 \<and> sink_ok o2 \<and> sink_holds o1 b o2"
proof (cases o1)
  case (Buffer sb)
  with assms have fit: "sb_store sb b = Inr (sb\<lparr>sb_data := sb_data sb @ b\<rparr>)"
    "sb_inv (sb\<lparr>sb_data := sb_data sb @ b\<rparr>)"
    using sb_store_fits [of sb b] by auto
  from sb_need_room [OF fit(2), of 4] Buffer fit(1) show ?thesis by auto
next
  case Throwaway
  with assms show ?thesis by simp
qed

lemma sink_holds_trans: "sink_holds o1 x o2 \<Longrightarrow> sink_holds o2 y o3 \<Longrightarrow> sink_holds o1 (x @ y) o3"
  by (cases o1) auto

lemma parse_string_loop_body:
  assumes "sink_ok o1"
  shows "case string_body s of
      Inl e \<Rightarrow> parse_string_loop o1 s = Inl e
    | Inr (x, t) \<Rightarrow> \<exists>o2. parse_string_loop o1 s = Inr (o2, t) \<and> sink_ok o2 \<and> sink_holds o1 x o2"
  using assms
proof (induction s arbitrary: o1 rule: string_body.induct)
  case (1 s)
  note unfold = string_body_step parse_string_loop_step
  show ?case
  proof (cases s)
    case Nil
    then show ?thesis by (simp add: unfold)
  next
    case (Cons c s')
    show ?thesis
    proof (cases "c = 0x22")
      case True
      with Cons 1(2) show ?thesis by (cases o1) (simp_all add: unfold)
    next
      case False
      show ?thesis
      proof (cases "parse_char s")
        case (Inl e)
        with Cons False show ?thesis by (simp add: unfold)
      next
        case (Inr p)
        obtain b s1 where p: "p = (b, s1)" by (cases p)
        have "length b \<le> 4" using parse_char_sound [of s b s1] Inr p utf8_enc_length by auto
        then obtain o2 where o2: "commit o1 b = Inr o2" "sink_ok o2" "sink_holds o1 b o2"
          using commit_ok 1(2) by blast
        have "case string_body s1 of
            Inl e \<Rightarrow> parse_string_loop o2 s1 = Inl e
          | Inr (x, t) \<Rightarrow> \<exists>o3. parse_string_loop o2 s1 = Inr (o3, t) \<and> sink_ok o3 \<and> sink_holds o2 x o3"
          by (rule 1(1) [of c "(b, s1)"]) (use Cons False Inr p o2 in simp_all)
        with Cons False Inr p o2 sink_holds_trans [OF o2(3)] show ?thesis
          by (auto simp: unfold split: sum.splits)
      qed
    qed
  qed
qed

lemma string_body_sound:
  "string_body s = Inr (x, t) \<Longrightarrow> advances s t \<and> (\<exists>r. t = 0x22 # r) \<and>
    (\<exists>us. x = concat (List.map utf8_enc us) \<and> (\<forall>u \<in> set us. scalar u \<and> u \<noteq> 0))"
proof (induction s arbitrary: x rule: string_body.induct)
  case (1 s)
  from 1(2) obtain c s' where s: "s = c # s'" by (cases s) (auto simp: string_body_step)
  show ?case
  proof (cases "c = 0x22")
    case True
    with 1(2) s show ?thesis
      by (auto simp: string_body_step intro: exI [of _ "[]"])
  next
    case False
    with 1(2) s obtain b s1 y where p: "parse_char s = Inr (b, s1)" "string_body s1 = Inr (y, t)"
      "x = b @ y"
      by (auto simp: string_body_step res_simps)
    have ih: "advances s1 t \<and> (\<exists>r. t = 0x22 # r) \<and>
      (\<exists>us. y = concat (List.map utf8_enc us) \<and> (\<forall>u \<in> set us. scalar u \<and> u \<noteq> 0))"
      by (rule 1(1) [of c "(b, s1)"]) (use s False p in simp_all)
    then obtain us where us: "y = concat (List.map utf8_enc us)" "\<forall>u \<in> set us. scalar u \<and> u \<noteq> 0"
      by blast
    from parse_char_sound [OF p(1)] obtain u where u: "scalar u" "u \<noteq> 0" "b = utf8_enc u"
      "advances s s1" by blast
    with us p(3) have "x = concat (List.map utf8_enc (u # us))" "\<forall>v \<in> set (u # us). scalar v \<and> v \<noteq> 0"
      by simp_all
    with ih u(4) advances_trans show ?thesis by blast
  qed
qed

lemma string_body_fails: "0 \<in> set s \<Longrightarrow> string_body s = Inl e \<Longrightarrow> e = Rejected"
proof (induction s rule: string_body.induct)
  case (1 s)
  then obtain c s' where s: "s = c # s'" by (cases s) auto
  from 1(3) s consider "parse_char s = Inl e"
    | b s1 where "c \<noteq> 0x22" "parse_char s = Inr (b, s1)" "string_body s1 = Inl e"
    by (auto simp: string_body_step res_simps split: if_splits)
  then show ?case
  proof cases
    case 1
    with \<open>0 \<in> set s\<close> show ?thesis by (rule parse_char_fails)
  next
    case (2 b s1)
    have "0 \<in> set s1" using parse_char_sound [OF 2(2)] \<open>0 \<in> set s\<close> advances_terminated by blast
    then show ?thesis
      by (intro "1.IH" [of c "(b, s1)" b s1]) (use s 2 in simp_all)
  qed
qed

text \<open>\<^verbatim>\<open>parse_string\<close> in terms of the body: nothing depends on the buffer.\<close>

lemma concat_encs_nonzero:
  "\<forall>u \<in> set us. scalar u \<and> u \<noteq> 0 \<Longrightarrow> 0 \<notin> set (concat (List.map utf8_enc us))"
  using zero_in_utf8_enc by auto

lemma parse_string_eq:
  "parse_string out s =
     bind_res (read_inc s) (\<lambda>(c, s1).
       if c \<noteq> 0x22 then Inl Rejected
       else bind_res (string_body s1) (\<lambda>(x, t). Inr (if out then Some x else None, tl t)))"
proof (cases "\<exists>s1. s = 0x22 # s1")
  case False
  then show ?thesis by (cases s) (auto simp: parse_string_def)
next
  case True
  then obtain s1 where s: "s = 0x22 # s1" by blast
  obtain sb0 where sb0: "sb_need sb_init 4 = Inr sb0" "sb_inv sb0" "sb_data sb0 = []"
    "4 \<le> sb_alloc sb0"
    using sb_need_room [OF sb_inv_init, of 4] by (auto simp: sb_init_def)
  have b: "sink_ok (Buffer sb0)" "sink_ok Throwaway" using sb0 by simp_all
  show ?thesis
  proof (cases "string_body s1")
    case (Inl e)
    with s sb0(1) parse_string_loop_body [OF b(1), of s1] parse_string_loop_body [OF b(2), of s1]
    show ?thesis by (simp add: parse_string_def)
  next
    case (Inr p)
    obtain x t where p: "p = (x, t)" by (cases p)
    have b1: "string_body s1 = Inr (x, t)" using Inr p by simp
    from string_body_sound [OF b1] obtain r us where t: "t = 0x22 # r"
      "x = concat (List.map utf8_enc us)" "\<forall>u \<in> set us. scalar u \<and> u \<noteq> 0" by blast
    from Inr p parse_string_loop_body [OF b(1), of s1] sb0 obtain sb where
      sb: "parse_string_loop (Buffer sb0) s1 = Inr (Buffer sb, t)" "sb_inv sb" "sb_data sb = x"
      by auto
    have "sb_finish sb = Inr x"
      using sb_finish_data [OF sb(2)] sb(3) t concat_encs_nonzero [OF t(3)] by simp
    moreover have "parse_string_loop Throwaway s1 = Inr (Throwaway, t)"
      using Inr p parse_string_loop_body [OF b(2), of s1] by auto
    ultimately show ?thesis
      using s sb0(1) sb(1) Inr p t(1) by (simp add: parse_string_def)
  qed
qed

interpretation string_lit: strict_lexer "parse_string out" for out
proof
  fix s t and x :: "bytes option"
  assume "parse_string out s = Inr (x, t)"
  then obtain s1 y t1 where p: "s = 0x22 # s1" "string_body s1 = Inr (y, t1)" "t = tl t1"
    by (auto simp: parse_string_eq res_simps split: if_splits)
  from string_body_sound [OF p(2)] obtain r where "advances s1 t1" "t1 = 0x22 # r" by blast
  with p(3) have "advances s1 (0x22 # t)" by simp
  also have "advances (0x22 # t) t" by (rule advances_Cons) simp_all
  finally show "advances s t"
    unfolding p(1) by (intro advances_Cons) simp_all
next
  fix s e
  assume "0 \<in> set s" "parse_string out s = Inl e"
  then show "e = Rejected"
    by (cases s) (auto simp: parse_string_eq res_simps intro: string_body_fails split: if_splits)
next
  fix s and x :: "bytes option"
  show "parse_string out s \<noteq> Inr (x, s)"
  proof
    assume "parse_string out s = Inr (x, s)"
    then obtain s1 y t1 where p: "s = 0x22 # s1" "string_body s1 = Inr (y, t1)" "s = tl t1"
      by (auto simp: parse_string_eq res_simps split: if_splits)
    from string_body_sound [OF p(2)] have "length t1 \<le> length s1" by (auto dest: advances_length)
    with p(1,3) show False by (cases t1) auto
  qed
qed

section \<open>The emitter\<close>

text \<open>
  One round of the loop of \<^verbatim>\<open>emit_string\<close>: the bytes it writes to \<^verbatim>\<open>b\<close> and the cursor behind
  the character.  \<^verbatim>\<open>escape_unicode\<close> is the local constant of the source, kept as a parameter
  so that the branch it disables is modelled too.  An invalid character is met by
  \<^verbatim>\<open>assert(false)\<close> (the build does not define \<^verbatim>\<open>NDEBUG\<close>), so the replacement character behind
  the assertion is never written.
\<close>

definition emit_escape :: "u32 \<Rightarrow> err + bytes" where
  "emit_escape unicode =
     (if unicode \<le> 0xFFFF then Inr ([0x5C, 0x75] @ write_hex16 (ucast unicode))
      else bind_res (to_surrogate_pair unicode) (\<lambda>(uc, lc).
        Inr ([0x5C, 0x75] @ write_hex16 uc @ [0x5C, 0x75] @ write_hex16 lc)))"

definition emit_char :: "bool \<Rightarrow> cursor \<Rightarrow> err + (bytes \<times> cursor)" where
  "emit_char escape_unicode s =
     bind_res (read_inc s) (\<lambda>(c, s1).
       if c = 0x22 then Inr ([0x5C, 0x22], s1)
       else if c = 0x5C then Inr ([0x5C, 0x5C], s1)
       else if c = 0x08 then Inr ([0x5C, 0x62], s1)
       else if c = 0x0C then Inr ([0x5C, 0x66], s1)
       else if c = 0x0A then Inr ([0x5C, 0x6E], s1)
       else if c = 0x0D then Inr ([0x5C, 0x72], s1)
       else if c = 0x09 then Inr ([0x5C, 0x74], s1)
       else bind_res (utf8_validate_cz s) (\<lambda>len.
         if len = 0 then Inl Assertion
         else if c < 0x1F \<or> (c \<ge> 0x80 \<and> escape_unicode) then
           bind_res (utf8_read_char s) (\<lambda>(n, unicode).
           bind_res (emit_escape unicode) (\<lambda>b. Inr (b, drop n s)))
         else copy_bytes len s))"

lemma copy_bytes_length: "copy_bytes n s = Inr (b, t) \<Longrightarrow> length s = n + length t"
  by (induction n arbitrary: s b) (auto simp: res_simps)

lemma utf8_read_char_positive: "utf8_read_char s = Inr (n, u) \<Longrightarrow> 0 < n"
  by (auto simp: utf8_read_char_def res_simps split: if_splits)

lemma emit_char_decreases: "emit_char esc s = Inr (b, t) \<Longrightarrow> length t < length s"
  by (cases s)
    (auto simp: emit_char_def res_simps dest!: copy_bytes_length utf8_read_char_positive
      split: if_splits)

function emit_string_loop :: "bool \<Rightarrow> sb \<Rightarrow> cursor \<Rightarrow> err + sb" where
  "emit_string_loop esc out s =
     bind_res (deref s) (\<lambda>c.
       if c = 0 then Inr out
       else bind_res (emit_char esc s) (\<lambda>(b, s1).
            bind_res (sb_store out b) (\<lambda>out1.
            bind_res (sb_need out1 14) (\<lambda>out2. emit_string_loop esc out2 s1))))"
  by pat_completeness auto
termination
  by (relation "measure (\<lambda>(esc, out, s). length s)") (auto dest: emit_char_decreases)

declare emit_string_loop.simps [simp del]

definition emit_string_with :: "bool \<Rightarrow> sb \<Rightarrow> bytes \<Rightarrow> err + sb" where
  "emit_string_with esc out str =
     bind_res (utf8_validate (cstr str)) (\<lambda>valid.
     bind_res (check_that valid Assertion) (\<lambda>_.
     bind_res (sb_need out 14) (\<lambda>out1.
     bind_res (sb_store out1 [0x22]) (\<lambda>out2.
     bind_res (emit_string_loop esc out2 (cstr str)) (\<lambda>out3.
       sb_store out3 [0x22])))))"

definition emit_string :: "sb \<Rightarrow> bytes \<Rightarrow> err + sb" where
  "emit_string out str = emit_string_with False out str"

definition json_encode_string :: "bytes \<Rightarrow> err + bytes" where
  "json_encode_string str = bind_res (emit_string sb_init str) sb_finish"

subsection \<open>What is written for one code point\<close>

definition enc_char :: "bool \<Rightarrow> u32 \<Rightarrow> bytes" where
  "enc_char esc u =
     (if u = 0x22 then [0x5C, 0x22] else if u = 0x5C then [0x5C, 0x5C]
      else if u = 0x08 then [0x5C, 0x62] else if u = 0x0C then [0x5C, 0x66]
      else if u = 0x0A then [0x5C, 0x6E] else if u = 0x0D then [0x5C, 0x72]
      else if u = 0x09 then [0x5C, 0x74]
      else if u < 0x1F \<or> (u \<ge> 0x80 \<and> esc) then
        (case emit_escape u of Inr b \<Rightarrow> b | Inl _ \<Rightarrow> [])
      else utf8_enc u)"

definition enc_string :: "bool \<Rightarrow> u32 list \<Rightarrow> bytes" where
  "enc_string esc us = [0x22] @ concat (List.map (enc_char esc) us) @ [0x22]"

lemma u32_eq_numeral: "(u :: u32) = numeral k \<longleftrightarrow> unat u = unat (numeral k :: u32)"
  by (rule word_eq_iff_unsigned)

lemma utf8_enc_cases:
  assumes "scalar u"
  obtains (byte) "unat u < 128" "utf8_enc u = [ucast u]" "unat (ucast u :: u8) = unat u"
    | (multi) c cs where "128 \<le> unat u" "utf8_enc u = c # cs" "128 \<le> unat c"
        "\<forall>x \<in> set cs. 128 \<le> unat x"
proof (cases "unat u < 128")
  case True
  have "utf8_enc u = [ucast u]" using True by (simp add: utf8_enc_def word_le_nat_alt)
  moreover have "unat (ucast u :: u8) = unat u"
    using True by (simp add: unsigned_ucast_eq take_bit_nat_eq_self)
  ultimately show thesis using True byte by blast
next
  case False
  have n: "unat u < 1114112" using assms by (simp add: scalar_iff)
  have "\<forall>x \<in> set (List.map unat (utf8_enc u)). 128 \<le> x"
    unfolding unat_utf8_enc [OF n] Let_def using False by simp
  moreover obtain c cs where "utf8_enc u = c # cs"
    using utf8_enc_length [of u] by (cases "utf8_enc u") auto
  ultimately show thesis using False multi [of c cs] by auto
qed

lemma emit_escape_ok:
  assumes "scalar u"
  shows "\<exists>b. emit_escape u = Inr b \<and> length b \<le> 12"
proof (cases "u \<le> 0xFFFF")
  case True
  then show ?thesis by (simp add: emit_escape_def write_hex16_def)
next
  case False
  with assms obtain uc lc where "to_surrogate_pair u = Inr (uc, lc)"
    using from_to_surrogate_pair [of u] by (auto simp: scalar_iff word_le_nat_alt)
  with False show ?thesis by (simp add: emit_escape_def write_hex16_def)
qed

lemma emit_char_enc:
  assumes "scalar u"
  shows "emit_char esc (utf8_enc u @ r) = Inr (enc_char esc u, r)"
proof -
  obtain b where b: "emit_escape u = Inr b" using emit_escape_ok [OF assms] by blast
  note v = utf8_validate_cz_enc [OF assms, of r] utf8_read_char_enc [OF assms, of r]
  note copy = copy_bytes_append [of "utf8_enc u" r]
  have d: "drop (length (utf8_enc u)) (utf8_enc u @ r) = r" by simp
  from assms show ?thesis
  proof (cases rule: utf8_enc_cases)
    case byte
    with v copy b d show ?thesis
      by (simp add: emit_char_def enc_char_def u8_eq_numeral u32_eq_numeral word_le_nat_alt
          word_less_nat_alt)
  next
    case (multi c cs)
    with v copy b d utf8_enc_length [of u] show ?thesis
      by (simp add: emit_char_def enc_char_def u8_eq_numeral u32_eq_numeral word_le_nat_alt
          word_less_nat_alt)
  qed
qed

lemma enc_char_length:
  assumes "scalar u"
  shows "length (enc_char esc u) \<le> 12"
  using emit_escape_ok [OF assms] utf8_enc_length [of u] by (auto simp: enc_char_def)

subsection \<open>The emitter writes the encoding of the string\<close>

lemma emit_string_loop_enc:
  assumes "\<forall>u \<in> set us. scalar u \<and> u \<noteq> 0" and "sb_inv out" and "length (sb_data out) + 13 \<le> sb_alloc out"
  shows "\<exists>out'. emit_string_loop esc out (concat (List.map utf8_enc us) @ [0]) = Inr out' \<and>
    sb_inv out' \<and> length (sb_data out') + 13 \<le> sb_alloc out' \<and>
    sb_data out' = sb_data out @ concat (List.map (enc_char esc) us)"
  using assms
proof (induction us arbitrary: out)
  case Nil
  then show ?case by (simp add: emit_string_loop.simps [of esc out "[0]"])
next
  case (Cons u us)
  define s where "s = concat (List.map utf8_enc us) @ [0]"
  have u: "scalar u" "u \<noteq> 0" using Cons.prems(1) by simp_all
  obtain c cs where c: "utf8_enc u = c # cs" using utf8_enc_length [of u] by (cases "utf8_enc u") auto
  have "c \<noteq> 0" using hd_utf8_enc_zero [OF u(1)] u(2) c by auto
  have fit: "sb_store out (enc_char esc u) = Inr (out\<lparr>sb_data := sb_data out @ enc_char esc u\<rparr>)"
    "sb_inv (out\<lparr>sb_data := sb_data out @ enc_char esc u\<rparr>)"
    using sb_store_fits [OF Cons.prems(2), of "enc_char esc u"] enc_char_length [OF u(1), of esc]
      Cons.prems(3) by simp_all
  obtain out2 where o: "sb_need (out\<lparr>sb_data := sb_data out @ enc_char esc u\<rparr>) 14 = Inr out2"
    "sb_inv out2" "sb_data out2 = sb_data out @ enc_char esc u"
    "length (sb_data out2) + 14 \<le> sb_alloc out2"
    using sb_need_room [OF fit(2), of 14] by auto
  obtain out' where "emit_string_loop esc out2 s = Inr out'" "sb_inv out'"
    "length (sb_data out') + 13 \<le> sb_alloc out'"
    "sb_data out' = sb_data out2 @ concat (List.map (enc_char esc) us)"
    using Cons.IH [of out2] Cons.prems(1) o unfolding s_def by auto
  moreover have "emit_string_loop esc out (utf8_enc u @ s) = emit_string_loop esc out2 s"
    using emit_char_enc [OF u(1), of esc s] c \<open>c \<noteq> 0\<close> fit(1) o(1)
    by (subst emit_string_loop.simps) simp
  ultimately show ?case by (simp add: s_def o(3))
qed

lemma emit_string_with_enc:
  assumes "\<forall>u \<in> set us. scalar u \<and> u \<noteq> 0"
  shows "sb_sink.writes (\<lambda>out. emit_string_with esc out (concat (List.map utf8_enc us)))
    (enc_string esc us)"
proof (rule sb_sink.writesI)
  fix out assume "sb_inv out"
  then obtain out1 where o1: "sb_need out 14 = Inr out1" "sb_inv out1" "sb_data out1 = sb_data out"
    "length (sb_data out) + 14 \<le> sb_alloc out1"
    using sb_need_room by blast
  define out2 where "out2 = out1\<lparr>sb_data := sb_data out @ [0x22]\<rparr>"
  have o2: "sb_store out1 [0x22] = Inr out2" "sb_inv out2" "length (sb_data out2) + 13 \<le> sb_alloc out2"
    "sb_data out2 = sb_data out @ [0x22]"
    using sb_store_fits [OF o1(2), of "[0x22]"] o1 by (simp_all add: out2_def)
  obtain out3 where o3: "emit_string_loop esc out2 (concat (List.map utf8_enc us) @ [0]) = Inr out3"
    "sb_inv out3" "length (sb_data out3) + 13 \<le> sb_alloc out3"
    "sb_data out3 = sb_data out2 @ concat (List.map (enc_char esc) us)"
    using emit_string_loop_enc [OF assms o2(2,3)] by blast
  have v: "utf8_validate (concat (List.map utf8_enc us) @ [0]) = Inr True"
    using utf8_validate_encs [OF assms, of "[0]"] by simp
  show "\<exists>out'. emit_string_with esc out (concat (List.map utf8_enc us)) = Inr out' \<and> sb_inv out' \<and>
      sb_data out' = sb_data out @ enc_string esc us"
    using v o1(1) o2(1) o3 o2(4) sb_store_fits [OF o3(2), of "[0x22]"]
    by (simp add: emit_string_with_def cstr_def enc_string_def)
qed

section \<open>Parsing what was emitted\<close>

lemma parse_emit_escape:
  assumes "scalar u" "u \<noteq> 0" "emit_escape u = Inr b"
  shows "parse_char (b @ r) = Inr (utf8_enc u, r)"
proof (cases "u \<le> 0xFFFF")
  case True
  define uc :: u16 where "uc = ucast u"
  have n: "unat uc = unat u"
    using True by (simp add: uc_def unsigned_ucast_eq word_le_nat_alt take_bit_nat_eq_self)
  then have up: "ucast uc = u" by (simp add: word_eq_iff_unsigned [where ?'a = nat] unat_ucast_up)
  have "\<not> (uc \<ge> 0xD800 \<and> uc \<le> 0xDFFF)" using assms(1) n by (auto simp: scalar_iff word_le_nat_alt)
  moreover have "uc \<noteq> 0" using up assms(2) by auto
  moreover have "b = [0x5C, 0x75] @ write_hex16 uc"
    using assms(3) True by (simp add: emit_escape_def uc_def)
  ultimately show ?thesis
    using assms(1) up parse_write_hex16 [of uc r]
    by (auto simp: parse_char_def parse_escape_def parse_unicode_escape_def utf8_write_char_def)
next
  case False
  with assms(1) obtain uc lc where p: "to_surrogate_pair u = Inr (uc, lc)"
    "from_surrogate_pair uc lc = Some u"
    using from_to_surrogate_pair [of u] by (auto simp: scalar_iff word_le_nat_alt)
  have "uc \<ge> 0xD800 \<and> uc \<le> 0xDFFF"
    using p(2) by (auto simp: from_surrogate_pair_def word_le_nat_alt split: if_splits)
  moreover have "b = [0x5C, 0x75] @ write_hex16 uc @ [0x5C, 0x75] @ write_hex16 lc"
    using assms(3) False p(1) by (simp add: emit_escape_def)
  ultimately show ?thesis
    using assms(1) p(2) parse_write_hex16 [of uc "0x5C # 0x75 # write_hex16 lc @ r"]
      parse_write_hex16 [of lc r]
    by (simp add: parse_char_def parse_escape_def parse_unicode_escape_def utf8_write_char_def)
qed

lemma parse_char_utf8:
  assumes "scalar u" "\<not> u \<le> 0x1F" "u \<noteq> 0x5C"
  shows "parse_char (utf8_enc u @ r) = Inr (utf8_enc u, r)"
proof -
  note v = utf8_validate_cz_enc [OF assms(1), of r]
  note copy = copy_bytes_append [of "utf8_enc u" r]
  from assms(1) show ?thesis
  proof (cases rule: utf8_enc_cases)
    case byte
    with assms(2,3) v copy show ?thesis
      by (simp add: parse_char_def u8_eq_numeral u32_eq_numeral word_le_nat_alt)
  next
    case (multi c cs)
    with v copy utf8_enc_length [of u] show ?thesis
      by (simp add: parse_char_def u8_eq_numeral word_le_nat_alt)
  qed
qed

text \<open>
  Every character comes back, but U+001F: the emitter escapes the characters below it
  (\<^verbatim>\<open>c < 0x1F\<close>), the parser rejects those up to it (\<^verbatim>\<open>c <= 0x1F\<close>).
\<close>

lemma parse_enc_char:
  assumes "scalar u" "u \<noteq> 0"
  shows "parse_char (enc_char esc u @ r) = (if u = 0x1F then Inl Rejected else Inr (utf8_enc u, r))"
proof -
  consider (short) "u \<in> {0x22, 0x5C, 0x08, 0x0C, 0x0A, 0x0D, 0x09}"
    | (us) "u = 0x1F"
    | (esc) "u \<notin> {0x22, 0x5C, 0x08, 0x0C, 0x0A, 0x0D, 0x09}" "u < 0x1F \<or> (u \<ge> 0x80 \<and> esc)"
    | (raw) "u \<notin> {0x22, 0x5C, 0x08, 0x0C, 0x0A, 0x0D, 0x09}"
        "\<not> (u < 0x1F \<or> (u \<ge> 0x80 \<and> esc))" "u \<noteq> 0x1F"
    by blast
  then show ?thesis
  proof cases
    case short
    then show ?thesis
      by (elim insertE emptyE; simp add: enc_char_def parse_char_def parse_escape_def utf8_enc_def)
  next
    case us
    then show ?thesis by (simp add: enc_char_def utf8_enc_def parse_char_def)
  next
    case esc
    obtain b where b: "emit_escape u = Inr b" using emit_escape_ok [OF assms(1)] by blast
    moreover have "u \<noteq> 0x1F" using esc(2) by auto
    moreover have "enc_char esc u = b" using esc b by (simp add: enc_char_def)
    ultimately show ?thesis using parse_emit_escape [OF assms] by simp
  next
    case raw
    have "\<not> u \<le> 0x1F" using raw(2,3) by (auto simp: word_less_nat_alt word_le_nat_alt u32_eq_numeral)
    moreover have "enc_char esc u = utf8_enc u" using raw by (auto simp: enc_char_def)
    ultimately show ?thesis using parse_char_utf8 [OF assms(1)] raw by simp
  qed
qed

lemma enc_char_head:
  assumes "scalar u"
  shows "\<exists>c cs. enc_char esc u = c # cs \<and> c \<noteq> 0x22"
proof -
  obtain b where b: "emit_escape u = Inr b" using emit_escape_ok [OF assms] by blast
  then have "\<exists>cs. b = 0x5C # cs" by (auto simp: emit_escape_def res_simps split: if_splits)
  moreover have "\<exists>c cs. utf8_enc u = c # cs \<and> c \<noteq> 0x22" if "u \<noteq> 0x22"
    using assms that
    by (cases rule: utf8_enc_cases) (auto simp: u8_eq_numeral u32_eq_numeral)
  ultimately show ?thesis using b by (auto simp: enc_char_def)
qed

lemma string_body_enc:
  assumes "\<forall>u \<in> set us. scalar u \<and> u \<noteq> 0"
  shows "string_body (concat (List.map (enc_char esc) us) @ 0x22 # r) =
    (if 0x1F \<in> set us then Inl Rejected else Inr (concat (List.map utf8_enc us), 0x22 # r))"
  using assms
proof (induction us)
  case Nil
  then show ?case by (simp add: string_body_step)
next
  case (Cons u us)
  then obtain c cs where c: "enc_char esc u = c # cs" "c \<noteq> 0x22"
    using enc_char_head [of u esc] by auto
  have "parse_char (c # cs @ concat (List.map (enc_char esc) us) @ 0x22 # r) =
    (if u = 0x1F then Inl Rejected
     else Inr (utf8_enc u, concat (List.map (enc_char esc) us) @ 0x22 # r))"
    using parse_enc_char [of u esc "concat (List.map (enc_char esc) us) @ 0x22 # r"] Cons.prems c
    by simp
  with Cons c show ?case by (simp add: string_body_step)
qed

lemma parse_enc_string:
  assumes "\<forall>u \<in> set us. scalar u \<and> u \<noteq> 0"
  shows "parse_string out (enc_string esc us @ r) =
    (if 0x1F \<in> set us then Inl Rejected
     else Inr (if out then Some (concat (List.map utf8_enc us)) else None, r))"
  using string_body_enc [OF assms, of esc r] by (simp add: parse_string_eq enc_string_def)

lemma unit_separator_in_encs:
  assumes "\<forall>u \<in> set us. scalar u"
  shows "0x1F \<in> set (concat (List.map utf8_enc us)) \<longleftrightarrow> 0x1F \<in> set us"
proof -
  have "0x1F \<in> set (utf8_enc u) \<longleftrightarrow> u = 0x1F" if "scalar u" for u
    using that
    by (cases rule: utf8_enc_cases) (auto simp: u8_eq_numeral u32_eq_numeral)
  with assms show ?thesis by auto
qed

lemma enc_char_nonzero:
  assumes "scalar u" "u \<noteq> 0"
  shows "0 \<notin> set (enc_char esc u)"
proof -
  obtain b where b: "emit_escape u = Inr b" using emit_escape_ok [OF assms(1)] by blast
  then have "0 \<notin> set b"
    using write_hex16_nonzero by (auto simp: emit_escape_def res_simps split: if_splits)
  with b zero_in_utf8_enc [OF assms(1)] assms(2) show ?thesis by (auto simp: enc_char_def)
qed

lemma enc_string_nonzero:
  "\<forall>u \<in> set us. scalar u \<and> u \<noteq> 0 \<Longrightarrow> 0 \<notin> set (enc_string esc us)"
  using enc_char_nonzero by (auto simp: enc_string_def)

lemma json_encode_string_enc:
  assumes "\<forall>u \<in> set us. scalar u \<and> u \<noteq> 0"
  shows "json_encode_string (concat (List.map utf8_enc us)) = Inr (enc_string False us)"
proof -
  obtain sb where "emit_string sb_init (concat (List.map utf8_enc us)) = Inr sb" "sb_inv sb"
    "sb_data sb = enc_string False us"
    using sb_sink.writesD [OF emit_string_with_enc [OF assms, of False] sb_inv_init]
    by (auto simp: emit_string_def sb_init_def)
  then show ?thesis
    using sb_finish_data enc_string_nonzero [OF assms] by (simp add: json_encode_string_def)
qed

end
