(* ===== verification/Json_Parse.thy ===== *)
theory Json_Parse
  imports Json_String
begin

text \<open>
  The recursive-descent parser of \<^verbatim>\<open>src/src/json.c\<close>: \<^verbatim>\<open>parse_value\<close>, \<^verbatim>\<open>parse_array\<close>,
  \<^verbatim>\<open>parse_object\<close> and the entry points \<^verbatim>\<open>json_decode\<close> and \<^verbatim>\<open>json_validate\<close>.  The flag
  \<open>out\<close> says whether the caller passed an output pointer (\<^verbatim>\<open>out != NULL\<close>); without it the
  same code only validates.  The trees under construction have one owner, so they are
  values here; the linked representation of a tree is modelled in the theory of the heap.
  The functions are total: every input makes them return, and the depth of the C stack is
  the one resource that is not modelled.
\<close>

section \<open>Trees and the parser\<close>

datatype 'd json =
    JSON_NULL
  | JSON_BOOL bool
  | JSON_STRING bytes
  | JSON_NUMBER 'd
  | JSON_ARRAY "'d json list"
  | JSON_OBJECT "(bytes \<times> 'd json) list"

text \<open>
  \<^verbatim>\<open>json_append_element\<close> and \<^verbatim>\<open>append_member\<close> of the loops, guarded by \<^verbatim>\<open>if (out)\<close>;
  the bodies of the \<^verbatim>\<open>for (;;)\<close> loops are \<open>parse_elements\<close> and \<open>parse_members\<close>.
\<close>

definition append_opt :: "'a list \<Rightarrow> 'a option \<Rightarrow> 'a list" where
  "append_opt ret x = (case x of None \<Rightarrow> ret | Some e \<Rightarrow> ret @ [e])"

definition append_member_opt ::
    "(bytes \<times> 'd json) list \<Rightarrow> bytes option \<Rightarrow> 'd json option \<Rightarrow> (bytes \<times> 'd json) list" where
  "append_member_opt ret key value =
     (case (key, value) of (Some k, Some v) \<Rightarrow> ret @ [(k, v)] | _ \<Rightarrow> ret)"

definition if_out :: "bool \<Rightarrow> 'a \<Rightarrow> 'a option" where
  "if_out out x = (if out then Some x else None)"

function (sequential)
      parse_value :: "(cursor \<Rightarrow> 'd) \<Rightarrow> bool \<Rightarrow> cursor \<Rightarrow> err + ('d json option \<times> cursor)"
  and parse_array :: "(cursor \<Rightarrow> 'd) \<Rightarrow> bool \<Rightarrow> cursor \<Rightarrow> err + ('d json option \<times> cursor)"
  and parse_elements ::
        "(cursor \<Rightarrow> 'd) \<Rightarrow> bool \<Rightarrow> 'd json list \<Rightarrow> cursor \<Rightarrow> err + ('d json list \<times> cursor)"
  and parse_object :: "(cursor \<Rightarrow> 'd) \<Rightarrow> bool \<Rightarrow> cursor \<Rightarrow> err + ('d json option \<times> cursor)"
  and parse_members ::
        "(cursor \<Rightarrow> 'd) \<Rightarrow> bool \<Rightarrow> (bytes \<times> 'd json) list \<Rightarrow> cursor \<Rightarrow>
         err + ((bytes \<times> 'd json) list \<times> cursor)"
where
  "parse_value strtod out s =
     bind_res (deref s) (\<lambda>c.
       if c = 0x6E then
         bind_res (expect_literal s (ascii ''null'')) (\<lambda>s1. Inr (if_out out JSON_NULL, s1))
       else if c = 0x66 then
         bind_res (expect_literal s (ascii ''false'')) (\<lambda>s1. Inr (if_out out (JSON_BOOL False), s1))
       else if c = 0x74 then
         bind_res (expect_literal s (ascii ''true'')) (\<lambda>s1. Inr (if_out out (JSON_BOOL True), s1))
       else if c = 0x22 then
         bind_res (parse_string out s) (\<lambda>(str, s1). Inr (map_option JSON_STRING str, s1))
       else if c = 0x5B then parse_array strtod out s
       else if c = 0x7B then parse_object strtod out s
       else bind_res (parse_number strtod out s) (\<lambda>(num, s1). Inr (map_option JSON_NUMBER num, s1)))"
| "parse_array strtod out s =
     bind_res (read_inc s) (\<lambda>(c, s1). if c \<noteq> 0x5B then Inl Rejected else
     bind_res (skip_space s1) (\<lambda>s2.
     bind_res (deref s2) (\<lambda>c2.
       if c2 = 0x5D then Inr (if_out out (JSON_ARRAY []), tl s2)
       else bind_res (parse_elements strtod out [] s2) (\<lambda>(ret, s3).
              Inr (if_out out (JSON_ARRAY ret), s3)))))"
| "parse_elements strtod out ret s =
     bind_res (parse_value strtod out s) (\<lambda>(element, s1).
     bind_res (skip_space s1) (\<lambda>s2.
     bind_res (deref s2) (\<lambda>c.
       if c = 0x5D then Inr (append_opt ret element, tl s2)
       else if c \<noteq> 0x2C then Inl Rejected
       else bind_res (skip_space (tl s2)) (\<lambda>s3.
              parse_elements strtod out (append_opt ret element) s3))))"
| "parse_object strtod out s =
     bind_res (read_inc s) (\<lambda>(c, s1). if c \<noteq> 0x7B then Inl Rejected else
     bind_res (skip_space s1) (\<lambda>s2.
     bind_res (deref s2) (\<lambda>c2.
       if c2 = 0x7D then Inr (if_out out (JSON_OBJECT []), tl s2)
       else bind_res (parse_members strtod out [] s2) (\<lambda>(ret, s3).
              Inr (if_out out (JSON_OBJECT ret), s3)))))"
| "parse_members strtod out ret s =
     bind_res (parse_string out s) (\<lambda>(key, s1).
     bind_res (skip_space s1) (\<lambda>s2.
     bind_res (read_inc s2) (\<lambda>(c, s3). if c \<noteq> 0x3A then Inl Rejected else
     bind_res (skip_space s3) (\<lambda>s4.
     bind_res (parse_value strtod out s4) (\<lambda>(value, s5).
     bind_res (skip_space s5) (\<lambda>s6.
     bind_res (deref s6) (\<lambda>c6.
       if c6 = 0x7D then Inr (append_member_opt ret key value, tl s6)
       else if c6 \<noteq> 0x2C then Inl Rejected
       else bind_res (skip_space (tl s6)) (\<lambda>s7.
              parse_members strtod out (append_member_opt ret key value) s7))))))))"
  by pat_completeness auto

text \<open>Wherever the functions are defined, they move forward: the termination argument.\<close>

lemma skip_space_length: "skip_space s = Inr t \<Longrightarrow> length t \<le> length s"
  by (rule advances_length) (rule skip_space_advances)

definition moves :: "cursor \<Rightarrow> cursor \<Rightarrow> bool" where
  "moves s t \<longleftrightarrow> advances s t \<and> length t < length s"

lemma moves_rules:
  "c \<noteq> 0 \<Longrightarrow> advances s t \<Longrightarrow> moves (c # s) t"
  "moves s t \<Longrightarrow> advances t u \<Longrightarrow> moves s u"
  "advances s t \<Longrightarrow> moves t u \<Longrightarrow> moves s u"
  by (auto simp: moves_def intro: advances_Cons advances_trans dest: advances_length)

lemma moves_trans3: "moves s a \<Longrightarrow> advances a b \<Longrightarrow> moves b t \<Longrightarrow> moves s t"
  using moves_rules(2,3) moves_def by blast

lemma moves_literal:
  assumes "expect_literal s (ascii str) = Inr t" "0 \<notin> set (ascii str)" "str \<noteq> []"
  shows "moves s t"
  using assms by (cases str) (auto simp: expect_literal_iff moves_def intro!: advances_Cons advances_append)

lemma moves_lex:
  "parse_string out s = Inr (x, t) \<Longrightarrow> moves s t"
  "parse_number strtod out s = Inr (y, t) \<Longrightarrow> moves s t"
  using string_lit.run_advances string_lit.run_decreases number.run_advances number.run_decreases
  by (auto simp: moves_def)

lemma deref_eq_Inr: "deref s = Inr c \<longleftrightarrow> (\<exists>s'. s = c # s')"
  by (cases s) auto

lemma moves_item:
  assumes "moves s s1" "skip_space s1 = Inr s2" "deref s2 = Inr c" "c \<noteq> 0"
  shows "moves s (tl s2)"
proof -
  from assms(3) obtain s' where s2: "s2 = c # s'" by (auto simp: deref_eq_Inr)
  have "advances s1 s'"
    using skip_space_advances [OF assms(2)] s2 assms(4) by (auto intro: advances_trans advances_Cons)
  with assms(1) s2 show ?thesis by (simp add: moves_rules(2))
qed

lemma parse_dom_moves:
  "parse_value_parse_array_parse_elements_parse_object_parse_members_dom
     (Inl (Inl (strtod, out, s))) \<Longrightarrow>
   \<forall>v t. parse_value strtod out s = Inr (v, t) \<longrightarrow> moves s t"
  "parse_value_parse_array_parse_elements_parse_object_parse_members_dom
     (Inl (Inr (strtod, out, s))) \<Longrightarrow>
   \<forall>v t. parse_array strtod out s = Inr (v, t) \<longrightarrow> moves s t"
  "parse_value_parse_array_parse_elements_parse_object_parse_members_dom
     (Inr (Inl (strtod, out, ret, s))) \<Longrightarrow>
   \<forall>v t. parse_elements strtod out ret s = Inr (v, t) \<longrightarrow> moves s t"
  "parse_value_parse_array_parse_elements_parse_object_parse_members_dom
     (Inr (Inr (Inl (strtod, out, s)))) \<Longrightarrow>
   \<forall>v t. parse_object strtod out s = Inr (v, t) \<longrightarrow> moves s t"
  "parse_value_parse_array_parse_elements_parse_object_parse_members_dom
     (Inr (Inr (Inr (strtod, out, ret', s)))) \<Longrightarrow>
   \<forall>v t. parse_members strtod out ret' s = Inr (v, t) \<longrightarrow> moves s t"
proof (induction rule: parse_value_parse_array_parse_elements_parse_object_parse_members.pinduct)
  case (1 strtod out s)
  have lit: "0 \<notin> set (ascii ''null'')" "0 \<notin> set (ascii ''false'')" "0 \<notin> set (ascii ''true'')"
    by simp_all
  show ?case
    using 1 moves_literal [OF _ lit(1)] moves_literal [OF _ lit(2)] moves_literal [OF _ lit(3)]
    by (auto simp: parse_value.psimps res_simps dest: moves_lex split: if_splits)
next
  case (2 strtod out s)
  show ?case
  proof (intro allI impI)
    fix v t assume "parse_array strtod out s = Inr (v, t)"
    with 2(1) obtain s1 s2 c where s: "s = 0x5B # s1" "skip_space s1 = Inr s2" "deref s2 = Inr c"
      and k: "c = 0x5D \<and> t = tl s2 \<or> c \<noteq> 0x5D \<and> (\<exists>ret. parse_elements strtod out [] s2 = Inr (ret, t))"
      by (auto simp: parse_array.psimps res_simps split: if_splits)
    have m: "moves s s1" using s(1) by (auto intro: moves_rules)
    show "moves s t"
      using k
    proof (elim disjE conjE exE)
      assume "c = 0x5D" "t = tl s2"
      with moves_item [OF m s(2,3)] show ?thesis by simp
    next
      fix ret assume "c \<noteq> 0x5D" "parse_elements strtod out [] s2 = Inr (ret, t)"
      moreover have "\<forall>v t. parse_elements strtod out [] s2 = Inr (v, t) \<longrightarrow> moves s2 t"
        by (rule 2(2) [of "(0x5B, s1)" "0x5B" s1 s2 c]) (use s calculation(1) in simp_all)
      ultimately have step: "moves s2 t" by blast
      show ?thesis using moves_trans3 [OF m skip_space_advances [OF s(2)] step] .
    qed
  qed
next
  case (3 strtod out ret s)
  show ?case
  proof (intro allI impI)
    fix v t assume "parse_elements strtod out ret s = Inr (v, t)"
    with 3(1) obtain e s1 s2 c where s: "parse_value strtod out s = Inr (e, s1)"
      "skip_space s1 = Inr s2" "deref s2 = Inr c"
      and k: "c = 0x5D \<and> t = tl s2 \<or> c \<noteq> 0x5D \<and> c = 0x2C \<and> (\<exists>s3. skip_space (tl s2) = Inr s3 \<and>
        parse_elements strtod out (append_opt ret e) s3 = Inr (v, t))"
      by (auto simp: parse_elements.psimps res_simps split: if_splits)
    have "c \<noteq> 0" using k by auto
    moreover have "moves s s1" using 3(2) s(1) by blast
    ultimately have m: "moves s (tl s2)"
      using moves_item s(2,3) by blast
    show "moves s t"
      using k
    proof (elim disjE conjE exE)
      assume "t = tl s2"
      with m show ?thesis by simp
    next
      fix s3 assume c: "c \<noteq> 0x5D" "c = 0x2C" "skip_space (tl s2) = Inr s3"
        "parse_elements strtod out (append_opt ret e) s3 = Inr (v, t)"
      have "\<forall>v t. parse_elements strtod out (append_opt ret e) s3 = Inr (v, t) \<longrightarrow> moves s3 t"
        by (rule 3(3) [of "(e, s1)" e s1 s2 c s3]) (use s c in simp_all)
      then have step: "moves s3 t" using c(4) by blast
      show ?thesis using moves_trans3 [OF m skip_space_advances [OF c(3)] step] .
    qed
  qed
next
  case (4 strtod out s)
  show ?case
  proof (intro allI impI)
    fix v t assume "parse_object strtod out s = Inr (v, t)"
    with 4(1) obtain s1 s2 c where s: "s = 0x7B # s1" "skip_space s1 = Inr s2" "deref s2 = Inr c"
      and k: "c = 0x7D \<and> t = tl s2 \<or> c \<noteq> 0x7D \<and> (\<exists>ret. parse_members strtod out [] s2 = Inr (ret, t))"
      by (auto simp: parse_object.psimps res_simps split: if_splits)
    have m: "moves s s1" using s(1) by (auto intro: moves_rules)
    show "moves s t"
      using k
    proof (elim disjE conjE exE)
      assume "c = 0x7D" "t = tl s2"
      with moves_item [OF m s(2,3)] show ?thesis by simp
    next
      fix ret assume "c \<noteq> 0x7D" "parse_members strtod out [] s2 = Inr (ret, t)"
      moreover have "\<forall>v t. parse_members strtod out [] s2 = Inr (v, t) \<longrightarrow> moves s2 t"
        by (rule 4(2) [of "(0x7B, s1)" "0x7B" s1 s2 c]) (use s calculation(1) in simp_all)
      ultimately have step: "moves s2 t" by blast
      show ?thesis using moves_trans3 [OF m skip_space_advances [OF s(2)] step] .
    qed
  qed
next
  case (5 strtod out ret s)
  show ?case
  proof (intro allI impI)
    fix v t assume "parse_members strtod out ret s = Inr (v, t)"
    with 5(1) obtain key s1 s2 s3 s4 e s5 s6 c where
      s: "parse_string out s = Inr (key, s1)" "skip_space s1 = Inr s2" "read_inc s2 = Inr (0x3A, s3)"
      "skip_space s3 = Inr s4" "parse_value strtod out s4 = Inr (e, s5)"
      "skip_space s5 = Inr s6" "deref s6 = Inr c"
      and k: "c = 0x7D \<and> t = tl s6 \<or> c \<noteq> 0x7D \<and> c = 0x2C \<and> (\<exists>s7. skip_space (tl s6) = Inr s7 \<and>
        parse_members strtod out (append_member_opt ret key e) s7 = Inr (v, t))"
      by (auto simp: parse_members.psimps res_simps split: if_splits)
    have "moves s (tl s2)"
      using moves_item [OF moves_lex(1) [OF s(1)] s(2), of "0x3A"] s(3) by (auto simp: res_simps)
    then have m3: "moves s s3" using s(3) by (auto simp: res_simps)
    have "\<forall>v t. parse_value strtod out s4 = Inr (v, t) \<longrightarrow> moves s4 t"
      by (rule 5(2) [of "(key, s1)" key s1 s2 "(0x3A, s3)" "0x3A" s3 s4]) (use s in simp_all)
    then have "moves s4 s5" using s(5) by blast
    then have "moves s s5"
      using moves_trans3 [OF m3 skip_space_advances [OF s(4)]] by blast
    moreover have "c \<noteq> 0" using k by auto
    ultimately have m: "moves s (tl s6)"
      using moves_item s(6,7) by blast
    show "moves s t"
      using k
    proof (elim disjE conjE exE)
      assume "t = tl s6"
      with m show ?thesis by simp
    next
      fix s7 assume c: "c \<noteq> 0x7D" "c = 0x2C" "skip_space (tl s6) = Inr s7"
        "parse_members strtod out (append_member_opt ret key e) s7 = Inr (v, t)"
      have "\<forall>v t. parse_members strtod out (append_member_opt ret key e) s7 = Inr (v, t) \<longrightarrow> moves s7 t"
        by (rule 5(3) [of "(key, s1)" key s1 s2 "(0x3A, s3)" "0x3A" s3 s4 "(e, s5)" e s5 s6 c s7])
          (use s c in simp_all)
      then have step: "moves s7 t" using c(4) by blast
      show ?thesis using moves_trans3 [OF m skip_space_advances [OF c(3)] step] .
    qed
  qed
qed

lemma parse_total: "All parse_value_parse_array_parse_elements_parse_object_parse_members_dom"
proof (rule "parse_value_parse_array_parse_elements_parse_object_parse_members.termination" [where R = "measures
    [\<lambda>x. case x of Inl (Inl (strtod, out, s)) \<Rightarrow> length s | Inl (Inr (strtod, out, s)) \<Rightarrow> length s
         | Inr (Inl (strtod, out, ret, s)) \<Rightarrow> length s
         | Inr (Inr (Inl (strtod, out, s))) \<Rightarrow> length s
         | Inr (Inr (Inr (strtod, out, ret, s))) \<Rightarrow> length s,
     \<lambda>x. case x of Inl (Inl _) \<Rightarrow> 1 | Inl (Inr _) \<Rightarrow> 0 | Inr (Inl _) \<Rightarrow> 2 | Inr (Inr (Inl _)) \<Rightarrow> 0
         | Inr (Inr (Inr _)) \<Rightarrow> (2 :: nat)]"], goal_cases)
  case 1
  then show ?case by simp
next
  case 2
  then show ?case by simp
next
  case 3
  then show ?case by simp
next
  case 4
  then show ?case by (auto simp: res_simps dest: skip_space_length)
next
  case 5
  then show ?case by simp
next
  case 6
  then show ?case
    by (auto dest!: parse_dom_moves(1) skip_space_length simp: moves_def deref_eq_Inr)
next
  case 7
  then show ?case by (auto simp: res_simps dest: skip_space_length)
next
  case 8
  then show ?case
    by (auto simp: res_simps moves_def dest!: moves_lex skip_space_length)
next
  case 9
  then show ?case
    by (auto dest!: parse_dom_moves(1) moves_lex skip_space_length simp: res_simps moves_def deref_eq_Inr)
qed

termination parse_value
  by (rule parse_total)

declare parse_value.simps [simp del] parse_array.simps [simp del] parse_elements.simps [simp del]
  parse_object.simps [simp del] parse_members.simps [simp del]

lemmas parse_dom = parse_total [THEN spec]

lemmas parse_moves =
  parse_dom_moves(1) [OF parse_dom, rule_format] parse_dom_moves(2) [OF parse_dom, rule_format]
  parse_dom_moves(3) [OF parse_dom, rule_format] parse_dom_moves(4) [OF parse_dom, rule_format]
  parse_dom_moves(5) [OF parse_dom, rule_format]

lemmas parse_induct =
  parse_value_parse_array_parse_elements_parse_object_parse_members.induct

section \<open>Decoding and validating\<close>

definition json_decode :: "(cursor \<Rightarrow> 'd) \<Rightarrow> cursor \<Rightarrow> err + 'd json" where
  "json_decode strtod json =
     bind_res (skip_space json) (\<lambda>s1.
     bind_res (parse_value strtod True s1) (\<lambda>(ret, s2).
     bind_res (skip_space s2) (\<lambda>s3.
     bind_res (deref s3) (\<lambda>c.
       if c \<noteq> 0 then Inl Rejected
       else case ret of Some j \<Rightarrow> Inr j | None \<Rightarrow> Inl Out_Of_Bounds))))"

text \<open>\<^verbatim>\<open>json_validate\<close> returns a truth value: its \<^verbatim>\<open>return false\<close> is \<open>Inr False\<close>.\<close>

definition json_validate :: "cursor \<Rightarrow> err + bool" where
  "json_validate json =
     (case bind_res (skip_space json) (\<lambda>s1.
           bind_res (parse_value (\<lambda>_. ()) False s1) (\<lambda>(_, s2).
           bind_res (skip_space s2) (\<lambda>s3.
           bind_res (deref s3) (\<lambda>c. if c \<noteq> 0 then Inl Rejected else Inr ())))) of
        Inr _ \<Rightarrow> Inr True
      | Inl e \<Rightarrow> (if e = Rejected then Inr False else Inl e))"

section \<open>Memory safety\<close>

text \<open>A result is safe when its only failure is a rejection.\<close>

definition safe :: "err + 'a \<Rightarrow> bool" where
  "safe r \<longleftrightarrow> (\<forall>e. r = Inl e \<longrightarrow> e = Rejected)"

lemma safe_simps [simp]: "safe (Inr x)" "safe (Inl e) \<longleftrightarrow> e = Rejected"
  by (simp_all add: safe_def)

lemma safe_bind [intro!]: "safe m \<Longrightarrow> (\<And>x. m = Inr x \<Longrightarrow> safe (f x)) \<Longrightarrow> safe (bind_res m f)"
  by (cases m) simp_all

lemma safe_skip_space: "0 \<in> set s \<Longrightarrow> safe (skip_space s)"
  using skip_space_total by fastforce

lemma safe_read: "0 \<in> set s \<Longrightarrow> safe (deref s)" "0 \<in> set s \<Longrightarrow> safe (read_inc s)"
  by (cases s; simp)+

lemma safe_expect_literal: "0 \<in> set s \<Longrightarrow> 0 \<notin> set str \<Longrightarrow> safe (expect_literal s str)"
  using expect_literal_fails by (auto simp: safe_def)

lemma safe_parsed: "0 \<in> set s \<Longrightarrow> safe (parse_string out s)" "0 \<in> set s \<Longrightarrow> safe (parse_number strtod out s)"
  using string_lit.run_fails number.run_fails by (auto simp: safe_def)

lemmas safe_lex = safe_skip_space safe_read safe_expect_literal safe_parsed

lemma moves_terminated: "moves s t \<Longrightarrow> 0 \<in> set s \<Longrightarrow> 0 \<in> set t"
  by (auto simp: moves_def dest: advances_terminated)

lemma skip_space_terminated: "0 \<in> set s \<Longrightarrow> skip_space s = Inr t \<Longrightarrow> 0 \<in> set t"
  using skip_space_advances advances_terminated by blast

lemma read_terminated:
  "0 \<in> set s \<Longrightarrow> read_inc s = Inr (c, t) \<Longrightarrow> c \<noteq> 0 \<Longrightarrow> 0 \<in> set t"
  "0 \<in> set s \<Longrightarrow> deref s = Inr c \<Longrightarrow> c \<noteq> 0 \<Longrightarrow> 0 \<in> set (tl s)"
  by (cases s; auto)+

lemma parsed_terminated:
  "0 \<in> set s \<Longrightarrow> parse_string out s = Inr (v, t) \<Longrightarrow> 0 \<in> set t"
  by (rule string_lit.run_terminated)

lemma value_terminated:
  "0 \<in> set s \<Longrightarrow> parse_value strtod out s = Inr (w, t) \<Longrightarrow> 0 \<in> set t"
  using parse_moves(1) moves_terminated by blast

text \<open>One step of a parser on a terminated block: it succeeds or rejects, and what is left is terminated.\<close>

lemma safe_steps:
  "0 \<in> set s \<Longrightarrow> (\<And>t. skip_space s = Inr t \<Longrightarrow> 0 \<in> set t \<Longrightarrow> safe (f t)) \<Longrightarrow>
     safe (bind_res (skip_space s) f)"
  "0 \<in> set s \<Longrightarrow> (\<And>c. deref s = Inr c \<Longrightarrow> (c \<noteq> 0 \<Longrightarrow> 0 \<in> set (tl s)) \<Longrightarrow> safe (g c)) \<Longrightarrow>
     safe (bind_res (deref s) g)"
  "0 \<in> set s \<Longrightarrow> (\<And>c t. read_inc s = Inr (c, t) \<Longrightarrow> (c \<noteq> 0 \<Longrightarrow> 0 \<in> set t) \<Longrightarrow> safe (h (c, t))) \<Longrightarrow>
     safe (bind_res (read_inc s) h)"
  "0 \<in> set s \<Longrightarrow> (\<And>x t. parse_string out s = Inr (x, t) \<Longrightarrow> 0 \<in> set t \<Longrightarrow> safe (k (x, t))) \<Longrightarrow>
     safe (bind_res (parse_string out s) k)"
  "0 \<in> set s \<Longrightarrow> safe (parse_value strtod out s) \<Longrightarrow>
     (\<And>x t. parse_value strtod out s = Inr (x, t) \<Longrightarrow> 0 \<in> set t \<Longrightarrow> safe (l (x, t))) \<Longrightarrow>
     safe (bind_res (parse_value strtod out s) l)"
  subgoal by (rule safe_bind [OF safe_skip_space]) (auto dest: skip_space_terminated)
  subgoal by (rule safe_bind [OF safe_read(1)]) (auto dest: read_terminated)
  subgoal by (rule safe_bind [OF safe_read(2)]) (auto dest: read_terminated)
  subgoal by (rule safe_bind [OF safe_parsed(1)]) (auto dest: parsed_terminated)
  subgoal by (rule safe_bind) (auto dest: value_terminated)
  done

lemma safe_if: "(b \<Longrightarrow> safe x) \<Longrightarrow> (\<not> b \<Longrightarrow> safe y) \<Longrightarrow> safe (if b then x else y)"
  by simp

lemma safe_map: "safe m \<Longrightarrow> safe (bind_res m (\<lambda>(x, t). Inr (f x t)))"
  by auto

lemma parse_safe:
  "0 \<in> set s \<Longrightarrow> safe (parse_value strtod out s)"
  "0 \<in> set s \<Longrightarrow> safe (parse_array strtod out s)"
  "0 \<in> set s \<Longrightarrow> safe (parse_elements strtod out ret s)"
  "0 \<in> set s \<Longrightarrow> safe (parse_object strtod out s)"
  "0 \<in> set s \<Longrightarrow> safe (parse_members strtod out ret' s)"
proof (induction strtod out s and strtod out s and strtod out ret s and strtod out s
    and strtod out ret' s rule: parse_induct)
  case (1 strtod out s)
  then show ?case
    by (subst parse_value.simps) (auto simp: safe_lex)
next
  case (2 strtod out s)
  show ?case
  proof (subst parse_array.simps, rule safe_steps(3) [OF "2.prems"], simp only: prod.case,
      rule safe_if, simp, rule safe_steps(1), simp, rule safe_steps(2), assumption, rule safe_if,
      simp, rule safe_map)
    fix c s1 s2 c2
    assume r: "read_inc s = Inr (c, s1)" "\<not> c \<noteq> 0x5B" "skip_space s1 = Inr s2" "0 \<in> set s2"
      "deref s2 = Inr c2" "c2 \<noteq> 0x5D"
    show "safe (parse_elements strtod out [] s2)"
      by (rule "2.IH" [of "(c, s1)" c s1 s2 c2]) (use r in simp_all)
  qed
next
  case (3 strtod out ret s)
  show ?case
  proof (subst parse_elements.simps, rule safe_steps(5) [OF "3.prems"], rule "3.IH"(1) [OF "3.prems"],
      simp only: prod.case, rule safe_steps(1), assumption, rule safe_steps(2), assumption, rule safe_if,
      simp, rule safe_if, simp, rule safe_steps(1), simp)
    fix e s1 s2 c s3
    assume r: "parse_value strtod out s = Inr (e, s1)" "skip_space s1 = Inr s2" "deref s2 = Inr c"
      "c \<noteq> 0x5D" "\<not> c \<noteq> 0x2C" "skip_space (tl s2) = Inr s3" "0 \<in> set s3"
    show "safe (parse_elements strtod out (append_opt ret e) s3)"
      by (rule "3.IH"(2) [of "(e, s1)" e s1 s2 c s3]) (use r in simp_all)
  qed
next
  case (4 strtod out s)
  show ?case
  proof (subst parse_object.simps, rule safe_steps(3) [OF "4.prems"], simp only: prod.case,
      rule safe_if, simp, rule safe_steps(1), simp, rule safe_steps(2), assumption, rule safe_if,
      simp, rule safe_map)
    fix c s1 s2 c2
    assume r: "read_inc s = Inr (c, s1)" "\<not> c \<noteq> 0x7B" "skip_space s1 = Inr s2" "0 \<in> set s2"
      "deref s2 = Inr c2" "c2 \<noteq> 0x7D"
    show "safe (parse_members strtod out [] s2)"
      by (rule "4.IH" [of "(c, s1)" c s1 s2 c2]) (use r in simp_all)
  qed
next
  case (5 strtod out ret s)
  show ?case
  proof (subst parse_members.simps, rule safe_steps(4) [OF "5.prems"], simp only: prod.case,
      rule safe_steps(1), assumption, rule safe_steps(3), assumption, simp only: prod.case,
      rule safe_if, simp, rule safe_steps(1), simp, rule safe_steps(5), assumption)
    fix key s1 s2 c s3 s4
    assume r: "parse_string out s = Inr (key, s1)" "skip_space s1 = Inr s2" "read_inc s2 = Inr (c, s3)"
      "\<not> c \<noteq> 0x3A" "skip_space s3 = Inr s4" "0 \<in> set s4"
    show "safe (parse_value strtod out s4)"
      by (rule "5.IH"(1) [of "(key, s1)" key s1 s2 "(c, s3)" c s3 s4]) (use r in simp_all)
    fix v s5
    assume r5: "parse_value strtod out s4 = Inr (v, s5)" "0 \<in> set s5"
    show "safe (case (v, s5) of (value, s5) \<Rightarrow> bind_res (skip_space s5) (\<lambda>s6. bind_res (deref s6) (\<lambda>c6.
       if c6 = 0x7D then Inr (append_member_opt ret key value, tl s6)
       else if c6 \<noteq> 0x2C then Inl Rejected
       else bind_res (skip_space (tl s6)) (parse_members strtod out (append_member_opt ret key value)))))"
    proof (simp only: prod.case, rule safe_steps(1), rule r5(2), rule safe_steps(2), assumption,
        rule safe_if, simp, rule safe_if, simp, rule safe_steps(1), simp)
      fix s6 c6 s7
      assume r7: "skip_space s5 = Inr s6" "deref s6 = Inr c6" "c6 \<noteq> 0x7D" "\<not> c6 \<noteq> 0x2C"
        "skip_space (tl s6) = Inr s7" "0 \<in> set s7"
      show "safe (parse_members strtod out (append_member_opt ret key v) s7)"
        by (rule "5.IH"(2) [of "(key, s1)" key s1 s2 "(c, s3)" c s3 s4 "(v, s5)" v s5 s6 c6 s7])
          (use r r5 r7 in simp_all)
    qed
  qed
qed

section \<open>What a decoded tree holds\<close>

definition valid_text :: "bytes \<Rightarrow> bool" where
  "valid_text xs \<longleftrightarrow> 0 \<notin> set xs \<and> utf8_validate (cstr xs) = Inr True"

fun json_all :: "(bytes \<Rightarrow> bool) \<Rightarrow> ('d \<Rightarrow> bool) \<Rightarrow> 'd json \<Rightarrow> bool" where
  "json_all P Q JSON_NULL \<longleftrightarrow> True"
| "json_all P Q (JSON_BOOL b) \<longleftrightarrow> True"
| "json_all P Q (JSON_STRING s) \<longleftrightarrow> P s"
| "json_all P Q (JSON_NUMBER d) \<longleftrightarrow> Q d"
| "json_all P Q (JSON_ARRAY xs) \<longleftrightarrow> (\<forall>x \<in> set xs. json_all P Q x)"
| "json_all P Q (JSON_OBJECT ms) \<longleftrightarrow> (\<forall>(k, v) \<in> set ms. P k \<and> json_all P Q v)"

lemma valid_text_iff:
  "valid_text xs \<longleftrightarrow> (\<exists>us. xs = concat (List.map utf8_enc us) \<and> (\<forall>u \<in> set us. scalar u \<and> u \<noteq> 0))"
  using utf8_validate_iff [of xs] concat_encs_nonzero by (auto simp: valid_text_def)

text \<open>\<open>given out P x\<close>: the output \<open>x\<close> was produced if asked for, and satisfies \<open>P\<close>.\<close>

definition given :: "bool \<Rightarrow> ('a \<Rightarrow> bool) \<Rightarrow> 'a option \<Rightarrow> bool" where
  "given out P x \<longleftrightarrow> (if out then \<exists>v. x = Some v \<and> P v else x = None)"

lemma given_simps [simp]:
  "given out P (Some v) \<longleftrightarrow> out \<and> P v"
  "given out P None \<longleftrightarrow> \<not> out"
  "given out P (if_out out v) \<longleftrightarrow> (out \<longrightarrow> P v)"
  by (auto simp: given_def if_out_def)

lemma given_map: "given out P x \<Longrightarrow> (\<And>v. P v \<Longrightarrow> Q (f v)) \<Longrightarrow> given out Q (map_option f x)"
  by (auto simp: given_def split: if_splits)

lemma given_append:
  "given out P x \<Longrightarrow> \<forall>y \<in> set ret. P y \<Longrightarrow> \<forall>y \<in> set (append_opt ret x). P y"
  by (auto simp: given_def append_opt_def split: if_splits)

lemma given_append_member:
  "given out P k \<Longrightarrow> given out Q x \<Longrightarrow> \<forall>(k, y) \<in> set ret. P k \<and> Q y \<Longrightarrow>
   \<forall>(k, y) \<in> set (append_member_opt ret k x). P k \<and> Q y"
  by (auto simp: given_def append_member_opt_def split: if_splits)

lemma parse_string_given: "parse_string out s = Inr (x, t) \<Longrightarrow> given out valid_text x"
  by (auto simp: parse_string_eq valid_text_iff res_simps dest!: string_body_sound split: if_splits)

text \<open>The numbers of a decoded tree are what \<^verbatim>\<open>strtod\<close> made of a number of the grammar.\<close>

definition read_from :: "(cursor \<Rightarrow> 'd) \<Rightarrow> 'd \<Rightarrow> bool" where
  "read_from strtod d \<longleftrightarrow> (\<exists>n r. json_number n \<and> d = strtod (n @ r))"

abbreviation parsed_ok :: "(cursor \<Rightarrow> 'd) \<Rightarrow> 'd json \<Rightarrow> bool" where
  "parsed_ok strtod \<equiv> json_all valid_text (read_from strtod)"

lemma parse_number_given:
  "parse_number strtod out s = Inr (x, t) \<Longrightarrow> given out (read_from strtod) x"
proof -
  assume "parse_number strtod out s = Inr (x, t)"
  then obtain n where "s = n @ t" "json_number n" and x: "x = (if out then Some (strtod s) else None)"
    using parse_number_sound by blast
  then have "read_from strtod (strtod s)" unfolding read_from_def by blast
  with x show ?thesis by simp
qed

lemma parse_given:
  "parse_value strtod out s = Inr (x, t) \<Longrightarrow> given out (parsed_ok strtod) x"
  "parse_array strtod out s = Inr (x, t) \<Longrightarrow> given out (parsed_ok strtod) x"
  "parse_elements strtod out ret s = Inr (ret1, t) \<Longrightarrow> \<forall>y \<in> set ret. parsed_ok strtod y \<Longrightarrow>
     \<forall>y \<in> set ret1. parsed_ok strtod y"
  "parse_object strtod out s = Inr (x, t) \<Longrightarrow> given out (parsed_ok strtod) x"
  "parse_members strtod out mems s = Inr (mems1, t) \<Longrightarrow>
     \<forall>(k, y) \<in> set mems. valid_text k \<and> parsed_ok strtod y \<Longrightarrow>
     \<forall>(k, y) \<in> set mems1. valid_text k \<and> parsed_ok strtod y"
proof (induction strtod out s and strtod out s and strtod out ret s and strtod out s
    and strtod out mems s arbitrary: x t and x t and ret1 t and x t and mems1 t rule: parse_induct)
  case (1 strtod out s)
  have n: "given out (parsed_ok strtod) (map_option JSON_NUMBER y)"
    if "parse_number strtod out s = Inr (y, t)" for y
    using parse_number_given [OF that] by (rule given_map) simp
  have st: "given out (parsed_ok strtod) (map_option JSON_STRING y)"
    if "parse_string out s = Inr (y, t)" for y
    using parse_string_given [OF that] by (rule given_map) simp
  from "1.prems" have "given out (parsed_ok strtod) x \<or>
      (\<exists>c. deref s = Inr c \<and> c = 0x5B \<and> parse_array strtod out s = Inr (x, t)) \<or>
      (\<exists>c. deref s = Inr c \<and> c = 0x7B \<and> parse_object strtod out s = Inr (x, t))"
    by (subst (asm) parse_value.simps) (auto simp: res_simps n st split: if_splits)
  then show ?case
    using "1.IH"(1) [of "0x5B"] "1.IH"(2) [of "0x7B"] by auto
next
  case (2 strtod out s)
  from "2.prems" obtain s1 s2 c2 where r: "read_inc s = Inr (0x5B, s1)" "skip_space s1 = Inr s2"
    "deref s2 = Inr c2" and
    k: "x = if_out out (JSON_ARRAY []) \<or>
      c2 \<noteq> 0x5D \<and> (\<exists>ret. parse_elements strtod out [] s2 = Inr (ret, t) \<and> x = if_out out (JSON_ARRAY ret))"
    by (subst (asm) parse_array.simps) (auto simp: res_simps split: if_splits)
  have "\<forall>y \<in> set ret. parsed_ok strtod y"
    if "c2 \<noteq> 0x5D" "parse_elements strtod out [] s2 = Inr (ret, t)" for ret
    by (rule "2.IH" [of "(0x5B, s1)" "0x5B" s1 s2 c2 ret t]) (use r that in simp_all)
  with k show ?case by auto
next
  case (3 strtod out ret s)
  from "3.prems"(1) obtain e s1 s2 c where r: "parse_value strtod out s = Inr (e, s1)"
    "skip_space s1 = Inr s2" "deref s2 = Inr c" and
    k: "ret1 = append_opt ret e \<or> c \<noteq> 0x5D \<and> c = 0x2C \<and> (\<exists>s3. skip_space (tl s2) = Inr s3 \<and>
      parse_elements strtod out (append_opt ret e) s3 = Inr (ret1, t))"
    by (subst (asm) parse_elements.simps) (auto simp: res_simps split: if_splits)
  have e: "\<forall>y \<in> set (append_opt ret e). parsed_ok strtod y"
    using "3.IH"(1) [OF r(1)] "3.prems"(2) by (rule given_append)
  have "\<forall>y \<in> set ret1. parsed_ok strtod y"
    if "c \<noteq> 0x5D" "c = 0x2C" "skip_space (tl s2) = Inr s3"
      "parse_elements strtod out (append_opt ret e) s3 = Inr (ret1, t)" for s3
    by (rule "3.IH"(2) [of "(e, s1)" e s1 s2 c s3 ret1 t]) (use r that e in simp_all)
  with k e show ?case by auto
next
  case (4 strtod out s)
  from "4.prems" obtain s1 s2 c2 where r: "read_inc s = Inr (0x7B, s1)" "skip_space s1 = Inr s2"
    "deref s2 = Inr c2" and
    k: "x = if_out out (JSON_OBJECT []) \<or>
      c2 \<noteq> 0x7D \<and> (\<exists>ret. parse_members strtod out [] s2 = Inr (ret, t) \<and> x = if_out out (JSON_OBJECT ret))"
    by (subst (asm) parse_object.simps) (auto simp: res_simps split: if_splits)
  have "\<forall>(k, y) \<in> set ret. valid_text k \<and> parsed_ok strtod y"
    if "c2 \<noteq> 0x7D" "parse_members strtod out [] s2 = Inr (ret, t)" for ret
    by (rule "4.IH" [of "(0x7B, s1)" "0x7B" s1 s2 c2 ret t]) (use r that in simp_all)
  with k show ?case by auto
next
  case (5 strtod out ret s)
  from "5.prems"(1) obtain key s1 s2 s3 s4 v s5 s6 c where
    r: "parse_string out s = Inr (key, s1)" "skip_space s1 = Inr s2" "read_inc s2 = Inr (0x3A, s3)"
      "skip_space s3 = Inr s4" "parse_value strtod out s4 = Inr (v, s5)" "skip_space s5 = Inr s6"
      "deref s6 = Inr c" and
    k: "mems1 = append_member_opt ret key v \<or> c \<noteq> 0x7D \<and> c = 0x2C \<and> (\<exists>s7. skip_space (tl s6) = Inr s7 \<and>
      parse_members strtod out (append_member_opt ret key v) s7 = Inr (mems1, t))"
    by (subst (asm) parse_members.simps) (auto simp: res_simps split: if_splits)
  have "given out (parsed_ok strtod) v"
    by (rule "5.IH"(1) [of "(key, s1)" key s1 s2 "(0x3A, s3)" "0x3A" s3 s4 v s5]) (use r in simp_all)
  then have e: "\<forall>(k, y) \<in> set (append_member_opt ret key v). valid_text k \<and> parsed_ok strtod y"
    using parse_string_given [OF r(1)] "5.prems"(2) by (intro given_append_member)
  have "\<forall>(k, y) \<in> set mems1. valid_text k \<and> parsed_ok strtod y"
    if "c \<noteq> 0x7D" "c = 0x2C" "skip_space (tl s6) = Inr s7"
      "parse_members strtod out (append_member_opt ret key v) s7 = Inr (mems1, t)" for s7
    by (rule "5.IH"(2) [of "(key, s1)" key s1 s2 "(0x3A, s3)" "0x3A" s3 s4 "(v, s5)" v s5 s6 c s7 mems1 t])
      (use r that e in simp_all)
  with k e show ?case by auto
qed

section \<open>Validating is decoding without the tree\<close>

text \<open>The control flow of a parser does not depend on its output.\<close>

definition shape :: "err + ('a \<times> cursor) \<Rightarrow> err + cursor" where
  "shape r = map_sum id snd r"

lemma shape_simps [simp]: "shape (Inl e) = Inl e" "shape (Inr (x, t)) = Inr t"
  by (simp_all add: shape_def)

lemma shape_bind:
  assumes "shape m = shape m'"
    and "\<And>x y t. m = Inr (x, t) \<Longrightarrow> m' = Inr (y, t) \<Longrightarrow> shape (f (x, t)) = shape (f' (y, t))"
  shows "shape (bind_res m f) = shape (bind_res m' f')"
  using assms by (cases m; cases m') (auto simp: shape_def)

lemma shape_bind_same:
  "(\<And>x. m = Inr x \<Longrightarrow> shape (f x) = shape (f' x)) \<Longrightarrow> shape (bind_res m f) = shape (bind_res m f')"
  by (cases m) simp_all

lemma shape_if:
  "(b \<Longrightarrow> shape x = shape x') \<Longrightarrow> (\<not> b \<Longrightarrow> shape y = shape y') \<Longrightarrow>
   shape (if b then x else y) = shape (if b then x' else y')"
  by simp

lemma shape_string: "shape (parse_string out s) = shape (parse_string out' s)"
  by (auto simp: parse_string_eq intro!: shape_bind_same split: prod.splits)

lemma shape_number: "shape (parse_number strtod out s) = shape (parse_number strtod' out' s)"
  by (auto simp: parse_number_def intro!: shape_bind_same)

lemma parse_shape:
  "shape (parse_value strtod out s) = shape (parse_value strtod' out' s)"
  "shape (parse_array strtod out s) = shape (parse_array strtod' out' s)"
  "\<forall>ret'. shape (parse_elements strtod out ret s) = shape (parse_elements strtod' out' ret' s)"
  "shape (parse_object strtod out s) = shape (parse_object strtod' out' s)"
  "\<forall>ret'. shape (parse_members strtod out mems s) = shape (parse_members strtod' out' ret' s)"
proof (induction strtod out s and strtod out s and strtod out ret s and strtod out s
    and strtod out mems s rule: parse_induct)
  case (1 strtod out s)
  show ?case
    by (subst (1 2) parse_value.simps, rule shape_bind_same)
      (auto intro!: shape_if shape_bind_same shape_bind [OF shape_string] shape_bind [OF shape_number]
        simp: "1.IH")
next
  case (2 strtod out s)
  show ?case
  proof (subst (1 2) parse_array.simps, rule shape_bind_same, clarsimp simp only: prod.case,
      rule shape_if, simp, rule shape_bind_same, rule shape_bind_same, rule shape_if, simp,
      rule shape_bind)
    fix c s1 s2 c2
    assume r: "read_inc s = Inr (c, s1)" "\<not> c \<noteq> 0x5B" "skip_space s1 = Inr s2"
      "deref s2 = Inr c2" "c2 \<noteq> 0x5D"
    show "shape (parse_elements strtod out [] s2) = shape (parse_elements strtod' out' [] s2)"
      by (rule "2.IH" [of "(c, s1)" c s1 s2 c2, THEN spec]) (use r in simp_all)
  qed simp
next
  case (3 strtod out ret s)
  show ?case
  proof (rule allI, subst (1 2) parse_elements.simps, rule shape_bind, rule "3.IH"(1),
      simp only: prod.case, rule shape_bind_same, rule shape_bind_same, rule shape_if, simp,
      rule shape_if, simp, rule shape_bind_same)
    fix ret' e e' s1 s2 c s3
    assume r: "parse_value strtod out s = Inr (e, s1)" "skip_space s1 = Inr s2" "deref s2 = Inr c"
      "c \<noteq> 0x5D" "\<not> c \<noteq> 0x2C" "skip_space (tl s2) = Inr s3"
    show "shape (parse_elements strtod out (append_opt ret e) s3) =
      shape (parse_elements strtod' out' (append_opt ret' e') s3)"
      by (rule "3.IH"(2) [of "(e, s1)" e s1 s2 c s3, THEN spec]) (use r in simp_all)
  qed
next
  case (4 strtod out s)
  show ?case
  proof (subst (1 2) parse_object.simps, rule shape_bind_same, clarsimp simp only: prod.case,
      rule shape_if, simp, rule shape_bind_same, rule shape_bind_same, rule shape_if, simp,
      rule shape_bind)
    fix c s1 s2 c2
    assume r: "read_inc s = Inr (c, s1)" "\<not> c \<noteq> 0x7B" "skip_space s1 = Inr s2"
      "deref s2 = Inr c2" "c2 \<noteq> 0x7D"
    show "shape (parse_members strtod out [] s2) = shape (parse_members strtod' out' [] s2)"
      by (rule "4.IH" [of "(c, s1)" c s1 s2 c2, THEN spec]) (use r in simp_all)
  qed simp
next
  case (5 strtod out ret s)
  show ?case
  proof (rule allI, subst (1 2) parse_members.simps, rule shape_bind, rule shape_string,
      simp only: prod.case, rule shape_bind_same, rule shape_bind_same, clarsimp simp only: prod.case,
      rule shape_if, simp, rule shape_bind_same, rule shape_bind)
    fix ret' key key' s1 s2 c s3 s4
    assume r: "parse_string out s = Inr (key, s1)" "skip_space s1 = Inr s2" "read_inc s2 = Inr (c, s3)"
      "\<not> c \<noteq> 0x3A" "skip_space s3 = Inr s4"
    show "shape (parse_value strtod out s4) = shape (parse_value strtod' out' s4)"
      by (rule "5.IH"(1) [of "(key, s1)" key s1 s2 "(c, s3)" c s3 s4]) (use r in simp_all)
    fix v v' s5
    assume r5: "parse_value strtod out s4 = Inr (v, s5)"
    show "shape (case (v, s5) of (value, s5) \<Rightarrow> bind_res (skip_space s5) (\<lambda>s6. bind_res (deref s6) (\<lambda>c6.
       if c6 = 0x7D then Inr (append_member_opt ret key value, tl s6)
       else if c6 \<noteq> 0x2C then Inl Rejected
       else bind_res (skip_space (tl s6)) (parse_members strtod out (append_member_opt ret key value))))) =
      shape (case (v', s5) of (value, s5) \<Rightarrow> bind_res (skip_space s5) (\<lambda>s6. bind_res (deref s6) (\<lambda>c6.
       if c6 = 0x7D then Inr (append_member_opt ret' key' value, tl s6)
       else if c6 \<noteq> 0x2C then Inl Rejected
       else bind_res (skip_space (tl s6)) (parse_members strtod' out' (append_member_opt ret' key' value)))))"
    proof (simp only: prod.case, rule shape_bind_same, rule shape_bind_same, rule shape_if, simp,
        rule shape_if, simp, rule shape_bind_same)
      fix s6 c6 s7
      assume r7: "skip_space s5 = Inr s6" "deref s6 = Inr c6" "c6 \<noteq> 0x7D" "\<not> c6 \<noteq> 0x2C"
        "skip_space (tl s6) = Inr s7"
      show "shape (parse_members strtod out (append_member_opt ret key v) s7) =
        shape (parse_members strtod' out' (append_member_opt ret' key' v') s7)"
        by (rule "5.IH"(2) [of "(key, s1)" key s1 s2 "(c, s3)" c s3 s4 "(v, s5)" v s5 s6 c6 s7, THEN spec])
          (use r r5 r7 in simp_all)
    qed
  qed
qed

section \<open>The entry points\<close>

lemma json_decode_safe:
  assumes "0 \<in> set s"
  shows "safe (json_decode strtod s)"
proof -
  have "given True (parsed_ok strtod) x" if "parse_value strtod True t = Inr (x, u)" for x t u
    using parse_given(1) [OF that] .
  then show ?thesis
    unfolding json_decode_def
    by (intro safe_steps(1) safe_steps(2) safe_steps(5) parse_safe assms)
      (auto simp: given_def split: option.splits intro!: safe_steps)
qed

lemma json_validate_eq:
  assumes "0 \<in> set s"
  shows "json_validate s = Inr (\<exists>j. json_decode strtod s = Inr j)"
proof -
  obtain s1 where s1: "skip_space s = Inr s1" "0 \<in> set s1"
    using skip_space_total [OF assms] skip_space_terminated [OF assms] by auto
  note sh = parse_shape(1) [of "\<lambda>_. ()" False s1 strtod True]
  show ?thesis
  proof (cases "parse_value strtod True s1")
    case (Inl e)
    moreover have "e = Rejected" using parse_safe(1) [OF s1(2), of strtod True] Inl by simp
    moreover have "parse_value (\<lambda>_. ()) False s1 = Inl e"
      using sh Inl by (cases "parse_value (\<lambda>_. ()) False s1") (auto simp: shape_def)
    ultimately show ?thesis using s1(1) by (simp add: json_validate_def json_decode_def)
  next
    case (Inr r)
    obtain x t where r: "r = (x, t)" by (cases r)
    obtain y where y: "parse_value (\<lambda>_. ()) False s1 = Inr (y, t)"
      using sh Inr r by (cases "parse_value (\<lambda>_. ()) False s1") (auto simp: shape_def)
    obtain j where x: "x = Some j" using parse_given(1) [of strtod True s1 x t] Inr r by (auto simp: given_def)
    have t: "0 \<in> set t" using value_terminated [OF s1(2)] Inr r by blast
    obtain t1 where t1: "skip_space t = Inr t1" "0 \<in> set t1"
      using skip_space_total [OF t] skip_space_terminated [OF t] by auto
    then obtain c t2 where "t1 = c # t2" by (cases t1) auto
    with s1(1) Inr r y x t1 show ?thesis by (simp add: json_validate_def json_decode_def)
  qed
qed

lemma json_decode_texts:
  assumes "json_decode strtod s = Inr j"
  shows "parsed_ok strtod j"
  using assms parse_given(1) [of strtod True]
  by (fastforce simp: json_decode_def res_simps given_def split: if_splits option.splits)

end
