(* ===== verification/Json_Emit.thy ===== *)
theory Json_Emit
  imports Json_Parse
begin

text \<open>
  The emitters of \<^verbatim>\<open>src/src/json.c\<close>: numbers, compact and indented trees, and the entry
  points \<^verbatim>\<open>json_encode\<close> and \<^verbatim>\<open>json_stringify\<close>.  They are shown to write exactly a
  functional encoding of the tree, without overrunning the buffer, and the parser is shown to
  read this encoding back.
\<close>

section \<open>The functions of the source\<close>

text \<open>
  \<^verbatim>\<open>sprintf(buf, "%.16g", num)\<close> of the C library is the parameter \<open>fmt\<close>; \<^verbatim>\<open>buf\<close> has 64 bytes.
\<close>

definition emit_number :: "('d \<Rightarrow> bytes) \<Rightarrow> sb \<Rightarrow> 'd \<Rightarrow> err + sb" where
  "emit_number fmt out num =
     bind_res (check_that (length (cstr (fmt num)) \<le> 64) Out_Of_Bounds) (\<lambda>_.
     bind_res (number_is_valid (cstr (fmt num))) (\<lambda>valid.
       if valid then sb_puts out (fmt num) else sb_puts out (ascii ''null'')))"

text \<open>
  The trees are values here, so the tag of a node is always valid and the assertion on it
  holds.  The loops run over the list of the children; \<^verbatim>\<open>element->next != NULL\<close> is
  \<open>xs \<noteq> []\<close>.
\<close>

definition emit_array :: "(sb \<Rightarrow> err + sb) \<Rightarrow> sb \<Rightarrow> err + sb" where
  "emit_array children out =
     bind_res (sb_putc out 0x5B) (\<lambda>o1. bind_res (children o1) (\<lambda>o2. sb_putc o2 0x5D))"

definition emit_object :: "(sb \<Rightarrow> err + sb) \<Rightarrow> sb \<Rightarrow> err + sb" where
  "emit_object children out =
     bind_res (sb_putc out 0x7B) (\<lambda>o1. bind_res (children o1) (\<lambda>o2. sb_putc o2 0x7D))"

primrec emit_value :: "('d \<Rightarrow> bytes) \<Rightarrow> 'd json \<Rightarrow> sb \<Rightarrow> err + sb"
  and emit_elements :: "('d \<Rightarrow> bytes) \<Rightarrow> 'd json list \<Rightarrow> sb \<Rightarrow> err + sb"
  and emit_members :: "('d \<Rightarrow> bytes) \<Rightarrow> (bytes \<times> 'd json) list \<Rightarrow> sb \<Rightarrow> err + sb"
  and emit_member :: "('d \<Rightarrow> bytes) \<Rightarrow> bytes \<times> 'd json \<Rightarrow> sb \<Rightarrow> err + sb"
where
  "emit_value fmt JSON_NULL = (\<lambda>out. sb_puts out (ascii ''null''))"
| "emit_value fmt (JSON_BOOL b) = (\<lambda>out. sb_puts out (if b then ascii ''true'' else ascii ''false''))"
| "emit_value fmt (JSON_STRING str) = (\<lambda>out. emit_string out str)"
| "emit_value fmt (JSON_NUMBER num) = (\<lambda>out. emit_number fmt out num)"
| "emit_value fmt (JSON_ARRAY xs) = (\<lambda>out. emit_array (emit_elements fmt xs) out)"
| "emit_value fmt (JSON_OBJECT ms) = (\<lambda>out. emit_object (emit_members fmt ms) out)"
| "emit_elements fmt [] = Inr"
| "emit_elements fmt (x # xs) = (\<lambda>out.
     bind_res (emit_value fmt x out) (\<lambda>o1.
     bind_res (if xs \<noteq> [] then sb_putc o1 0x2C else Inr o1) (\<lambda>o2.
       emit_elements fmt xs o2)))"
| "emit_members fmt [] = Inr"
| "emit_members fmt (m # ms) = (\<lambda>out.
     bind_res (emit_member fmt m out) (\<lambda>o3.
     bind_res (if ms \<noteq> [] then sb_putc o3 0x2C else Inr o3) (\<lambda>o4.
       emit_members fmt ms o4)))"
| "emit_member fmt (key, x) = (\<lambda>out.
     bind_res (emit_string out key) (\<lambda>o1.
     bind_res (sb_putc o1 0x3A) (\<lambda>o2. emit_value fmt x o2)))"

text \<open>\<^verbatim>\<open>for (i = 0; i < n; i++) sb_puts(out, space)\<close>\<close>

fun emit_indent :: "nat \<Rightarrow> sb \<Rightarrow> bytes \<Rightarrow> err + sb" where
  "emit_indent 0 out space = Inr out"
| "emit_indent (Suc n) out space = bind_res (sb_puts out space) (\<lambda>o1. emit_indent n o1 space)"

definition emit_array_indented ::
    "bool \<Rightarrow> (sb \<Rightarrow> err + sb) \<Rightarrow> sb \<Rightarrow> bytes \<Rightarrow> nat \<Rightarrow> err + sb" where
  "emit_array_indented no_child children out space level =
     (if no_child then sb_puts out (ascii ''[]'')
      else bind_res (sb_puts out [0x5B, 0x0A]) (\<lambda>o1.
           bind_res (children o1) (\<lambda>o2.
           bind_res (emit_indent level o2 space) (\<lambda>o3. sb_putc o3 0x5D))))"

definition emit_object_indented ::
    "bool \<Rightarrow> (sb \<Rightarrow> err + sb) \<Rightarrow> sb \<Rightarrow> bytes \<Rightarrow> nat \<Rightarrow> err + sb" where
  "emit_object_indented no_child children out space level =
     (if no_child then sb_puts out (ascii ''{}'')
      else bind_res (sb_puts out [0x7B, 0x0A]) (\<lambda>o1.
           bind_res (children o1) (\<lambda>o2.
           bind_res (emit_indent level o2 space) (\<lambda>o3. sb_putc o3 0x7D))))"

primrec emit_value_indented :: "('d \<Rightarrow> bytes) \<Rightarrow> bytes \<Rightarrow> 'd json \<Rightarrow> nat \<Rightarrow> sb \<Rightarrow> err + sb"
  and emit_elements_indented ::
        "('d \<Rightarrow> bytes) \<Rightarrow> bytes \<Rightarrow> 'd json list \<Rightarrow> nat \<Rightarrow> sb \<Rightarrow> err + sb"
  and emit_members_indented ::
        "('d \<Rightarrow> bytes) \<Rightarrow> bytes \<Rightarrow> (bytes \<times> 'd json) list \<Rightarrow> nat \<Rightarrow> sb \<Rightarrow> err + sb"
  and emit_member_indented ::
        "('d \<Rightarrow> bytes) \<Rightarrow> bytes \<Rightarrow> bytes \<times> 'd json \<Rightarrow> nat \<Rightarrow> sb \<Rightarrow> err + sb"
where
  "emit_value_indented fmt space JSON_NULL = (\<lambda>level out. sb_puts out (ascii ''null''))"
| "emit_value_indented fmt space (JSON_BOOL b) = (\<lambda>level out.
     sb_puts out (if b then ascii ''true'' else ascii ''false''))"
| "emit_value_indented fmt space (JSON_STRING str) = (\<lambda>level out. emit_string out str)"
| "emit_value_indented fmt space (JSON_NUMBER num) = (\<lambda>level out. emit_number fmt out num)"
| "emit_value_indented fmt space (JSON_ARRAY xs) = (\<lambda>level out.
     emit_array_indented (xs = []) (emit_elements_indented fmt space xs level) out space level)"
| "emit_value_indented fmt space (JSON_OBJECT ms) = (\<lambda>level out.
     emit_object_indented (ms = []) (emit_members_indented fmt space ms level) out space level)"
| "emit_elements_indented fmt space [] = (\<lambda>level. Inr)"
| "emit_elements_indented fmt space (x # xs) = (\<lambda>level out.
     bind_res (emit_indent (level + 1) out space) (\<lambda>o1.
     bind_res (emit_value_indented fmt space x (level + 1) o1) (\<lambda>o2.
     bind_res (sb_puts o2 (if xs \<noteq> [] then [0x2C, 0x0A] else [0x0A])) (\<lambda>o3.
       emit_elements_indented fmt space xs level o3))))"
| "emit_members_indented fmt space [] = (\<lambda>level. Inr)"
| "emit_members_indented fmt space (m # ms) = (\<lambda>level out.
     bind_res (emit_indent (level + 1) out space) (\<lambda>o1.
     bind_res (emit_member_indented fmt space m level o1) (\<lambda>o4.
     bind_res (sb_puts o4 (if ms \<noteq> [] then [0x2C, 0x0A] else [0x0A])) (\<lambda>o5.
       emit_members_indented fmt space ms level o5))))"
| "emit_member_indented fmt space (key, x) = (\<lambda>level out.
     bind_res (emit_string out key) (\<lambda>o2.
     bind_res (sb_puts o2 [0x3A, 0x20]) (\<lambda>o3. emit_value_indented fmt space x (level + 1) o3)))"

definition json_stringify :: "('d \<Rightarrow> bytes) \<Rightarrow> 'd json \<Rightarrow> bytes option \<Rightarrow> err + bytes" where
  "json_stringify fmt node space =
     bind_res (case space of
         Some sp \<Rightarrow> emit_value_indented fmt sp node 0 sb_init
       | None \<Rightarrow> emit_value fmt node sb_init) sb_finish"

definition json_encode :: "('d \<Rightarrow> bytes) \<Rightarrow> 'd json \<Rightarrow> err + bytes" where
  "json_encode fmt node = json_stringify fmt node None"

section \<open>The encoding of a tree\<close>

text \<open>
  Both layouts are one encoding: \<open>brk n\<close> is the line break before an item at depth \<open>n\<close> and
  \<open>gap\<close> what follows a colon.
\<close>

definition enc_number :: "('d \<Rightarrow> bytes) \<Rightarrow> 'd \<Rightarrow> bytes" where
  "enc_number fmt d = (if number_is_valid (cstr (fmt d)) = Inr True then fmt d else ascii ''null'')"

definition enc_text :: "bytes \<Rightarrow> bytes" where
  "enc_text xs = (case json_encode_string xs of Inr b \<Rightarrow> b | Inl _ \<Rightarrow> [])"

primrec enc_value :: "(nat \<Rightarrow> bytes) \<Rightarrow> bytes \<Rightarrow> ('d \<Rightarrow> bytes) \<Rightarrow> 'd json \<Rightarrow> nat \<Rightarrow> bytes"
  and enc_elements :: "(nat \<Rightarrow> bytes) \<Rightarrow> bytes \<Rightarrow> ('d \<Rightarrow> bytes) \<Rightarrow> 'd json list \<Rightarrow> nat \<Rightarrow> bytes"
  and enc_members ::
        "(nat \<Rightarrow> bytes) \<Rightarrow> bytes \<Rightarrow> ('d \<Rightarrow> bytes) \<Rightarrow> (bytes \<times> 'd json) list \<Rightarrow> nat \<Rightarrow> bytes"
  and enc_member ::
        "(nat \<Rightarrow> bytes) \<Rightarrow> bytes \<Rightarrow> ('d \<Rightarrow> bytes) \<Rightarrow> bytes \<times> 'd json \<Rightarrow> nat \<Rightarrow> bytes"
where
  "enc_value brk gap fmt JSON_NULL = (\<lambda>n. ascii ''null'')"
| "enc_value brk gap fmt (JSON_BOOL b) = (\<lambda>n. if b then ascii ''true'' else ascii ''false'')"
| "enc_value brk gap fmt (JSON_STRING s) = (\<lambda>n. enc_text s)"
| "enc_value brk gap fmt (JSON_NUMBER d) = (\<lambda>n. enc_number fmt d)"
| "enc_value brk gap fmt (JSON_ARRAY xs) = (\<lambda>n. [0x5B] @ enc_elements brk gap fmt xs n @ [0x5D])"
| "enc_value brk gap fmt (JSON_OBJECT ms) = (\<lambda>n. [0x7B] @ enc_members brk gap fmt ms n @ [0x7D])"
| "enc_elements brk gap fmt [] = (\<lambda>n. [])"
| "enc_elements brk gap fmt (x # xs) = (\<lambda>n. brk (Suc n) @ enc_value brk gap fmt x (Suc n) @
     (if xs = [] then brk n else 0x2C # enc_elements brk gap fmt xs n))"
| "enc_members brk gap fmt [] = (\<lambda>n. [])"
| "enc_members brk gap fmt (m # ms) = (\<lambda>n. brk (Suc n) @ enc_member brk gap fmt m (Suc n) @
     (if ms = [] then brk n else 0x2C # enc_members brk gap fmt ms n))"
| "enc_member brk gap fmt (k, x) = (\<lambda>n. enc_text k @ [0x3A] @ gap @ enc_value brk gap fmt x n)"

definition line_break :: "bytes \<Rightarrow> nat \<Rightarrow> bytes" where
  "line_break space n = 0x0A # concat (replicate n space)"

definition encoding :: "bytes option \<Rightarrow> ('d \<Rightarrow> bytes) \<Rightarrow> 'd json \<Rightarrow> bytes" where
  "encoding space fmt v =
     (case space of None \<Rightarrow> enc_value (\<lambda>_. []) [] fmt v 0
      | Some sp \<Rightarrow> enc_value (line_break sp) [0x20] fmt v 0)"

section \<open>The emitters write the encoding\<close>

definition fmt_ok :: "('d \<Rightarrow> bytes) \<Rightarrow> 'd \<Rightarrow> bool" where
  "fmt_ok fmt d \<longleftrightarrow> length (fmt d) < 64 \<and> 0 \<notin> set (fmt d)"

lemma enc_number_cases:
  assumes "fmt_ok fmt d"
  shows "enc_number fmt d = (if json_number (fmt d) then fmt d else ascii ''null'')"
  using assms number_is_valid_iff [of "fmt d"] by (simp add: enc_number_def fmt_ok_def)

lemma enc_text_enc:
  assumes "\<forall>u \<in> set us. scalar u \<and> u \<noteq> 0"
  shows "enc_text (concat (List.map utf8_enc us)) = enc_string False us"
  using json_encode_string_enc [OF assms] by (simp add: enc_text_def)

lemma writes_number:
  assumes "fmt_ok fmt d"
  shows "sb_sink.writes (\<lambda>out. emit_number fmt out d) (enc_number fmt d)"
proof -
  have "number_is_valid (cstr (fmt d)) = Inr (json_number (fmt d))"
    using assms number_is_valid_iff by (simp add: fmt_ok_def)
  then have "(\<lambda>out. emit_number fmt out d) =
      (\<lambda>out. sb_puts out (enc_number fmt d))"
    using assms by (auto simp: emit_number_def enc_number_def fmt_ok_def cstr_def)
  then show ?thesis using sb_writes_puts by simp
qed

lemma writes_text: "valid_text str \<Longrightarrow> sb_sink.writes (\<lambda>out. emit_string out str) (enc_text str)"
  using emit_string_with_enc enc_text_enc by (auto simp: valid_text_iff emit_string_def)

lemma writes_cong: "sb_sink.writes w xs \<Longrightarrow> xs = ys \<Longrightarrow> sb_sink.writes w ys"
  by simp

text \<open>Sequences of writers: the shapes of the loops.\<close>

lemma writes_seq3:
  assumes "sb_sink.writes a xs" "sb_sink.writes b ys" "sb_sink.writes c zs"
  shows "sb_sink.writes (\<lambda>s. bind_res (a s) (\<lambda>s1. bind_res (b s1) c)) (xs @ ys @ zs)"
  using assms by (intro sb_sink.writes_seq)

lemma writes_comma:
  "sb_sink.writes (\<lambda>o1. if xs \<noteq> [] then sb_putc o1 0x2C else Inr o1) (if xs \<noteq> [] then [0x2C] else [])"
  using sb_writes_putc sb_sink.writes_skip by (cases "xs = []") simp_all

lemma writes_elements:
  assumes "\<And>x n. x \<in> set xs \<Longrightarrow> sb_sink.writes (emit_value fmt x) (enc_value (\<lambda>_. []) [] fmt x n)"
  shows "sb_sink.writes (emit_elements fmt xs) (enc_elements (\<lambda>_. []) [] fmt xs n)"
  using assms
proof (induction xs)
  case Nil
  then show ?case using sb_sink.writes_skip by simp
next
  case (Cons x xs)
  have "sb_sink.writes (emit_value fmt x) (enc_value (\<lambda>_. []) [] fmt x (Suc n))"
    "sb_sink.writes (emit_elements fmt xs) (enc_elements (\<lambda>_. []) [] fmt xs n)"
    using Cons by simp_all
  from writes_seq3 [OF this(1) writes_comma [of xs] this(2)] show ?case
    unfolding emit_elements.simps enc_elements.simps by (rule writes_cong) auto
qed

lemma writes_members:
  assumes "\<And>k x n. (k, x) \<in> set ms \<Longrightarrow>
    valid_text k \<and> sb_sink.writes (emit_value fmt x) (enc_value (\<lambda>_. []) [] fmt x n)"
  shows "sb_sink.writes (emit_members fmt ms) (enc_members (\<lambda>_. []) [] fmt ms n)"
  using assms
proof (induction ms)
  case Nil
  then show ?case using sb_sink.writes_skip by simp
next
  case (Cons m ms)
  obtain k x where m: "m = (k, x)" by (cases m)
  have w: "valid_text k" "sb_sink.writes (emit_value fmt x) (enc_value (\<lambda>_. []) [] fmt x (Suc n))"
    using Cons.prems [of k x] m by auto
  have ws: "sb_sink.writes (emit_members fmt ms) (enc_members (\<lambda>_. []) [] fmt ms n)"
    by (rule Cons.IH) (use Cons.prems in auto)
  have "sb_sink.writes (emit_member fmt m) (enc_member (\<lambda>_. []) [] fmt m (Suc n))"
    using writes_seq3 [OF writes_text [OF w(1)] sb_writes_putc [of "0x3A"] w(2)] m by simp
  from writes_seq3 [OF this writes_comma [of ms] ws] show ?case
    unfolding emit_members.simps enc_members.simps by (rule writes_cong) auto
qed

lemma writes_value:
  "json_all valid_text (fmt_ok fmt) v \<Longrightarrow>
   sb_sink.writes (emit_value fmt v) (enc_value (\<lambda>_. []) [] fmt v n)"
proof (induction v arbitrary: n)
  case (JSON_ARRAY xs)
  then have "sb_sink.writes (emit_elements fmt xs) (enc_elements (\<lambda>_. []) [] fmt xs n)"
    by (intro writes_elements) auto
  from writes_seq3 [OF sb_writes_putc [of "0x5B"] this sb_writes_putc [of "0x5D"]] show ?case
    by (simp add: emit_array_def)
next
  case (JSON_OBJECT ms)
  then have "sb_sink.writes (emit_members fmt ms) (enc_members (\<lambda>_. []) [] fmt ms n)"
    by (intro writes_members) fastforce
  from writes_seq3 [OF sb_writes_putc [of "0x7B"] this sb_writes_putc [of "0x7D"]] show ?case
    by (simp add: emit_object_def)
qed (auto simp: sb_writes_puts writes_text writes_number)

lemma writes_indent: "sb_sink.writes (\<lambda>out. emit_indent n out space) (concat (replicate n space))"
proof (induction n)
  case 0
  then show ?case using sb_sink.writes_skip by simp
next
  case (Suc n)
  from sb_sink.writes_seq [OF sb_writes_puts this] show ?case by simp
qed

text \<open>In the indented layout every item is followed by its line end, and preceded by the indent.\<close>

lemma writes_elements_indented:
  assumes "\<And>x n. x \<in> set xs \<Longrightarrow>
    sb_sink.writes (emit_value_indented fmt sp x n) (enc_value (line_break sp) [0x20] fmt x n)"
    and "xs \<noteq> []"
  shows "sb_sink.writes
    (\<lambda>out. bind_res (sb_puts out [c, 0x0A]) (\<lambda>o1. bind_res (emit_elements_indented fmt sp xs n o1)
      (\<lambda>o2. emit_indent n o2 sp)))
    (c # enc_elements (line_break sp) [0x20] fmt xs n)"
  using assms
proof (induction xs arbitrary: c)
  case (Cons x xs)
  have v: "sb_sink.writes (emit_value_indented fmt sp x (Suc n))
      (enc_value (line_break sp) [0x20] fmt x (Suc n))"
    using Cons.prems by simp
  have head: "sb_sink.writes (\<lambda>out. bind_res (sb_puts out [c, 0x0A]) (\<lambda>o1.
      bind_res (emit_indent (Suc n) o1 sp) (\<lambda>o2. emit_value_indented fmt sp x (Suc n) o2)))
      (c # line_break sp (Suc n) @ enc_value (line_break sp) [0x20] fmt x (Suc n))"
    using writes_seq3 [OF sb_writes_puts [of "[c, 0x0A]"] writes_indent [of "Suc n" sp] v]
    by (simp add: line_break_def [of sp "Suc n"])
  show ?case
  proof (cases "xs = []")
    case True
    from sb_sink.writes_seq [OF head sb_sink.writes_seq [OF sb_writes_puts [of "[0x0A]"] writes_indent [of n sp]]]
    show ?thesis using True by (simp add: bind_res_assoc line_break_def [of sp n])
  next
    case False
    have "sb_sink.writes (\<lambda>out. bind_res (sb_puts out [0x2C, 0x0A]) (\<lambda>o1.
        bind_res (emit_elements_indented fmt sp xs n o1) (\<lambda>o2. emit_indent n o2 sp)))
        (0x2C # enc_elements (line_break sp) [0x20] fmt xs n)"
      using Cons.prems False by (intro Cons.IH) auto
    from sb_sink.writes_seq [OF head this] show ?thesis
      using False by (simp add: bind_res_assoc)
  qed
qed simp

lemma writes_members_indented:
  assumes "\<And>k x n. (k, x) \<in> set ms \<Longrightarrow> valid_text k \<and>
    sb_sink.writes (emit_value_indented fmt sp x n) (enc_value (line_break sp) [0x20] fmt x n)"
    and "ms \<noteq> []"
  shows "sb_sink.writes
    (\<lambda>out. bind_res (sb_puts out [c, 0x0A]) (\<lambda>o1. bind_res (emit_members_indented fmt sp ms n o1)
      (\<lambda>o2. emit_indent n o2 sp)))
    (c # enc_members (line_break sp) [0x20] fmt ms n)"
  using assms
proof (induction ms arbitrary: c)
  case (Cons m ms)
  obtain k x where m: "m = (k, x)" by (cases m)
  have v: "valid_text k" "sb_sink.writes (emit_value_indented fmt sp x (Suc n))
      (enc_value (line_break sp) [0x20] fmt x (Suc n))"
    using Cons.prems(1) [of k x] m by auto
  have mem: "sb_sink.writes (emit_member_indented fmt sp m n)
      (enc_member (line_break sp) [0x20] fmt m (Suc n))"
    using writes_seq3 [OF writes_text [OF v(1)] sb_writes_puts [of "[0x3A, 0x20]"] v(2)] m by simp
  have head: "sb_sink.writes (\<lambda>out. bind_res (sb_puts out [c, 0x0A]) (\<lambda>o1.
      bind_res (emit_indent (Suc n) o1 sp) (\<lambda>o2. emit_member_indented fmt sp m n o2)))
      (c # line_break sp (Suc n) @ enc_member (line_break sp) [0x20] fmt m (Suc n))"
    using writes_seq3 [OF sb_writes_puts [of "[c, 0x0A]"] writes_indent [of "Suc n" sp] mem]
    by (simp add: line_break_def [of sp "Suc n"])
  show ?case
  proof (cases "ms = []")
    case True
    from sb_sink.writes_seq [OF head sb_sink.writes_seq [OF sb_writes_puts [of "[0x0A]"] writes_indent [of n sp]]]
    show ?thesis using True by (simp add: bind_res_assoc line_break_def [of sp n])
  next
    case False
    have "sb_sink.writes (\<lambda>out. bind_res (sb_puts out [0x2C, 0x0A]) (\<lambda>o1.
        bind_res (emit_members_indented fmt sp ms n o1) (\<lambda>o2. emit_indent n o2 sp)))
        (0x2C # enc_members (line_break sp) [0x20] fmt ms n)"
      using Cons.prems False by (intro Cons.IH) auto
    from sb_sink.writes_seq [OF head this] show ?thesis
      using False by (simp add: bind_res_assoc)
  qed
qed simp

lemma writes_value_indented:
  "json_all valid_text (fmt_ok fmt) v \<Longrightarrow>
   sb_sink.writes (emit_value_indented fmt sp v n) (enc_value (line_break sp) [0x20] fmt v n)"
proof (induction v arbitrary: n)
  case (JSON_ARRAY xs)
  show ?case
  proof (cases "xs = []")
    case True
    then show ?thesis using sb_writes_puts by (simp add: emit_array_indented_def)
  next
    case False
    have "sb_sink.writes (\<lambda>out. bind_res (sb_puts out [0x5B, 0x0A]) (\<lambda>o1.
        bind_res (emit_elements_indented fmt sp xs n o1) (\<lambda>o2. emit_indent n o2 sp)))
        (0x5B # enc_elements (line_break sp) [0x20] fmt xs n)"
      using JSON_ARRAY False by (intro writes_elements_indented) auto
    from sb_sink.writes_seq [OF this sb_writes_putc [of "0x5D"]] False show ?thesis
      by (simp add: emit_array_indented_def bind_res_assoc)
  qed
next
  case (JSON_OBJECT ms)
  show ?case
  proof (cases "ms = []")
    case True
    then show ?thesis using sb_writes_puts by (simp add: emit_object_indented_def)
  next
    case False
    have "sb_sink.writes (\<lambda>out. bind_res (sb_puts out [0x7B, 0x0A]) (\<lambda>o1.
        bind_res (emit_members_indented fmt sp ms n o1) (\<lambda>o2. emit_indent n o2 sp)))
        (0x7B # enc_members (line_break sp) [0x20] fmt ms n)"
      using JSON_OBJECT False by (intro writes_members_indented) fastforce+
    from sb_sink.writes_seq [OF this sb_writes_putc [of "0x7D"]] False show ?thesis
      by (simp add: emit_object_indented_def bind_res_assoc)
  qed
qed (auto simp: sb_writes_puts writes_text writes_number)

section \<open>Parsing the encoding\<close>

text \<open>White space, and the bytes that may follow a value.\<close>

definition blanks :: "bytes \<Rightarrow> bool" where
  "blanks w \<longleftrightarrow> (\<forall>c \<in> set w. is_space c)"

definition value_stop :: "u8 \<Rightarrow> bool" where
  "value_stop c \<longleftrightarrow> c = 0 \<or> c = 0x2C \<or> c = 0x5D \<or> c = 0x7D \<or> is_space c"

definition value_head :: "u8 \<Rightarrow> bool" where
  "value_head c \<longleftrightarrow> \<not> is_space c \<and> c \<noteq> 0x5D \<and> c \<noteq> 0x7D \<and> c \<noteq> 0"

text \<open>
  What is documented of \<^verbatim>\<open>strtod\<close>: it converts the longest prefix that has the form of a
  number, so a number of the grammar that ends there gives the number's value.
\<close>

definition strtod_reads :: "(cursor \<Rightarrow> 'd) \<Rightarrow> (bytes \<Rightarrow> 'd) \<Rightarrow> bool" where
  "strtod_reads strtod value \<longleftrightarrow>
     (\<forall>n c r. json_number n \<longrightarrow> value_stop c \<longrightarrow> strtod (n @ c # r) = value n)"

text \<open>
  What comes back from a tree: its numbers as printed and read again, and \<^verbatim>\<open>null\<close> for those
  that have no JSON form (infinities and NaNs).
\<close>

fun reread :: "(bytes \<Rightarrow> 'e) \<Rightarrow> ('d \<Rightarrow> bytes) \<Rightarrow> 'd json \<Rightarrow> 'e json" where
  "reread value fmt JSON_NULL = JSON_NULL"
| "reread value fmt (JSON_BOOL b) = JSON_BOOL b"
| "reread value fmt (JSON_STRING s) = JSON_STRING s"
| "reread value fmt (JSON_NUMBER d) =
     (if number_is_valid (cstr (fmt d)) = Inr True then JSON_NUMBER (value (fmt d)) else JSON_NULL)"
| "reread value fmt (JSON_ARRAY xs) = JSON_ARRAY (List.map (reread value fmt) xs)"
| "reread value fmt (JSON_OBJECT ms) =
     JSON_OBJECT (List.map (\<lambda>(k, x). (k, reread value fmt x)) ms)"

text \<open>No text of the tree holds the character U+001F, which the emitter writes unescaped.\<close>

definition no_us :: "bytes \<Rightarrow> bool" where
  "no_us s \<longleftrightarrow> 0x1F \<notin> set s"

abbreviation us_free :: "'d json \<Rightarrow> bool" where
  "us_free \<equiv> json_all no_us (\<lambda>_. True)"

lemma value_stop_num: "value_stop c \<Longrightarrow> num_stop c"
  by (auto simp: value_stop_def num_stop_def is_space_def is_digit_def)

lemma value_stops [simp]: "value_stop 0" "value_stop 0x2C" "value_stop 0x5D" "value_stop 0x7D"
  by (simp_all add: value_stop_def)

lemma not_spaces [simp]: "\<not> is_space 0" "\<not> is_space 0x2C" "\<not> is_space 0x5D" "\<not> is_space 0x7D"
  "\<not> is_space 0x22" "\<not> is_space 0x3A"
  by (simp_all add: is_space_def)

text \<open>Blanks before a byte that may follow a value keep the boundary.\<close>

lemma blanks_stop:
  assumes "blanks w" and "value_stop c"
  shows "\<exists>d r'. w @ c # r = d # r' \<and> value_stop d"
  using assms by (cases w) (auto simp: blanks_def value_stop_def)

lemma skip_blanks: "blanks w \<Longrightarrow> \<not> is_space c \<Longrightarrow> skip_space (w @ c # r) = Inr (c # r)"
  by (simp add: blanks_def skip_space_prefix skip_space_stop)

lemma value_heads [simp]: "value_head 0x6E" "value_head 0x74" "value_head 0x66" "value_head 0x22"
  "value_head 0x5B" "value_head 0x7B" "value_head 0x2D"
  by (simp_all add: value_head_def is_space_def)

lemma value_head_digit: "is_digit c \<Longrightarrow> value_head c"
  by (auto simp: value_head_def is_space_def is_digit_def)

lemma json_number_head:
  assumes "json_number n"
  obtains c n' where "n = c # n'" "c = 0x2D \<or> is_digit c"
proof -
  from assms obtain sg ip r where n: "n = sg @ ip @ r" "sg = [] \<or> sg = [0x2D]" "int_part ip"
    by (auto simp: json_number_def)
  obtain c ip' where "ip = c # ip'" "is_digit c"
    using n(3) by (cases ip) (auto simp: int_part_def some_digits_def)
  with n that show thesis by auto
qed

lemma enc_text_head: "valid_text s \<Longrightarrow> \<exists>t. enc_text s = 0x22 # t"
  by (auto simp: valid_text_iff enc_text_enc enc_string_def)

lemma enc_value_head:
  assumes "json_all valid_text (fmt_ok fmt) v"
  obtains c t where "enc_value brk gap fmt v n = c # t" "value_head c"
proof (cases v)
  case (JSON_STRING s)
  with assms enc_text_head that show thesis by fastforce
next
  case (JSON_BOOL b)
  then show thesis using that by (cases b) auto
next
  case (JSON_NUMBER d)
  then have "fmt_ok fmt d" using assms by simp
  then show thesis
    using that JSON_NUMBER value_head_digit
    by (cases "json_number (fmt d)") (auto simp: enc_number_cases elim!: json_number_head)
qed (use that in \<open>auto split: if_splits\<close>)

lemma enc_value_starts:
  "json_all valid_text (fmt_ok fmt) v \<Longrightarrow> \<exists>h t. enc_value brk gap fmt v n = h # t \<and> value_head h"
  by (rule enc_value_head) blast+

lemma parse_enc_text:
  assumes "valid_text s"
  shows "parse_string out (enc_text s @ r) = (if no_us s then Inr (if_out out s, r) else Inl Rejected)"
proof -
  obtain us where us: "s = concat (List.map utf8_enc us)" "\<forall>u \<in> set us. scalar u \<and> u \<noteq> 0"
    using assms by (auto simp: valid_text_iff)
  have "0x1F \<in> set s \<longleftrightarrow> 0x1F \<in> set us"
    using unit_separator_in_encs us by simp
  with parse_enc_string [OF us(2), of out False r] enc_text_enc [OF us(2)] us(1) show ?thesis
    by (simp add: no_us_def if_out_def)
qed

lemma parse_enc_number:
  assumes "fmt_ok fmt d" and "value_stop c" and "strtod_reads strtod value"
  shows "parse_value strtod out (enc_number fmt d @ c # r) =
    Inr (if_out out (reread value fmt (JSON_NUMBER d)), c # r)"
proof (cases "json_number (fmt d)")
  case True
  obtain h t where h: "fmt d = h # t" "h = 0x2D \<or> is_digit h" using json_number_head [OF True] by blast
  have v: "number_is_valid (cstr (fmt d)) = Inr True"
    using number_is_valid_iff [of "fmt d"] assms(1) True by (simp add: fmt_ok_def)
  have "parse_value strtod out (fmt d @ c # r) =
    bind_res (parse_number strtod out (fmt d @ c # r)) (\<lambda>(num, s1). Inr (map_option JSON_NUMBER num, s1))"
    using h by (subst parse_value.simps) (auto simp: is_digit_def)
  also have "\<dots> = Inr (if_out out (JSON_NUMBER (value (fmt d))), c # r)"
    using parse_number_complete [OF True value_stop_num [OF assms(2)], of strtod out r] assms(2,3) True
    by (auto simp: strtod_reads_def if_out_def)
  finally show ?thesis using True assms(1) v by (simp add: enc_number_cases)
next
  case False
  then have "number_is_valid (cstr (fmt d)) = Inr False"
    using number_is_valid_iff [of "fmt d"] assms(1) by (simp add: fmt_ok_def)
  with False assms(1) show ?thesis
    by (subst parse_value.simps) (simp add: enc_number_cases)
qed

text \<open>The items of an array, each followed by a comma or the closing bracket.\<close>

lemma append_opt_out: "append_opt ret (if_out out x) = ret @ (if out then [x] else [])"
  by (simp add: append_opt_def if_out_def)

lemma append_member_opt_out:
  "append_member_opt ret (if_out out k) (if_out out x) = ret @ (if out then [(k, x)] else [])"
  by (simp add: append_member_opt_def if_out_def)

lemma parse_elements_enc:
  assumes "\<And>n. blanks (brk n)"
    and "\<And>x n c r. x \<in> set xs \<Longrightarrow> value_stop c \<Longrightarrow>
      parse_value strtod out (enc_value brk gap fmt x n @ c # r) =
      (if us_free x then Inr (if_out out (reread value fmt x), c # r) else Inl Rejected)"
    and "\<And>x n. x \<in> set xs \<Longrightarrow> \<exists>h t. enc_value brk gap fmt x n = h # t \<and> value_head h"
    and "xs \<noteq> []"
  shows "\<exists>h t. skip_space (enc_elements brk gap fmt xs n @ 0x5D # r) = Inr (h # t) \<and> value_head h \<and>
    parse_elements strtod out ret (h # t) =
      (if \<forall>x \<in> set xs. us_free x
       then Inr (ret @ (if out then List.map (reread value fmt) xs else []), r) else Inl Rejected)"
  using assms(2-4)
proof (induction xs arbitrary: ret)
  case (Cons x xs)
  define tail where "tail = (if xs = [] then brk n else 0x2C # enc_elements brk gap fmt xs n) @ 0x5D # r"
  obtain h t where h: "enc_value brk gap fmt x (Suc n) = h # t" "value_head h"
    using Cons.prems(2) [of x "Suc n"] by auto
  have start: "skip_space (enc_elements brk gap fmt (x # xs) n @ 0x5D # r) = Inr (h # t @ tail)"
    using skip_blanks [OF assms(1) [of "Suc n"], of h "t @ tail"] h by (simp add: tail_def value_head_def)
  obtain d r' where d: "tail = d # r'" "value_stop d"
    using blanks_stop [OF assms(1) [of n], of "0x5D" r] by (cases "xs = []") (force simp: tail_def)+
  have v: "parse_value strtod out (h # t @ tail) =
      (if us_free x then Inr (if_out out (reread value fmt x), tail) else Inl Rejected)"
    using Cons.prems(1) [of x d "Suc n" r'] d h by simp
  let ?ret = "ret @ (if out then [reread value fmt x] else [])"
  have "parse_elements strtod out ret (h # t @ tail) =
      (if \<forall>x \<in> set (x # xs). us_free x
       then Inr (ret @ (if out then List.map (reread value fmt) (x # xs) else []), r) else Inl Rejected)"
  proof (cases "us_free x")
    case False
    with v show ?thesis by (subst parse_elements.simps) simp
  next
    case True
    show ?thesis
    proof (cases "xs = []")
      case nil: True
      then have "skip_space tail = Inr (0x5D # r)"
        using skip_blanks [OF assms(1) [of n]] by (simp add: tail_def)
      with v True nil show ?thesis by (subst parse_elements.simps) (simp add: append_opt_out)
    next
      case False
      obtain h' t' where IH: "skip_space (enc_elements brk gap fmt xs n @ 0x5D # r) = Inr (h' # t')"
        "parse_elements strtod out ?ret (h' # t') =
          (if \<forall>x \<in> set xs. us_free x
           then Inr (?ret @ (if out then List.map (reread value fmt) xs else []), r) else Inl Rejected)"
        using Cons.IH [of ?ret] Cons.prems False by (metis list.set_intros(2))
      have "skip_space tail = Inr (0x2C # enc_elements brk gap fmt xs n @ 0x5D # r)"
        using False by (simp add: tail_def)
      with v True IH show ?thesis by (subst parse_elements.simps) (simp add: append_opt_out)
    qed
  qed
  with start h show ?case by auto
qed simp

lemma parse_members_enc:
  assumes "\<And>n. blanks (brk n)" "blanks gap"
    and "\<And>k x n c r. (k, x) \<in> set ms \<Longrightarrow> value_stop c \<Longrightarrow>
      parse_value strtod out (enc_value brk gap fmt x n @ c # r) =
      (if us_free x then Inr (if_out out (reread value fmt x), c # r) else Inl Rejected)"
    and "\<And>k x n. (k, x) \<in> set ms \<Longrightarrow>
      valid_text k \<and> (\<exists>h t. enc_value brk gap fmt x n = h # t \<and> value_head h)"
    and "ms \<noteq> []"
  shows "\<exists>t. skip_space (enc_members brk gap fmt ms n @ 0x7D # r) = Inr (0x22 # t) \<and>
    parse_members strtod out ret (0x22 # t) =
      (if \<forall>(k, x) \<in> set ms. no_us k \<and> us_free x
       then Inr (ret @ (if out then List.map (\<lambda>(k, x). (k, reread value fmt x)) ms else []), r)
       else Inl Rejected)"
  using assms(3-5)
proof (induction ms arbitrary: ret)
  case (Cons m ms)
  obtain k x where m: "m = (k, x)" by (cases m)
  define tail where "tail = (if ms = [] then brk n else 0x2C # enc_members brk gap fmt ms n) @ 0x7D # r"
  obtain h t where h: "enc_value brk gap fmt x (Suc n) = h # t" "value_head h" and k: "valid_text k"
    using Cons.prems(2) [of k x "Suc n"] m by auto
  obtain t0 where t0: "enc_text k = 0x22 # t0" using enc_text_head [OF k] by blast
  define rest where "rest = 0x3A # gap @ h # t @ tail"
  have start: "skip_space (enc_members brk gap fmt (m # ms) n @ 0x7D # r) = Inr (0x22 # t0 @ rest)"
    using skip_blanks [OF assms(1) [of "Suc n"], of "0x22" "t0 @ rest"] h m t0
    by (simp add: tail_def rest_def)
  obtain d r' where d: "tail = d # r'" "value_stop d"
    using blanks_stop [OF assms(1) [of n], of "0x7D" r] by (cases "ms = []") (force simp: tail_def)+
  have key: "parse_string out (0x22 # t0 @ rest) = (if no_us k then Inr (if_out out k, rest) else Inl Rejected)"
    using parse_enc_text [OF k, of out rest] t0 by simp
  have v: "parse_value strtod out (h # t @ tail) =
      (if us_free x then Inr (if_out out (reread value fmt x), tail) else Inl Rejected)"
    using Cons.prems(1) [of k x d "Suc n" r'] d h m by simp
  have gap: "skip_space (gap @ h # t @ tail) = Inr (h # t @ tail)"
    using skip_blanks [OF assms(2)] h by (simp add: value_head_def)
  let ?ret = "ret @ (if out then [(k, reread value fmt x)] else [])"
  have "parse_members strtod out ret (0x22 # t0 @ rest) =
      (if \<forall>(k, x) \<in> set (m # ms). no_us k \<and> us_free x
       then Inr (ret @ (if out then List.map (\<lambda>(k, x). (k, reread value fmt x)) (m # ms) else []), r)
       else Inl Rejected)"
  proof (cases "no_us k \<and> us_free x")
    case False
    with key v gap m show ?thesis by (subst parse_members.simps) (auto simp: rest_def)
  next
    case True
    show ?thesis
    proof (cases "ms = []")
      case nil: True
      then have "skip_space tail = Inr (0x7D # r)"
        using skip_blanks [OF assms(1) [of n]] by (simp add: tail_def)
      with key v gap True nil m show ?thesis
        by (subst parse_members.simps) (simp add: append_member_opt_out rest_def)
    next
      case False
      have "\<exists>t'. skip_space (enc_members brk gap fmt ms n @ 0x7D # r) = Inr (0x22 # t') \<and>
        parse_members strtod out ?ret (0x22 # t') =
          (if \<forall>(k, x) \<in> set ms. no_us k \<and> us_free x
           then Inr (?ret @ (if out then List.map (\<lambda>(k, x). (k, reread value fmt x)) ms else []), r)
           else Inl Rejected)"
      proof (rule Cons.IH, goal_cases)
        case (1 k x c n r)
        then show ?case using Cons.prems(1) [of k x c n r] by simp
      next
        case (2 k x n)
        then show ?case using Cons.prems(2) [of k x n] by simp
      next
        case 3
        show ?case by (rule False)
      qed
      then obtain t' where IH: "skip_space (enc_members brk gap fmt ms n @ 0x7D # r) = Inr (0x22 # t')"
        "parse_members strtod out ?ret (0x22 # t') =
          (if \<forall>(k, x) \<in> set ms. no_us k \<and> us_free x
           then Inr (?ret @ (if out then List.map (\<lambda>(k, x). (k, reread value fmt x)) ms else []), r)
           else Inl Rejected)"
        by blast
      have "skip_space tail = Inr (0x2C # enc_members brk gap fmt ms n @ 0x7D # r)"
        using False by (simp add: tail_def)
      with key v gap True IH m show ?thesis
        by (subst parse_members.simps) (simp add: append_member_opt_out rest_def)
    qed
  qed
  with start show ?case by auto
qed simp

lemma parse_value_enc:
  assumes "\<And>n. blanks (brk n)" "blanks gap" "strtod_reads strtod value"
  shows "json_all valid_text (fmt_ok fmt) v \<Longrightarrow> value_stop c \<Longrightarrow>
    parse_value strtod out (enc_value brk gap fmt v n @ c # r) =
    (if us_free v then Inr (if_out out (reread value fmt v), c # r) else Inl Rejected)"
proof (induction v arbitrary: n c r)
  case JSON_NULL
  then show ?case by (subst parse_value.simps) simp
next
  case (JSON_BOOL b)
  then show ?case by (subst parse_value.simps) (cases b; simp)
next
  case (JSON_STRING s)
  then obtain t where t: "enc_text s = 0x22 # t" using enc_text_head by auto
  with JSON_STRING parse_enc_text [of s out "c # r"] show ?case
    by (subst parse_value.simps) (auto simp: if_out_def)
next
  case (JSON_NUMBER d)
  then show ?case using parse_enc_number [OF _ _ assms(3), of fmt d c out r] by simp
next
  case (JSON_ARRAY xs)
  have h: "\<exists>h t. enc_value brk gap fmt x n = h # t \<and> value_head h" if "x \<in> set xs" for x n
    by (rule enc_value_starts) (use JSON_ARRAY.prems(1) that in simp)
  have "parse_array strtod out (0x5B # enc_elements brk gap fmt xs n @ 0x5D # c # r) =
    (if us_free (JSON_ARRAY xs) then Inr (if_out out (reread value fmt (JSON_ARRAY xs)), c # r)
     else Inl Rejected)"
  proof (cases "xs = []")
    case True
    then show ?thesis by (subst parse_array.simps) simp
  next
    case False
    have IH: "parse_value strtod out (enc_value brk gap fmt x n @ c # r) =
      (if us_free x then Inr (if_out out (reread value fmt x), c # r) else Inl Rejected)"
      if "x \<in> set xs" "value_stop c" for x n c r
      by (rule JSON_ARRAY.IH) (use JSON_ARRAY.prems(1) that in simp_all)
    obtain h t where "skip_space (enc_elements brk gap fmt xs n @ 0x5D # c # r) = Inr (h # t)"
      "value_head h" "parse_elements strtod out [] (h # t) = (if \<forall>x \<in> set xs. us_free x
       then Inr ([] @ (if out then List.map (reread value fmt) xs else []), c # r) else Inl Rejected)"
      using parse_elements_enc [OF assms(1) IH h False] by blast
    then show ?thesis
      by (subst parse_array.simps) (auto simp: value_head_def if_out_def)
  qed
  then show ?case by (subst parse_value.simps) simp
next
  case (JSON_OBJECT ms)
  have h: "valid_text k \<and> (\<exists>h t. enc_value brk gap fmt x n = h # t \<and> value_head h)"
    if "(k, x) \<in> set ms" for k x n
    using enc_value_starts [of fmt x brk gap n] JSON_OBJECT.prems(1) that by auto
  have "parse_object strtod out (0x7B # enc_members brk gap fmt ms n @ 0x7D # c # r) =
    (if us_free (JSON_OBJECT ms) then Inr (if_out out (reread value fmt (JSON_OBJECT ms)), c # r)
     else Inl Rejected)"
  proof (cases "ms = []")
    case True
    then show ?thesis by (subst parse_object.simps) simp
  next
    case False
    have IH: "parse_value strtod out (enc_value brk gap fmt x n @ c # r) =
      (if us_free x then Inr (if_out out (reread value fmt x), c # r) else Inl Rejected)"
      if "(k, x) \<in> set ms" "value_stop c" for k x n c r
      by (rule JSON_OBJECT.IH [of "(k, x)"]) (use JSON_OBJECT.prems(1) that in auto)
    have "\<exists>t. skip_space (enc_members brk gap fmt ms n @ 0x7D # c # r) = Inr (0x22 # t) \<and>
      parse_members strtod out [] (0x22 # t) = (if \<forall>(k, x) \<in> set ms. no_us k \<and> us_free x
       then Inr ([] @ (if out then List.map (\<lambda>(k, x). (k, reread value fmt x)) ms else []), c # r)
       else Inl Rejected)"
      by (rule parse_members_enc [OF assms(1,2) IH h False])
    then obtain t where t: "skip_space (enc_members brk gap fmt ms n @ 0x7D # c # r) = Inr (0x22 # t)"
      "parse_members strtod out [] (0x22 # t) = (if us_free (JSON_OBJECT ms)
       then Inr (if out then List.map (\<lambda>(k, x). (k, reread value fmt x)) ms else [], c # r)
       else Inl Rejected)"
      by auto
    show ?thesis
      by (subst parse_object.simps, cases "us_free (JSON_OBJECT ms)")
        (simp_all add: t if_out_def del: json_all.simps)
  qed
  then show ?case by (subst parse_value.simps) simp
qed

section \<open>The entry points\<close>

lemma enc_number_nonzero: "fmt_ok fmt d \<Longrightarrow> 0 \<notin> set (enc_number fmt d)"
  by (auto simp: enc_number_cases fmt_ok_def)

lemma enc_text_nonzero: "valid_text s \<Longrightarrow> 0 \<notin> set (enc_text s)"
  using enc_string_nonzero by (auto simp: valid_text_iff enc_text_enc)

lemma enc_value_nonzero:
  assumes "\<And>n. 0 \<notin> set (brk n)" "0 \<notin> set gap"
  shows "json_all valid_text (fmt_ok fmt) v \<Longrightarrow> 0 \<notin> set (enc_value brk gap fmt v n)"
proof (induction v arbitrary: n)
  case (JSON_ARRAY xs)
  have "0 \<notin> set (enc_elements brk gap fmt xs n)"
    if "\<And>x n. x \<in> set xs \<Longrightarrow> 0 \<notin> set (enc_value brk gap fmt x n)" for xs
    using that assms by (induction xs) auto
  then show ?case using JSON_ARRAY by auto
next
  case (JSON_OBJECT ms)
  have "0 \<notin> set (enc_members brk gap fmt ms n)"
    if "\<And>k x n. (k, x) \<in> set ms \<Longrightarrow> 0 \<notin> set (enc_text k) \<and> 0 \<notin> set (enc_value brk gap fmt x n)"
    for ms
    using that assms
  proof (induction ms)
    case (Cons m ms)
    obtain k x where m: "m = (k, x)" by (cases m)
    have "0 \<notin> set (enc_members brk gap fmt ms n)"
      by (rule Cons.IH) (use Cons.prems in auto)
    with Cons.prems(1) [of k x "Suc n"] m assms show ?case by auto
  qed simp
  moreover have "0 \<notin> set (enc_text k) \<and> 0 \<notin> set (enc_value brk gap fmt x n)" if "(k, x) \<in> set ms" for k x n
    using JSON_OBJECT.IH [of "(k, x)" x n] JSON_OBJECT.prems that enc_text_nonzero [of k] by fastforce
  ultimately have "0 \<notin> set (enc_members brk gap fmt ms n)" by blast
  then show ?case by simp
qed (auto simp: enc_number_nonzero enc_text_nonzero)

lemma json_stringify_encoding:
  assumes "json_all valid_text (fmt_ok fmt) v" and "\<forall>sp. space = Some sp \<longrightarrow> 0 \<notin> set sp"
  shows "json_stringify fmt v space = Inr (encoding space fmt v)"
proof -
  define emit where "emit = (case space of Some sp \<Rightarrow> emit_value_indented fmt sp v 0 | None \<Rightarrow> emit_value fmt v)"
  have "sb_sink.writes emit (encoding space fmt v)"
    using writes_value [OF assms(1)] writes_value_indented [OF assms(1)]
    by (cases space) (simp_all add: emit_def encoding_def)
  then obtain sb where "emit sb_init = Inr sb" "sb_inv sb" "sb_data sb = encoding space fmt v"
    using sb_sink.writesD sb_inv_init by (fastforce simp: sb_init_def)
  moreover have "0 \<notin> set (encoding space fmt v)"
    using assms(2) enc_value_nonzero [OF _ _ assms(1)]
    by (cases space) (simp_all add: encoding_def line_break_def)
  moreover have "json_stringify fmt v space = bind_res (emit sb_init) sb_finish"
    by (cases space) (simp_all add: json_stringify_def emit_def)
  ultimately show ?thesis using sb_finish_data by simp
qed

text \<open>Decoding what was printed, in either layout.\<close>

lemma json_decode_encoding:
  assumes "json_all valid_text (fmt_ok fmt) v" and "\<forall>sp. space = Some sp \<longrightarrow> blanks sp"
    and "strtod_reads strtod value"
  shows "json_decode strtod (cstr (encoding space fmt v)) =
    (if us_free v then Inr (reread value fmt v) else Inl Rejected)"
proof -
  have sp: "blanks (line_break sp n)" if "blanks sp" for sp n
    using that by (auto simp: blanks_def line_break_def is_space_def)
  have b: "blanks []" "blanks [0x20]" by (simp_all add: blanks_def is_space_def)
  have p: "parse_value strtod True (cstr (encoding space fmt v)) =
      (if us_free v then Inr (Some (reread value fmt v), [0]) else Inl Rejected)"
  proof (cases space)
    case None
    then show ?thesis
      using parse_value_enc [OF _ b(1) assms(3,1), of "\<lambda>_. []" 0 True 0 "[]"] b(1)
      by (simp add: encoding_def cstr_def if_out_def)
  next
    case (Some w)
    then show ?thesis
      using parse_value_enc [OF sp b(2) assms(3,1), where n = 0 and out = True and c = 0 and r = "[]"] assms(2)
      by (simp add: encoding_def cstr_def if_out_def)
  qed
  obtain h t where "encoding space fmt v = h # t" "value_head h"
    using enc_value_starts [OF assms(1), of "\<lambda>_. []" "[]" 0]
      enc_value_starts [OF assms(1), of "line_break (the space)" "[0x20]" 0]
    unfolding encoding_def by (cases space) auto
  then have "skip_space (cstr (encoding space fmt v)) = Inr (cstr (encoding space fmt v))"
    by (simp add: cstr_def value_head_def)
  with p show ?thesis by (simp add: json_decode_def)
qed

lemma reread_id:
  "json_all (\<lambda>_. True) (\<lambda>d. json_number (fmt d) \<and> 0 \<notin> set (fmt d) \<and> value (fmt d) = d) v \<Longrightarrow>
   reread value fmt v = v"
proof (induction v)
  case (JSON_OBJECT ms)
  have "(k, reread value fmt x) = (k, x)" if "(k, x) \<in> set ms" for k x
    using JSON_OBJECT.IH [of "(k, x)" x] JSON_OBJECT.prems that by fastforce
  then show ?case by (auto simp: case_prod_beta' intro!: map_idI)
qed (auto simp: number_is_valid_iff intro!: map_idI)

end
