(* ===== verification/Json_Heap.thy ===== *)
theory Json_Heap
  imports Json_Parse
begin

text \<open>
  The linked trees of \<^verbatim>\<open>src/src/json.c\<close>: \<^verbatim>\<open>JsonNode\<close> records in a heap, with their parent
  and sibling pointers.  An address is a natural number and 0 is \<^verbatim>\<open>NULL\<close>.  Every access
  goes through the heap: using a null pointer, a freed node or the wrong member of the union is
  \<open>Out_Of_Bounds\<close>.  Allocation takes the next unused address and an address is never used
  again, so a use after \<^verbatim>\<open>free\<close> cannot be hidden by a later allocation.  Strings have one owner
  (the node that holds them) and are values; numbers have the type \<open>'d\<close>.
\<close>

section \<open>Nodes and the heap\<close>

type_synonym addr = nat

text \<open>The union of \<^verbatim>\<open>JsonNode\<close>; \<open>Zeroed\<close> is the memory \<^verbatim>\<open>calloc\<close> returns.\<close>

datatype 'd payload = Zeroed | Bool_P bool | String_P bytes | Number_P 'd | Children addr addr

record 'd node =
  n_parent :: addr
  n_prev :: addr
  n_next :: addr
  n_key :: "bytes option"
  n_tag :: u32
  n_payload :: "'d payload"

record 'd heap =
  h_nodes :: "addr \<Rightarrow> 'd node option"
  h_fresh :: addr

text \<open>The enumeration \<^verbatim>\<open>JsonTag\<close>.\<close>

abbreviation (input) TAG_NULL :: u32 where "TAG_NULL \<equiv> 0"
abbreviation (input) TAG_BOOL :: u32 where "TAG_BOOL \<equiv> 1"
abbreviation (input) TAG_STRING :: u32 where "TAG_STRING \<equiv> 2"
abbreviation (input) TAG_NUMBER :: u32 where "TAG_NUMBER \<equiv> 3"
abbreviation (input) TAG_ARRAY :: u32 where "TAG_ARRAY \<equiv> 4"
abbreviation (input) TAG_OBJECT :: u32 where "TAG_OBJECT \<equiv> 5"

definition tag_is_valid :: "u32 \<Rightarrow> bool" where
  "tag_is_valid tag \<longleftrightarrow> tag \<le> TAG_OBJECT"

definition node_at :: "'d heap \<Rightarrow> addr \<Rightarrow> err + 'd node" where
  "node_at h a = (case h_nodes h a of Some n \<Rightarrow> Inr n | None \<Rightarrow> Inl Out_Of_Bounds)"

definition put_node :: "addr \<Rightarrow> 'd node \<Rightarrow> 'd heap \<Rightarrow> 'd heap" where
  "put_node a n h = h\<lparr>h_nodes := (h_nodes h)(a \<mapsto> n)\<rparr>"

definition set_node :: "addr \<Rightarrow> ('d node \<Rightarrow> 'd node) \<Rightarrow> 'd heap \<Rightarrow> err + 'd heap" where
  "set_node a f h = bind_res (node_at h a) (\<lambda>n. Inr (put_node a (f n) h))"

definition free_node :: "addr \<Rightarrow> 'd heap \<Rightarrow> err + 'd heap" where
  "free_node a h = bind_res (node_at h a) (\<lambda>_. Inr (h\<lparr>h_nodes := (h_nodes h)(a := None)\<rparr>))"

text \<open>\<^verbatim>\<open>parent->children.head\<close> and \<^verbatim>\<open>parent->children.tail\<close>\<close>

definition children :: "'d payload \<Rightarrow> err + (addr \<times> addr)" where
  "children p = (case p of
     Zeroed \<Rightarrow> Inr (0, 0) | Children head tail \<Rightarrow> Inr (head, tail) | _ \<Rightarrow> Inl Out_Of_Bounds)"

definition children_at :: "'d heap \<Rightarrow> addr \<Rightarrow> err + (addr \<times> addr)" where
  "children_at h a = bind_res (node_at h a) (\<lambda>n. children (n_payload n))"

definition set_head :: "addr \<Rightarrow> addr \<Rightarrow> 'd heap \<Rightarrow> err + 'd heap" where
  "set_head p x h = bind_res (children_at h p) (\<lambda>(head, tail). set_node p (\<lambda>n. n\<lparr>n_payload := Children x tail\<rparr>) h)"

definition set_tail :: "addr \<Rightarrow> addr \<Rightarrow> 'd heap \<Rightarrow> err + 'd heap" where
  "set_tail p x h = bind_res (children_at h p) (\<lambda>(head, tail). set_node p (\<lambda>n. n\<lparr>n_payload := Children head x\<rparr>) h)"

section \<open>Construction\<close>

definition mknode :: "u32 \<Rightarrow> 'd heap \<Rightarrow> addr \<times> 'd heap" where
  "mknode tag h =
     (let a = h_fresh h
      in (a, put_node a \<lparr>n_parent = 0, n_prev = 0, n_next = 0, n_key = None, n_tag = tag,
           n_payload = Zeroed\<rparr> (h\<lparr>h_fresh := Suc a\<rparr>)))"

definition json_mknull :: "'d heap \<Rightarrow> addr \<times> 'd heap" where
  "json_mknull h = mknode TAG_NULL h"

definition json_mkbool :: "bool \<Rightarrow> 'd heap \<Rightarrow> err + (addr \<times> 'd heap)" where
  "json_mkbool b h = (let (ret, h1) = mknode TAG_BOOL h
     in bind_res (set_node ret (\<lambda>n. n\<lparr>n_payload := Bool_P b\<rparr>) h1) (\<lambda>h2. Inr (ret, h2)))"

definition mkstring :: "bytes \<Rightarrow> 'd heap \<Rightarrow> err + (addr \<times> 'd heap)" where
  "mkstring s h = (let (ret, h1) = mknode TAG_STRING h
     in bind_res (set_node ret (\<lambda>n. n\<lparr>n_payload := String_P s\<rparr>) h1) (\<lambda>h2. Inr (ret, h2)))"

text \<open>\<^verbatim>\<open>json_strdup\<close>: the bytes before the terminator, in a block of their own.\<close>

definition json_strdup :: "cursor \<Rightarrow> err + bytes" where
  "json_strdup str =
     (if 0 \<in> set str then Inr (takeWhile (\<lambda>c. c \<noteq> 0) str) else Inl Out_Of_Bounds)"

definition json_mkstring :: "cursor \<Rightarrow> 'd heap \<Rightarrow> err + (addr \<times> 'd heap)" where
  "json_mkstring s h = bind_res (json_strdup s) (\<lambda>str. mkstring str h)"

definition json_mknumber :: "'d \<Rightarrow> 'd heap \<Rightarrow> err + (addr \<times> 'd heap)" where
  "json_mknumber n h = (let (node, h1) = mknode TAG_NUMBER h
     in bind_res (set_node node (\<lambda>m. m\<lparr>n_payload := Number_P n\<rparr>) h1) (\<lambda>h2. Inr (node, h2)))"

definition json_mkarray :: "'d heap \<Rightarrow> addr \<times> 'd heap" where
  "json_mkarray h = mknode TAG_ARRAY h"

definition json_mkobject :: "'d heap \<Rightarrow> addr \<times> 'd heap" where
  "json_mkobject h = mknode TAG_OBJECT h"

section \<open>Linking and unlinking\<close>

definition append_node :: "addr \<Rightarrow> addr \<Rightarrow> 'd heap \<Rightarrow> err + 'd heap" where
  "append_node parent child h =
     bind_res (set_node child (\<lambda>c. c\<lparr>n_parent := parent\<rparr>) h) (\<lambda>h1.
     bind_res (children_at h1 parent) (\<lambda>(_, tail).
     bind_res (set_node child (\<lambda>c. c\<lparr>n_prev := tail\<rparr>) h1) (\<lambda>h2.
     bind_res (set_node child (\<lambda>c. c\<lparr>n_next := 0\<rparr>) h2) (\<lambda>h3.
     bind_res (if tail \<noteq> 0 then set_node tail (\<lambda>c. c\<lparr>n_next := child\<rparr>) h3
               else set_head parent child h3) (\<lambda>h4.
       set_tail parent child h4)))))"

definition prepend_node :: "addr \<Rightarrow> addr \<Rightarrow> 'd heap \<Rightarrow> err + 'd heap" where
  "prepend_node parent child h =
     bind_res (set_node child (\<lambda>c. c\<lparr>n_parent := parent\<rparr>) h) (\<lambda>h1.
     bind_res (set_node child (\<lambda>c. c\<lparr>n_prev := 0\<rparr>) h1) (\<lambda>h2.
     bind_res (children_at h2 parent) (\<lambda>(head, _).
     bind_res (set_node child (\<lambda>c. c\<lparr>n_next := head\<rparr>) h2) (\<lambda>h3.
     bind_res (if head \<noteq> 0 then set_node head (\<lambda>c. c\<lparr>n_prev := child\<rparr>) h3
               else set_tail parent child h3) (\<lambda>h4.
       set_head parent child h4)))))"

definition append_member :: "addr \<Rightarrow> bytes \<Rightarrow> addr \<Rightarrow> 'd heap \<Rightarrow> err + 'd heap" where
  "append_member object key value h =
     bind_res (set_node value (\<lambda>v. v\<lparr>n_key := Some key\<rparr>) h) (\<lambda>h1. append_node object value h1)"

text \<open>The two assertions at the head of the public operations.\<close>

definition check_link :: "u32 \<Rightarrow> addr \<Rightarrow> addr \<Rightarrow> 'd heap \<Rightarrow> err + unit" where
  "check_link tag parent child h =
     bind_res (node_at h parent) (\<lambda>p.
     bind_res (check_that (n_tag p = tag) Assertion) (\<lambda>_.
     bind_res (node_at h child) (\<lambda>c. check_that (n_parent c = 0) Assertion)))"

definition json_append_element :: "addr \<Rightarrow> addr \<Rightarrow> 'd heap \<Rightarrow> err + 'd heap" where
  "json_append_element array element h =
     bind_res (check_link TAG_ARRAY array element h) (\<lambda>_. append_node array element h)"

definition json_prepend_element :: "addr \<Rightarrow> addr \<Rightarrow> 'd heap \<Rightarrow> err + 'd heap" where
  "json_prepend_element array element h =
     bind_res (check_link TAG_ARRAY array element h) (\<lambda>_. prepend_node array element h)"

definition json_append_member :: "addr \<Rightarrow> cursor \<Rightarrow> addr \<Rightarrow> 'd heap \<Rightarrow> err + 'd heap" where
  "json_append_member object key value h =
     bind_res (check_link TAG_OBJECT object value h) (\<lambda>_.
     bind_res (json_strdup key) (\<lambda>k. append_member object k value h))"

definition json_prepend_member :: "addr \<Rightarrow> cursor \<Rightarrow> addr \<Rightarrow> 'd heap \<Rightarrow> err + 'd heap" where
  "json_prepend_member object key value h =
     bind_res (check_link TAG_OBJECT object value h) (\<lambda>_.
     bind_res (json_strdup key) (\<lambda>k.
     bind_res (set_node value (\<lambda>v. v\<lparr>n_key := Some k\<rparr>) h) (\<lambda>h1. prepend_node object value h1)))"

definition json_remove_from_parent :: "addr \<Rightarrow> 'd heap \<Rightarrow> err + 'd heap" where
  "json_remove_from_parent node h =
     bind_res (node_at h node) (\<lambda>n. let parent = n_parent n in
       if parent \<noteq> 0 then
         bind_res (if n_prev n \<noteq> 0 then set_node (n_prev n) (\<lambda>c. c\<lparr>n_next := n_next n\<rparr>) h
                   else set_head parent (n_next n) h) (\<lambda>h1.
         bind_res (node_at h1 node) (\<lambda>n1.
         bind_res (if n_next n1 \<noteq> 0 then set_node (n_next n1) (\<lambda>c. c\<lparr>n_prev := n_prev n1\<rparr>) h1
                   else set_tail parent (n_prev n1) h1) (\<lambda>h2.
           set_node node (\<lambda>c. c\<lparr>n_parent := 0, n_prev := 0, n_next := 0, n_key := None\<rparr>) h2)))
       else Inr h)"

section \<open>Lookup\<close>

definition json_first_child :: "addr \<Rightarrow> 'd heap \<Rightarrow> err + addr" where
  "json_first_child node h =
     (if node = 0 then Inr 0
      else bind_res (node_at h node) (\<lambda>n.
        if n_tag n = TAG_ARRAY \<or> n_tag n = TAG_OBJECT
        then bind_res (children (n_payload n)) (\<lambda>(head, _). Inr head) else Inr 0))"

text \<open>
  The loops \<^verbatim>\<open>json_foreach\<close> follow \<^verbatim>\<open>next\<close> pointers, which may form a cycle, so they run on
  fuel; enough fuel is shown to exist for every well-formed list.  The counter of
  \<^verbatim>\<open>json_find_element\<close> is an integer: it stands for the \<^verbatim>\<open>int\<close> of the source in lists of less than
  \<open>2 ^ 31\<close> elements.
\<close>

fun find_element_loop :: "nat \<Rightarrow> addr \<Rightarrow> int \<Rightarrow> int \<Rightarrow> 'd heap \<Rightarrow> addr run" where
  "find_element_loop 0 element i index h = None"
| "find_element_loop (Suc fuel) element i index h =
     (if element = 0 then Some (Inr 0)
      else if i = index then Some (Inr element)
      else bind_run (Some (node_at h element)) (\<lambda>n. find_element_loop fuel (n_next n) (i + 1) index h))"

definition json_find_element :: "nat \<Rightarrow> addr \<Rightarrow> int \<Rightarrow> 'd heap \<Rightarrow> addr run" where
  "json_find_element fuel array index h =
     (if array = 0 then Some (Inr 0)
      else bind_run (Some (node_at h array)) (\<lambda>n.
        if n_tag n \<noteq> TAG_ARRAY then Some (Inr 0)
        else bind_run (Some (json_first_child array h)) (\<lambda>head. find_element_loop fuel head 0 index h)))"

text \<open>\<^verbatim>\<open>strcmp(member->key, name) == 0\<close>; a null key is a null dereference.\<close>

definition key_is :: "bytes option \<Rightarrow> bytes \<Rightarrow> err + bool" where
  "key_is key name = (case key of None \<Rightarrow> Inl Out_Of_Bounds | Some k \<Rightarrow> Inr (k = name))"

fun find_member_loop :: "nat \<Rightarrow> addr \<Rightarrow> bytes \<Rightarrow> 'd heap \<Rightarrow> addr run" where
  "find_member_loop 0 member name h = None"
| "find_member_loop (Suc fuel) member name h =
     (if member = 0 then Some (Inr 0)
      else bind_run (Some (node_at h member)) (\<lambda>n.
           bind_run (Some (key_is (n_key n) name)) (\<lambda>b.
             if b then Some (Inr member) else find_member_loop fuel (n_next n) name h)))"

definition json_find_member :: "nat \<Rightarrow> addr \<Rightarrow> bytes \<Rightarrow> 'd heap \<Rightarrow> addr run" where
  "json_find_member fuel object name h =
     (if object = 0 then Some (Inr 0)
      else bind_run (Some (node_at h object)) (\<lambda>n.
        if n_tag n \<noteq> TAG_OBJECT then Some (Inr 0)
        else bind_run (Some (json_first_child object h)) (\<lambda>head. find_member_loop fuel head name h)))"

section \<open>Deleting a tree\<close>

fun json_delete :: "nat \<Rightarrow> addr \<Rightarrow> 'd heap \<Rightarrow> 'd heap run"
  and delete_children :: "nat \<Rightarrow> addr \<Rightarrow> 'd heap \<Rightarrow> 'd heap run"
where
  "json_delete 0 node h = None"
| "json_delete (Suc fuel) node h =
     (if node = 0 then Some (Inr h)
      else bind_run (Some (json_remove_from_parent node h)) (\<lambda>h1.
           bind_run (Some (node_at h1 node)) (\<lambda>n.
           bind_run
             (if n_tag n = TAG_ARRAY \<or> n_tag n = TAG_OBJECT then
                bind_run (Some (children (n_payload n))) (\<lambda>(head, _). delete_children fuel head h1)
              else Some (Inr h1)) (\<lambda>h2.
             Some (free_node node h2)))))"
| "delete_children 0 child h = None"
| "delete_children (Suc fuel) child h =
     (if child = 0 then Some (Inr h)
      else bind_run (Some (node_at h child)) (\<lambda>n.
           bind_run (json_delete fuel child h) (\<lambda>h1. delete_children fuel (n_next n) h1)))"

section \<open>Checking a tree\<close>

text \<open>The problems \<^verbatim>\<open>json_check\<close> reports: one constructor per message.\<close>

datatype problem = Key_Invalid_UTF8 | Tag_Invalid u32 | String_Null | String_Invalid_UTF8
  | Tail_Null | Head_Null | First_Has_Prev | Own_Child | Next_Is_Child | Next_Is_Head
  | Wrong_Parent | Next_Not_Back | Array_Has_Key | Object_No_Key | Tail_Mismatch

text \<open>The conditions of one round of the loop, in the order of the source.\<close>

definition check_child ::
    "addr \<Rightarrow> u32 \<Rightarrow> addr \<Rightarrow> addr \<Rightarrow> 'd heap \<Rightarrow> err + problem option" where
  "check_child node tag head child h =
     (if child = node then Inr (Some Own_Child)
      else bind_res (node_at h child) (\<lambda>c.
        if n_next c = child then Inr (Some Next_Is_Child)
        else if n_next c = head then Inr (Some Next_Is_Head)
        else if n_parent c \<noteq> node then Inr (Some Wrong_Parent)
        else bind_res (if n_next c \<noteq> 0 then bind_res (node_at h (n_next c)) (\<lambda>m. Inr (n_prev m \<noteq> child))
                       else Inr False) (\<lambda>not_back.
          if not_back then Inr (Some Next_Not_Back)
          else if tag = TAG_ARRAY \<and> n_key c \<noteq> None then Inr (Some Array_Has_Key)
          else if tag = TAG_OBJECT \<and> n_key c = None then Inr (Some Object_No_Key)
          else Inr None)))"

text \<open>\<^verbatim>\<open>json_check\<close> up to the loop; the test of \<^verbatim>\<open>bool_\<close> cannot fail on a value of type bool.\<close>

definition check_node :: "'d node \<Rightarrow> err + problem option" where
  "check_node n =
     bind_res (case n_key n of None \<Rightarrow> Inr True | Some k \<Rightarrow> utf8_validate (cstr k)) (\<lambda>key_ok.
       if \<not> key_ok then Inr (Some Key_Invalid_UTF8)
       else if \<not> tag_is_valid (n_tag n) then Inr (Some (Tag_Invalid (n_tag n)))
       else if n_tag n = TAG_STRING then
         (case n_payload n of
            Zeroed \<Rightarrow> Inr (Some String_Null)
          | String_P s \<Rightarrow> bind_res (utf8_validate (cstr s)) (\<lambda>ok.
              Inr (if ok then None else Some String_Invalid_UTF8))
          | _ \<Rightarrow> Inl Out_Of_Bounds)
       else Inr None)"

fun json_check :: "nat \<Rightarrow> addr \<Rightarrow> 'd heap \<Rightarrow> problem option run"
  and check_children ::
        "nat \<Rightarrow> addr \<Rightarrow> u32 \<Rightarrow> addr \<Rightarrow> addr \<Rightarrow> addr \<Rightarrow> addr \<Rightarrow> 'd heap \<Rightarrow> problem option run"
where
  "json_check 0 node h = None"
| "json_check (Suc fuel) node h =
     bind_run (Some (node_at h node)) (\<lambda>n.
     bind_run (Some (check_node n)) (\<lambda>p.
       if p \<noteq> None then Some (Inr p)
       else if n_tag n = TAG_ARRAY \<or> n_tag n = TAG_OBJECT then
         bind_run (Some (children (n_payload n))) (\<lambda>(head, tail).
           if head = 0 \<or> tail = 0 then
             Some (Inr (if head \<noteq> 0 then Some Tail_Null else if tail \<noteq> 0 then Some Head_Null else None))
           else bind_run (Some (node_at h head)) (\<lambda>hn.
             if n_prev hn \<noteq> 0 then Some (Inr (Some First_Has_Prev))
             else check_children fuel node (n_tag n) head tail head 0 h))
       else Some (Inr None)))"
| "check_children 0 node tag head tail child prv h = None"
| "check_children (Suc fuel) node tag head tail child prv h =
     (if child = 0 then Some (Inr (if prv \<noteq> tail then Some Tail_Mismatch else None))
      else bind_run (Some (check_child node tag head child h)) (\<lambda>p.
        if p \<noteq> None then Some (Inr p)
        else bind_run (json_check fuel child h) (\<lambda>p1.
          if p1 \<noteq> None then Some (Inr p1)
          else bind_run (Some (node_at h child)) (\<lambda>c.
            check_children fuel node tag head tail (n_next c) child h))))"

section \<open>The list of children\<close>

text \<open>
  \<open>links h p prv xs nxt\<close>: the nodes \<open>xs\<close> are linked in both directions under the parent
  \<open>p\<close>, between the neighbours \<open>prv\<close> and \<open>nxt\<close>.
\<close>

fun links :: "'d heap \<Rightarrow> addr \<Rightarrow> addr \<Rightarrow> addr list \<Rightarrow> addr \<Rightarrow> bool" where
  "links h p prv [] nxt \<longleftrightarrow> True"
| "links h p prv (x # xs) nxt \<longleftrightarrow>
     (case h_nodes h x of None \<Rightarrow> False
      | Some n \<Rightarrow> n_parent n = p \<and> n_prev n = prv \<and> n_next n = hd (xs @ [nxt])) \<and>
     links h p x xs nxt"

definition child_list :: "'d heap \<Rightarrow> addr \<Rightarrow> addr list \<Rightarrow> bool" where
  "child_list h p xs \<longleftrightarrow> p \<noteq> 0 \<and> p \<notin> set xs \<and> 0 \<notin> set xs \<and> distinct xs \<and>
     children_at h p = Inr (hd (xs @ [0]), last (0 # xs)) \<and> links h p 0 xs 0"

text \<open>What a node holds besides its links to its siblings.\<close>

definition data :: "'d node \<Rightarrow> 'd node" where
  "data n = n\<lparr>n_prev := 0, n_next := 0\<rparr>"

definition data_at :: "'d heap \<Rightarrow> addr \<Rightarrow> 'd node option" where
  "data_at h a = map_option data (h_nodes h a)"

text \<open>Two heaps that agree on all nodes outside \<open>A\<close>, and on their data outside \<open>B\<close>.\<close>

definition agree :: "addr set \<Rightarrow> addr set \<Rightarrow> 'd heap \<Rightarrow> 'd heap \<Rightarrow> bool" where
  "agree A B h h' \<longleftrightarrow> (\<forall>a. a \<notin> A \<longrightarrow> h_nodes h' a = h_nodes h a) \<and> (\<forall>a. a \<notin> B \<longrightarrow> data_at h' a = data_at h a)"

named_theorems heap_simps \<open>evaluation of heap operations\<close>

lemma node_at_simps [heap_simps]: "h_nodes h a = Some n \<Longrightarrow> node_at h a = Inr n"
  by (simp add: node_at_def)

lemma node_at_eq: "node_at h a = Inr n \<longleftrightarrow> h_nodes h a = Some n"
  by (simp add: node_at_def split: option.splits)

lemma nodes_put [simp]: "h_nodes (put_node a n h) = (h_nodes h)(a \<mapsto> n)"
  by (simp add: put_node_def)

lemma set_node_simps [heap_simps]: "h_nodes h a = Some n \<Longrightarrow> set_node a f h = Inr (put_node a (f n) h)"
  by (simp add: set_node_def node_at_def)

lemma children_at_simps [heap_simps]: "h_nodes h a = Some n \<Longrightarrow> children_at h a = children (n_payload n)"
  by (simp add: children_at_def node_at_def)

lemma children_Children [simp]: "children (Children x y) = Inr (x, y)"
  by (simp add: children_def)

lemma set_head_simps [heap_simps]:
  "h_nodes h p = Some n \<Longrightarrow> children (n_payload n) = Inr (x, y) \<Longrightarrow>
   set_head p a h = Inr (put_node p (n\<lparr>n_payload := Children a y\<rparr>) h)"
  by (simp add: set_head_def heap_simps)

lemma set_tail_simps [heap_simps]:
  "h_nodes h p = Some n \<Longrightarrow> children (n_payload n) = Inr (x, y) \<Longrightarrow>
   set_tail p a h = Inr (put_node p (n\<lparr>n_payload := Children x a\<rparr>) h)"
  by (simp add: set_tail_def heap_simps)

lemma links_append:
  "links h p prv (xs @ ys) nxt \<longleftrightarrow> links h p prv xs (hd (ys @ [nxt])) \<and> links h p (last (prv # xs)) ys nxt"
proof (induction xs arbitrary: prv)
  case (Cons x xs)
  have "hd ((xs @ ys) @ [nxt]) = hd (xs @ [hd (ys @ [nxt])])" by (cases xs) simp_all
  with Cons show ?case by (simp split: option.splits)
qed simp

lemma links_frame: "\<forall>x \<in> set xs. h_nodes h' x = h_nodes h x \<Longrightarrow> links h' p prv xs nxt = links h p prv xs nxt"
  by (induction xs arbitrary: prv) simp_all

lemma links_in_heap: "links h p prv xs nxt \<Longrightarrow> x \<in> set xs \<Longrightarrow> \<exists>n. h_nodes h x = Some n \<and> n_parent n = p"
  by (induction xs arbitrary: prv) (auto split: option.splits)

lemma child_list_node:
  assumes "child_list h p xs"
  shows "\<exists>n. h_nodes h p = Some n \<and> children (n_payload n) = Inr (hd (xs @ [0]), last (0 # xs))"
  using assms by (auto simp: child_list_def children_at_def node_at_def res_simps split: option.splits)

lemma agreeI:
  "(\<And>a. a \<notin> A \<Longrightarrow> h_nodes h' a = h_nodes h a) \<Longrightarrow> (\<And>a. a \<in> A - B \<Longrightarrow> data_at h' a = data_at h a) \<Longrightarrow>
   agree A B h h'"
  unfolding agree_def data_at_def by (metis DiffI)

lemma append_node_list:
  assumes "child_list h p xs" and "h_nodes h c = Some m" and "c \<notin> set xs" and "c \<noteq> p" and "c \<noteq> 0"
  shows "\<exists>h'. append_node p c h = Inr h' \<and> child_list h' p (xs @ [c]) \<and>
    h_nodes h' c = Some (m\<lparr>n_parent := p, n_prev := last (0 # xs), n_next := 0\<rparr>) \<and>
    agree ({p, c} \<union> set xs) {p, c} h h' \<and>
    (\<exists>n. h_nodes h p = Some n \<and>
      h_nodes h' p = Some (n\<lparr>n_payload := Children (hd (xs @ [c])) c\<rparr>))"
proof (cases xs rule: rev_cases)
  case Nil
  obtain n where n: "h_nodes h p = Some n" "children (n_payload n) = Inr (0, 0)"
    using child_list_node [OF assms(1)] Nil by auto
  then show ?thesis
    using assms Nil
    by (auto simp: append_node_def heap_simps child_list_def data_at_def data_def intro!: agreeI split: if_splits)
next
  case (snoc ys t)
  obtain n where n: "h_nodes h p = Some n" "children (n_payload n) = Inr (hd (ys @ [t]), t)"
    using child_list_node [OF assms(1)] snoc by (cases ys) auto
  have xs: "t \<noteq> 0" "t \<noteq> p" "t \<notin> set ys" "p \<notin> set ys" "c \<notin> set ys" "c \<noteq> t" "0 \<notin> set ys" "distinct ys" "p \<noteq> 0"
    "links h p 0 ys t" and t: "links h p (last (0 # ys)) [t] 0"
    using assms(1,3) snoc by (auto simp: child_list_def links_append)
  obtain k where k: "h_nodes h t = Some k" "n_parent k = p" "n_prev k = last (0 # ys)" "n_next k = 0"
    using t by (auto split: option.splits)
  define h' where "h' = put_node p (n\<lparr>n_payload := Children (hd (ys @ [t])) c\<rparr>)
    (put_node t (k\<lparr>n_next := c\<rparr>)
    (put_node c (m\<lparr>n_parent := p, n_prev := t, n_next := 0\<rparr>)
    (put_node c (m\<lparr>n_parent := p, n_prev := t\<rparr>)
    (put_node c (m\<lparr>n_parent := p\<rparr>) h))))"
  have "append_node p c h = Inr h'"
    using n k xs assms(2,4) by (simp add: append_node_def heap_simps h'_def)
  moreover have "links h' p 0 ys t"
    using xs by (subst links_frame [where h = h]) (auto simp: h'_def)
  then have "child_list h' p (xs @ [c])"
    using snoc xs k assms(4,5) by (cases ys) (auto simp: child_list_def links_append h'_def heap_simps hd_append split: option.splits)
  moreover have "agree ({p, c} \<union> set xs) {p, c} h h'"
    using snoc xs k by (intro agreeI) (auto simp: h'_def data_at_def data_def)
  ultimately show ?thesis
    using snoc n xs assms(4) by (cases ys) (auto simp: h'_def)
qed

lemma prepend_node_list:
  assumes "child_list h p xs" and "h_nodes h c = Some m" and "c \<notin> set xs" and "c \<noteq> p" and "c \<noteq> 0"
  shows "\<exists>h'. prepend_node p c h = Inr h' \<and> child_list h' p (c # xs) \<and>
    h_nodes h' c = Some (m\<lparr>n_parent := p, n_prev := 0, n_next := hd (xs @ [0])\<rparr>) \<and>
    agree ({p, c} \<union> set xs) {p, c} h h' \<and>
    (\<exists>n. h_nodes h p = Some n \<and>
      h_nodes h' p = Some (n\<lparr>n_payload := Children c (last (c # xs))\<rparr>))"
proof (cases xs)
  case Nil
  obtain n where n: "h_nodes h p = Some n" "children (n_payload n) = Inr (0, 0)"
    using child_list_node [OF assms(1)] Nil by auto
  then show ?thesis
    using assms Nil
    by (auto simp: prepend_node_def heap_simps child_list_def data_at_def data_def intro!: agreeI
        split: if_splits)
next
  case (Cons t ys)
  obtain n where n: "h_nodes h p = Some n" "children (n_payload n) = Inr (t, last (t # ys))"
    using child_list_node [OF assms(1)] Cons by auto
  have xs: "t \<noteq> 0" "t \<noteq> p" "t \<notin> set ys" "p \<notin> set ys" "c \<notin> set ys" "c \<noteq> t" "0 \<notin> set ys" "distinct ys" "p \<noteq> 0"
    "links h p t ys 0" and t: "links h p 0 (t # ys) 0"
    using assms(1,3) Cons by (auto simp: child_list_def)
  obtain k where k: "h_nodes h t = Some k" "n_parent k = p" "n_prev k = 0" "n_next k = hd (ys @ [0])"
    using t by (auto split: option.splits)
  define h' where "h' = put_node p (n\<lparr>n_payload := Children c (last (t # ys))\<rparr>)
    (put_node t (k\<lparr>n_prev := c\<rparr>)
    (put_node c (m\<lparr>n_parent := p, n_prev := 0, n_next := t\<rparr>)
    (put_node c (m\<lparr>n_parent := p, n_prev := 0\<rparr>)
    (put_node c (m\<lparr>n_parent := p\<rparr>) h))))"
  have "prepend_node p c h = Inr h'"
    using n k xs assms(2,4) by (simp add: prepend_node_def heap_simps h'_def)
  moreover have "links h' p t ys 0"
    using xs by (subst links_frame [where h = h]) (auto simp: h'_def)
  then have "child_list h' p (c # xs)"
    using Cons xs k assms(4,5) by (auto simp: child_list_def h'_def heap_simps)
  moreover have "agree ({p, c} \<union> set xs) {p, c} h h'"
    using Cons xs k by (intro agreeI) (auto simp: h'_def data_at_def data_def)
  ultimately show ?thesis
    using Cons n xs assms(4) by (auto simp: h'_def)
qed

text \<open>Removing a node from the middle, the front or the back of a list.\<close>

lemma remove_node_list:
  assumes "child_list h p (xs @ c # ys)"
  shows "\<exists>h' m. json_remove_from_parent c h = Inr h' \<and> child_list h' p (xs @ ys) \<and>
    h_nodes h c = Some m \<and>
    h_nodes h' c = Some (m\<lparr>n_parent := 0, n_prev := 0, n_next := 0, n_key := None\<rparr>) \<and>
    agree ({p, c} \<union> set xs \<union> set ys) {p, c} h h' \<and>
    (\<exists>n y. h_nodes h p = Some n \<and> h_nodes h' p = Some (n\<lparr>n_payload := y\<rparr>))"
proof -
  have d: "p \<noteq> 0" "c \<noteq> 0" "c \<noteq> p" "c \<notin> set xs" "c \<notin> set ys" "p \<notin> set xs" "p \<notin> set ys"
    "0 \<notin> set xs" "0 \<notin> set ys" "distinct xs" "distinct ys" "set xs \<inter> set ys = {}"
    "links h p 0 xs c" "links h p c ys 0"
    using assms by (auto simp: child_list_def links_append)
  obtain m where m: "h_nodes h c = Some m" "n_parent m = p" "n_prev m = last (0 # xs)"
    "n_next m = hd (ys @ [0])"
    using assms by (auto simp: child_list_def links_append split: option.splits)
  obtain n where n: "h_nodes h p = Some n"
    "children (n_payload n) = Inr (hd (xs @ [c]), last (c # ys))"
    using child_list_node [OF assms] by (cases xs) auto
  define m' where "m' = m\<lparr>n_parent := 0, n_prev := 0, n_next := 0, n_key := None\<rparr>"
  note op = json_remove_from_parent_def heap_simps Let_def m'_def
  text \<open>It is enough to give the final heap, node by node.\<close>
  have result: ?thesis
    if "json_remove_from_parent c h = Inr h'" "h_nodes h' c = Some m'"
      "h_nodes h' p = Some (n\<lparr>n_payload := Children (hd (xs @ ys @ [0])) (last (0 # xs @ ys))\<rparr>)"
      "links h' p 0 xs (hd (ys @ [0]))" "links h' p (last (0 # xs)) ys 0"
      "\<And>a. a \<noteq> p \<Longrightarrow> a \<noteq> c \<Longrightarrow> a \<notin> set xs \<Longrightarrow> a \<notin> set ys \<Longrightarrow> h_nodes h' a = h_nodes h a"
      "\<And>a. a \<in> set xs \<union> set ys \<Longrightarrow> data_at h' a = data_at h a" for h'
  proof -
    have "child_list h' p (xs @ ys)"
      using that(3-5) d by (simp add: child_list_def links_append children_at_def node_at_def)
    moreover have "agree ({p, c} \<union> set xs \<union> set ys) {p, c} h h'"
      using that(6,7) by (intro agreeI) auto
    ultimately show ?thesis
      using that(1-3) m(1) n(1) by (auto simp: m'_def)
  qed
  show ?thesis
  proof (cases xs rule: rev_cases)
    case Nil
    show ?thesis
    proof (cases ys)
      case ys: Nil
      show ?thesis
        by (rule result [of "put_node c m' (put_node p (n\<lparr>n_payload := Children 0 0\<rparr>)
              (put_node p (n\<lparr>n_payload := Children 0 c\<rparr>) h))"])
          (use d m n Nil ys in \<open>auto simp: op\<close>)
    next
      case (Cons t ys')
      obtain l where l: "h_nodes h t = Some l" "n_parent l = p" "n_prev l = c" "n_next l = hd (ys' @ [0])"
        using d(14) Cons by (auto split: option.splits)
      define h' where "h' = put_node c m' (put_node t (l\<lparr>n_prev := 0\<rparr>)
        (put_node p (n\<lparr>n_payload := Children t (last (c # ys))\<rparr>) h))"
      have "links h' p t ys' 0"
        using d Cons by (subst links_frame [where h = h]) (auto simp: h'_def)
      then show ?thesis
      proof (intro result [of h'])
        show "json_remove_from_parent c h = Inr h'"
          using d(1-12) m n l(1) Nil Cons by (simp add: op h'_def)
        show "data_at h' a = data_at h a" if "a \<in> set xs \<union> set ys" for a
          using that d(1-12) l(1) Nil Cons by (auto simp: h'_def data_at_def data_def)
      qed (use d(1-12) l Nil Cons in \<open>simp_all add: h'_def m'_def\<close>)
    qed
  next
    case (snoc xs' s)
    obtain k where k: "h_nodes h s = Some k" "n_parent k = p" "n_prev k = last (0 # xs')" "n_next k = c"
      using d(13) snoc by (auto simp: links_append split: option.splits)
    show ?thesis
    proof (cases ys)
      case Nil
      define h' where "h' = put_node c m' (put_node p (n\<lparr>n_payload := Children (hd xs) s\<rparr>)
        (put_node s (k\<lparr>n_next := 0\<rparr>) h))"
      have "links h' p 0 xs' s"
        using d snoc by (subst links_frame [where h = h]) (auto simp: h'_def links_append)
      then show ?thesis
      proof (intro result [of h'])
        show "json_remove_from_parent c h = Inr h'"
          using d(1-12) m n k(1) Nil snoc by (simp add: op h'_def hd_append)
        show "data_at h' a = data_at h a" if "a \<in> set xs \<union> set ys" for a
          using that d(1-12) k(1) Nil snoc by (auto simp: h'_def data_at_def data_def)
      qed (use d(1-12) k Nil snoc in \<open>simp_all add: h'_def m'_def links_append hd_append\<close>)
    next
      case (Cons t ys')
      obtain l where l: "h_nodes h t = Some l" "n_parent l = p" "n_prev l = c" "n_next l = hd (ys' @ [0])"
        using d(14) Cons by (auto split: option.splits)
      define h' where "h' = put_node c m' (put_node t (l\<lparr>n_prev := s\<rparr>) (put_node s (k\<lparr>n_next := t\<rparr>) h))"
      have "links h' p 0 xs' s"
        using d snoc Cons by (subst links_frame [where h = h]) (auto simp: h'_def links_append)
      moreover have "links h' p t ys' 0"
        using d snoc Cons by (subst links_frame [where h = h]) (auto simp: h'_def)
      moreover have "children (n_payload n) = Inr (hd (xs @ ys @ [0]), last (0 # xs @ ys))"
        using n(2) snoc Cons by (cases xs') auto
      ultimately show ?thesis
      proof (intro result [of h'])
        show "json_remove_from_parent c h = Inr h'"
          using d(1-12) m n k(1) l(1) Cons snoc by (simp add: op h'_def)
        show "data_at h' a = data_at h a" if "a \<in> set xs \<union> set ys" for a
          using that d(1-12) k(1) l(1) Cons snoc by (auto simp: h'_def data_at_def data_def)
        have "n_payload n = Children (hd (xs @ ys @ [0])) (last (0 # xs @ ys))"
          using n(2) d(1-12) snoc Cons by (cases xs'; cases "n_payload n") (auto simp: children_def)
        then have "n = n\<lparr>n_payload := Children (hd (xs @ ys @ [0])) (last (0 # xs @ ys))\<rparr>" by simp
        then show "h_nodes h' p = Some (n\<lparr>n_payload := Children (hd (xs @ ys @ [0])) (last (0 # xs @ ys))\<rparr>)"
          using n(1) d(1-12) Cons snoc by (simp add: h'_def)
      qed (use d(1-12) k l Cons snoc in \<open>simp_all add: h'_def m'_def links_append hd_append\<close>)
    qed
  qed
qed

end
