(* ===== verification/Json_Tree.thy ===== *)
theory Json_Tree
  imports Json_Heap
begin

text \<open>
  What the linked trees of \<^verbatim>\<open>src/src/json.c\<close> represent.  The relation \<open>tree\<close> says which
  value a node is the root of and which nodes belong to it.  Over it, the lookups are those of
  lists, linking refines appending and prepending, deleting frees every node of a tree exactly
  once and no other, and \<^verbatim>\<open>json_check\<close> accepts every tree with valid texts.  The fuel of the
  recursive functions is enough at twice the number of nodes.
\<close>

section \<open>Lookup in a list of children\<close>

lemma find_element_loop_links:
  assumes "links h p prv xs 0" and "0 \<notin> set xs" and "length xs < fuel"
  shows "find_element_loop fuel (hd (xs @ [0])) i index h =
    Some (Inr (if i \<le> index \<and> index < i + int (length xs) then xs ! nat (index - i) else 0))"
  using assms
proof (induction xs arbitrary: fuel i prv)
  case Nil
  then show ?case by (cases fuel) auto
next
  case (Cons x xs)
  then obtain fuel' where f: "fuel = Suc fuel'" "length xs < fuel'" by (cases fuel) auto
  obtain n where n: "h_nodes h x = Some n" "n_next n = hd (xs @ [0])" "links h p x xs 0"
    using Cons.prems(1) by (auto split: option.splits)
  show ?case
  proof (cases "i = index")
    case True
    then show ?thesis using f Cons.prems(2) by simp
  next
    case False
    have "nat (index - i) = Suc (nat (index - (i + 1)))" if "i + 1 \<le> index"
      using that by linarith
    with False f n Cons.IH [of x fuel' "i + 1"] Cons.prems(2) show ?thesis
      by (auto simp: node_at_def)
  qed
qed

lemma json_find_element_list:
  assumes "child_list h p xs" and "h_nodes h p = Some n" and "n_tag n = TAG_ARRAY" and "length xs < fuel"
  shows "json_find_element fuel p index h =
    Some (Inr (if 0 \<le> index \<and> index < int (length xs) then xs ! nat index else 0))"
proof -
  have "json_first_child p h = Inr (hd (xs @ [0]))"
    using assms(1-3) by (auto simp: json_first_child_def child_list_def children_at_def node_at_def res_simps)
  moreover have "find_element_loop fuel (hd (xs @ [0])) 0 index h =
      Some (Inr (if 0 \<le> index \<and> index < int (length xs) then xs ! nat index else 0))"
    using find_element_loop_links [of h p 0 xs fuel 0 index] assms(1,4) by (simp add: child_list_def)
  ultimately show ?thesis
    using assms(1-3) by (simp add: json_find_element_def node_at_def child_list_def)
qed

definition key_at :: "'d heap \<Rightarrow> addr \<Rightarrow> bytes option" where
  "key_at h a = (case h_nodes h a of None \<Rightarrow> None | Some n \<Rightarrow> n_key n)"

lemma find_member_loop_links:
  assumes "links h p prv xs 0" and "0 \<notin> set xs" and "length xs < fuel"
    and "\<forall>x \<in> set xs. key_at h x \<noteq> None"
  shows "find_member_loop fuel (hd (xs @ [0])) name h =
    Some (Inr (case find (\<lambda>x. key_at h x = Some name) xs of Some x \<Rightarrow> x | None \<Rightarrow> 0))"
  using assms
proof (induction xs arbitrary: fuel prv)
  case Nil
  then show ?case by (cases fuel) auto
next
  case (Cons x xs)
  then obtain fuel' where f: "fuel = Suc fuel'" "length xs < fuel'" by (cases fuel) auto
  obtain n where n: "h_nodes h x = Some n" "n_next n = hd (xs @ [0])" "links h p x xs 0"
    using Cons.prems(1) by (auto split: option.splits)
  obtain k where k: "n_key n = Some k" using Cons.prems(4) n(1) by (auto simp: key_at_def)
  have "find_member_loop fuel' (hd (xs @ [0])) name h =
      Some (Inr (case find (\<lambda>x. key_at h x = Some name) xs of Some x \<Rightarrow> x | None \<Rightarrow> 0))"
    using Cons.IH [OF n(3) _ f(2)] Cons.prems(2,4) by simp
  with f n(1,2) k Cons.prems(2) show ?case
    by (simp add: node_at_def key_is_def key_at_def)
qed

lemma json_find_member_list:
  assumes "child_list h p xs" and "h_nodes h p = Some n" and "n_tag n = TAG_OBJECT" and "length xs < fuel"
    and "\<forall>x \<in> set xs. key_at h x \<noteq> None"
  shows "json_find_member fuel p name h =
    Some (Inr (case find (\<lambda>x. key_at h x = Some name) xs of Some x \<Rightarrow> x | None \<Rightarrow> 0))"
proof -
  have "json_first_child p h = Inr (hd (xs @ [0]))"
    using assms(1-3) by (auto simp: json_first_child_def child_list_def children_at_def node_at_def res_simps)
  moreover have "find_member_loop fuel (hd (xs @ [0])) name h =
      Some (Inr (case find (\<lambda>x. key_at h x = Some name) xs of Some x \<Rightarrow> x | None \<Rightarrow> 0))"
    using find_member_loop_links [of h p 0 xs fuel name] assms(1,4,5) by (simp add: child_list_def)
  ultimately show ?thesis
    using assms(1-3) by (simp add: json_find_member_def node_at_def child_list_def)
qed

section \<open>Trees in the heap\<close>

text \<open>
  \<open>tree h a v F\<close>: the node \<open>a\<close> is the root of a linked tree that represents the value
  \<open>v\<close>, and \<open>F\<close> is the set of its nodes; \<open>trees\<close> is the same for the list of children
  with their keys.  The links of the root itself are not part of the tree.
\<close>

inductive tree :: "'d heap \<Rightarrow> addr \<Rightarrow> 'd json \<Rightarrow> addr set \<Rightarrow> bool"
  and trees :: "'d heap \<Rightarrow> addr list \<Rightarrow> (bytes option \<times> 'd json) list \<Rightarrow> addr set \<Rightarrow> bool"
  for h :: "'d heap"
where
  tree_null: "h_nodes h a = Some n \<Longrightarrow> n_tag n = TAG_NULL \<Longrightarrow> a \<noteq> 0 \<Longrightarrow> tree h a JSON_NULL {a}"
| tree_bool: "h_nodes h a = Some n \<Longrightarrow> n_tag n = TAG_BOOL \<Longrightarrow> n_payload n = Bool_P b \<Longrightarrow> a \<noteq> 0 \<Longrightarrow>
    tree h a (JSON_BOOL b) {a}"
| tree_string: "h_nodes h a = Some n \<Longrightarrow> n_tag n = TAG_STRING \<Longrightarrow> n_payload n = String_P s \<Longrightarrow> a \<noteq> 0 \<Longrightarrow>
    tree h a (JSON_STRING s) {a}"
| tree_number: "h_nodes h a = Some n \<Longrightarrow> n_tag n = TAG_NUMBER \<Longrightarrow> n_payload n = Number_P d \<Longrightarrow> a \<noteq> 0 \<Longrightarrow>
    tree h a (JSON_NUMBER d) {a}"
| tree_array: "h_nodes h a = Some n \<Longrightarrow> n_tag n = TAG_ARRAY \<Longrightarrow> child_list h a xs \<Longrightarrow>
    trees h xs (List.map (\<lambda>v. (None, v)) vs) F \<Longrightarrow> a \<notin> F \<Longrightarrow> tree h a (JSON_ARRAY vs) (insert a F)"
| tree_object: "h_nodes h a = Some n \<Longrightarrow> n_tag n = TAG_OBJECT \<Longrightarrow> child_list h a xs \<Longrightarrow>
    trees h xs (List.map (\<lambda>(k, v). (Some k, v)) ms) F \<Longrightarrow> a \<notin> F \<Longrightarrow> tree h a (JSON_OBJECT ms) (insert a F)"
| trees_Nil: "trees h [] [] {}"
| trees_Cons: "tree h x v F \<Longrightarrow> key_at h x = k \<Longrightarrow> trees h xs kvs G \<Longrightarrow> F \<inter> G = {} \<Longrightarrow>
    trees h (x # xs) ((k, v) # kvs) (F \<union> G)"

inductive_cases trees_elims: "trees h [] kvs F" "trees h (x # xs) kvs F" "trees h xs [] F"
  "trees h xs ((k, v) # kvs) F"

inductive_simps tree_array_iff: "tree h a (JSON_ARRAY vs) F"
inductive_simps tree_object_iff: "tree h a (JSON_OBJECT ms) F"
inductive_simps trees_Nil_iff: "trees h [] kvs F"
inductive_simps trees_Cons_iff: "trees h (x # xs) kvs F"

lemma tree_root: "tree h a v F \<Longrightarrow> a \<in> F \<and> a \<noteq> 0 \<and> h_nodes h a \<noteq> None"
  by (cases rule: tree.cases) (auto simp: child_list_def)

lemma trees_nodes: "trees h xs kvs F \<Longrightarrow> set xs \<subseteq> F"
  by (induction xs arbitrary: kvs F) (auto simp: trees_Cons_iff dest: tree_root)

lemma tree_dom:
  "tree h a v F \<Longrightarrow> x \<in> F \<Longrightarrow> h_nodes h x \<noteq> None"
  "trees h xs kvs F \<Longrightarrow> x \<in> F \<Longrightarrow> h_nodes h x \<noteq> None"
  by (induction rule: tree_trees.inducts) auto

text \<open>A tree does not depend on nodes outside it, nor on the links and the key of its root.\<close>

definition same_root :: "'d heap \<Rightarrow> 'd heap \<Rightarrow> addr \<Rightarrow> bool" where
  "same_root h h' a \<longleftrightarrow> (\<exists>n n'. h_nodes h a = Some n \<and> h_nodes h' a = Some n' \<and>
     n_tag n' = n_tag n \<and> n_payload n' = n_payload n)"

lemma same_root_refl: "h_nodes h a = Some n \<Longrightarrow> h_nodes h' a = Some n \<Longrightarrow> same_root h h' a"
  by (auto simp: same_root_def)

lemma child_list_frame:
  assumes "child_list h p xs" and "same_root h h' p" and "\<forall>x \<in> set xs. h_nodes h' x = h_nodes h x"
  shows "child_list h' p xs"
proof -
  have "links h' p 0 xs 0 = links h p 0 xs 0" using assms(3) by (rule links_frame)
  with assms(1,2) show ?thesis
    by (auto simp: child_list_def same_root_def children_at_def node_at_def)
qed

lemma tree_frame:
  "tree h a v F \<Longrightarrow> same_root h h' a \<Longrightarrow> \<forall>x \<in> F - {a}. h_nodes h' x = h_nodes h x \<Longrightarrow> tree h' a v F"
  "trees h xs kvs F \<Longrightarrow> \<forall>x \<in> F. h_nodes h' x = h_nodes h x \<Longrightarrow> trees h' xs kvs F"
proof (induct rule: tree_trees.inducts)
  case (tree_array a n xs vs F)
  have eq: "\<forall>x \<in> F. h_nodes h' x = h_nodes h x" using tree_array(6) tree_array(8) by simp
  have "child_list h' a xs"
    using tree_array(3) tree_array(7)
    by (rule child_list_frame) (use eq trees_nodes [OF tree_array(4)] in blast)
  moreover have "trees h' xs (List.map (\<lambda>v. (None, v)) vs) F" using tree_array(5) eq by blast
  moreover obtain n' where "h_nodes h' a = Some n'" "n_tag n' = TAG_ARRAY"
    using tree_array(7) tree_array(1,2) unfolding same_root_def by auto
  ultimately show ?case
    using tree_array(6) by (intro tree_trees.tree_array)
next
  case (tree_object a n xs ms F)
  have eq: "\<forall>x \<in> F. h_nodes h' x = h_nodes h x" using tree_object(6) tree_object(8) by simp
  have "child_list h' a xs"
    using tree_object(3) tree_object(7)
    by (rule child_list_frame) (use eq trees_nodes [OF tree_object(4)] in blast)
  moreover have "trees h' xs (List.map (\<lambda>(k, v). (Some k, v)) ms) F" using tree_object(5) eq by blast
  moreover obtain n' where "h_nodes h' a = Some n'" "n_tag n' = TAG_OBJECT"
    using tree_object(7) tree_object(1,2) unfolding same_root_def by auto
  ultimately show ?case
    using tree_object(6) by (intro tree_trees.tree_object)
next
  case (trees_Cons x v F k xs kvs G)
  obtain n where n: "h_nodes h x = Some n" "x \<in> F" using tree_root [OF trees_Cons(1)] by blast
  have n': "h_nodes h' x = Some n" using trees_Cons(7) n by simp
  have "tree h' x v F"
    by (rule trees_Cons(2) [OF same_root_refl [OF n(1) n']]) (use trees_Cons(7) in simp)
  moreover have "trees h' xs kvs G"
    using trees_Cons(5) trees_Cons(7) by simp
  moreover have "key_at h' x = k"
    using trees_Cons(3) n n' by (simp add: key_at_def)
  ultimately show ?case using trees_Cons(6) by (intro tree_trees.trees_Cons)
next
  case (tree_null a n)
  then show ?case unfolding same_root_def by (auto intro: tree_trees.tree_null)
next
  case (tree_bool a n b)
  then show ?case unfolding same_root_def by (auto intro: tree_trees.tree_bool)
next
  case (tree_string a n s)
  then show ?case unfolding same_root_def by (auto intro: tree_trees.tree_string)
next
  case (tree_number a n d)
  then show ?case unfolding same_root_def by (auto intro: tree_trees.tree_number)
next
  case trees_Nil
  show ?case by (rule tree_trees.trees_Nil)
qed

lemma trees_frame:
  assumes "trees h xs kvs F" and "\<forall>x \<in> set xs. same_root h h' x \<and> key_at h' x = key_at h x"
    and "\<forall>x \<in> F - set xs. h_nodes h' x = h_nodes h x"
  shows "trees h' xs kvs F"
  using assms
proof (induction xs arbitrary: kvs F)
  case Nil
  then show ?case by (auto simp: trees_Nil_iff)
next
  case (Cons x xs)
  obtain v F1 k kvs1 G where t: "kvs = (k, v) # kvs1" "F = F1 \<union> G" "tree h x v F1" "key_at h x = k"
    "trees h xs kvs1 G" "F1 \<inter> G = {}"
    using Cons.prems(1) by (auto simp: trees_Cons_iff)
  have sub: "set xs \<subseteq> G" using t(5) by (rule trees_nodes)
  have "tree h' x v F1"
    using t(3) by (rule tree_frame(1)) (use Cons.prems(2,3) t(2,6) sub in auto)
  moreover have "trees h' xs kvs1 G"
    using t(5) by (rule Cons.IH) (use Cons.prems(2,3) t tree_root [OF t(3)] in auto)
  moreover have "key_at h' x = k" using Cons.prems(2) t(4) by simp
  ultimately show ?case using t by (auto intro: tree_trees.trees_Cons)
qed

lemma trees_append:
  "trees h xs kvs F \<Longrightarrow> tree h c v G \<Longrightarrow> key_at h c = k \<Longrightarrow> F \<inter> G = {} \<Longrightarrow>
   trees h (xs @ [c]) (kvs @ [(k, v)]) (F \<union> G)"
proof (induction xs arbitrary: kvs F)
  case Nil
  then show ?case
    using tree_trees.trees_Cons [of h c v G k "[]" "[]" "{}"] by (auto simp: trees_Nil_iff)
next
  case (Cons x xs)
  then obtain w F1 l kvs1 G1 where t: "kvs = (l, w) # kvs1" "F = F1 \<union> G1" "tree h x w F1" "key_at h x = l"
    "trees h xs kvs1 G1" "F1 \<inter> G1 = {}"
    by (auto simp: trees_Cons_iff)
  have "trees h (xs @ [c]) (kvs1 @ [(k, v)]) (G1 \<union> G)"
    using Cons t by blast
  from tree_trees.trees_Cons [OF t(3,4) this] t Cons.prems(4) show ?case
    by (auto simp: Un_assoc)
qed

lemma tree_finite:
  "tree h a v F \<Longrightarrow> finite F"
  "trees h xs kvs F \<Longrightarrow> finite F"
  by (induct rule: tree_trees.inducts) auto

text \<open>Nodes that kept their data are the same roots.\<close>

lemma same_root_data:
  assumes "data_at h' x = data_at h x" and "h_nodes h x \<noteq> None"
  shows "same_root h h' x \<and> key_at h' x = key_at h x"
proof -
  obtain n n' where "h_nodes h x = Some n" "h_nodes h' x = Some n'" "data n' = data n"
    using assms by (auto simp: data_at_def)
  moreover from this(3) have "n_tag n' = n_tag n \<and> n_payload n' = n_payload n \<and> n_key n' = n_key n"
    by (cases n; cases n') (simp add: data_def)
  ultimately show ?thesis by (simp add: same_root_def key_at_def)
qed

section \<open>Deleting\<close>

lemma json_remove_root: "h_nodes h a = Some n \<Longrightarrow> n_parent n = 0 \<Longrightarrow> json_remove_from_parent a h = Inr h"
  by (simp add: json_remove_from_parent_def node_at_def)

text \<open>Deleting a linked node is unlinking it and deleting what is now a root.\<close>

lemma json_delete_linked:
  assumes "json_remove_from_parent a h = Inr h1" and "h_nodes h1 a = Some n" and "n_parent n = 0" and "a \<noteq> 0"
  shows "json_delete fuel a h = json_delete fuel a h1"
  using assms json_remove_root [OF assms(2,3)] by (cases fuel) simp_all

definition removed :: "addr set \<Rightarrow> 'd heap \<Rightarrow> 'd heap \<Rightarrow> bool" where
  "removed F h h' \<longleftrightarrow> (\<forall>x. h_nodes h' x = (if x \<in> F then None else h_nodes h x))"

lemma delete_children_list:
  fixes h :: "'d heap"
  assumes "\<And>(h :: 'd heap) x v G n fuel. tree h x v G \<Longrightarrow> card G \<le> N \<Longrightarrow> h_nodes h x = Some n \<Longrightarrow> n_parent n = 0 \<Longrightarrow>
      2 * card G \<le> fuel \<Longrightarrow> \<exists>h'. json_delete fuel x h = Some (Inr h') \<and> removed G h h'"
    and "child_list h p xs" and "trees h xs kvs F" and "card F \<le> N" and "p \<notin> F" and "2 * card F < fuel"
  shows "\<exists>h'. delete_children fuel (hd (xs @ [0])) h = Some (Inr h') \<and> (\<forall>x \<in> F. h_nodes h' x = None) \<and>
    (\<forall>x. x \<notin> insert p F \<longrightarrow> h_nodes h' x = h_nodes h x) \<and> h_nodes h' p \<noteq> None"
  using assms(2-)
proof (induction xs arbitrary: h kvs F fuel)
  case Nil
  then obtain fuel' where "fuel = Suc fuel'" by (cases fuel) auto
  moreover have "F = {}" using Nil.prems(2) by (simp add: trees_Nil_iff)
  moreover have "h_nodes h p \<noteq> None" using child_list_node [OF Nil.prems(1)] by auto
  ultimately show ?case by auto
next
  case (Cons x xs)
  obtain fuel' where f: "fuel = Suc fuel'" using Cons.prems(5) by (cases fuel) auto
  obtain v G k kvs1 F1 where t: "F = G \<union> F1" "tree h x v G" "trees h xs kvs1 F1" "G \<inter> F1 = {}"
    using Cons.prems(2) by (auto simp: trees_Cons_iff)
  have fin: "finite G" "finite F1" using t(2,3) by (auto intro: tree_finite)
  have x: "x \<in> G" "x \<noteq> 0" using tree_root [OF t(2)] by auto
  have sub: "set xs \<subseteq> F1" using t(3) by (rule trees_nodes)
  have card: "card F = card G + card F1" using t fin by (simp add: card_Un_disjoint)
  obtain h1 m where h1: "json_remove_from_parent x h = Inr h1" "child_list h1 p xs" "h_nodes h x = Some m"
    "h_nodes h1 x = Some (m\<lparr>n_parent := 0, n_prev := 0, n_next := 0, n_key := None\<rparr>)"
    "agree ({p, x} \<union> set xs) {p, x} h h1"
    using remove_node_list [of h p "[]" x xs] Cons.prems(1) by auto
  have nx: "n_next m = hd (xs @ [0])"
    using Cons.prems(1) h1(3) by (auto simp: child_list_def)
  have out: "h_nodes h1 y = h_nodes h y" if "y \<notin> {p, x} \<union> set xs" for y
    using h1(5) that by (simp add: agree_def)
  have tr: "tree h1 x v G"
    using t(2)
  proof (rule tree_frame(1))
    show "same_root h h1 x" using h1(3,4) by (simp add: same_root_def)
    show "\<forall>y \<in> G - {x}. h_nodes h1 y = h_nodes h y"
      by (intro ballI out) (use Cons.prems(4) t(1,4) sub in blast)
  qed
  have le: "card G \<le> N" "2 * card G \<le> fuel'" using Cons.prems(3,5) card f by auto
  have "\<exists>h2. json_delete fuel' x h1 = Some (Inr h2) \<and> removed G h1 h2"
    by (rule assms(1) [OF tr le(1) h1(4) _ le(2)]) simp
  then obtain h2 where h2: "json_delete fuel' x h1 = Some (Inr h2)" "removed G h1 h2" by blast
  have del: "json_delete fuel' x h = Some (Inr h2)"
    using json_delete_linked [OF h1(1,4)] h2(1) x(2) by simp
  have same: "h_nodes h2 y = h_nodes h1 y" if "y \<notin> G" for y
    using h2(2) that by (simp add: removed_def)
  have "child_list h2 p xs"
    using h1(2) by (rule child_list_frame)
      (use same Cons.prems(4) t sub child_list_node [OF h1(2)] in \<open>auto simp: same_root_def\<close>)
  moreover have "trees h2 xs kvs1 F1"
  proof (rule trees_frame [OF t(3)])
    show "\<forall>y \<in> set xs. same_root h h2 y \<and> key_at h2 y = key_at h y"
    proof
      fix y assume y: "y \<in> set xs"
      have "y \<notin> {p, x}" "y \<notin> G" using y sub t Cons.prems(1,4) by (auto simp: child_list_def)
      moreover have "h_nodes h y \<noteq> None" using tree_dom(2) [OF t(3)] y sub by blast
      ultimately show "same_root h h2 y \<and> key_at h2 y = key_at h y"
        using h1(5) same [of y] by (intro same_root_data) (simp_all add: agree_def data_at_def)
    qed
    show "\<forall>y \<in> F1 - set xs. h_nodes h2 y = h_nodes h y"
    proof
      fix y assume y: "y \<in> F1 - set xs"
      then have "y \<notin> G" "y \<notin> {p, x} \<union> set xs" using t(1,4) Cons.prems(4) x(1) by auto
      then show "h_nodes h2 y = h_nodes h y" using same out by simp
    qed
  qed
  moreover have "card F1 \<le> N" "p \<notin> F1" "2 * card F1 < fuel'"
  proof -
    have "0 < card G" using fin(1) x(1) by (auto simp: card_gt_0_iff)
    then show "card F1 \<le> N" "p \<notin> F1" "2 * card F1 < fuel'"
      using Cons.prems(3-5) card f t(1) by auto
  qed
  ultimately obtain h' where h': "delete_children fuel' (hd (xs @ [0])) h2 = Some (Inr h')"
    "\<forall>y \<in> F1. h_nodes h' y = None" "\<forall>y. y \<notin> insert p F1 \<longrightarrow> h_nodes h' y = h_nodes h2 y" "h_nodes h' p \<noteq> None"
    using Cons.IH by blast
  have "delete_children fuel (hd ((x # xs) @ [0])) h = Some (Inr h')"
    using f x h1(3) nx del h'(1) by (simp add: node_at_def)
  moreover have "h_nodes h' y = None" if "y \<in> F" for y
    using that h'(2,3) h2(2) t Cons.prems(4) by (auto simp: removed_def)
  moreover have "h_nodes h' y = h_nodes h y" if "y \<notin> insert p F" for y
    using that h'(3) same [of y] out [of y] sub t x by auto
  ultimately show ?case using h'(4) by blast
qed

text \<open>A tree whose root is linked nowhere is freed node by node, once each, and nothing else is.\<close>

lemma json_delete_tree:
  "tree h a v F \<Longrightarrow> h_nodes h a = Some n \<Longrightarrow> n_parent n = 0 \<Longrightarrow> 2 * card F \<le> fuel \<Longrightarrow>
   \<exists>h'. json_delete fuel a h = Some (Inr h') \<and> removed F h h'"
proof (induction "card F" arbitrary: h a v F n fuel rule: less_induct)
  case less
  have a: "a \<in> F" "a \<noteq> 0" using tree_root [OF less.prems(1)] by auto
  have fin: "finite F" using less.prems(1) by (rule tree_finite)
  then have "0 < card F" using a(1) by (auto simp: card_gt_0_iff)
  with less.prems(4) obtain fuel' where f: "fuel = Suc fuel'" "2 * card F \<le> Suc fuel'" by (cases fuel) auto
  have rm: "json_remove_from_parent a h = Inr h" using less.prems(2,3) by (rule json_remove_root)
  have list: "\<exists>h'. json_delete fuel a h = Some (Inr h') \<and> removed F h h'"
    if l: "n_tag n = TAG_ARRAY \<or> n_tag n = TAG_OBJECT" "child_list h a xs" "trees h xs kvs G" "a \<notin> G"
      "F = insert a G" for xs kvs G
  proof -
    have ch: "children (n_payload n) = Inr (hd (xs @ [0]), last (0 # xs))"
      using child_list_node [OF l(2)] less.prems(2) by auto
    have c: "card F = Suc (card G)" using l(4,5) fin by simp
    have IH: "\<exists>h'. json_delete fuel x h = Some (Inr h') \<and> removed K h h'"
      if "tree h x v K" "card K \<le> card G" "h_nodes h x = Some n" "n_parent n = 0" "2 * card K \<le> fuel"
      for h :: "'a heap" and x v K n fuel
      by (rule less.hyps [OF _ that(1,3,4,5)]) (use that(2) c in simp)
    have "2 * card G < fuel'" using c f(2) by simp
    have "\<exists>h'. delete_children fuel' (hd (xs @ [0])) h = Some (Inr h') \<and> (\<forall>x \<in> G. h_nodes h' x = None) \<and>
        (\<forall>x. x \<notin> insert a G \<longrightarrow> h_nodes h' x = h_nodes h x) \<and> h_nodes h' a \<noteq> None"
      by (rule delete_children_list [OF IH l(2,3) order_refl l(4) \<open>2 * card G < fuel'\<close>])
    then obtain h' where
      h': "delete_children fuel' (hd (xs @ [0])) h = Some (Inr h')" "\<forall>x \<in> G. h_nodes h' x = None"
      "\<forall>x. x \<notin> insert a G \<longrightarrow> h_nodes h' x = h_nodes h x" "h_nodes h' a \<noteq> None"
      by blast
    then obtain na where "h_nodes h' a = Some na" by blast
    then have "json_delete fuel a h = Some (Inr (h'\<lparr>h_nodes := (h_nodes h')(a := None)\<rparr>))"
      using f(1) a(2) rm less.prems(2) l(1) ch h'(1) by (auto simp: node_at_def free_node_def)
    moreover have "removed F h (h'\<lparr>h_nodes := (h_nodes h')(a := None)\<rparr>)"
      using h'(2,3) l(5) by (auto simp: removed_def)
    ultimately show ?thesis by blast
  qed
  have leaf: "\<exists>h'. json_delete fuel a h = Some (Inr h') \<and> removed F h h'"
    if "n_tag n \<noteq> TAG_ARRAY \<and> n_tag n \<noteq> TAG_OBJECT" "F = {a}"
    using f(1) a(2) rm less.prems(2) that by (auto simp: node_at_def free_node_def removed_def)
  from less.prems(1) show ?case
  proof (cases rule: tree.cases)
    case (tree_array m xs vs G)
    then show ?thesis using list less.prems(2) by auto
  next
    case (tree_object m xs ms G)
    then show ?thesis using list less.prems(2) by auto
  qed (use leaf less.prems(2) in auto)
qed

section \<open>Adding a tree to a tree\<close>

text \<open>
  The heap after \<open>c\<close> was linked under \<open>p\<close>, seen from the trees: the old children and
  the new one are unchanged.
\<close>

lemma trees_after_link:
  assumes "trees h xs kvs F" and "tree h c v G" and "F \<inter> G = {}" and "p \<notin> F" and "p \<notin> G"
    and "agree ({p, c} \<union> set xs) {p, c} h h'" and "same_root h h' c"
  shows "trees h' xs kvs F" and "tree h' c v G"
proof -
  have sub: "set xs \<subseteq> F" using assms(1) by (rule trees_nodes)
  have c: "c \<in> G" using tree_root [OF assms(2)] by simp
  have out: "h_nodes h' y = h_nodes h y" if "y \<notin> {p, c} \<union> set xs" for y
    using assms(6) that by (simp add: agree_def)
  show "tree h' c v G"
    using assms(2,7) by (rule tree_frame(1)) (intro ballI out, use assms(3,5) sub in blast)
  show "trees h' xs kvs F"
    using assms(1)
  proof (rule trees_frame)
    show "\<forall>x \<in> set xs. same_root h h' x \<and> key_at h' x = key_at h x"
    proof
      fix x assume x: "x \<in> set xs"
      then have "x \<notin> {p, c}" using assms(3,4) sub c by blast
      moreover have "h_nodes h x \<noteq> None" using tree_dom(2) [OF assms(1)] x sub by blast
      ultimately show "same_root h h' x \<and> key_at h' x = key_at h x"
        using assms(6) by (intro same_root_data) (simp_all add: agree_def)
    qed
    show "\<forall>x \<in> F - set xs. h_nodes h' x = h_nodes h x"
      by (intro ballI out) (use assms(3,4) c in blast)
  qed
qed

lemma append_node_trees:
  assumes "child_list h p xs" and "trees h xs kvs F" and "p \<notin> F" and "tree h c v G" and "(insert p F) \<inter> G = {}"
  shows "\<exists>h' n y. append_node p c h = Inr h' \<and> child_list h' p (xs @ [c]) \<and>
    trees h' (xs @ [c]) (kvs @ [(key_at h c, v)]) (F \<union> G) \<and>
    h_nodes h p = Some n \<and> h_nodes h' p = Some (n\<lparr>n_payload := y\<rparr>) \<and>
    (\<forall>x. x \<notin> insert p (F \<union> G) \<longrightarrow> h_nodes h' x = h_nodes h x)"
proof -
  obtain m where m: "h_nodes h c = Some m" "c \<in> G" "c \<noteq> 0" using tree_root [OF assms(4)] by blast
  have sub: "set xs \<subseteq> F" using assms(2) by (rule trees_nodes)
  then have c: "c \<notin> set xs" "c \<noteq> p" using assms(5) m(2) by auto
  obtain h' n where h': "append_node p c h = Inr h'" "child_list h' p (xs @ [c])"
    "h_nodes h' c = Some (m\<lparr>n_parent := p, n_prev := last (0 # xs), n_next := 0\<rparr>)"
    "agree ({p, c} \<union> set xs) {p, c} h h'" "h_nodes h p = Some n"
    "h_nodes h' p = Some (n\<lparr>n_payload := Children (hd (xs @ [c])) c\<rparr>)"
    using append_node_list [OF assms(1) m(1) c m(3)] by blast
  have "same_root h h' c" using h'(3) m(1) by (simp add: same_root_def)
  with trees_after_link [OF assms(2,4) _ assms(3) _ h'(4)] assms(5)
  have "trees h' xs kvs F" "tree h' c v G" by auto
  moreover have "key_at h' c = key_at h c" using h'(3) m(1) by (simp add: key_at_def)
  ultimately have "trees h' (xs @ [c]) (kvs @ [(key_at h c, v)]) (F \<union> G)"
    using assms(5) by (intro trees_append) auto
  moreover have "h_nodes h' x = h_nodes h x" if "x \<notin> insert p (F \<union> G)" for x
    using h'(4) that sub m(2) by (auto simp: agree_def)
  ultimately show ?thesis using h' by blast
qed

lemma prepend_node_trees:
  assumes "child_list h p xs" and "trees h xs kvs F" and "p \<notin> F" and "tree h c v G" and "(insert p F) \<inter> G = {}"
  shows "\<exists>h' n y. prepend_node p c h = Inr h' \<and> child_list h' p (c # xs) \<and>
    trees h' (c # xs) ((key_at h c, v) # kvs) (G \<union> F) \<and>
    h_nodes h p = Some n \<and> h_nodes h' p = Some (n\<lparr>n_payload := y\<rparr>) \<and>
    (\<forall>x. x \<notin> insert p (F \<union> G) \<longrightarrow> h_nodes h' x = h_nodes h x)"
proof -
  obtain m where m: "h_nodes h c = Some m" "c \<in> G" "c \<noteq> 0" using tree_root [OF assms(4)] by blast
  have sub: "set xs \<subseteq> F" using assms(2) by (rule trees_nodes)
  then have c: "c \<notin> set xs" "c \<noteq> p" using assms(5) m(2) by auto
  obtain h' n where h': "prepend_node p c h = Inr h'" "child_list h' p (c # xs)"
    "h_nodes h' c = Some (m\<lparr>n_parent := p, n_prev := 0, n_next := hd (xs @ [0])\<rparr>)"
    "agree ({p, c} \<union> set xs) {p, c} h h'" "h_nodes h p = Some n"
    "h_nodes h' p = Some (n\<lparr>n_payload := Children c (last (c # xs))\<rparr>)"
    using prepend_node_list [OF assms(1) m(1) c m(3)] by blast
  have "same_root h h' c" using h'(3) m(1) by (simp add: same_root_def)
  with trees_after_link [OF assms(2,4) _ assms(3) _ h'(4)] assms(5)
  have "trees h' xs kvs F" "tree h' c v G" by auto
  moreover have "key_at h' c = key_at h c" using h'(3) m(1) by (simp add: key_at_def)
  ultimately have "trees h' (c # xs) ((key_at h c, v) # kvs) (G \<union> F)"
    using assms(5) by (intro tree_trees.trees_Cons) auto
  moreover have "h_nodes h' x = h_nodes h x" if "x \<notin> insert p (F \<union> G)" for x
    using h'(4) that sub m(2) by (auto simp: agree_def)
  ultimately show ?thesis using h' by blast
qed

lemma check_link_ok:
  "h_nodes h p = Some n \<Longrightarrow> n_tag n = tag \<Longrightarrow> h_nodes h c = Some m \<Longrightarrow> n_parent m = 0 \<Longrightarrow>
   check_link tag p c h = Inr ()"
  by (simp add: check_link_def node_at_def)

lemma json_append_element_tree:
  assumes "tree h p (JSON_ARRAY vs) F" and "tree h c v G" and "F \<inter> G = {}"
    and "h_nodes h c = Some m" and "n_parent m = 0" and "n_key m = None"
  shows "\<exists>h'. json_append_element p c h = Inr h' \<and> tree h' p (JSON_ARRAY (vs @ [v])) (F \<union> G) \<and>
    (\<forall>x. x \<notin> F \<union> G \<longrightarrow> h_nodes h' x = h_nodes h x)"
proof -
  obtain n xs F1 where t: "F = insert p F1" "h_nodes h p = Some n" "n_tag n = TAG_ARRAY" "child_list h p xs"
    "trees h xs (List.map (\<lambda>v. (None, v)) vs) F1" "p \<notin> F1"
    using assms(1) by (auto simp: tree_array_iff)
  have k: "key_at h c = None" using assms(4,6) by (simp add: key_at_def)
  obtain h' y where h': "append_node p c h = Inr h'" "child_list h' p (xs @ [c])"
    "trees h' (xs @ [c]) (List.map (\<lambda>v. (None, v)) (vs @ [v])) (F1 \<union> G)"
    "h_nodes h' p = Some (n\<lparr>n_payload := y\<rparr>)" "\<forall>x. x \<notin> insert p (F1 \<union> G) \<longrightarrow> h_nodes h' x = h_nodes h x"
    using append_node_trees [OF t(4,5,6) assms(2)] assms(3) t(1,2) k by auto
  have "tree h' p (JSON_ARRAY (vs @ [v])) (insert p (F1 \<union> G))"
    by (rule tree_trees.tree_array [OF h'(4) _ h'(2,3)]) (use t assms(3) in auto)
  then show ?thesis
    using h'(1,5) check_link_ok [OF t(2,3) assms(4,5)] t(1) by (auto simp: json_append_element_def)
qed

lemma json_prepend_element_tree:
  assumes "tree h p (JSON_ARRAY vs) F" and "tree h c v G" and "F \<inter> G = {}"
    and "h_nodes h c = Some m" and "n_parent m = 0" and "n_key m = None"
  shows "\<exists>h'. json_prepend_element p c h = Inr h' \<and> tree h' p (JSON_ARRAY (v # vs)) (F \<union> G) \<and>
    (\<forall>x. x \<notin> F \<union> G \<longrightarrow> h_nodes h' x = h_nodes h x)"
proof -
  obtain n xs F1 where t: "F = insert p F1" "h_nodes h p = Some n" "n_tag n = TAG_ARRAY" "child_list h p xs"
    "trees h xs (List.map (\<lambda>v. (None, v)) vs) F1" "p \<notin> F1"
    using assms(1) by (auto simp: tree_array_iff)
  have k: "key_at h c = None" using assms(4,6) by (simp add: key_at_def)
  obtain h' y where h': "prepend_node p c h = Inr h'" "child_list h' p (c # xs)"
    "trees h' (c # xs) (List.map (\<lambda>v. (None, v)) (v # vs)) (F1 \<union> G)"
    "h_nodes h' p = Some (n\<lparr>n_payload := y\<rparr>)" "\<forall>x. x \<notin> insert p (F1 \<union> G) \<longrightarrow> h_nodes h' x = h_nodes h x"
    using prepend_node_trees [OF t(4,5,6) assms(2)] assms(3) t(1,2) k by (auto simp: Un_commute)
  have "tree h' p (JSON_ARRAY (v # vs)) (insert p (F1 \<union> G))"
    by (rule tree_trees.tree_array [OF h'(4) _ h'(2,3)]) (use t assms(3) in auto)
  then show ?thesis
    using h'(1,5) check_link_ok [OF t(2,3) assms(4,5)] t(1) by (auto simp: json_prepend_element_def)
qed

text \<open>Members: the value gets its key first, which is no part of its own tree.\<close>

lemma json_strdup_cstr: "0 \<notin> set k \<Longrightarrow> json_strdup (cstr k) = Inr k"
  unfolding json_strdup_def cstr_def by (subst takeWhile_append2) auto

lemma tree_set_key:
  assumes "tree h a v F" and "h_nodes h c = Some m"
  shows "tree (put_node c (m\<lparr>n_key := k\<rparr>) h) a v F \<or> c \<in> F - {a}"
proof (cases "c \<in> F - {a}")
  case False
  obtain n where "h_nodes h a = Some n" using tree_root [OF assms(1)] by blast
  then have "same_root h (put_node c (m\<lparr>n_key := k\<rparr>) h) a"
    using assms(2) by (auto simp: same_root_def)
  moreover have "\<forall>x \<in> F - {a}. h_nodes (put_node c (m\<lparr>n_key := k\<rparr>) h) x = h_nodes h x"
    using False by auto
  ultimately show ?thesis using tree_frame(1) [OF assms(1)] by blast
qed simp

lemma json_append_member_tree:
  assumes "tree h p (JSON_OBJECT ms) F" and "tree h c v G" and "F \<inter> G = {}"
    and "h_nodes h c = Some m" and "n_parent m = 0" and "0 \<notin> set k"
  shows "\<exists>h'. json_append_member p (cstr k) c h = Inr h' \<and> tree h' p (JSON_OBJECT (ms @ [(k, v)])) (F \<union> G) \<and>
    (\<forall>x. x \<notin> F \<union> G \<longrightarrow> h_nodes h' x = h_nodes h x)"
proof -
  define h0 where "h0 = put_node c (m\<lparr>n_key := Some k\<rparr>) h"
  have c: "c \<in> G" "c \<notin> F" using tree_root [OF assms(2)] assms(3) by auto
  have t0: "tree h0 p (JSON_OBJECT ms) F" "tree h0 c v G"
    using tree_set_key [OF assms(1,4), of "Some k"] tree_set_key [OF assms(2,4), of "Some k"] c
    by (auto simp: h0_def)
  obtain n xs F1 where t: "F = insert p F1" "h_nodes h0 p = Some n" "n_tag n = TAG_OBJECT" "child_list h0 p xs"
    "trees h0 xs (List.map (\<lambda>(k, v). (Some k, v)) ms) F1" "p \<notin> F1"
    using t0(1) by (auto simp: tree_object_iff)
  have k: "key_at h0 c = Some k" by (simp add: h0_def key_at_def)
  obtain h' y where h': "append_node p c h0 = Inr h'" "child_list h' p (xs @ [c])"
    "trees h' (xs @ [c]) (List.map (\<lambda>(k, v). (Some k, v)) (ms @ [(k, v)])) (F1 \<union> G)"
    "h_nodes h' p = Some (n\<lparr>n_payload := y\<rparr>)" "\<forall>x. x \<notin> insert p (F1 \<union> G) \<longrightarrow> h_nodes h' x = h_nodes h0 x"
    using append_node_trees [OF t(4,5,6) t0(2)] assms(3) t(1,2) k by auto
  have "tree h' p (JSON_OBJECT (ms @ [(k, v)])) (insert p (F1 \<union> G))"
    by (rule tree_trees.tree_object [OF h'(4) _ h'(2,3)]) (use t assms(3) in auto)
  moreover have "h_nodes h p = Some n" using t(1,2) c by (auto simp: h0_def)
  then have "json_append_member p (cstr k) c h = Inr h'"
    using h'(1) check_link_ok [OF _ t(3) assms(4,5)]
    by (simp add: json_append_member_def append_member_def json_strdup_cstr [OF assms(6)]
        set_node_simps [OF assms(4)] h0_def)
  moreover have "\<forall>x. x \<notin> F \<union> G \<longrightarrow> h_nodes h' x = h_nodes h x"
    using h'(5) c(1) t(1) by (auto simp: h0_def)
  ultimately show ?thesis using t(1) by auto
qed

section \<open>Checking\<close>

text \<open>A tree whose texts are valid passes \<^verbatim>\<open>json_check\<close>.\<close>

lemma check_node_ok:
  "key_at h a \<noteq> None \<longrightarrow> valid_text (the (key_at h a)) \<Longrightarrow> h_nodes h a = Some n \<Longrightarrow> n_tag n \<le> TAG_OBJECT \<Longrightarrow>
   n_tag n = TAG_STRING \<longrightarrow> (\<exists>s. n_payload n = String_P s \<and> valid_text s) \<Longrightarrow> check_node n = Inr None"
  by (auto simp: check_node_def key_at_def valid_text_def tag_is_valid_def split: option.splits)

lemma check_children_list:
  assumes "child_list h p (ys @ xs)" and "trees h xs kvs F"
    and "\<And>x v G fuel. tree h x v G \<Longrightarrow> x \<in> set xs \<Longrightarrow> card G \<le> card F \<Longrightarrow> 2 * card G \<le> fuel \<Longrightarrow>
      json_all valid_text (\<lambda>_. True) v \<Longrightarrow> key_at h x \<noteq> None \<longrightarrow> valid_text (the (key_at h x)) \<Longrightarrow>
      json_check fuel x h = Some (Inr None)"
    and "\<forall>(k, v) \<in> set kvs. json_all valid_text (\<lambda>_. True) v \<and> (k \<noteq> None \<longrightarrow> valid_text (the k)) \<and>
      (tag = TAG_ARRAY \<longrightarrow> k = None) \<and> (tag = TAG_OBJECT \<longrightarrow> k \<noteq> None)"
    and "2 * card F < fuel"
  shows "check_children fuel p tag (hd ((ys @ xs) @ [0])) (last (0 # ys @ xs)) (hd (xs @ [0])) (last (0 # ys)) h =
    Some (Inr None)"
  using assms
proof (induction xs arbitrary: ys kvs F fuel)
  case Nil
  then obtain fuel' where "fuel = Suc fuel'" by (cases fuel) auto
  then show ?case by simp
next
  case (Cons x xs)
  obtain fuel' where f: "fuel = Suc fuel'" using Cons.prems(5) by (cases fuel) auto
  obtain v G k kvs1 F1 where t: "F = G \<union> F1" "tree h x v G" "trees h xs kvs1 F1" "G \<inter> F1 = {}"
    "kvs = (k, v) # kvs1" "key_at h x = k"
    using Cons.prems(2) by (auto simp: trees_Cons_iff)
  have fin: "finite G" "finite F1" using t(2,3) by (auto intro: tree_finite)
  have card: "card F = card G + card F1" using t fin by (simp add: card_Un_disjoint)
  have x: "x \<in> G" "x \<noteq> 0" using tree_root [OF t(2)] by auto
  then have pos: "0 < card G" using fin by (auto simp: card_gt_0_iff)
  have d: "distinct (ys @ x # xs)" "0 \<notin> set (ys @ x # xs)" "p \<notin> set (ys @ x # xs)"
    and l: "links h p (last (0 # ys)) (x # xs) 0"
    using Cons.prems(1) by (auto simp: child_list_def links_append)
  obtain n where n: "h_nodes h x = Some n" "n_parent n = p" "n_next n = hd (xs @ [0])"
    using l by (auto split: option.splits)
  have k: "n_key n = k" using t(6) n(1) by (simp add: key_at_def)
  have nx: "n_next n \<noteq> x" "n_next n \<noteq> hd ((ys @ x # xs) @ [0])"
    using n(3) d by (cases xs; cases ys; auto)+
  have bk: "\<exists>m. h_nodes h (n_next n) = Some m \<and> n_prev m = x" if "n_next n \<noteq> 0"
    using that n(3) l by (cases xs) (auto split: option.splits)
  have child: "check_child p tag (hd ((ys @ x # xs) @ [0])) x h = Inr None"
    using d(3) n nx bk k Cons.prems(4) t(5) x
    by (cases "n_next n = 0") (auto simp: check_child_def node_at_def)
  have ok: "json_check fuel' x h = Some (Inr None)"
    by (rule Cons.prems(3) [OF t(2)]) (use Cons.prems(4,5) t(5,6) card f in auto)
  have "check_children fuel' p tag (hd (((ys @ [x]) @ xs) @ [0])) (last (0 # (ys @ [x]) @ xs)) (hd (xs @ [0]))
      (last (0 # ys @ [x])) h = Some (Inr None)"
  proof (rule Cons.IH [OF _ t(3)])
    show "child_list h p ((ys @ [x]) @ xs)" using Cons.prems(1) by simp
    show "json_check fuel y h = Some (Inr None)"
      if "tree h y v G" "y \<in> set xs" "card G \<le> card F1" "2 * card G \<le> fuel"
        "json_all valid_text (\<lambda>_. True) v" "key_at h y \<noteq> None \<longrightarrow> valid_text (the (key_at h y))" for y v G fuel
      using that(1) by (rule Cons.prems(3)) (use that card in auto)
    show "\<forall>(k, v) \<in> set kvs1. json_all valid_text (\<lambda>_. True) v \<and> (k \<noteq> None \<longrightarrow> valid_text (the k)) \<and>
        (tag = TAG_ARRAY \<longrightarrow> k = None) \<and> (tag = TAG_OBJECT \<longrightarrow> k \<noteq> None)"
      using Cons.prems(4) t(5) by auto
    show "2 * card F1 < fuel'" using Cons.prems(5) card f pos by simp
  qed
  then show ?case
    using f x(2) child ok n(1,3) by (simp add: node_at_def)
qed

lemma json_check_tree:
  "tree h a v F \<Longrightarrow> json_all valid_text (\<lambda>_. True) v \<Longrightarrow>
   key_at h a \<noteq> None \<longrightarrow> valid_text (the (key_at h a)) \<Longrightarrow> 2 * card F \<le> fuel \<Longrightarrow>
   json_check fuel a h = Some (Inr None)"
proof (induction "card F" arbitrary: a v F fuel rule: less_induct)
  case less
  have fin: "finite F" using less.prems(1) by (rule tree_finite)
  have a: "a \<in> F" "a \<noteq> 0" using tree_root [OF less.prems(1)] by auto
  then have "0 < card F" using fin by (auto simp: card_gt_0_iff)
  with less.prems(4) obtain fuel' where f: "fuel = Suc fuel'" "2 * card F \<le> Suc fuel'" by (cases fuel) auto
  have list: "json_check fuel a h = Some (Inr None)"
    if l: "h_nodes h a = Some n" "n_tag n = tag" "tag = TAG_ARRAY \<or> tag = TAG_OBJECT" "child_list h a xs"
      "trees h xs kvs G" "a \<notin> G" "F = insert a G"
      "\<forall>(k, v) \<in> set kvs. json_all valid_text (\<lambda>_. True) v \<and> (k \<noteq> None \<longrightarrow> valid_text (the k)) \<and>
        (tag = TAG_ARRAY \<longrightarrow> k = None) \<and> (tag = TAG_OBJECT \<longrightarrow> k \<noteq> None)" for n tag xs kvs G
  proof -
    have c: "card F = Suc (card G)" using l(6,7) fin by simp
    have ch: "children (n_payload n) = Inr (hd (xs @ [0]), last (0 # xs))"
      using child_list_node [OF l(4)] l(1) by auto
    have IH: "json_check fuel x h = Some (Inr None)"
      if "tree h x v K" "x \<in> set xs" "card K \<le> card G" "2 * card K \<le> fuel" "json_all valid_text (\<lambda>_. True) v"
        "key_at h x \<noteq> None \<longrightarrow> valid_text (the (key_at h x))" for x v K fuel
      by (rule less.hyps [OF _ that(1,5,6,4)]) (use that(3) c in simp)
    have "child_list h a ([] @ xs)" "2 * card G < fuel'" using l(4) c f(2) by simp_all
    from check_children_list [OF this(1) l(5) IH l(8) this(2)]
    have loop: "check_children fuel' a tag (hd (xs @ [0])) (last (0 # xs)) (hd (xs @ [0])) 0 h = Some (Inr None)"
      by simp
    have node: "check_node n = Inr None"
      using less.prems(3) l(1-3) by (intro check_node_ok [of h a]) auto
    show ?thesis
    proof (cases xs)
      case Nil
      with f(1) l(1-3) ch node show ?thesis by (auto simp: node_at_def)
    next
      case (Cons x xs')
      obtain m where "h_nodes h x = Some m" "n_prev m = 0" "x \<noteq> 0" "0 \<notin> set xs'"
        using l(4) Cons by (auto simp: child_list_def split: option.splits)
      moreover from this(3,4) have "last (0 # xs) \<noteq> 0"
        using Cons by (metis last.simps last_in_set list.distinct(1) set_ConsD)
      ultimately show ?thesis
        using f(1) l(1-3) ch node loop Cons by (auto simp: node_at_def)
    qed
  qed
  have leaf: "json_check fuel a h = Some (Inr None)"
    if "h_nodes h a = Some n" "n_tag n \<le> 3" "n_tag n = TAG_STRING \<longrightarrow> (\<exists>s. n_payload n = String_P s \<and> valid_text s)"
    for n
  proof -
    have "n_tag n \<noteq> TAG_ARRAY" "n_tag n \<noteq> TAG_OBJECT" "n_tag n \<le> TAG_OBJECT"
      using that(2) order_trans [OF that(2), of 5] by auto
    moreover from this(3) have "check_node n = Inr None"
      using less.prems(3) that(1,3) by (intro check_node_ok [of h a]) auto
    ultimately show ?thesis using f(1) that(1) by (simp add: node_at_def)
  qed
  from less.prems(1) show ?case
  proof (cases rule: tree.cases)
    case (tree_array m xs vs G)
    show ?thesis
      by (rule list [OF tree_array(3,4) _ tree_array(5-7,2)]) (use less.prems(2) tree_array(1) in auto)
  next
    case (tree_object m xs ms G)
    show ?thesis
      by (rule list [OF tree_object(3,4) _ tree_object(5-7,2)]) (use less.prems(2) tree_object(1) in auto)
  qed (use leaf less.prems(2) in auto)
qed

text \<open>
  A node that is its own grandparent is not found: the recursion follows the cycle for ever,
  whatever the fuel.
\<close>

definition two_cycle :: "'d heap" where
  "two_cycle = \<lparr>h_nodes = [1 \<mapsto> \<lparr>n_parent = 2, n_prev = 0, n_next = 0, n_key = None, n_tag = TAG_ARRAY,
       n_payload = Children 2 2\<rparr>,
     2 \<mapsto> \<lparr>n_parent = 1, n_prev = 0, n_next = 0, n_key = None, n_tag = TAG_ARRAY,
       n_payload = Children 1 1\<rparr>], h_fresh = 3\<rparr>"

lemma json_check_two_cycle:
  "json_check fuel 1 (two_cycle :: 'd heap) = None \<and> json_check fuel 2 (two_cycle :: 'd heap) = None"
proof (induction fuel rule: less_induct)
  case (less fuel)
  have c: "check_child 1 4 2 2 (two_cycle :: 'd heap) = Inr None"
    "check_child 2 4 1 1 (two_cycle :: 'd heap) = Inr None"
    by (simp_all add: check_child_def two_cycle_def node_at_def)
  show ?case
  proof (cases fuel)
    case (Suc f)
    show ?thesis
    proof (cases f)
      case 0
      with Suc show ?thesis
        by (simp add: two_cycle_def node_at_def check_node_def tag_is_valid_def)
    next
      case (Suc g)
      have "json_check g 1 (two_cycle :: 'd heap) = None" "json_check g 2 (two_cycle :: 'd heap) = None"
        using less [of g] \<open>fuel = Suc f\<close> Suc by simp_all
      with \<open>fuel = Suc f\<close> Suc c show ?thesis
        by (simp add: two_cycle_def node_at_def check_node_def tag_is_valid_def)
    qed
  qed simp
qed

end
