(* ===== verification/Zfp_Bitstream.thy ===== *)
theory Zfp_Bitstream
  imports Prelude
begin

text \<open>
  The bit stream of zfp, \<^verbatim>\<open>src/zfp-0.5.5/src/inline/bitstream.c\<close>, in its default build: words
  of 64 bits (\<^verbatim>\<open>BIT_STREAM_WORD_TYPE\<close> unset), not strided.  \<open>bs_mem\<close> is the caller's buffer from
  \<^verbatim>\<open>begin\<close> to \<^verbatim>\<open>end\<close>, \<open>bs_ptr\<close> is \<^verbatim>\<open>ptr - begin\<close>; a word read or written behind the buffer,
  which the C code does not check, is \<open>Out_Of_Bounds\<close>.  The loops over words of
  \<^verbatim>\<open>stream_read_bits\<close> and \<^verbatim>\<open>stream_write_bits\<close> run once for 64-bit words, because their condition
  \<^verbatim>\<open>sizeof(s->buffer) < sizeof(value)\<close> is false.

  The lemmas read a stream as the list of its bits: \<open>written\<close> for a stream being written,
  \<open>unread\<close> for a stream being read.
\<close>

type_synonym u64 = "64 word"

section \<open>The stream\<close>

record bitstream =
  bs_bits :: nat
  bs_buffer :: u64
  bs_ptr :: nat
  bs_mem :: "u64 list"

definition stream_read_word :: "bitstream \<Rightarrow> err + u64 \<times> bitstream" where
  "stream_read_word s =
     (if bs_ptr s < length (bs_mem s) then Inr (bs_mem s ! bs_ptr s, s\<lparr>bs_ptr := bs_ptr s + 1\<rparr>)
      else Inl Out_Of_Bounds)"

definition stream_write_word :: "bitstream \<Rightarrow> u64 \<Rightarrow> err + bitstream" where
  "stream_write_word s w =
     (if bs_ptr s < length (bs_mem s)
      then Inr (s\<lparr>bs_mem := (bs_mem s)[bs_ptr s := w], bs_ptr := bs_ptr s + 1\<rparr>)
      else Inl Out_Of_Bounds)"

definition stream_data :: "bitstream \<Rightarrow> u64 list" where
  "stream_data s = bs_mem s"

definition stream_size :: "bitstream \<Rightarrow> nat" where
  "stream_size s = 8 * bs_ptr s"

definition stream_capacity :: "bitstream \<Rightarrow> nat" where
  "stream_capacity s = 8 * length (bs_mem s)"

definition stream_stride_block :: "bitstream \<Rightarrow> nat" where
  "stream_stride_block s = 1"

definition stream_stride_delta :: "bitstream \<Rightarrow> int" where
  "stream_stride_delta s = 0"

definition stream_read_bit :: "bitstream \<Rightarrow> err + u32 \<times> bitstream" where
  "stream_read_bit s =
     bind_res (if bs_bits s = 0
               then bind_res (stream_read_word s) (\<lambda>(w, s). Inr (s\<lparr>bs_buffer := w, bs_bits := 64\<rparr>))
               else Inr s) (\<lambda>s.
       let s = s\<lparr>bs_bits := bs_bits s - 1\<rparr>;
           b = ucast (bs_buffer s) AND 1
       in Inr (b, s\<lparr>bs_buffer := drop_bit 1 (bs_buffer s)\<rparr>))"

definition stream_write_bit :: "bitstream \<Rightarrow> u32 \<Rightarrow> err + u32 \<times> bitstream" where
  "stream_write_bit s b =
     (let s = s\<lparr>bs_buffer := bs_buffer s + push_bit (bs_bits s) (ucast b), bs_bits := bs_bits s + 1\<rparr>
      in if bs_bits s = 64
         then bind_res (stream_write_word s (bs_buffer s)) (\<lambda>s.
                Inr (b, s\<lparr>bs_buffer := 0, bs_bits := 0\<rparr>))
         else Inr (b, s))"

definition stream_read_bits :: "bitstream \<Rightarrow> nat \<Rightarrow> err + u64 \<times> bitstream" where
  "stream_read_bits s n =
     (let v = bs_buffer s
      in if bs_bits s < n
         then bind_res (stream_read_word s) (\<lambda>(w, s).
                let v = v + push_bit (bs_bits s) w;
                    s = s\<lparr>bs_buffer := w, bs_bits := bs_bits s + 64\<rparr>;
                    s = s\<lparr>bs_bits := bs_bits s - n\<rparr>
                in if bs_bits s = 0 then Inr (v, s\<lparr>bs_buffer := 0\<rparr>)
                   else Inr (v AND (push_bit (n - 1) 2 - 1),
                             s\<lparr>bs_buffer := drop_bit (64 - bs_bits s) (bs_buffer s)\<rparr>))
         else Inr (v AND (push_bit n 1 - 1),
                   s\<lparr>bs_bits := bs_bits s - n, bs_buffer := drop_bit n (bs_buffer s)\<rparr>))"

definition stream_write_bits :: "bitstream \<Rightarrow> u64 \<Rightarrow> nat \<Rightarrow> err + u64 \<times> bitstream" where
  "stream_write_bits s v n =
     (let s = s\<lparr>bs_buffer := bs_buffer s + push_bit (bs_bits s) v, bs_bits := bs_bits s + n\<rparr>
      in bind_res
           (if 64 \<le> bs_bits s
            then let v = drop_bit 1 v;
                     n = n - 1;
                     s = s\<lparr>bs_bits := bs_bits s - 64\<rparr>
                 in bind_res (stream_write_word s (bs_buffer s)) (\<lambda>s.
                      Inr (v, n, s\<lparr>bs_buffer := drop_bit (n - bs_bits s) v\<rparr>))
            else Inr (v, n, s)) (\<lambda>(v, n, s).
         Inr (drop_bit n v, s\<lparr>bs_buffer := bs_buffer s AND (push_bit (bs_bits s) 1 - 1)\<rparr>)))"

definition stream_rtell :: "bitstream \<Rightarrow> nat" where
  "stream_rtell s = nat ((64 * int (bs_ptr s) - int (bs_bits s)) mod 2 ^ 64)"

definition stream_wtell :: "bitstream \<Rightarrow> nat" where
  "stream_wtell s = 64 * bs_ptr s + bs_bits s"

definition stream_rewind :: "bitstream \<Rightarrow> bitstream" where
  "stream_rewind s = s\<lparr>bs_ptr := 0, bs_buffer := 0, bs_bits := 0\<rparr>"

definition stream_rseek :: "bitstream \<Rightarrow> nat \<Rightarrow> err + bitstream" where
  "stream_rseek s offset =
     (let n = offset mod 64;
          s = s\<lparr>bs_ptr := offset div 64\<rparr>
      in if n \<noteq> 0
         then bind_res (stream_read_word s) (\<lambda>(w, s).
                Inr (s\<lparr>bs_buffer := drop_bit n w, bs_bits := 64 - n\<rparr>))
         else Inr (s\<lparr>bs_buffer := 0, bs_bits := 0\<rparr>))"

definition stream_wseek :: "bitstream \<Rightarrow> nat \<Rightarrow> err + bitstream" where
  "stream_wseek s offset =
     (let n = offset mod 64;
          s = s\<lparr>bs_ptr := offset div 64\<rparr>
      in if n \<noteq> 0
         then if bs_ptr s < length (bs_mem s)
              then let b = bs_mem s ! bs_ptr s;
                       b = b AND (push_bit n 1 - 1)
                   in Inr (s\<lparr>bs_buffer := b, bs_bits := n\<rparr>)
              else Inl Out_Of_Bounds
         else Inr (s\<lparr>bs_buffer := 0, bs_bits := 0\<rparr>))"

definition stream_skip :: "bitstream \<Rightarrow> nat \<Rightarrow> err + bitstream" where
  "stream_skip s n = stream_rseek s (stream_rtell s + n)"

text \<open>The loop of \<^verbatim>\<open>stream_pad\<close>; \<^verbatim>\<open>bits\<close> is an unsigned 32-bit integer, so adding \<open>n\<close> wraps around.\<close>

function pad_loop :: "bitstream \<Rightarrow> err + bitstream" where
  "pad_loop s =
     (if 64 \<le> bs_bits s
      then bind_res (stream_write_word s (bs_buffer s)) (\<lambda>s'.
             pad_loop (s'\<lparr>bs_buffer := 0, bs_bits := bs_bits s - 64\<rparr>))
      else Inr s)"
  by pat_completeness auto
termination
  by (relation "measure bs_bits") auto

declare pad_loop.simps [simp del]

definition stream_pad :: "bitstream \<Rightarrow> nat \<Rightarrow> err + bitstream" where
  "stream_pad s n = pad_loop (s\<lparr>bs_bits := (bs_bits s + n) mod 2 ^ 32\<rparr>)"

definition stream_align :: "bitstream \<Rightarrow> err + nat \<times> bitstream" where
  "stream_align s =
     (let bits = bs_bits s
      in bind_res (if bits \<noteq> 0 then stream_skip s bits else Inr s) (\<lambda>s. Inr (bits, s)))"

definition stream_flush :: "bitstream \<Rightarrow> err + nat \<times> bitstream" where
  "stream_flush s =
     (let bits = (64 - bs_bits s) mod 64
      in bind_res (if bits \<noteq> 0 then stream_pad s bits else Inr s) (\<lambda>s. Inr (bits, s)))"

text \<open>Copying; source and destination are different streams.\<close>

function stream_copy :: "bitstream \<Rightarrow> bitstream \<Rightarrow> nat \<Rightarrow> err + bitstream \<times> bitstream" where
  "stream_copy dst src n =
     (if 64 < n
      then bind_res (stream_read_bits src 64) (\<lambda>(w, src).
           bind_res (stream_write_bits dst w 64) (\<lambda>(_, dst).
             stream_copy dst src (n - 64)))
      else if n \<noteq> 0
      then bind_res (stream_read_bits src n) (\<lambda>(w, src).
           bind_res (stream_write_bits dst w n) (\<lambda>(_, dst). Inr (dst, src)))
      else Inr (dst, src))"
  by pat_completeness auto
termination
  by (relation "measure (\<lambda>(_, _, n). n)") auto

declare stream_copy.simps [simp del]

text \<open>\<^verbatim>\<open>stream_open\<close> over a buffer of \<open>bytes\<close> bytes that holds the words \<open>ws\<close>.\<close>

definition stream_open :: "u64 list \<Rightarrow> nat \<Rightarrow> bitstream" where
  "stream_open ws bytes =
     stream_rewind \<lparr>bs_bits = 0, bs_buffer = 0, bs_ptr = 0, bs_mem = take (bytes div 8) ws\<rparr>"

section \<open>Streams as lists of bits\<close>

definition word_bits :: "nat \<Rightarrow> u64 \<Rightarrow> bool list" where
  "word_bits n w = List.map (bit w) [0..<n]"

definition mem_bits :: "u64 list \<Rightarrow> bool list" where
  "mem_bits ws = concat (List.map (word_bits 64) ws)"

definition written :: "bitstream \<Rightarrow> bool list" where
  "written s = mem_bits (take (bs_ptr s) (bs_mem s)) @ word_bits (bs_bits s) (bs_buffer s)"

definition unread :: "bitstream \<Rightarrow> bool list" where
  "unread s = word_bits (bs_bits s) (bs_buffer s) @ mem_bits (drop (bs_ptr s) (bs_mem s))"

text \<open>The assertions in the comments of the source.\<close>

definition bs_ok :: "bitstream \<Rightarrow> bool" where
  "bs_ok s \<longleftrightarrow> bs_bits s < 64 \<and> take_bit (bs_bits s) (bs_buffer s) = bs_buffer s \<and>
     bs_ptr s \<le> length (bs_mem s)"

lemma length_word_bits [simp]: "length (word_bits n w) = n"
  by (simp add: word_bits_def)

lemma word_bits_0 [simp]: "word_bits 0 w = []"
  by (simp add: word_bits_def)

lemma nth_word_bits [simp]: "i < n \<Longrightarrow> word_bits n w ! i = bit w i"
  by (simp add: word_bits_def)

lemma word_bits_eq_iff: "word_bits n v = word_bits n w \<longleftrightarrow> take_bit n v = take_bit n w"
  using bit_imp_le_length [of v] bit_imp_le_length [of w]
  by (auto simp: list_eq_iff_nth_eq bit_eq_iff bit_take_bit_iff)

lemma word_bits_add: "word_bits (m + n) w = word_bits m w @ word_bits n (drop_bit m w)"
  by (rule nth_equalityI) (auto simp: nth_append bit_drop_bit_eq)

lemma take_word_bits: "m \<le> n \<Longrightarrow> take m (word_bits n w) = word_bits m w"
  by (rule nth_equalityI) auto

lemma drop_word_bits: "drop m (word_bits n w) = word_bits (n - m) (drop_bit m w)"
  by (rule nth_equalityI) (auto simp: bit_drop_bit_eq)

lemma word_bits_take_bit: "m \<le> n \<Longrightarrow> word_bits m (take_bit n w) = word_bits m w"
  by (rule nth_equalityI) (auto simp: bit_take_bit_iff)

lemma length_mem_bits [simp]: "length (mem_bits ws) = 64 * length ws"
  by (induction ws) (auto simp: mem_bits_def)

lemma mem_bits_simps [simp]:
  "mem_bits [] = []"
  "mem_bits (w # ws) = word_bits 64 w @ mem_bits ws"
  "mem_bits (vs @ ws) = mem_bits vs @ mem_bits ws"
  by (simp_all add: mem_bits_def)

lemma length_written: "bs_ptr s \<le> length (bs_mem s) \<Longrightarrow> length (written s) = stream_wtell s"
  by (simp add: written_def stream_wtell_def)

text \<open>\<^verbatim>\<open>(1 << n) - 1\<close> as a mask, and the buffer joined with what is put above it.\<close>

lemma mask_shift:
  "w AND (push_bit n 1 - 1) = take_bit n (w :: u64)"
  "w AND (2 ^ n - 1) = take_bit n w"
  "0 < n \<Longrightarrow> w AND (push_bit (n - 1) 2 - 1) = take_bit n w"
proof -
  show *: "w AND (push_bit n 1 - 1) = take_bit n w"
    by (simp add: take_bit_eq_mask mask_eq_exp_minus_1 push_bit_eq_mult)
  then show "w AND (2 ^ n - 1) = take_bit n w"
    by (simp add: push_bit_eq_mult)
  assume "0 < n"
  then have "push_bit (n - 1) 2 = push_bit n (1 :: u64)"
    by (cases n) (simp_all add: push_bit_eq_mult)
  with * show "w AND (push_bit (n - 1) 2 - 1) = take_bit n w" by simp
qed

lemma add_above:
  fixes b v :: u64
  assumes "take_bit m b = b"
  shows "b + push_bit m v = b OR push_bit m v"
proof (rule disjunctive_add_eq_or, rule bit_eqI)
  fix i
  have "\<not> bit b i" if "m \<le> i"
    using that by (subst assms [symmetric]) (simp add: bit_take_bit_iff)
  then show "bit (b AND push_bit m v) i = bit (0 :: u64) i"
    by (auto simp: bit_and_iff bit_push_bit_iff)
qed

lemma word_bits_join:
  fixes b v :: u64
  assumes "take_bit m b = b" and "m + n \<le> 64"
  shows "word_bits (m + n) (b + push_bit m v) = word_bits m b @ word_bits n v"
proof (rule nth_equalityI)
  fix i
  assume "i < length (word_bits (m + n) (b + push_bit m v))"
  then have i: "i < m + n" by simp
  have "\<not> bit b i" if "m \<le> i"
    using that by (subst assms(1) [symmetric]) (simp add: bit_take_bit_iff)
  with i assms(2) show "word_bits (m + n) (b + push_bit m v) ! i = (word_bits m b @ word_bits n v) ! i"
    by (auto simp: add_above [OF assms(1)] nth_append bit_or_iff bit_push_bit_iff)
qed simp

section \<open>Writing\<close>

lemma take_Suc_update: "i < length xs \<Longrightarrow> take (Suc i) (xs[i := x]) = take i xs @ [x]"
  by (simp add: take_Suc_conv_app_nth)

text \<open>Writing appends the low bits of the value and returns the bits above them.\<close>

lemma write_bits_ok:
  assumes ok: "bs_ok s" and n: "n \<le> 64"
    and room: "64 \<le> bs_bits s + n \<Longrightarrow> bs_ptr s < length (bs_mem s)"
  shows "\<exists>s'. stream_write_bits s v n = Inr (drop_bit n v, s') \<and> bs_ok s' \<and>
    written s' = written s @ word_bits n v \<and> length (bs_mem s') = length (bs_mem s) \<and>
    drop (bs_ptr s') (bs_mem s') = drop (bs_ptr s') (bs_mem s)"
proof -
  define m b where "m = bs_bits s" and "b = bs_buffer s"
  have mb: "m < 64" "take_bit m b = b" "bs_ptr s \<le> length (bs_mem s)"
    using ok by (simp_all add: bs_ok_def m_def b_def)
  let ?w = "b + push_bit m v"
  show ?thesis
  proof (cases "m + n < 64")
    case True
    let ?s = "s\<lparr>bs_bits := m + n, bs_buffer := take_bit (m + n) ?w\<rparr>"
    have "stream_write_bits s v n = Inr (drop_bit n v, ?s)"
      using True by (simp add: stream_write_bits_def Let_def mask_shift m_def b_def)
    moreover have "bs_ok ?s"
      using True mb by (simp add: bs_ok_def)
    moreover have "written ?s = written s @ word_bits n v"
      using True mb word_bits_join [of m b n v]
      by (simp add: written_def word_bits_take_bit m_def b_def)
    ultimately show ?thesis by (intro exI [of _ ?s]) simp
  next
    case False
    then have p: "bs_ptr s < length (bs_mem s)" using room by (simp add: m_def)
    let ?v = "drop_bit (64 - m) v" and ?k = "m + n - 64"
    let ?s = "s\<lparr>bs_mem := (bs_mem s)[bs_ptr s := ?w], bs_ptr := bs_ptr s + 1,
        bs_bits := ?k, bs_buffer := take_bit ?k ?v\<rparr>"
    have d: "drop_bit (n - Suc ?k) (drop_bit (Suc 0) v) = ?v" "drop_bit (n - Suc 0) (drop_bit (Suc 0) v) = drop_bit n v"
      using False mb n Suc_diff_le [of m 63] by (simp_all add: drop_bit_drop_bit)
    have "Suc (n - Suc 0 + 64 - (m + n)) = 64 - m"
      using False mb by simp
    then have "stream_write_bits s v n = Inr (drop_bit n v, ?s)"
      using False p d
      by (simp add: stream_write_bits_def stream_write_word_def Let_def mask_shift m_def b_def)
    moreover have "bs_ok ?s"
      using False mb p n by (simp add: bs_ok_def)
    moreover have "written ?s = written s @ word_bits n v"
    proof -
      have "word_bits 64 ?w = word_bits m b @ word_bits (64 - m) v"
        using word_bits_join [of m b "64 - m" v] mb by simp
      moreover have "word_bits n v = word_bits (64 - m) v @ word_bits ?k ?v"
        using False mb n word_bits_add [of "64 - m" ?k v] by simp
      ultimately show ?thesis
        using p by (simp add: written_def take_Suc_update word_bits_take_bit m_def b_def)
    qed
    ultimately show ?thesis by (intro exI [of _ ?s]) simp
  qed
qed

lemma write_bit_ok:
  assumes ok: "bs_ok s" and x: "x = 0 \<or> x = 1"
    and room: "bs_bits s = 63 \<Longrightarrow> bs_ptr s < length (bs_mem s)"
  shows "\<exists>s'. stream_write_bit s x = Inr (x, s') \<and> bs_ok s' \<and>
    written s' = written s @ [x = 1] \<and> length (bs_mem s') = length (bs_mem s) \<and>
    drop (bs_ptr s') (bs_mem s') = drop (bs_ptr s') (bs_mem s)"
proof -
  define m b where "m = bs_bits s" and "b = bs_buffer s"
  have mb: "m < 64" "take_bit m b = b" "bs_ptr s \<le> length (bs_mem s)"
    using ok by (simp_all add: bs_ok_def m_def b_def)
  let ?w = "b + push_bit m (ucast x)"
  have j: "word_bits (Suc m) ?w = word_bits m b @ [x = 1]"
    using word_bits_join [of m b 1 "ucast x"] mb x by (auto simp: word_bits_def)
  show ?thesis
  proof (cases "m = 63")
    case False
    have "take_bit (Suc m) ?w = ?w"
    proof (rule bit_eqI)
      fix i
      have "\<not> bit b i" if "m \<le> i"
        using that by (subst mb(2) [symmetric]) (simp add: bit_take_bit_iff)
      then show "bit (take_bit (Suc m) ?w) i = bit ?w i"
        using x by (auto simp: add_above [OF mb(2)] bit_or_iff bit_push_bit_iff bit_take_bit_iff bit_1_iff)
    qed
    with False j mb x show ?thesis
      by (intro exI [of _ "s\<lparr>bs_buffer := ?w, bs_bits := Suc m\<rparr>"])
        (simp add: stream_write_bit_def Let_def bs_ok_def written_def m_def b_def)
  next
    case True
    then have p: "bs_ptr s < length (bs_mem s)" using room by (simp add: m_def)
    with True j mb x show ?thesis
      by (intro exI [of _ "s\<lparr>bs_mem := (bs_mem s)[bs_ptr s := ?w], bs_ptr := bs_ptr s + 1,
          bs_buffer := 0, bs_bits := 0\<rparr>"])
        (simp add: stream_write_bit_def stream_write_word_def Let_def bs_ok_def written_def
          take_Suc_update m_def b_def)
  qed
qed

section \<open>Reading\<close>

lemma take_bit_drop_bit_same:
  "take_bit m b = b \<Longrightarrow> take_bit (m - n) (drop_bit n b) = drop_bit n (b :: u64)"
  by (metis drop_bit_take_bit)

lemma mem_bits_drop:
  "i < length ws \<Longrightarrow> mem_bits (drop i ws) = word_bits 64 (ws ! i) @ mem_bits (drop (Suc i) ws)"
  by (simp add: Cons_nth_drop_Suc [symmetric])

text \<open>Reading takes the next bits of the stream, least significant bit first.\<close>

lemma read_bits_ok:
  assumes ok: "bs_ok s" and n: "n \<le> 64" and len: "n \<le> length (unread s)"
  shows "\<exists>v s'. stream_read_bits s n = Inr (v, s') \<and> bs_ok s' \<and> bs_mem s' = bs_mem s \<and>
    take_bit n v = v \<and> unread s = word_bits n v @ unread s'"
proof -
  define m b where "m = bs_bits s" and "b = bs_buffer s"
  have mb: "m < 64" "take_bit m b = b" "bs_ptr s \<le> length (bs_mem s)"
    using ok by (simp_all add: bs_ok_def m_def b_def)
  show ?thesis
  proof (cases "m < n")
    case False
    let ?s = "s\<lparr>bs_bits := m - n, bs_buffer := drop_bit n b\<rparr>"
    have "stream_read_bits s n = Inr (take_bit n b, ?s)"
      using False by (simp add: stream_read_bits_def Let_def mask_shift m_def b_def)
    moreover have "bs_ok ?s"
      using mb by (simp add: bs_ok_def take_bit_drop_bit_same)
    moreover have "unread s = word_bits n (take_bit n b) @ unread ?s"
      using False word_bits_add [of n "m - n" b]
      by (simp add: unread_def word_bits_take_bit m_def b_def)
    ultimately show ?thesis
      by (intro exI [of _ "take_bit n b"] exI [of _ ?s]) simp
  next
    case True
    then have p: "bs_ptr s < length (bs_mem s)"
      using len mb by (auto simp: unread_def m_def)
    define w where "w = bs_mem s ! bs_ptr s"
    let ?v = "take_bit n (b + push_bit m w)"
    let ?s = "s\<lparr>bs_ptr := bs_ptr s + 1, bs_bits := m + 64 - n, bs_buffer := drop_bit (n - m) w\<rparr>"
    have "stream_read_bits s n = Inr (?v, ?s)"
    proof (cases "m + 64 - n = 0")
      case True
      with n mb have *: "m = 0" "n = 64" by auto
      with mb have "b = 0" by simp
      moreover have "take_bit 64 w = w" "drop_bit 64 w = 0"
        by (rule bit_eqI, auto simp: bit_take_bit_iff bit_drop_bit_eq dest: bit_imp_le_length)+
      ultimately show ?thesis
        using * p
        by (simp add: stream_read_bits_def stream_read_word_def Let_def m_def b_def w_def)
    next
      case False
      moreover from this n True mb have "64 - (m + 64 - n) = n - m" by simp
      ultimately show ?thesis
        using True p
        by (simp add: stream_read_bits_def stream_read_word_def Let_def mask_shift [unfolded One_nat_def]
          m_def b_def w_def)
    qed
    moreover have "bs_ok ?s"
    proof -
      have "take_bit (64 + m - n) (drop_bit (n - m) w) = drop_bit (n - m) w"
        using True n bit_imp_le_length [of w]
        by (intro bit_eqI) (force simp: bit_take_bit_iff bit_drop_bit_eq)
      with True mb p n show ?thesis by (simp add: bs_ok_def add.commute)
    qed
    moreover have "unread s = word_bits n ?v @ unread ?s"
    proof -
      have "word_bits n (b + push_bit m w) = word_bits m b @ word_bits (n - m) w"
        using word_bits_join [of m b "n - m" w] True n mb by simp
      moreover have "word_bits 64 w = word_bits (n - m) w @ word_bits (m + 64 - n) (drop_bit (n - m) w)"
        using True n word_bits_add [of "n - m" "m + 64 - n" w] by simp
      ultimately show ?thesis
        using p by (simp add: unread_def mem_bits_drop word_bits_take_bit m_def b_def w_def)
    qed
    ultimately show ?thesis
      by (intro exI [of _ ?v] exI [of _ ?s]) simp
  qed
qed

lemma read_bits_Inr:
  assumes "bs_ok s" and "n \<le> 64" and "unread s = word_bits n v @ r"
  shows "\<exists>s'. stream_read_bits s n = Inr (take_bit n v, s') \<and> bs_ok s' \<and>
    bs_mem s' = bs_mem s \<and> unread s' = r"
proof -
  have "n \<le> length (unread s)" using assms(3) by simp
  from read_bits_ok [OF assms(1,2) this]
  obtain u s' where "stream_read_bits s n = Inr (u, s')" "bs_ok s'" "bs_mem s' = bs_mem s"
    "take_bit n u = u" "unread s = word_bits n u @ unread s'" by blast
  moreover from this(5) assms(3) have "word_bits n u = word_bits n v" "unread s' = r"
    by simp_all
  ultimately show ?thesis by (auto simp: word_bits_eq_iff)
qed

lemma read_bit_ok:
  assumes ok: "bs_ok s" and len: "unread s = x # r"
  shows "\<exists>s'. stream_read_bit s = Inr (of_bool x, s') \<and> bs_ok s' \<and>
    bs_mem s' = bs_mem s \<and> unread s' = r"
proof -
  have low: "(ucast w :: u32) AND 1 = of_bool (bit w 0)" for w :: u64
    by (rule bit_eqI) (auto simp: bit_and_iff bit_1_iff bit_ucast_iff intro: gr0I)
  have *: "word_bits (Suc k) w = bit w 0 # word_bits k (drop_bit 1 w)" for k w
    using word_bits_add [of 1 k w] by (simp add: word_bits_def)
  show ?thesis
  proof (cases "bs_bits s")
    case (Suc k)
    let ?s = "s\<lparr>bs_bits := k, bs_buffer := drop_bit 1 (bs_buffer s)\<rparr>"
    have "stream_read_bit s = Inr (of_bool (bit (bs_buffer s) 0), ?s)"
      using Suc by (simp add: stream_read_bit_def Let_def low)
    moreover have "bs_ok ?s"
      using ok Suc take_bit_drop_bit_same [of "Suc k" "bs_buffer s" 1] by (simp add: bs_ok_def)
    ultimately show ?thesis
      using Suc len * [of k "bs_buffer s"] by (intro exI [of _ ?s]) (simp add: unread_def)
  next
    case 0
    then have p: "bs_ptr s < length (bs_mem s)"
      using len ok by (cases "bs_ptr s < length (bs_mem s)") (auto simp: unread_def bs_ok_def)
    let ?w = "bs_mem s ! bs_ptr s"
    let ?s = "s\<lparr>bs_ptr := bs_ptr s + 1, bs_bits := 63, bs_buffer := drop_bit 1 ?w\<rparr>"
    have "stream_read_bit s = Inr (of_bool (bit ?w 0), ?s)"
      using 0 p by (simp add: stream_read_bit_def stream_read_word_def Let_def low)
    moreover have "bs_ok ?s"
    proof -
      have "take_bit 63 (drop_bit 1 ?w) = drop_bit 1 ?w"
        using bit_imp_le_length [of ?w]
        by (intro bit_eqI) (force simp: bit_take_bit_iff bit_drop_bit_eq)
      with p show ?thesis by (simp add: bs_ok_def)
    qed
    ultimately show ?thesis
      using 0 p len * [of 63 ?w] by (intro exI [of _ ?s]) (simp add: unread_def mem_bits_drop)
  qed
qed

section \<open>Padding and flushing\<close>

lemma word_bits_pad:
  assumes "take_bit m b = b"
  shows "word_bits (m + n) b = word_bits m b @ replicate n False"
proof (rule nth_equalityI)
  fix i
  have "\<not> bit b i" if "m \<le> i"
    using that by (subst assms [symmetric]) (simp add: bit_take_bit_iff)
  moreover assume "i < length (word_bits (m + n) b)"
  ultimately show "word_bits (m + n) b ! i = (word_bits m b @ replicate n False) ! i"
    by (auto simp: nth_append)
qed simp

lemma word_bits_zero: "word_bits n 0 = replicate n False"
  by (rule nth_equalityI) auto

lemma pad_loop_ok:
  assumes "take_bit (bs_bits s) (bs_buffer s) = bs_buffer s"
    and "bs_ptr s + bs_bits s div 64 \<le> length (bs_mem s)"
  shows "\<exists>s'. pad_loop s = Inr s' \<and> bs_ok s' \<and> written s' = written s \<and>
    length (bs_mem s') = length (bs_mem s) \<and> drop (bs_ptr s') (bs_mem s') = drop (bs_ptr s') (bs_mem s) \<and>
    bs_ptr s \<le> bs_ptr s'"
  using assms
proof (induction s rule: pad_loop.induct)
  case (1 s)
  show ?case
  proof (cases "64 \<le> bs_bits s")
    case False
    with 1(2,3) show ?thesis
      by (subst pad_loop.simps) (auto simp: bs_ok_def)
  next
    case True
    then have "1 \<le> bs_bits s div 64" by (simp add: div_greater_zero_iff less_eq_div_iff_mult_less_eq)
    with 1(3) have p: "bs_ptr s < length (bs_mem s)" by simp
    let ?w = "s\<lparr>bs_mem := (bs_mem s)[bs_ptr s := bs_buffer s], bs_ptr := bs_ptr s + 1\<rparr>"
    let ?s = "?w\<lparr>bs_buffer := 0, bs_bits := bs_bits s - 64\<rparr>"
    have w: "stream_write_word s (bs_buffer s) = Inr ?w"
      using p by (simp add: stream_write_word_def)
    have "written ?s = written s"
    proof -
      have "take_bit 64 (bs_buffer s) = bs_buffer s"
        by (rule bit_eqI) (auto simp: bit_take_bit_iff dest: bit_imp_le_length)
      from word_bits_pad [OF this, of "bs_bits s - 64"] True
      have "word_bits (bs_bits s) (bs_buffer s) = word_bits 64 (bs_buffer s) @ replicate (bs_bits s - 64) False"
        by simp
      then show ?thesis
        using p by (simp add: written_def take_Suc_update word_bits_zero)
    qed
    moreover have "(bs_bits s - 64) div 64 = bs_bits s div 64 - 1"
      using True by (simp add: le_div_geq)
    then have "\<exists>s'. pad_loop ?s = Inr s' \<and> bs_ok s' \<and> written s' = written ?s \<and>
        length (bs_mem s') = length (bs_mem ?s) \<and> drop (bs_ptr s') (bs_mem s') = drop (bs_ptr s') (bs_mem ?s) \<and>
        bs_ptr ?s \<le> bs_ptr s'"
      by (intro 1(1) [OF True w]) (use p 1(3) \<open>1 \<le> bs_bits s div 64\<close> in simp_all)
    ultimately show ?thesis
      using True w by (subst pad_loop.simps) auto
  qed
qed

text \<open>Padding appends zeros, flushing appends those that fill the last word.\<close>

lemma stream_pad_ok:
  assumes "bs_ok s" and "bs_bits s + n < 2 ^ 32" and "stream_wtell s + n \<le> 64 * length (bs_mem s)"
  shows "\<exists>s'. stream_pad s n = Inr s' \<and> bs_ok s' \<and> written s' = written s @ replicate n False \<and>
    length (bs_mem s') = length (bs_mem s) \<and> drop (bs_ptr s') (bs_mem s') = drop (bs_ptr s') (bs_mem s)"
proof -
  let ?s = "s\<lparr>bs_bits := bs_bits s + n\<rparr>"
  have b: "take_bit (bs_bits s) (bs_buffer s) = bs_buffer s" using assms(1) by (simp add: bs_ok_def)
  then have "take_bit (bs_bits s + n) (bs_buffer s) = bs_buffer s"
    by (metis add.commute le_add2 min.absorb2 take_bit_take_bit)
  moreover have "bs_ptr s + (bs_bits s + n) div 64 \<le> length (bs_mem s)"
    using assms(3) by (simp add: stream_wtell_def)
  ultimately have "\<exists>s'. pad_loop ?s = Inr s' \<and> bs_ok s' \<and> written s' = written ?s \<and>
      length (bs_mem s') = length (bs_mem ?s) \<and> drop (bs_ptr s') (bs_mem s') = drop (bs_ptr s') (bs_mem ?s) \<and>
      bs_ptr ?s \<le> bs_ptr s'"
    by (intro pad_loop_ok) simp_all
  moreover have "written ?s = written s @ replicate n False"
    using word_bits_pad [OF b] by (simp add: written_def)
  ultimately show ?thesis
    using assms(2) by (auto simp: stream_pad_def)
qed

lemma stream_flush_ok:
  assumes "bs_ok s" and "bs_bits s \<noteq> 0 \<Longrightarrow> bs_ptr s < length (bs_mem s)"
  shows "\<exists>k s'. stream_flush s = Inr (k, s') \<and> k < 64 \<and> bs_ok s' \<and> bs_bits s' = 0 \<and>
    written s' = written s @ replicate k False \<and> length (bs_mem s') = length (bs_mem s) \<and>
    drop (bs_ptr s') (bs_mem s') = drop (bs_ptr s') (bs_mem s)"
proof (cases "bs_bits s = 0")
  case True
  with assms(1) show ?thesis by (auto simp: stream_flush_def)
next
  case False
  define k where "k = 64 - bs_bits s"
  have b: "bs_bits s < 64" using assms(1) by (simp add: bs_ok_def)
  with False have k: "(64 - bs_bits s) mod 64 = k" "k \<noteq> 0" "k < 64" "bs_bits s + k = 64"
    by (simp_all add: k_def)
  have "\<exists>s'. stream_pad s k = Inr s' \<and> bs_ok s' \<and> written s' = written s @ replicate k False \<and>
      length (bs_mem s') = length (bs_mem s) \<and> drop (bs_ptr s') (bs_mem s') = drop (bs_ptr s') (bs_mem s)"
    by (rule stream_pad_ok) (use assms False k in \<open>simp_all add: stream_wtell_def\<close>)
  then obtain s' where s': "stream_pad s k = Inr s'" "bs_ok s'" "written s' = written s @ replicate k False"
    "length (bs_mem s') = length (bs_mem s)" "drop (bs_ptr s') (bs_mem s') = drop (bs_ptr s') (bs_mem s)"
    by blast
  have "length (written s') = length (written s) + k" using s'(3) by simp
  moreover have "length (written s') = stream_wtell s'" "length (written s) = stream_wtell s"
    using s'(2) assms(1) by (auto intro: length_written simp: bs_ok_def)
  ultimately have "64 * bs_ptr s' + bs_bits s' = 64 * bs_ptr s + 64"
    using k by (simp add: stream_wtell_def)
  moreover have "bs_bits s' < 64" using s'(2) by (simp add: bs_ok_def)
  ultimately have "bs_bits s' = 0" by presburger
  with s' k show ?thesis by (auto simp: stream_flush_def)
qed

section \<open>Positions\<close>

lemma stream_rewind_ok [simp]:
  "bs_ok (stream_rewind s)" "unread (stream_rewind s) = mem_bits (bs_mem s)"
  "written (stream_rewind s) = []" "bs_mem (stream_rewind s) = bs_mem s"
  by (simp_all add: stream_rewind_def bs_ok_def unread_def written_def)

lemma mem_bits_split:
  "i \<le> length ws \<Longrightarrow> drop (64 * i) (mem_bits ws) = mem_bits (drop i ws)"
  "i \<le> length ws \<Longrightarrow> take (64 * i) (mem_bits ws) = mem_bits (take i ws)"
proof -
  assume "i \<le> length ws"
  moreover have "mem_bits ws = mem_bits (take i ws) @ mem_bits (drop i ws)"
    by (metis append_take_drop_id mem_bits_simps(3))
  ultimately show "drop (64 * i) (mem_bits ws) = mem_bits (drop i ws)"
    and "take (64 * i) (mem_bits ws) = mem_bits (take i ws)"
    by simp_all
qed

text \<open>A stream that is being read: its buffer holds the bits before its word pointer.\<close>

definition reading :: "bitstream \<Rightarrow> bool" where
  "reading s \<longleftrightarrow> bs_ok s \<and> bs_bits s \<le> 64 * bs_ptr s \<and> 64 * length (bs_mem s) < 2 ^ 64 \<and>
     unread s = drop (stream_rtell s) (mem_bits (bs_mem s))"

lemma stream_rtell_eq:
  assumes "bs_bits s \<le> 64 * bs_ptr s" and "bs_ptr s \<le> length (bs_mem s)" and "64 * length (bs_mem s) < 2 ^ 64"
  shows "stream_rtell s = 64 * bs_ptr s - bs_bits s"
proof -
  have "(64 * int (bs_ptr s) - int (bs_bits s)) mod 2 ^ 64 = 64 * int (bs_ptr s) - int (bs_bits s)"
    using assms by (intro mod_pos_pos_trivial) auto
  then show ?thesis by (simp add: stream_rtell_def)
qed

lemma stream_rseek_ok:
  assumes "offset \<le> 64 * length (bs_mem s)" and "64 * length (bs_mem s) < 2 ^ 64"
  shows "\<exists>s'. stream_rseek s offset = Inr s' \<and> reading s' \<and> bs_mem s' = bs_mem s \<and>
    stream_rtell s' = offset \<and> unread s' = drop offset (mem_bits (bs_mem s)) \<and>
    bs_bits s' = (64 - offset mod 64) mod 64"
proof -
  define q n where "q = offset div 64" and "n = offset mod 64"
  have off: "offset = 64 * q + n" "n < 64" by (simp_all add: q_def n_def)
  have d: "drop offset (mem_bits (bs_mem s)) = drop n (mem_bits (drop q (bs_mem s)))"
    using off assms(1) by (simp add: mem_bits_split [symmetric] add.commute)
  show ?thesis
  proof (cases "n = 0")
    case True
    let ?s = "s\<lparr>bs_ptr := q, bs_buffer := 0, bs_bits := 0\<rparr>"
    have "stream_rseek s offset = Inr ?s"
      using True by (simp add: stream_rseek_def Let_def q_def n_def)
    moreover have "stream_rtell ?s = offset"
      using True off assms by (subst stream_rtell_eq) simp_all
    moreover have "unread ?s = drop offset (mem_bits (bs_mem s))"
      using True d by (simp add: unread_def)
    ultimately show ?thesis
      using True off assms by (intro exI [of _ ?s]) (simp add: reading_def bs_ok_def)
  next
    case False
    then have q: "q < length (bs_mem s)" using off assms(1) by simp
    let ?w = "bs_mem s ! q"
    let ?s = "s\<lparr>bs_ptr := q + 1, bs_buffer := drop_bit n ?w, bs_bits := 64 - n\<rparr>"
    have "stream_rseek s offset = Inr ?s"
      using False q by (simp add: stream_rseek_def stream_read_word_def Let_def q_def n_def)
    moreover have "stream_rtell ?s = offset"
      using q off assms(2) by (subst stream_rtell_eq) simp_all
    moreover have "unread ?s = drop offset (mem_bits (bs_mem s))"
      unfolding d using q off by (simp add: unread_def mem_bits_drop drop_word_bits)
    moreover have "take_bit (64 - n) (drop_bit n ?w) = drop_bit n ?w"
    proof (rule bit_eqI)
      fix i
      have "n + i < 64" if "bit ?w (n + i)" using bit_imp_le_length [OF that] by simp
      then show "bit (take_bit (64 - n) (drop_bit n ?w)) i = bit (drop_bit n ?w) i"
        by (auto simp: bit_take_bit_iff bit_drop_bit_eq)
    qed
    ultimately show ?thesis
      using False q off assms(2) by (intro exI [of _ ?s]) (simp add: reading_def bs_ok_def)
  qed
qed

lemma stream_skip_ok:
  assumes "reading s" and "n \<le> length (unread s)"
  shows "\<exists>s'. stream_skip s n = Inr s' \<and> reading s' \<and> bs_mem s' = bs_mem s \<and>
    stream_rtell s' = stream_rtell s + n \<and> unread s' = drop n (unread s) \<and>
    bs_bits s' = (64 - (stream_rtell s + n) mod 64) mod 64"
proof -
  have r: "stream_rtell s \<le> 64 * length (bs_mem s)" "64 * length (bs_mem s) < 2 ^ 64"
    "unread s = drop (stream_rtell s) (mem_bits (bs_mem s))"
    using assms(1) by (auto simp: reading_def stream_rtell_eq bs_ok_def)
  have "stream_rtell s + n \<le> 64 * length (bs_mem s)"
    using assms(2) r by simp
  from stream_rseek_ok [OF this r(2)] show ?thesis
    by (simp add: stream_skip_def r(3) add.commute)
qed

text \<open>Aligning drops what is left of the current word.\<close>

lemma stream_align_ok:
  assumes "reading s"
  shows "\<exists>s'. stream_align s = Inr (bs_bits s, s') \<and> reading s' \<and> bs_bits s' = 0 \<and>
    bs_ptr s' = bs_ptr s \<and> bs_mem s' = bs_mem s \<and> unread s' = drop (bs_bits s) (unread s)"
proof (cases "bs_bits s = 0")
  case True
  with assms show ?thesis by (auto simp: stream_align_def)
next
  case False
  have r: "bs_bits s \<le> 64 * bs_ptr s" "bs_ptr s \<le> length (bs_mem s)" "64 * length (bs_mem s) < 2 ^ 64"
    using assms by (simp_all add: reading_def bs_ok_def)
  have t: "stream_rtell s + bs_bits s = 64 * bs_ptr s"
    using r by (simp add: stream_rtell_eq)
  have "bs_bits s \<le> length (unread s)" by (simp add: unread_def)
  from stream_skip_ok [OF assms this] obtain s' where s': "stream_skip s (bs_bits s) = Inr s'"
    "reading s'" "bs_mem s' = bs_mem s" "stream_rtell s' = 64 * bs_ptr s"
    "unread s' = drop (bs_bits s) (unread s)" "bs_bits s' = 0"
    by (auto simp: t)
  have "stream_rtell s' = 64 * bs_ptr s'"
    using s'(2,6) stream_rtell_eq [of s'] by (simp add: reading_def bs_ok_def)
  with s' False show ?thesis by (auto simp: stream_align_def)
qed

lemma stream_wseek_ok:
  assumes "offset \<le> 64 * length (bs_mem s)"
  shows "\<exists>s'. stream_wseek s offset = Inr s' \<and> bs_ok s' \<and> bs_mem s' = bs_mem s \<and>
    stream_wtell s' = offset \<and> written s' = take offset (mem_bits (bs_mem s))"
proof -
  define q n where "q = offset div 64" and "n = offset mod 64"
  have off: "offset = 64 * q + n" "n < 64" by (simp_all add: q_def n_def)
  show ?thesis
  proof (cases "n = 0")
    case True
    with off assms show ?thesis
      by (intro exI [of _ "s\<lparr>bs_ptr := q, bs_buffer := 0, bs_bits := 0\<rparr>"])
        (simp add: stream_wseek_def Let_def bs_ok_def stream_wtell_def written_def mem_bits_split)
  next
    case False
    then have q: "q < length (bs_mem s)" using off assms by simp
    let ?s = "s\<lparr>bs_ptr := q, bs_buffer := take_bit n (bs_mem s ! q), bs_bits := n\<rparr>"
    have "stream_wseek s offset = Inr ?s"
      using False q by (simp add: stream_wseek_def Let_def mask_shift q_def n_def)
    moreover have "take offset (mem_bits (bs_mem s)) = mem_bits (take q (bs_mem s)) @ word_bits n (bs_mem s ! q)"
      using q off by (simp add: take_add mem_bits_split mem_bits_drop take_word_bits)
    ultimately show ?thesis
      using q off by (intro exI [of _ ?s])
        (simp add: bs_ok_def stream_wtell_def written_def word_bits_take_bit)
  qed
qed

text \<open>Whatever takes bits from a stream that is being read leaves it in the reading state.\<close>

lemma reading_step:
  assumes "reading s" and "bs_ok s'" and "bs_mem s' = bs_mem s" and "unread s = c @ unread s'"
  shows "reading s' \<and> stream_rtell s' = stream_rtell s + length c"
proof -
  have s: "bs_ok s" "bs_bits s \<le> 64 * bs_ptr s" "64 * length (bs_mem s) < 2 ^ 64"
    "stream_rtell s = 64 * bs_ptr s - bs_bits s"
    "unread s = drop (stream_rtell s) (mem_bits (bs_mem s))"
    using assms(1) by (auto simp: reading_def stream_rtell_eq bs_ok_def)
  have "bs_ptr s \<le> length (bs_mem s)" "bs_ptr s' \<le> length (bs_mem s)"
    using s(1) assms(2,3) by (auto simp: bs_ok_def)
  moreover have "length (unread s) = length c + length (unread s')"
    using assms(4) by simp
  ultimately have e: "64 * bs_ptr s' + bs_bits s = length c + bs_bits s' + 64 * bs_ptr s"
    using assms(3) by (simp add: unread_def)
  have le: "bs_bits s' \<le> 64 * bs_ptr s'"
  proof (cases "bs_ptr s' = 0")
    case True
    have "bs_bits s < 64" using s(1) by (simp add: bs_ok_def)
    with e True have "bs_ptr s = 0" by simp
    with e True s(2) show ?thesis by simp
  next
    case False
    with assms(2) show ?thesis by (auto simp: bs_ok_def)
  qed
  then have "stream_rtell s' = 64 * bs_ptr s' - bs_bits s'"
    using s(3) assms(2,3) by (intro stream_rtell_eq) (simp_all add: bs_ok_def)
  with e s(2,4) le have t: "stream_rtell s' = stream_rtell s + length c" by simp
  have "unread s' = drop (length c) (unread s)" using assms(4) by simp
  with s assms(2,3) le t show ?thesis by (simp add: reading_def add.commute)
qed

lemma read_bits_reading:
  assumes "reading s" and "n \<le> 64" and "unread s = word_bits n v @ r"
  shows "\<exists>s'. stream_read_bits s n = Inr (take_bit n v, s') \<and> reading s' \<and>
    bs_mem s' = bs_mem s \<and> unread s' = r \<and> stream_rtell s' = stream_rtell s + n"
proof -
  have "bs_ok s" using assms(1) by (simp add: reading_def)
  then obtain s' where s': "stream_read_bits s n = Inr (take_bit n v, s')" "bs_ok s'"
    "bs_mem s' = bs_mem s" "unread s' = r"
    using read_bits_Inr [OF _ assms(2,3)] by blast
  have "reading s' \<and> stream_rtell s' = stream_rtell s + length (word_bits n v)"
    by (rule reading_step [OF assms(1) s'(2,3)]) (simp add: assms(3) s'(4))
  with s' show ?thesis by auto
qed

section \<open>One bit at a time\<close>

text \<open>The loop to which, the source says, \<^verbatim>\<open>stream_write_bits\<close> is equivalent but faster.\<close>

primrec write_each :: "bitstream \<Rightarrow> u64 \<Rightarrow> nat \<Rightarrow> err + u64 \<times> bitstream" where
  "write_each s v 0 = Inr (v, s)"
| "write_each s v (Suc n) =
     bind_res (stream_write_bit s (ucast v AND 1)) (\<lambda>(_, s). write_each s (drop_bit 1 v) n)"

lemma mem_bits_inj: "length vs = length ws \<Longrightarrow> mem_bits vs = mem_bits ws \<longleftrightarrow> vs = ws"
proof (induction vs ws rule: list_induct2)
  case (Cons v vs w ws)
  have "word_bits 64 v = word_bits 64 w \<longleftrightarrow> v = w"
    by (auto simp: word_bits_eq_iff take_bit_word_eq_self)
  with Cons show ?case by simp
qed simp

lemma stream_eqI:
  assumes "bs_ok s" and "bs_ok t" and "written s = written t" and "length (bs_mem s) = length (bs_mem t)"
    and "drop (bs_ptr s) (bs_mem s) = drop (bs_ptr t) (bs_mem t)"
  shows "s = t"
proof -
  have e: "64 * bs_ptr s + bs_bits s = 64 * bs_ptr t + bs_bits t"
    using assms(1-3) by (metis bs_ok_def length_written stream_wtell_def)
  have "bs_bits s < 64" "bs_bits t < 64" using assms(1,2) by (simp_all add: bs_ok_def)
  with e have "bs_ptr s = bs_ptr t" by linarith
  with e have p: "bs_ptr s = bs_ptr t" "bs_bits s = bs_bits t" by simp_all
  have w: "mem_bits (take (bs_ptr s) (bs_mem s)) = mem_bits (take (bs_ptr t) (bs_mem t))"
    "word_bits (bs_bits s) (bs_buffer s) = word_bits (bs_bits t) (bs_buffer t)"
    using assms(3,4) p by (simp_all add: written_def)
  have "take (bs_ptr s) (bs_mem s) = take (bs_ptr t) (bs_mem t)"
    using w(1) p assms(4) by (simp add: mem_bits_inj)
  with assms(5) have "bs_mem s = bs_mem t"
    by (metis append_take_drop_id)
  moreover have "bs_buffer s = bs_buffer t"
    using w(2) p assms(1,2) by (simp add: word_bits_eq_iff bs_ok_def)
  ultimately show ?thesis using p by simp
qed

lemma write_each_ok:
  assumes "bs_ok s" and "n \<le> 64" and "64 \<le> bs_bits s + n \<Longrightarrow> bs_ptr s < length (bs_mem s)"
  shows "\<exists>s'. write_each s v n = Inr (drop_bit n v, s') \<and> bs_ok s' \<and>
    written s' = written s @ word_bits n v \<and> length (bs_mem s') = length (bs_mem s) \<and>
    drop (bs_ptr s') (bs_mem s') = drop (bs_ptr s') (bs_mem s)"
  using assms
proof (induction n arbitrary: s v)
  case (Suc n)
  have low: "(ucast v :: u32) AND 1 = of_bool (bit v 0)"
    by (rule bit_eqI) (auto simp: bit_and_iff bit_1_iff bit_ucast_iff intro: gr0I)
  have one: "word_bits (Suc n) v = bit v 0 # word_bits n (drop_bit 1 v)"
    using word_bits_add [of 1 n v] by (simp add: word_bits_def)
  have "\<exists>t. stream_write_bit s (of_bool (bit v 0)) = Inr (of_bool (bit v 0), t) \<and> bs_ok t \<and>
      written t = written s @ [of_bool (bit v 0) = (1 :: u32)] \<and> length (bs_mem t) = length (bs_mem s) \<and>
      drop (bs_ptr t) (bs_mem t) = drop (bs_ptr t) (bs_mem s)"
    by (rule write_bit_ok) (use Suc.prems in auto)
  then obtain t where t: "stream_write_bit s (of_bool (bit v 0)) = Inr (of_bool (bit v 0), t)" "bs_ok t"
    "written t = written s @ [bit v 0]" "length (bs_mem t) = length (bs_mem s)"
    "drop (bs_ptr t) (bs_mem t) = drop (bs_ptr t) (bs_mem s)"
    by auto
  have "stream_wtell t = stream_wtell s + 1"
    using length_written [of t] length_written [of s] t(2,3) Suc.prems(1) by (simp add: bs_ok_def)
  then have p: "64 * bs_ptr t + bs_bits t = 64 * bs_ptr s + bs_bits s + 1"
    by (simp add: stream_wtell_def)
  have "bs_ptr t < length (bs_mem t)" if "64 \<le> bs_bits t + n"
  proof -
    have b: "bs_bits t < 64" "bs_bits s < 64" using t(2) Suc.prems(1) by (simp_all add: bs_ok_def)
    have "0 < bs_bits t" using that Suc.prems(2) by simp
    with p b have "bs_ptr t = bs_ptr s" by linarith
    with p that have "bs_ptr t = bs_ptr s" "64 \<le> bs_bits s + Suc n" by simp_all
    with Suc.prems(3) t(4) show ?thesis by simp
  qed
  then have "\<exists>s'. write_each t (drop_bit 1 v) n = Inr (drop_bit n (drop_bit 1 v), s') \<and> bs_ok s' \<and>
      written s' = written t @ word_bits n (drop_bit 1 v) \<and> length (bs_mem s') = length (bs_mem t) \<and>
      drop (bs_ptr s') (bs_mem s') = drop (bs_ptr s') (bs_mem t)"
    by (intro Suc.IH) (use t(2) Suc.prems(2) in simp_all)
  then obtain s' where s': "write_each t (drop_bit 1 v) n = Inr (drop_bit n (drop_bit 1 v), s')" "bs_ok s'"
    "written s' = written t @ word_bits n (drop_bit 1 v)" "length (bs_mem s') = length (bs_mem t)"
    "drop (bs_ptr s') (bs_mem s') = drop (bs_ptr s') (bs_mem t)" by blast
  have "bs_ptr t \<le> bs_ptr s'"
  proof -
    have "stream_wtell s' = stream_wtell t + n"
      using length_written [of t] length_written [of s'] t(2) s'(2,3) by (simp add: bs_ok_def)
    with s'(2) t(2) show ?thesis by (simp add: stream_wtell_def bs_ok_def)
  qed
  then have "drop (bs_ptr s') (bs_mem t) = drop (bs_ptr s') (bs_mem s)"
    using t(5) by (metis drop_drop le_add_diff_inverse2)
  with s' t show ?case
    by (intro exI [of _ s']) (simp add: low one drop_bit_drop_bit)
qed simp

text \<open>The equivalence stated in the comment at the head of the source.\<close>

lemma write_bits_eq_each:
  assumes "bs_ok s" and "n \<le> 64" and "64 \<le> bs_bits s + n \<Longrightarrow> bs_ptr s < length (bs_mem s)"
  shows "stream_write_bits s v n = write_each s v n"
proof -
  obtain s' where s': "stream_write_bits s v n = Inr (drop_bit n v, s')" "bs_ok s'"
    "written s' = written s @ word_bits n v" "length (bs_mem s') = length (bs_mem s)"
    "drop (bs_ptr s') (bs_mem s') = drop (bs_ptr s') (bs_mem s)"
    using write_bits_ok [OF assms] by blast
  obtain t where t: "write_each s v n = Inr (drop_bit n v, t)" "bs_ok t"
    "written t = written s @ word_bits n v" "length (bs_mem t) = length (bs_mem s)"
    "drop (bs_ptr t) (bs_mem t) = drop (bs_ptr t) (bs_mem s)"
    using write_each_ok [OF assms] by blast
  have "stream_wtell s' = stream_wtell t"
    using length_written [of t] length_written [of s'] t(2,3) s'(2,3) by (simp add: bs_ok_def)
  then have "bs_ptr s' = bs_ptr t"
    using s'(2) t(2) by (auto simp: stream_wtell_def bs_ok_def)
  then have "s' = t"
    by (intro stream_eqI) (use s' t in simp_all)
  with s' t show ?thesis by simp
qed

section \<open>The stream as a channel of bits\<close>

text \<open>
  What the code that writes and reads headers and blocks relies on: a sink to which values of
  at most 64 bits are appended, and a source from which they are taken.
\<close>

primrec put_all :: "('s \<Rightarrow> u64 \<Rightarrow> nat \<Rightarrow> err + u64 \<times> 's) \<Rightarrow> 's \<Rightarrow> (u64 \<times> nat) list \<Rightarrow> err + 's" where
  "put_all put s [] = Inr s"
| "put_all put s (x # xs) = bind_res (put s (fst x) (snd x)) (\<lambda>(_, s). put_all put s xs)"

primrec get_all :: "('s \<Rightarrow> nat \<Rightarrow> err + u64 \<times> 's) \<Rightarrow> 's \<Rightarrow> nat list \<Rightarrow> err + u64 list \<times> 's" where
  "get_all get s [] = Inr ([], s)"
| "get_all get s (n # ns) =
     bind_res (get s n) (\<lambda>(v, s). bind_res (get_all get s ns) (\<lambda>(vs, s). Inr (v # vs, s)))"

definition bits_of :: "(u64 \<times> nat) list \<Rightarrow> bool list" where
  "bits_of xs = concat (List.map (\<lambda>(v, n). word_bits n v) xs)"

lemma bits_of_simps [simp]:
  "bits_of [] = []"
  "bits_of ((v, n) # xs) = word_bits n v @ bits_of xs"
  "bits_of (xs @ ys) = bits_of xs @ bits_of ys"
  by (simp_all add: bits_of_def)

lemma length_bits_of: "length (bits_of xs) = sum_list (List.map snd xs)"
  by (induction xs) auto

lemma put_all_append: "put_all put s (xs @ ys) = bind_res (put_all put s xs) (\<lambda>s. put_all put s ys)"
  by (induction xs arbitrary: s) (auto simp: bind_res_assoc split_def)

locale bit_sink =
  fixes put :: "'s \<Rightarrow> u64 \<Rightarrow> nat \<Rightarrow> err + u64 \<times> 's"
    and inv :: "'s \<Rightarrow> bool"
    and content :: "'s \<Rightarrow> bool list"
    and space :: "'s \<Rightarrow> nat"
  assumes put_ok: "inv s \<Longrightarrow> n \<le> 64 \<Longrightarrow> n \<le> space s \<Longrightarrow>
    \<exists>s'. put s v n = Inr (drop_bit n v, s') \<and> inv s' \<and> content s' = content s @ word_bits n v \<and>
      space s' + n = space s"
begin

lemma put_all_ok:
  "inv s \<Longrightarrow> \<forall>x \<in> set xs. snd x \<le> 64 \<Longrightarrow> sum_list (List.map snd xs) \<le> space s \<Longrightarrow>
   \<exists>s'. put_all put s xs = Inr s' \<and> inv s' \<and> content s' = content s @ bits_of xs \<and>
     space s' + sum_list (List.map snd xs) = space s"
proof (induction xs arbitrary: s)
  case (Cons x xs)
  obtain v n where x: "x = (v, n)" by (cases x)
  have "n \<le> 64" "n \<le> space s" using Cons.prems x by simp_all
  from put_ok [OF Cons.prems(1) this, of v] obtain t where t: "put s v n = Inr (drop_bit n v, t)" "inv t"
    "content t = content s @ word_bits n v" "space t + n = space s" by blast
  have "\<exists>s'. put_all put t xs = Inr s' \<and> inv s' \<and> content s' = content t @ bits_of xs \<and>
      space s' + sum_list (List.map snd xs) = space t"
    by (rule Cons.IH) (use Cons.prems t x in auto)
  with t x show ?case by auto
qed simp

end

locale bit_source =
  fixes get :: "'s \<Rightarrow> nat \<Rightarrow> err + u64 \<times> 's"
    and inv :: "'s \<Rightarrow> bool"
    and content :: "'s \<Rightarrow> bool list"
  assumes get_ok: "inv s \<Longrightarrow> n \<le> 64 \<Longrightarrow> content s = word_bits n v @ r \<Longrightarrow>
    \<exists>s'. get s n = Inr (take_bit n v, s') \<and> inv s' \<and> content s' = r"
begin

lemma get_all_ok:
  "inv s \<Longrightarrow> \<forall>x \<in> set xs. snd x \<le> 64 \<Longrightarrow> content s = bits_of xs @ r \<Longrightarrow>
   \<exists>s'. get_all get s (List.map snd xs) = Inr (List.map (\<lambda>(v, n). take_bit n v) xs, s') \<and> inv s' \<and>
     content s' = r"
proof (induction xs arbitrary: s)
  case (Cons x xs)
  obtain v n where x: "x = (v, n)" by (cases x)
  have n: "n \<le> 64" "content s = word_bits n v @ (bits_of xs @ r)" using Cons.prems x by simp_all
  from get_ok [OF Cons.prems(1) this] obtain t where t: "get s n = Inr (take_bit n v, t)" "inv t"
    "content t = bits_of xs @ r" by blast
  have "\<exists>s'. get_all get t (List.map snd xs) = Inr (List.map (\<lambda>(v, n). take_bit n v) xs, s') \<and> inv s' \<and>
      content s' = r"
    by (rule Cons.IH) (use Cons.prems t in auto)
  with t x show ?case by auto
qed simp

end

definition room :: "bitstream \<Rightarrow> nat" where
  "room s = 64 * length (bs_mem s) - stream_wtell s"

lemma write_bits_room:
  assumes "bs_ok s" and "n \<le> 64" and "n \<le> room s"
  shows "\<exists>s'. stream_write_bits s v n = Inr (drop_bit n v, s') \<and> bs_ok s' \<and>
    written s' = written s @ word_bits n v \<and> room s' + n = room s \<and>
    length (bs_mem s') = length (bs_mem s)"
proof -
  have le: "bs_ptr s \<le> length (bs_mem s)" using assms(1) by (simp add: bs_ok_def)
  have "bs_ptr s < length (bs_mem s)" if "64 \<le> bs_bits s + n"
    using that le assms by (cases "bs_ptr s = length (bs_mem s)") (auto simp: room_def stream_wtell_def bs_ok_def)
  from write_bits_ok [OF assms(1,2) this] obtain s' where s': "stream_write_bits s v n = Inr (drop_bit n v, s')"
    "bs_ok s'" "written s' = written s @ word_bits n v" "length (bs_mem s') = length (bs_mem s)"
    by blast
  have "stream_wtell s' = stream_wtell s + n"
    using length_written [of s] length_written [of s'] s'(2,3) le by (simp add: bs_ok_def)
  with s' assms(3) show ?thesis by (auto simp: room_def)
qed

interpretation bs_sink: bit_sink stream_write_bits bs_ok written room
  by unfold_locales (meson write_bits_room)

interpretation bs_source: bit_source stream_read_bits bs_ok unread
  by unfold_locales (meson read_bits_Inr)

text \<open>A copy appends to the destination what it takes from the source.\<close>

lemma stream_copy_ok:
  assumes "bs_ok dst" and "bs_ok src" and "n \<le> length (unread src)" and "n \<le> room dst"
  shows "\<exists>dst' src'. stream_copy dst src n = Inr (dst', src') \<and> bs_ok dst' \<and> bs_ok src' \<and>
    written dst' = written dst @ take n (unread src) \<and> unread src' = drop n (unread src) \<and> room dst' + n = room dst"
  using assms
proof (induction dst src n rule: stream_copy.induct)
  case (1 dst src n)
  have step: "\<exists>v src' dst'. stream_read_bits src k = Inr (v, src') \<and>
      stream_write_bits dst v k = Inr (drop_bit k v, dst') \<and> bs_ok dst' \<and> bs_ok src' \<and>
      written dst' = written dst @ take k (unread src) \<and> unread src' = drop k (unread src) \<and>
      room dst' + k = room dst" if k: "k \<le> n" "k \<le> 64" for k
  proof -
    from read_bits_ok [of src k] 1(3-4) k obtain v src' where r: "stream_read_bits src k = Inr (v, src')"
      "bs_ok src'" "unread src = word_bits k v @ unread src'" by auto
    from write_bits_room [of dst k v] 1(2,5) k obtain dst' where
      "stream_write_bits dst v k = Inr (drop_bit k v, dst')" "bs_ok dst'"
      "written dst' = written dst @ word_bits k v" "room dst' + k = room dst" by auto
    with r show ?thesis by auto
  qed
  consider (many) "64 < n" | (few) "n \<noteq> 0" "n \<le> 64" | (none) "n = 0" by linarith
  then show ?case
  proof cases
    case none
    with 1(2,3) show ?thesis by (subst stream_copy.simps) simp
  next
    case few
    with step [of n] show ?thesis by (subst stream_copy.simps) auto
  next
    case many
    from step [of 64] many obtain v src' dst' where s: "stream_read_bits src 64 = Inr (v, src')"
      "stream_write_bits dst v 64 = Inr (drop_bit 64 v, dst')" "bs_ok dst'" "bs_ok src'"
      "written dst' = written dst @ take 64 (unread src)" "unread src' = drop 64 (unread src)"
      "room dst' + 64 = room dst" by auto
    have "\<exists>d s. stream_copy dst' src' (n - 64) = Inr (d, s) \<and> bs_ok d \<and> bs_ok s \<and>
        written d = written dst' @ take (n - 64) (unread src') \<and> unread s = drop (n - 64) (unread src') \<and>
        room d + (n - 64) = room dst'"
      by (rule 1(1) [OF many s(1) refl s(2) refl]) (use 1(4,5) many s in simp_all)
    moreover have "take n (unread src) = take 64 (unread src) @ take (n - 64) (drop 64 (unread src))"
      using many by (metis le_add_diff_inverse less_imp_le take_add)
    ultimately show ?thesis
      using many s by (subst stream_copy.simps) auto
  qed
qed

end
