(* ===== verification/Zfp_Field.thy ===== *)
theory Zfp_Field
  imports Zfp_Bitstream
begin

text \<open>
  Fields of zfp, the descriptions of the arrays that are compressed, after
  \<^verbatim>\<open>src/zfp-0.5.5/src/zfp.c\<close> and \<^verbatim>\<open>src/zfp-0.5.5/include/zfp.h\<close>: construction, access, sizes
  and strides, and the 52-bit description written to stream headers.  \<^verbatim>\<open>uint\<close> is \<^typ>\<open>u32\<close>,
  a signed \<^verbatim>\<open>int\<close> is an \<^typ>\<open>int\<close> and conversions to it are written out; a pointer is its address, 0 for
  \<^verbatim>\<open>NULL\<close>.
\<close>

section \<open>Types and fields\<close>

datatype zfp_type = zfp_type_none | zfp_type_int32 | zfp_type_int64 | zfp_type_float | zfp_type_double

fun type_code :: "zfp_type \<Rightarrow> u32" where
  "type_code zfp_type_none = 0"
| "type_code zfp_type_int32 = 1"
| "type_code zfp_type_int64 = 2"
| "type_code zfp_type_float = 3"
| "type_code zfp_type_double = 4"

text \<open>The cast \<^verbatim>\<open>(zfp_type)\<close> of a number; the source casts only numbers of the enumeration.\<close>

definition type_of_code :: "u64 \<Rightarrow> zfp_type" where
  "type_of_code c = (if c = 1 then zfp_type_int32 else if c = 2 then zfp_type_int64
     else if c = 3 then zfp_type_float else if c = 4 then zfp_type_double else zfp_type_none)"

fun type_precision :: "zfp_type \<Rightarrow> u32" where
  "type_precision zfp_type_int32 = 8 * 4"
| "type_precision zfp_type_int64 = 8 * 8"
| "type_precision zfp_type_float = 8 * 4"
| "type_precision zfp_type_double = 8 * 8"
| "type_precision zfp_type_none = 0"

fun zfp_type_size :: "zfp_type \<Rightarrow> nat" where
  "zfp_type_size zfp_type_int32 = 4"
| "zfp_type_size zfp_type_int64 = 8"
| "zfp_type_size zfp_type_float = 4"
| "zfp_type_size zfp_type_double = 8"
| "zfp_type_size zfp_type_none = 0"

record zfp_field =
  fd_type :: zfp_type
  nx :: u32
  ny :: u32
  nz :: u32
  nw :: u32
  sx :: int
  sy :: int
  sz :: int
  sw :: int
  fd_data :: nat

text \<open>\<open>avail\<close> says whether \<^verbatim>\<open>malloc\<close> succeeds.\<close>

definition zfp_field_alloc :: "bool \<Rightarrow> zfp_field option" where
  "zfp_field_alloc avail =
     (if avail
      then Some \<lparr>fd_type = zfp_type_none, nx = 0, ny = 0, nz = 0, nw = 0, sx = 0, sy = 0, sz = 0, sw = 0,
                 fd_data = 0\<rparr>
      else None)"

definition zfp_field_1d :: "bool \<Rightarrow> nat \<Rightarrow> zfp_type \<Rightarrow> u32 \<Rightarrow> zfp_field option" where
  "zfp_field_1d avail p t x =
     map_option (\<lambda>f. f\<lparr>fd_type := t, nx := x, fd_data := p\<rparr>) (zfp_field_alloc avail)"

definition zfp_field_2d :: "bool \<Rightarrow> nat \<Rightarrow> zfp_type \<Rightarrow> u32 \<Rightarrow> u32 \<Rightarrow> zfp_field option" where
  "zfp_field_2d avail p t x y =
     map_option (\<lambda>f. f\<lparr>fd_type := t, nx := x, ny := y, fd_data := p\<rparr>) (zfp_field_alloc avail)"

definition zfp_field_3d :: "bool \<Rightarrow> nat \<Rightarrow> zfp_type \<Rightarrow> u32 \<Rightarrow> u32 \<Rightarrow> u32 \<Rightarrow> zfp_field option" where
  "zfp_field_3d avail p t x y z =
     map_option (\<lambda>f. f\<lparr>fd_type := t, nx := x, ny := y, nz := z, fd_data := p\<rparr>) (zfp_field_alloc avail)"

definition zfp_field_4d :: "bool \<Rightarrow> nat \<Rightarrow> zfp_type \<Rightarrow> u32 \<Rightarrow> u32 \<Rightarrow> u32 \<Rightarrow> u32 \<Rightarrow> zfp_field option" where
  "zfp_field_4d avail p t x y z w =
     map_option (\<lambda>f. f\<lparr>fd_type := t, nx := x, ny := y, nz := z, nw := w, fd_data := p\<rparr>)
       (zfp_field_alloc avail)"

definition zfp_field_pointer :: "zfp_field \<Rightarrow> nat" where
  "zfp_field_pointer f = fd_data f"

definition zfp_field_type :: "zfp_field \<Rightarrow> zfp_type" where
  "zfp_field_type f = fd_type f"

definition zfp_field_precision :: "zfp_field \<Rightarrow> u32" where
  "zfp_field_precision f = type_precision (fd_type f)"

definition zfp_field_dimensionality :: "zfp_field \<Rightarrow> u32" where
  "zfp_field_dimensionality f =
     (if nx f \<noteq> 0 then if ny f \<noteq> 0 then if nz f \<noteq> 0 then if nw f \<noteq> 0 then 4 else 3 else 2 else 1 else 0)"

text \<open>A store into the caller's array.\<close>

definition arr_store :: "'a list \<Rightarrow> nat \<Rightarrow> 'a \<Rightarrow> err + 'a list" where
  "arr_store xs i v = (if i < length xs then Inr (xs[i := v]) else Inl Out_Of_Bounds)"

text \<open>
  The switches of \<^verbatim>\<open>zfp_field_size\<close> and \<^verbatim>\<open>zfp_field_stride\<close>: the case of dimension \<open>d\<close> falls
  through to all lower ones.
\<close>

definition store_dims :: "u32 \<Rightarrow> 'a \<Rightarrow> 'a \<Rightarrow> 'a \<Rightarrow> 'a \<Rightarrow> 'a list \<Rightarrow> err + 'a list" where
  "store_dims d x y z w a =
     bind_res (if d = 4 then arr_store a 3 w else Inr a) (\<lambda>a.
     bind_res (if d = 3 \<or> d = 4 then arr_store a 2 z else Inr a) (\<lambda>a.
     bind_res (if d = 2 \<or> d = 3 \<or> d = 4 then arr_store a 1 y else Inr a) (\<lambda>a.
       if d = 1 \<or> d = 2 \<or> d = 3 \<or> d = 4 then arr_store a 0 x else Inr a)))"

definition zfp_field_size :: "zfp_field \<Rightarrow> u32 list option \<Rightarrow> err + u64 \<times> u32 list option" where
  "zfp_field_size f a =
     bind_res (case a of None \<Rightarrow> Inr None
               | Some a \<Rightarrow> bind_res (store_dims (zfp_field_dimensionality f) (nx f) (ny f) (nz f) (nw f) a)
                   (\<lambda>a. Inr (Some a))) (\<lambda>a.
       Inr (ucast (max (nx f) 1) * ucast (max (ny f) 1) * ucast (max (nz f) 1) * ucast (max (nw f) 1), a))"

definition zfp_field_stride :: "zfp_field \<Rightarrow> int list option \<Rightarrow> err + bool \<times> int list option" where
  "zfp_field_stride f stride =
     bind_res (case stride of None \<Rightarrow> Inr None
               | Some a \<Rightarrow> bind_res (store_dims (zfp_field_dimensionality f)
                   (if sx f \<noteq> 0 then sx f else 1)
                   (if sy f \<noteq> 0 then sy f else sint (nx f))
                   (if sz f \<noteq> 0 then sz f else sint (nx f * ny f))
                   (if sw f \<noteq> 0 then sw f else sint (nx f * ny f * nz f)) a)
                   (\<lambda>a. Inr (Some a))) (\<lambda>stride.
       Inr (sx f \<noteq> 0 \<or> sy f \<noteq> 0 \<or> sz f \<noteq> 0 \<or> sw f \<noteq> 0, stride))"

definition zfp_field_set_pointer :: "zfp_field \<Rightarrow> nat \<Rightarrow> zfp_field" where
  "zfp_field_set_pointer f p = f\<lparr>fd_data := p\<rparr>"

fun zfp_field_set_type :: "zfp_field \<Rightarrow> zfp_type \<Rightarrow> zfp_type \<times> zfp_field" where
  "zfp_field_set_type f zfp_type_none = (zfp_type_none, f)"
| "zfp_field_set_type f t = (t, f\<lparr>fd_type := t\<rparr>)"

definition zfp_field_set_size_1d :: "zfp_field \<Rightarrow> u32 \<Rightarrow> zfp_field" where
  "zfp_field_set_size_1d f n = f\<lparr>nx := n, ny := 0, nz := 0, nw := 0\<rparr>"

definition zfp_field_set_size_2d :: "zfp_field \<Rightarrow> u32 \<Rightarrow> u32 \<Rightarrow> zfp_field" where
  "zfp_field_set_size_2d f x y = f\<lparr>nx := x, ny := y, nz := 0, nw := 0\<rparr>"

definition zfp_field_set_size_3d :: "zfp_field \<Rightarrow> u32 \<Rightarrow> u32 \<Rightarrow> u32 \<Rightarrow> zfp_field" where
  "zfp_field_set_size_3d f x y z = f\<lparr>nx := x, ny := y, nz := z, nw := 0\<rparr>"

definition zfp_field_set_size_4d :: "zfp_field \<Rightarrow> u32 \<Rightarrow> u32 \<Rightarrow> u32 \<Rightarrow> u32 \<Rightarrow> zfp_field" where
  "zfp_field_set_size_4d f x y z w = f\<lparr>nx := x, ny := y, nz := z, nw := w\<rparr>"

definition zfp_field_set_stride_1d :: "zfp_field \<Rightarrow> int \<Rightarrow> zfp_field" where
  "zfp_field_set_stride_1d f x = f\<lparr>sx := x, sy := 0, sz := 0, sw := 0\<rparr>"

definition zfp_field_set_stride_2d :: "zfp_field \<Rightarrow> int \<Rightarrow> int \<Rightarrow> zfp_field" where
  "zfp_field_set_stride_2d f x y = f\<lparr>sx := x, sy := y, sz := 0, sw := 0\<rparr>"

definition zfp_field_set_stride_3d :: "zfp_field \<Rightarrow> int \<Rightarrow> int \<Rightarrow> int \<Rightarrow> zfp_field" where
  "zfp_field_set_stride_3d f x y z = f\<lparr>sx := x, sy := y, sz := z, sw := 0\<rparr>"

definition zfp_field_set_stride_4d :: "zfp_field \<Rightarrow> int \<Rightarrow> int \<Rightarrow> int \<Rightarrow> int \<Rightarrow> zfp_field" where
  "zfp_field_set_stride_4d f x y z w = f\<lparr>sx := x, sy := y, sz := z, sw := w\<rparr>"

section \<open>The description in a header\<close>

definition ZFP_META_NULL :: u64 where
  "ZFP_META_NULL = - 1"

text \<open>\<^verbatim>\<open>meta <<= k; meta += v\<close>\<close>

definition pack :: "nat \<Rightarrow> u64 \<Rightarrow> u64 \<Rightarrow> u64" where
  "pack k v m = push_bit k m + v"

definition meta_dims :: "zfp_field \<Rightarrow> u64 option" where
  "meta_dims f =
     (if zfp_field_dimensionality f = 1 then
        if drop_bit 48 (ucast (nx f - 1) :: u64) \<noteq> 0 then None
        else Some (pack 48 (ucast (nx f - 1)) 0)
      else if zfp_field_dimensionality f = 2 then
        if drop_bit 24 (nx f - 1) \<noteq> 0 \<or> drop_bit 24 (ny f - 1) \<noteq> 0 then None
        else Some (pack 24 (ucast (nx f - 1)) (pack 24 (ucast (ny f - 1)) 0))
      else if zfp_field_dimensionality f = 3 then
        if drop_bit 16 (nx f - 1) \<noteq> 0 \<or> drop_bit 16 (ny f - 1) \<noteq> 0 \<or> drop_bit 16 (nz f - 1) \<noteq> 0 then None
        else Some (pack 16 (ucast (nx f - 1)) (pack 16 (ucast (ny f - 1)) (pack 16 (ucast (nz f - 1)) 0)))
      else if zfp_field_dimensionality f = 4 then
        if drop_bit 12 (nx f - 1) \<noteq> 0 \<or> drop_bit 12 (ny f - 1) \<noteq> 0 \<or> drop_bit 12 (nz f - 1) \<noteq> 0 \<or>
           drop_bit 12 (nw f - 1) \<noteq> 0 then None
        else Some (pack 12 (ucast (nx f - 1)) (pack 12 (ucast (ny f - 1)) (pack 12 (ucast (nz f - 1))
               (pack 12 (ucast (nw f - 1)) 0))))
      else Some 0)"

definition zfp_field_metadata :: "zfp_field \<Rightarrow> u64" where
  "zfp_field_metadata f =
     (case meta_dims f of None \<Rightarrow> ZFP_META_NULL
      | Some meta \<Rightarrow> pack 2 (ucast (type_code (fd_type f) - 1))
          (pack 2 (ucast (zfp_field_dimensionality f - 1)) meta))"

definition zfp_field_set_metadata :: "zfp_field \<Rightarrow> u64 \<Rightarrow> bool \<times> zfp_field" where
  "zfp_field_set_metadata f meta =
     (if drop_bit 52 meta \<noteq> 0 then (False, f)
      else
        let f = f\<lparr>fd_type := type_of_code ((meta AND 0x3) + 1)\<rparr>; meta = drop_bit 2 meta;
            dims = (meta AND 0x3) + 1; meta = drop_bit 2 meta;
            f = (if dims = 1 then
                   f\<lparr>nx := ucast ((meta AND 0x0000ffffffff) + 1), ny := 0, nz := 0, nw := 0\<rparr>
                 else if dims = 2 then
                   let x = ucast ((meta AND 0xffffff) + 1); meta = drop_bit 24 meta;
                       y = ucast ((meta AND 0xffffff) + 1); meta = drop_bit 24 meta
                   in f\<lparr>nx := x, ny := y, nz := 0, nw := 0\<rparr>
                 else if dims = 3 then
                   let x = ucast ((meta AND 0xffff) + 1); meta = drop_bit 16 meta;
                       y = ucast ((meta AND 0xffff) + 1); meta = drop_bit 16 meta;
                       z = ucast ((meta AND 0xffff) + 1); meta = drop_bit 16 meta
                   in f\<lparr>nx := x, ny := y, nz := z, nw := 0\<rparr>
                 else if dims = 4 then
                   let x = ucast ((meta AND 0xfff) + 1); meta = drop_bit 12 meta;
                       y = ucast ((meta AND 0xfff) + 1); meta = drop_bit 12 meta;
                       z = ucast ((meta AND 0xfff) + 1); meta = drop_bit 12 meta;
                       w = ucast ((meta AND 0xfff) + 1); meta = drop_bit 12 meta
                   in f\<lparr>nx := x, ny := y, nz := z, nw := w\<rparr>
                 else f)
        in (True, f\<lparr>sx := 0, sy := 0, sz := 0, sw := 0\<rparr>))"

section \<open>Packing and unpacking\<close>

lemma bit_above: "take_bit n w = w \<Longrightarrow> n \<le> i \<Longrightarrow> \<not> bit (w :: 'a::len word) i"
  by (metis bit_take_bit_iff not_less)

lemma drop_bit_eq_0_iff_take: "drop_bit n w = 0 \<longleftrightarrow> take_bit n w = (w :: 'a::len word)"
proof
  assume 0: "drop_bit n w = 0"
  have *: "\<not> bit w i" if "n \<le> i" for i
  proof -
    have "bit w i = bit (drop_bit n w) (i - n)" using that by (simp add: bit_drop_bit_eq)
    with 0 show ?thesis by simp
  qed
  show "take_bit n w = w"
  proof (rule bit_eqI)
    fix i
    show "bit (take_bit n w) i = bit w i"
      using * [of i] by (cases "n \<le> i") (auto simp: bit_take_bit_iff)
  qed
next
  assume "take_bit n w = w"
  then have "drop_bit n w = drop_bit n (take_bit n w)" by simp
  also have "\<dots> = 0" by (rule bit_eqI) (auto simp: bit_drop_bit_eq bit_take_bit_iff)
  finally show "drop_bit n w = 0" .
qed

lemma take_bit_mono: "take_bit m w = w \<Longrightarrow> m \<le> n \<Longrightarrow> take_bit n w = (w :: 'a::len word)"
  by (metis min.absorb2 take_bit_take_bit)

lemma take_bit_ucast:
  assumes "take_bit n w = w"
  shows "take_bit n (ucast (w :: u32) :: u64) = ucast w"
proof (rule bit_eqI)
  fix i
  show "bit (take_bit n (ucast w :: u64)) i = bit (ucast w :: u64) i"
    using bit_above [OF assms, of i] by (cases "n \<le> i") (auto simp: bit_take_bit_iff bit_ucast_iff)
qed

lemma bit_pack:
  assumes "take_bit k v = v"
  shows "bit (pack k v m) i \<longleftrightarrow> bit v i \<or> k \<le> i \<and> bit (push_bit k m) i"
  by (auto simp: pack_def add.commute add_above [OF assms] bit_or_iff bit_push_bit_iff)

lemma take_bit_pack: "take_bit k v = v \<Longrightarrow> take_bit k (pack k v m) = v"
proof (rule bit_eqI)
  fix i
  assume v: "take_bit k v = v"
  show "bit (take_bit k (pack k v m)) i = bit v i"
    using bit_above [OF v, of i] by (cases "k \<le> i") (auto simp: bit_take_bit_iff bit_pack [OF v])
qed

lemma drop_bit_pack:
  assumes v: "take_bit k v = v" and m: "take_bit j m = m" and jk: "j + k \<le> 64"
  shows "drop_bit k (pack k v m) = m"
proof (rule bit_eqI)
  fix i
  show "bit (drop_bit k (pack k v m)) i = bit m i"
    using jk bit_above [OF v, of "k + i"] bit_above [OF m, of i]
    by (cases "j \<le> i") (auto simp: bit_drop_bit_eq bit_pack [OF v] bit_push_bit_iff)
qed

lemma take_bit_pack_fits:
  assumes v: "take_bit k v = v" and m: "take_bit j m = m"
  shows "take_bit (k + j) (pack k v m) = pack k v m"
proof (rule bit_eqI)
  fix i
  show "bit (take_bit (k + j) (pack k v m)) i = bit (pack k v m) i"
    using bit_above [OF v, of i] bit_above [OF m, of "i - k"]
    by (cases "k + j \<le> i") (auto simp: bit_take_bit_iff bit_pack [OF v] bit_push_bit_iff)
qed

lemma and_masks:
  "w AND 0x3 = take_bit 2 (w :: u64)" "w AND 0xfff = take_bit 12 w" "w AND 0xffff = take_bit 16 w"
  "w AND 0xffffff = take_bit 24 w" "w AND 0x0000ffffffff = take_bit 32 w"
  by (simp_all add: take_bit_eq_mask mask_eq_exp_minus_1)

lemma ucast_inc: "(ucast ((ucast (x - 1 :: u32) :: u64) + 1) :: u32) = x"
proof -
  have "unat (x - 1) < 2 ^ 64" by (rule less_trans [OF unat_u32_less]) simp
  then have "unat (ucast (x - 1) :: u64) = unat (x - 1)"
    by (simp add: unsigned_ucast_eq take_bit_nat_eq_self)
  moreover have "unat (x - 1) + 1 < 2 ^ 64"
    by (rule le_less_trans [of _ 4294967296]) (use Suc_leI [OF unat_u32_less [of "x - 1"]] in simp_all)
  ultimately have "unat ((ucast (x - 1) :: u64) + 1) = unat (x - 1) + 1"
    by (simp add: unat_word_ariths)
  then have "(ucast ((ucast (x - 1) :: u64) + 1) :: u32) = word_of_nat (unat (x - 1) + 1)"
    by (metis of_nat_unat)
  also have "\<dots> = word_of_nat (unat (x - 1)) + 1" by simp
  also have "\<dots> = x" by simp
  finally show ?thesis .
qed

section \<open>Round trip of the description\<close>

text \<open>The sizes a description has room for: 32 bits for one dimension, else 24, 16 or 12.\<close>

definition meta_fits :: "zfp_field \<Rightarrow> bool" where
  "meta_fits f =
     (let d = zfp_field_dimensionality f; k = (if d = 1 then 32 else if d = 2 then 24 else if d = 3 then 16 else 12)
      in fd_type f \<noteq> zfp_type_none \<and> d \<noteq> 0 \<and>
         (\<forall>n \<in> set (take (unat d) [nx f, ny f, nz f, nw f]). unat (n - 1) < 2 ^ k))"

text \<open>The field \<open>g\<close> with the type and sizes of \<open>f\<close>, and without strides.\<close>

definition described :: "zfp_field \<Rightarrow> zfp_field \<Rightarrow> zfp_field" where
  "described f g =
     (let d = unat (zfp_field_dimensionality f)
      in g\<lparr>fd_type := fd_type f, nx := nx f, ny := if 2 \<le> d then ny f else 0, nz := if 3 \<le> d then nz f else 0,
           nw := if 4 \<le> d then nw f else 0, sx := 0, sy := 0, sz := 0, sw := 0\<rparr>)"

lemma unat_less_iff_take: "unat w < 2 ^ k \<longleftrightarrow> take_bit k w = (w :: 'a::len word)"
proof -
  have "take_bit k w = w \<longleftrightarrow> take_bit k (unat w) = unat w"
    by (metis unsigned_take_bit_eq unsigned_word_eqI)
  then show ?thesis by (simp add: take_bit_nat_eq_self_iff)
qed

lemma dims_cases:
  fixes f :: zfp_field
  obtains "zfp_field_dimensionality f = 0" "nx f = 0"
  | "zfp_field_dimensionality f = 1" "nx f \<noteq> 0" "ny f = 0"
  | "zfp_field_dimensionality f = 2" "nx f \<noteq> 0" "ny f \<noteq> 0" "nz f = 0"
  | "zfp_field_dimensionality f = 3" "nx f \<noteq> 0" "ny f \<noteq> 0" "nz f \<noteq> 0" "nw f = 0"
  | "zfp_field_dimensionality f = 4" "nx f \<noteq> 0" "ny f \<noteq> 0" "nz f \<noteq> 0" "nw f \<noteq> 0"
  unfolding zfp_field_dimensionality_def by (auto split: if_splits)

lemma type_code_back:
  "t \<noteq> zfp_type_none \<Longrightarrow> type_of_code (ucast (type_code t - 1) + 1) = t"
  "t \<noteq> zfp_type_none \<Longrightarrow> take_bit 2 (ucast (type_code t - 1) :: u64) = ucast (type_code t - 1)"
  by (cases t; simp add: type_of_code_def)+

lemma small_fits: "take_bit 2 0 = (0 :: u64)" "take_bit 2 1 = (1 :: u64)" "take_bit 2 2 = (2 :: u64)"
  "take_bit 2 3 = (3 :: u64)"
  by simp_all

text \<open>The last four bits of a description, and the 48 bits above them.\<close>

lemma meta_tail:
  assumes "take_bit 2 t = t" and "take_bit 2 d = d" and "take_bit 48 m = m"
  defines "meta \<equiv> pack 2 t (pack 2 d m)"
  shows "drop_bit 52 meta = 0" and "take_bit 2 meta = t" and "drop_bit 2 meta = pack 2 d m"
    and "take_bit 2 (pack 2 d m) = d" and "drop_bit 2 (pack 2 d m) = m" and "meta \<noteq> ZFP_META_NULL"
proof -
  have p: "take_bit 50 (pack 2 d m) = pack 2 d m"
    using take_bit_pack_fits [OF assms(2,3)] by simp
  then have "take_bit 52 meta = meta"
    unfolding meta_def using take_bit_pack_fits [OF assms(1) p] by simp
  then show 0: "drop_bit 52 meta = 0" by (simp add: drop_bit_eq_0_iff_take)
  show "take_bit 2 meta = t" unfolding meta_def by (rule take_bit_pack [OF assms(1)])
  show "drop_bit 2 meta = pack 2 d m"
    unfolding meta_def by (rule drop_bit_pack [OF assms(1) p]) simp
  show "take_bit 2 (pack 2 d m) = d" by (rule take_bit_pack [OF assms(2)])
  show "drop_bit 2 (pack 2 d m) = m" by (rule drop_bit_pack [OF assms(2,3)]) simp
  have "drop_bit 52 ZFP_META_NULL \<noteq> 0" by (simp add: ZFP_META_NULL_def)
  with 0 show "meta \<noteq> ZFP_META_NULL" by metis
qed

text \<open>The sizes packed \<open>k\<close> bits each, the last dimension first.\<close>

primrec pack_dims :: "nat \<Rightarrow> u32 list \<Rightarrow> u64" where
  "pack_dims k [] = 0"
| "pack_dims k (n # ns) = pack k (ucast (n - 1)) (pack_dims k ns)"

lemma pack_dims_fits:
  assumes "\<forall>n \<in> set ns. take_bit k (n - 1) = n - 1"
  shows "take_bit (k * length ns) (pack_dims k ns) = pack_dims k ns"
  using assms
proof (induction ns)
  case (Cons n ns)
  have "take_bit k (ucast (n - 1) :: u64) = ucast (n - 1)"
    using Cons.prems by (intro take_bit_ucast) simp
  from take_bit_pack_fits [OF this, of "k * length ns" "pack_dims k ns"] Cons show ?case by simp
qed simp

lemma pack_dims_first:
  assumes "\<forall>n \<in> set (n # ns). take_bit k (n - 1) = n - 1" and "k * length (n # ns) \<le> 64"
  shows "take_bit k (pack_dims k (n # ns)) = ucast (n - 1)" and "drop_bit k (pack_dims k (n # ns)) = pack_dims k ns"
proof -
  have n: "take_bit k (ucast (n - 1) :: u64) = ucast (n - 1)"
    using assms(1) by (intro take_bit_ucast) simp
  show "take_bit k (pack_dims k (n # ns)) = ucast (n - 1)" by (simp add: take_bit_pack [OF n])
  have "take_bit (k * length ns) (pack_dims k ns) = pack_dims k ns"
    using assms(1) by (intro pack_dims_fits) simp
  from drop_bit_pack [OF n this] assms(2) show "drop_bit k (pack_dims k (n # ns)) = pack_dims k ns"
    by (simp add: add.commute)
qed

lemma meta_dims_eq:
  "meta_fits f \<Longrightarrow> zfp_field_dimensionality f = 1 \<Longrightarrow> meta_dims f = Some (pack_dims 48 [nx f])"
  "meta_fits f \<Longrightarrow> zfp_field_dimensionality f = 2 \<Longrightarrow> meta_dims f = Some (pack_dims 24 [nx f, ny f])"
  "meta_fits f \<Longrightarrow> zfp_field_dimensionality f = 3 \<Longrightarrow> meta_dims f = Some (pack_dims 16 [nx f, ny f, nz f])"
  "meta_fits f \<Longrightarrow> zfp_field_dimensionality f = 4 \<Longrightarrow> meta_dims f = Some (pack_dims 12 [nx f, ny f, nz f, nw f])"
proof -
  have "drop_bit 48 (ucast (n - 1) :: u64) = 0" for n :: u32
  proof -
    have "take_bit 32 (ucast (n - 1) :: u64) = ucast (n - 1)"
      by (rule take_bit_ucast) (simp add: take_bit_word_eq_self)
    then show ?thesis by (auto simp: drop_bit_eq_0_iff_take intro: take_bit_mono)
  qed
  then show "meta_fits f \<Longrightarrow> zfp_field_dimensionality f = 1 \<Longrightarrow> meta_dims f = Some (pack_dims 48 [nx f])"
    by (simp add: meta_dims_def)
qed (simp_all add: meta_dims_def meta_fits_def Let_def unat_less_iff_take drop_bit_eq_0_iff_take)

lemma set_metadata_dims:
  assumes "take_bit 2 t = t" and "take_bit 2 d = d" and "take_bit 48 m = m"
  shows "zfp_field_set_metadata g (pack 2 t (pack 2 d m)) =
    (True, (let g = g\<lparr>fd_type := type_of_code (t + 1)\<rparr>; k = d + 1 in
       if k = 1 then g\<lparr>nx := ucast (take_bit 32 m + 1), ny := 0, nz := 0, nw := 0\<rparr>
       else if k = 2 then g\<lparr>nx := ucast (take_bit 24 m + 1), ny := ucast (take_bit 24 (drop_bit 24 m) + 1),
         nz := 0, nw := 0\<rparr>
       else if k = 3 then g\<lparr>nx := ucast (take_bit 16 m + 1), ny := ucast (take_bit 16 (drop_bit 16 m) + 1),
         nz := ucast (take_bit 16 (drop_bit 16 (drop_bit 16 m)) + 1), nw := 0\<rparr>
       else if k = 4 then g\<lparr>nx := ucast (take_bit 12 m + 1), ny := ucast (take_bit 12 (drop_bit 12 m) + 1),
         nz := ucast (take_bit 12 (drop_bit 12 (drop_bit 12 m)) + 1),
         nw := ucast (take_bit 12 (drop_bit 12 (drop_bit 12 (drop_bit 12 m))) + 1)\<rparr>
       else g)\<lparr>sx := 0, sy := 0, sz := 0, sw := 0\<rparr>)"
  unfolding zfp_field_set_metadata_def and_masks
  by (simp only: meta_tail [OF assms] Let_def if_False simp_thms not_False_eq_True cong: if_cong)

lemma metadata_roundtrip:
  assumes "meta_fits f"
  shows "zfp_field_metadata f \<noteq> ZFP_META_NULL \<and> drop_bit 52 (zfp_field_metadata f) = 0 \<and>
    zfp_field_set_metadata g (zfp_field_metadata f) = (True, described f g)"
proof -
  let ?t = "ucast (type_code (fd_type f) - 1) :: u64"
  have t: "take_bit 2 ?t = ?t" "type_of_code (?t + 1) = fd_type f"
    using assms by (simp_all add: meta_fits_def Let_def type_code_back)
  have d0: "zfp_field_dimensionality f \<noteq> 0" using assms by (simp add: meta_fits_def Let_def)
  show ?thesis
  proof (cases rule: dims_cases [of f])
    case 1
    with d0 show ?thesis by simp
  next
    case 2
    let ?m = "pack_dims 48 [nx f]"
    have fit: "\<forall>n \<in> set [nx f]. take_bit 32 (n - 1) = n - 1"
      by (simp add: take_bit_word_eq_self)
    then have fit48: "\<forall>n \<in> set [nx f]. take_bit 48 (n - 1) = n - 1"
      by (auto intro: take_bit_mono)
    have m: "take_bit 48 ?m = ?m" using pack_dims_fits [OF fit48] by simp
    have x: "take_bit 32 ?m = ucast (nx f - 1)"
      using take_bit_ucast [of 32 "nx f - 1"] fit by (simp add: pack_def)
    have e: "zfp_field_metadata f = pack 2 ?t (pack 2 0 ?m)"
      using 2 meta_dims_eq(1) [OF assms] by (simp add: zfp_field_metadata_def)
    from meta_tail [OF t(1) small_fits(1) m] set_metadata_dims [OF t(1) small_fits(1) m, of g] 2 t(2)
    show ?thesis unfolding e by (simp add: x ucast_inc described_def Let_def del: pack_dims.simps drop_bit_drop_bit)
  next
    case 3
    let ?m = "pack_dims 24 [nx f, ny f]"
    have fit: "\<forall>n \<in> set [nx f, ny f]. take_bit 24 (n - 1) = n - 1"
      using assms 3 by (simp add: meta_fits_def Let_def unat_less_iff_take)
    have m: "take_bit 48 ?m = ?m" using pack_dims_fits [OF fit] by simp
    have e: "zfp_field_metadata f = pack 2 ?t (pack 2 1 ?m)"
      using 3 meta_dims_eq(2) [OF assms] by (simp add: zfp_field_metadata_def)
    have x: "take_bit 24 ?m = ucast (nx f - 1)" "take_bit 24 (drop_bit 24 ?m) = ucast (ny f - 1)"
      using pack_dims_first [of "nx f" "[ny f]" 24] pack_dims_first [of "ny f" "[]" 24] fit by simp_all
    from meta_tail [OF t(1) small_fits(2) m] set_metadata_dims [OF t(1) small_fits(2) m, of g] 3 t(2)
    show ?thesis unfolding e by (simp add: x ucast_inc described_def Let_def del: pack_dims.simps drop_bit_drop_bit)
  next
    case 4
    let ?m = "pack_dims 16 [nx f, ny f, nz f]"
    have fit: "\<forall>n \<in> set [nx f, ny f, nz f]. take_bit 16 (n - 1) = n - 1"
      using assms 4 by (simp add: meta_fits_def Let_def unat_less_iff_take)
    have m: "take_bit 48 ?m = ?m" using pack_dims_fits [OF fit] by simp
    have e: "zfp_field_metadata f = pack 2 ?t (pack 2 2 ?m)"
      using 4 meta_dims_eq(3) [OF assms] by (simp add: zfp_field_metadata_def)
    have x: "take_bit 16 ?m = ucast (nx f - 1)" "take_bit 16 (drop_bit 16 ?m) = ucast (ny f - 1)"
      "take_bit 16 (drop_bit 16 (drop_bit 16 ?m)) = ucast (nz f - 1)"
      using pack_dims_first [of "nx f" "[ny f, nz f]" 16] pack_dims_first [of "ny f" "[nz f]" 16]
        pack_dims_first [of "nz f" "[]" 16] fit by simp_all
    from meta_tail [OF t(1) small_fits(3) m] set_metadata_dims [OF t(1) small_fits(3) m, of g] 4 t(2)
    show ?thesis unfolding e by (simp add: x ucast_inc described_def Let_def del: pack_dims.simps drop_bit_drop_bit)
  next
    case 5
    let ?m = "pack_dims 12 [nx f, ny f, nz f, nw f]"
    have fit: "\<forall>n \<in> set [nx f, ny f, nz f, nw f]. take_bit 12 (n - 1) = n - 1"
      using assms 5 by (simp add: meta_fits_def Let_def unat_less_iff_take)
    have m: "take_bit 48 ?m = ?m" using pack_dims_fits [OF fit] by simp
    have e: "zfp_field_metadata f = pack 2 ?t (pack 2 3 ?m)"
      using 5 meta_dims_eq(4) [OF assms] by (simp add: zfp_field_metadata_def)
    have x: "take_bit 12 ?m = ucast (nx f - 1)" "take_bit 12 (drop_bit 12 ?m) = ucast (ny f - 1)"
      "take_bit 12 (drop_bit 12 (drop_bit 12 ?m)) = ucast (nz f - 1)"
      "take_bit 12 (drop_bit 12 (drop_bit 12 (drop_bit 12 ?m))) = ucast (nw f - 1)"
      using pack_dims_first [of "nx f" "[ny f, nz f, nw f]" 12] pack_dims_first [of "ny f" "[nz f, nw f]" 12]
        pack_dims_first [of "nz f" "[nw f]" 12] pack_dims_first [of "nw f" "[]" 12] fit by simp_all
    from meta_tail [OF t(1) small_fits(4) m] set_metadata_dims [OF t(1) small_fits(4) m, of g] 5 t(2)
    show ?thesis unfolding e by (simp add: x ucast_inc described_def Let_def del: pack_dims.simps drop_bit_drop_bit)
  qed
qed

text \<open>Sizes without room in a description are reported, not truncated.\<close>

lemma metadata_overflow:
  assumes "fd_type f \<noteq> zfp_type_none" and "zfp_field_dimensionality f \<noteq> 0" and "\<not> meta_fits f"
  shows "zfp_field_metadata f = ZFP_META_NULL"
proof (cases rule: dims_cases [of f])
  case 2
  with assms show ?thesis by (simp add: meta_fits_def)
next
  case 3
  with assms show ?thesis
    by (simp add: meta_fits_def Let_def zfp_field_metadata_def meta_dims_def unat_less_iff_take drop_bit_eq_0_iff_take)
next
  case 4
  with assms show ?thesis
    by (simp add: meta_fits_def Let_def zfp_field_metadata_def meta_dims_def unat_less_iff_take drop_bit_eq_0_iff_take)
next
  case 5
  with assms show ?thesis
    by (simp add: meta_fits_def Let_def zfp_field_metadata_def meta_dims_def unat_less_iff_take drop_bit_eq_0_iff_take)
qed (use assms in simp)

end
