(* ===== verification/Zfp_Stream.thy ===== *)
theory Zfp_Stream
  imports Complex_Main Zfp_Field
begin

text \<open>
  Compressed streams of zfp, \<^verbatim>\<open>zfp_stream\<close> of \<^verbatim>\<open>src/zfp-0.5.5/include/zfp.h\<close> with its operations in
  \<^verbatim>\<open>src/zfp-0.5.5/src/zfp.c\<close>: the four parameters of the compression, the 12- or 64-bit number that
  encodes them, and the header that stores the field's description and this number in the bit stream.
  The library is built without CUDA; whether OpenMP is there is an argument.
\<close>

section \<open>Parameters\<close>

abbreviation ZFP_MIN_BITS :: u32 where "ZFP_MIN_BITS \<equiv> 1"
abbreviation ZFP_MAX_BITS :: u32 where "ZFP_MAX_BITS \<equiv> 16657"
abbreviation ZFP_MAX_PREC :: u32 where "ZFP_MAX_PREC \<equiv> 64"
abbreviation ZFP_MIN_EXP :: int where "ZFP_MIN_EXP \<equiv> - 1074"
abbreviation ZFP_MODE_SHORT_MAX :: u64 where "ZFP_MODE_SHORT_MAX \<equiv> 4094"

datatype zfp_exec_policy = zfp_exec_serial | zfp_exec_omp | zfp_exec_cuda

datatype zfp_mode = zfp_mode_null | zfp_mode_expert | zfp_mode_fixed_rate | zfp_mode_fixed_precision
  | zfp_mode_fixed_accuracy | zfp_mode_reversible

record zfp_stream =
  minbits :: u32
  maxbits :: u32
  maxprec :: u32
  minexp :: int
  zs_bits :: bitstream
  policy :: zfp_exec_policy
  omp_threads :: u32
  omp_chunk_size :: u32

definition is_reversible :: "zfp_stream \<Rightarrow> bool" where
  "is_reversible z \<longleftrightarrow> minexp z < ZFP_MIN_EXP"

text \<open>\<open>threads\<close> and \<open>chunk\<close> are what the fresh memory happens to hold.\<close>

definition zfp_stream_open :: "bool \<Rightarrow> u32 \<Rightarrow> u32 \<Rightarrow> bitstream \<Rightarrow> zfp_stream option" where
  "zfp_stream_open avail threads chunk s =
     (if avail
      then Some \<lparr>minbits = ZFP_MIN_BITS, maxbits = ZFP_MAX_BITS, maxprec = ZFP_MAX_PREC, minexp = ZFP_MIN_EXP,
                 zs_bits = s, policy = zfp_exec_serial, omp_threads = threads, omp_chunk_size = chunk\<rparr>
      else None)"

definition zfp_stream_bit_stream :: "zfp_stream \<Rightarrow> bitstream" where
  "zfp_stream_bit_stream z = zs_bits z"

definition zfp_stream_compression_mode :: "zfp_stream \<Rightarrow> zfp_mode" where
  "zfp_stream_compression_mode z =
     (if minbits z > maxbits z \<or> \<not> (0 < maxprec z \<and> maxprec z \<le> 64) then zfp_mode_null
      else if minbits z = ZFP_MIN_BITS \<and> maxbits z = ZFP_MAX_BITS \<and> maxprec z = ZFP_MAX_PREC \<and>
              minexp z = ZFP_MIN_EXP then zfp_mode_expert
      else if minbits z = maxbits z \<and> 1 \<le> maxbits z \<and> maxbits z \<le> ZFP_MAX_BITS \<and>
              maxprec z \<ge> ZFP_MAX_PREC \<and> minexp z = ZFP_MIN_EXP then zfp_mode_fixed_rate
      else if minbits z \<le> ZFP_MIN_BITS \<and> maxbits z \<ge> ZFP_MAX_BITS \<and> maxprec z \<ge> 1 \<and>
              minexp z = ZFP_MIN_EXP then zfp_mode_fixed_precision
      else if minbits z \<le> ZFP_MIN_BITS \<and> maxbits z \<ge> ZFP_MAX_BITS \<and> maxprec z \<ge> ZFP_MAX_PREC \<and>
              minexp z \<ge> ZFP_MIN_EXP then zfp_mode_fixed_accuracy
      else if minbits z \<le> ZFP_MIN_BITS \<and> maxbits z \<ge> ZFP_MAX_BITS \<and> maxprec z \<ge> ZFP_MAX_PREC \<and>
              minexp z < ZFP_MIN_EXP then zfp_mode_reversible
      else zfp_mode_expert)"

text \<open>The end of \<^verbatim>\<open>zfp_stream_mode\<close>: each parameter on its own.\<close>

definition long_mode :: "zfp_stream \<Rightarrow> u64" where
  "long_mode z =
     (let b = max 1 (min (minbits z) 0x8000) - 1;
          c = max 1 (min (maxbits z) 0x8000) - 1;
          p = max 1 (min (maxprec z) 0x0080) - 1;
          e = word_of_int (max 0 (min (minexp z + 16495) 0x7fff)) :: u32
      in pack 12 0xfff (pack 15 (ucast b) (pack 15 (ucast c) (pack 7 (ucast p) (pack 15 (ucast e) 0)))))"

definition zfp_stream_mode :: "zfp_stream \<Rightarrow> u64" where
  "zfp_stream_mode z =
     (case zfp_stream_compression_mode z of
        zfp_mode_fixed_rate \<Rightarrow> if maxbits z \<le> 2048 then ucast (maxbits z - 1) else long_mode z
      | zfp_mode_fixed_precision \<Rightarrow>
          if maxprec z \<le> 128 then ucast ((maxprec z - 1) + 2048) else long_mode z
      | zfp_mode_fixed_accuracy \<Rightarrow>
          if minexp z \<le> 843 then word_of_int ((minexp z - ZFP_MIN_EXP) + (2048 + 128 + 1)) else long_mode z
      | zfp_mode_reversible \<Rightarrow> 2048 + 128
      | _ \<Rightarrow> long_mode z)"

text \<open>The variables behind the pointer arguments that are not \<^verbatim>\<open>NULL\<close>.\<close>

definition zfp_stream_params ::
  "zfp_stream \<Rightarrow> u32 option \<Rightarrow> u32 option \<Rightarrow> u32 option \<Rightarrow> int option \<Rightarrow>
     u32 option \<times> u32 option \<times> u32 option \<times> int option" where
  "zfp_stream_params z b c p e =
     (map_option (\<lambda>_. minbits z) b, map_option (\<lambda>_. maxbits z) c, map_option (\<lambda>_. maxprec z) p,
      map_option (\<lambda>_. minexp z) e)"

definition zfp_stream_compressed_size :: "zfp_stream \<Rightarrow> nat" where
  "zfp_stream_compressed_size z = stream_size (zs_bits z)"

text \<open>The bound on the bits of a block that \<^verbatim>\<open>zfp_stream_maximum_size\<close> computes.\<close>

definition block_maxbits :: "zfp_stream \<Rightarrow> zfp_field \<Rightarrow> u32" where
  "block_maxbits z f =
     (let vals = push_bit (2 * unat (zfp_field_dimensionality f)) 1 :: u32;
          extra = (case fd_type f of
              zfp_type_float \<Rightarrow> 8 + (if is_reversible z then 5 else 0)
            | zfp_type_double \<Rightarrow> 11 + (if is_reversible z then 6 else 0)
            | _ \<Rightarrow> 0);
          m = 1 + extra + (vals - 1 + vals * min (maxprec z) (type_precision (fd_type f)));
          m = min m (maxbits z)
      in max m (minbits z))"

definition zfp_stream_maximum_size :: "zfp_stream \<Rightarrow> zfp_field \<Rightarrow> u64" where
  "zfp_stream_maximum_size z f =
     (let dims = zfp_field_dimensionality f;
          mx = (max (nx f) 1 + 3) div 4;
          my = (max (ny f) 1 + 3) div 4;
          mz = (max (nz f) 1 + 3) div 4;
          mw = (max (nw f) 1 + 3) div 4;
          blocks = ucast mx * ucast my * ucast mz * ucast mw :: u64
      in if dims = 0 then 0 else if fd_type f = zfp_type_none then 0
         else ((148 + blocks * ucast (block_maxbits z f) + 64 - 1) AND NOT (64 - 1)) div 8)"

definition zfp_stream_set_bit_stream :: "zfp_stream \<Rightarrow> bitstream \<Rightarrow> zfp_stream" where
  "zfp_stream_set_bit_stream z s = z\<lparr>zs_bits := s\<rparr>"

definition zfp_stream_set_reversible :: "zfp_stream \<Rightarrow> zfp_stream" where
  "zfp_stream_set_reversible z =
     z\<lparr>minbits := ZFP_MIN_BITS, maxbits := ZFP_MAX_BITS, maxprec := ZFP_MAX_PREC, minexp := ZFP_MIN_EXP - 1\<rparr>"

text \<open>
  \<^verbatim>\<open>zfp_stream_set_rate\<close>; \<open>bits\<close> is the floating-point result \<^verbatim>\<open>(uint)floor(n * rate + 0.5)\<close>.
  The rate it returns is \<^verbatim>\<open>(double)bits / n\<close>, a quotient that a double holds exactly.
\<close>

definition rate_bits :: "u32 \<Rightarrow> zfp_type \<Rightarrow> bool \<Rightarrow> u32" where
  "rate_bits bits t wra =
     (let bits = (case t of zfp_type_float \<Rightarrow> max bits (1 + 8) | zfp_type_double \<Rightarrow> max bits (1 + 11)
                  | _ \<Rightarrow> bits)
      in if wra then (bits + 64 - 1) AND NOT (64 - 1) else bits)"

definition zfp_stream_set_rate :: "zfp_stream \<Rightarrow> u32 \<Rightarrow> zfp_type \<Rightarrow> nat \<Rightarrow> bool \<Rightarrow> rat \<times> zfp_stream" where
  "zfp_stream_set_rate z bits t dims wra =
     (let n = 2 ^ (2 * dims);
          bits = rate_bits bits t wra
      in (of_nat (unat bits) / n,
          z\<lparr>minbits := bits, maxbits := bits, maxprec := ZFP_MAX_PREC, minexp := ZFP_MIN_EXP\<rparr>))"

definition zfp_stream_set_precision :: "zfp_stream \<Rightarrow> u32 \<Rightarrow> u32 \<times> zfp_stream" where
  "zfp_stream_set_precision z p =
     (let z = z\<lparr>minbits := ZFP_MIN_BITS, maxbits := ZFP_MAX_BITS,
                maxprec := if p \<noteq> 0 then min p ZFP_MAX_PREC else ZFP_MAX_PREC, minexp := ZFP_MIN_EXP\<rparr>
      in (maxprec z, z))"

definition zfp_stream_set_params :: "zfp_stream \<Rightarrow> u32 \<Rightarrow> u32 \<Rightarrow> u32 \<Rightarrow> int \<Rightarrow> bool \<times> zfp_stream" where
  "zfp_stream_set_params z b c p e =
     (if b > c \<or> \<not> (0 < p \<and> p \<le> 64) then (False, z)
      else (True, z\<lparr>minbits := b, maxbits := c, maxprec := p, minexp := e\<rparr>))"

definition mode_params :: "u64 \<Rightarrow> u32 \<times> u32 \<times> u32 \<times> int" where
  "mode_params mode =
     (if mode \<le> ZFP_MODE_SHORT_MAX then
        if mode < 2048 then (ucast mode + 1, ucast mode + 1, ZFP_MAX_PREC, ZFP_MIN_EXP)
        else if mode < 2048 + 128 then (ZFP_MIN_BITS, ZFP_MAX_BITS, ucast mode + 1 - 2048, ZFP_MIN_EXP)
        else if mode = 2048 + 128 then (ZFP_MIN_BITS, ZFP_MAX_BITS, ZFP_MAX_PREC, ZFP_MIN_EXP - 1)
        else (ZFP_MIN_BITS, ZFP_MAX_BITS, ZFP_MAX_PREC,
              sint ((ucast mode :: u32) + word_of_int ZFP_MIN_EXP - (2048 + 128 + 1)))
      else
        let mode = drop_bit 12 mode; b = ((ucast mode :: u32) AND 0x7fff) + 1;
            mode = drop_bit 15 mode; c = ((ucast mode :: u32) AND 0x7fff) + 1;
            mode = drop_bit 15 mode; p = ((ucast mode :: u32) AND 0x007f) + 1;
            mode = drop_bit 7 mode; e = sint (((ucast mode :: u32) AND 0x7fff) - 16495)
        in (b, c, p, e))"

definition zfp_stream_set_mode :: "zfp_stream \<Rightarrow> u64 \<Rightarrow> zfp_mode \<times> zfp_stream" where
  "zfp_stream_set_mode z mode =
     (case mode_params mode of (b, c, p, e) \<Rightarrow>
      case zfp_stream_set_params z b c p e of (ok, z) \<Rightarrow>
        if \<not> ok then (zfp_mode_null, z) else (zfp_stream_compression_mode z, z))"

definition zfp_stream_flush :: "zfp_stream \<Rightarrow> err + nat \<times> zfp_stream" where
  "zfp_stream_flush z = bind_res (stream_flush (zs_bits z)) (\<lambda>(n, s). Inr (n, z\<lparr>zs_bits := s\<rparr>))"

definition zfp_stream_align :: "zfp_stream \<Rightarrow> err + nat \<times> zfp_stream" where
  "zfp_stream_align z = bind_res (stream_align (zs_bits z)) (\<lambda>(n, s). Inr (n, z\<lparr>zs_bits := s\<rparr>))"

definition zfp_stream_rewind :: "zfp_stream \<Rightarrow> zfp_stream" where
  "zfp_stream_rewind z = z\<lparr>zs_bits := stream_rewind (zs_bits z)\<rparr>"

section \<open>Execution policy\<close>

definition zfp_stream_execution :: "zfp_stream \<Rightarrow> zfp_exec_policy" where
  "zfp_stream_execution z = policy z"

definition zfp_stream_omp_threads :: "zfp_stream \<Rightarrow> u32" where
  "zfp_stream_omp_threads z = omp_threads z"

definition zfp_stream_omp_chunk_size :: "zfp_stream \<Rightarrow> u32" where
  "zfp_stream_omp_chunk_size z = omp_chunk_size z"

definition zfp_stream_set_execution :: "bool \<Rightarrow> zfp_stream \<Rightarrow> zfp_exec_policy \<Rightarrow> bool \<times> zfp_stream" where
  "zfp_stream_set_execution openmp z p =
     (case p of
        zfp_exec_serial \<Rightarrow> (True, z\<lparr>policy := p\<rparr>)
      | zfp_exec_omp \<Rightarrow>
          if openmp
          then (True, (if policy z \<noteq> p then z\<lparr>omp_threads := 0, omp_chunk_size := 0\<rparr> else z)\<lparr>policy := p\<rparr>)
          else (False, z)
      | zfp_exec_cuda \<Rightarrow> (False, z))"

definition zfp_stream_set_omp_threads :: "bool \<Rightarrow> zfp_stream \<Rightarrow> u32 \<Rightarrow> bool \<times> zfp_stream" where
  "zfp_stream_set_omp_threads openmp z n =
     (case zfp_stream_set_execution openmp z zfp_exec_omp of (ok, z) \<Rightarrow>
        if \<not> ok then (False, z) else (True, z\<lparr>omp_threads := n\<rparr>))"

definition zfp_stream_set_omp_chunk_size :: "bool \<Rightarrow> zfp_stream \<Rightarrow> u32 \<Rightarrow> bool \<times> zfp_stream" where
  "zfp_stream_set_omp_chunk_size openmp z n =
     (case zfp_stream_set_execution openmp z zfp_exec_omp of (ok, z) \<Rightarrow>
        if \<not> ok then (False, z) else (True, z\<lparr>omp_chunk_size := n\<rparr>))"

section \<open>Headers\<close>

definition zs_write :: "zfp_stream \<Rightarrow> u64 \<Rightarrow> nat \<Rightarrow> err + zfp_stream" where
  "zs_write z v n = bind_res (stream_write_bits (zs_bits z) v n) (\<lambda>(_, s). Inr (z\<lparr>zs_bits := s\<rparr>))"

definition zs_read :: "zfp_stream \<Rightarrow> nat \<Rightarrow> err + u64 \<times> zfp_stream" where
  "zs_read z n = bind_res (stream_read_bits (zs_bits z) n) (\<lambda>(v, s). Inr (v, z\<lparr>zs_bits := s\<rparr>))"

abbreviation header_magic :: "u32 \<Rightarrow> bool" where "header_magic m \<equiv> m AND 1 \<noteq> 0"
abbreviation header_meta :: "u32 \<Rightarrow> bool" where "header_meta m \<equiv> m AND 2 \<noteq> 0"
abbreviation header_mode :: "u32 \<Rightarrow> bool" where "header_mode m \<equiv> m AND 4 \<noteq> 0"

definition zfp_codec_version :: u64 where
  "zfp_codec_version = 5"

definition zfp_write_header :: "zfp_stream \<Rightarrow> zfp_field \<Rightarrow> u32 \<Rightarrow> err + nat \<times> zfp_stream" where
  "zfp_write_header z f m =
     (let bits = 0;
          meta = (if header_meta m then zfp_field_metadata f else 0)
      in if header_meta m \<and> meta = ZFP_META_NULL then Inr (0, z)
         else
           bind_res (if header_magic m
                     then bind_res (zs_write z 122 8) (\<lambda>z.
                          bind_res (zs_write z 102 8) (\<lambda>z.
                          bind_res (zs_write z 112 8) (\<lambda>z.
                          bind_res (zs_write z zfp_codec_version 8) (\<lambda>z. Inr (bits + 32, z)))))
                     else Inr (bits, z)) (\<lambda>(bits, z).
           bind_res (if header_meta m
                     then bind_res (zs_write z meta 52) (\<lambda>z. Inr (bits + 52, z))
                     else Inr (bits, z)) (\<lambda>(bits, z).
             if header_mode m
             then let mode = zfp_stream_mode z;
                      k = (if mode > ZFP_MODE_SHORT_MAX then 64 else 12)
                  in bind_res (zs_write z mode k) (\<lambda>z. Inr (bits + k, z))
             else Inr (bits, z))))"

text \<open>The test of the magic number stops reading at the first byte that differs.\<close>

primrec read_magic :: "zfp_stream \<Rightarrow> u64 list \<Rightarrow> err + bool \<times> zfp_stream" where
  "read_magic z [] = Inr (True, z)"
| "read_magic z (c # cs) =
     bind_res (zs_read z 8) (\<lambda>(v, z). if v \<noteq> c then Inr (False, z) else read_magic z cs)"

definition zfp_read_header ::
  "zfp_stream \<Rightarrow> zfp_field \<Rightarrow> u32 \<Rightarrow> err + nat \<times> zfp_stream \<times> zfp_field" where
  "zfp_read_header z f m =
     (let bits = 0 in
      bind_res (if header_magic m then read_magic z [122, 102, 112, zfp_codec_version] else Inr (True, z))
        (\<lambda>(ok, z). if \<not> ok then Inr (0, z, f) else
      let bits = (if header_magic m then bits + 32 else bits) in
      bind_res (if header_meta m
                then bind_res (zs_read z 52) (\<lambda>(meta, z).
                       case zfp_field_set_metadata f meta of (ok, f) \<Rightarrow> Inr (ok, z, f))
                else Inr (True, z, f))
        (\<lambda>(ok, z, f). if \<not> ok then Inr (0, z, f) else
      let bits = (if header_meta m then bits + 52 else bits) in
        if header_mode m
        then bind_res (zs_read z 12) (\<lambda>(mode, z).
             bind_res (if mode > ZFP_MODE_SHORT_MAX
                       then bind_res (zs_read z 52) (\<lambda>(h, z). Inr (mode + push_bit 12 h, bits + 12 + 52, z))
                       else Inr (mode, bits + 12, z)) (\<lambda>(mode, bits, z).
               case zfp_stream_set_mode z mode of (r, z) \<Rightarrow>
                 if r = zfp_mode_null then Inr (0, z, f) else Inr (bits, z, f)))
        else Inr (bits, z, f))))"

section \<open>Round trip of the parameters\<close>

lemma unat_ucast_64 [simp]: "unat (ucast (w :: u32) :: u64) = unat w"
proof -
  have "unat w < 2 ^ 64" by (rule less_trans [OF unat_u32_less]) simp
  then show ?thesis by (simp add: unsigned_ucast_eq take_bit_nat_eq_self)
qed

lemma ucast_64_back [simp]: "ucast (ucast (w :: u32) :: u64) = w"
  by (rule ucast_up_ucast_id) (simp add: is_up)

text \<open>
  The parameters that the mode number stores: those of the short forms have the limits of the library
  where the mode does not depend on them.
\<close>

definition mode_canonical :: "zfp_stream \<Rightarrow> zfp_stream" where
  "mode_canonical z =
     (case zfp_stream_compression_mode z of
        zfp_mode_fixed_precision \<Rightarrow> z\<lparr>minbits := ZFP_MIN_BITS, maxbits := ZFP_MAX_BITS\<rparr>
      | zfp_mode_fixed_accuracy \<Rightarrow>
          if minexp z \<le> 843 then z\<lparr>minbits := ZFP_MIN_BITS, maxbits := ZFP_MAX_BITS\<rparr> else z
      | zfp_mode_reversible \<Rightarrow>
          z\<lparr>minbits := ZFP_MIN_BITS, maxbits := ZFP_MAX_BITS, minexp := ZFP_MIN_EXP - 1\<rparr>
      | _ \<Rightarrow> z)"

definition mode_encodable :: "zfp_stream \<Rightarrow> bool" where
  "mode_encodable z \<longleftrightarrow> zfp_stream_compression_mode z \<noteq> zfp_mode_null \<and> 1 \<le> minbits z \<and>
     maxbits z \<le> 0x8000 \<and> - 16495 \<le> minexp z \<and> minexp z \<le> 16272"

definition params_of :: "zfp_stream \<Rightarrow> u32 \<times> u32 \<times> u32 \<times> int" where
  "params_of z = (minbits z, maxbits z, maxprec z, minexp z)"

lemma mode_null_iff:
  "zfp_stream_compression_mode z = zfp_mode_null \<longleftrightarrow>
     minbits z > maxbits z \<or> \<not> (0 < maxprec z \<and> maxprec z \<le> 64)"
  unfolding zfp_stream_compression_mode_def by (auto split: if_splits)

lemma mode_not_null:
  assumes "zfp_stream_compression_mode z \<noteq> zfp_mode_null"
  shows "minbits z \<le> maxbits z" "0 < maxprec z" "maxprec z \<le> 64"
  using assms by (auto simp: zfp_stream_compression_mode_def split: if_splits)

lemma unat_dec:
  "1 \<le> w \<Longrightarrow> unat (w - 1) = unat w - 1" for w :: u32
  by (metis unat_1 unat_sub)

lemma take_bit_u32: "unat w < 2 ^ k \<Longrightarrow> take_bit k (ucast (w :: u32) :: u64) = ucast w"
  by (simp add: take_bit_ucast unat_less_iff_take)

lemma and_masks_u32: "w AND 0x7fff = take_bit 15 (w :: u32)" "w AND 0x007f = take_bit 7 w"
  by (simp_all add: take_bit_eq_mask mask_eq_exp_minus_1)

lemma low_of_pack:
  assumes "unat v < 2 ^ k" and "k \<le> 32"
  shows "take_bit k (ucast (pack k (ucast (v :: u32)) m) :: u32) = v"
proof (rule bit_eqI)
  fix i
  have v: "take_bit k v = v" "take_bit k (ucast v :: u64) = ucast v"
    using assms(1) by (simp_all add: unat_less_iff_take take_bit_u32)
  show "bit (take_bit k (ucast (pack k (ucast v) m) :: u32)) i = bit v i"
    using assms(2) bit_above [OF v(1), of i]
    by (cases "k \<le> i") (auto simp: bit_take_bit_iff bit_ucast_iff bit_pack [OF v(2)] bit_push_bit_iff)
qed

lemma sint_of_int: "- 2147483648 \<le> k \<Longrightarrow> k < 2147483648 \<Longrightarrow> sint (word_of_int k :: u32) = k"
  by (simp add: signed_of_int signed_take_bit_int_eq_self)

lemma mode_params_rate:
  assumes "1 \<le> b" and "b \<le> 2048"
  shows "mode_params (ucast (b - 1)) = (b, b, ZFP_MAX_PREC, ZFP_MIN_EXP)"
proof -
  have "unat b \<le> 2048" "1 \<le> unat b" using assms by (simp_all add: word_le_nat_alt)
  then have "(ucast (b - 1) :: u64) < 2048" "(ucast (b - 1) :: u64) \<le> ZFP_MODE_SHORT_MAX"
    using unat_dec [OF assms(1)] by (simp_all add: word_less_nat_alt word_le_nat_alt)
  then show ?thesis by (simp add: mode_params_def)
qed

lemma mode_params_precision:
  assumes "0 < p" and "p \<le> 64"
  shows "mode_params (ucast ((p - 1) + 2048)) = (ZFP_MIN_BITS, ZFP_MAX_BITS, p, ZFP_MIN_EXP)"
proof -
  have "1 \<le> p" using assms(1) by (simp add: word_le_nat_alt word_less_nat_alt)
  have p: "unat p \<le> 64" "1 \<le> unat p"
    using assms by (simp_all add: word_le_nat_alt word_less_nat_alt)
  have "unat ((p - 1) + 2048) = unat p + 2047"
    using p unat_dec [OF \<open>1 \<le> p\<close>] by (simp add: unat_word_ariths)
  then have "\<not> (ucast ((p - 1) + 2048) :: u64) < 2048" "(ucast ((p - 1) + 2048) :: u64) < 2176"
    "(ucast ((p - 1) + 2048) :: u64) \<le> ZFP_MODE_SHORT_MAX"
    using p by (simp_all add: word_less_nat_alt word_le_nat_alt)
  then show ?thesis by (simp add: mode_params_def)
qed

lemma mode_params_accuracy:
  assumes "ZFP_MIN_EXP \<le> e" and "e \<le> 843"
  shows "mode_params (word_of_int ((e - ZFP_MIN_EXP) + (2048 + 128 + 1))) =
    (ZFP_MIN_BITS, ZFP_MAX_BITS, ZFP_MAX_PREC, e)"
proof -
  define k where "k = nat (e + 3251)"
  have k: "int k = e + 3251" "2177 \<le> k" "k \<le> 4094" using assms by (simp_all add: k_def)
  have w: "(word_of_int ((e - ZFP_MIN_EXP) + (2048 + 128 + 1)) :: u64) = word_of_nat k"
    using k(1) by (simp flip: k(1) add: algebra_simps)
  have "unat (word_of_nat k :: u64) = k" using k(3) by (simp add: unat_of_nat take_bit_nat_eq_self)
  moreover from this have "(ucast (word_of_nat k :: u64) :: u32) = word_of_nat k"
    by (metis of_nat_unat)
  moreover have "sint ((word_of_nat k :: u32) + word_of_int ZFP_MIN_EXP - (2048 + 128 + 1)) = e"
  proof -
    have "(word_of_nat k :: u32) + word_of_int ZFP_MIN_EXP - (2048 + 128 + 1) = word_of_int (int k - 3251)"
      by simp
    then show ?thesis using k assms by (simp add: sint_of_int)
  qed
  moreover from \<open>unat (word_of_nat k :: u64) = k\<close> have "word_of_nat k \<noteq> (2176 :: u64)"
    using k(2) by (auto dest!: arg_cong [of _ _ unat])
  ultimately show ?thesis
    using k unfolding w by (simp add: mode_params_def word_less_nat_alt word_le_nat_alt)
qed

lemma long_mode_big: "take_bit 12 (long_mode z) = 0xfff" "ZFP_MODE_SHORT_MAX < long_mode z"
proof -
  show *: "take_bit 12 (long_mode z) = 0xfff"
    unfolding long_mode_def Let_def by (rule take_bit_pack) simp
  have "unat (take_bit 12 (long_mode z)) \<le> unat (long_mode z)"
    by (simp add: unsigned_take_bit_eq take_bit_nat_less_eq_self)
  then show "ZFP_MODE_SHORT_MAX < long_mode z"
    unfolding * by (simp add: word_less_nat_alt)
qed

lemma mode_params_long:
  assumes "1 \<le> minbits z" "minbits z \<le> maxbits z" "maxbits z \<le> 0x8000" "0 < maxprec z" "maxprec z \<le> 64"
    and "- 16495 \<le> minexp z" "minexp z \<le> 16272"
  shows "mode_params (long_mode z) = params_of z"
proof -
  define b where "b = minbits z - 1"
  define c where "c = maxbits z - 1"
  define p where "p = maxprec z - 1"
  define e where "e = (word_of_int (minexp z + 16495) :: u32)"
  have n: "1 \<le> unat (minbits z)" "unat (minbits z) \<le> unat (maxbits z)" "unat (maxbits z) \<le> 32768"
    "1 \<le> unat (maxprec z)" "unat (maxprec z) \<le> 64"
    using assms by (simp_all add: word_le_nat_alt word_less_nat_alt)
  then have one: "1 \<le> minbits z" "1 \<le> maxbits z" "1 \<le> maxprec z"
    by (simp_all add: word_le_nat_alt)
  have bc: "max 1 (min (minbits z) 0x8000) = minbits z" "max 1 (min (maxbits z) 0x8000) = maxbits z"
    "max 1 (min (maxprec z) 0x0080) = maxprec z" "max 0 (min (minexp z + 16495) 0x7fff) = minexp z + 16495"
    using n assms by (simp_all add: max_def min_def word_le_nat_alt)
  have "unat b < 2 ^ 15" "unat c < 2 ^ 15" "unat p < 2 ^ 7"
    using n one by (simp_all add: b_def c_def p_def unat_dec)
  moreover have "unat e < 2 ^ 15"
  proof -
    have "uint e = minexp z + 16495"
      unfolding e_def unsigned_of_int using assms(6,7) by (simp add: take_bit_int_eq_self)
    then show ?thesis unfolding unat_eq_nat_uint using assms(7) by simp
  qed
  ultimately have fits: "unat b < 2 ^ 15" "unat c < 2 ^ 15" "unat p < 2 ^ 7" "unat e < 2 ^ 15" by simp_all
  note t = fits [THEN take_bit_u32]
  let ?e = "pack 15 (ucast e) 0" let ?p = "pack 7 (ucast p) ?e" let ?c = "pack 15 (ucast c) ?p"
  let ?b = "pack 15 (ucast b) ?c"
  have e1: "take_bit 15 ?e = ?e" using take_bit_pack_fits [OF t(4), of 0 0] by simp
  have p1: "take_bit 22 ?p = ?p" using take_bit_pack_fits [OF t(3) e1] by simp
  have c1: "take_bit 37 ?c = ?c" using take_bit_pack_fits [OF t(2) p1] by simp
  have b1: "take_bit 52 ?b = ?b" using take_bit_pack_fits [OF t(1) c1] by simp
  have m: "long_mode z = pack 12 0xfff ?b"
    by (simp only: long_mode_def Let_def bc b_def c_def p_def e_def)
  have "drop_bit 12 (long_mode z) = ?b"
    unfolding m by (rule drop_bit_pack [OF _ b1]) simp_all
  moreover have "drop_bit 15 ?b = ?c" by (rule drop_bit_pack [OF t(1) c1]) simp
  moreover have "drop_bit 15 ?c = ?p" by (rule drop_bit_pack [OF t(2) p1]) simp
  moreover have "drop_bit 7 ?p = ?e" by (rule drop_bit_pack [OF t(3) e1]) simp
  moreover have "sint (e - 16495) = minexp z"
  proof -
    have "e - 16495 = word_of_int (minexp z)" by (simp add: e_def)
    then show ?thesis using assms(6,7) by (simp add: sint_of_int)
  qed
  moreover have "\<not> long_mode z \<le> ZFP_MODE_SHORT_MAX"
    using long_mode_big(2) by (simp only: not_le)
  ultimately show ?thesis
    by (simp only: mode_params_def Let_def if_False and_masks_u32 low_of_pack fits)
      (simp add: params_of_def b_def c_def p_def)
qed

text \<open>The mode number stores the parameters.\<close>

lemma mode_params_mode:
  assumes "mode_encodable z"
  shows "mode_params (zfp_stream_mode z) = params_of (mode_canonical z)"
proof -
  have z: "zfp_stream_compression_mode z \<noteq> zfp_mode_null" "1 \<le> minbits z" "maxbits z \<le> 0x8000"
    "- 16495 \<le> minexp z" "minexp z \<le> 16272"
    using assms by (simp_all add: mode_encodable_def)
  have n: "minbits z \<le> maxbits z" "0 < maxprec z" "maxprec z \<le> 64"
    by (rule mode_not_null [OF z(1)])+
  have long: "mode_params (long_mode z) = params_of z"
    by (rule mode_params_long) (use z n in simp_all)
  show ?thesis
  proof (cases "zfp_stream_compression_mode z")
    case zfp_mode_null
    with z(1) show ?thesis by simp
  next
    case zfp_mode_expert
    with long show ?thesis by (simp add: zfp_stream_mode_def mode_canonical_def)
  next
    case zfp_mode_fixed_rate
    then have r: "minbits z = maxbits z" "maxprec z \<ge> ZFP_MAX_PREC" "minexp z = ZFP_MIN_EXP"
      by (auto simp: zfp_stream_compression_mode_def split: if_splits)
    then have p: "maxprec z = 64" using n(3) by simp
    show ?thesis
      using zfp_mode_fixed_rate long mode_params_rate [of "maxbits z"] r p z(2)
      by (simp add: zfp_stream_mode_def mode_canonical_def params_of_def)
  next
    case zfp_mode_fixed_precision
    then have e: "minexp z = ZFP_MIN_EXP"
      by (auto simp: zfp_stream_compression_mode_def split: if_splits)
    have "maxprec z \<le> 128" using n(3) by (simp add: word_le_nat_alt)
    with zfp_mode_fixed_precision e mode_params_precision [OF n(2,3)] show ?thesis
      by (simp add: zfp_stream_mode_def mode_canonical_def params_of_def)
  next
    case zfp_mode_fixed_accuracy
    then have r: "maxprec z \<ge> ZFP_MAX_PREC" "minexp z \<ge> ZFP_MIN_EXP"
      by (auto simp: zfp_stream_compression_mode_def split: if_splits)
    then have p: "maxprec z = 64" using n(3) by simp
    show ?thesis
      using zfp_mode_fixed_accuracy long mode_params_accuracy [OF r(2)] p
      by (simp add: zfp_stream_mode_def mode_canonical_def params_of_def)
  next
    case zfp_mode_reversible
    then have "maxprec z \<ge> ZFP_MAX_PREC"
      by (auto simp: zfp_stream_compression_mode_def split: if_splits)
    then have p: "maxprec z = 64" using n(3) by simp
    have "mode_params (2048 + 128) = (ZFP_MIN_BITS, ZFP_MAX_BITS, ZFP_MAX_PREC, ZFP_MIN_EXP - 1)"
      by (simp add: mode_params_def)
    with zfp_mode_reversible p show ?thesis
      by (simp add: zfp_stream_mode_def mode_canonical_def params_of_def)
  qed
qed

lemma compression_mode_of_params:
  "params_of y = params_of z \<Longrightarrow> zfp_stream_compression_mode y = zfp_stream_compression_mode z"
  unfolding params_of_def zfp_stream_compression_mode_def by (elim Pair_inject) (simp only:)

lemma canonical_not_null:
  assumes "mode_encodable z"
  shows "zfp_stream_compression_mode (mode_canonical z) \<noteq> zfp_mode_null"
proof -
  have n: "minbits z \<le> maxbits z" "0 < maxprec z" "maxprec z \<le> 64"
    by (rule mode_not_null, use assms in \<open>simp add: mode_encodable_def\<close>)+
  then have "minbits (mode_canonical z) \<le> maxbits (mode_canonical z)" "maxprec (mode_canonical z) = maxprec z"
    by (auto simp: mode_canonical_def word_le_nat_alt split: zfp_mode.splits)
  with n show ?thesis by (simp add: mode_null_iff not_less)
qed

lemma set_mode_roundtrip:
  assumes "mode_encodable z"
  defines "c \<equiv> mode_canonical z"
  shows "zfp_stream_set_mode y (zfp_stream_mode z) = (zfp_stream_compression_mode c,
    y\<lparr>minbits := minbits c, maxbits := maxbits c, maxprec := maxprec c, minexp := minexp c\<rparr>)"
proof -
  have "zfp_stream_compression_mode c \<noteq> zfp_mode_null"
    unfolding c_def by (rule canonical_not_null [OF assms(1)])
  then have "\<not> minbits c > maxbits c" "0 < maxprec c \<and> maxprec c \<le> 64"
    using mode_not_null [of c] by (simp_all add: not_less)
  moreover have "zfp_stream_compression_mode
      (y\<lparr>minbits := minbits c, maxbits := maxbits c, maxprec := maxprec c, minexp := minexp c\<rparr>) =
      zfp_stream_compression_mode c"
    by (rule compression_mode_of_params) (simp add: params_of_def)
  ultimately show ?thesis
    using mode_params_mode [OF assms(1), folded c_def]
    by (simp add: zfp_stream_set_mode_def zfp_stream_set_params_def params_of_def)
qed

text \<open>Reversible, fixed-rate and ordinary parameters come back as they were.\<close>

lemma canonical_same:
  assumes "minbits z = ZFP_MIN_BITS" and "maxbits z = ZFP_MAX_BITS" and "minexp z \<ge> ZFP_MIN_EXP - 1"
  shows "params_of (mode_canonical z) = params_of z"
proof -
  have "minexp z = ZFP_MIN_EXP - 1" if "zfp_stream_compression_mode z = zfp_mode_reversible"
    using that assms(3) by (auto simp: zfp_stream_compression_mode_def split: if_splits)
  with assms show ?thesis
    by (auto simp: mode_canonical_def params_of_def split: zfp_mode.splits)
qed

section \<open>Round trip of the header\<close>

definition header_fields :: "zfp_stream \<Rightarrow> zfp_field \<Rightarrow> u32 \<Rightarrow> (u64 \<times> nat) list" where
  "header_fields z f m =
     (if header_magic m then [(122, 8), (102, 8), (112, 8), (zfp_codec_version, 8)] else []) @
     (if header_meta m then [(zfp_field_metadata f, 52)] else []) @
     (if header_mode m
      then [(zfp_stream_mode z, if zfp_stream_mode z > ZFP_MODE_SHORT_MAX then 64 else 12)] else [])"

lemma zs_write_mode [simp]: "zfp_stream_mode (z\<lparr>zs_bits := s\<rparr>) = zfp_stream_mode z"
proof -
  have "zfp_stream_compression_mode (z\<lparr>zs_bits := s\<rparr>) = zfp_stream_compression_mode z"
    by (rule compression_mode_of_params) (simp add: params_of_def)
  moreover have "long_mode (z\<lparr>zs_bits := s\<rparr>) = long_mode z"
    by (cases z) (simp add: long_mode_def)
  ultimately show ?thesis
    unfolding zfp_stream_mode_def by (cases z) (simp cong: zfp_mode.case_cong)
qed

lemma put_zs_write:
  "bind_res (put_all stream_write_bits s ((v, n) # xs)) g =
     bind_res (stream_write_bits s v n) (\<lambda>(_, s). bind_res (put_all stream_write_bits s xs) g)"
  by (simp add: bind_res_assoc split_def)

lemma write_header_eq:
  assumes "header_meta m \<Longrightarrow> zfp_field_metadata f \<noteq> ZFP_META_NULL"
  shows "zfp_write_header z f m =
    bind_res (put_all stream_write_bits (zs_bits z) (header_fields z f m)) (\<lambda>s.
      Inr (sum_list (List.map snd (header_fields z f m)), z\<lparr>zs_bits := s\<rparr>))"
proof -
  define a b c where "a = header_magic m" and "b = header_meta m" and "c = header_mode m"
  have "b \<Longrightarrow> zfp_field_metadata f \<noteq> ZFP_META_NULL" using assms by (simp add: b_def)
  then show ?thesis
    unfolding zfp_write_header_def header_fields_def zs_write_def Let_def
      a_def [symmetric] b_def [symmetric] c_def [symmetric]
    by (cases a; cases b; cases c; simp add: bind_res_assoc split_def)
qed

lemma zs_read_ok:
  assumes "bs_ok (zs_bits y)" and "n \<le> 64" and "unread (zs_bits y) = word_bits n v @ r"
  shows "\<exists>s. zs_read y n = Inr (take_bit n v, y\<lparr>zs_bits := s\<rparr>) \<and> bs_ok s \<and> unread s = r"
  using bs_source.get_ok [OF assms] by (auto simp: zs_read_def)

lemma read_magic_ok:
  "bs_ok (zs_bits y) \<Longrightarrow> \<forall>c \<in> set cs. take_bit 8 c = c \<Longrightarrow>
   unread (zs_bits y) = bits_of (List.map (\<lambda>c. (c, 8)) cs) @ r \<Longrightarrow>
   \<exists>s. read_magic y cs = Inr (True, y\<lparr>zs_bits := s\<rparr>) \<and> bs_ok s \<and> unread s = r"
proof (induction cs arbitrary: y)
  case Nil
  then show ?case by (intro exI [of _ "zs_bits y"]) simp
next
  case (Cons c cs)
  have "\<exists>s. zs_read y 8 = Inr (take_bit 8 c, y\<lparr>zs_bits := s\<rparr>) \<and> bs_ok s \<and>
      unread s = bits_of (List.map (\<lambda>c. (c, 8)) cs) @ r"
    by (rule zs_read_ok) (use Cons.prems in simp_all)
  then obtain s where s: "zs_read y 8 = Inr (c, y\<lparr>zs_bits := s\<rparr>)" "bs_ok s"
    "unread s = bits_of (List.map (\<lambda>c. (c, 8)) cs) @ r"
    using Cons.prems(2) by auto
  have "\<exists>t. read_magic (y\<lparr>zs_bits := s\<rparr>) cs = Inr (True, (y\<lparr>zs_bits := s\<rparr>)\<lparr>zs_bits := t\<rparr>) \<and> bs_ok t \<and> unread t = r"
    by (rule Cons.IH) (use Cons.prems s in simp_all)
  with s show ?case by auto
qed

lemma drop_take_join: "take_bit 12 v + push_bit 12 (take_bit 52 (drop_bit 12 v)) = (v :: u64)"
proof -
  have "take_bit 52 (drop_bit 12 v) = drop_bit 12 v"
  proof (rule bit_eqI)
    fix i
    have "12 + i < 64" if "bit v (12 + i)" using bit_imp_le_length [OF that] by simp
    then show "bit (take_bit 52 (drop_bit 12 v)) i = bit (drop_bit 12 v) i"
      by (auto simp: bit_take_bit_iff bit_drop_bit_eq)
  qed
  then show ?thesis
    using bits_ident [of 12 v] by (simp add: add.commute)
qed

text \<open>The mode number takes 12 bits when it is short, else 64 of which the low 12 are all ones.\<close>

lemma short_or_long:
  assumes "mode_encodable z"
  shows "zfp_stream_mode z \<le> ZFP_MODE_SHORT_MAX \<and> take_bit 12 (zfp_stream_mode z) = zfp_stream_mode z \<or>
    zfp_stream_mode z > ZFP_MODE_SHORT_MAX \<and> take_bit 12 (zfp_stream_mode z) = 0xfff"
proof (cases "zfp_stream_mode z = long_mode z")
  case True
  with long_mode_big show ?thesis by simp
next
  case False
  have small: "v \<le> ZFP_MODE_SHORT_MAX \<and> take_bit 12 v = v" if "unat v \<le> 4094" for v :: u64
    using that by (simp add: unat_less_iff_take [symmetric] word_le_nat_alt)
  have n: "1 \<le> minbits z" "minbits z \<le> maxbits z" "0 < maxprec z" "maxprec z \<le> 64"
    using assms mode_not_null [of z] by (simp_all add: mode_encodable_def)
  then have "unat (maxprec z) \<le> 64" "1 \<le> maxbits z" "1 \<le> maxprec z"
    by (auto simp: word_le_nat_alt word_less_nat_alt)
  have "unat (zfp_stream_mode z) \<le> 4094"
  proof (cases "zfp_stream_compression_mode z")
    case zfp_mode_fixed_rate
    with False have "maxbits z \<le> 2048" "zfp_stream_mode z = ucast (maxbits z - 1)"
      by (auto simp: zfp_stream_mode_def split: if_splits)
    then show ?thesis
      using unat_dec [OF \<open>1 \<le> maxbits z\<close>] by (simp add: word_le_nat_alt)
  next
    case zfp_mode_fixed_precision
    with False have m: "zfp_stream_mode z = ucast ((maxprec z - 1) + 2048)"
      by (auto simp: zfp_stream_mode_def split: if_splits)
    have "unat ((maxprec z - 1) + 2048) \<le> unat (maxprec z) + 2047"
      using unat_dec [OF \<open>1 \<le> maxprec z\<close>] \<open>unat (maxprec z) \<le> 64\<close> by (simp add: unat_word_ariths)
    with m \<open>unat (maxprec z) \<le> 64\<close> show ?thesis by simp
  next
    case zfp_mode_fixed_accuracy
    with False have m: "minexp z \<le> 843" "zfp_stream_mode z = word_of_int ((minexp z - ZFP_MIN_EXP) + (2048 + 128 + 1))"
      by (auto simp: zfp_stream_mode_def split: if_splits)
    from zfp_mode_fixed_accuracy have "ZFP_MIN_EXP \<le> minexp z"
      by (auto simp: zfp_stream_compression_mode_def split: if_splits)
    with m(1) have "uint (word_of_int ((minexp z - ZFP_MIN_EXP) + (2048 + 128 + 1)) :: u64) =
        minexp z - ZFP_MIN_EXP + 2177"
      unfolding unsigned_of_int by (simp add: take_bit_int_eq_self)
    with m show ?thesis unfolding unat_eq_nat_uint by (simp only: m(2))
  next
    case zfp_mode_reversible
    then show ?thesis by (simp add: zfp_stream_mode_def)
  qed (use False in \<open>simp_all add: zfp_stream_mode_def\<close>)
  with small show ?thesis by simp
qed

lemma read_mode_ok:
  assumes "bs_ok (zs_bits y)" and "mode_encodable z"
    and "unread (zs_bits y) = word_bits (if zfp_stream_mode z > ZFP_MODE_SHORT_MAX then 64 else 12) (zfp_stream_mode z) @ r"
  shows "\<exists>s. bs_ok s \<and> unread s = r \<and>
    (\<forall>(n :: nat) k. bind_res (zs_read y 12) (\<lambda>(mode, z).
        bind_res (if mode > ZFP_MODE_SHORT_MAX
                  then bind_res (zs_read z 52) (\<lambda>(h, z). Inr (mode + push_bit 12 h, n + 12 + 52, z))
                  else Inr (mode, n + 12, z)) k) =
      k (zfp_stream_mode z, n + (if zfp_stream_mode z > ZFP_MODE_SHORT_MAX then 64 else 12), y\<lparr>zs_bits := s\<rparr>))"
  using short_or_long [OF assms(2)]
proof (elim disjE conjE)
  assume m: "zfp_stream_mode z \<le> ZFP_MODE_SHORT_MAX" "take_bit 12 (zfp_stream_mode z) = zfp_stream_mode z"
  then have "unread (zs_bits y) = word_bits 12 (zfp_stream_mode z) @ r"
    using assms(3) by (simp add: not_less [symmetric])
  from zs_read_ok [OF assms(1) _ this] m show ?thesis by (auto simp: not_less [symmetric])
next
  assume m: "ZFP_MODE_SHORT_MAX < zfp_stream_mode z" "take_bit 12 (zfp_stream_mode z) = 0xfff"
  then have "unread (zs_bits y) = word_bits 12 (zfp_stream_mode z) @ word_bits 52 (drop_bit 12 (zfp_stream_mode z)) @ r"
    using assms(3) word_bits_add [of 12 52 "zfp_stream_mode z"] by simp
  from zs_read_ok [OF assms(1) _ this] m obtain s where s: "zs_read y 12 = Inr (0xfff, y\<lparr>zs_bits := s\<rparr>)"
    "bs_ok s" "unread s = word_bits 52 (drop_bit 12 (zfp_stream_mode z)) @ r" by auto
  from s obtain t where
    "zs_read (y\<lparr>zs_bits := s\<rparr>) 52 = Inr (take_bit 52 (drop_bit 12 (zfp_stream_mode z)), y\<lparr>zs_bits := t\<rparr>)"
    "bs_ok t" "unread t = r"
    using zs_read_ok [of "y\<lparr>zs_bits := s\<rparr>" 52 "drop_bit 12 (zfp_stream_mode z)" r] by auto
  moreover have "\<not> (0xfff :: u64) \<le> ZFP_MODE_SHORT_MAX" by simp
  ultimately show ?thesis
    using s(1) m drop_take_join [of "zfp_stream_mode z"]
    by (intro exI [of _ t]) (simp add: add.assoc not_le)
qed

text \<open>What the reader finds: the described field, and the stored parameters.\<close>

definition with_params :: "zfp_stream \<Rightarrow> zfp_stream \<Rightarrow> zfp_stream" where
  "with_params c y = y\<lparr>minbits := minbits c, maxbits := maxbits c, maxprec := maxprec c, minexp := minexp c\<rparr>"

lemma header_fields_le: "\<forall>x \<in> set (header_fields z f m). snd x \<le> 64"
  by (auto simp: header_fields_def)

lemma write_header_ok:
  assumes "bs_ok (zs_bits z)" and "header_meta m \<Longrightarrow> meta_fits f"
    and "sum_list (List.map snd (header_fields z f m)) \<le> room (zs_bits z)"
  shows "\<exists>s. zfp_write_header z f m =
      Inr (sum_list (List.map snd (header_fields z f m)), z\<lparr>zs_bits := s\<rparr>) \<and> bs_ok s \<and>
    written s = written (zs_bits z) @ bits_of (header_fields z f m) \<and>
    room s + sum_list (List.map snd (header_fields z f m)) = room (zs_bits z)"
proof -
  have "zfp_field_metadata f \<noteq> ZFP_META_NULL" if "header_meta m"
    using metadata_roundtrip assms(2) [OF that] by blast
  then show ?thesis
    using bs_sink.put_all_ok [OF assms(1) header_fields_le assms(3)]
    by (auto simp: write_header_eq)
qed

lemma read_header_ok:
  assumes ok: "bs_ok (zs_bits y)" and f: "header_meta m \<Longrightarrow> meta_fits f"
    and z: "header_mode m \<Longrightarrow> mode_encodable z"
    and r: "unread (zs_bits y) = bits_of (header_fields z f m) @ r"
  shows "\<exists>s. zfp_read_header y g m = Inr (sum_list (List.map snd (header_fields z f m)),
      (if header_mode m then with_params (mode_canonical z) else id) (y\<lparr>zs_bits := s\<rparr>),
      if header_meta m then described f g else g) \<and> bs_ok s \<and> unread s = r"
proof -
  define a b c where "a = header_magic m" and "b = header_meta m" and "c = header_mode m"
  note flags = a_def [symmetric] b_def [symmetric] c_def [symmetric]
  define mo where "mo = (if c then [(zfp_stream_mode z, if zfp_stream_mode z > ZFP_MODE_SHORT_MAX then 64 else 12)]
    else [] :: (u64 \<times> nat) list)"
  define me where "me = (if b then [(zfp_field_metadata f, 52)] else [] :: (u64 \<times> nat) list)"
  define ma where "ma = (if a then List.map (\<lambda>c. (c, 8)) [122, 102, 112, zfp_codec_version] else [] :: (u64 \<times> nat) list)"
  have fields: "header_fields z f m = ma @ me @ mo"
    by (simp add: header_fields_def flags ma_def me_def mo_def)
  have rest: "unread (zs_bits y) = bits_of ma @ bits_of me @ bits_of mo @ r"
    using r by (simp add: fields)
  have "\<exists>s. (if a then read_magic y [122, 102, 112, zfp_codec_version] else Inr (True, y)) =
      Inr (True, y\<lparr>zs_bits := s\<rparr>) \<and> bs_ok s \<and> unread s = bits_of me @ bits_of mo @ r"
  proof (cases a)
    case True
    then show ?thesis
      using read_magic_ok [OF ok, of "[122, 102, 112, zfp_codec_version]" "bits_of me @ bits_of mo @ r"] rest
      by (simp add: ma_def zfp_codec_version_def)
  next
    case False
    with ok rest show ?thesis by (intro exI [of _ "zs_bits y"]) (simp add: ma_def)
  qed
  then obtain s1 where s1: "(if a then read_magic y [122, 102, 112, zfp_codec_version] else Inr (True, y)) =
      Inr (True, y\<lparr>zs_bits := s1\<rparr>)" "bs_ok s1" "unread s1 = bits_of me @ bits_of mo @ r" by blast
  let ?y1 = "y\<lparr>zs_bits := s1\<rparr>"
  let ?g = "if b then described f g else g"
  have "\<exists>s. (if b then bind_res (zs_read ?y1 52) (\<lambda>(meta, z).
               case zfp_field_set_metadata g meta of (ok, f) \<Rightarrow> Inr (ok, z, f))
             else Inr (True, ?y1, g)) =
      Inr (True, y\<lparr>zs_bits := s\<rparr>, ?g) \<and> bs_ok s \<and> unread s = bits_of mo @ r"
  proof (cases b)
    case True
    then have fits: "meta_fits f" using f by (simp add: flags)
    have "\<exists>s. zs_read ?y1 52 = Inr (take_bit 52 (zfp_field_metadata f), ?y1\<lparr>zs_bits := s\<rparr>) \<and> bs_ok s \<and>
        unread s = bits_of mo @ r"
      by (rule zs_read_ok) (use s1 True in \<open>simp_all add: me_def\<close>)
    moreover have "take_bit 52 (zfp_field_metadata f) = zfp_field_metadata f"
      "zfp_field_set_metadata g (zfp_field_metadata f) = (True, described f g)"
      using metadata_roundtrip [OF fits] by (simp_all add: drop_bit_eq_0_iff_take)
    ultimately show ?thesis using True by auto
  next
    case False
    with s1 show ?thesis by (auto simp: me_def)
  qed
  then obtain s2 where s2: "(if b then bind_res (zs_read ?y1 52) (\<lambda>(meta, z).
               case zfp_field_set_metadata g meta of (ok, f) \<Rightarrow> Inr (ok, z, f))
             else Inr (True, ?y1, g)) = Inr (True, y\<lparr>zs_bits := s2\<rparr>, ?g)" "bs_ok s2" "unread s2 = bits_of mo @ r"
    by blast
  have n: "sum_list (List.map snd (header_fields z f m)) =
      (if a then 32 else 0) + (if b then 52 else 0) +
      (if c then if zfp_stream_mode z > ZFP_MODE_SHORT_MAX then 64 else 12 else 0)"
    by (simp add: fields ma_def me_def mo_def)
  show ?thesis
  proof (cases c)
    case False
    then show ?thesis
      unfolding n zfp_read_header_def flags Let_def using s1 s2
      by (intro exI [of _ s2]) (simp add: mo_def)
  next
    case True
    then have enc: "mode_encodable z" using z by (simp add: flags)
    have "unread (zs_bits (y\<lparr>zs_bits := s2\<rparr>)) =
        word_bits (if zfp_stream_mode z > ZFP_MODE_SHORT_MAX then 64 else 12) (zfp_stream_mode z) @ r"
      using s2(3) True by (simp add: mo_def)
    then have "\<exists>s. bs_ok s \<and> unread s = r \<and>
      (\<forall>(n :: nat) (k :: u64 \<times> nat \<times> zfp_stream \<Rightarrow> err + nat \<times> zfp_stream \<times> zfp_field).
        bind_res (zs_read (y\<lparr>zs_bits := s2\<rparr>) 12) (\<lambda>(mode, z).
          bind_res (if mode > ZFP_MODE_SHORT_MAX
                    then bind_res (zs_read z 52) (\<lambda>(h, z). Inr (mode + push_bit 12 h, n + 12 + 52, z))
                    else Inr (mode, n + 12, z)) k) =
        k (zfp_stream_mode z, n + (if zfp_stream_mode z > ZFP_MODE_SHORT_MAX then 64 else 12),
          y\<lparr>zs_bits := s2\<rparr>\<lparr>zs_bits := s\<rparr>))"
      by (intro read_mode_ok [OF _ enc]) (use s2(2) in simp_all)
    then obtain s3 where s3: "bs_ok s3" "unread s3 = r"
      "\<And>(n :: nat) (k :: u64 \<times> nat \<times> zfp_stream \<Rightarrow> err + nat \<times> zfp_stream \<times> zfp_field).
        bind_res (zs_read (y\<lparr>zs_bits := s2\<rparr>) 12) (\<lambda>(mode, z).
          bind_res (if mode > ZFP_MODE_SHORT_MAX
                    then bind_res (zs_read z 52) (\<lambda>(h, z). Inr (mode + push_bit 12 h, n + 12 + 52, z))
                    else Inr (mode, n + 12, z)) k) =
        k (zfp_stream_mode z, n + (if zfp_stream_mode z > ZFP_MODE_SHORT_MAX then 64 else 12),
          y\<lparr>zs_bits := s2\<rparr>\<lparr>zs_bits := s3\<rparr>)"
      by (elim exE conjE) blast
    let ?n = "(if a then 32 else 0) + (if b then 52 else 0) :: nat"
    let ?k = "\<lambda>(mode, bits :: nat, z).
      case zfp_stream_set_mode z mode of (w, z) \<Rightarrow> if w = zfp_mode_null then Inr (0 :: nat, z, ?g) else Inr (bits, z, ?g)"
    have "zfp_read_header y g m =
        ?k (zfp_stream_mode z, ?n + (if zfp_stream_mode z > ZFP_MODE_SHORT_MAX then 64 else 12), y\<lparr>zs_bits := s3\<rparr>)"
      unfolding zfp_read_header_def flags Let_def s1(1)
      using s2(1) True by (cases a; cases b; simp add: s3(3))
    moreover have "zfp_stream_set_mode (y\<lparr>zs_bits := s3\<rparr>) (zfp_stream_mode z) =
        (zfp_stream_compression_mode (mode_canonical z), with_params (mode_canonical z) (y\<lparr>zs_bits := s3\<rparr>))"
      unfolding with_params_def by (rule set_mode_roundtrip [OF enc])
    ultimately show ?thesis
      unfolding n flags using canonical_not_null [OF enc] s3(1,2) True
      by (intro exI [of _ s3]) simp
  qed
qed

section \<open>The maximum size\<close>

definition field_blocks :: "zfp_field \<Rightarrow> nat" where
  "field_blocks f = (\<Prod>n \<leftarrow> [nx f, ny f, nz f, nw f]. (max (unat n) 1 + 3) div 4)"

lemma unat_clear_low: "unat (w AND NOT (64 - 1) :: u64) = 64 * (unat w div 64)"
proof -
  have "w AND NOT (mask 6) = push_bit 6 (drop_bit 6 w)"
    by (rule bit_eqI) (auto simp: bit_and_iff bit_not_iff bit_mask_iff bit_push_bit_iff bit_drop_bit_eq)
  moreover have "(64 - 1 :: u64) = mask 6" by (simp add: mask_eq_exp_minus_1)
  ultimately have "w AND NOT (64 - 1) = push_bit 6 (drop_bit 6 w)" by simp
  moreover have "unat (drop_bit 6 w) * 2 ^ 6 < 2 ^ LENGTH(64)"
  proof -
    have "unat (drop_bit 6 w) * 2 ^ 6 \<le> unat w"
      unfolding unat_drop_bit by (rule div_times_less_eq_dividend)
    also have "unat w < 2 ^ LENGTH(64)" by (rule order_less_le_trans [OF unsigned_less]) simp
    finally show ?thesis .
  qed
  ultimately show ?thesis
    by (simp add: unat_push_bit unat_drop_bit)
qed

lemma unat_blocks:
  "unat n \<le> 4294967292 \<Longrightarrow> unat ((max n 1 + 3) div 4 :: u32) = (max (unat n) 1 + 3) div 4"
proof -
  assume n: "unat n \<le> 4294967292"
  have "unat (max n 1) = max (unat n) 1" by (simp add: max_def word_le_nat_alt)
  with n have "unat (max n 1 + 3) = max (unat n) 1 + 3" by (simp add: unat_word_ariths)
  then show ?thesis by (simp add: unat_div)
qed

lemma unat_mult_lt: "unat a * unat b < 2 ^ 64 \<Longrightarrow> unat (a * b :: u64) = unat a * unat b"
  by (simp add: unat_word_ariths)

text \<open>The maximum size is the header and all blocks, rounded up to whole words.\<close>

lemma maximum_size_eq:
  assumes dims: "zfp_field_dimensionality f \<noteq> 0" and t: "fd_type f \<noteq> zfp_type_none"
    and small: "\<forall>n \<in> {nx f, ny f, nz f, nw f}. unat n \<le> 4294967292"
    and bits: "148 + field_blocks f * unat (block_maxbits z f) + 63 < 2 ^ 64"
    and pos: "0 < unat (block_maxbits z f)"
  shows "unat (zfp_stream_maximum_size z f) =
    8 * ((148 + field_blocks f * unat (block_maxbits z f) + 63) div 64)"
proof -
  define a b c d where "a = (max (unat (nx f)) 1 + 3) div 4" and "b = (max (unat (ny f)) 1 + 3) div 4"
    and "c = (max (unat (nz f)) 1 + 3) div 4" and "d = (max (unat (nw f)) 1 + 3) div 4"
  define M where "M = unat (block_maxbits z f)"
  let ?A = "ucast ((max (nx f) 1 + 3) div 4) :: u64" let ?B = "ucast ((max (ny f) 1 + 3) div 4) :: u64"
  let ?C = "ucast ((max (nz f) 1 + 3) div 4) :: u64" let ?D = "ucast ((max (nw f) 1 + 3) div 4) :: u64"
  have u: "unat ?A = a" "unat ?B = b" "unat ?C = c" "unat ?D = d"
    using small by (simp_all add: unat_blocks a_def b_def c_def d_def)
  have p: "1 \<le> a" "1 \<le> b" "1 \<le> c" "1 \<le> d" "1 \<le> M"
    using pos by (simp_all add: a_def b_def c_def d_def M_def)
  have F: "field_blocks f = a * b * c * d"
    by (simp add: field_blocks_def a_def b_def c_def d_def mult.assoc)
  have lt: "a * b * c * d * M + 211 < 2 ^ 64"
    using bits by (simp add: F M_def)
  have le: "a * b \<le> a * b * c" "a * b * c \<le> a * b * c * d" "a * b * c * d \<le> a * b * c * d * M"
    using p by simp_all
  have small: "a * b < 2 ^ 64" "a * b * c < 2 ^ 64" "a * b * c * d < 2 ^ 64" "a * b * c * d * M < 2 ^ 64"
    using le lt by linarith+
  have ab: "unat (?A * ?B) = a * b"
    by (subst unat_mult_lt) (simp_all only: u small)
  have abc: "unat (?A * ?B * ?C) = a * b * c"
    by (subst unat_mult_lt) (simp_all only: u ab small)
  have abcd: "unat (?A * ?B * ?C * ?D) = a * b * c * d"
    by (subst unat_mult_lt) (simp_all only: u abc small)
  have m: "unat (?A * ?B * ?C * ?D * ucast (block_maxbits z f)) = a * b * c * d * M"
    by (subst unat_mult_lt) (simp_all only: abcd small unat_ucast_64 M_def [symmetric])
  have "unat (148 + ?A * ?B * ?C * ?D * ucast (block_maxbits z f) + 64 - 1) = 148 + a * b * c * d * M + 63"
  proof -
    have "148 + ?A * ?B * ?C * ?D * ucast (block_maxbits z f) + 64 - 1 =
        211 + ?A * ?B * ?C * ?D * ucast (block_maxbits z f)" by simp
    moreover have "unat (211 + ?A * ?B * ?C * ?D * ucast (block_maxbits z f)) = 211 + a * b * c * d * M"
      using lt m by (subst unat_plus_if_size) (simp add: word_size)
    ultimately show ?thesis by simp
  qed
  then have "unat (((148 + ?A * ?B * ?C * ?D * ucast (block_maxbits z f) + 64 - 1) AND NOT (64 - 1)) div 8) =
      64 * ((148 + a * b * c * d * M + 63) div 64) div 8"
    by (simp only: unat_div unat_clear_low) simp
  also have "\<dots> = 8 * ((148 + a * b * c * d * M + 63) div 64)" by simp
  finally show ?thesis
    unfolding zfp_stream_maximum_size_def Let_def F M_def [symmetric] using dims t
    by (simp only: if_False)
qed

end
