(* ===== verification/Zfp_Plane.thy ===== *)
theory Zfp_Plane
  imports Zfp_Bitstream
begin

text \<open>
  The embedded coder of zfp: \<^verbatim>\<open>encode_ints\<close> of \<^verbatim>\<open>src/zfp-0.5.5/src/template/encode.c\<close> and
  \<^verbatim>\<open>decode_ints\<close> of \<^verbatim>\<open>src/zfp-0.5.5/src/template/decode.c\<close>, for blocks of at most 64 unsigned integers of
  any width (the template's \<^verbatim>\<open>UInt\<close>).  Bit planes are coded from the most significant one down; of
  each plane the first \<open>n\<close> bits, which belong to the coefficients known to be significant, are copied,
  and the rest is coded by group tests.

  \<open>grp\<close> is the code of such a rest as a function on lists of bits, and \<open>sig\<close> the number of coefficients up
  to the last one it makes significant.  The loops are shown to write and to read exactly this code.
\<close>

section \<open>Encoding\<close>

function enc_inner :: "nat \<Rightarrow> bitstream \<Rightarrow> nat \<Rightarrow> nat \<Rightarrow> u64 \<Rightarrow> err + bitstream \<times> nat \<times> nat \<times> u64" where
  "enc_inner cnt s bits n x =
     (if n < cnt - 1 \<and> bits \<noteq> 0
      then bind_res (stream_write_bit s (ucast x AND 1)) (\<lambda>(b, s).
             if b = 0 then enc_inner cnt s (bits - 1) (n + 1) (drop_bit 1 x) else Inr (s, bits - 1, n, x))
      else Inr (s, bits, n, x))"
  by pat_completeness auto
termination
  by (relation "measure (\<lambda>(_, _, bits, _, _). bits)") auto

declare enc_inner.simps [simp del]

lemma enc_inner_mono: "enc_inner cnt s bits n x = Inr (s', bits', n', x') \<Longrightarrow> bits' \<le> bits"
proof (induction cnt s bits n x rule: enc_inner.induct)
  case (1 cnt s bits n x)
  show ?case
  proof (cases "n < cnt - 1 \<and> bits \<noteq> 0")
    case False
    with 1(2) show ?thesis by (subst (asm) enc_inner.simps) auto
  next
    case True
    with 1(2) obtain b t where w: "stream_write_bit s (ucast x AND 1) = Inr (b, t)"
      and r: "(if b = 0 then enc_inner cnt t (bits - 1) (n + 1) (drop_bit 1 x) else Inr (t, bits - 1, n, x)) =
        Inr (s', bits', n', x')"
      by (subst (asm) enc_inner.simps) (auto simp: bind_res_eq_Inr)
    from r 1(1) [OF True w refl] show ?thesis by (auto split: if_splits)
  qed
qed

function enc_outer :: "nat \<Rightarrow> bitstream \<Rightarrow> nat \<Rightarrow> nat \<Rightarrow> u64 \<Rightarrow> err + bitstream \<times> nat \<times> nat \<times> u64" where
  "enc_outer cnt s bits n x =
     (if n < cnt \<and> bits \<noteq> 0
      then bind_res (stream_write_bit s (of_bool (x \<noteq> 0))) (\<lambda>(b, s).
             if b \<noteq> 0
             then bind_res (enc_inner cnt s (bits - 1) n x) (\<lambda>(s, bits, n, x).
                    enc_outer cnt s bits (n + 1) (drop_bit 1 x))
             else Inr (s, bits - 1, n, x))
      else Inr (s, bits, n, x))"
  by pat_completeness auto
termination
  by (relation "measure (\<lambda>(_, _, bits, _, _). bits)") (auto dest!: enc_inner_mono)

declare enc_outer.simps [simp del]

text \<open>Step 1 of \<^verbatim>\<open>encode_ints\<close>: bit \<open>k\<close> of \<open>c\<close> integers from the index \<open>i\<close> on.\<close>

primrec extract_plane :: "nat \<Rightarrow> 'a::len word list \<Rightarrow> nat \<Rightarrow> nat \<Rightarrow> u64 \<Rightarrow> err + u64" where
  "extract_plane k xs 0 i x = Inr x"
| "extract_plane k xs (Suc c) i x =
     (if i < length xs
      then extract_plane k xs c (i + 1) (x + push_bit i (ucast (drop_bit k (xs ! i) AND 1)))
      else Inl Out_Of_Bounds)"

primrec enc_planes ::
  "nat \<Rightarrow> nat \<Rightarrow> 'a::len word list \<Rightarrow> nat \<Rightarrow> bitstream \<Rightarrow> nat \<Rightarrow> nat \<Rightarrow> err + bitstream \<times> nat" where
  "enc_planes kmin cnt xs 0 s bits n = Inr (s, bits)"
| "enc_planes kmin cnt xs (Suc k) s bits n =
     (if bits \<noteq> 0 \<and> kmin < Suc k
      then bind_res (extract_plane k xs cnt 0 0) (\<lambda>x.
           let m = min n bits; bits = bits - m in
           bind_res (stream_write_bits s x m) (\<lambda>(x, s).
           bind_res (enc_outer cnt s bits n x) (\<lambda>(s, bits, n, x).
             enc_planes kmin cnt xs k s bits n)))
      else Inr (s, bits))"

definition encode_ints ::
  "bitstream \<Rightarrow> nat \<Rightarrow> nat \<Rightarrow> 'a::len word list \<Rightarrow> nat \<Rightarrow> err + nat \<times> bitstream" where
  "encode_ints s maxbits maxprec xs cnt =
     (let intprec = LENGTH('a);
          kmin = (if intprec > maxprec then intprec - maxprec else 0)
      in bind_res (enc_planes kmin cnt xs intprec s maxbits 0) (\<lambda>(s, bits). Inr (maxbits - bits, s)))"

section \<open>Decoding\<close>

function dec_inner :: "nat \<Rightarrow> bitstream \<Rightarrow> nat \<Rightarrow> nat \<Rightarrow> err + bitstream \<times> nat \<times> nat" where
  "dec_inner cnt s bits n =
     (if n < cnt - 1 \<and> bits \<noteq> 0
      then bind_res (stream_read_bit s) (\<lambda>(b, s).
             if b = 0 then dec_inner cnt s (bits - 1) (n + 1) else Inr (s, bits - 1, n))
      else Inr (s, bits, n))"
  by pat_completeness auto
termination
  by (relation "measure (\<lambda>(_, _, bits, _). bits)") auto

declare dec_inner.simps [simp del]

lemma dec_inner_mono: "dec_inner cnt s bits n = Inr (s', bits', n') \<Longrightarrow> bits' \<le> bits"
proof (induction cnt s bits n rule: dec_inner.induct)
  case (1 cnt s bits n)
  show ?case
  proof (cases "n < cnt - 1 \<and> bits \<noteq> 0")
    case False
    with 1(2) show ?thesis by (subst (asm) dec_inner.simps) auto
  next
    case True
    with 1(2) obtain b t where w: "stream_read_bit s = Inr (b, t)"
      and r: "(if b = 0 then dec_inner cnt t (bits - 1) (n + 1) else Inr (t, bits - 1, n)) =
        Inr (s', bits', n')"
      by (subst (asm) dec_inner.simps) (auto simp: bind_res_eq_Inr)
    from r 1(1) [OF True w refl] show ?thesis by (auto split: if_splits)
  qed
qed

function dec_outer :: "nat \<Rightarrow> bitstream \<Rightarrow> nat \<Rightarrow> nat \<Rightarrow> u64 \<Rightarrow> err + bitstream \<times> nat \<times> nat \<times> u64" where
  "dec_outer cnt s bits n x =
     (if n < cnt \<and> bits \<noteq> 0
      then bind_res (stream_read_bit s) (\<lambda>(b, s).
             if b \<noteq> 0
             then bind_res (dec_inner cnt s (bits - 1) n) (\<lambda>(s, bits, n).
                    dec_outer cnt s bits (n + 1) (x + push_bit n 1))
             else Inr (s, bits - 1, n, x))
      else Inr (s, bits, n, x))"
  by pat_completeness auto
termination
  by (relation "measure (\<lambda>(_, _, bits, _, _). bits)") (auto dest!: dec_inner_mono)

declare dec_outer.simps [simp del]

text \<open>\<^verbatim>\<open>for (i = 0; x; i++, x >>= 1) data[i] += (UInt)(x & 1u) << k;\<close>\<close>

function deposit :: "nat \<Rightarrow> nat \<Rightarrow> u64 \<Rightarrow> 'a::len word list \<Rightarrow> err + 'a word list" where
  "deposit k i x xs =
     (if x \<noteq> 0
      then if i < length xs
           then deposit k (i + 1) (drop_bit 1 x) (xs[i := xs ! i + push_bit k (ucast (x AND 1))])
           else Inl Out_Of_Bounds
      else Inr xs)"
  by pat_completeness auto
termination
proof (relation "measure (\<lambda>(_, _, x, _). unat x)", goal_cases)
  case (2 k i x xs)
  then have "0 < unat x" by (simp add: unat_gt_0)
  then show ?case by (simp add: unat_drop_bit)
qed simp

declare deposit.simps [simp del]

primrec dec_planes ::
  "nat \<Rightarrow> nat \<Rightarrow> 'a::len word list \<Rightarrow> nat \<Rightarrow> bitstream \<Rightarrow> nat \<Rightarrow> nat \<Rightarrow> err + 'a word list \<times> bitstream \<times> nat" where
  "dec_planes kmin cnt xs 0 s bits n = Inr (xs, s, bits)"
| "dec_planes kmin cnt xs (Suc k) s bits n =
     (if bits \<noteq> 0 \<and> kmin < Suc k
      then let m = min n bits; bits = bits - m in
           bind_res (stream_read_bits s m) (\<lambda>(x, s).
           bind_res (dec_outer cnt s bits n x) (\<lambda>(s, bits, n, x).
           bind_res (deposit k 0 x xs) (\<lambda>xs.
             dec_planes kmin cnt xs k s bits n)))
      else Inr (xs, s, bits))"

definition decode_ints ::
  "bitstream \<Rightarrow> nat \<Rightarrow> nat \<Rightarrow> 'a::len word list \<Rightarrow> nat \<Rightarrow> err + nat \<times> 'a word list \<times> bitstream" where
  "decode_ints s maxbits maxprec xs cnt =
     (let intprec = LENGTH('a);
          kmin = (if intprec > maxprec then intprec - maxprec else 0)
      in if cnt \<le> length xs
         then bind_res (dec_planes kmin cnt (replicate cnt 0 @ drop cnt xs) intprec s maxbits 0)
                (\<lambda>(xs, s, bits). Inr (maxbits - bits, xs, s))
         else Inl Out_Of_Bounds)"

section \<open>The code of a plane\<close>

fun grp :: "bool list \<Rightarrow> bool list" and inn :: "bool list \<Rightarrow> bool list" where
  "grp [] = []"
| "grp (a # r) = (if True \<in> set (a # r) then True # inn (a # r) else [False])"
| "inn [] = []"
| "inn [a] = []"
| "inn (a # b # r) = a # (if a then grp (b # r) else inn (b # r))"

primrec sig :: "bool list \<Rightarrow> nat" where
  "sig [] = 0"
| "sig (a # r) = (if True \<in> set (a # r) then Suc (sig r) else 0)"

primrec code_planes :: "bool list list \<Rightarrow> nat \<Rightarrow> bool list" where
  "code_planes [] n = []"
| "code_planes (p # ps) n = take n p @ grp (drop n p) @ code_planes ps (n + sig (drop n p))"

lemma sig_le: "sig r \<le> length r"
  by (induction r) auto

lemma grp_length:
  "length (grp r) \<le> length r + sig r"
  "True \<in> set r \<Longrightarrow> length (inn r) + 1 \<le> length r + sig r"
  by (induction r and r rule: grp_inn.induct) auto

text \<open>The bits that coding some planes takes.\<close>

lemma code_planes_length:
  "\<forall>p \<in> set ps. length p = cnt \<Longrightarrow> n \<le> cnt \<Longrightarrow>
   length (code_planes ps n) \<le> length ps * cnt + (cnt - n)"
proof (induction ps arbitrary: n)
  case (Cons p ps)
  let ?r = "drop n p"
  have r: "length ?r = cnt - n" using Cons.prems by simp
  have "n + sig ?r \<le> cnt" using sig_le [of ?r] r Cons.prems(2) by simp
  then have "length (code_planes ps (n + sig ?r)) \<le> length ps * cnt + (cnt - (n + sig ?r))"
    by (intro Cons.IH) (use Cons.prems in simp_all)
  moreover have "length (grp ?r) \<le> (cnt - n) + sig ?r" using grp_length(1) [of ?r] r by simp
  ultimately show ?case using Cons.prems \<open>n + sig ?r \<le> cnt\<close> by simp
qed simp

section \<open>The encoder writes the code\<close>

lemma write_bit_room:
  assumes "bs_ok s" and "x = 0 \<or> x = 1" and "1 \<le> room s"
  shows "\<exists>s'. stream_write_bit s x = Inr (x, s') \<and> bs_ok s' \<and> written s' = written s @ [x = 1] \<and>
    room s' + 1 = room s"
proof -
  have le: "bs_ptr s \<le> length (bs_mem s)" using assms(1) by (simp add: bs_ok_def)
  have "bs_ptr s < length (bs_mem s)"
    using le assms(1,3) by (cases "bs_ptr s = length (bs_mem s)") (auto simp: room_def stream_wtell_def)
  from write_bit_ok [OF assms(1,2) this] obtain s' where s': "stream_write_bit s x = Inr (x, s')"
    "bs_ok s'" "written s' = written s @ [x = 1]" "length (bs_mem s') = length (bs_mem s)"
    by blast
  have "stream_wtell s' = stream_wtell s + 1"
    using length_written [of s] length_written [of s'] s'(2,3) le by (simp add: bs_ok_def)
  with s' assms(3) show ?thesis by (auto simp: room_def)
qed

lemma low_bit: "(ucast x :: u32) AND 1 = of_bool (bit (x :: u64) 0)"
  by (rule bit_eqI) (auto simp: bit_and_iff bit_1_iff bit_ucast_iff intro: gr0I)

lemma word_bits_Suc: "word_bits (Suc n) x = bit x 0 # word_bits n (drop_bit 1 x)"
  using word_bits_add [of 1 n x] by (simp add: word_bits_def)

lemma word_bits_nonzero:
  assumes "take_bit n x = x"
  shows "True \<in> set (word_bits n x) \<longleftrightarrow> x \<noteq> 0"
proof
  assume "x \<noteq> 0"
  then obtain i where i: "bit x i" by (metis bit_0_eq bit_eqI bot_apply bot_bool_def)
  have "i < n"
  proof (rule ccontr)
    assume "\<not> i < n"
    then have "\<not> bit (take_bit n x) i" by (simp add: bit_take_bit_iff)
    with i assms show False by simp
  qed
  with i show "True \<in> set (word_bits n x)" by (auto simp: word_bits_def)
qed (auto simp: word_bits_def)

text \<open>What the two loops of step 3 do, from the coefficient \<open>n\<close> on whose bits are \<open>r\<close>.\<close>

definition enc_done :: "bitstream \<Rightarrow> bool list \<Rightarrow> nat \<Rightarrow> nat \<Rightarrow> err + bitstream \<times> nat \<times> nat \<times> u64 \<Rightarrow> bool" where
  "enc_done s code bits n res \<longleftrightarrow>
     (\<exists>s' x'. res = Inr (s', bits - length code, n, x') \<and> bs_ok s' \<and> written s' = written s @ code \<and>
        room s' + length code = room s)"

lemma enc_loops:
  "bs_ok s \<Longrightarrow> take_bit (length r) x = x \<Longrightarrow> word_bits (length r) x = r \<Longrightarrow> n + length r = cnt \<Longrightarrow>
   length (grp r) \<le> bits \<Longrightarrow> length (grp r) \<le> room s \<Longrightarrow>
   enc_done s (grp r) bits (n + sig r) (enc_outer cnt s bits n x)"
  "bs_ok s \<Longrightarrow> take_bit (length r) x = x \<Longrightarrow> word_bits (length r) x = r \<Longrightarrow> n + length r = cnt \<Longrightarrow>
   length (inn r) \<le> bits \<Longrightarrow> length (inn r) \<le> room s \<Longrightarrow> True \<in> set r \<Longrightarrow>
   enc_done s (inn r) bits (n + sig r)
     (bind_res (enc_inner cnt s bits n x) (\<lambda>(s, bits, n, x). enc_outer cnt s bits (n + 1) (drop_bit 1 x)))"
proof (induction r and r arbitrary: s bits n x and s bits n x rule: grp_inn.induct)
  case 1
  then show ?case by (subst enc_outer.simps) (simp add: enc_done_def)
next
  case (2 a r)
  let ?r = "a # r"
  have n: "n < cnt" using 2(5) by simp
  have b: "bits \<noteq> 0" "1 \<le> room s" using 2(6,7) by (auto split: if_splits)
  have x: "x \<noteq> 0 \<longleftrightarrow> True \<in> set ?r"
    using word_bits_nonzero [OF 2(3)] 2(4) by simp
  from write_bit_room [OF 2(2) _ b(2), of "of_bool (x \<noteq> 0)"] obtain t where t:
    "stream_write_bit s (of_bool (x \<noteq> 0)) = Inr (of_bool (x \<noteq> 0), t)" "bs_ok t"
    "written t = written s @ [x \<noteq> 0]" "room t + 1 = room s" by auto
  show ?case
  proof (cases "True \<in> set ?r")
    case False
    with n b t x show ?thesis
      by (subst enc_outer.simps) (auto simp: enc_done_def)
  next
    case True
    have "enc_done t (inn ?r) (bits - 1) (n + sig ?r)
       (bind_res (enc_inner cnt t (bits - 1) n x) (\<lambda>(s, bits, n, x). enc_outer cnt s bits (n + 1) (drop_bit 1 x)))"
      by (rule 2(1)) (use 2 True t in simp_all)
    then obtain s' x' where r: "bind_res (enc_inner cnt t (bits - 1) n x)
        (\<lambda>(s, bits, n, x). enc_outer cnt s bits (n + 1) (drop_bit 1 x)) =
        Inr (s', bits - 1 - length (inn ?r), n + sig ?r, x')" "bs_ok s'" "written s' = written t @ inn ?r"
      "room s' + length (inn ?r) = room t" unfolding enc_done_def by blast
    have "enc_outer cnt s bits n x = bind_res (enc_inner cnt t (bits - 1) n x)
        (\<lambda>(s, bits, n, x). enc_outer cnt s bits (n + 1) (drop_bit 1 x))"
      using n b t x True by (subst enc_outer.simps) simp
    with r t x True show ?thesis by (simp add: enc_done_def)
  qed
next
  case 3
  then show ?case by simp
next
  case (4 a)
  then have "a" by simp
  have cnt: "cnt = Suc n" using 4 by simp
  have "enc_inner cnt s bits n x = Inr (s, bits, n, x)"
    by (subst enc_inner.simps) (simp add: cnt)
  moreover have "enc_outer cnt s bits (Suc n) (drop_bit 1 x) = Inr (s, bits, Suc n, drop_bit 1 x)"
    by (subst enc_outer.simps) (simp add: cnt)
  ultimately show ?case using 4 \<open>a\<close> by (simp add: enc_done_def)
next
  case (5 a b r)
  let ?r = "b # r"
  have n: "n < cnt - 1" using 5(6) by simp
  have bt: "bits \<noteq> 0" "1 \<le> room s" using 5(7,8) by auto
  have w: "bit x 0 = a" "word_bits (length ?r) (drop_bit 1 x) = ?r"
    using 5(5) word_bits_Suc [of "Suc (length r)" x] by simp_all
  have tk: "take_bit (length ?r) (drop_bit 1 x) = drop_bit 1 x"
    using take_bit_drop_bit_same [OF 5(4), of 1] by simp
  from write_bit_room [OF 5(3) _ bt(2), of "of_bool a"] obtain t where t:
    "stream_write_bit s (of_bool a) = Inr (of_bool a, t)" "bs_ok t"
    "written t = written s @ [a]" "room t + 1 = room s" by auto
  show ?case
  proof (cases a)
    case True
    have "enc_done t (grp ?r) (bits - 1) (n + 1 + sig ?r) (enc_outer cnt t (bits - 1) (n + 1) (drop_bit 1 x))"
      by (rule 5(1) [OF True]) (use 5(6-8) True t w tk in simp_all)
    moreover have "enc_inner cnt s bits n x = Inr (t, bits - 1, n, x)"
      using n bt t w True by (subst enc_inner.simps) (simp add: low_bit)
    ultimately show ?thesis
      using t True by (auto simp: enc_done_def)
  next
    case False
    have "enc_done t (inn ?r) (bits - 1) (n + 1 + sig ?r)
       (bind_res (enc_inner cnt t (bits - 1) (n + 1) (drop_bit 1 x))
          (\<lambda>(s, bits, n, x). enc_outer cnt s bits (n + 1) (drop_bit 1 x)))"
      by (rule 5(2) [OF False]) (use 5(6-9) False t w tk in simp_all)
    moreover have "enc_inner cnt s bits n x = enc_inner cnt t (bits - 1) (n + 1) (drop_bit 1 x)"
      using n bt t w False by (subst enc_inner.simps) (simp add: low_bit)
    moreover have "True \<in> set ?r" using 5(9) False by simp
    ultimately show ?thesis
      using t False by (auto simp: enc_done_def)
  qed
qed

section \<open>The decoder reads the code\<close>

text \<open>The word with given bits, least significant first.\<close>

primrec of_bits :: "bool list \<Rightarrow> u64" where
  "of_bits [] = 0"
| "of_bits (b # bs) = of_bool b + push_bit 1 (of_bits bs)"

definition dec_done :: "bitstream \<Rightarrow> bool list \<Rightarrow> bool list \<Rightarrow> nat \<Rightarrow> nat \<Rightarrow> u64 \<Rightarrow>
    err + bitstream \<times> nat \<times> nat \<times> u64 \<Rightarrow> bool" where
  "dec_done s code rest bits n x res \<longleftrightarrow>
     (\<exists>s'. res = Inr (s', bits - length code, n, x) \<and> bs_ok s' \<and> unread s' = rest \<and> bs_mem s' = bs_mem s)"

lemma push_of_bits: "push_bit n (of_bits (b # bs)) = push_bit n (of_bool b) + push_bit (Suc n) (of_bits bs)"
  by (simp add: push_bit_add)

lemma of_bits_none: "True \<notin> set r \<Longrightarrow> of_bits r = 0"
  by (induction r) auto

lemma dec_loops:
  "bs_ok s \<Longrightarrow> unread s = grp r @ rest \<Longrightarrow> n + length r = cnt \<Longrightarrow> length (grp r) \<le> bits \<Longrightarrow>
   dec_done s (grp r) rest bits (n + sig r) (x + push_bit n (of_bits r)) (dec_outer cnt s bits n x)"
  "bs_ok s \<Longrightarrow> unread s = inn r @ rest \<Longrightarrow> n + length r = cnt \<Longrightarrow> length (inn r) \<le> bits \<Longrightarrow>
   True \<in> set r \<Longrightarrow>
   dec_done s (inn r) rest bits (n + sig r) (x + push_bit n (of_bits r))
     (bind_res (dec_inner cnt s bits n) (\<lambda>(s, bits, n). dec_outer cnt s bits (n + 1) (x + push_bit n 1)))"
proof (induction r and r arbitrary: s bits n x and s bits n x rule: grp_inn.induct)
  case 1
  then show ?case by (subst dec_outer.simps) (simp add: dec_done_def)
next
  case (2 a r)
  let ?r = "a # r"
  have n: "n < cnt" using 2(4) by simp
  have b: "bits \<noteq> 0" using 2(5) by (auto split: if_splits)
  show ?case
  proof (cases "True \<in> set ?r")
    case False
    then have "unread s = False # rest" using 2(3) by simp
    from read_bit_ok [OF 2(2) this] obtain t where
      "stream_read_bit s = Inr (0, t)" "bs_ok t" "bs_mem t = bs_mem s" "unread t = rest" by auto
    with n b False of_bits_none [OF False] show ?thesis
      by (subst dec_outer.simps) (simp add: dec_done_def)
  next
    case True
    then have "unread s = True # inn ?r @ rest" using 2(3) by simp
    from read_bit_ok [OF 2(2) this] obtain t where t:
      "stream_read_bit s = Inr (1, t)" "bs_ok t" "bs_mem t = bs_mem s" "unread t = inn ?r @ rest" by auto
    have "dec_done t (inn ?r) rest (bits - 1) (n + sig ?r) (x + push_bit n (of_bits ?r))
       (bind_res (dec_inner cnt t (bits - 1) n) (\<lambda>(s, bits, n). dec_outer cnt s bits (n + 1) (x + push_bit n 1)))"
      by (rule 2(1)) (use 2 True t in simp_all)
    moreover have "dec_outer cnt s bits n x =
        bind_res (dec_inner cnt t (bits - 1) n) (\<lambda>(s, bits, n). dec_outer cnt s bits (n + 1) (x + push_bit n 1))"
      using n b t by (subst dec_outer.simps) simp
    moreover have "grp ?r = True # inn ?r" using True by simp
    ultimately show ?thesis
      using t(3) unfolding dec_done_def by simp
  qed
next
  case 3
  then show ?case by simp
next
  case (4 a)
  then have cnt: "cnt = Suc n" and a by simp_all
  have "dec_inner cnt s bits n = Inr (s, bits, n)"
    by (subst dec_inner.simps) (simp add: cnt)
  moreover have "dec_outer cnt s bits (Suc n) (x + push_bit n 1) = Inr (s, bits, Suc n, x + push_bit n 1)"
    by (subst dec_outer.simps) (simp add: cnt)
  ultimately show ?case using 4 \<open>a\<close> by (simp add: dec_done_def)
next
  case (5 a b r)
  let ?r = "b # r"
  have n: "n < cnt - 1" using 5(5) by simp
  have bt: "bits \<noteq> 0" using 5(6) by auto
  have u: "unread s = a # (if a then grp ?r else inn ?r) @ rest" using 5(4) by simp
  from read_bit_ok [OF 5(3) u] obtain t where t: "stream_read_bit s = Inr (of_bool a, t)" "bs_ok t"
    "bs_mem t = bs_mem s" "unread t = (if a then grp ?r else inn ?r) @ rest" by auto
  show ?case
  proof (cases a)
    case True
    have "dec_done t (grp ?r) rest (bits - 1) (n + 1 + sig ?r) (x + push_bit n 1 + push_bit (n + 1) (of_bits ?r))
        (dec_outer cnt t (bits - 1) (n + 1) (x + push_bit n 1))"
      by (rule 5(1) [OF True]) (use 5(5,6) True t in simp_all)
    moreover have "dec_inner cnt s bits n = Inr (t, bits - 1, n)"
      using n bt t True by (subst dec_inner.simps) simp
    moreover have "push_bit n (of_bits (a # ?r)) = push_bit n 1 + push_bit (n + 1) (of_bits ?r)"
      using True by (subst push_of_bits) simp
    ultimately show ?thesis
      using t(3) True unfolding dec_done_def by (simp add: add.assoc del: of_bits.simps)
  next
    case False
    have "dec_done t (inn ?r) rest (bits - 1) (n + 1 + sig ?r) (x + push_bit (n + 1) (of_bits ?r))
       (bind_res (dec_inner cnt t (bits - 1) (n + 1)) (\<lambda>(s, bits, n). dec_outer cnt s bits (n + 1) (x + push_bit n 1)))"
      by (rule 5(2) [OF False]) (use 5(5-7) False t in simp_all)
    moreover have "dec_inner cnt s bits n = dec_inner cnt t (bits - 1) (n + 1)"
      using n bt t False by (subst dec_inner.simps) simp
    moreover have "push_bit n (of_bits (a # ?r)) = push_bit (n + 1) (of_bits ?r)"
      using False by (subst push_of_bits) simp
    moreover have "True \<in> set ?r" using 5(7) False by simp
    ultimately show ?thesis
      using t(3) False unfolding dec_done_def by (simp del: of_bits.simps)
  qed
qed

section \<open>Bit planes\<close>

lemma bit_of_bits: "length p \<le> 64 \<Longrightarrow> bit (of_bits p) i \<longleftrightarrow> i < length p \<and> p ! i"
proof (induction p arbitrary: i)
  case (Cons b p)
  have one: "take_bit 1 (of_bool b :: u64) = of_bool b" by (cases b) simp_all
  have "bit (of_bits (b # p)) i \<longleftrightarrow> bit (of_bool b :: u64) i \<or> bit (push_bit 1 (of_bits p)) i"
    by (simp only: of_bits.simps add_above [OF one] bit_or_iff)
  also have "\<dots> \<longleftrightarrow> i < length (b # p) \<and> (b # p) ! i"
  proof (cases i)
    case 0
    have "\<not> bit (push_bit 1 (of_bits p)) 0" by (simp only: bit_push_bit_iff) simp
    with 0 show ?thesis by (simp only: bit_of_bool_iff) simp
  next
    case (Suc j)
    have IH: "bit (of_bits p) j \<longleftrightarrow> j < length p \<and> p ! j" using Cons by simp
    have "bit (push_bit 1 (of_bits p)) (Suc j) \<longleftrightarrow> Suc j < LENGTH(64) \<and> bit (of_bits p) j"
      by (simp only: bit_push_bit_iff possible_bit_word) simp
    then have "bit (push_bit 1 (of_bits p)) (Suc j) \<longleftrightarrow> j < length p \<and> p ! j"
      unfolding IH using Cons.prems by auto
    with Suc show ?thesis by (simp only: bit_of_bool_iff) simp
  qed
  finally show ?case .
qed simp

lemma word_bits_of_bits: "length p \<le> 64 \<Longrightarrow> n \<le> length p \<Longrightarrow> word_bits n (of_bits p) = take n p"
  by (rule nth_equalityI) (auto simp: bit_of_bits)

lemma take_bit_of_bits: "length p \<le> 64 \<Longrightarrow> take_bit n (of_bits p) = of_bits (take n p)"
  by (rule bit_eqI) (auto simp: bit_take_bit_iff bit_of_bits)

lemma drop_bit_of_bits: "length p \<le> 64 \<Longrightarrow> drop_bit n (of_bits p) = of_bits (drop n p)"
  by (rule bit_eqI) (auto simp: bit_drop_bit_eq bit_of_bits)

lemma of_bits_eq_0: "length p \<le> 64 \<Longrightarrow> of_bits p = 0 \<longleftrightarrow> True \<notin> set p"
proof
  assume "length p \<le> 64" "of_bits p = 0"
  then have "word_bits (length p) 0 = p" using word_bits_of_bits [of p "length p"] by simp
  then have "p = replicate (length p) False" by (simp add: word_bits_zero)
  then show "True \<notin> set p" by (metis in_set_replicate)
qed (rule of_bits_none)

lemma of_bits_split: "length p \<le> 64 \<Longrightarrow> of_bits (take n p) + push_bit n (of_bits (drop n p)) = of_bits p"
  using bits_ident [of n "of_bits p"] by (simp add: take_bit_of_bits drop_bit_of_bits add.commute)

definition plane :: "'a::len word list \<Rightarrow> nat \<Rightarrow> bool list" where
  "plane xs k = List.map (\<lambda>w. bit w k) xs"

lemma length_plane [simp]: "length (plane xs k) = length xs"
  by (simp add: plane_def)

lemma and_1_bit: "(ucast (drop_bit k w AND 1) :: u64) = of_bool (bit (w :: 'a::len word) k)"
  by (rule bit_eqI) (auto simp: bit_ucast_iff bit_and_iff bit_drop_bit_eq bit_1_iff bit_of_bool_iff intro: gr0I)

lemma extract_plane_eq:
  "i + c \<le> length xs \<Longrightarrow>
   extract_plane k xs c i x = Inr (x + push_bit i (of_bits (take c (drop i (plane xs k)))))"
proof (induction c arbitrary: i x)
  case (Suc c)
  have "take (Suc c) (drop i (plane xs k)) = bit (xs ! i) k # take c (drop (i + 1) (plane xs k))"
    using Suc.prems by (simp add: plane_def drop_map take_map Cons_nth_drop_Suc [symmetric])
  then have "push_bit i (of_bits (take (Suc c) (drop i (plane xs k)))) =
      push_bit i (of_bool (bit (xs ! i) k)) + push_bit (Suc i) (of_bits (take c (drop (i + 1) (plane xs k))))"
    by (simp only: push_of_bits)
  with Suc show ?case by (simp add: and_1_bit add.assoc)
qed simp

lemma deposit_ok:
  "length p \<le> 64 \<Longrightarrow> i + length p \<le> length ys \<Longrightarrow>
   \<exists>zs. deposit k i (of_bits p) ys = Inr zs \<and> length zs = length ys \<and>
     (\<forall>j < length ys. zs ! j = ys ! j + (if i \<le> j \<and> j - i < length p \<and> p ! (j - i) then push_bit k 1 else 0))"
proof (induction p arbitrary: i ys)
  case Nil
  then show ?case by (subst deposit.simps) simp
next
  case (Cons b p)
  show ?case
  proof (cases "of_bits (b # p) = 0")
    case True
    then have "True \<notin> set (b # p)" by (rule iffD1 [OF of_bits_eq_0 [OF Cons.prems(1)]])
    then have f: "(j < length (b # p) \<and> (b # p) ! j) = False" for j
      using nth_mem [of j "b # p"] by metis
    have "deposit k i (of_bits (b # p)) ys = Inr ys"
      unfolding True by (subst deposit.simps) simp
    then show ?thesis by (intro exI [of _ ys]) (simp only: f, simp)
  next
    case False
    let ?ys = "ys[i := ys ! i + push_bit k (ucast (of_bits (b # p) AND 1))]"
    have d: "drop_bit 1 (of_bits (b # p)) = of_bits p"
      using Cons.prems(1) drop_bit_of_bits [of "b # p" 1] by (simp del: of_bits.simps)
    have "ucast (of_bits (b # p) AND 1) = (of_bool b :: 'a word)"
    proof -
      have "of_bits (b # p) AND 1 = of_bits (take 1 (b # p))"
        using Cons.prems(1) take_bit_of_bits [of "b # p" 1]
        by (simp add: take_bit_eq_mask mask_eq_exp_minus_1 del: of_bits.simps)
      then show ?thesis by (cases b) simp_all
    qed
    then have y: "?ys = ys[i := ys ! i + push_bit k (of_bool b)]" by simp
    have "\<exists>zs. deposit k (i + 1) (of_bits p) ?ys = Inr zs \<and> length zs = length ?ys \<and>
        (\<forall>j < length ?ys. zs ! j = ?ys ! j +
          (if i + 1 \<le> j \<and> j - (i + 1) < length p \<and> p ! (j - (i + 1)) then push_bit k 1 else 0))"
      by (rule Cons.IH) (use Cons.prems in simp_all)
    then obtain zs where zs: "deposit k (i + 1) (of_bits p) ?ys = Inr zs" "length zs = length ys"
      "\<And>j. j < length ys \<Longrightarrow> zs ! j = ?ys ! j +
          (if i + 1 \<le> j \<and> j - (i + 1) < length p \<and> p ! (j - (i + 1)) then push_bit k 1 else 0)"
      by auto
    have "deposit k i (of_bits (b # p)) ys = Inr zs"
      using False Cons.prems(2) d zs(1) by (subst deposit.simps) (simp del: of_bits.simps)
    moreover have "zs ! j = ys ! j + (if i \<le> j \<and> j - i < length (b # p) \<and> (b # p) ! (j - i) then push_bit k 1 else 0)"
      if "j < length ys" for j
    proof -
      consider "j < i" | "j = i" | "j = i + 1 + (j - (i + 1))" "i < j" by linarith
      then show ?thesis
      proof cases
        case 3
        then have "j - i = Suc (j - (i + 1))" by simp
        with 3 zs(3) [OF that] show ?thesis by (simp add: y)
      qed (use zs(3) [OF that, unfolded y] that in simp_all)
    qed
    ultimately show ?thesis using zs(2) by (intro exI [of _ zs]) simp
  qed
qed

section \<open>Round trip of the coder\<close>

lemma code_planes_first:
  "0 < cnt \<Longrightarrow> length p = cnt \<Longrightarrow> n \<le> cnt \<Longrightarrow> 0 < length (code_planes (p # ps) n)"
  by (cases "drop n p") auto

lemma enc_planes_ok:
  fixes kmin :: nat
  assumes "0 < length xs" and "length xs \<le> 64"
  defines "ps \<equiv> \<lambda>k. List.map (plane xs) (rev [kmin..<k])"
  shows "bs_ok s \<Longrightarrow> n \<le> length xs \<Longrightarrow> length (code_planes (ps k) n) \<le> bits \<Longrightarrow>
    length (code_planes (ps k) n) \<le> room s \<Longrightarrow>
    \<exists>s'. enc_planes kmin (length xs) xs k s bits n = Inr (s', bits - length (code_planes (ps k) n)) \<and>
      bs_ok s' \<and> written s' = written s @ code_planes (ps k) n \<and>
      room s' + length (code_planes (ps k) n) = room s"
proof (induction k arbitrary: s bits n)
  case 0
  then show ?case by (simp add: ps_def)
next
  case (Suc k)
  show ?case
  proof (cases "kmin < Suc k")
    case False
    then have "ps (Suc k) = []" by (simp add: ps_def)
    with False Suc.prems show ?thesis by simp
  next
    case True
    let ?p = "plane xs k" let ?r = "drop n ?p" let ?n = "n + sig ?r"
    have ps: "ps (Suc k) = ?p # ps k" using True by (simp add: ps_def)
    have code: "code_planes (ps (Suc k)) n = take n ?p @ grp ?r @ code_planes (ps k) ?n" by (simp add: ps)
    have n': "?n \<le> length xs" using sig_le [of ?r] Suc.prems(2) by simp
    have "0 < length (code_planes (ps (Suc k)) n)"
      unfolding ps by (rule code_planes_first [OF assms(1)]) (use Suc.prems in simp_all)
    with Suc.prems(3) have "bits \<noteq> 0" by linarith
    moreover have "n \<le> bits" using Suc.prems(2,3) by (simp add: code)
    ultimately have bits: "bits \<noteq> 0" "min n bits = n" "n \<le> bits" by simp_all
    have ex: "extract_plane k xs (length xs) 0 0 = Inr (of_bits ?p)"
      using extract_plane_eq [of 0 "length xs" xs k 0] by simp
    have p64: "length ?p \<le> 64" using assms(2) by simp
    have w: "word_bits n (of_bits ?p) = take n ?p"
      by (rule word_bits_of_bits [OF p64]) (use Suc.prems in simp)
    have "\<exists>t. stream_write_bits s (of_bits ?p) n = Inr (drop_bit n (of_bits ?p), t) \<and> bs_ok t \<and>
        written t = written s @ word_bits n (of_bits ?p) \<and> room t + n = room s \<and> length (bs_mem t) = length (bs_mem s)"
      by (rule write_bits_room) (use Suc.prems assms(2) in \<open>simp_all add: code\<close>)
    then obtain t where t: "stream_write_bits s (of_bits ?p) n = Inr (of_bits ?r, t)" "bs_ok t"
      "written t = written s @ take n ?p" "room t + n = room s"
      unfolding w drop_bit_of_bits [OF p64] by blast
    have r64: "length ?r \<le> 64" using p64 by simp
    have "enc_done t (grp ?r) (bits - n) ?n (enc_outer (length xs) t (bits - n) n (of_bits ?r))"
      by (rule enc_loops(1))
        (use t Suc.prems(2-4) in \<open>simp_all add: code take_bit_of_bits [OF r64] word_bits_of_bits [OF r64]\<close>)
    then obtain u x where u: "enc_outer (length xs) t (bits - n) n (of_bits ?r) =
        Inr (u, bits - n - length (grp ?r), ?n, x)" "bs_ok u" "written u = written t @ grp ?r"
      "room u + length (grp ?r) = room t" unfolding enc_done_def by blast
    have "\<exists>s'. enc_planes kmin (length xs) xs k u (bits - n - length (grp ?r)) ?n =
          Inr (s', bits - n - length (grp ?r) - length (code_planes (ps k) ?n)) \<and>
        bs_ok s' \<and> written s' = written u @ code_planes (ps k) ?n \<and>
        room s' + length (code_planes (ps k) ?n) = room u"
      by (rule Suc.IH) (use u t n' Suc.prems(2-4) in \<open>simp_all add: code\<close>)
    then obtain s' where "enc_planes kmin (length xs) xs k u (bits - n - length (grp ?r)) ?n =
          Inr (s', bits - n - length (grp ?r) - length (code_planes (ps k) ?n))"
        "bs_ok s'" "written s' = written u @ code_planes (ps k) ?n"
        "room s' + length (code_planes (ps k) ?n) = room u" by blast
    with True bits ex t u Suc.prems(2) show ?thesis
      by (intro exI [of _ s']) (simp add: code Let_def)
  qed
qed

lemma bit_push_drop: "bit (push_bit m (drop_bit m w)) i \<longleftrightarrow> m \<le> i \<and> bit (w :: 'a::len word) i"
proof (cases "m \<le> i")
  case True
  then have "bit (push_bit m (drop_bit m w)) i \<longleftrightarrow> i < LENGTH('a) \<and> bit w i"
    by (simp only: bit_push_bit_iff bit_drop_bit_eq possible_bit_word comp_def) simp
  with True bit_imp_le_length [of w i] show ?thesis by blast
qed (simp only: bit_push_bit_iff, simp)

lemma push_drop_step:
  fixes w :: "'a::len word"
  shows "push_bit (Suc k) (drop_bit (Suc k) w) + push_bit k (of_bool (bit w k)) = push_bit k (drop_bit k w)"
proof -
  have b: "bit (push_bit k (of_bool (bit w k)) :: 'a word) i \<longleftrightarrow> i = k \<and> bit w k" for i
    using bit_imp_le_length [of w k] by (simp only: bit_push_bit_iff bit_of_bool_iff possible_bit_word) auto
  have "push_bit (Suc k) (drop_bit (Suc k) w) + push_bit k (of_bool (bit w k)) =
      push_bit (Suc k) (drop_bit (Suc k) w) OR push_bit k (of_bool (bit w k))"
    by (rule disjunctive_add_eq_or, rule bit_eqI) (simp only: bit_and_iff bit_push_drop b, auto)
  also have "\<dots> = push_bit k (drop_bit k w)"
    by (rule bit_eqI) (simp only: bit_or_iff bit_push_drop b, auto simp: Suc_le_eq nat_less_le)
  finally show ?thesis .
qed

text \<open>What is left of the integers when only the planes from \<open>k\<close> on are kept.\<close>

definition keep_from :: "nat \<Rightarrow> 'a::len word list \<Rightarrow> 'a word list" where
  "keep_from k xs = List.map (\<lambda>w. push_bit k (drop_bit k w)) xs"

lemma keep_from_simps [simp]: "length (keep_from k xs) = length xs" "keep_from 0 xs = xs"
  by (simp_all add: keep_from_def)

lemma deposit_plane:
  assumes "length xs \<le> 64"
  shows "deposit k 0 (of_bits (plane xs k)) (keep_from (Suc k) xs) = Inr (keep_from k xs)"
proof -
  obtain zs where zs: "deposit k 0 (of_bits (plane xs k)) (keep_from (Suc k) xs) = Inr zs"
    "length zs = length xs"
    "\<And>j. j < length xs \<Longrightarrow> zs ! j = keep_from (Suc k) xs ! j +
       (if 0 \<le> j \<and> j - 0 < length (plane xs k) \<and> plane xs k ! (j - 0) then push_bit k 1 else 0)"
    using deposit_ok [of "plane xs k" 0 "keep_from (Suc k) xs" k] assms by auto
  have "zs = keep_from k xs"
  proof (rule nth_equalityI)
    fix j
    assume "j < length zs"
    then have j: "j < length xs" using zs(2) by simp
    have "zs ! j = push_bit (Suc k) (drop_bit (Suc k) (xs ! j)) + push_bit k (of_bool (bit (xs ! j) k))"
      unfolding zs(3) [OF j] using j
      by (cases "bit (xs ! j) k") (simp_all add: keep_from_def plane_def)
    then have "zs ! j = push_bit k (drop_bit k (xs ! j))" by (simp only: push_drop_step)
    with j show "zs ! j = keep_from k xs ! j" by (simp add: keep_from_def)
  qed (simp add: zs(2))
  with zs(1) show ?thesis by simp
qed

lemma dec_planes_ok:
  fixes kmin :: nat
  assumes "0 < length xs" and "length xs \<le> 64"
  defines "ps \<equiv> \<lambda>k. List.map (plane xs) (rev [kmin..<k])"
  shows "bs_ok s \<Longrightarrow> n \<le> length xs \<Longrightarrow> kmin \<le> k \<Longrightarrow> length (code_planes (ps k) n) \<le> bits \<Longrightarrow>
    unread s = code_planes (ps k) n @ rest \<Longrightarrow>
    \<exists>s'. dec_planes kmin (length xs) (keep_from k xs) k s bits n =
        Inr (keep_from kmin xs, s', bits - length (code_planes (ps k) n)) \<and>
      bs_ok s' \<and> unread s' = rest \<and> bs_mem s' = bs_mem s"
proof (induction k arbitrary: s bits n)
  case 0
  then show ?case by (simp add: ps_def)
next
  case (Suc k)
  show ?case
  proof (cases "kmin < Suc k")
    case False
    then have "ps (Suc k) = []" "kmin = Suc k" using Suc.prems(3) by (simp_all add: ps_def)
    with Suc.prems show ?thesis by simp
  next
    case True
    let ?p = "plane xs k" let ?r = "drop n ?p" let ?n = "n + sig ?r"
    have ps: "ps (Suc k) = ?p # ps k" using True by (simp add: ps_def)
    have code: "code_planes (ps (Suc k)) n = take n ?p @ grp ?r @ code_planes (ps k) ?n" by (simp add: ps)
    have n': "?n \<le> length xs" using sig_le [of ?r] Suc.prems(2) by simp
    have "0 < length (code_planes (ps (Suc k)) n)"
      unfolding ps by (rule code_planes_first [OF assms(1)]) (use Suc.prems in simp_all)
    with Suc.prems(4) have "bits \<noteq> 0" by linarith
    moreover have "n \<le> bits" using Suc.prems(2,4) by (simp add: code)
    ultimately have bits: "bits \<noteq> 0" "min n bits = n" "n \<le> bits" by simp_all
    have p64: "length ?p \<le> 64" using assms(2) by simp
    have "word_bits n (of_bits ?p) = take n ?p"
      by (rule word_bits_of_bits [OF p64]) (use Suc.prems in simp)
    then have "\<exists>t. stream_read_bits s n = Inr (take_bit n (of_bits ?p), t) \<and> bs_ok t \<and>
        bs_mem t = bs_mem s \<and> unread t = grp ?r @ code_planes (ps k) ?n @ rest"
      by (intro read_bits_Inr) (use Suc.prems assms(2) in \<open>simp_all add: code\<close>)
    then obtain t where t: "stream_read_bits s n = Inr (of_bits (take n ?p), t)" "bs_ok t"
      "bs_mem t = bs_mem s" "unread t = grp ?r @ code_planes (ps k) ?n @ rest"
      unfolding take_bit_of_bits [OF p64] by blast
    have "dec_done t (grp ?r) (code_planes (ps k) ?n @ rest) (bits - n) ?n
        (of_bits (take n ?p) + push_bit n (of_bits ?r)) (dec_outer (length xs) t (bits - n) n (of_bits (take n ?p)))"
      by (rule dec_loops(1)) (use t Suc.prems(2,4) in \<open>simp_all add: code\<close>)
    then obtain u where u: "dec_outer (length xs) t (bits - n) n (of_bits (take n ?p)) =
        Inr (u, bits - n - length (grp ?r), ?n, of_bits ?p)" "bs_ok u" "unread u = code_planes (ps k) ?n @ rest"
      "bs_mem u = bs_mem t" unfolding dec_done_def of_bits_split [OF p64] by blast
    have "\<exists>s'. dec_planes kmin (length xs) (keep_from k xs) k u (bits - n - length (grp ?r)) ?n =
          Inr (keep_from kmin xs, s', bits - n - length (grp ?r) - length (code_planes (ps k) ?n)) \<and>
        bs_ok s' \<and> unread s' = rest \<and> bs_mem s' = bs_mem u"
      by (rule Suc.IH) (use u t n' Suc.prems(2-4) True in \<open>simp_all add: code\<close>)
    then obtain s' where "dec_planes kmin (length xs) (keep_from k xs) k u (bits - n - length (grp ?r)) ?n =
          Inr (keep_from kmin xs, s', bits - n - length (grp ?r) - length (code_planes (ps k) ?n))"
        "bs_ok s'" "unread s' = rest" "bs_mem s' = bs_mem u" by blast
    with True bits t u Suc.prems(2) deposit_plane [OF assms(2), of k] show ?thesis
      by (intro exI [of _ s']) (simp add: code Let_def)
  qed
qed

text \<open>
  With room for the code, decoding what was encoded gives the integers back without the planes
  below the precision.
\<close>

definition plane_code :: "nat \<Rightarrow> 'a::len word list \<Rightarrow> bool list" where
  "plane_code prec xs = code_planes (List.map (plane xs) (rev [LENGTH('a) - prec..<LENGTH('a)])) 0"

lemma plane_code_length:
  "length (plane_code prec (xs :: 'a::len word list)) \<le> min prec LENGTH('a) * length xs + length xs"
proof -
  have "length (plane_code prec xs) \<le> length (List.map (plane xs) (rev [LENGTH('a) - prec..<LENGTH('a)])) * length xs
      + (length xs - 0)"
    unfolding plane_code_def by (rule code_planes_length) simp_all
  also have "length (List.map (plane xs) (rev [LENGTH('a) - prec..<LENGTH('a)])) = min prec LENGTH('a)"
    by simp
  finally show ?thesis by simp
qed

lemma kmin_eq: "(if a > b then a - b else 0) = a - (b :: nat)"
  by simp

lemma encode_ints_ok:
  fixes xs :: "'a::len word list"
  assumes "0 < length xs" "length xs \<le> 64" "bs_ok s"
    and "length (plane_code prec xs) \<le> maxbits" "length (plane_code prec xs) \<le> room s"
  shows "\<exists>s'. encode_ints s maxbits prec xs (length xs) = Inr (length (plane_code prec xs), s') \<and>
    bs_ok s' \<and> written s' = written s @ plane_code prec xs \<and>
    room s' + length (plane_code prec xs) = room s"
proof -
  have "\<exists>s'. enc_planes (LENGTH('a) - prec) (length xs) xs LENGTH('a) s maxbits 0 =
      Inr (s', maxbits - length (plane_code prec xs)) \<and>
      bs_ok s' \<and> written s' = written s @ plane_code prec xs \<and>
      room s' + length (plane_code prec xs) = room s"
    using assms unfolding plane_code_def by (intro enc_planes_ok) simp_all
  with assms(4) show ?thesis
    by (auto simp: encode_ints_def Let_def kmin_eq)
qed

lemma keep_from_beyond: "keep_from LENGTH('a) (xs :: 'a::len word list) = replicate (length xs) 0"
proof -
  have "keep_from LENGTH('a) xs = List.map (\<lambda>_. 0) xs"
    unfolding keep_from_def by (rule map_cong [OF refl]) (simp add: drop_bit_word_beyond)
  then show ?thesis by (simp add: map_replicate_const)
qed

lemma decode_ints_ok:
  fixes xs ys :: "'a::len word list"
  assumes "0 < length xs" "length xs \<le> 64" "bs_ok s" "length ys = length xs"
    and "length (plane_code prec xs) \<le> maxbits" "unread s = plane_code prec xs @ rest"
  shows "\<exists>s'. decode_ints s maxbits prec ys (length xs) =
      Inr (length (plane_code prec xs), keep_from (LENGTH('a) - prec) xs, s') \<and>
    bs_ok s' \<and> unread s' = rest \<and> bs_mem s' = bs_mem s"
proof -
  have "\<exists>s'. dec_planes (LENGTH('a) - prec) (length xs) (keep_from LENGTH('a) xs) LENGTH('a) s maxbits 0 =
      Inr (keep_from (LENGTH('a) - prec) xs, s', maxbits - length (plane_code prec xs)) \<and>
      bs_ok s' \<and> unread s' = rest \<and> bs_mem s' = bs_mem s"
    using assms unfolding plane_code_def by (intro dec_planes_ok) simp_all
  with assms(4,5) show ?thesis
    by (auto simp: decode_ints_def Let_def kmin_eq keep_from_beyond)
qed

end
