(* ===== verification/Zfp_Many.thy ===== *)
theory Zfp_Many
  imports Zfp_Plane
begin

text \<open>
  The embedded coder for blocks of more than 64 integers, which are those of four dimensions:
  \<^verbatim>\<open>encode_many_ints\<close> of \<^verbatim>\<open>src/zfp-0.5.5/src/template/encode.c\<close> and \<^verbatim>\<open>decode_many_ints\<close> of
  \<^verbatim>\<open>src/zfp-0.5.5/src/template/decode.c\<close>.  A bit plane does not fit in a word here, so the bits are taken from the
  integers one by one, and the test of a group counts its one bits.  The code is the same as that of the coder
  for at most 64 integers.
\<close>

section \<open>Encoding\<close>

text \<open>Bit \<open>k\<close> of an integer, as the argument of \<^verbatim>\<open>stream_write_bit\<close>.\<close>

definition plane_bit :: "nat \<Rightarrow> 'a::len word \<Rightarrow> u32" where
  "plane_bit k w = ucast (drop_bit k w AND 1)"

text \<open>Step 1 for \<open>c\<close> integers from the index \<open>i\<close> on, and step 2.\<close>

primrec write_plane :: "nat \<Rightarrow> 'a::len word list \<Rightarrow> nat \<Rightarrow> nat \<Rightarrow> bitstream \<Rightarrow> err + bitstream" where
  "write_plane k xs 0 i s = Inr s"
| "write_plane k xs (Suc c) i s =
     (if i < length xs
      then bind_res (stream_write_bit s (plane_bit k (xs ! i))) (\<lambda>(_, s). write_plane k xs c (i + 1) s)
      else Inl Out_Of_Bounds)"

primrec count_plane :: "nat \<Rightarrow> 'a::len word list \<Rightarrow> nat \<Rightarrow> nat \<Rightarrow> u32 \<Rightarrow> err + u32" where
  "count_plane k xs 0 i c = Inr c"
| "count_plane k xs (Suc r) i c =
     (if i < length xs then count_plane k xs r (i + 1) (c + plane_bit k (xs ! i)) else Inl Out_Of_Bounds)"

function many_inner ::
  "nat \<Rightarrow> 'a::len word list \<Rightarrow> nat \<Rightarrow> bitstream \<Rightarrow> nat \<Rightarrow> nat \<Rightarrow> err + bitstream \<times> nat \<times> nat" where
  "many_inner k xs cnt s bits n =
     (if n < cnt - 1 \<and> bits \<noteq> 0
      then if n < length xs
           then bind_res (stream_write_bit s (plane_bit k (xs ! n))) (\<lambda>(b, s).
                  if b = 0 then many_inner k xs cnt s (bits - 1) (n + 1) else Inr (s, bits - 1, n))
           else Inl Out_Of_Bounds
      else Inr (s, bits, n))"
  by pat_completeness auto
termination
  by (relation "measure (\<lambda>(_, _, _, _, bits, _). bits)") auto

declare many_inner.simps [simp del]

lemma many_inner_mono: "many_inner k xs cnt s bits n = Inr (s', bits', n') \<Longrightarrow> bits' \<le> bits"
proof (induction k xs cnt s bits n rule: many_inner.induct)
  case (1 k xs cnt s bits n)
  show ?case
  proof (cases "n < cnt - 1 \<and> bits \<noteq> 0 \<and> n < length xs")
    case False
    with 1(2) show ?thesis by (subst (asm) many_inner.simps) (auto split: if_splits)
  next
    case True
    with 1(2) obtain b t where w: "stream_write_bit s (plane_bit k (xs ! n)) = Inr (b, t)"
      and r: "(if b = 0 then many_inner k xs cnt t (bits - 1) (n + 1) else Inr (t, bits - 1, n)) = Inr (s', bits', n')"
      by (subst (asm) many_inner.simps) (auto simp: bind_res_eq_Inr)
    have "n < cnt - 1 \<and> bits \<noteq> 0" "n < length xs" using True by simp_all
    from r 1(1) [OF this w refl] show ?thesis by (auto split: if_splits)
  qed
qed

function many_outer ::
  "nat \<Rightarrow> 'a::len word list \<Rightarrow> nat \<Rightarrow> bitstream \<Rightarrow> nat \<Rightarrow> nat \<Rightarrow> u32 \<Rightarrow> err + bitstream \<times> nat \<times> nat" where
  "many_outer k xs cnt s bits n c =
     (if n < cnt \<and> bits \<noteq> 0
      then bind_res (stream_write_bit s (of_bool (c \<noteq> 0))) (\<lambda>(b, s).
             if b \<noteq> 0
             then bind_res (many_inner k xs cnt s (bits - 1) n) (\<lambda>(s, bits, n).
                    many_outer k xs cnt s bits (n + 1) (c - 1))
             else Inr (s, bits - 1, n))
      else Inr (s, bits, n))"
  by pat_completeness auto
termination
  by (relation "measure (\<lambda>(_, _, _, _, bits, _, _). bits)") (auto dest!: many_inner_mono)

declare many_outer.simps [simp del]

primrec many_planes ::
  "nat \<Rightarrow> nat \<Rightarrow> 'a::len word list \<Rightarrow> nat \<Rightarrow> bitstream \<Rightarrow> nat \<Rightarrow> nat \<Rightarrow> err + bitstream \<times> nat" where
  "many_planes kmin cnt xs 0 s bits n = Inr (s, bits)"
| "many_planes kmin cnt xs (Suc k) s bits n =
     (if bits \<noteq> 0 \<and> kmin < Suc k
      then let m = min n bits; bits = bits - m in
           bind_res (write_plane k xs m 0 s) (\<lambda>s.
           bind_res (count_plane k xs (cnt - m) m 0) (\<lambda>c.
           bind_res (many_outer k xs cnt s bits n c) (\<lambda>(s, bits, n).
             many_planes kmin cnt xs k s bits n)))
      else Inr (s, bits))"

definition encode_many_ints ::
  "bitstream \<Rightarrow> nat \<Rightarrow> nat \<Rightarrow> 'a::len word list \<Rightarrow> nat \<Rightarrow> err + nat \<times> bitstream" where
  "encode_many_ints s maxbits maxprec xs cnt =
     (let intprec = LENGTH('a);
          kmin = (if intprec > maxprec then intprec - maxprec else 0)
      in bind_res (many_planes kmin cnt xs intprec s maxbits 0) (\<lambda>(s, bits). Inr (maxbits - bits, s)))"

section \<open>Decoding\<close>

text \<open>\<open>add_bit k i xs\<close> is \<^verbatim>\<open>data[i] += (UInt)1 << k\<close>.  The inner loop is that of \<^verbatim>\<open>decode_ints\<close>.\<close>

definition add_bit :: "nat \<Rightarrow> nat \<Rightarrow> 'a::len word list \<Rightarrow> err + 'a word list" where
  "add_bit k i xs = (if i < length xs then Inr (xs[i := xs ! i + push_bit k 1]) else Inl Out_Of_Bounds)"

primrec read_plane :: "nat \<Rightarrow> nat \<Rightarrow> nat \<Rightarrow> bitstream \<Rightarrow> 'a::len word list \<Rightarrow> err + bitstream \<times> 'a word list" where
  "read_plane k 0 i s xs = Inr (s, xs)"
| "read_plane k (Suc c) i s xs =
     bind_res (stream_read_bit s) (\<lambda>(b, s).
     bind_res (if b \<noteq> 0 then add_bit k i xs else Inr xs) (read_plane k c (i + 1) s))"

function many_dec_outer ::
  "nat \<Rightarrow> nat \<Rightarrow> bitstream \<Rightarrow> nat \<Rightarrow> nat \<Rightarrow> 'a::len word list \<Rightarrow> err + bitstream \<times> nat \<times> nat \<times> 'a word list" where
  "many_dec_outer k cnt s bits n xs =
     (if n < cnt \<and> bits \<noteq> 0
      then bind_res (stream_read_bit s) (\<lambda>(b, s).
             if b \<noteq> 0
             then bind_res (dec_inner cnt s (bits - 1) n) (\<lambda>(s, bits, n).
                  bind_res (add_bit k n xs) (many_dec_outer k cnt s bits (n + 1)))
             else Inr (s, bits - 1, n, xs))
      else Inr (s, bits, n, xs))"
  by pat_completeness auto
termination
  by (relation "measure (\<lambda>(_, _, _, bits, _, _). bits)") (auto dest!: dec_inner_mono)

declare many_dec_outer.simps [simp del]

primrec many_dec_planes ::
  "nat \<Rightarrow> nat \<Rightarrow> 'a::len word list \<Rightarrow> nat \<Rightarrow> bitstream \<Rightarrow> nat \<Rightarrow> nat \<Rightarrow> err + 'a word list \<times> bitstream \<times> nat" where
  "many_dec_planes kmin cnt xs 0 s bits n = Inr (xs, s, bits)"
| "many_dec_planes kmin cnt xs (Suc k) s bits n =
     (if bits \<noteq> 0 \<and> kmin < Suc k
      then let m = min n bits; bits = bits - m in
           bind_res (read_plane k m 0 s xs) (\<lambda>(s, xs).
           bind_res (many_dec_outer k cnt s bits n xs) (\<lambda>(s, bits, n, xs).
             many_dec_planes kmin cnt xs k s bits n))
      else Inr (xs, s, bits))"

definition decode_many_ints ::
  "bitstream \<Rightarrow> nat \<Rightarrow> nat \<Rightarrow> 'a::len word list \<Rightarrow> nat \<Rightarrow> err + nat \<times> 'a word list \<times> bitstream" where
  "decode_many_ints s maxbits maxprec xs cnt =
     (let intprec = LENGTH('a);
          kmin = (if intprec > maxprec then intprec - maxprec else 0)
      in if cnt \<le> length xs
         then bind_res (many_dec_planes kmin cnt (replicate cnt 0 @ drop cnt xs) intprec s maxbits 0)
                (\<lambda>(xs, s, bits). Inr (maxbits - bits, xs, s))
         else Inl Out_Of_Bounds)"

section \<open>The encoder writes the code\<close>

lemma plane_bit_eq: "plane_bit k w = of_bool (bit w k)"
  unfolding plane_bit_def
  by (rule bit_eqI) (auto simp: bit_ucast_iff bit_and_iff bit_drop_bit_eq bit_1_iff bit_of_bool_iff intro: gr0I)

lemma drop_plane_Cons:
  assumes "drop n (plane xs k) = b # r"
  shows "n < length xs" "bit (xs ! n) k = b" "drop (Suc n) (plane xs k) = r"
proof -
  show n: "n < length xs"
    using assms by (metis drop_all length_plane list.distinct(1) not_le)
  have "drop n (plane xs k) = bit (xs ! n) k # drop (Suc n) (plane xs k)"
    using n Cons_nth_drop_Suc [of n "plane xs k"] by (simp add: plane_def)
  with assms show "bit (xs ! n) k = b" "drop (Suc n) (plane xs k) = r" by simp_all
qed

lemma write_plane_ok:
  "bs_ok s \<Longrightarrow> i + c \<le> length xs \<Longrightarrow> c \<le> room s \<Longrightarrow>
   \<exists>s'. write_plane k xs c i s = Inr s' \<and> bs_ok s' \<and> written s' = written s @ take c (drop i (plane xs k)) \<and>
     room s' + c = room s"
proof (induction c arbitrary: i s)
  case (Suc c)
  let ?b = "bit (xs ! i) k"
  have d: "drop i (plane xs k) = ?b # drop (Suc i) (plane xs k)"
    using Suc.prems(2) Cons_nth_drop_Suc [of i "plane xs k"] by (simp add: plane_def)
  have "1 \<le> room s" using Suc.prems(3) by simp
  from write_bit_room [OF Suc.prems(1) _ this, of "of_bool ?b"] obtain t where
    t: "stream_write_bit s (of_bool ?b) = Inr (of_bool ?b, t)" "bs_ok t" "written t = written s @ [?b]"
      "room t + 1 = room s" by auto
  have "\<exists>s'. write_plane k xs c (Suc i) t = Inr s' \<and> bs_ok s' \<and>
      written s' = written t @ take c (drop (Suc i) (plane xs k)) \<and> room s' + c = room t"
    by (rule Suc.IH) (use Suc.prems t in simp_all)
  then show ?case using t Suc.prems by (auto simp: plane_bit_eq d)
qed simp

definition ones :: "bool list \<Rightarrow> nat" where
  "ones p = length (List.filter (\<lambda>b. b) p)"

lemma ones_simps [simp]: "ones [] = 0" "ones (b # p) = (if b then Suc (ones p) else ones p)"
  by (simp_all add: ones_def)

lemma ones_le: "ones p \<le> length p"
  by (simp add: ones_def)

lemma ones_0: "ones p = 0 \<longleftrightarrow> True \<notin> set p"
  by (induction p) auto

lemma ones_word: "length p < 2 ^ 32 \<Longrightarrow> (word_of_nat (ones p) :: u32) = 0 \<longleftrightarrow> True \<notin> set p"
proof -
  assume "length p < 2 ^ 32"
  then have "ones p < 2 ^ 32" using ones_le [of p] by simp
  then have "unat (word_of_nat (ones p) :: u32) = ones p" by (simp add: unsigned_of_nat take_bit_nat_eq_self)
  then show ?thesis using ones_0 [of p] by (metis unsigned_0 unat_eq_zero)
qed

lemma count_plane_ok:
  "i + r \<le> length xs \<Longrightarrow> count_plane k xs r i c = Inr (c + word_of_nat (ones (take r (drop i (plane xs k)))))"
proof (induction r arbitrary: i c)
  case (Suc r)
  have d: "drop i (plane xs k) = bit (xs ! i) k # drop (Suc i) (plane xs k)"
    using Suc.prems Cons_nth_drop_Suc [of i "plane xs k"] by (simp add: plane_def)
  have "count_plane k xs r (i + 1) (c + plane_bit k (xs ! i)) =
      Inr (c + plane_bit k (xs ! i) + word_of_nat (ones (take r (drop (i + 1) (plane xs k)))))"
    by (rule Suc.IH) (use Suc.prems in simp)
  then show ?case using Suc.prems by (simp add: d plane_bit_eq)
qed simp

definition many_done :: "bitstream \<Rightarrow> bool list \<Rightarrow> nat \<Rightarrow> nat \<Rightarrow> err + bitstream \<times> nat \<times> nat \<Rightarrow> bool" where
  "many_done s code bits n res \<longleftrightarrow>
     (\<exists>s'. res = Inr (s', bits - length code, n) \<and> bs_ok s' \<and> written s' = written s @ code \<and>
        room s' + length code = room s)"

lemma many_loops:
  fixes xs :: "'a::len word list"
  assumes "length xs < 2 ^ 32"
  shows "bs_ok s \<Longrightarrow> drop n (plane xs k) = r \<Longrightarrow> n + length r = length xs \<Longrightarrow>
    length (grp r) \<le> bits \<Longrightarrow> length (grp r) \<le> room s \<Longrightarrow>
    many_done s (grp r) bits (n + sig r) (many_outer k xs (length xs) s bits n (word_of_nat (ones r)))"
  and "bs_ok s \<Longrightarrow> drop n (plane xs k) = r \<Longrightarrow> n + length r = length xs \<Longrightarrow>
    length (inn r) \<le> bits \<Longrightarrow> length (inn r) \<le> room s \<Longrightarrow> True \<in> set r \<Longrightarrow>
    many_done s (inn r) bits (n + sig r)
     (bind_res (many_inner k xs (length xs) s bits n) (\<lambda>(s, bits, n).
        many_outer k xs (length xs) s bits (n + 1) (word_of_nat (ones r) - 1)))"
proof (induction r and r arbitrary: s bits n and s bits n rule: grp_inn.induct)
  case 1
  then show ?case by (subst many_outer.simps) (simp add: many_done_def)
next
  case (2 a r)
  let ?r = "a # r" and ?c = "word_of_nat (ones (a # r)) :: u32"
  have n: "n < length xs" using 2(4) by simp
  have b: "bits \<noteq> 0" "1 \<le> room s" using 2(5,6) by (auto split: if_splits)
  have "length ?r < 2 ^ 32" using 2(4) assms by simp
  then have c: "?c \<noteq> 0 \<longleftrightarrow> True \<in> set ?r" using ones_word by blast
  from write_bit_room [OF 2(2) _ b(2), of "of_bool (?c \<noteq> 0)"] obtain t where t:
    "stream_write_bit s (of_bool (?c \<noteq> 0)) = Inr (of_bool (?c \<noteq> 0), t)" "bs_ok t"
    "written t = written s @ [?c \<noteq> 0]" "room t + 1 = room s" by auto
  show ?case
  proof (cases "True \<in> set ?r")
    case False
    then have "?c = 0" using c by blast
    then show ?thesis using n b t False by (subst many_outer.simps) (auto simp: many_done_def)
  next
    case True
    have "many_done t (inn ?r) (bits - 1) (n + sig ?r)
       (bind_res (many_inner k xs (length xs) t (bits - 1) n) (\<lambda>(s, bits, n).
          many_outer k xs (length xs) s bits (n + 1) (?c - 1)))"
      by (rule 2(1)) (use 2 True t in simp_all)
    then obtain s' where r: "bind_res (many_inner k xs (length xs) t (bits - 1) n) (\<lambda>(s, bits, n).
          many_outer k xs (length xs) s bits (n + 1) (?c - 1)) =
        Inr (s', bits - 1 - length (inn ?r), n + sig ?r)" "bs_ok s'" "written s' = written t @ inn ?r"
      "room s' + length (inn ?r) = room t" unfolding many_done_def by blast
    have c1: "?c \<noteq> 0" using c True by blast
    have "many_outer k xs (length xs) s bits n ?c = bind_res (many_inner k xs (length xs) t (bits - 1) n)
        (\<lambda>(s, bits, n). many_outer k xs (length xs) s bits (n + 1) (?c - 1))"
      using n b(1) t(1) by (subst many_outer.simps) (simp add: c1 del: ones_simps)
    with r t(3,4) c1 True show ?thesis unfolding many_done_def by (simp del: ones_simps)
  qed
next
  case 3
  then show ?case by simp
next
  case (4 a)
  then have "a" by simp
  have cnt: "length xs = Suc n" using 4 by simp
  have "many_inner k xs (length xs) s bits n = Inr (s, bits, n)"
    by (subst many_inner.simps) (simp add: cnt)
  moreover have "many_outer k xs (length xs) s bits (Suc n) c = Inr (s, bits, Suc n)" for c
    by (subst many_outer.simps) (simp add: cnt)
  ultimately show ?case using 4 \<open>a\<close> by (simp add: many_done_def)
next
  case (5 a b r)
  let ?r = "b # r"
  have n: "n < length xs - 1" "n < length xs" using 5(5) by simp_all
  have bt: "bits \<noteq> 0" "1 \<le> room s" using 5(6,7) by auto
  have w: "bit (xs ! n) k = a" "drop (Suc n) (plane xs k) = ?r" using drop_plane_Cons [OF 5(4)] by simp_all
  from write_bit_room [OF 5(3) _ bt(2), of "of_bool a"] obtain t where t:
    "stream_write_bit s (of_bool a) = Inr (of_bool a, t)" "bs_ok t"
    "written t = written s @ [a]" "room t + 1 = room s" by auto
  show ?case
  proof (cases a)
    case True
    have "many_done t (grp ?r) (bits - 1) (n + 1 + sig ?r)
        (many_outer k xs (length xs) t (bits - 1) (n + 1) (word_of_nat (ones ?r)))"
      by (rule 5(1) [OF True]) (use 5(5-7) True t w in simp_all)
    then obtain s' where s': "many_outer k xs (length xs) t (bits - 1) (n + 1) (word_of_nat (ones ?r)) =
        Inr (s', bits - 1 - length (grp ?r), n + 1 + sig ?r)" "bs_ok s'" "written s' = written t @ grp ?r"
      "room s' + length (grp ?r) = room t" unfolding many_done_def by blast
    have i: "many_inner k xs (length xs) s bits n = Inr (t, bits - 1, n)"
      using n bt t True by (subst many_inner.simps) (simp add: plane_bit_eq w(1))
    have o: "(word_of_nat (ones (a # ?r)) :: u32) - 1 = word_of_nat (ones ?r)" using True by simp
    have "inn (a # ?r) = True # grp ?r" "sig (a # ?r) = Suc (sig ?r)" using True by simp_all
    with s' t(3,4) True show ?thesis unfolding many_done_def i o bind_res_Inr prod.case
      by (simp del: ones_simps grp.simps sig.simps)
  next
    case False
    have o: "ones (a # ?r) = ones ?r" using False by simp
    have "many_done t (inn ?r) (bits - 1) (n + 1 + sig ?r)
       (bind_res (many_inner k xs (length xs) t (bits - 1) (n + 1)) (\<lambda>(s, bits, n).
          many_outer k xs (length xs) s bits (n + 1) (word_of_nat (ones ?r) - 1)))"
      by (rule 5(2) [OF False]) (use 5(5-8) False t w in simp_all)
    moreover have "many_inner k xs (length xs) s bits n = many_inner k xs (length xs) t (bits - 1) (n + 1)"
      using n bt t False by (subst many_inner.simps) (simp add: plane_bit_eq w(1))
    moreover have "True \<in> set ?r" using 5(8) False by simp
    ultimately show ?thesis
      using t False unfolding many_done_def o by (auto simp del: ones_simps)
  qed
qed

lemma many_planes_ok:
  fixes kmin :: nat
  assumes "0 < length xs" and "length xs < 2 ^ 32"
  defines "ps \<equiv> \<lambda>k. List.map (plane xs) (rev [kmin..<k])"
  shows "bs_ok s \<Longrightarrow> n \<le> length xs \<Longrightarrow> length (code_planes (ps k) n) \<le> bits \<Longrightarrow>
    length (code_planes (ps k) n) \<le> room s \<Longrightarrow>
    \<exists>s'. many_planes kmin (length xs) xs k s bits n = Inr (s', bits - length (code_planes (ps k) n)) \<and>
      bs_ok s' \<and> written s' = written s @ code_planes (ps k) n \<and>
      room s' + length (code_planes (ps k) n) = room s"
proof (induction k arbitrary: s bits n)
  case 0
  then show ?case by (simp add: ps_def)
next
  case (Suc k)
  show ?case
  proof (cases "kmin < Suc k")
    case False
    then have "ps (Suc k) = []" by (simp add: ps_def)
    with False Suc.prems show ?thesis by simp
  next
    case True
    let ?p = "plane xs k" let ?r = "drop n ?p" let ?n = "n + sig ?r"
    have ps: "ps (Suc k) = ?p # ps k" using True by (simp add: ps_def)
    have code: "code_planes (ps (Suc k)) n = take n ?p @ grp ?r @ code_planes (ps k) ?n" by (simp add: ps)
    have n': "?n \<le> length xs" using sig_le [of ?r] Suc.prems(2) by simp
    have "0 < length (code_planes (ps (Suc k)) n)"
      unfolding ps by (rule code_planes_first [OF assms(1)]) (use Suc.prems in simp_all)
    with Suc.prems(3) have "bits \<noteq> 0" by linarith
    moreover have "n \<le> bits" using Suc.prems(2,3) by (simp add: code)
    ultimately have bits: "bits \<noteq> 0" "min n bits = n" "n \<le> bits" by simp_all
    have "\<exists>t. write_plane k xs n 0 s = Inr t \<and> bs_ok t \<and> written t = written s @ take n (drop 0 ?p) \<and>
        room t + n = room s"
      by (rule write_plane_ok) (use Suc.prems in \<open>simp_all add: code\<close>)
    then obtain t where t: "write_plane k xs n 0 s = Inr t" "bs_ok t" "written t = written s @ take n ?p"
      "room t + n = room s" by auto
    have c: "count_plane k xs (length xs - n) n 0 = Inr (word_of_nat (ones ?r))"
      using count_plane_ok [of n "length xs - n" xs k 0] Suc.prems(2) by simp
    have "many_done t (grp ?r) (bits - n) ?n (many_outer k xs (length xs) t (bits - n) n (word_of_nat (ones ?r)))"
      by (rule many_loops(1) [OF assms(2)]) (use t Suc.prems(2-4) in \<open>simp_all add: code\<close>)
    then obtain u where u: "many_outer k xs (length xs) t (bits - n) n (word_of_nat (ones ?r)) =
        Inr (u, bits - n - length (grp ?r), ?n)" "bs_ok u" "written u = written t @ grp ?r"
      "room u + length (grp ?r) = room t" unfolding many_done_def by blast
    have "\<exists>s'. many_planes kmin (length xs) xs k u (bits - n - length (grp ?r)) ?n =
          Inr (s', bits - n - length (grp ?r) - length (code_planes (ps k) ?n)) \<and>
        bs_ok s' \<and> written s' = written u @ code_planes (ps k) ?n \<and>
        room s' + length (code_planes (ps k) ?n) = room u"
      by (rule Suc.IH) (use u t n' Suc.prems(2-4) in \<open>simp_all add: code\<close>)
    then obtain s' where "many_planes kmin (length xs) xs k u (bits - n - length (grp ?r)) ?n =
          Inr (s', bits - n - length (grp ?r) - length (code_planes (ps k) ?n))"
        "bs_ok s'" "written s' = written u @ code_planes (ps k) ?n"
        "room s' + length (code_planes (ps k) ?n) = room u" by blast
    with True bits t(1,3,4) c u Suc.prems(2) show ?thesis
      by (intro exI [of _ s']) (simp add: code Let_def)
  qed
qed

section \<open>The decoder reads the code\<close>

text \<open>The integers whose first \<open>n\<close> have bit \<open>k\<close> already.\<close>

definition partly :: "nat \<Rightarrow> nat \<Rightarrow> 'a::len word list \<Rightarrow> 'a word list" where
  "partly k n xs = take n (keep_from k xs) @ drop n (keep_from (Suc k) xs)"

lemma partly_simps [simp]:
  "length (partly k n xs) = length xs"
  "partly k 0 xs = keep_from (Suc k) xs"
  by (simp_all add: partly_def)

lemma partly_all: "length xs \<le> n \<Longrightarrow> partly k n xs = keep_from k xs"
  by (simp add: partly_def)

lemma keep_from_bit: "i < length xs \<Longrightarrow> keep_from k xs ! i = keep_from (Suc k) xs ! i + push_bit k (of_bool (bit (xs ! i) k))"
  by (simp only: keep_from_def nth_map push_drop_step [of k "xs ! i"])

lemma partly_Suc:
  assumes "n < length xs"
  shows "partly k (Suc n) xs = (if bit (xs ! n) k then (partly k n xs)[n := partly k n xs ! n + push_bit k 1] else partly k n xs)"
proof -
  let ?a = "keep_from k xs" and ?b = "keep_from (Suc k) xs"
  have l: "length (take n ?a) = n" using assms by simp
  have d: "drop n ?b = ?b ! n # drop (Suc n) ?b" using assms Cons_nth_drop_Suc [of n ?b] by simp
  have t: "take (Suc n) ?a = take n ?a @ [?a ! n]" using assms take_Suc_conv_app_nth [of n ?a] by simp
  have a: "?a ! n = (if bit (xs ! n) k then ?b ! n + push_bit k 1 else ?b ! n)"
    using keep_from_bit [OF assms, of k] by (cases "bit (xs ! n) k") simp_all
  have nth: "partly k n xs ! n = ?b ! n" using l assms by (simp add: partly_def nth_append)
  have up: "(partly k n xs)[n := v] = take n ?a @ v # drop (Suc n) ?b" for v
    unfolding partly_def d using l by (simp add: list_update_append)
  have same: "partly k n xs = take n ?a @ ?b ! n # drop (Suc n) ?b" unfolding partly_def d ..
  have suc: "partly k (Suc n) xs = take n ?a @ ?a ! n # drop (Suc n) ?b" by (simp add: partly_def t)
  show ?thesis
  proof (cases "bit (xs ! n) k")
    case True
    then show ?thesis by (simp only: if_True nth up suc a)
  next
    case False
    then show ?thesis by (simp only: if_False same suc a)
  qed
qed

lemma add_bit_partly:
  "n < length xs \<Longrightarrow> bit (xs ! n) k \<Longrightarrow> add_bit k n (partly k n xs) = Inr (partly k (Suc n) xs)"
  by (simp add: add_bit_def partly_Suc)

lemma read_plane_ok:
  "bs_ok s \<Longrightarrow> i + c \<le> length xs \<Longrightarrow> unread s = take c (drop i (plane xs k)) @ rest \<Longrightarrow>
   \<exists>s'. read_plane k c i s (partly k i xs) = Inr (s', partly k (i + c) xs) \<and> bs_ok s' \<and> unread s' = rest \<and>
     bs_mem s' = bs_mem s"
proof (induction c arbitrary: i s)
  case (Suc c)
  let ?b = "bit (xs ! i) k"
  have d: "drop i (plane xs k) = ?b # drop (Suc i) (plane xs k)"
    using Suc.prems(2) Cons_nth_drop_Suc [of i "plane xs k"] by (simp add: plane_def)
  have "unread s = ?b # take c (drop (Suc i) (plane xs k)) @ rest" using Suc.prems(3) by (simp add: d)
  from read_bit_ok [OF Suc.prems(1) this] obtain t where t: "stream_read_bit s = Inr (of_bool ?b, t)" "bs_ok t"
    "bs_mem t = bs_mem s" "unread t = take c (drop (Suc i) (plane xs k)) @ rest" by blast
  have "i < length xs" using Suc.prems(2) by simp
  then have "(if of_bool ?b \<noteq> (0 :: u32) then add_bit k i (partly k i xs) else Inr (partly k i xs)) = Inr (partly k (Suc i) xs)"
    using add_bit_partly [of i xs k] by (cases ?b) (simp_all add: partly_Suc)
  moreover have "\<exists>s'. read_plane k c (Suc i) t (partly k (Suc i) xs) = Inr (s', partly k (Suc i + c) xs) \<and> bs_ok s' \<and>
      unread s' = rest \<and> bs_mem s' = bs_mem t"
    by (rule Suc.IH) (use Suc.prems t in simp_all)
  ultimately show ?case using t by auto
qed simp

definition many_dec_done ::
  "bitstream \<Rightarrow> bool list \<Rightarrow> bool list \<Rightarrow> nat \<Rightarrow> nat \<Rightarrow> 'a::len word list \<Rightarrow> err + bitstream \<times> nat \<times> nat \<times> 'a word list \<Rightarrow> bool"
where
  "many_dec_done s code rest bits n ys res \<longleftrightarrow>
     (\<exists>s'. res = Inr (s', bits - length code, n, ys) \<and> bs_ok s' \<and> unread s' = rest \<and> bs_mem s' = bs_mem s)"

text \<open>The bits that are not sent because none of them is set.\<close>

lemma partly_no_ones: "drop n (plane xs k) = r \<Longrightarrow> True \<notin> set r \<Longrightarrow> partly k n xs = keep_from k xs"
proof (induction r arbitrary: n)
  case Nil
  then show ?case by (intro partly_all) simp
next
  case (Cons b r)
  note d = drop_plane_Cons [OF Cons.prems(1)]
  have "partly k (Suc n) xs = keep_from k xs" using Cons d(3) by simp
  moreover have "\<not> bit (xs ! n) k" using d(2) Cons.prems(2) by auto
  ultimately show ?case using d(1) by (simp add: partly_Suc)
qed

lemma many_dec_loops:
  fixes xs :: "'a::len word list"
  shows "bs_ok s \<Longrightarrow> unread s = grp r @ rest \<Longrightarrow> drop n (plane xs k) = r \<Longrightarrow> n + length r = length xs \<Longrightarrow>
    length (grp r) \<le> bits \<Longrightarrow>
    many_dec_done s (grp r) rest bits (n + sig r) (keep_from k xs) (many_dec_outer k (length xs) s bits n (partly k n xs))"
  and "bs_ok s \<Longrightarrow> unread s = inn r @ rest \<Longrightarrow> drop n (plane xs k) = r \<Longrightarrow> n + length r = length xs \<Longrightarrow>
    length (inn r) \<le> bits \<Longrightarrow> True \<in> set r \<Longrightarrow>
    many_dec_done s (inn r) rest bits (n + sig r) (keep_from k xs)
     (bind_res (dec_inner (length xs) s bits n) (\<lambda>(s, bits, m). bind_res (add_bit k m (partly k n xs))
        (many_dec_outer k (length xs) s bits (m + 1))))"
proof (induction r and r arbitrary: s bits n and s bits n rule: grp_inn.induct)
  case 1
  then show ?case by (subst many_dec_outer.simps) (simp add: many_dec_done_def partly_all)
next
  case (2 a r)
  let ?r = "a # r"
  have n: "n < length xs" using 2(5) by simp
  have b: "bits \<noteq> 0" using 2(6) by (auto split: if_splits)
  show ?case
  proof (cases "True \<in> set ?r")
    case False
    then have "unread s = False # rest" using 2(3) by simp
    from read_bit_ok [OF 2(2) this] obtain t where t:
      "stream_read_bit s = Inr (0, t)" "bs_ok t" "bs_mem t = bs_mem s" "unread t = rest" by auto
    have "many_dec_outer k (length xs) s bits n (partly k n xs) = Inr (t, bits - 1, n, keep_from k xs)"
      using n b t(1) partly_no_ones [OF 2(4) False] by (subst many_dec_outer.simps) simp
    with t False show ?thesis by (simp add: many_dec_done_def)
  next
    case True
    then have "unread s = True # inn ?r @ rest" using 2(3) by simp
    from read_bit_ok [OF 2(2) this] obtain t where t:
      "stream_read_bit s = Inr (1, t)" "bs_ok t" "bs_mem t = bs_mem s" "unread t = inn ?r @ rest" by auto
    have "many_dec_done t (inn ?r) rest (bits - 1) (n + sig ?r) (keep_from k xs)
       (bind_res (dec_inner (length xs) t (bits - 1) n) (\<lambda>(s, bits, m). bind_res (add_bit k m (partly k n xs))
          (many_dec_outer k (length xs) s bits (m + 1))))"
      by (rule 2(1)) (use 2 True t in simp_all)
    moreover have "many_dec_outer k (length xs) s bits n (partly k n xs) =
        bind_res (dec_inner (length xs) t (bits - 1) n) (\<lambda>(s, bits, m). bind_res (add_bit k m (partly k n xs))
          (many_dec_outer k (length xs) s bits (m + 1)))"
      using n b t by (subst many_dec_outer.simps) simp
    moreover have "grp ?r = True # inn ?r" using True by simp
    ultimately show ?thesis
      using t(3) unfolding many_dec_done_def by simp
  qed
next
  case 3
  then show ?case by simp
next
  case (4 a)
  then have cnt: "length xs = Suc n" and a by simp_all
  note d = drop_plane_Cons [OF 4(3)]
  have "dec_inner (length xs) s bits n = Inr (s, bits, n)"
    by (subst dec_inner.simps) (simp add: cnt)
  moreover have "many_dec_outer k (length xs) s bits (Suc n) ys = Inr (s, bits, Suc n, ys)" for ys :: "'a word list"
    by (subst many_dec_outer.simps) (simp add: cnt)
  moreover have "partly k (Suc n) xs = keep_from k xs" by (rule partly_all) (simp add: cnt)
  ultimately show ?case using 4 \<open>a\<close> d(1,2) add_bit_partly [of n xs k] by (simp add: many_dec_done_def)
next
  case (5 a b r)
  let ?r = "b # r"
  note d = drop_plane_Cons [OF 5(5)]
  have n: "n < length xs - 1" using 5(6) by simp
  have bt: "bits \<noteq> 0" using 5(7) by auto
  have u: "unread s = a # (if a then grp ?r else inn ?r) @ rest" using 5(4) by simp
  from read_bit_ok [OF 5(3) u] obtain t where t: "stream_read_bit s = Inr (of_bool a, t)" "bs_ok t"
    "bs_mem t = bs_mem s" "unread t = (if a then grp ?r else inn ?r) @ rest" by auto
  show ?case
  proof (cases a)
    case True
    have "many_dec_done t (grp ?r) rest (bits - 1) (n + 1 + sig ?r) (keep_from k xs)
        (many_dec_outer k (length xs) t (bits - 1) (n + 1) (partly k (n + 1) xs))"
      by (rule 5(1) [OF True]) (use 5(6,7) True t d in simp_all)
    moreover have "dec_inner (length xs) s bits n = Inr (t, bits - 1, n)"
      using n bt t True by (subst dec_inner.simps) simp
    moreover have "add_bit k n (partly k n xs) = Inr (partly k (n + 1) xs)"
      using add_bit_partly [OF d(1)] d(2) True by simp
    ultimately show ?thesis
      using t(3) True unfolding many_dec_done_def by (simp add: add.assoc)
  next
    case False
    have p: "partly k (n + 1) xs = partly k n xs" using d(1,2) False by (simp add: partly_Suc)
    have "many_dec_done t (inn ?r) rest (bits - 1) (n + 1 + sig ?r) (keep_from k xs)
       (bind_res (dec_inner (length xs) t (bits - 1) (n + 1)) (\<lambda>(s, bits, m). bind_res (add_bit k m (partly k (n + 1) xs))
          (many_dec_outer k (length xs) s bits (m + 1))))"
      by (rule 5(2) [OF False]) (use 5(6-8) False t d in simp_all)
    moreover have "dec_inner (length xs) s bits n = dec_inner (length xs) t (bits - 1) (n + 1)"
      using n bt t False by (subst dec_inner.simps) simp
    moreover have "True \<in> set ?r" using 5(8) False by simp
    ultimately show ?thesis
      using t(3) False unfolding many_dec_done_def p by simp
  qed
qed

lemma many_dec_planes_ok:
  fixes kmin :: nat
  assumes "0 < length xs"
  defines "ps \<equiv> \<lambda>k. List.map (plane xs) (rev [kmin..<k])"
  shows "bs_ok s \<Longrightarrow> n \<le> length xs \<Longrightarrow> kmin \<le> k \<Longrightarrow> length (code_planes (ps k) n) \<le> bits \<Longrightarrow>
    unread s = code_planes (ps k) n @ rest \<Longrightarrow>
    \<exists>s'. many_dec_planes kmin (length xs) (keep_from k xs) k s bits n =
        Inr (keep_from kmin xs, s', bits - length (code_planes (ps k) n)) \<and>
      bs_ok s' \<and> unread s' = rest \<and> bs_mem s' = bs_mem s"
proof (induction k arbitrary: s bits n)
  case 0
  then show ?case by (simp add: ps_def)
next
  case (Suc k)
  show ?case
  proof (cases "kmin < Suc k")
    case False
    then have "ps (Suc k) = []" "kmin = Suc k" using Suc.prems(3) by (simp_all add: ps_def)
    with Suc.prems show ?thesis by simp
  next
    case True
    let ?p = "plane xs k" let ?r = "drop n ?p" let ?n = "n + sig ?r"
    have ps: "ps (Suc k) = ?p # ps k" using True by (simp add: ps_def)
    have code: "code_planes (ps (Suc k)) n = take n ?p @ grp ?r @ code_planes (ps k) ?n" by (simp add: ps)
    have n': "?n \<le> length xs" using sig_le [of ?r] Suc.prems(2) by simp
    have "0 < length (code_planes (ps (Suc k)) n)"
      unfolding ps by (rule code_planes_first [OF assms(1)]) (use Suc.prems in simp_all)
    with Suc.prems(4) have "bits \<noteq> 0" by linarith
    moreover have "n \<le> bits" using Suc.prems(2,4) by (simp add: code)
    ultimately have bits: "bits \<noteq> 0" "min n bits = n" "n \<le> bits" by simp_all
    have "\<exists>t. read_plane k n 0 s (partly k 0 xs) = Inr (t, partly k (0 + n) xs) \<and> bs_ok t \<and>
        unread t = grp ?r @ code_planes (ps k) ?n @ rest \<and> bs_mem t = bs_mem s"
      by (rule read_plane_ok) (use Suc.prems in \<open>simp_all add: code\<close>)
    then obtain t where t: "read_plane k n 0 s (keep_from (Suc k) xs) = Inr (t, partly k n xs)" "bs_ok t"
      "unread t = grp ?r @ code_planes (ps k) ?n @ rest" "bs_mem t = bs_mem s" by auto
    have "many_dec_done t (grp ?r) (code_planes (ps k) ?n @ rest) (bits - n) ?n (keep_from k xs)
        (many_dec_outer k (length xs) t (bits - n) n (partly k n xs))"
      by (rule many_dec_loops(1)) (use t Suc.prems(2,4) in \<open>simp_all add: code\<close>)
    then obtain u where u: "many_dec_outer k (length xs) t (bits - n) n (partly k n xs) =
        Inr (u, bits - n - length (grp ?r), ?n, keep_from k xs)" "bs_ok u"
      "unread u = code_planes (ps k) ?n @ rest" "bs_mem u = bs_mem t" unfolding many_dec_done_def by blast
    have "\<exists>s'. many_dec_planes kmin (length xs) (keep_from k xs) k u (bits - n - length (grp ?r)) ?n =
          Inr (keep_from kmin xs, s', bits - n - length (grp ?r) - length (code_planes (ps k) ?n)) \<and>
        bs_ok s' \<and> unread s' = rest \<and> bs_mem s' = bs_mem u"
      by (rule Suc.IH) (use u t n' Suc.prems(2-4) True in \<open>simp_all add: code\<close>)
    then obtain s' where "many_dec_planes kmin (length xs) (keep_from k xs) k u (bits - n - length (grp ?r)) ?n =
          Inr (keep_from kmin xs, s', bits - n - length (grp ?r) - length (code_planes (ps k) ?n))"
        "bs_ok s'" "unread s' = rest" "bs_mem s' = bs_mem u" by blast
    with True bits t(1,4) u(1,4) Suc.prems(2) show ?thesis
      by (intro exI [of _ s']) (simp add: code Let_def)
  qed
qed

section \<open>Round trip\<close>

lemma encode_many_ints_ok:
  fixes xs :: "'a::len word list"
  assumes "0 < length xs" "length xs < 2 ^ 32" "bs_ok s"
    and "length (plane_code prec xs) \<le> maxbits" "length (plane_code prec xs) \<le> room s"
  shows "\<exists>s'. encode_many_ints s maxbits prec xs (length xs) = Inr (length (plane_code prec xs), s') \<and>
    bs_ok s' \<and> written s' = written s @ plane_code prec xs \<and>
    room s' + length (plane_code prec xs) = room s"
proof -
  have "\<exists>s'. many_planes (LENGTH('a) - prec) (length xs) xs LENGTH('a) s maxbits 0 =
      Inr (s', maxbits - length (plane_code prec xs)) \<and>
      bs_ok s' \<and> written s' = written s @ plane_code prec xs \<and>
      room s' + length (plane_code prec xs) = room s"
    using assms unfolding plane_code_def by (intro many_planes_ok) simp_all
  with assms(4) show ?thesis
    by (auto simp: encode_many_ints_def Let_def kmin_eq)
qed

lemma decode_many_ints_ok:
  fixes xs ys :: "'a::len word list"
  assumes "0 < length xs" "bs_ok s" "length ys = length xs"
    and "length (plane_code prec xs) \<le> maxbits" "unread s = plane_code prec xs @ rest"
  shows "\<exists>s'. decode_many_ints s maxbits prec ys (length xs) =
      Inr (length (plane_code prec xs), keep_from (LENGTH('a) - prec) xs, s') \<and>
    bs_ok s' \<and> unread s' = rest \<and> bs_mem s' = bs_mem s"
proof -
  have "\<exists>s'. many_dec_planes (LENGTH('a) - prec) (length xs) (keep_from LENGTH('a) xs) LENGTH('a) s maxbits 0 =
      Inr (keep_from (LENGTH('a) - prec) xs, s', maxbits - length (plane_code prec xs)) \<and>
      bs_ok s' \<and> unread s' = rest \<and> bs_mem s' = bs_mem s"
    using assms unfolding plane_code_def by (intro many_dec_planes_ok) simp_all
  with assms(3,4) show ?thesis
    by (auto simp: decode_many_ints_def Let_def kmin_eq keep_from_beyond)
qed

end
