(* ===== verification/Zfp_Block.thy ===== *)
theory Zfp_Block
  imports Zfp_Stream Zfp_Many
begin

text \<open>
  Blocks of \<open>4 ^ d\<close> integers, \<open>d\<close> from 1 to 4: the decorrelating transforms, the order of the
  coefficients, the map to unsigned integers, and the coders of a block, lossy and reversible, after the
  templates \<^verbatim>\<open>encode.c\<close>, \<^verbatim>\<open>decode.c\<close>, \<^verbatim>\<open>revencode.c\<close>, \<^verbatim>\<open>revdecode.c\<close> and the \<^verbatim>\<open>codec\<close>, \<^verbatim>\<open>encode\<close>,
  \<^verbatim>\<open>decode\<close>, \<^verbatim>\<open>revencode\<close> and \<^verbatim>\<open>revdecode\<close> files of each dimension in \<^verbatim>\<open>src/zfp-0.5.5/src/template\<close>.

  The templates' \<^verbatim>\<open>Int\<close> and \<^verbatim>\<open>UInt\<close> are words of the same width; \<open>nb\<close> and \<open>pbits\<close> are their traits \<^verbatim>\<open>NBMASK\<close> and
  \<^verbatim>\<open>PBITS\<close> (\<^verbatim>\<open>src/zfp-0.5.5/src/traitsi.h\<close> and \<^verbatim>\<open>traitsl.h\<close>).  Signed additions wrap around and \<^verbatim>\<open>>>\<close> of a
  signed number is the arithmetic shift.
\<close>

section \<open>Lifting\<close>

type_synonym 'a vec4 = "'a \<times> 'a \<times> 'a \<times> 'a"

definition fwd_vec :: "'a::len word vec4 \<Rightarrow> 'a word vec4" where
  "fwd_vec v = (case v of (x, y, z, w) \<Rightarrow>
     let x = x + w; x = signed_drop_bit 1 x; w = w - x;
         z = z + y; z = signed_drop_bit 1 z; y = y - z;
         x = x + z; x = signed_drop_bit 1 x; z = z - x;
         w = w + y; w = signed_drop_bit 1 w; y = y - w;
         w = w + signed_drop_bit 1 y; y = y - signed_drop_bit 1 w
     in (x, y, z, w))"

definition inv_vec :: "'a::len word vec4 \<Rightarrow> 'a word vec4" where
  "inv_vec v = (case v of (x, y, z, w) \<Rightarrow>
     let y = y + signed_drop_bit 1 w; w = w - signed_drop_bit 1 y;
         y = y + w; w = push_bit 1 w; w = w - y;
         z = z + x; x = push_bit 1 x; x = x - z;
         y = y + z; z = push_bit 1 z; z = z - y;
         w = w + x; x = push_bit 1 x; x = x - w
     in (x, y, z, w))"

definition rev_fwd_vec :: "'a::len word vec4 \<Rightarrow> 'a word vec4" where
  "rev_fwd_vec v = (case v of (x, y, z, w) \<Rightarrow>
     let w = w - z; z = z - y; y = y - x;
         w = w - z; z = z - y;
         w = w - z
     in (x, y, z, w))"

definition rev_inv_vec :: "'a::len word vec4 \<Rightarrow> 'a word vec4" where
  "rev_inv_vec v = (case v of (x, y, z, w) \<Rightarrow>
     let w = w + z;
         z = z + y; w = w + z;
         y = y + x; z = z + y; w = w + z
     in (x, y, z, w))"

text \<open>A transform at \<^verbatim>\<open>p\<close> with stride \<^verbatim>\<open>s\<close>: four elements are read and written back.\<close>

definition lift :: "('a vec4 \<Rightarrow> 'a vec4) \<Rightarrow> nat \<Rightarrow> nat \<Rightarrow> 'a list \<Rightarrow> err + 'a list" where
  "lift f p s b =
     (if p + 3 * s < length b
      then case f (b ! p, b ! (p + s), b ! (p + 2 * s), b ! (p + 3 * s)) of (x, y, z, w) \<Rightarrow>
             Inr (b[p + 3 * s := w, p + 2 * s := z, p + s := y, p := x])
      else Inl Out_Of_Bounds)"

primrec lifts :: "('a vec4 \<Rightarrow> 'a vec4) \<Rightarrow> (nat \<times> nat) list \<Rightarrow> 'a list \<Rightarrow> err + 'a list" where
  "lifts f [] b = Inr b"
| "lifts f (l # ls) b = bind_res (lift f (fst l) (snd l) b) (lifts f ls)"

text \<open>The loops over the lines of a block along each axis; the lines are numbered as in the source.\<close>

definition lines_x :: "nat \<Rightarrow> (nat \<times> nat) list" where
  "lines_x d =
     (if d = 1 then [(0, 1)]
      else if d = 2 then [(4 * y, 1). y \<leftarrow> [0..<4]]
      else if d = 3 then [(4 * y + 16 * z, 1). z \<leftarrow> [0..<4], y \<leftarrow> [0..<4]]
      else [(4 * y + 16 * z + 64 * w, 1). w \<leftarrow> [0..<4], z \<leftarrow> [0..<4], y \<leftarrow> [0..<4]])"

definition lines_y :: "nat \<Rightarrow> (nat \<times> nat) list" where
  "lines_y d =
     (if d = 1 then []
      else if d = 2 then [(1 * x, 4). x \<leftarrow> [0..<4]]
      else if d = 3 then [(16 * z + 1 * x, 4). x \<leftarrow> [0..<4], z \<leftarrow> [0..<4]]
      else [(16 * z + 64 * w + 1 * x, 4). x \<leftarrow> [0..<4], w \<leftarrow> [0..<4], z \<leftarrow> [0..<4]])"

definition lines_z :: "nat \<Rightarrow> (nat \<times> nat) list" where
  "lines_z d =
     (if d = 1 \<or> d = 2 then []
      else if d = 3 then [(1 * x + 4 * y, 16). y \<leftarrow> [0..<4], x \<leftarrow> [0..<4]]
      else [(64 * w + 1 * x + 4 * y, 16). y \<leftarrow> [0..<4], x \<leftarrow> [0..<4], w \<leftarrow> [0..<4]])"

definition lines_w :: "nat \<Rightarrow> (nat \<times> nat) list" where
  "lines_w d =
     (if d = 1 \<or> d = 2 \<or> d = 3 then []
      else [(1 * x + 4 * y + 16 * z, 64). z \<leftarrow> [0..<4], y \<leftarrow> [0..<4], x \<leftarrow> [0..<4]])"

definition fwd_lines :: "('a vec4 \<Rightarrow> 'a vec4) \<Rightarrow> nat \<Rightarrow> 'a list \<Rightarrow> err + 'a list" where
  "fwd_lines f d b =
     bind_res (lifts f (lines_x d) b) (\<lambda>b. 
     bind_res (lifts f (lines_y d) b) (\<lambda>b. bind_res (lifts f (lines_z d) b) (lifts f (lines_w d))))"

definition inv_lines :: "('a vec4 \<Rightarrow> 'a vec4) \<Rightarrow> nat \<Rightarrow> 'a list \<Rightarrow> err + 'a list" where
  "inv_lines f d b =
     bind_res (lifts f (lines_w d) b) (\<lambda>b. bind_res (lifts f (lines_z d) b) (\<lambda>b.
     bind_res (lifts f (lines_y d) b) (lifts f (lines_x d))))"

definition fwd_xform :: "nat \<Rightarrow> 'a::len word list \<Rightarrow> err + 'a word list" where
  "fwd_xform d = fwd_lines fwd_vec d"

definition inv_xform :: "nat \<Rightarrow> 'a::len word list \<Rightarrow> err + 'a word list" where
  "inv_xform d = inv_lines inv_vec d"

definition rev_fwd_xform :: "nat \<Rightarrow> 'a::len word list \<Rightarrow> err + 'a word list" where
  "rev_fwd_xform d = fwd_lines rev_fwd_vec d"

definition rev_inv_xform :: "nat \<Rightarrow> 'a::len word list \<Rightarrow> err + 'a word list" where
  "rev_inv_xform d = inv_lines rev_inv_vec d"

section \<open>Order of the coefficients\<close>

definition perm_1 :: "nat list" where
  "perm_1 = [0, 1, 2, 3]"

definition index_2 :: "nat \<Rightarrow> nat \<Rightarrow> nat" where
  "index_2 i j = i + 4 * j"

definition perm_2 :: "nat list" where
  "perm_2 = [index_2 0 0, index_2 1 0, index_2 0 1, index_2 1 1, index_2 2 0, index_2 0 2,
     index_2 2 1, index_2 1 2, index_2 3 0, index_2 0 3, index_2 2 2, index_2 3 1, index_2 1 3,
     index_2 3 2, index_2 2 3, index_2 3 3]"

definition index_3 :: "nat \<Rightarrow> nat \<Rightarrow> nat \<Rightarrow> nat" where
  "index_3 i j k = i + 4 * (j + 4 * k)"

definition perm_3 :: "nat list" where
  "perm_3 = [
     index_3 0 0 0, index_3 1 0 0, index_3 0 1 0, index_3 0 0 1,
     index_3 0 1 1, index_3 1 0 1, index_3 1 1 0,
     index_3 2 0 0, index_3 0 2 0, index_3 0 0 2,
     index_3 1 1 1,
     index_3 2 1 0, index_3 2 0 1, index_3 0 2 1, index_3 1 2 0, index_3 1 0 2, index_3 0 1 2,
     index_3 3 0 0, index_3 0 3 0, index_3 0 0 3,
     index_3 2 1 1, index_3 1 2 1, index_3 1 1 2,
     index_3 0 2 2, index_3 2 0 2, index_3 2 2 0,
     index_3 3 1 0, index_3 3 0 1, index_3 0 3 1, index_3 1 3 0, index_3 1 0 3, index_3 0 1 3,
     index_3 1 2 2, index_3 2 1 2, index_3 2 2 1,
     index_3 3 1 1, index_3 1 3 1, index_3 1 1 3,
     index_3 3 2 0, index_3 3 0 2, index_3 0 3 2, index_3 2 3 0, index_3 2 0 3, index_3 0 2 3,
     index_3 2 2 2,
     index_3 3 2 1, index_3 3 1 2, index_3 1 3 2, index_3 2 3 1, index_3 2 1 3, index_3 1 2 3,
     index_3 0 3 3, index_3 3 0 3, index_3 3 3 0,
     index_3 3 2 2, index_3 2 3 2, index_3 2 2 3,
     index_3 1 3 3, index_3 3 1 3, index_3 3 3 1,
     index_3 2 3 3, index_3 3 2 3, index_3 3 3 2,
     index_3 3 3 3]"

definition index_4 :: "nat \<Rightarrow> nat \<Rightarrow> nat \<Rightarrow> nat \<Rightarrow> nat" where
  "index_4 i j k l = i + 4 * (j + 4 * (k + 4 * l))"

definition perm_4 :: "nat list" where
  "perm_4 = [
     index_4 0 0 0 0, index_4 1 0 0 0, index_4 0 1 0 0, index_4 0 0 1 0, index_4 0 0 0 1, index_4 1 1 0 0,
     index_4 0 0 1 1, index_4 1 0 1 0, index_4 0 1 0 1, index_4 1 0 0 1, index_4 0 1 1 0, index_4 2 0 0 0,
     index_4 0 2 0 0, index_4 0 0 2 0, index_4 0 0 0 2, index_4 0 1 1 1, index_4 1 0 1 1, index_4 1 1 0 1,
     index_4 1 1 1 0, index_4 2 1 0 0, index_4 2 0 1 0, index_4 2 0 0 1, index_4 0 2 1 0, index_4 0 2 0 1,
     index_4 1 2 0 0, index_4 0 0 2 1, index_4 1 0 2 0, index_4 0 1 2 0, index_4 1 0 0 2, index_4 0 1 0 2,
     index_4 0 0 1 2, index_4 3 0 0 0, index_4 0 3 0 0, index_4 0 0 3 0, index_4 0 0 0 3, index_4 1 1 1 1,
     index_4 2 0 1 1, index_4 2 1 0 1, index_4 2 1 1 0, index_4 1 2 0 1, index_4 1 2 1 0, index_4 0 2 1 1,
     index_4 1 1 2 0, index_4 0 1 2 1, index_4 1 0 2 1, index_4 0 1 1 2, index_4 1 0 1 2, index_4 1 1 0 2,
     index_4 2 2 0 0, index_4 0 0 2 2, index_4 2 0 2 0, index_4 0 2 0 2, index_4 2 0 0 2, index_4 0 2 2 0,
     index_4 3 1 0 0, index_4 3 0 1 0, index_4 3 0 0 1, index_4 0 3 1 0, index_4 0 3 0 1, index_4 1 3 0 0,
     index_4 0 0 3 1, index_4 1 0 3 0, index_4 0 1 3 0, index_4 1 0 0 3, index_4 0 1 0 3, index_4 0 0 1 3,
     index_4 2 1 1 1, index_4 1 2 1 1, index_4 1 1 2 1, index_4 1 1 1 2, index_4 1 0 2 2, index_4 1 2 0 2,
     index_4 1 2 2 0, index_4 2 1 0 2, index_4 2 1 2 0, index_4 0 1 2 2, index_4 2 2 1 0, index_4 0 2 1 2,
     index_4 2 0 1 2, index_4 0 2 2 1, index_4 2 0 2 1, index_4 2 2 0 1, index_4 3 0 1 1, index_4 3 1 0 1,
     index_4 3 1 1 0, index_4 1 3 0 1, index_4 1 3 1 0, index_4 0 3 1 1, index_4 1 1 3 0, index_4 0 1 3 1,
     index_4 1 0 3 1, index_4 0 1 1 3, index_4 1 0 1 3, index_4 1 1 0 3, index_4 3 2 0 0, index_4 3 0 2 0,
     index_4 3 0 0 2, index_4 0 3 2 0, index_4 0 3 0 2, index_4 2 3 0 0, index_4 0 0 3 2, index_4 2 0 3 0,
     index_4 0 2 3 0, index_4 2 0 0 3, index_4 0 2 0 3, index_4 0 0 2 3, index_4 2 2 1 1, index_4 1 1 2 2,
     index_4 2 1 2 1, index_4 1 2 1 2, index_4 2 1 1 2, index_4 1 2 2 1, index_4 0 2 2 2, index_4 2 0 2 2,
     index_4 2 2 0 2, index_4 2 2 2 0, index_4 3 1 1 1, index_4 1 3 1 1, index_4 1 1 3 1, index_4 1 1 1 3,
     index_4 3 2 1 0, index_4 3 2 0 1, index_4 3 0 2 1, index_4 3 1 2 0, index_4 3 1 0 2, index_4 3 0 1 2,
     index_4 0 3 2 1, index_4 1 3 2 0, index_4 1 3 0 2, index_4 0 3 1 2, index_4 2 3 1 0, index_4 2 3 0 1,
     index_4 1 0 3 2, index_4 0 1 3 2, index_4 2 1 3 0, index_4 2 0 3 1, index_4 0 2 3 1, index_4 1 2 3 0,
     index_4 2 1 0 3, index_4 2 0 1 3, index_4 0 2 1 3, index_4 1 2 0 3, index_4 1 0 2 3, index_4 0 1 2 3,
     index_4 3 3 0 0, index_4 0 0 3 3, index_4 3 0 3 0, index_4 0 3 0 3, index_4 3 0 0 3, index_4 0 3 3 0,
     index_4 1 2 2 2, index_4 2 1 2 2, index_4 2 2 1 2, index_4 2 2 2 1, index_4 3 2 1 1, index_4 3 1 2 1,
     index_4 3 1 1 2, index_4 1 3 2 1, index_4 1 3 1 2, index_4 2 3 1 1, index_4 1 1 3 2, index_4 2 1 3 1,
     index_4 1 2 3 1, index_4 2 1 1 3, index_4 1 2 1 3, index_4 1 1 2 3, index_4 3 0 2 2, index_4 3 2 0 2,
     index_4 3 2 2 0, index_4 2 3 0 2, index_4 2 3 2 0, index_4 0 3 2 2, index_4 2 2 3 0, index_4 0 2 3 2,
     index_4 2 0 3 2, index_4 0 2 2 3, index_4 2 0 2 3, index_4 2 2 0 3, index_4 1 0 3 3, index_4 1 3 0 3,
     index_4 1 3 3 0, index_4 3 1 0 3, index_4 3 1 3 0, index_4 0 1 3 3, index_4 3 3 1 0, index_4 0 3 1 3,
     index_4 3 0 1 3, index_4 0 3 3 1, index_4 3 0 3 1, index_4 3 3 0 1, index_4 2 2 2 2, index_4 3 1 2 2,
     index_4 3 2 1 2, index_4 3 2 2 1, index_4 2 3 1 2, index_4 2 3 2 1, index_4 1 3 2 2, index_4 2 2 3 1,
     index_4 1 2 3 2, index_4 2 1 3 2, index_4 1 2 2 3, index_4 2 1 2 3, index_4 2 2 1 3, index_4 3 3 1 1,
     index_4 1 1 3 3, index_4 3 1 3 1, index_4 1 3 1 3, index_4 3 1 1 3, index_4 1 3 3 1, index_4 2 0 3 3,
     index_4 2 3 0 3, index_4 2 3 3 0, index_4 3 2 0 3, index_4 3 2 3 0, index_4 0 2 3 3, index_4 3 3 2 0,
     index_4 0 3 2 3, index_4 3 0 2 3, index_4 0 3 3 2, index_4 3 0 3 2, index_4 3 3 0 2, index_4 3 2 2 2,
     index_4 2 3 2 2, index_4 2 2 3 2, index_4 2 2 2 3, index_4 2 1 3 3, index_4 2 3 1 3, index_4 2 3 3 1,
     index_4 3 2 1 3, index_4 3 2 3 1, index_4 1 2 3 3, index_4 3 3 2 1, index_4 1 3 2 3, index_4 3 1 2 3,
     index_4 1 3 3 2, index_4 3 1 3 2, index_4 3 3 1 2, index_4 0 3 3 3, index_4 3 0 3 3, index_4 3 3 0 3,
     index_4 3 3 3 0, index_4 3 3 2 2, index_4 2 2 3 3, index_4 3 2 3 2, index_4 2 3 2 3, index_4 3 2 2 3,
     index_4 2 3 3 2, index_4 1 3 3 3, index_4 3 1 3 3, index_4 3 3 1 3, index_4 3 3 3 1, index_4 2 3 3 3,
     index_4 3 2 3 3, index_4 3 3 2 3, index_4 3 3 3 2, index_4 3 3 3 3]"

definition PERM :: "nat \<Rightarrow> nat list" where
  "PERM d = (if d = 1 then perm_1 else if d = 2 then perm_2 else if d = 3 then perm_3 else perm_4)"

definition BLOCK_SIZE :: "nat \<Rightarrow> nat" where
  "BLOCK_SIZE d = 2 ^ (2 * d)"

definition int2uint :: "'a::len word \<Rightarrow> 'a word \<Rightarrow> 'a word" where
  "int2uint nb x = (x + nb) XOR nb"

definition uint2int :: "'a::len word \<Rightarrow> 'a word \<Rightarrow> 'a word" where
  "uint2int nb x = (x XOR nb) - nb"

text \<open>\<^verbatim>\<open>do *ublock++ = int2uint(iblock[*perm++]); while (--n);\<close>\<close>

primrec fwd_order :: "'a::len word \<Rightarrow> 'a word list \<Rightarrow> nat list \<Rightarrow> err + 'a word list" where
  "fwd_order nb b [] = Inr []"
| "fwd_order nb b (i # perm) =
     (if i < length b then bind_res (fwd_order nb b perm) (\<lambda>u. Inr (int2uint nb (b ! i) # u))
      else Inl Out_Of_Bounds)"

primrec inv_order :: "'a::len word \<Rightarrow> 'a word list \<Rightarrow> nat list \<Rightarrow> 'a word list \<Rightarrow> err + 'a word list" where
  "inv_order nb b [] u = Inr b"
| "inv_order nb b (i # perm) u =
     (case u of [] \<Rightarrow> Inl Out_Of_Bounds
      | c # u \<Rightarrow> if i < length b then inv_order nb (b[i := uint2int nb c]) perm u else Inl Out_Of_Bounds)"

section \<open>Blocks\<close>

text \<open>The loop of \<^verbatim>\<open>rev_precision\<close>; a shift by \<open>0 - 1\<close> would be undefined, and the loop would not end.\<close>

function prec_loop :: "nat \<Rightarrow> 'a::len word \<Rightarrow> nat \<Rightarrow> err + nat" where
  "prec_loop s m p =
     (if m \<noteq> 0
      then if s = 0 then Inl Diverges
           else if push_bit (s - 1) m \<noteq> 0
           then prec_loop (s div 2) (push_bit 1 (push_bit (s - 1) m)) (p + s)
           else prec_loop (s div 2) m p
      else Inr p)"
  by pat_completeness auto
termination
  by (relation "measure (\<lambda>(s, _, _). s)") auto

declare prec_loop.simps [simp del]

definition rev_precision :: "'a::len word list \<Rightarrow> err + nat" where
  "rev_precision b = prec_loop LENGTH('a) (fold (OR) b 0) 0"

text \<open>The conversion of an \<^verbatim>\<open>int\<close> to \<^verbatim>\<open>uint\<close>.\<close>

definition to_uint :: "int \<Rightarrow> nat" where
  "to_uint i = nat (i mod 2 ^ 32)"

definition pad_bits :: "bitstream \<Rightarrow> int \<Rightarrow> int \<Rightarrow> err + int \<times> bitstream" where
  "pad_bits s lo bits =
     (if bits < lo
      then bind_res (stream_pad s (to_uint (lo - bits))) (\<lambda>s. Inr (lo, s))
      else Inr (bits, s))"

definition skip_bits :: "bitstream \<Rightarrow> int \<Rightarrow> int \<Rightarrow> err + int \<times> bitstream" where
  "skip_bits s lo bits =
     (if bits < lo
      then bind_res (stream_skip s (to_uint (lo - bits))) (\<lambda>s. Inr (lo, s))
      else Inr (bits, s))"

text \<open>The choice of the coder of the planes, by \<^verbatim>\<open>BLOCK_SIZE\<close>.\<close>

definition encode_planes ::
  "nat \<Rightarrow> bitstream \<Rightarrow> nat \<Rightarrow> nat \<Rightarrow> 'a::len word list \<Rightarrow> err + nat \<times> bitstream" where
  "encode_planes d s hi mp u =
     (if BLOCK_SIZE d \<le> 64 then encode_ints s hi mp u (BLOCK_SIZE d) else encode_many_ints s hi mp u (BLOCK_SIZE d))"

definition decode_planes ::
  "nat \<Rightarrow> bitstream \<Rightarrow> nat \<Rightarrow> nat \<Rightarrow> 'a::len word list \<Rightarrow> err + nat \<times> 'a word list \<times> bitstream" where
  "decode_planes d s hi mp u =
     (if BLOCK_SIZE d \<le> 64 then decode_ints s hi mp u (BLOCK_SIZE d) else decode_many_ints s hi mp u (BLOCK_SIZE d))"

definition encode_block ::
  "nat \<Rightarrow> 'a::len word \<Rightarrow> bitstream \<Rightarrow> int \<Rightarrow> int \<Rightarrow> int \<Rightarrow> 'a word list \<Rightarrow> err + int \<times> bitstream" where
  "encode_block d nb s lo hi mp b =
     bind_res (fwd_xform d b) (\<lambda>b.
     bind_res (fwd_order nb b (take (BLOCK_SIZE d) (PERM d))) (\<lambda>u.
     bind_res (encode_planes d s (to_uint hi) (to_uint mp) u) (\<lambda>(bits, s).
       pad_bits s lo (int bits))))"

definition decode_block ::
  "nat \<Rightarrow> 'a::len word \<Rightarrow> bitstream \<Rightarrow> int \<Rightarrow> int \<Rightarrow> int \<Rightarrow> 'a word list \<Rightarrow>
     err + int \<times> 'a word list \<times> bitstream" where
  "decode_block d nb s lo hi mp b =
     bind_res (decode_planes d s (to_uint hi) (to_uint mp) (replicate (BLOCK_SIZE d) 0))
       (\<lambda>(bits, u, s).
     bind_res (skip_bits s lo (int bits)) (\<lambda>(bits, s).
     bind_res (inv_order nb b (take (BLOCK_SIZE d) (PERM d)) u) (\<lambda>b.
     bind_res (inv_xform d b) (\<lambda>b. Inr (bits, b, s)))))"

definition rev_encode_block ::
  "nat \<Rightarrow> 'a::len word \<Rightarrow> nat \<Rightarrow> bitstream \<Rightarrow> int \<Rightarrow> int \<Rightarrow> int \<Rightarrow> 'a word list \<Rightarrow> err + int \<times> bitstream" where
  "rev_encode_block d nb pbits s lo hi mp b =
     bind_res (rev_fwd_xform d b) (\<lambda>b.
     bind_res (fwd_order nb b (take (BLOCK_SIZE d) (PERM d))) (\<lambda>u.
     bind_res (rev_precision (take (BLOCK_SIZE d) u)) (\<lambda>p.
     let bits = int pbits;
         prec = max (min (int p) mp) 1 in
     bind_res (stream_write_bits s (word_of_int (prec - 1)) pbits) (\<lambda>(_, s).
     bind_res (encode_planes d s (to_uint (hi - bits)) (to_uint prec) u) (\<lambda>(n, s).
       pad_bits s lo (bits + int n))))))"

definition rev_decode_block ::
  "nat \<Rightarrow> 'a::len word \<Rightarrow> nat \<Rightarrow> bitstream \<Rightarrow> int \<Rightarrow> int \<Rightarrow> 'a word list \<Rightarrow>
     err + int \<times> 'a word list \<times> bitstream" where
  "rev_decode_block d nb pbits s lo hi b =
     (let bits = int pbits in
     bind_res (stream_read_bits s pbits) (\<lambda>(v, s).
     let prec = uint v + 1 in
     bind_res (decode_planes d s (to_uint (hi - bits)) (to_uint prec) (replicate (BLOCK_SIZE d) 0))
       (\<lambda>(n, u, s).
     bind_res (skip_bits s lo (bits + int n)) (\<lambda>(bits, s).
     bind_res (inv_order nb b (take (BLOCK_SIZE d) (PERM d)) u) (\<lambda>b.
     bind_res (rev_inv_xform d b) (\<lambda>b. Inr (bits, b, s)))))))"

text \<open>\<^verbatim>\<open>zfp_encode_block\<close> works on a copy of the block, \<^verbatim>\<open>zfp_decode_block\<close> on the caller's block.\<close>

definition zfp_encode_block ::
  "nat \<Rightarrow> 'a::len word \<Rightarrow> nat \<Rightarrow> zfp_stream \<Rightarrow> 'a word list \<Rightarrow> err + int \<times> zfp_stream" where
  "zfp_encode_block d nb pbits z b =
     (if BLOCK_SIZE d \<le> length b
      then bind_res
             (if is_reversible z
              then rev_encode_block d nb pbits (zs_bits z) (sint (minbits z)) (sint (maxbits z)) (sint (maxprec z))
                     (take (BLOCK_SIZE d) b)
              else encode_block d nb (zs_bits z) (sint (minbits z)) (sint (maxbits z)) (sint (maxprec z))
                     (take (BLOCK_SIZE d) b)) (\<lambda>(bits, s). Inr (bits, z\<lparr>zs_bits := s\<rparr>))
      else Inl Out_Of_Bounds)"

definition zfp_decode_block ::
  "nat \<Rightarrow> 'a::len word \<Rightarrow> nat \<Rightarrow> zfp_stream \<Rightarrow> 'a word list \<Rightarrow> err + int \<times> 'a word list \<times> zfp_stream" where
  "zfp_decode_block d nb pbits z b =
     bind_res
       (if is_reversible z
        then rev_decode_block d nb pbits (zs_bits z) (sint (minbits z)) (sint (maxbits z)) b
        else decode_block d nb (zs_bits z) (sint (minbits z)) (sint (maxbits z)) (sint (maxprec z)) b)
       (\<lambda>(bits, b, s). Inr (bits, b, z\<lparr>zs_bits := s\<rparr>))"

section \<open>The transforms\<close>

lemma rev_vec_inverse: "rev_inv_vec (rev_fwd_vec v) = v"
  by (cases v) (simp add: rev_inv_vec_def rev_fwd_vec_def Let_def)

text \<open>Four positions of a list as a vector.\<close>

definition get4 :: "'a list \<Rightarrow> nat vec4 \<Rightarrow> 'a vec4" where
  "get4 b q = (case q of (i, j, k, l) \<Rightarrow> (b ! i, b ! j, b ! k, b ! l))"

definition put4 :: "'a list \<Rightarrow> nat vec4 \<Rightarrow> 'a vec4 \<Rightarrow> 'a list" where
  "put4 b q v = (case q of (i, j, k, l) \<Rightarrow> case v of (x, y, z, w) \<Rightarrow> b[l := w, k := z, j := y, i := x])"

definition quad :: "nat \<times> nat \<Rightarrow> nat vec4" where
  "quad l = (fst l, fst l + snd l, fst l + 2 * snd l, fst l + 3 * snd l)"

definition cells :: "nat vec4 \<Rightarrow> nat list" where
  "cells q = (case q of (i, j, k, l) \<Rightarrow> [i, j, k, l])"

definition quad_ok :: "nat \<Rightarrow> nat vec4 \<Rightarrow> bool" where
  "quad_ok n q \<longleftrightarrow> distinct (cells q) \<and> (\<forall>i \<in> set (cells q). i < n)"

lemma put4_length [simp]: "length (put4 b q v) = length b"
  by (simp add: put4_def split: prod.splits)

lemma put4_nth:
  "i < length b \<Longrightarrow> put4 b (j, k, l, m) (x, y, z, w) ! i =
     (if i = j then x else if i = k then y else if i = l then z else if i = m then w else b ! i)"
  by (auto simp: put4_def nth_list_update)

lemma get_put: "quad_ok (length b) q \<Longrightarrow> get4 (put4 b q v) q = v"
  by (cases q; cases v) (simp add: get4_def quad_ok_def cells_def put4_nth)

lemma put_get: "quad_ok (length b) q \<Longrightarrow> put4 (put4 b q v) q (get4 b q) = b"
proof (cases q; cases v, rule nth_equalityI)
  fix j k l m x y z w i
  assume "quad_ok (length b) q" "q = (j, k, l, m)" "v = (x, y, z, w)" "i < length (put4 (put4 b q v) q (get4 b q))"
  then show "put4 (put4 b q v) q (get4 b q) ! i = b ! i"
    by (simp add: get4_def put4_nth)
qed simp

lemma get_put_other:
  assumes "set (cells q) \<inter> set (cells r) = {}" and "quad_ok (length b) r"
  shows "get4 (put4 b q v) r = get4 b r"
  using assms by (cases q; cases r; cases v) (auto simp: get4_def quad_ok_def cells_def put4_nth)

lemma put_put_other:
  assumes "set (cells q) \<inter> set (cells r) = {}"
  shows "put4 (put4 b q v) r u = put4 (put4 b r u) q v"
proof (cases q; cases r; cases v; cases u, rule nth_equalityI)
  fix j k l m j' k' l' m' x y z w x' y' z' w' i
  assume "q = (j, k, l, m)" "r = (j', k', l', m')" "v = (x, y, z, w)" "u = (x', y', z', w')"
    "i < length (put4 (put4 b q v) r u)"
  with assms show "put4 (put4 b q v) r u ! i = put4 (put4 b r u) q v ! i"
    by (simp add: put4_nth cells_def)
qed simp

lemma lift_eq:
  "quad_ok (length b) (quad l) \<Longrightarrow>
   lift f (fst l) (snd l) b = Inr (put4 b (quad l) (f (get4 b (quad l))))"
  by (simp add: lift_def quad_def get4_def put4_def quad_ok_def cells_def split: prod.splits)

text \<open>A group of lines without common elements: undoing them in the same order gives the block back.\<close>

primrec apart :: "nat vec4 list \<Rightarrow> bool" where
  "apart [] \<longleftrightarrow> True"
| "apart (q # qs) \<longleftrightarrow> list_all (\<lambda>r. set (cells q) \<inter> set (cells r) = {}) qs \<and> apart qs"

definition lines_ok :: "nat \<Rightarrow> (nat \<times> nat) list \<Rightarrow> bool" where
  "lines_ok n ls \<longleftrightarrow> list_all (quad_ok n) (List.map quad ls) \<and> apart (List.map quad ls)"

definition step :: "('a vec4 \<Rightarrow> 'a vec4) \<Rightarrow> nat \<times> nat \<Rightarrow> 'a list \<Rightarrow> 'a list" where
  "step f l b = put4 b (quad l) (f (get4 b (quad l)))"

lemma step_length [simp]: "length (step f l b) = length b"
  by (simp add: step_def)

lemma fold_step_length [simp]: "length (fold (step f) ls b) = length b"
  by (induction ls arbitrary: b) simp_all

lemma lifts_eq: "lines_ok (length b) ls \<Longrightarrow> lifts f ls b = Inr (fold (step f) ls b)"
  by (induction ls arbitrary: b) (simp_all add: lines_ok_def lift_eq step_def)

lemma step_commute:
  assumes "set (cells (quad l)) \<inter> set (cells (quad k)) = {}"
    and "quad_ok (length b) (quad l)" and "quad_ok (length b) (quad k)"
  shows "step g l (step f k b) = step f k (step g l b)"
proof -
  have "set (cells (quad k)) \<inter> set (cells (quad l)) = {}" using assms(1) by (simp add: Int_commute)
  then show ?thesis
    by (simp add: step_def get_put_other [OF _ assms(2)] get_put_other [OF assms(1) assms(3)]
      put_put_other [OF assms(1)])
qed

lemma step_fold_commute:
  "quad_ok (length b) (quad l) \<Longrightarrow> list_all (quad_ok (length b)) (List.map quad ks) \<Longrightarrow>
   list_all (\<lambda>k. set (cells (quad l)) \<inter> set (cells (quad k)) = {}) ks \<Longrightarrow>
   step g l (fold (step f) ks b) = fold (step f) ks (step g l b)"
  by (induction ks arbitrary: b) (simp_all add: step_commute)

lemma fold_steps_inverse:
  assumes "\<And>v. g (f v) = v"
  shows "lines_ok (length b) ls \<Longrightarrow> fold (step g) ls (fold (step f) ls b) = b"
proof (induction ls arbitrary: b)
  case (Cons l ls)
  have q: "quad_ok (length b) (quad l)" using Cons.prems by (simp add: lines_ok_def)
  have "step g l (fold (step f) ls (step f l b)) = fold (step f) ls (step g l (step f l b))"
    by (rule step_fold_commute) (use Cons.prems in \<open>simp_all add: lines_ok_def list.pred_map comp_def\<close>)
  also have "step g l (step f l b) = b"
    using q by (simp add: step_def get_put put_get assms)
  finally show ?case
    using Cons by (simp add: lines_ok_def)
qed simp

text \<open>Lines without common elements are those whose cells are all distinct.\<close>

lemma apart_concat: "distinct (concat (List.map cells qs)) \<Longrightarrow> apart qs"
  by (induction qs) (auto simp: list_all_iff)

lemma lines_ok_cells:
  assumes "distinct (concat (List.map cells (List.map quad ls)))"
    and "list_all (\<lambda>i. i < n) (concat (List.map cells (List.map quad ls)))"
  shows "lines_ok n ls"
proof -
  have "quad_ok n (quad l)" if "l \<in> set ls" for l
    using that assms by (induction ls) (auto simp: quad_ok_def list_all_iff)
  with apart_concat [OF assms(1)] show ?thesis by (simp add: lines_ok_def list_all_iff)
qed

lemma lines_4:
  "lines_ok 256 (lines_x 4)" "lines_ok 256 (lines_y 4)" "lines_ok 256 (lines_z 4)" "lines_ok 256 (lines_w 4)"
  by (rule lines_ok_cells; simp add: lines_x_def lines_y_def lines_z_def lines_w_def quad_def cells_def upt_rec)+

lemma block_lines:
  assumes "d \<in> {1, 2, 3, 4}"
  shows "lines_ok (BLOCK_SIZE d) (lines_x d)" "lines_ok (BLOCK_SIZE d) (lines_y d)"
    "lines_ok (BLOCK_SIZE d) (lines_z d)" "lines_ok (BLOCK_SIZE d) (lines_w d)"
proof -
  have 1: "lines_ok (BLOCK_SIZE 1) (lines_x 1)" "lines_ok (BLOCK_SIZE 1) (lines_y 1)" "lines_ok (BLOCK_SIZE 1) (lines_z 1)"
    "lines_ok (BLOCK_SIZE 1) (lines_w 1)" by code_simp+
  have 2: "lines_ok (BLOCK_SIZE 2) (lines_x 2)" "lines_ok (BLOCK_SIZE 2) (lines_y 2)" "lines_ok (BLOCK_SIZE 2) (lines_z 2)"
    "lines_ok (BLOCK_SIZE 2) (lines_w 2)" by code_simp+
  have 3: "lines_ok (BLOCK_SIZE 3) (lines_x 3)" "lines_ok (BLOCK_SIZE 3) (lines_y 3)" "lines_ok (BLOCK_SIZE 3) (lines_z 3)"
    "lines_ok (BLOCK_SIZE 3) (lines_w 3)" by code_simp+
  have "BLOCK_SIZE 4 = 256" by (simp add: BLOCK_SIZE_def)
  note 4 = lines_4 [folded this]
  show "lines_ok (BLOCK_SIZE d) (lines_x d)" "lines_ok (BLOCK_SIZE d) (lines_y d)" "lines_ok (BLOCK_SIZE d) (lines_z d)"
    "lines_ok (BLOCK_SIZE d) (lines_w d)"
    using assms 1 2 3 4 by auto
qed

lemma fwd_lines_ok:
  assumes "d \<in> {1, 2, 3, 4}" and "length b = BLOCK_SIZE d"
  shows "\<exists>c. fwd_lines f d b = Inr c \<and> length c = length b"
    and "\<exists>c. inv_lines f d b = Inr c \<and> length c = length b"
  using block_lines [OF assms(1)] assms(2) by (simp_all add: fwd_lines_def inv_lines_def lifts_eq)

lemma lines_inverse:
  assumes "\<And>v. g (f v) = v" and "d \<in> {1, 2, 3, 4}" and "length b = BLOCK_SIZE d" and "fwd_lines f d b = Inr c"
  shows "inv_lines g d c = Inr b"
  using block_lines [OF assms(2)] assms(3,4)
  by (simp add: fwd_lines_def inv_lines_def lifts_eq fold_steps_inverse [where g = g and f = f, OF assms(1)])
    (auto simp: lifts_eq fold_steps_inverse [where g = g and f = f, OF assms(1)])

section \<open>The order is a permutation\<close>

text \<open>The table for four dimensions against its inverse.\<close>

lemma perm_4_ok: "distinct perm_4" "list_all (\<lambda>i. i < 256) perm_4" "length perm_4 = 256"
  by (simp_all add: perm_4_def index_4_def)

lemma perm_ok:
  assumes "d \<in> {1, 2, 3, 4}"
  shows "distinct (PERM d)" "set (PERM d) = {..<BLOCK_SIZE d}" "length (PERM d) = BLOCK_SIZE d"
    "BLOCK_SIZE d \<le> 256" "0 < BLOCK_SIZE d"
proof -
  let ?ok = "\<lambda>d. distinct (PERM d) \<and> list_all (\<lambda>i. i < BLOCK_SIZE d) (PERM d) \<and> length (PERM d) = BLOCK_SIZE d"
  have 1: "?ok 1" and 2: "?ok 2" and 3: "?ok 3" by code_simp+
  have 4: "?ok 4" using perm_4_ok by (simp add: PERM_def BLOCK_SIZE_def)
  have *: "?ok d" using assms 1 2 3 4 by auto
  then show "distinct (PERM d)" "length (PERM d) = BLOCK_SIZE d" by simp_all
  show "0 < BLOCK_SIZE d" by (simp add: BLOCK_SIZE_def)
  show "BLOCK_SIZE d \<le> 256" using assms by (auto simp: BLOCK_SIZE_def)
  have "set (PERM d) \<subseteq> {..<BLOCK_SIZE d}" using * by (auto simp: list_all_iff)
  moreover have "card (set (PERM d)) = card {..<BLOCK_SIZE d}"
    using * by (simp add: distinct_card)
  ultimately show "set (PERM d) = {..<BLOCK_SIZE d}" by (simp add: card_subset_eq)
qed

lemma uint2int_int2uint [simp]: "uint2int nb (int2uint nb x) = x"
proof -
  have "((x + nb) XOR nb) XOR nb = x + nb" by (simp add: xor.assoc)
  then show ?thesis by (simp add: uint2int_def int2uint_def)
qed

lemma fwd_order_eq:
  "\<forall>i \<in> set p. i < length b \<Longrightarrow> fwd_order nb b p = Inr (List.map (\<lambda>i. int2uint nb (b ! i)) p)"
  by (induction p) simp_all

lemma inv_order_eq:
  "distinct p \<Longrightarrow> \<forall>i \<in> set p. i < length c \<Longrightarrow> length c = length b \<Longrightarrow>
   \<exists>e. inv_order nb c p (List.map (\<lambda>i. int2uint nb (b ! i)) p) = Inr e \<and> length e = length b \<and>
     (\<forall>i < length b. e ! i = (if i \<in> set p then b ! i else c ! i))"
proof (induction p arbitrary: c)
  case (Cons j p)
  have "\<exists>e. inv_order nb (c[j := b ! j]) p (List.map (\<lambda>i. int2uint nb (b ! i)) p) = Inr e \<and> length e = length b \<and>
     (\<forall>i < length b. e ! i = (if i \<in> set p then b ! i else c[j := b ! j] ! i))"
    by (rule Cons.IH) (use Cons.prems in simp_all)
  then obtain e where e: "inv_order nb (c[j := b ! j]) p (List.map (\<lambda>i. int2uint nb (b ! i)) p) = Inr e"
    "length e = length b" "\<forall>i < length b. e ! i = (if i \<in> set p then b ! i else c[j := b ! j] ! i)" by blast
  have "e ! i = (if i \<in> set (j # p) then b ! i else c ! i)" if "i < length b" for i
    using e(3) that Cons.prems(2,3) by (cases "i = j") auto
  with e(1,2) Cons.prems show ?case by simp
qed simp

lemma order_roundtrip:
  assumes "d \<in> {1, 2, 3, 4}" and "length b = BLOCK_SIZE d" and "length c = BLOCK_SIZE d"
  shows "\<exists>u. fwd_order nb b (take (BLOCK_SIZE d) (PERM d)) = Inr u \<and> length u = BLOCK_SIZE d \<and>
    inv_order nb c (take (BLOCK_SIZE d) (PERM d)) u = Inr b"
proof -
  note p = perm_ok [OF assms(1)]
  have t: "take (BLOCK_SIZE d) (PERM d) = PERM d" using p(3) by simp
  obtain e where e: "inv_order nb c (PERM d) (List.map (\<lambda>i. int2uint nb (b ! i)) (PERM d)) = Inr e"
    "length e = length b" "\<forall>i < length b. e ! i = (if i \<in> set (PERM d) then b ! i else c ! i)"
    using inv_order_eq [of "PERM d" c b nb] p assms by auto
  have "e = b" by (rule nth_equalityI) (use e p assms in simp_all)
  with e(1) show ?thesis
    unfolding t using p assms by (simp add: fwd_order_eq)
qed

end
