(* ===== verification/Zfp_Codec.thy ===== *)
theory Zfp_Codec
  imports Zfp_Block
begin

text \<open>
  Correctness of the block coders of \<^verbatim>\<open>Zfp_Block\<close>: \<^verbatim>\<open>rev_precision\<close> gives the number of bit planes that a
  block needs, the reversible coder is lossless, and the loss of the ordinary coder at full precision is
  that of its transform alone.
\<close>

section \<open>Precision\<close>

text \<open>\<open>q\<close> is the number of bits of \<open>m\<close> from its lowest one bit up to the most significant bit.\<close>

definition needs :: "nat \<Rightarrow> 'a::len word \<Rightarrow> bool" where
  "needs q m \<longleftrightarrow> push_bit q m = 0 \<and> (q = 0 \<or> push_bit (q - 1) m \<noteq> 0)"

lemma prec_loop_ok:
  "s = 0 \<or> (\<exists>i. s = 2 ^ i) \<Longrightarrow> push_bit (2 * s - 1) m = 0 \<Longrightarrow>
   \<exists>q. prec_loop s m p = Inr (p + q) \<and> needs q m"
proof (induction s m p rule: prec_loop.induct)
  case (1 s m p)
  show ?case
  proof (cases "m = 0")
    case True
    then show ?thesis by (subst prec_loop.simps) (simp add: needs_def)
  next
    case False
    then have s0: "s \<noteq> 0" using 1(4) by (cases s) auto
    then obtain i where i: "s = 2 ^ i" using 1(3) by blast
    have h: "s div 2 = 0 \<or> (\<exists>i. s div 2 = 2 ^ i)" using i by (cases i) auto
    have e: "2 * (s div 2) - 1 = s - 1 \<and> 2 * (s div 2) - 1 + s = 2 * s - 1 \<or> s = 1"
      using i by (cases i) auto
    show ?thesis
    proof (cases "push_bit (s - 1) m = 0")
      case True
      then have "s \<noteq> 1" using False by auto
      with e True have "push_bit (2 * (s div 2) - 1) m = 0" by simp
      from 1(2) [OF False s0 _ h this] True have
        "\<exists>q. prec_loop (s div 2) m p = Inr (p + q) \<and> needs q m" by simp
      with False s0 True show ?thesis by (subst prec_loop.simps) simp
    next
      case nz: False
      let ?m = "push_bit 1 (push_bit (s - 1) m)"
      have m: "?m = push_bit s m" using s0 by (simp only: push_bit_push_bit) simp
      have "push_bit (2 * (s div 2) - 1) ?m = 0"
      proof (cases "s = 1")
        case True
        with 1(4) m show ?thesis by simp
      next
        case False
        with e have e': "2 * (s div 2) - 1 + s = 2 * s - 1" by simp
        show ?thesis by (subst m, subst push_bit_push_bit, subst e') (rule 1(4))
      qed
      from 1(1) [OF False s0 nz h this] obtain q where
        q: "prec_loop (s div 2) ?m (p + s) = Inr (p + s + q)" "needs q ?m" by blast
      then have nq: "needs q (push_bit s m)" by (simp only: m)
      have "needs (s + q) m"
      proof -
        have "push_bit (q + s) m = 0" using nq by (simp add: needs_def push_bit_push_bit)
        then have "push_bit (s + q) m = 0" by (simp only: add.commute)
        moreover have "push_bit (s + q - 1) m \<noteq> 0"
        proof (cases q)
          case 0
          with nz show ?thesis by simp
        next
          case (Suc r)
          then have "push_bit (r + s) m \<noteq> 0"
            using nq by (simp add: needs_def push_bit_push_bit)
          with Suc show ?thesis by (simp add: add.commute)
        qed
        ultimately show ?thesis by (simp add: needs_def)
      qed
      with False s0 nz q(1) show ?thesis
        by (subst prec_loop.simps) (simp add: add.assoc)
    qed
  qed
qed

lemma push_bit_fold_or:
  "push_bit q (fold (OR) b c) = 0 \<longleftrightarrow> push_bit q c = 0 \<and> (\<forall>w \<in> set b. push_bit q w = 0)"
  for c :: "'a::len word"
proof (induction b arbitrary: c)
  case (Cons w b)
  have "push_bit q (w OR c) = 0 \<longleftrightarrow> push_bit q w = 0 \<and> push_bit q c = 0"
    by (simp only: push_bit_or) (metis bit_eq_iff bit_or_iff bit_0_eq bot_apply bot_bool_def or.right_neutral)
  with Cons show ?case by auto
qed simp

text \<open>\<^verbatim>\<open>rev_precision\<close> is the least precision at which no bit of the block is lost.\<close>

lemma rev_precision_ok:
  fixes b :: "'a::len word list"
  assumes "LENGTH('a) = 2 ^ j"
  shows "\<exists>q \<le> LENGTH('a). rev_precision b = Inr q \<and> (\<forall>w \<in> set b. push_bit q w = 0) \<and>
    (q = 0 \<or> (\<exists>w \<in> set b. push_bit (q - 1) w \<noteq> 0))"
proof -
  have z: "push_bit n m = 0" if "LENGTH('a) \<le> n" for n and m :: "'a word"
    using that by (simp add: push_bit_word_beyond)
  have "LENGTH('a) \<le> 2 * LENGTH('a) - 1"
    using len_gt_0 [where 'a = 'a] by linarith
  from prec_loop_ok [of "LENGTH('a)" "fold (OR) b (0 :: 'a word)" 0, OF _ z [OF this]] assms
  obtain q where q: "prec_loop LENGTH('a) (fold (OR) b (0 :: 'a word)) 0 = Inr q" "needs q (fold (OR) b (0 :: 'a word))"
    by auto
  have "q \<le> LENGTH('a)"
  proof (rule ccontr)
    assume "\<not> q \<le> LENGTH('a)"
    then have "push_bit (q - 1) (fold (OR) b (0 :: 'a word)) = 0" "q \<noteq> 0" by (auto intro: z)
    with q(2) show False by (simp add: needs_def)
  qed
  with q show ?thesis
    by (intro exI [of _ q]) (auto simp: rev_precision_def needs_def push_bit_fold_or)
qed

lemma keep_all:
  assumes "\<forall>w \<in> set b. push_bit q w = 0"
  shows "keep_from (LENGTH('a) - q) b = (b :: 'a::len word list)"
  unfolding keep_from_def
proof (rule map_idI)
  fix w :: "'a word"
  assume "w \<in> set b"
  then have 0: "push_bit q w = 0" using assms by simp
  have "\<not> bit w i" if "i < LENGTH('a) - q" for i
  proof
    assume "bit w i"
    then have "bit (push_bit q w) (i + q)" using that by (simp add: bit_push_bit_iff)
    with 0 show False by simp
  qed
  then show "push_bit (LENGTH('a) - q) (drop_bit (LENGTH('a) - q) w) = w"
    by (intro bit_eqI) (auto simp only: bit_push_drop not_less [symmetric])
qed

section \<open>Padding to a minimum\<close>

lemma to_uint_int: "0 \<le> i \<Longrightarrow> i < 2 ^ 32 \<Longrightarrow> to_uint i = nat i"
  by (simp add: to_uint_def)

text \<open>The zeros that fill a block up to the minimum number of bits.\<close>

definition filler :: "int \<Rightarrow> int \<Rightarrow> bool list" where
  "filler lo n = replicate (nat (lo - n)) False"

lemma pad_bits_ok:
  assumes "bs_ok s" and "0 \<le> n" and "lo < 2 ^ 31" and "length (filler lo n) \<le> room s"
  shows "\<exists>s'. pad_bits s lo n = Inr (max lo n, s') \<and> bs_ok s' \<and> written s' = written s @ filler lo n \<and>
    room s' + length (filler lo n) = room s"
proof (cases "n < lo")
  case True
  define k where "k = nat (lo - n)"
  have k: "to_uint (lo - n) = k" "k < 2 ^ 31" using True assms(2,3) by (simp_all add: to_uint_int k_def)
  have b: "bs_bits s < 64" "bs_ptr s \<le> length (bs_mem s)" using assms(1) by (simp_all add: bs_ok_def)
  have "k \<le> room s" using assms(4) by (simp add: filler_def k_def)
  moreover have "0 < k" using True by (simp add: k_def)
  ultimately have "stream_wtell s + k \<le> 64 * length (bs_mem s)" by (simp add: room_def)
  then have "\<exists>s'. stream_pad s k = Inr s' \<and> bs_ok s' \<and> written s' = written s @ replicate k False \<and>
      length (bs_mem s') = length (bs_mem s) \<and> drop (bs_ptr s') (bs_mem s') = drop (bs_ptr s') (bs_mem s)"
    by (intro stream_pad_ok) (use assms(1) b k in simp_all)
  then obtain s' where s': "stream_pad s k = Inr s'" "bs_ok s'" "written s' = written s @ replicate k False"
    "length (bs_mem s') = length (bs_mem s)" by blast
  have "bs_ptr s' \<le> length (bs_mem s')" using s'(2) by (simp add: bs_ok_def)
  from length_written [OF this] length_written [OF b(2)] s'(3) have "stream_wtell s' = stream_wtell s + k" by simp
  with s'(4) \<open>k \<le> room s\<close> have "room s' + k = room s" by (simp add: room_def)
  with True k s' show ?thesis by (auto simp: pad_bits_def filler_def k_def)
next
  case False
  with assms show ?thesis by (auto simp: pad_bits_def filler_def)
qed

lemma skip_bits_ok:
  assumes "reading s" and "0 \<le> n" and "lo < 2 ^ 31" and "unread s = filler lo n @ rest"
  shows "\<exists>s'. skip_bits s lo n = Inr (max lo n, s') \<and> reading s' \<and> bs_mem s' = bs_mem s \<and> unread s' = rest"
proof (cases "n < lo")
  case True
  define k where "k = nat (lo - n)"
  have k: "to_uint (lo - n) = k" using True assms(2,3) by (simp add: to_uint_int k_def)
  have "k \<le> length (unread s)" using assms(4) by (simp add: filler_def k_def)
  from stream_skip_ok [OF assms(1) this] assms(4) True k show ?thesis
    by (auto simp: skip_bits_def filler_def k_def)
next
  case False
  with assms show ?thesis by (auto simp: skip_bits_def filler_def)
qed

section \<open>The planes of a block\<close>

lemma encode_planes_ok:
  fixes u :: "'a::len word list"
  assumes "d \<in> {1, 2, 3, 4}" "length u = BLOCK_SIZE d" "bs_ok s"
    and "length (plane_code prec u) \<le> k" "length (plane_code prec u) \<le> room s"
  shows "\<exists>s'. encode_planes d s k prec u = Inr (length (plane_code prec u), s') \<and>
    bs_ok s' \<and> written s' = written s @ plane_code prec u \<and> room s' + length (plane_code prec u) = room s"
proof -
  have "0 < length u" "length u < 2 ^ 32" using perm_ok(4,5) [OF assms(1)] assms(2) by simp_all
  with encode_ints_ok [of u s prec k] encode_many_ints_ok [of u s prec k] assms(2-5) show ?thesis
    by (cases "BLOCK_SIZE d \<le> 64") (simp_all add: encode_planes_def)
qed

lemma decode_planes_ok:
  fixes u v :: "'a::len word list"
  assumes "d \<in> {1, 2, 3, 4}" "length u = BLOCK_SIZE d" "bs_ok s" "length v = BLOCK_SIZE d"
    and "length (plane_code prec u) \<le> k" "unread s = plane_code prec u @ rest"
  shows "\<exists>s'. decode_planes d s k prec v = Inr (length (plane_code prec u), keep_from (LENGTH('a) - prec) u, s') \<and>
    bs_ok s' \<and> unread s' = rest \<and> bs_mem s' = bs_mem s"
proof -
  have "0 < length u" using perm_ok(5) [OF assms(1)] assms(2) by simp
  with decode_ints_ok [of u s v prec k rest] decode_many_ints_ok [of u s v prec k rest] assms(2-6) show ?thesis
    by (cases "BLOCK_SIZE d \<le> 64") (simp_all add: decode_planes_def)
qed

section \<open>The ordinary coder\<close>

text \<open>The bits of a block: its planes, and zeros up to the minimum.\<close>

definition block_code :: "int \<Rightarrow> int \<Rightarrow> 'a::len word list \<Rightarrow> bool list" where
  "block_code lo mp u =
     (let c = plane_code (nat mp) u in c @ filler lo (int (length c)))"

lemma block_code_length: "int (length (block_code lo mp u)) = max lo (int (length (plane_code (nat mp) u)))"
  by (simp add: block_code_def filler_def Let_def)

lemma encode_block_ok:
  fixes b :: "'a::len word list"
  assumes d: "d \<in> {1, 2, 3, 4}" "length b = BLOCK_SIZE d" and s: "bs_ok s"
    and lim: "int LENGTH('a) \<le> mp" "mp < 2 ^ 31" "lo \<le> hi" "hi < 2 ^ 31"
      "int ((LENGTH('a) + 1) * BLOCK_SIZE d) \<le> hi"
    and rm: "nat hi \<le> room s"
    and x: "fwd_xform d b = Inr c" and o': "fwd_order nb c (take (BLOCK_SIZE d) (PERM d)) = Inr u"
    and lu: "length u = BLOCK_SIZE d"
  shows "\<exists>s'. encode_block d nb s lo hi mp b = Inr (int (length (block_code lo mp u)), s') \<and> bs_ok s' \<and>
    written s' = written s @ block_code lo mp u \<and> room s' + length (block_code lo mp u) = room s"
proof -
  let ?c = "plane_code (nat mp) u"
  have "0 \<le> hi" using lim(5) by (rule order_trans [rotated]) simp
  with lim have m: "to_uint mp = nat mp" "to_uint hi = nat hi"
    by (simp_all add: to_uint_int)
  have "length ?c \<le> min (nat mp) LENGTH('a) * length u + length u" by (rule plane_code_length)
  also have "\<dots> \<le> (LENGTH('a) + 1) * BLOCK_SIZE d" using lu by (simp add: mult_le_mono1)
  finally have c: "length ?c \<le> (LENGTH('a) + 1) * BLOCK_SIZE d" .
  then have hc: "int (length ?c) \<le> hi" "length ?c \<le> nat hi" using lim(5) by linarith+
  have "\<exists>t. encode_planes d s (nat hi) (nat mp) u = Inr (length ?c, t) \<and> bs_ok t \<and>
      written t = written s @ ?c \<and> room t + length ?c = room s"
    by (rule encode_planes_ok [OF d(1) lu]) (use s hc rm in simp_all)
  then obtain t where t: "encode_planes d s (nat hi) (nat mp) u = Inr (length ?c, t)" "bs_ok t"
    "written t = written s @ ?c" "room t + length ?c = room s" by blast
  have "length (filler lo (int (length ?c))) \<le> room t"
    using t(4) rm lim(3) hc(1) by (simp add: filler_def)
  then have "\<exists>s'. pad_bits t lo (int (length ?c)) = Inr (max lo (int (length ?c)), s') \<and> bs_ok s' \<and>
      written s' = written t @ filler lo (int (length ?c)) \<and>
      room s' + length (filler lo (int (length ?c))) = room t"
    by (intro pad_bits_ok) (use t(2) lim in simp_all)
  with t x o' lu m show ?thesis
    by (auto simp: encode_block_def block_code_length [symmetric] block_code_def Let_def)
qed

lemma block_limits:
  fixes u :: "'a::len word list"
  assumes "length u = BLOCK_SIZE d" and "int ((LENGTH('a) + 1) * BLOCK_SIZE d) \<le> k"
  shows "int (length (plane_code prec u)) \<le> k" "length (plane_code prec u) \<le> nat k" "0 \<le> k"
proof -
  have "length (plane_code prec u) \<le> min prec LENGTH('a) * length u + length u" by (rule plane_code_length)
  also have "\<dots> \<le> (LENGTH('a) + 1) * BLOCK_SIZE d" using assms(1) by (simp add: mult_le_mono1)
  finally show "int (length (plane_code prec u)) \<le> k" "length (plane_code prec u) \<le> nat k" "0 \<le> k"
    using assms(2) by linarith+
qed

lemma decode_block_ok:
  fixes b :: "'a::len word list"
  assumes d: "d \<in> {1, 2, 3, 4}" "length b' = BLOCK_SIZE d" "length c = BLOCK_SIZE d" and s: "reading s"
    and lim: "int LENGTH('a) \<le> mp" "mp < 2 ^ 31" "lo \<le> hi" "hi < 2 ^ 31"
      "int ((LENGTH('a) + 1) * BLOCK_SIZE d) \<le> hi"
    and o': "fwd_order nb c (take (BLOCK_SIZE d) (PERM d)) = Inr u"
    and u: "unread s = block_code lo mp u @ rest" and x: "inv_xform d c = Inr b"
  shows "\<exists>s'. decode_block d nb s lo hi mp b' = Inr (int (length (block_code lo mp u)), b, s') \<and> reading s' \<and>
    unread s' = rest \<and> bs_mem s' = bs_mem s"
proof -
  let ?c = "plane_code (nat mp) u"
  obtain v where v: "fwd_order nb c (take (BLOCK_SIZE d) (PERM d)) = Inr v" "length v = BLOCK_SIZE d"
    "inv_order nb b' (take (BLOCK_SIZE d) (PERM d)) v = Inr c"
    using order_roundtrip [OF d(1,3,2)] by blast
  with o' have lu: "length u = BLOCK_SIZE d" and io: "inv_order nb b' (take (BLOCK_SIZE d) (PERM d)) u = Inr c"
    by auto
  have hc: "int (length ?c) \<le> hi" "length ?c \<le> nat hi" "0 \<le> hi"
    by (rule block_limits [OF lu lim(5)])+
  have m: "to_uint mp = nat mp" "to_uint hi = nat hi"
    using lim hc(3) by (simp_all add: to_uint_int)
  have ok: "bs_ok s" using s by (simp add: reading_def)
  have us: "unread s = ?c @ filler lo (int (length ?c)) @ rest"
    using u by (simp add: block_code_def Let_def)
  have "\<exists>t. decode_planes d s (nat hi) (nat mp) (replicate (BLOCK_SIZE d) (0 :: 'a word)) =
      Inr (length ?c, keep_from (LENGTH('a) - nat mp) u, t) \<and> bs_ok t \<and>
      unread t = filler lo (int (length ?c)) @ rest \<and> bs_mem t = bs_mem s"
    by (rule decode_planes_ok [OF d(1) lu]) (use ok hc us in simp_all)
  moreover have "LENGTH('a) - nat mp = 0" using lim(1) by simp
  ultimately obtain t where t: "decode_planes d s (nat hi) (nat mp) (replicate (BLOCK_SIZE d) (0 :: 'a word)) =
      Inr (length ?c, u, t)" "bs_ok t" "unread t = filler lo (int (length ?c)) @ rest" "bs_mem t = bs_mem s"
    using lu by auto
  have r: "reading t"
    using reading_step [OF s t(2,4), of ?c] us t(3) by simp
  have "\<exists>s'. skip_bits t lo (int (length ?c)) = Inr (max lo (int (length ?c)), s') \<and> reading s' \<and>
      bs_mem s' = bs_mem t \<and> unread s' = rest"
    by (rule skip_bits_ok [OF r]) (use lim t(3) in simp_all)
  with t x io m show ?thesis
    by (auto simp: decode_block_def block_code_length)
qed

section \<open>The reversible coder\<close>

text \<open>The bits of a block: its precision less one, its planes, and zeros up to the minimum.\<close>

definition rev_code :: "nat \<Rightarrow> int \<Rightarrow> nat \<Rightarrow> 'a::len word list \<Rightarrow> bool list" where
  "rev_code pbits lo prec u =
     (let c = word_bits pbits (word_of_nat (prec - 1)) @ plane_code prec u
      in c @ filler lo (int (length c)))"

lemma rev_code_length:
  "int (length (rev_code pbits lo prec u)) = max lo (int pbits + int (length (plane_code prec u)))"
  by (simp add: rev_code_def filler_def Let_def)

lemma rev_encode_block_fits:
  fixes b :: "'a::len word list"
  assumes d: "d \<in> {1, 2, 3, 4}" "length b = BLOCK_SIZE d" and s: "bs_ok s"
    and tr: "LENGTH('a) = 2 ^ pbits" "pbits \<le> 64"
    and lim: "int LENGTH('a) \<le> mp" "lo \<le> hi" "hi < 2 ^ 31" "int ((LENGTH('a) + 1) * BLOCK_SIZE d) \<le> hi - int pbits"
    and rm: "length (rev_code pbits lo r u) \<le> room s"
    and x: "rev_fwd_xform d b = Inr c" and o': "fwd_order nb c (take (BLOCK_SIZE d) (PERM d)) = Inr u"
    and lu: "length u = BLOCK_SIZE d" and p: "rev_precision u = Inr q" "q \<le> LENGTH('a)"
    and r: "r = max q 1"
  shows "\<exists>s'. rev_encode_block d nb pbits s lo hi mp b = Inr (int (length (rev_code pbits lo r u)), s') \<and>
    bs_ok s' \<and> written s' = written s @ rev_code pbits lo r u \<and> room s' + length (rev_code pbits lo r u) = room s"
proof -
  let ?c = "plane_code r u"
  have hc: "int (length ?c) \<le> hi - int pbits" "length ?c \<le> nat (hi - int pbits)" "0 \<le> hi - int pbits"
    by (rule block_limits [OF lu lim(4)])+
  have r31: "int r < 2 ^ 31"
  proof -
    have "LENGTH('a) \<le> (LENGTH('a) + 1) * BLOCK_SIZE d"
      using perm_ok(5) [OF d(1)] by (cases "BLOCK_SIZE d") simp_all
    then have "int LENGTH('a) < 2 ^ 31" using lim(3,4) by linarith
    with p(2) show ?thesis by (simp add: r)
  qed
  have prec: "max (min (int q) mp) 1 = int r" using lim(1) p(2) by (simp add: r)
  have m: "to_uint (int r) = r" "to_uint (hi - int pbits) = nat (hi - int pbits)"
    using lim hc(3) r31 by (simp_all add: to_uint_int)
  let ?v = "word_of_nat (r - 1) :: u64"
  have "1 \<le> r" by (simp add: r)
  then obtain r' where r': "r = Suc r'" by (cases r) simp_all
  have v: "(word_of_nat r :: u64) - 1 = word_of_nat r'" "r - Suc 0 = r'" by (simp_all add: r')
  have rm': "pbits + length ?c \<le> room s" "lo \<le> int (room s)"
    using rm rev_code_length [of pbits lo r u] by linarith+
  have rs: "pbits \<le> room s" using rm'(1) by simp
  obtain t where t: "stream_write_bits s ?v pbits = Inr (drop_bit pbits ?v, t)" "bs_ok t"
    "written t = written s @ word_bits pbits ?v" "room t + pbits = room s"
    using write_bits_room [OF s tr(2) rs, of ?v] by blast
  have "\<exists>w. encode_planes d t (nat (hi - int pbits)) r u = Inr (length ?c, w) \<and> bs_ok w \<and>
      written w = written t @ ?c \<and> room w + length ?c = room t"
    by (rule encode_planes_ok [OF d(1) lu]) (use t hc rm' in simp_all)
  then obtain w where w: "encode_planes d t (nat (hi - int pbits)) r u = Inr (length ?c, w)" "bs_ok w"
    "written w = written t @ ?c" "room w + length ?c = room t" by blast
  have "length (filler lo (int pbits + int (length ?c))) \<le> room w"
    using w(4) t(4) rm' by (simp add: filler_def)
  then have "\<exists>s'. pad_bits w lo (int pbits + int (length ?c)) = Inr (max lo (int pbits + int (length ?c)), s') \<and>
      bs_ok s' \<and> written s' = written w @ filler lo (int pbits + int (length ?c)) \<and>
      room s' + length (filler lo (int pbits + int (length ?c))) = room w"
    by (intro pad_bits_ok) (use w(2) lim in simp_all)
  then obtain s' where s': "pad_bits w lo (int pbits + int (length ?c)) = Inr (max lo (int pbits + int (length ?c)), s')"
    "bs_ok s'" "written s' = written w @ filler lo (int pbits + int (length ?c))"
    "room s' + length (filler lo (int pbits + int (length ?c))) = room w" by blast
  have "rev_encode_block d nb pbits s lo hi mp b = Inr (max lo (int pbits + int (length ?c)), s')"
    unfolding rev_encode_block_def Let_def x o' bind_res_Inr
    using lu p(1) t(1) w(1) s'(1) by (simp add: prec v m)
  with s' w(3,4) t(3,4) show ?thesis
    unfolding rev_code_length by (auto simp: rev_code_def Let_def)
qed

lemma rev_encode_block_ok:
  fixes b :: "'a::len word list"
  assumes d: "d \<in> {1, 2, 3, 4}" "length b = BLOCK_SIZE d" and s: "bs_ok s"
    and tr: "LENGTH('a) = 2 ^ pbits" "pbits \<le> 64"
    and lim: "int LENGTH('a) \<le> mp" "lo \<le> hi" "hi < 2 ^ 31" "int ((LENGTH('a) + 1) * BLOCK_SIZE d) \<le> hi - int pbits"
    and rm: "nat hi \<le> room s"
    and x: "rev_fwd_xform d b = Inr c" and o': "fwd_order nb c (take (BLOCK_SIZE d) (PERM d)) = Inr u"
    and lu: "length u = BLOCK_SIZE d" and p: "rev_precision u = Inr q" "q \<le> LENGTH('a)"
    and r: "r = max q 1"
  shows "\<exists>s'. rev_encode_block d nb pbits s lo hi mp b = Inr (int (length (rev_code pbits lo r u)), s') \<and>
    bs_ok s' \<and> written s' = written s @ rev_code pbits lo r u \<and> room s' + length (rev_code pbits lo r u) = room s"
proof (rule rev_encode_block_fits [OF d s tr lim _ x o' lu p r])
  have "int (length (plane_code r u)) \<le> hi - int pbits" by (rule block_limits(1) [OF lu lim(4)])
  then have "int (length (rev_code pbits lo r u)) \<le> hi" using lim(2) by (simp add: rev_code_length)
  with rm show "length (rev_code pbits lo r u) \<le> room s" by linarith
qed

lemma rev_decode_block_ok:
  fixes b :: "'a::len word list"
  assumes d: "d \<in> {1, 2, 3, 4}" "length b' = BLOCK_SIZE d" "length c = BLOCK_SIZE d" and s: "reading s"
    and tr: "LENGTH('a) = 2 ^ pbits" "pbits \<le> 64"
    and lim: "lo \<le> hi" "hi < 2 ^ 31" "int ((LENGTH('a) + 1) * BLOCK_SIZE d) \<le> hi - int pbits"
    and o': "fwd_order nb c (take (BLOCK_SIZE d) (PERM d)) = Inr u"
    and p: "rev_precision u = Inr q" "q \<le> LENGTH('a)" "\<forall>w \<in> set u. push_bit q w = 0" and r: "r = max q 1"
    and u: "unread s = rev_code pbits lo r u @ rest" and x: "rev_inv_xform d c = Inr b"
  shows "\<exists>s'. rev_decode_block d nb pbits s lo hi b' = Inr (int (length (rev_code pbits lo r u)), b, s') \<and>
    reading s' \<and> unread s' = rest \<and> bs_mem s' = bs_mem s"
proof -
  let ?c = "plane_code r u" and ?v = "word_of_nat (r - 1) :: u64"
  obtain v where v: "fwd_order nb c (take (BLOCK_SIZE d) (PERM d)) = Inr v" "length v = BLOCK_SIZE d"
    "inv_order nb b' (take (BLOCK_SIZE d) (PERM d)) v = Inr c"
    using order_roundtrip [OF d(1,3,2)] by blast
  with o' have lu: "length u = BLOCK_SIZE d" and io: "inv_order nb b' (take (BLOCK_SIZE d) (PERM d)) u = Inr c"
    by auto
  have hc: "int (length ?c) \<le> hi - int pbits" "length ?c \<le> nat (hi - int pbits)" "0 \<le> hi - int pbits"
    by (rule block_limits [OF lu lim(3)])+
  have rl: "1 \<le> r" "r \<le> LENGTH('a)" using p(2) by (simp_all add: r Suc_le_eq)
  have r31: "int r < 2 ^ 31"
  proof -
    have "LENGTH('a) \<le> (LENGTH('a) + 1) * BLOCK_SIZE d"
      using perm_ok(5) [OF d(1)] by (cases "BLOCK_SIZE d") simp_all
    then have "int LENGTH('a) < 2 ^ 31" using lim(2,3) by linarith
    with rl(2) show ?thesis by linarith
  qed
  have m: "to_uint (int r) = r" "to_uint (hi - int pbits) = nat (hi - int pbits)"
    using lim hc(3) r31 by (simp_all add: to_uint_int)
  have us: "unread s = word_bits pbits ?v @ ?c @ filler lo (int pbits + int (length ?c)) @ rest"
    using u by (simp add: rev_code_def Let_def word_bits_def)
  have ok: "bs_ok s" using s by (simp add: reading_def)
  have "\<exists>t. stream_read_bits s pbits = Inr (take_bit pbits ?v, t) \<and> bs_ok t \<and> bs_mem t = bs_mem s \<and>
      unread t = ?c @ filler lo (int pbits + int (length ?c)) @ rest"
    by (rule read_bits_Inr) (use ok tr(2) us in simp_all)
  then obtain t where t: "stream_read_bits s pbits = Inr (take_bit pbits ?v, t)" "bs_ok t"
    "bs_mem t = bs_mem s" "unread t = ?c @ filler lo (int pbits + int (length ?c)) @ rest" by blast
  have lv: "r - 1 < 2 ^ pbits" using rl tr(1) by simp
  have nv: "uint (take_bit pbits ?v) + 1 = int r"
  proof -
    have "r - 1 < 2 ^ 64" using r31 by simp
    then have "unat ?v = r - 1" by (simp add: unat_of_nat take_bit_nat_eq_self)
    then have "unat (take_bit pbits ?v) = r - 1" using lv by (simp add: unsigned_take_bit_eq take_bit_nat_eq_self)
    then show ?thesis using rl(1) by (simp add: uint_nat of_nat_diff)
  qed
  have "\<exists>w. decode_planes d t (nat (hi - int pbits)) r (replicate (BLOCK_SIZE d) (0 :: 'a word)) =
      Inr (length ?c, keep_from (LENGTH('a) - r) u, w) \<and> bs_ok w \<and>
      unread w = filler lo (int pbits + int (length ?c)) @ rest \<and> bs_mem w = bs_mem t"
    by (rule decode_planes_ok [OF d(1) lu]) (use t hc in simp_all)
  moreover have "keep_from (LENGTH('a) - r) u = u"
  proof (rule keep_all, rule ballI)
    fix w assume "w \<in> set u"
    then have "push_bit (r - q) (push_bit q w) = 0" using p(3) by simp
    then show "push_bit r w = 0" by (simp add: push_bit_push_bit r)
  qed
  ultimately obtain w where w: "decode_planes d t (nat (hi - int pbits)) r (replicate (BLOCK_SIZE d) (0 :: 'a word)) =
      Inr (length ?c, u, w)" "bs_ok w" "unread w = filler lo (int pbits + int (length ?c)) @ rest" "bs_mem w = bs_mem t"
    using lu by auto
  have rw: "reading w"
    using reading_step [OF s w(2), of "word_bits pbits ?v @ ?c"] us w(3,4) t(3) by simp
  have "\<exists>s'. skip_bits w lo (int pbits + int (length ?c)) = Inr (max lo (int pbits + int (length ?c)), s') \<and>
      reading s' \<and> bs_mem s' = bs_mem w \<and> unread s' = rest"
    by (rule skip_bits_ok [OF rw]) (use lim w(3) in simp_all)
  then obtain s' where s': "skip_bits w lo (int pbits + int (length ?c)) = Inr (max lo (int pbits + int (length ?c)), s')"
    "reading s'" "bs_mem s' = bs_mem w" "unread s' = rest" by blast
  have "rev_decode_block d nb pbits s lo hi b' = Inr (max lo (int pbits + int (length ?c)), b, s')"
    unfolding rev_decode_block_def Let_def bind_res_Inr
    using t(1) w(1) s'(1) io x by (simp add: nv [unfolded One_nat_def] m)
  with s' w(4) t(3) show ?thesis
    unfolding rev_code_length by simp
qed

text \<open>
  The code of a block does not depend on the stream: it is the same for every budget that no block
  exceeds and every minimum that is not more than a bit.
\<close>

definition int_code :: "nat \<Rightarrow> 'a::len word \<Rightarrow> nat \<Rightarrow> 'a word list \<Rightarrow> bool list \<Rightarrow> bool" where
  "int_code d nb pbits b C \<longleftrightarrow> length C \<le> pbits + (LENGTH('a) + 1) * BLOCK_SIZE d \<and>
     (\<forall>s lo hi mp. bs_ok s \<and> int LENGTH('a) \<le> mp \<and> lo \<le> 1 \<and> hi < 2 ^ 31 \<and>
        int ((LENGTH('a) + 1) * BLOCK_SIZE d) \<le> hi - int pbits \<and> length C \<le> room s \<longrightarrow>
        (\<exists>s'. rev_encode_block d nb pbits s lo hi mp b = Inr (int (length C), s') \<and> bs_ok s' \<and>
          written s' = written s @ C \<and> room s' + length C = room s)) \<and>
     (\<forall>s lo hi b' rest. reading s \<and> length b' = BLOCK_SIZE d \<and> lo \<le> 1 \<and> hi < 2 ^ 31 \<and>
        int ((LENGTH('a) + 1) * BLOCK_SIZE d) \<le> hi - int pbits \<and> unread s = C @ rest \<longrightarrow>
        (\<exists>s'. rev_decode_block d nb pbits s lo hi b' = Inr (int (length C), b, s') \<and> reading s' \<and>
          unread s' = rest \<and> bs_mem s' = bs_mem s))"

lemma plane_code_pos:
  fixes u :: "'a::len word list"
  assumes "0 < length u" "0 < prec"
  shows "0 < length (plane_code prec u)"
proof -
  have "LENGTH('a) - prec < LENGTH('a)" using assms(2) by simp
  then have "[LENGTH('a) - prec..<LENGTH('a)] = [LENGTH('a) - prec..<LENGTH('a) - 1] @ [LENGTH('a) - 1]"
    using upt_Suc_append [of "LENGTH('a) - prec" "LENGTH('a) - 1"] by simp
  then show ?thesis
    unfolding plane_code_def using code_planes_first [OF assms(1), of "plane u (LENGTH('a) - 1)" 0] by simp
qed

lemma rev_code_lo:
  assumes "0 < length (plane_code prec u)" and "lo \<le> 1"
  shows "rev_code pbits lo prec u = rev_code pbits 1 prec u"
proof -
  have "1 \<le> int (length (plane_code prec u))" using assms(1) by linarith
  with assms(2) show ?thesis by (simp add: rev_code_def filler_def Let_def)
qed

lemma int_code_ex:
  fixes b :: "'a::len word list"
  assumes d: "d \<in> {1, 2, 3, 4}" "length b = BLOCK_SIZE d" and tr: "LENGTH('a) = 2 ^ pbits" "pbits \<le> 6"
  shows "\<exists>C. int_code d nb pbits b C"
proof -
  obtain c where c: "rev_fwd_xform d b = Inr c" "length c = BLOCK_SIZE d"
    using fwd_lines_ok(1) [OF d, of rev_fwd_vec] d(2) unfolding rev_fwd_xform_def by auto
  have b: "rev_inv_xform d c = Inr b"
    unfolding rev_inv_xform_def
    by (rule lines_inverse [where g = rev_inv_vec and f = rev_fwd_vec, OF _ d])
      (use c(1) in \<open>simp_all add: rev_vec_inverse rev_fwd_xform_def\<close>)
  obtain u where u: "fwd_order nb c (take (BLOCK_SIZE d) (PERM d)) = Inr u" "length u = BLOCK_SIZE d"
    using order_roundtrip [OF d(1) c(2) c(2)] by blast
  obtain q where q: "q \<le> LENGTH('a)" "rev_precision u = Inr q" "\<forall>w \<in> set u. push_bit q w = 0"
    using rev_precision_ok [OF tr(1), of u] by blast
  define r where "r = max q 1"
  define C where "C = rev_code pbits 1 r u"
  have p64: "pbits \<le> 64" using tr(2) by simp
  have pos: "0 < length (plane_code r u)"
    by (rule plane_code_pos) (use perm_ok(5) [OF d(1)] u(2) in \<open>simp_all add: r_def\<close>)
  have C: "C = rev_code pbits lo r u" if "lo \<le> 1" for lo
    unfolding C_def by (rule rev_code_lo [OF pos that, symmetric])
  have "int (length (plane_code r u)) \<le> int ((LENGTH('a) + 1) * BLOCK_SIZE d)"
    by (rule block_limits(1) [OF u(2)]) simp
  moreover have "1 \<le> int (length (plane_code r u))" using pos by linarith
  ultimately have "int (length C) \<le> int pbits + int ((LENGTH('a) + 1) * BLOCK_SIZE d)"
    unfolding C_def rev_code_length by linarith
  then have len: "length C \<le> pbits + (LENGTH('a) + 1) * BLOCK_SIZE d" by linarith
  have "lo \<le> hi" if "lo \<le> 1" "int ((LENGTH('a) + 1) * BLOCK_SIZE d) \<le> hi - int pbits" for lo hi
  proof -
    have "0 < (LENGTH('a) + 1) * BLOCK_SIZE d" using perm_ok(5) [OF d(1)] by simp
    with that show ?thesis by linarith
  qed
  note lh = this
  have enc: "\<exists>s'. rev_encode_block d nb pbits s lo hi mp b = Inr (int (length C), s') \<and> bs_ok s' \<and>
      written s' = written s @ C \<and> room s' + length C = room s"
    if "bs_ok s" "int LENGTH('a) \<le> mp" "lo \<le> 1" "hi < 2 ^ 31"
      "int ((LENGTH('a) + 1) * BLOCK_SIZE d) \<le> hi - int pbits" "length C \<le> room s" for s lo hi mp
    using rev_encode_block_fits [OF d that(1) tr(1) p64 that(2) lh [OF that(3,5)] that(4,5) _ c(1) u q(2,1) r_def]
      that(6) unfolding C [OF that(3)] by blast
  have dec: "\<exists>s'. rev_decode_block d nb pbits s lo hi b' = Inr (int (length C), b, s') \<and> reading s' \<and>
      unread s' = rest \<and> bs_mem s' = bs_mem s"
    if "reading s" "length b' = BLOCK_SIZE d" "lo \<le> 1" "hi < 2 ^ 31"
      "int ((LENGTH('a) + 1) * BLOCK_SIZE d) \<le> hi - int pbits" "unread s = C @ rest" for s lo hi b' rest
    using rev_decode_block_ok [OF d(1) that(2) c(2) that(1) tr(1) p64 lh [OF that(3,5)] that(4,5) u(1) q(2,1,3) r_def _ b]
      that(6) unfolding C [OF that(3)] by blast
  from len enc dec show ?thesis unfolding int_code_def by (intro exI [of _ C] conjI allI impI) blast+
qed

section \<open>Blocks of a stream\<close>

text \<open>The reversible mode leaves every block its full length.\<close>

lemma reversible_limits:
  assumes "d \<in> {1, 2, 3, 4}" and "LENGTH('a::len) = 2 ^ pbits" and "pbits \<le> 6"
    and "z = zfp_stream_set_reversible z'"
  shows "is_reversible z" "int LENGTH('a) \<le> sint (maxprec z)" "sint (minbits z) \<le> sint (maxbits z)"
    "sint (maxbits z) < 2 ^ 31" "int ((LENGTH('a) + 1) * BLOCK_SIZE d) \<le> sint (maxbits z) - int pbits"
    "nat (sint (maxbits z)) = 16657"
proof -
  have v: "minexp z = - 1075" "sint (maxprec z) = 64" "sint (minbits z) = 1" "sint (maxbits z) = 16657"
    by (simp_all add: assms(4) zfp_stream_set_reversible_def)
  have l: "LENGTH('a) \<le> 64" using power_increasing [OF assms(3), of "2 :: nat"] assms(2) by simp
  have "(LENGTH('a) + 1) * BLOCK_SIZE d \<le> 65 * 256"
    using l perm_ok(4) [OF assms(1)] by (intro mult_le_mono) simp_all
  then have "int ((LENGTH('a) + 1) * BLOCK_SIZE d) \<le> 16640" by linarith
  with v assms(3) l show "is_reversible z" "int LENGTH('a) \<le> sint (maxprec z)" "sint (minbits z) \<le> sint (maxbits z)"
    "sint (maxbits z) < 2 ^ 31" "int ((LENGTH('a) + 1) * BLOCK_SIZE d) \<le> sint (maxbits z) - int pbits"
    "nat (sint (maxbits z)) = 16657"
    by (simp_all add: is_reversible_def)
qed

lemma zfp_block_reversible:
  assumes "is_reversible z"
  shows "length b = BLOCK_SIZE d \<Longrightarrow> zfp_encode_block d nb pbits z b =
      bind_res (rev_encode_block d nb pbits (zs_bits z) (sint (minbits z)) (sint (maxbits z)) (sint (maxprec z)) b)
        (\<lambda>(bits, s). Inr (bits, z\<lparr>zs_bits := s\<rparr>))"
    and "zfp_decode_block d nb pbits z b' =
      bind_res (rev_decode_block d nb pbits (zs_bits z) (sint (minbits z)) (sint (maxbits z)) b')
        (\<lambda>(bits, b, s). Inr (bits, b, z\<lparr>zs_bits := s\<rparr>))"
  using assms by (simp_all add: zfp_encode_block_def zfp_decode_block_def)

text \<open>
  A block code: what \<^verbatim>\<open>zfp_encode_block\<close> appends for \<open>b\<close> in reversible mode, and \<^verbatim>\<open>zfp_decode_block\<close> takes
  for \<open>b\<close>, wherever it stands in the stream.
\<close>

definition codes :: "nat \<Rightarrow> 'a::len word \<Rightarrow> nat \<Rightarrow> 'a word list \<Rightarrow> bool list \<Rightarrow> bool" where
  "codes d nb pbits b c \<longleftrightarrow> length c \<le> 16657 \<and>
     (\<forall>z z0. z = zfp_stream_set_reversible z0 \<and> bs_ok (zs_bits z) \<and> 16657 \<le> room (zs_bits z) \<longrightarrow>
        (\<exists>s. zfp_encode_block d nb pbits z b = Inr (int (length c), z\<lparr>zs_bits := s\<rparr>) \<and> bs_ok s \<and>
          written s = written (zs_bits z) @ c \<and> room s + length c = room (zs_bits z))) \<and>
     (\<forall>z z0 b' rest. z = zfp_stream_set_reversible z0 \<and> reading (zs_bits z) \<and> length b' = BLOCK_SIZE d \<and>
        unread (zs_bits z) = c @ rest \<longrightarrow>
        (\<exists>s. zfp_decode_block d nb pbits z b' = Inr (int (length c), b, z\<lparr>zs_bits := s\<rparr>) \<and> reading s \<and>
          unread s = rest \<and> bs_mem s = bs_mem (zs_bits z)))"

lemma reversible_codes:
  fixes b :: "'a::len word list"
  assumes d: "d \<in> {1, 2, 3, 4}" "length b = BLOCK_SIZE d" and tr: "LENGTH('a) = 2 ^ pbits" "pbits \<le> 6"
  shows "\<exists>c. codes d nb pbits b c"
proof -
  obtain C where C: "length C \<le> pbits + (LENGTH('a) + 1) * BLOCK_SIZE d"
    "\<And>s lo hi mp. bs_ok s \<Longrightarrow> int LENGTH('a) \<le> mp \<Longrightarrow> lo \<le> 1 \<Longrightarrow> hi < 2 ^ 31 \<Longrightarrow>
      int ((LENGTH('a) + 1) * BLOCK_SIZE d) \<le> hi - int pbits \<Longrightarrow> length C \<le> room s \<Longrightarrow>
      \<exists>s'. rev_encode_block d nb pbits s lo hi mp b = Inr (int (length C), s') \<and> bs_ok s' \<and>
        written s' = written s @ C \<and> room s' + length C = room s"
    "\<And>s lo hi b' rest. reading s \<Longrightarrow> length b' = BLOCK_SIZE d \<Longrightarrow> lo \<le> 1 \<Longrightarrow> hi < 2 ^ 31 \<Longrightarrow>
      int ((LENGTH('a) + 1) * BLOCK_SIZE d) \<le> hi - int pbits \<Longrightarrow> unread s = C @ rest \<Longrightarrow>
      \<exists>s'. rev_decode_block d nb pbits s lo hi b' = Inr (int (length C), b, s') \<and> reading s' \<and>
        unread s' = rest \<and> bs_mem s' = bs_mem s"
    using int_code_ex [OF d tr, of nb] unfolding int_code_def by blast
  have lo: "sint (minbits z) \<le> 1" if "z = zfp_stream_set_reversible z0" for z z0
    unfolding that by (simp add: zfp_stream_set_reversible_def)
  have len: "length C \<le> 16657"
    using C(1) reversible_limits(5,6) [OF d(1) tr refl, of undefined] by linarith
  have enc: "\<exists>s. zfp_encode_block d nb pbits z b = Inr (int (length C), z\<lparr>zs_bits := s\<rparr>) \<and> bs_ok s \<and>
      written s = written (zs_bits z) @ C \<and> room s + length C = room (zs_bits z)"
    if z: "z = zfp_stream_set_reversible z0" and s: "bs_ok (zs_bits z)" "16657 \<le> room (zs_bits z)" for z z0
  proof -
    note l = reversible_limits [OF d(1) tr z]
    have "length C \<le> room (zs_bits z)" using len s(2) by simp
    from C(2) [OF s(1) l(2) lo [OF z] l(4,5) this] show ?thesis
      unfolding zfp_block_reversible(1) [OF l(1) d(2)] by auto
  qed
  have dec: "\<exists>s. zfp_decode_block d nb pbits z b' = Inr (int (length C), b, z\<lparr>zs_bits := s\<rparr>) \<and> reading s \<and>
      unread s = rest \<and> bs_mem s = bs_mem (zs_bits z)"
    if z: "z = zfp_stream_set_reversible z0" and s: "reading (zs_bits z)" "length b' = BLOCK_SIZE d"
      "unread (zs_bits z) = C @ rest" for z z0 b' rest
  proof -
    note l = reversible_limits [OF d(1) tr z]
    from C(3) [OF s(1,2) lo [OF z] l(4,5) s(3)] show ?thesis
      unfolding zfp_block_reversible(2) [OF l(1)] by auto
  qed
  from len enc dec show ?thesis unfolding codes_def by (intro exI [of _ C] conjI allI impI) blast+
qed

end
