(* ===== verification/Zfp_Array.thy ===== *)
theory Zfp_Array
  imports Zfp_Codec
begin

text \<open>
  Arrays: blocks are gathered from and scattered to a strided array, and \<^verbatim>\<open>compress\<close> and
  \<^verbatim>\<open>decompress\<close> run over all blocks of an array of one to four dimensions
  (\<^verbatim>\<open>encode1.c\<close> to \<^verbatim>\<open>encode4.c\<close>, \<^verbatim>\<open>decode1.c\<close> to \<^verbatim>\<open>decode4.c\<close> in \<^verbatim>\<open>src/zfp-0.5.5/src/template\<close>;
  the loops over the blocks are in \<^verbatim>\<open>Zfp_Compress\<close>).

  The memory that holds the array is a list \<open>m\<close> of its elements; a pointer into it is the index \<open>p\<close>, an
  integer, and \<open>fd_data\<close> the index of the field's first element.  A pointer moves by the increments of
  the \<^verbatim>\<open>for\<close> statements: those of the loops over full blocks, as \<^verbatim>\<open>sy - 4 * sx\<close>, are computed in type \<^verbatim>\<open>int\<close>
  and undefined where they overflow; those for partial blocks, as \<^verbatim>\<open>sy - (ptrdiff_t)nx * sx\<close>, are computed in 64 bits,
  which hold the products of a size of at most 4 and a stride.  An uninitialised \<^verbatim>\<open>fblock\<close> is a block of zeros: each of its
  elements is written before it is read.  Sizes are written \<open>kx\<close> to \<open>kw\<close> and strides \<open>tx\<close> to
  \<open>tw\<close>: the names of the source are the fields of \<open>zfp_field\<close>.
\<close>

section \<open>Blocks in strided arrays\<close>

definition copy_elem :: "'a list \<Rightarrow> nat \<Rightarrow> nat \<Rightarrow> err + 'a list" where
  "copy_elem q i j = (if j < length q then arr_store q i (q ! j) else Inl Out_Of_Bounds)"

text \<open>\<^verbatim>\<open>pad_block\<close> at \<open>q + b\<close>; the cases fall through.\<close>

definition pad_block :: "'a::len word list \<Rightarrow> nat \<Rightarrow> nat \<Rightarrow> nat \<Rightarrow> err + 'a word list" where
  "pad_block q b n s =
     bind_res (if n = 0 then arr_store q (b + 0 * s) 0 else Inr q) (\<lambda>q.
     bind_res (if n = 0 \<or> n = 1 then copy_elem q (b + 1 * s) (b + 0 * s) else Inr q) (\<lambda>q.
     bind_res (if n = 0 \<or> n = 1 \<or> n = 2 then copy_elem q (b + 2 * s) (b + 1 * s) else Inr q) (\<lambda>q.
       if n = 0 \<or> n = 1 \<or> n = 2 \<or> n = 3 then copy_elem q (b + 3 * s) (b + 0 * s) else Inr q)))"

text \<open>The innermost loops: a row of \<open>n\<close> elements is read to \<open>q + b\<close>, or written from there.\<close>

definition get_row :: "'a list \<Rightarrow> nat \<Rightarrow> int \<Rightarrow> nat \<Rightarrow> 'a list \<times> int \<Rightarrow> err + 'a list \<times> int" where
  "get_row m n tx b =
     loop n (\<lambda>x (q, p). bind_res (load m p) (\<lambda>v. bind_res (arr_store q (b + x) v) (\<lambda>q. Inr (q, p + tx)))) 0"

definition put_row :: "'a list \<Rightarrow> nat \<Rightarrow> int \<Rightarrow> nat \<Rightarrow> 'a list \<times> int \<Rightarrow> err + 'a list \<times> int" where
  "put_row q n tx b =
     loop n (\<lambda>x (m, p).
       if b + x < length q then bind_res (store m p (q ! (b + x))) (\<lambda>m. Inr (m, p + tx))
       else Inl Out_Of_Bounds) 0"

text \<open>The increment \<^verbatim>\<open>t - 4 * s\<close> of a pointer between the rows, layers and so on of a full block, in type \<^verbatim>\<open>int\<close>.\<close>

definition int_value :: "int \<Rightarrow> err + int" where
  "int_value v = (if - (2 ^ 31) \<le> v \<and> v < 2 ^ 31 then Inr v else Inl Undefined)"

definition advance :: "int \<Rightarrow> int \<Rightarrow> 'b \<times> int \<Rightarrow> err + 'b \<times> int" where
  "advance t s = (\<lambda>(q, p). bind_res (int_value (4 * s)) (\<lambda>v. bind_res (int_value (t - v)) (\<lambda>d. Inr (q, p + d))))"

definition get_rows :: "'a list \<Rightarrow> int \<Rightarrow> int \<Rightarrow> nat \<Rightarrow> 'a list \<times> int \<Rightarrow> err + 'a list \<times> int" where
  "get_rows m tx ty b = loop 4 (\<lambda>y s. bind_res (get_row m 4 tx (b + 4 * y) s) (advance ty tx)) 0"

definition put_rows :: "'a list \<Rightarrow> int \<Rightarrow> int \<Rightarrow> nat \<Rightarrow> 'a list \<times> int \<Rightarrow> err + 'a list \<times> int" where
  "put_rows q tx ty b = loop 4 (\<lambda>y s. bind_res (put_row q 4 tx (b + 4 * y) s) (advance ty tx)) 0"

definition put_partial_rows :: "'a list \<Rightarrow> nat \<Rightarrow> nat \<Rightarrow> int \<Rightarrow> int \<Rightarrow> nat \<Rightarrow> 'a list \<times> int \<Rightarrow> err + 'a list \<times> int" where
  "put_partial_rows q kx ky tx ty b =
     loop ky (\<lambda>y s. bind_res (put_row q kx tx (b + 4 * y) s) (\<lambda>(m, p). Inr (m, p + (ty - int kx * tx)))) 0"

definition get_partial_rows ::
  "'a::len word list \<Rightarrow> nat \<Rightarrow> nat \<Rightarrow> int \<Rightarrow> int \<Rightarrow> nat \<Rightarrow> 'a word list \<times> int \<Rightarrow> err + 'a word list \<times> int" where
  "get_partial_rows m kx ky tx ty b s =
     bind_res (loop ky (\<lambda>y s.
       bind_res (get_row m kx tx (b + 4 * y) s) (\<lambda>(q, p).
       bind_res (pad_block q (b + 4 * y) kx 1) (\<lambda>q. Inr (q, p + (ty - int kx * tx))))) 0 s) (\<lambda>(q, p).
     bind_res (loop 4 (\<lambda>x q. pad_block q (b + x) ky 4) 0 q) (\<lambda>q. Inr (q, p)))"

text \<open>Layers of rows, of full blocks and of partial ones.\<close>

definition get_layers :: "'a list \<Rightarrow> int \<Rightarrow> int \<Rightarrow> int \<Rightarrow> nat \<Rightarrow> 'a list \<times> int \<Rightarrow> err + 'a list \<times> int" where
  "get_layers m tx ty tz b =
     loop 4 (\<lambda>z s. bind_res (get_rows m tx ty (b + 16 * z) s) (advance tz ty)) 0"

definition put_layers :: "'a list \<Rightarrow> int \<Rightarrow> int \<Rightarrow> int \<Rightarrow> nat \<Rightarrow> 'a list \<times> int \<Rightarrow> err + 'a list \<times> int" where
  "put_layers q tx ty tz b = loop 4 (\<lambda>z s. bind_res (put_rows q tx ty (b + 16 * z) s) (advance tz ty)) 0"

definition put_partial_layers ::
  "'a list \<Rightarrow> nat \<Rightarrow> nat \<Rightarrow> nat \<Rightarrow> int \<Rightarrow> int \<Rightarrow> int \<Rightarrow> nat \<Rightarrow> 'a list \<times> int \<Rightarrow> err + 'a list \<times> int" where
  "put_partial_layers q kx ky kz tx ty tz b =
     loop kz (\<lambda>z s. bind_res (put_partial_rows q kx ky tx ty (b + 16 * z) s) (\<lambda>(m, p). Inr (m, p + (tz - int ky * ty)))) 0"

definition get_partial_layers ::
  "'a::len word list \<Rightarrow> nat \<Rightarrow> nat \<Rightarrow> nat \<Rightarrow> int \<Rightarrow> int \<Rightarrow> int \<Rightarrow> nat \<Rightarrow> 'a word list \<times> int \<Rightarrow>
     err + 'a word list \<times> int" where
  "get_partial_layers m kx ky kz tx ty tz b s =
     bind_res (loop kz (\<lambda>z s.
       bind_res (get_partial_rows m kx ky tx ty (b + 16 * z) s) (\<lambda>(q, p). Inr (q, p + (tz - int ky * ty)))) 0 s)
     (\<lambda>(q, p). bind_res (loop 4 (\<lambda>y. loop 4 (\<lambda>x q. pad_block q (b + 4 * y + x) kz 16) 0) 0 q) (\<lambda>q. Inr (q, p)))"

definition gather_1 :: "'a::len word list \<Rightarrow> int \<Rightarrow> int \<Rightarrow> err + 'a word list" where
  "gather_1 m p tx = bind_res (get_row m 4 tx 0 (replicate 4 0, p)) (\<lambda>(q, p). Inr q)"

definition gather_2 :: "'a::len word list \<Rightarrow> int \<Rightarrow> int \<Rightarrow> int \<Rightarrow> err + 'a word list" where
  "gather_2 m p tx ty = bind_res (get_rows m tx ty 0 (replicate 16 0, p)) (\<lambda>(q, p). Inr q)"

definition gather_3 :: "'a::len word list \<Rightarrow> int \<Rightarrow> int \<Rightarrow> int \<Rightarrow> int \<Rightarrow> err + 'a word list" where
  "gather_3 m p tx ty tz =
     bind_res (get_layers m tx ty tz 0 (replicate 64 0, p)) (\<lambda>(q, p). Inr q)"

definition gather_4 :: "'a::len word list \<Rightarrow> int \<Rightarrow> int \<Rightarrow> int \<Rightarrow> int \<Rightarrow> int \<Rightarrow> err + 'a word list" where
  "gather_4 m p tx ty tz tw =
     bind_res (loop 4 (\<lambda>w s. bind_res (get_layers m tx ty tz (64 * w) s) (advance tw tz)) 0 (replicate 256 0, p))
     (\<lambda>(q, p). Inr q)"

definition gather_partial_1 :: "'a::len word list \<Rightarrow> int \<Rightarrow> nat \<Rightarrow> int \<Rightarrow> err + 'a word list" where
  "gather_partial_1 m p kx tx =
     bind_res (get_row m kx tx 0 (replicate 4 0, p)) (\<lambda>(q, p). pad_block q 0 kx 1)"

definition gather_partial_2 :: "'a::len word list \<Rightarrow> int \<Rightarrow> nat \<Rightarrow> nat \<Rightarrow> int \<Rightarrow> int \<Rightarrow> err + 'a word list" where
  "gather_partial_2 m p kx ky tx ty =
     bind_res (get_partial_rows m kx ky tx ty 0 (replicate 16 0, p)) (\<lambda>(q, p). Inr q)"

definition gather_partial_3 ::
  "'a::len word list \<Rightarrow> int \<Rightarrow> nat \<Rightarrow> nat \<Rightarrow> nat \<Rightarrow> int \<Rightarrow> int \<Rightarrow> int \<Rightarrow> err + 'a word list" where
  "gather_partial_3 m p kx ky kz tx ty tz =
     bind_res (get_partial_layers m kx ky kz tx ty tz 0 (replicate 64 0, p)) (\<lambda>(q, p). Inr q)"

definition gather_partial_4 ::
  "'a::len word list \<Rightarrow> int \<Rightarrow> nat \<Rightarrow> nat \<Rightarrow> nat \<Rightarrow> nat \<Rightarrow> int \<Rightarrow> int \<Rightarrow> int \<Rightarrow> int \<Rightarrow> err + 'a word list" where
  "gather_partial_4 m p kx ky kz kw tx ty tz tw =
     bind_res (loop kw (\<lambda>w s.
       bind_res (get_partial_layers m kx ky kz tx ty tz (64 * w) s) (\<lambda>(q, p). Inr (q, p + (tw - int kz * tz)))) 0
       (replicate 256 0, p)) (\<lambda>(q, p).
     loop 4 (\<lambda>z. loop 4 (\<lambda>y. loop 4 (\<lambda>x q. pad_block q (16 * z + 4 * y + x) kw 64) 0) 0) 0 q)"

definition scatter_1 :: "'a list \<Rightarrow> 'a list \<Rightarrow> int \<Rightarrow> int \<Rightarrow> err + 'a list" where
  "scatter_1 q m p tx = bind_res (put_row q 4 tx 0 (m, p)) (\<lambda>(m, p). Inr m)"

definition scatter_2 :: "'a list \<Rightarrow> 'a list \<Rightarrow> int \<Rightarrow> int \<Rightarrow> int \<Rightarrow> err + 'a list" where
  "scatter_2 q m p tx ty = bind_res (put_rows q tx ty 0 (m, p)) (\<lambda>(m, p). Inr m)"

definition scatter_3 :: "'a list \<Rightarrow> 'a list \<Rightarrow> int \<Rightarrow> int \<Rightarrow> int \<Rightarrow> int \<Rightarrow> err + 'a list" where
  "scatter_3 q m p tx ty tz =
     bind_res (put_layers q tx ty tz 0 (m, p)) (\<lambda>(m, p). Inr m)"

definition scatter_4 :: "'a list \<Rightarrow> 'a list \<Rightarrow> int \<Rightarrow> int \<Rightarrow> int \<Rightarrow> int \<Rightarrow> int \<Rightarrow> err + 'a list" where
  "scatter_4 q m p tx ty tz tw =
     bind_res (loop 4 (\<lambda>w s. bind_res (put_layers q tx ty tz (64 * w) s) (advance tw tz)) 0 (m, p))
     (\<lambda>(m, p). Inr m)"

definition scatter_partial_1 :: "'a list \<Rightarrow> 'a list \<Rightarrow> int \<Rightarrow> nat \<Rightarrow> int \<Rightarrow> err + 'a list" where
  "scatter_partial_1 q m p kx tx = bind_res (put_row q kx tx 0 (m, p)) (\<lambda>(m, p). Inr m)"

definition scatter_partial_2 :: "'a list \<Rightarrow> 'a list \<Rightarrow> int \<Rightarrow> nat \<Rightarrow> nat \<Rightarrow> int \<Rightarrow> int \<Rightarrow> err + 'a list" where
  "scatter_partial_2 q m p kx ky tx ty = bind_res (put_partial_rows q kx ky tx ty 0 (m, p)) (\<lambda>(m, p). Inr m)"

definition scatter_partial_3 ::
  "'a list \<Rightarrow> 'a list \<Rightarrow> int \<Rightarrow> nat \<Rightarrow> nat \<Rightarrow> nat \<Rightarrow> int \<Rightarrow> int \<Rightarrow> int \<Rightarrow> err + 'a list" where
  "scatter_partial_3 q m p kx ky kz tx ty tz =
     bind_res (put_partial_layers q kx ky kz tx ty tz 0 (m, p)) (\<lambda>(m, p). Inr m)"

definition scatter_partial_4 ::
  "'a list \<Rightarrow> 'a list \<Rightarrow> int \<Rightarrow> nat \<Rightarrow> nat \<Rightarrow> nat \<Rightarrow> nat \<Rightarrow> int \<Rightarrow> int \<Rightarrow> int \<Rightarrow> int \<Rightarrow> err + 'a list" where
  "scatter_partial_4 q m p kx ky kz kw tx ty tz tw =
     bind_res (loop kw (\<lambda>w s.
       bind_res (put_partial_layers q kx ky kz tx ty tz (64 * w) s) (\<lambda>(m, p). Inr (m, p + (tw - int kz * tz)))) 0 (m, p))
     (\<lambda>(m, p). Inr m)"

section \<open>What a block has from the array\<close>

text \<open>
  The elements of a row of \<open>k\<close> elements with stride \<open>t\<close> from \<open>p\<close> on, and of rows and layers of such rows:
  that they lie inside the array, which they are, and that \<open>q\<close> holds them from \<open>b\<close> on.  Where there are full blocks,
  \<open>fits_2\<close> to \<open>fits_4\<close> also ask that the increments between their rows, layers and so on are values of type \<^verbatim>\<open>int\<close>.
\<close>

definition int_steps :: "int \<Rightarrow> int \<Rightarrow> bool" where
  "int_steps t s \<longleftrightarrow> - (2 ^ 29) \<le> s \<and> s < 2 ^ 29 \<and> - (2 ^ 31) \<le> t - 4 * s \<and> t - 4 * s < 2 ^ 31"

definition fits_1 :: "int \<Rightarrow> nat \<Rightarrow> int \<Rightarrow> nat \<Rightarrow> bool" where
  "fits_1 p k t l \<longleftrightarrow> (\<forall>x<k. 0 \<le> p + int x * t \<and> p + int x * t < int l)"

definition fits_2 :: "int \<Rightarrow> nat \<Rightarrow> nat \<Rightarrow> int \<Rightarrow> int \<Rightarrow> nat \<Rightarrow> bool" where
  "fits_2 p kx ky tx ty l \<longleftrightarrow> (\<forall>y<ky. fits_1 (p + int y * ty) kx tx l) \<and> (4 \<le> kx \<and> 4 \<le> ky \<longrightarrow> int_steps ty tx)"

definition fits_3 :: "int \<Rightarrow> nat \<Rightarrow> nat \<Rightarrow> nat \<Rightarrow> int \<Rightarrow> int \<Rightarrow> int \<Rightarrow> nat \<Rightarrow> bool" where
  "fits_3 p kx ky kz tx ty tz l \<longleftrightarrow> 
     (\<forall>z<kz. fits_2 (p + int z * tz) kx ky tx ty l) \<and> (4 \<le> kx \<and> 4 \<le> ky \<and> 4 \<le> kz \<longrightarrow> int_steps tz ty)"

definition fits_4 :: "int \<Rightarrow> nat \<Rightarrow> nat \<Rightarrow> nat \<Rightarrow> nat \<Rightarrow> int \<Rightarrow> int \<Rightarrow> int \<Rightarrow> int \<Rightarrow> nat \<Rightarrow> bool" where
  "fits_4 p kx ky kz kw tx ty tz tw l \<longleftrightarrow> 
     (\<forall>w<kw. fits_3 (p + int w * tw) kx ky kz tx ty tz l) \<and>
     (4 \<le> kx \<and> 4 \<le> ky \<and> 4 \<le> kz \<and> 4 \<le> kw \<longrightarrow> int_steps tw tz)"

definition cells_1 :: "int \<Rightarrow> nat \<Rightarrow> int \<Rightarrow> nat set" where
  "cells_1 p k t = (\<lambda>x. nat (p + int x * t)) ` {..<k}"

definition cells_2 :: "int \<Rightarrow> nat \<Rightarrow> nat \<Rightarrow> int \<Rightarrow> int \<Rightarrow> nat set" where
  "cells_2 p kx ky tx ty = (\<Union>y<ky. cells_1 (p + int y * ty) kx tx)"

definition cells_3 :: "int \<Rightarrow> nat \<Rightarrow> nat \<Rightarrow> nat \<Rightarrow> int \<Rightarrow> int \<Rightarrow> int \<Rightarrow> nat set" where
  "cells_3 p kx ky kz tx ty tz = (\<Union>z<kz. cells_2 (p + int z * tz) kx ky tx ty)"

definition cells_4 :: "int \<Rightarrow> nat \<Rightarrow> nat \<Rightarrow> nat \<Rightarrow> nat \<Rightarrow> int \<Rightarrow> int \<Rightarrow> int \<Rightarrow> int \<Rightarrow> nat set" where
  "cells_4 p kx ky kz kw tx ty tz tw = (\<Union>w<kw. cells_3 (p + int w * tw) kx ky kz tx ty tz)"

definition match_1 :: "'a list \<Rightarrow> nat \<Rightarrow> 'a list \<Rightarrow> int \<Rightarrow> nat \<Rightarrow> int \<Rightarrow> bool" where
  "match_1 q b m p k t \<longleftrightarrow> (\<forall>x<k. q ! (b + x) = m ! nat (p + int x * t))"

definition match_2 :: "'a list \<Rightarrow> nat \<Rightarrow> 'a list \<Rightarrow> int \<Rightarrow> nat \<Rightarrow> nat \<Rightarrow> int \<Rightarrow> int \<Rightarrow> bool" where
  "match_2 q b m p kx ky tx ty \<longleftrightarrow> (\<forall>y<ky. match_1 q (b + 4 * y) m (p + int y * ty) kx tx)"

definition match_3 ::
  "'a list \<Rightarrow> nat \<Rightarrow> 'a list \<Rightarrow> int \<Rightarrow> nat \<Rightarrow> nat \<Rightarrow> nat \<Rightarrow> int \<Rightarrow> int \<Rightarrow> int \<Rightarrow> bool" where
  "match_3 q b m p kx ky kz tx ty tz \<longleftrightarrow> (\<forall>z<kz. match_2 q (b + 16 * z) m (p + int z * tz) kx ky tx ty)"

definition match_4 ::
  "'a list \<Rightarrow> 'a list \<Rightarrow> int \<Rightarrow> nat \<Rightarrow> nat \<Rightarrow> nat \<Rightarrow> nat \<Rightarrow> int \<Rightarrow> int \<Rightarrow> int \<Rightarrow> int \<Rightarrow> bool" where
  "match_4 q m p kx ky kz kw tx ty tz tw \<longleftrightarrow> (\<forall>w<kw. match_3 q (64 * w) m (p + int w * tw) kx ky kz tx ty tz)"

text \<open>\<open>blend s A m\<close> is \<open>m\<close> with the elements \<open>A\<close> taken from \<open>s\<close>.\<close>

definition blend :: "'a list \<Rightarrow> nat set \<Rightarrow> 'a list \<Rightarrow> 'a list" where
  "blend s A m = List.map (\<lambda>i. if i \<in> A then s ! i else m ! i) [0..<length m]"

lemma blend_simps [simp]:
  "length (blend s A m) = length m" "i < length m \<Longrightarrow> blend s A m ! i = (if i \<in> A then s ! i else m ! i)"
  "blend s {} m = m" "blend s B (blend s A m) = blend s (A \<union> B) m"
  by (auto simp: blend_def intro: nth_equalityI)

lemma blend_insert: "i < length m \<Longrightarrow> m[i := s ! i] = blend s {i} m"
  by (rule nth_equalityI) (auto simp: nth_list_update)

lemma cells_Suc:
  "cells_1 p 0 t = {}" "cells_1 p (Suc k) t = cells_1 p k t \<union> {nat (p + int k * t)}"
  "cells_2 p kx 0 tx ty = {}" "cells_2 p kx (Suc ky) tx ty = cells_2 p kx ky tx ty \<union> cells_1 (p + int ky * ty) kx tx"
  by (auto simp: cells_1_def cells_2_def less_Suc_eq lessThan_Suc)

lemma advance_steps: "int_steps t s \<Longrightarrow> advance t s = (\<lambda>(q, p). Inr (q, p + (t - 4 * s)))"
  by (simp add: advance_def int_value_def int_steps_def)

lemma steps_full:
  "fits_2 p 4 4 tx ty l \<Longrightarrow> int_steps ty tx"
  "fits_3 p 4 4 4 tx ty tz l \<Longrightarrow> int_steps tz ty \<and> int_steps ty tx"
  "fits_4 p 4 4 4 4 tx ty tz tw l \<Longrightarrow> int_steps tw tz \<and> int_steps tz ty \<and> int_steps ty tx"
proof -
  show 2: "fits_2 p 4 4 tx ty l \<Longrightarrow> int_steps ty tx" for p by (simp add: fits_2_def)
  show 3: "fits_3 p 4 4 4 tx ty tz l \<Longrightarrow> int_steps tz ty \<and> int_steps ty tx" for p
    unfolding fits_3_def by (auto dest!: 2 spec [of _ 0])
  show "fits_4 p 4 4 4 4 tx ty tz tw l \<Longrightarrow> int_steps tw tz \<and> int_steps tz ty \<and> int_steps ty tx"
    unfolding fits_4_def by (auto dest!: 3 spec [of _ 0])
qed

section \<open>Gathering\<close>

lemma get_row_ok:
  assumes "fits_1 p k t (length m)" and "b + k \<le> length q"
  shows "\<exists>q'. get_row m k t b (q, p) = Inr (q', p + int k * t) \<and> length q' = length q \<and> match_1 q' b m p k t \<and>
    (\<forall>i. i < b \<or> b + k \<le> i \<longrightarrow> q' ! i = q ! i) \<and> set q' \<subseteq> set q \<union> (!) m ` cells_1 p k t"
proof -
  let ?I = "\<lambda>x s. snd s = p + int x * t \<and> length (fst s) = length q \<and> match_1 (fst s) b m p x t \<and>
    (\<forall>i. i < b \<or> b + x \<le> i \<longrightarrow> fst s ! i = q ! i) \<and> set (fst s) \<subseteq> set q \<union> (!) m ` cells_1 p x t"
  have "\<exists>s'. get_row m k t b (q, p) = Inr s' \<and> ?I k s'"
    unfolding get_row_def
  proof (rule loop0_ok [where I = ?I], goal_cases)
    case (1 x s)
    obtain q' p' where s: "s = (q', p')" by (cases s)
    have "0 \<le> p + int x * t" "p + int x * t < int (length m)" using assms(1) 1(1) by (auto simp: fits_1_def)
    moreover have "set (q'[b + x := v]) \<subseteq> set q \<union> insert v ((!) m ` cells_1 p x t)" for v
      using set_update_subset_insert [of q' "b + x" v] 1(2) s by auto
    ultimately show ?case using 1 s assms(2)
      by (auto simp: load_def arr_store_def match_1_def less_Suc_eq distrib_right cells_Suc)
  qed (simp add: match_1_def cells_Suc)
  then show ?thesis by auto
qed

text \<open>Padding adds no new elements.\<close>

lemma copy_elem_set: "copy_elem q i j = Inr q' \<Longrightarrow> set q' \<subseteq> set q"
  using set_update_subset_insert [of q i "q ! j"] by (auto simp: copy_elem_def arr_store_def split: if_splits)

lemma pad_block_set:
  assumes "pad_block q b n s = Inr q'" and "1 \<le> n"
  shows "set q' \<subseteq> set q"
proof -
  have c: "set y \<subseteq> set x" if "(if a then copy_elem x i j else Inr x) = Inr y" for a i j and x y :: "'a word list"
    using that by (auto dest: copy_elem_set split: if_splits)
  have n: "n \<noteq> 0" using assms(2) by simp
  from assms(1) [unfolded pad_block_def bind_res_eq_Inr] obtain q0 q1 q2 where
    "(if n = 0 then arr_store q (b + 0 * s) 0 else Inr q) = Inr q0"
    and q: "(if n = 0 \<or> n = 1 then copy_elem q0 (b + 1 * s) (b + 0 * s) else Inr q0) = Inr q1"
      "(if n = 0 \<or> n = 1 \<or> n = 2 then copy_elem q1 (b + 2 * s) (b + 1 * s) else Inr q1) = Inr q2"
      "(if n = 0 \<or> n = 1 \<or> n = 2 \<or> n = 3 then copy_elem q2 (b + 3 * s) (b + 0 * s) else Inr q2) = Inr q'" by blast
  then have "q0 = q" using n by simp
  with c [OF q(1)] c [OF q(2)] c [OF q(3)] show ?thesis by blast
qed

lemma pad_block_ok:
  assumes "1 \<le> n" "n \<le> 4" "b + 3 * s < length q"
  shows "\<exists>q'. pad_block q b n s = Inr q' \<and> length q' = length q \<and>
    (\<forall>i. i \<notin> (\<lambda>j. b + j * s) ` {n..<4} \<longrightarrow> q' ! i = q ! i)"
proof -
  have s: "b < length q" "b + s < length q" "b + 2 * s < length q" "b + 3 * s < length q" using assms(3) by linarith+
  have r: "{1..<4} = {1, 2, 3 :: nat}" "{2..<4} = {2, 3 :: nat}" "{3..<4} = {3 :: nat}" by auto
  consider "n = 1" | "n = 2" | "n = 3" | "n = 4" using assms(1,2) by linarith
  then show ?thesis
  proof cases
    case 1
    show ?thesis unfolding 1 r using s by (simp add: pad_block_def copy_elem_def arr_store_def nth_list_update)
  next
    case 2
    show ?thesis unfolding 2 r using s by (simp add: pad_block_def copy_elem_def arr_store_def nth_list_update)
  next
    case 3
    show ?thesis unfolding 3 r using s by (simp add: pad_block_def copy_elem_def arr_store_def nth_list_update)
  next
    case 4
    then show ?thesis by (simp add: pad_block_def)
  qed
qed

text \<open>Rows, as full blocks are read.\<close>

lemma get_rows_ok:
  assumes "fits_2 p 4 4 tx ty (length m)" and "b + 16 \<le> length q"
  shows "\<exists>q'. get_rows m tx ty b (q, p) = Inr (q', p + 4 * ty) \<and> length q' = length q \<and>
    match_2 q' b m p 4 4 tx ty \<and> (\<forall>i. i < b \<or> b + 16 \<le> i \<longrightarrow> q' ! i = q ! i) \<and>
    set q' \<subseteq> set q \<union> (!) m ` cells_2 p 4 4 tx ty"
proof -
  let ?I = "\<lambda>y s. snd s = p + int y * ty \<and> length (fst s) = length q \<and> match_2 (fst s) b m p 4 y tx ty \<and>
    (\<forall>i. i < b \<or> b + 4 * y \<le> i \<longrightarrow> fst s ! i = q ! i) \<and> set (fst s) \<subseteq> set q \<union> (!) m ` cells_2 p 4 y tx ty"
  have "\<exists>s'. get_rows m tx ty b (q, p) = Inr s' \<and> ?I 4 s'"
    unfolding get_rows_def advance_steps [OF steps_full(1) [OF assms(1)]]
  proof (rule loop0_ok [where I = ?I], goal_cases)
    case (1 y s)
    obtain q1 where s: "s = (q1, p + int y * ty)" using 1(2) by (cases s) simp
    have f: "fits_1 (p + int y * ty) 4 tx (length m)" using assms(1) 1(1) by (simp add: fits_2_def)
    have "b + 4 * y + 4 \<le> length q1" using assms(2) 1 s by simp
    from get_row_ok [OF f this] obtain q2 where
      q2: "get_row m 4 tx (b + 4 * y) (q1, p + int y * ty) = Inr (q2, p + int y * ty + int 4 * tx)"
      "length q2 = length q1" "match_1 q2 (b + 4 * y) m (p + int y * ty) 4 tx"
      "\<forall>i. i < b + 4 * y \<or> b + 4 * y + 4 \<le> i \<longrightarrow> q2 ! i = q1 ! i"
      "set q2 \<subseteq> set q1 \<union> (!) m ` cells_1 (p + int y * ty) 4 tx" by blast
    have "match_2 q2 b m p 4 (Suc y) tx ty"
      using 1(2) s q2(3,4) by (auto simp: match_2_def match_1_def less_Suc_eq)
    moreover have "\<forall>i. i < b \<or> b + 4 * Suc y \<le> i \<longrightarrow> q2 ! i = q ! i" using 1(2) s q2(4) by simp
    moreover have "set q2 \<subseteq> set q \<union> (!) m ` cells_2 p 4 (Suc y) tx ty"
      using q2(5) 1(2) s unfolding cells_Suc image_Un by auto
    ultimately show ?case using 1(2) s q2(1,2) by (simp add: distrib_right)
  qed (simp add: match_2_def cells_Suc)
  then show ?thesis by auto
qed

text \<open>Rows of a partial block, with the padding along both axes.\<close>

lemma match_2_frame:
  assumes "match_2 q b m p kx ky tx ty" and "kx \<le> 4"
    and "\<And>x y. x < kx \<Longrightarrow> y < ky \<Longrightarrow> q' ! (b + 4 * y + x) = q ! (b + 4 * y + x)"
  shows "match_2 q' b m p kx ky tx ty"
  using assms by (simp add: match_2_def match_1_def)

lemma get_partial_rows_ok:
  assumes k: "1 \<le> kx" "kx \<le> 4" "1 \<le> ky" "ky \<le> 4"
    and "fits_2 p kx ky tx ty (length m)" and "b + 16 \<le> length q"
  shows "\<exists>q'. get_partial_rows m kx ky tx ty b (q, p) = Inr (q', p + int ky * ty) \<and> length q' = length q \<and>
    match_2 q' b m p kx ky tx ty \<and> (\<forall>i. i < b \<or> b + 16 \<le> i \<longrightarrow> q' ! i = q ! i) \<and>
    set q' \<subseteq> set q \<union> (!) m ` cells_2 p kx ky tx ty"
proof -
  let ?I = "\<lambda>y s. snd s = p + int y * ty \<and> length (fst s) = length q \<and> match_2 (fst s) b m p kx y tx ty \<and>
    (\<forall>i. i < b \<or> b + 16 \<le> i \<longrightarrow> fst s ! i = q ! i) \<and> set (fst s) \<subseteq> set q \<union> (!) m ` cells_2 p kx y tx ty"
  let ?f = "\<lambda>y s. bind_res (get_row m kx tx (b + 4 * y) s) (\<lambda>(q, p).
       bind_res (pad_block q (b + 4 * y) kx 1) (\<lambda>q. Inr (q, p + (ty - int kx * tx))))"
  have "\<exists>s'. loop ky ?f 0 (q, p) = Inr s' \<and> ?I ky s'"
  proof (rule loop0_ok [where I = ?I], goal_cases)
    case (1 y s)
    obtain q1 where s: "s = (q1, p + int y * ty)" using 1(2) by (cases s) simp
    have f: "fits_1 (p + int y * ty) kx tx (length m)" using assms(5) 1(1) by (simp add: fits_2_def)
    have l: "b + 4 * y + 4 \<le> length q1" using assms(6) 1 s k by simp
    have "b + 4 * y + kx \<le> length q1" using l k by simp
    from get_row_ok [OF f this] obtain q2 where
      q2: "get_row m kx tx (b + 4 * y) (q1, p + int y * ty) = Inr (q2, p + int y * ty + int kx * tx)"
      "length q2 = length q1" "match_1 q2 (b + 4 * y) m (p + int y * ty) kx tx"
      "\<forall>i. i < b + 4 * y \<or> b + 4 * y + kx \<le> i \<longrightarrow> q2 ! i = q1 ! i"
      "set q2 \<subseteq> set q1 \<union> (!) m ` cells_1 (p + int y * ty) kx tx" by blast
    have "b + 4 * y + 3 * 1 < length q2" using l q2(2) by simp
    from pad_block_ok [OF k(1,2) this] obtain q3 where
      q3: "pad_block q2 (b + 4 * y) kx 1 = Inr q3" "length q3 = length q2"
      "\<And>i. i \<notin> (\<lambda>j. b + 4 * y + j * 1) ` {kx..<4} \<Longrightarrow> q3 ! i = q2 ! i" by blast
    have e: "q3 ! i = q2 ! i" if "i < b + 4 * y + kx \<or> b + 4 * y + 4 \<le> i" for i
      by (rule q3(3)) (use that in auto)
    have "match_1 q3 (b + 4 * y) m (p + int y * ty) kx tx" using q2(3) e by (simp add: match_1_def)
    moreover have "match_2 q3 b m p kx y tx ty"
      using 1(2) s by (intro match_2_frame [where q = q1 and q' = q3]) (use k e q2(4) in simp_all)
    ultimately have "match_2 q3 b m p kx (Suc y) tx ty" by (auto simp: match_2_def less_Suc_eq)
    moreover have "\<forall>i. i < b \<or> b + 16 \<le> i \<longrightarrow> q3 ! i = q ! i"
      using 1 s q2(4) e k by auto
    moreover have "set q3 \<subseteq> set q \<union> (!) m ` cells_2 p kx (Suc y) tx ty"
      using pad_block_set [OF q3(1) k(1)] q2(5) 1(2) s unfolding cells_Suc image_Un by auto
    ultimately show ?case using 1(2) s q2(1,2) q3(1,2) by (simp add: distrib_right)
  qed (simp add: match_2_def cells_Suc)
  then obtain q1 where q1: "loop ky ?f 0 (q, p) = Inr (q1, p + int ky * ty)" "length q1 = length q"
    "match_2 q1 b m p kx ky tx ty" "\<forall>i. i < b \<or> b + 16 \<le> i \<longrightarrow> q1 ! i = q ! i"
    "set q1 \<subseteq> set q \<union> (!) m ` cells_2 p kx ky tx ty" by auto
  let ?J = "\<lambda>(x :: nat) q'. length q' = length q \<and> match_2 q' b m p kx ky tx ty \<and>
    (\<forall>i. i < b \<or> b + 16 \<le> i \<longrightarrow> q' ! i = q ! i) \<and> set q' \<subseteq> set q \<union> (!) m ` cells_2 p kx ky tx ty"
  have "\<exists>q'. loop 4 (\<lambda>x q. pad_block q (b + x) ky 4) 0 q1 = Inr q' \<and> ?J 4 q'"
  proof (rule loop0_ok [where I = ?J], goal_cases)
    case (1 x q2)
    then have "b + x + 3 * 4 < length q2" using assms(6) by simp
    from pad_block_ok [OF k(3,4) this] obtain q3 where
      q3: "pad_block q2 (b + x) ky 4 = Inr q3" "length q3 = length q2"
      "\<And>i. i \<notin> (\<lambda>j. b + x + j * 4) ` {ky..<4} \<Longrightarrow> q3 ! i = q2 ! i" by blast
    have "match_2 q3 b m p kx ky tx ty"
    proof (rule match_2_frame [where q = q2])
      fix x' y :: nat
      assume "x' < kx" "y < ky"
      then show "q3 ! (b + 4 * y + x') = q2 ! (b + 4 * y + x')" using k(2) by (intro q3(3)) auto
    qed (use 1 k in simp_all)
    moreover have "q3 ! i = q2 ! i" if "i < b \<or> b + 16 \<le> i" for i
      by (rule q3(3)) (use that 1(1) in auto)
    moreover have "set q3 \<subseteq> set q \<union> (!) m ` cells_2 p kx ky tx ty"
      using pad_block_set [OF q3(1) k(3)] 1(2) by blast
    ultimately show ?case using 1 q3(1,2) by simp
  qed (use q1 in simp)
  with q1(1) show ?thesis by (auto simp: get_partial_rows_def)
qed

text \<open>A block holds, wherever the array has an element for it, that element.\<close>

lemma gather_1_ok:
  "fits_1 p 4 tx (length m) \<Longrightarrow> \<exists>q. gather_1 m p tx = Inr q \<and> length q = 4 \<and> match_1 q 0 m p 4 tx \<and>
    set q \<subseteq> insert 0 ((!) m ` cells_1 p 4 tx)"
  using get_row_ok [of p 4 tx m 0 "replicate 4 0"] by (auto simp: gather_1_def)

lemma gather_2_ok:
  "fits_2 p 4 4 tx ty (length m) \<Longrightarrow>
   \<exists>q. gather_2 m p tx ty = Inr q \<and> length q = 16 \<and> match_2 q 0 m p 4 4 tx ty \<and>
    set q \<subseteq> insert 0 ((!) m ` cells_2 p 4 4 tx ty)"
  using get_rows_ok [of p tx ty m 0 "replicate 16 0"] by (auto simp: gather_2_def)

lemma gather_partial_1_ok:
  assumes "1 \<le> kx" "kx \<le> 4" and "fits_1 p kx tx (length m)"
  shows "\<exists>q. gather_partial_1 m p kx tx = Inr q \<and> length q = 4 \<and> match_1 q 0 m p kx tx \<and>
    set q \<subseteq> insert 0 ((!) m ` cells_1 p kx tx)"
proof -
  obtain q where q: "get_row m kx tx 0 (replicate 4 0, p) = Inr (q, p + int kx * tx)" "length q = 4"
    "match_1 q 0 m p kx tx" "set q \<subseteq> insert 0 ((!) m ` cells_1 p kx tx)"
    using get_row_ok [OF assms(3), of 0 "replicate 4 0"] assms(2) by auto
  obtain q' where q': "pad_block q 0 kx 1 = Inr q'" "length q' = length q"
    "\<And>i. i \<notin> (\<lambda>j. 0 + j * 1) ` {kx..<4} \<Longrightarrow> q' ! i = q ! i"
    using pad_block_ok [OF assms(1,2), of 0 1 q] q(2) by auto
  have "match_1 q' 0 m p kx tx"
    using q(3) q'(3) by (simp add: match_1_def)
  moreover have "set q' \<subseteq> insert 0 ((!) m ` cells_1 p kx tx)"
    using pad_block_set [OF q'(1) assms(1)] q(4) by (rule order_trans)
  ultimately show ?thesis using q q' by (simp add: gather_partial_1_def)
qed

lemma gather_partial_2_ok:
  "1 \<le> kx \<Longrightarrow> kx \<le> 4 \<Longrightarrow> 1 \<le> ky \<Longrightarrow> ky \<le> 4 \<Longrightarrow> fits_2 p kx ky tx ty (length m) \<Longrightarrow>
   \<exists>q. gather_partial_2 m p kx ky tx ty = Inr q \<and> length q = 16 \<and> match_2 q 0 m p kx ky tx ty \<and>
    set q \<subseteq> insert 0 ((!) m ` cells_2 p kx ky tx ty)"
  using get_partial_rows_ok [of kx ky p tx ty m 0 "replicate 16 0"] by (auto simp: gather_partial_2_def)

text \<open>
  Parts of \<open>c\<close> elements each, got one after the other: \<open>M q b p\<close> says that \<open>q\<close> holds at \<open>b\<close> the part at \<open>p\<close>.
\<close>

lemma parts_ok:
  assumes "n \<le> 4" "b + 4 * c \<le> length q" and "\<And>z. z < n \<Longrightarrow> F (p + int z * t)"
    and f: "\<And>q z r. z < n \<Longrightarrow> b + c * z + c \<le> length q \<Longrightarrow> F r \<Longrightarrow>
      \<exists>q'. f (b + c * z) (q, r) = Inr (q', r + u) \<and> length q' = length q \<and> M q' (b + c * z) r \<and>
        (\<forall>i. i < b + c * z \<or> b + c * z + c \<le> i \<longrightarrow> q' ! i = q ! i) \<and> set q' \<subseteq> set q \<union> (!) m ` C r"
    and frame: "\<And>q q' a r. M q a r \<Longrightarrow> (\<And>i. a \<le> i \<Longrightarrow> i < a + c \<Longrightarrow> q' ! i = q ! i) \<Longrightarrow> M q' a r"
  shows "\<exists>q'. loop n (\<lambda>z s. bind_res (f (b + c * z) s) (\<lambda>(q, p). Inr (q, p + (t - u)))) 0 (q, p) =
      Inr (q', p + int n * t) \<and> length q' = length q \<and> (\<forall>z<n. M q' (b + c * z) (p + int z * t)) \<and>
      (\<forall>i. i < b \<or> b + 4 * c \<le> i \<longrightarrow> q' ! i = q ! i) \<and> set q' \<subseteq> set q \<union> (!) m ` (\<Union>z<n. C (p + int z * t))"
proof -
  let ?I = "\<lambda>n s. snd s = p + int n * t \<and> length (fst s) = length q \<and>
    (\<forall>z<n. M (fst s) (b + c * z) (p + int z * t)) \<and> (\<forall>i. i < b \<or> b + 4 * c \<le> i \<longrightarrow> fst s ! i = q ! i) \<and>
    set (fst s) \<subseteq> set q \<union> (!) m ` (\<Union>z<n. C (p + int z * t))"
  have "\<exists>s'. loop n (\<lambda>z s. bind_res (f (b + c * z) s) (\<lambda>(q, p). Inr (q, p + (t - u)))) 0 (q, p) = Inr s' \<and> ?I n s'"
  proof (rule loop0_ok [where I = ?I], goal_cases)
    case (1 z s)
    obtain q1 where s: "s = (q1, p + int z * t)" using 1(2) by (cases s) simp
    have "c * z + c \<le> 4 * c"
      using mult_le_mono2 [of "z + 1" 4 c] 1(1) assms(1) by (simp add: algebra_simps)
    then have le: "b + c * z + c \<le> b + 4 * c" by simp
    also note assms(2)
    also have "length q = length q1" using 1(2) s by simp
    finally have "b + c * z + c \<le> length q1" .
    from f [OF 1(1) this assms(3) [OF 1(1)]] obtain q2 where
      q2: "f (b + c * z) (q1, p + int z * t) = Inr (q2, p + int z * t + u)" "length q2 = length q1"
      "M q2 (b + c * z) (p + int z * t)" "\<forall>i. i < b + c * z \<or> b + c * z + c \<le> i \<longrightarrow> q2 ! i = q1 ! i"
      "set q2 \<subseteq> set q1 \<union> (!) m ` C (p + int z * t)" by blast
    have "M q2 (b + c * z') (p + int z' * t)" if "z' < z" for z'
    proof (rule frame)
      show "M q1 (b + c * z') (p + int z' * t)" using 1(2) s that by simp
      fix i
      assume "i < b + c * z' + c"
      also have "c * z' + c \<le> c * z" using mult_le_mono2 [of "z' + 1" z c] that by simp
      then have "b + c * z' + c \<le> b + c * z" by simp
      finally show "q2 ! i = q1 ! i" using q2(4) by simp
    qed
    with q2(3) have "\<forall>z'<Suc z. M q2 (b + c * z') (p + int z' * t)" by (auto simp: less_Suc_eq)
    moreover have "q2 ! i = q ! i" if "i < b \<or> b + 4 * c \<le> i" for i
    proof -
      have "i < b + c * z \<or> b + c * z + c \<le> i" using that le by linarith
      then have "q2 ! i = q1 ! i" using q2(4) by blast
      also have "q1 ! i = q ! i" using 1(2) s that by auto
      finally show ?thesis .
    qed
    moreover have "set q2 \<subseteq> set q \<union> (!) m ` (\<Union>z<Suc z. C (p + int z * t))"
      using q2(5) 1(2) s unfolding lessThan_Suc UN_insert image_Un by auto
    ultimately show ?case using 1(2) s q2(1,2) by (simp add: distrib_right)
  qed simp
  then show ?thesis by auto
qed

lemma match_2_block:
  assumes "match_2 q b m p kx ky tx ty" and "kx \<le> 4" "ky \<le> 4"
    and "\<And>i. b \<le> i \<Longrightarrow> i < b + 16 \<Longrightarrow> q' ! i = q ! i"
  shows "match_2 q' b m p kx ky tx ty"
  by (rule match_2_frame [OF assms(1,2)]) (use assms(2-4) in simp)

lemma match_3_block:
  assumes "match_3 q b m p kx ky kz tx ty tz" and "kx \<le> 4" "ky \<le> 4" "kz \<le> 4"
    and "\<And>i. b \<le> i \<Longrightarrow> i < b + 64 \<Longrightarrow> q' ! i = q ! i"
  shows "match_3 q' b m p kx ky kz tx ty tz"
  unfolding match_3_def
proof (intro allI impI)
  fix z
  assume z: "z < kz"
  show "match_2 q' (b + 16 * z) m (p + int z * tz) kx ky tx ty"
    by (rule match_2_block [where q = q]) (use assms z in \<open>simp_all add: match_3_def\<close>)
qed

lemma get_layers_ok:
  assumes "fits_3 p 4 4 4 tx ty tz (length m)" and "b + 64 \<le> length q"
  shows "\<exists>q'. get_layers m tx ty tz b (q, p) = Inr (q', p + 4 * tz) \<and> length q' = length q \<and>
    match_3 q' b m p 4 4 4 tx ty tz \<and> (\<forall>i. i < b \<or> b + 64 \<le> i \<longrightarrow> q' ! i = q ! i) \<and>
    set q' \<subseteq> set q \<union> (!) m ` cells_3 p 4 4 4 tx ty tz"
proof -
  have "\<exists>q'. loop 4 (\<lambda>z s. bind_res (get_rows m tx ty (b + 16 * z) s) (\<lambda>(q, p). Inr (q, p + (tz - 4 * ty)))) 0 (q, p) =
      Inr (q', p + int 4 * tz) \<and> length q' = length q \<and>
      (\<forall>z<4. match_2 q' (b + 16 * z) m (p + int z * tz) 4 4 tx ty) \<and>
      (\<forall>i. i < b \<or> b + 4 * 16 \<le> i \<longrightarrow> q' ! i = q ! i) \<and>
      set q' \<subseteq> set q \<union> (!) m ` (\<Union>z<4. cells_2 (p + int z * tz) 4 4 tx ty)"
  proof (rule parts_ok [where F = "\<lambda>r. fits_2 r 4 4 tx ty (length m)" and M = "\<lambda>q a r. match_2 q a m r 4 4 tx ty"])
    fix q :: "'a list" and z :: nat and r
    assume "b + 16 * z + 16 \<le> length q" "fits_2 r 4 4 tx ty (length m)"
    from get_rows_ok [OF this(2,1)] show "\<exists>q'. get_rows m tx ty (b + 16 * z) (q, r) = Inr (q', r + 4 * ty) \<and>
        length q' = length q \<and> match_2 q' (b + 16 * z) m r 4 4 tx ty \<and>
        (\<forall>i. i < b + 16 * z \<or> b + 16 * z + 16 \<le> i \<longrightarrow> q' ! i = q ! i) \<and>
        set q' \<subseteq> set q \<union> (!) m ` cells_2 r 4 4 tx ty" .
  next
    fix q q' :: "'a list" and a r
    assume "match_2 q a m r 4 4 tx ty" "\<And>i. a \<le> i \<Longrightarrow> i < a + 16 \<Longrightarrow> q' ! i = q ! i"
    then show "match_2 q' a m r 4 4 tx ty" by (rule match_2_block [OF _ order_refl order_refl])
  qed (use assms in \<open>simp_all add: fits_3_def\<close>)
  then show ?thesis
    using steps_full(2) [OF assms(1)] by (simp add: get_layers_def match_3_def cells_3_def advance_steps)
qed

lemma get_partial_layers_ok:
  assumes k: "1 \<le> kx" "kx \<le> 4" "1 \<le> ky" "ky \<le> 4" "1 \<le> kz" "kz \<le> 4"
    and "fits_3 p kx ky kz tx ty tz (length m)" and "b + 64 \<le> length q"
  shows "\<exists>q'. get_partial_layers m kx ky kz tx ty tz b (q, p) = Inr (q', p + int kz * tz) \<and> length q' = length q \<and>
    match_3 q' b m p kx ky kz tx ty tz \<and> (\<forall>i. i < b \<or> b + 64 \<le> i \<longrightarrow> q' ! i = q ! i) \<and>
    set q' \<subseteq> set q \<union> (!) m ` cells_3 p kx ky kz tx ty tz"
proof -
  let ?l = "loop kz (\<lambda>z s. bind_res (get_partial_rows m kx ky tx ty (b + 16 * z) s)
      (\<lambda>(q, p). Inr (q, p + (tz - int ky * ty)))) 0 (q, p)"
  have "\<exists>q'. ?l = Inr (q', p + int kz * tz) \<and> length q' = length q \<and>
      (\<forall>z<kz. match_2 q' (b + 16 * z) m (p + int z * tz) kx ky tx ty) \<and>
      (\<forall>i. i < b \<or> b + 4 * 16 \<le> i \<longrightarrow> q' ! i = q ! i) \<and>
      set q' \<subseteq> set q \<union> (!) m ` (\<Union>z<kz. cells_2 (p + int z * tz) kx ky tx ty)"
  proof (rule parts_ok [where F = "\<lambda>r. fits_2 r kx ky tx ty (length m)" and M = "\<lambda>q a r. match_2 q a m r kx ky tx ty"])
    fix q :: "'a word list" and z :: nat and r
    assume "b + 16 * z + 16 \<le> length q" "fits_2 r kx ky tx ty (length m)"
    from get_partial_rows_ok [OF k(1-4) this(2,1)] show "\<exists>q'. get_partial_rows m kx ky tx ty (b + 16 * z) (q, r) =
        Inr (q', r + int ky * ty) \<and> length q' = length q \<and> match_2 q' (b + 16 * z) m r kx ky tx ty \<and>
        (\<forall>i. i < b + 16 * z \<or> b + 16 * z + 16 \<le> i \<longrightarrow> q' ! i = q ! i) \<and>
        set q' \<subseteq> set q \<union> (!) m ` cells_2 r kx ky tx ty" .
  next
    fix q q' :: "'a word list" and a r
    assume "match_2 q a m r kx ky tx ty" "\<And>i. a \<le> i \<Longrightarrow> i < a + 16 \<Longrightarrow> q' ! i = q ! i"
    then show "match_2 q' a m r kx ky tx ty" by (rule match_2_block [OF _ k(2,4)])
  qed (use assms(6-8) in \<open>simp_all add: fits_3_def\<close>)
  then obtain q1 where q1: "?l = Inr (q1, p + int kz * tz)" "length q1 = length q"
    "match_3 q1 b m p kx ky kz tx ty tz" "\<forall>i. i < b \<or> b + 64 \<le> i \<longrightarrow> q1 ! i = q ! i"
    "set q1 \<subseteq> set q \<union> (!) m ` cells_3 p kx ky kz tx ty tz"
    by (auto simp: match_3_def cells_3_def)
  let ?J = "\<lambda>(x :: nat) q'. length q' = length q \<and> match_3 q' b m p kx ky kz tx ty tz \<and>
    (\<forall>i. i < b \<or> b + 64 \<le> i \<longrightarrow> q' ! i = q ! i) \<and> set q' \<subseteq> set q \<union> (!) m ` cells_3 p kx ky kz tx ty tz"
  have "\<exists>q'. loop 4 (\<lambda>y. loop 4 (\<lambda>x q. pad_block q (b + 4 * y + x) kz 16) 0) 0 q1 = Inr q' \<and> ?J 4 q'"
  proof (rule loop0_ok [where I = ?J], rule loop0_ok [where I = ?J], goal_cases)
    case (1 y q2 x q3)
    then have "b + 4 * y + x + 3 * 16 < length q3" using assms(8) by simp
    from pad_block_ok [OF k(5,6) this] obtain q4 where
      q4: "pad_block q3 (b + 4 * y + x) kz 16 = Inr q4" "length q4 = length q3"
      "\<And>i. i \<notin> (\<lambda>j. b + 4 * y + x + j * 16) ` {kz..<4} \<Longrightarrow> q4 ! i = q3 ! i" by blast
    have "match_2 q4 (b + 16 * z) m (p + int z * tz) kx ky tx ty" if z: "z < kz" for z
    proof (rule match_2_frame [where q = q3])
      show "match_2 q3 (b + 16 * z) m (p + int z * tz) kx ky tx ty" using 1(4) z by (simp add: match_3_def)
      fix x' y' :: nat
      assume "x' < kx" "y' < ky"
      then show "q4 ! (b + 16 * z + 4 * y' + x') = q3 ! (b + 16 * z + 4 * y' + x')"
        using k(2,4) z by (intro q4(3)) auto
    qed (rule k(2))
    moreover have "q4 ! i = q3 ! i" if "i < b \<or> b + 64 \<le> i" for i
      by (rule q4(3)) (use that 1(1,3) in auto)
    moreover have "set q4 \<subseteq> set q \<union> (!) m ` cells_3 p kx ky kz tx ty tz"
      using pad_block_set [OF q4(1) k(5)] 1(4) by blast
    ultimately show ?case using q4(1,2) 1(4) by (simp add: match_3_def)
  qed (use q1 in simp_all)
  with q1(1) show ?thesis by (auto simp: get_partial_layers_def)
qed

lemma gather_3_ok:
  "fits_3 p 4 4 4 tx ty tz (length m) \<Longrightarrow>
   \<exists>q. gather_3 m p tx ty tz = Inr q \<and> length q = 64 \<and> match_3 q 0 m p 4 4 4 tx ty tz \<and>
    set q \<subseteq> insert 0 ((!) m ` cells_3 p 4 4 4 tx ty tz)"
  using get_layers_ok [of p tx ty tz m 0 "replicate 64 0"] by (auto simp: gather_3_def)

lemma gather_partial_3_ok:
  "1 \<le> kx \<Longrightarrow> kx \<le> 4 \<Longrightarrow> 1 \<le> ky \<Longrightarrow> ky \<le> 4 \<Longrightarrow> 1 \<le> kz \<Longrightarrow> kz \<le> 4 \<Longrightarrow> fits_3 p kx ky kz tx ty tz (length m) \<Longrightarrow>
   \<exists>q. gather_partial_3 m p kx ky kz tx ty tz = Inr q \<and> length q = 64 \<and> match_3 q 0 m p kx ky kz tx ty tz \<and>
    set q \<subseteq> insert 0 ((!) m ` cells_3 p kx ky kz tx ty tz)"
  using get_partial_layers_ok [of kx ky kz p tx ty tz m 0 "replicate 64 0"] by (auto simp: gather_partial_3_def)

lemma gather_4_ok:
  assumes "fits_4 p 4 4 4 4 tx ty tz tw (length m)"
  shows "\<exists>q. gather_4 m p tx ty tz tw = Inr q \<and> length q = 256 \<and> match_4 q m p 4 4 4 4 tx ty tz tw \<and>
    set q \<subseteq> insert 0 ((!) m ` cells_4 p 4 4 4 4 tx ty tz tw)"
proof -
  have "\<exists>q'. loop 4 (\<lambda>w s. bind_res (get_layers m tx ty tz (0 + 64 * w) s) (\<lambda>(q, p). Inr (q, p + (tw - 4 * tz)))) 0
      (replicate 256 0, p) = Inr (q', p + int 4 * tw) \<and> length q' = length (replicate 256 (0 :: 'a word)) \<and>
      (\<forall>w<4. match_3 q' (0 + 64 * w) m (p + int w * tw) 4 4 4 tx ty tz) \<and>
      (\<forall>i. i < 0 \<or> 0 + 4 * 64 \<le> i \<longrightarrow> q' ! i = replicate 256 0 ! i) \<and>
      set q' \<subseteq> set (replicate 256 0) \<union> (!) m ` (\<Union>w<4. cells_3 (p + int w * tw) 4 4 4 tx ty tz)"
  proof (rule parts_ok [where F = "\<lambda>r. fits_3 r 4 4 4 tx ty tz (length m)" and M = "\<lambda>q a r. match_3 q a m r 4 4 4 tx ty tz"])
    fix q :: "'a word list" and w :: nat and r
    assume "0 + 64 * w + 64 \<le> length q" "fits_3 r 4 4 4 tx ty tz (length m)"
    from get_layers_ok [OF this(2,1)] show "\<exists>q'. get_layers m tx ty tz (0 + 64 * w) (q, r) = Inr (q', r + 4 * tz) \<and>
        length q' = length q \<and> match_3 q' (0 + 64 * w) m r 4 4 4 tx ty tz \<and>
        (\<forall>i. i < 0 + 64 * w \<or> 0 + 64 * w + 64 \<le> i \<longrightarrow> q' ! i = q ! i) \<and>
        set q' \<subseteq> set q \<union> (!) m ` cells_3 r 4 4 4 tx ty tz" .
  next
    fix q q' :: "'a word list" and a r
    assume "match_3 q a m r 4 4 4 tx ty tz" "\<And>i. a \<le> i \<Longrightarrow> i < a + 64 \<Longrightarrow> q' ! i = q ! i"
    then show "match_3 q' a m r 4 4 4 tx ty tz" by (rule match_3_block [OF _ order_refl order_refl order_refl])
  qed (use assms in \<open>simp_all add: fits_4_def\<close>)
  then show ?thesis
    using steps_full(3) [OF assms] by (auto simp: gather_4_def match_4_def cells_4_def advance_steps)
qed

lemma gather_partial_4_ok:
  fixes m :: "'a::len word list"
  assumes k: "1 \<le> kx" "kx \<le> 4" "1 \<le> ky" "ky \<le> 4" "1 \<le> kz" "kz \<le> 4" "1 \<le> kw" "kw \<le> 4"
    and "fits_4 p kx ky kz kw tx ty tz tw (length m)"
  shows "\<exists>q. gather_partial_4 m p kx ky kz kw tx ty tz tw = Inr q \<and> length q = 256 \<and>
    match_4 q m p kx ky kz kw tx ty tz tw \<and> set q \<subseteq> insert 0 ((!) m ` cells_4 p kx ky kz kw tx ty tz tw)"
proof -
  let ?l = "loop kw (\<lambda>w s. bind_res (get_partial_layers m kx ky kz tx ty tz (0 + 64 * w) s)
      (\<lambda>(q, p). Inr (q, p + (tw - int kz * tz)))) 0 (replicate 256 0, p)"
  have "\<exists>q'. ?l = Inr (q', p + int kw * tw) \<and> length q' = length (replicate 256 (0 :: 'a word)) \<and>
      (\<forall>w<kw. match_3 q' (0 + 64 * w) m (p + int w * tw) kx ky kz tx ty tz) \<and>
      (\<forall>i. i < 0 \<or> 0 + 4 * 64 \<le> i \<longrightarrow> q' ! i = replicate 256 0 ! i) \<and>
      set q' \<subseteq> set (replicate 256 0) \<union> (!) m ` (\<Union>w<kw. cells_3 (p + int w * tw) kx ky kz tx ty tz)"
  proof (rule parts_ok [where F = "\<lambda>r. fits_3 r kx ky kz tx ty tz (length m)" and M = "\<lambda>q a r. match_3 q a m r kx ky kz tx ty tz"])
    fix q :: "'a word list" and w :: nat and r
    assume "0 + 64 * w + 64 \<le> length q" "fits_3 r kx ky kz tx ty tz (length m)"
    from get_partial_layers_ok [OF k(1-6) this(2,1)] show "\<exists>q'. get_partial_layers m kx ky kz tx ty tz (0 + 64 * w) (q, r) =
        Inr (q', r + int kz * tz) \<and> length q' = length q \<and> match_3 q' (0 + 64 * w) m r kx ky kz tx ty tz \<and>
        (\<forall>i. i < 0 + 64 * w \<or> 0 + 64 * w + 64 \<le> i \<longrightarrow> q' ! i = q ! i) \<and>
        set q' \<subseteq> set q \<union> (!) m ` cells_3 r kx ky kz tx ty tz" .
  next
    fix q q' :: "'a word list" and a r
    assume "match_3 q a m r kx ky kz tx ty tz" "\<And>i. a \<le> i \<Longrightarrow> i < a + 64 \<Longrightarrow> q' ! i = q ! i"
    then show "match_3 q' a m r kx ky kz tx ty tz" by (rule match_3_block [OF _ k(2,4,6)])
  qed (use k(8) assms(9) in \<open>simp_all add: fits_4_def\<close>)
  then obtain q1 where q1: "?l = Inr (q1, p + int kw * tw)" "length q1 = 256" "match_4 q1 m p kx ky kz kw tx ty tz tw"
    "set q1 \<subseteq> insert 0 ((!) m ` cells_4 p kx ky kz kw tx ty tz tw)"
    by (auto simp: match_4_def cells_4_def)
  let ?J = "\<lambda>(x :: nat) q'. length q' = 256 \<and> match_4 q' m p kx ky kz kw tx ty tz tw \<and>
    set q' \<subseteq> insert 0 ((!) m ` cells_4 p kx ky kz kw tx ty tz tw)"
  have "\<exists>q'. loop 4 (\<lambda>z. loop 4 (\<lambda>y. loop 4 (\<lambda>x q. pad_block q (16 * z + 4 * y + x) kw 64) 0) 0) 0 q1 = Inr q' \<and> ?J 4 q'"
  proof (rule loop0_ok [where I = ?J], rule loop0_ok [where I = ?J], rule loop0_ok [where I = ?J], goal_cases)
    case (1 z q2 y q3 x q4)
    then have "16 * z + 4 * y + x + 3 * 64 < length q4" by simp
    from pad_block_ok [OF k(7,8) this] obtain q5 where
      q5: "pad_block q4 (16 * z + 4 * y + x) kw 64 = Inr q5" "length q5 = length q4"
      "\<And>i. i \<notin> (\<lambda>j. 16 * z + 4 * y + x + j * 64) ` {kw..<4} \<Longrightarrow> q5 ! i = q4 ! i" by blast
    have "match_3 q5 (64 * w) m (p + int w * tw) kx ky kz tx ty tz" if w: "w < kw" for w
    proof (rule match_3_block [where q = q4])
      show "match_3 q4 (64 * w) m (p + int w * tw) kx ky kz tx ty tz" using 1(6) w by (simp add: match_4_def)
      fix i
      assume "i < 64 * w + 64"
      then show "q5 ! i = q4 ! i" using w by (intro q5(3)) auto
    qed (rule k)+
    moreover have "set q5 \<subseteq> insert 0 ((!) m ` cells_4 p kx ky kz kw tx ty tz tw)"
      using pad_block_set [OF q5(1) k(7)] 1(6) by blast
    ultimately show ?case using q5 1(6) by (simp add: match_4_def)
  qed (use q1 in simp_all)
  with q1(1) show ?thesis by (auto simp: gather_partial_4_def)
qed

section \<open>Scattering\<close>

lemma put_row_ok:
  assumes "fits_1 p k t (length m)" and "match_1 q b src p k t" and "b + k \<le> length q"
  shows "put_row q k t b (m, p) = Inr (blend src (cells_1 p k t) m, p + int k * t)"
proof -
  let ?I = "\<lambda>x s. s = (blend src (cells_1 p x t) m, p + int x * t)"
  have "\<exists>s'. put_row q k t b (m, p) = Inr s' \<and> ?I k s'"
    unfolding put_row_def
  proof (rule loop0_ok [where I = ?I], goal_cases)
    case (1 x s)
    have f: "0 \<le> p + int x * t" "p + int x * t < int (length m)" using assms(1) 1(1) by (auto simp: fits_1_def)
    then have l: "nat (p + int x * t) < length (blend src (cells_1 p x t) m)" by simp
    have "q ! (b + x) = src ! nat (p + int x * t)" using assms(2) 1(1) by (simp add: match_1_def)
    with 1 f assms(3) blend_insert [OF l, of src] show ?case
      by (simp add: store_def cells_Suc distrib_right)
  qed (simp add: cells_Suc)
  then show ?thesis by simp
qed

lemma put_partial_rows_ok:
  assumes "fits_2 p kx ky tx ty (length m)" and "match_2 q b src p kx ky tx ty"
    and "kx \<le> 4" "ky \<le> 4" "b + 16 \<le> length q"
  shows "put_partial_rows q kx ky tx ty b (m, p) = Inr (blend src (cells_2 p kx ky tx ty) m, p + int ky * ty)"
proof -
  let ?I = "\<lambda>y s. s = (blend src (cells_2 p kx y tx ty) m, p + int y * ty)"
  have "\<exists>s'. put_partial_rows q kx ky tx ty b (m, p) = Inr s' \<and> ?I ky s'"
    unfolding put_partial_rows_def
  proof (rule loop0_ok [where I = ?I], goal_cases)
    case (1 y s)
    have "put_row q kx tx (b + 4 * y) (blend src (cells_2 p kx y tx ty) m, p + int y * ty) =
        Inr (blend src (cells_1 (p + int y * ty) kx tx) (blend src (cells_2 p kx y tx ty) m),
          p + int y * ty + int kx * tx)"
      by (rule put_row_ok) (use assms 1(1) in \<open>simp_all add: fits_2_def match_2_def\<close>)
    with 1(2) show ?case by (simp add: cells_Suc distrib_right)
  qed (simp add: cells_Suc)
  then show ?thesis by simp
qed

text \<open>Parts that are put one after the other.\<close>

lemma put_parts_ok:
  assumes f: "\<And>z m. z < n \<Longrightarrow> length m = l \<Longrightarrow>
      f (b + c * z) (m, p + int z * t) = Inr (blend src (C (p + int z * t)) m, p + int z * t + u)"
    and "length m = l"
  shows "loop n (\<lambda>z s. bind_res (f (b + c * z) s) (\<lambda>(m, p). Inr (m, p + (t - u)))) 0 (m, p) =
    Inr (blend src (\<Union>z<n. C (p + int z * t)) m, p + int n * t)"
proof -
  let ?I = "\<lambda>n s. s = (blend src (\<Union>z<n. C (p + int z * t)) m, p + int n * t)"
  have "\<exists>s'. loop n (\<lambda>z s. bind_res (f (b + c * z) s) (\<lambda>(m, p). Inr (m, p + (t - u)))) 0 (m, p) = Inr s' \<and> ?I n s'"
  proof (rule loop0_ok [where I = ?I], goal_cases)
    case (1 z s)
    with f [of z "blend src (\<Union>z<z. C (p + int z * t)) m"] assms(2) show ?case
      by (simp add: lessThan_Suc distrib_right Un_commute)
  qed simp
  then show ?thesis by simp
qed

lemma put_partial_layers_ok:
  assumes "fits_3 p kx ky kz tx ty tz (length m)" and "match_3 q b src p kx ky kz tx ty tz"
    and "kx \<le> 4" "ky \<le> 4" "kz \<le> 4" "b + 64 \<le> length q"
  shows "put_partial_layers q kx ky kz tx ty tz b (m, p) = Inr (blend src (cells_3 p kx ky kz tx ty tz) m, p + int kz * tz)"
  unfolding put_partial_layers_def cells_3_def
proof (rule put_parts_ok [where C = "\<lambda>r. cells_2 r kx ky tx ty" and l = "length m"])
  fix z and n :: "'a list"
  assume "z < kz" "length n = length m"
  then show "put_partial_rows q kx ky tx ty (b + 16 * z) (n, p + int z * tz) =
      Inr (blend src (cells_2 (p + int z * tz) kx ky tx ty) n, p + int z * tz + int ky * ty)"
    by (intro put_partial_rows_ok) (use assms in \<open>simp_all add: fits_3_def match_3_def\<close>)
qed simp

lemma put_slabs_ok:
  assumes "fits_4 p kx ky kz kw tx ty tz tw (length m)" and "match_4 q src p kx ky kz kw tx ty tz tw"
    and "kx \<le> 4" "ky \<le> 4" "kz \<le> 4" "kw \<le> 4" "length q = 256"
  shows "loop kw (\<lambda>w s. bind_res (put_partial_layers q kx ky kz tx ty tz (0 + 64 * w) s) (\<lambda>(m, p). Inr (m, p + (tw - int kz * tz)))) 0
      (m, p) = Inr (blend src (cells_4 p kx ky kz kw tx ty tz tw) m, p + int kw * tw)"
  unfolding cells_4_def
proof (rule put_parts_ok [where C = "\<lambda>r. cells_3 r kx ky kz tx ty tz" and l = "length m"])
  fix w and n :: "'a list"
  assume "w < kw" "length n = length m"
  then show "put_partial_layers q kx ky kz tx ty tz (0 + 64 * w) (n, p + int w * tw) =
      Inr (blend src (cells_3 (p + int w * tw) kx ky kz tx ty tz) n, p + int w * tw + int kz * tz)"
    by (intro put_partial_layers_ok) (use assms in \<open>simp_all add: fits_4_def match_4_def\<close>)
qed simp

text \<open>Full blocks are put as partial ones are.\<close>

lemma put_rows_eq: "int_steps ty tx \<Longrightarrow> put_rows q tx ty b = put_partial_rows q 4 4 tx ty b"
  by (simp add: put_rows_def put_partial_rows_def advance_steps)

lemma put_layers_eq: "int_steps tz ty \<and> int_steps ty tx \<Longrightarrow> put_layers q tx ty tz b = put_partial_layers q 4 4 4 tx ty tz b"
  by (simp add: put_layers_def put_partial_layers_def advance_steps put_rows_eq)

lemma scatter_eq:
  "int_steps ty tx \<Longrightarrow> scatter_2 q m p tx ty = scatter_partial_2 q m p 4 4 tx ty"
  "int_steps tz ty \<and> int_steps ty tx \<Longrightarrow> scatter_3 q m p tx ty tz = scatter_partial_3 q m p 4 4 4 tx ty tz"
  "int_steps tw tz \<and> int_steps tz ty \<and> int_steps ty tx \<Longrightarrow> scatter_4 q m p tx ty tz tw = scatter_partial_4 q m p 4 4 4 4 tx ty tz tw"
  by (simp_all add: scatter_2_def scatter_partial_2_def scatter_3_def scatter_partial_3_def scatter_4_def
      scatter_partial_4_def put_rows_eq put_layers_eq advance_steps)

lemma scatter_partial_ok:
  "kx \<le> 4 \<Longrightarrow> fits_1 p kx tx (length m) \<Longrightarrow> match_1 q 0 src p kx tx \<Longrightarrow> length q = 4 \<Longrightarrow>
   scatter_partial_1 q m p kx tx = Inr (blend src (cells_1 p kx tx) m)"
  "kx \<le> 4 \<Longrightarrow> ky \<le> 4 \<Longrightarrow> fits_2 p kx ky tx ty (length m) \<Longrightarrow> match_2 q 0 src p kx ky tx ty \<Longrightarrow> length q = 16 \<Longrightarrow>
   scatter_partial_2 q m p kx ky tx ty = Inr (blend src (cells_2 p kx ky tx ty) m)"
  "kx \<le> 4 \<Longrightarrow> ky \<le> 4 \<Longrightarrow> kz \<le> 4 \<Longrightarrow> fits_3 p kx ky kz tx ty tz (length m) \<Longrightarrow>
   match_3 q 0 src p kx ky kz tx ty tz \<Longrightarrow> length q = 64 \<Longrightarrow>
   scatter_partial_3 q m p kx ky kz tx ty tz = Inr (blend src (cells_3 p kx ky kz tx ty tz) m)"
  "kx \<le> 4 \<Longrightarrow> ky \<le> 4 \<Longrightarrow> kz \<le> 4 \<Longrightarrow> kw \<le> 4 \<Longrightarrow> fits_4 p kx ky kz kw tx ty tz tw (length m) \<Longrightarrow>
   match_4 q src p kx ky kz kw tx ty tz tw \<Longrightarrow> length q = 256 \<Longrightarrow>
   scatter_partial_4 q m p kx ky kz kw tx ty tz tw = Inr (blend src (cells_4 p kx ky kz kw tx ty tz tw) m)"
  using put_row_ok [of p kx tx m q 0 src] put_partial_rows_ok [of p kx ky tx ty m q 0 src]
    put_partial_layers_ok [of p kx ky kz tx ty tz m q 0 src] put_slabs_ok [of p kx ky kz kw tx ty tz tw m q src]
  by (simp_all add: scatter_partial_1_def scatter_partial_2_def scatter_partial_3_def scatter_partial_4_def)

lemma scatter_ok:
  "fits_1 p 4 tx (length m) \<Longrightarrow> match_1 q 0 src p 4 tx \<Longrightarrow> length q = 4 \<Longrightarrow>
   scatter_1 q m p tx = Inr (blend src (cells_1 p 4 tx) m)"
  "fits_2 p 4 4 tx ty (length m) \<Longrightarrow> match_2 q 0 src p 4 4 tx ty \<Longrightarrow> length q = 16 \<Longrightarrow>
   scatter_2 q m p tx ty = Inr (blend src (cells_2 p 4 4 tx ty) m)"
  "fits_3 p 4 4 4 tx ty tz (length m) \<Longrightarrow> match_3 q 0 src p 4 4 4 tx ty tz \<Longrightarrow> length q = 64 \<Longrightarrow>
   scatter_3 q m p tx ty tz = Inr (blend src (cells_3 p 4 4 4 tx ty tz) m)"
  "fits_4 p 4 4 4 4 tx ty tz tw (length m) \<Longrightarrow> match_4 q src p 4 4 4 4 tx ty tz tw \<Longrightarrow> length q = 256 \<Longrightarrow>
   scatter_4 q m p tx ty tz tw = Inr (blend src (cells_4 p 4 4 4 4 tx ty tz tw) m)"
  using put_row_ok [of p 4 tx m q 0 src] scatter_partial_ok(2) [of 4 4 p tx ty m q src]
    scatter_partial_ok(3) [of 4 4 4 p tx ty tz m q src] scatter_partial_ok(4) [of 4 4 4 4 p tx ty tz tw m q src]
    steps_full(1) [of p tx ty] steps_full(2) [of p tx ty tz] steps_full(3) [of p tx ty tz tw]
  by (simp_all add: scatter_1_def scatter_eq)

text \<open>When an increment overflows.\<close>

lemma put_row_returns:
  assumes "fits_1 p k t (length m)" and "b + k \<le> length q"
  shows "\<exists>s. put_row q k t b (m, p) = Inr s"
proof -
  let ?I = "\<lambda>x s. length (fst s) = length m \<and> snd s = p + int x * t"
  have "\<exists>s. put_row q k t b (m, p) = Inr s \<and> ?I k s"
    unfolding put_row_def
  proof (rule loop0_ok [where I = ?I], goal_cases)
    case (1 x s)
    have "0 \<le> p + int x * t" "p + int x * t < int (length m)" using assms(1) 1(1) by (auto simp: fits_1_def)
    with 1 assms(2) show ?case by (cases s) (simp add: store_def distrib_right)
  qed simp
  then show ?thesis by blast
qed

lemma blend_self [simp]: "blend m A m = m"
  by (rule nth_equalityI) simp_all

lemma loop_fails: "f i s = Inl e \<Longrightarrow> 0 < k \<Longrightarrow> loop k f i s = Inl e"
  by (cases k) simp_all

end
