(* ===== verification/Zfp_Coder.thy ===== *)
theory Zfp_Coder
  imports Zfp_Codec
begin

text \<open>
  The interface between the coders of a block and the code that runs them over an array.  The
  templates name the coders by the type \<^verbatim>\<open>Scalar\<close> of the elements; \<^verbatim>\<open>encode1.c\<close> to \<^verbatim>\<open>encode4.c\<close>, \<^verbatim>\<open>compress.c\<close>
  and their counterparts use them and nothing else of the type.  The locale \<open>block_coder\<close> states what they
  rely on in reversible mode; here it is interpreted for integers, and in \<^verbatim>\<open>Zfp_Float\<close> for
  floating-point numbers.
\<close>

type_synonym 'a encoder = "nat \<Rightarrow> zfp_stream \<Rightarrow> 'a word list \<Rightarrow> err + int \<times> zfp_stream"
type_synonym 'a decoder = "nat \<Rightarrow> zfp_stream \<Rightarrow> 'a word list \<Rightarrow> err + int \<times> 'a word list \<times> zfp_stream"

definition rev_mode :: "zfp_stream \<Rightarrow> bool" where
  "rev_mode z \<longleftrightarrow> zfp_stream_set_reversible z = z"

lemma rev_mode_bits [simp]: "rev_mode (z\<lparr>zs_bits := s\<rparr>) \<longleftrightarrow> rev_mode z"
  by (cases z) (simp add: rev_mode_def zfp_stream_set_reversible_def)

lemma rev_mode_set [simp]: "rev_mode (zfp_stream_set_reversible z)"
  by (cases z) (simp add: rev_mode_def zfp_stream_set_reversible_def)

text \<open>
  The bits \<open>c\<close> carry the block \<open>b\<close>: encoding appends them, and decoding reads them, and nothing else, wherever
  they stand in a stream.
\<close>

definition carries :: "(zfp_stream \<Rightarrow> 'a list \<Rightarrow> err + int \<times> zfp_stream) \<Rightarrow>
    (zfp_stream \<Rightarrow> 'a list \<Rightarrow> err + int \<times> 'a list \<times> zfp_stream) \<Rightarrow> 'a list \<Rightarrow> bool list \<Rightarrow> bool" where
  "carries enc dec b c \<longleftrightarrow>
     (\<forall>z. rev_mode z \<and> bs_ok (zs_bits z) \<and> length c \<le> room (zs_bits z) \<longrightarrow>
        (\<exists>n s. enc z b = Inr (n, z\<lparr>zs_bits := s\<rparr>) \<and> bs_ok s \<and>
          written s = written (zs_bits z) @ c \<and> room s + length c = room (zs_bits z))) \<and>
     (\<forall>z b' rest. rev_mode z \<and> reading (zs_bits z) \<and> length b' = length b \<and> unread (zs_bits z) = c @ rest \<longrightarrow>
        (\<exists>n s. dec z b' = Inr (n, b, z\<lparr>zs_bits := s\<rparr>) \<and> reading s \<and>
          unread s = rest \<and> bs_mem s = bs_mem (zs_bits z)))"

lemma carriesI:
  assumes "\<And>z. rev_mode z \<Longrightarrow> bs_ok (zs_bits z) \<Longrightarrow> length c \<le> room (zs_bits z) \<Longrightarrow>
      \<exists>n s. enc z b = Inr (n, z\<lparr>zs_bits := s\<rparr>) \<and> bs_ok s \<and>
        written s = written (zs_bits z) @ c \<and> room s + length c = room (zs_bits z)"
    and "\<And>z b' rest. rev_mode z \<Longrightarrow> reading (zs_bits z) \<Longrightarrow> length b' = length b \<Longrightarrow> unread (zs_bits z) = c @ rest \<Longrightarrow>
      \<exists>n s. dec z b' = Inr (n, b, z\<lparr>zs_bits := s\<rparr>) \<and> reading s \<and> unread s = rest \<and> bs_mem s = bs_mem (zs_bits z)"
  shows "carries enc dec b c"
  using assms unfolding carries_def by blast

text \<open>
  The coders depend on the elements of a block alone; every block of good elements in \<open>d\<close> dimensions is carried by at most
  \<open>cap d\<close> bits.
\<close>

locale block_coder =
  fixes enc :: "'a::len encoder" and dec :: "'a decoder" and good :: "'a word \<Rightarrow> bool" and dims :: "nat set"
    and cap :: "nat \<Rightarrow> nat"
  assumes dims: "dims \<subseteq> {1, 2, 3, 4}"
    and cap_max: "d \<in> dims \<Longrightarrow> cap d \<le> 16657"
    and good_zero: "good 0"
    and enc_block: "d \<in> dims \<Longrightarrow> BLOCK_SIZE d \<le> length b \<Longrightarrow> enc d z b = enc d z (take (BLOCK_SIZE d) b)"
    and carried: "d \<in> dims \<Longrightarrow> length b = BLOCK_SIZE d \<Longrightarrow> \<forall>x \<in> set b. good x \<Longrightarrow>
      \<exists>c. length c \<le> cap d \<and> carries (enc d) (dec d) b c"

text \<open>The code of a block of integers, between the bits of the precision and the filler.\<close>

definition int_cap :: "'a::len itself \<Rightarrow> nat \<Rightarrow> nat \<Rightarrow> nat" where
  "int_cap t pbits d = pbits + (LENGTH('a) + 1) * BLOCK_SIZE d"

lemma int_coder:
  assumes tr: "LENGTH('a::len) = 2 ^ pbits" "pbits \<le> 6"
  shows "block_coder (\<lambda>d. zfp_encode_block d (nb :: 'a word) pbits) (\<lambda>d. zfp_decode_block d nb pbits) (\<lambda>_. True)
    {1, 2, 3, 4} (int_cap TYPE('a) pbits)"
proof
  fix d :: nat
  assume "d \<in> {1, 2, 3, 4}"
  from reversible_limits(5,6) [OF this tr refl, of undefined] show "int_cap TYPE('a) pbits d \<le> 16657"
    unfolding int_cap_def by linarith
next
  fix d and z and b :: "'a word list"
  assume "BLOCK_SIZE d \<le> length b"
  then show "zfp_encode_block d nb pbits z b = zfp_encode_block d nb pbits z (take (BLOCK_SIZE d) b)"
    by (simp add: zfp_encode_block_def)
next
  fix d :: nat and b :: "'a word list"
  assume d: "d \<in> {1, 2, 3, 4}" "length b = BLOCK_SIZE d"
  obtain c where c: "length c \<le> pbits + (LENGTH('a) + 1) * BLOCK_SIZE d"
    "\<And>s lo hi mp. bs_ok s \<Longrightarrow> int LENGTH('a) \<le> mp \<Longrightarrow> lo \<le> 1 \<Longrightarrow> hi < 2 ^ 31 \<Longrightarrow>
        int ((LENGTH('a) + 1) * BLOCK_SIZE d) \<le> hi - int pbits \<Longrightarrow> length c \<le> room s \<Longrightarrow>
        \<exists>s'. rev_encode_block d nb pbits s lo hi mp b = Inr (int (length c), s') \<and> bs_ok s' \<and>
          written s' = written s @ c \<and> room s' + length c = room s"
    "\<And>s lo hi b' rest. reading s \<Longrightarrow> length b' = BLOCK_SIZE d \<Longrightarrow> lo \<le> 1 \<Longrightarrow> hi < 2 ^ 31 \<Longrightarrow>
        int ((LENGTH('a) + 1) * BLOCK_SIZE d) \<le> hi - int pbits \<Longrightarrow> unread s = c @ rest \<Longrightarrow>
        \<exists>s'. rev_decode_block d nb pbits s lo hi b' = Inr (int (length c), b, s') \<and> reading s' \<and>
          unread s' = rest \<and> bs_mem s' = bs_mem s"
    using int_code_ex [OF d tr, of nb] unfolding int_code_def by blast
  have r: "z = zfp_stream_set_reversible z" if "rev_mode z" for z using that by (simp add: rev_mode_def)
  have lo: "sint (minbits z) \<le> 1" if "rev_mode z" for z
    by (subst r [OF that]) (simp add: zfp_stream_set_reversible_def)
  have "carries (zfp_encode_block d nb pbits) (zfp_decode_block d nb pbits) b c"
  proof (rule carriesI)
    fix z
    assume z: "rev_mode z"
    note l = reversible_limits [OF d(1) tr r [OF z]]
    show "\<exists>n s. zfp_encode_block d nb pbits z b = Inr (n, z\<lparr>zs_bits := s\<rparr>) \<and> bs_ok s \<and>
        written s = written (zs_bits z) @ c \<and> room s + length c = room (zs_bits z)"
      if e: "bs_ok (zs_bits z)" "length c \<le> room (zs_bits z)"
      using c(2) [OF e(1) l(2) lo [OF z] l(4,5) e(2)] unfolding zfp_block_reversible(1) [OF l(1) d(2)] by auto
    show "\<exists>n s. zfp_decode_block d nb pbits z b' = Inr (n, b, z\<lparr>zs_bits := s\<rparr>) \<and> reading s \<and> unread s = rest \<and>
        bs_mem s = bs_mem (zs_bits z)"
      if e: "reading (zs_bits z)" "length b' = length b" "unread (zs_bits z) = c @ rest" for b' rest
      using c(3) [OF e(1) e(2) [unfolded d(2)] lo [OF z] l(4,5) e(3)] unfolding zfp_block_reversible(2) [OF l(1)] by auto
  qed
  moreover have "length c \<le> int_cap TYPE('a) pbits d" using c(1) by (simp add: int_cap_def)
  ultimately show "\<exists>c. length c \<le> int_cap TYPE('a) pbits d \<and>
      carries (zfp_encode_block d nb pbits) (zfp_decode_block d nb pbits) b c" by blast
qed simp_all

interpretation int32: block_coder "\<lambda>d. zfp_encode_block d (0xAAAAAAAA :: u32) 5" "\<lambda>d. zfp_decode_block d 0xAAAAAAAA 5"
    "\<lambda>_. True" "{1, 2, 3, 4}" "int_cap TYPE(32) 5"
  by (rule int_coder) simp_all

interpretation int64: block_coder "\<lambda>d. zfp_encode_block d (0xAAAAAAAAAAAAAAAA :: u64) 6"
    "\<lambda>d. zfp_decode_block d 0xAAAAAAAAAAAAAAAA 6" "\<lambda>_. True" "{1, 2, 3, 4}" "int_cap TYPE(64) 6"
  by (rule int_coder) simp_all

end
