(* ===== verification/Zfp_Compress.thy ===== *)
theory Zfp_Compress
  imports Zfp_Array Zfp_Coder
begin

text \<open>
  Compression and decompression of arrays, block by block: the strided coders of a block
  (\<^verbatim>\<open>encode1.c\<close> to \<^verbatim>\<open>encode4.c\<close>, \<^verbatim>\<open>decode1.c\<close> to \<^verbatim>\<open>decode4.c\<close>), the loops of \<^verbatim>\<open>compress.c\<close> and
  \<^verbatim>\<open>decompress.c\<close>, and \<^verbatim>\<open>zfp_compress\<close> and \<^verbatim>\<open>zfp_decompress\<close> of \<^verbatim>\<open>src/zfp-0.5.5/src/zfp.c\<close>.  In
  reversible mode nothing is lost.  \<open>enc\<close> and \<open>dec\<close> are the coders of a block for the scalar type, of which the
  proofs use the laws of \<open>block_coder\<close>.
\<close>

section \<open>Blocks of an array\<close>

definition zfp_encode_block_strided_1 ::
  "'a::len encoder \<Rightarrow> zfp_stream \<Rightarrow> 'a word list \<Rightarrow> int \<Rightarrow> int \<Rightarrow> err + int \<times> zfp_stream" where
  "zfp_encode_block_strided_1 enc z m p tx = bind_res (gather_1 m p tx) (enc 1 z)"

definition zfp_encode_partial_block_strided_1 ::
  "'a::len encoder \<Rightarrow> zfp_stream \<Rightarrow> 'a word list \<Rightarrow> int \<Rightarrow> nat \<Rightarrow> int \<Rightarrow> err + int \<times> zfp_stream" where
  "zfp_encode_partial_block_strided_1 enc z m p kx tx =
     bind_res (gather_partial_1 m p kx tx) (enc 1 z)"

definition zfp_encode_block_strided_2 ::
  "'a::len encoder \<Rightarrow> zfp_stream \<Rightarrow> 'a word list \<Rightarrow> int \<Rightarrow> int \<Rightarrow> int \<Rightarrow> err + int \<times> zfp_stream" where
  "zfp_encode_block_strided_2 enc z m p tx ty =
     bind_res (gather_2 m p tx ty) (enc 2 z)"

definition zfp_encode_partial_block_strided_2 ::
  "'a::len encoder \<Rightarrow> zfp_stream \<Rightarrow> 'a word list \<Rightarrow> int \<Rightarrow> nat \<Rightarrow> nat \<Rightarrow> int \<Rightarrow> int \<Rightarrow> err + int \<times> zfp_stream"
where
  "zfp_encode_partial_block_strided_2 enc z m p kx ky tx ty =
     bind_res (gather_partial_2 m p kx ky tx ty) (enc 2 z)"

definition zfp_encode_block_strided_3 ::
  "'a::len encoder \<Rightarrow> zfp_stream \<Rightarrow> 'a word list \<Rightarrow> int \<Rightarrow> int \<Rightarrow> int \<Rightarrow> int \<Rightarrow> err + int \<times> zfp_stream" where
  "zfp_encode_block_strided_3 enc z m p tx ty tz =
     bind_res (gather_3 m p tx ty tz) (enc 3 z)"

definition zfp_encode_partial_block_strided_3 ::
  "'a::len encoder \<Rightarrow> zfp_stream \<Rightarrow> 'a word list \<Rightarrow> int \<Rightarrow> nat \<Rightarrow> nat \<Rightarrow> nat \<Rightarrow> int \<Rightarrow> int \<Rightarrow> int \<Rightarrow>
     err + int \<times> zfp_stream" where
  "zfp_encode_partial_block_strided_3 enc z m p kx ky kz tx ty tz =
     bind_res (gather_partial_3 m p kx ky kz tx ty tz) (enc 3 z)"

definition zfp_encode_block_strided_4 ::
  "'a::len encoder \<Rightarrow> zfp_stream \<Rightarrow> 'a word list \<Rightarrow> int \<Rightarrow> int \<Rightarrow> int \<Rightarrow> int \<Rightarrow> int \<Rightarrow> err + int \<times> zfp_stream" where
  "zfp_encode_block_strided_4 enc z m p tx ty tz tw =
     bind_res (gather_4 m p tx ty tz tw) (enc 4 z)"

definition zfp_encode_partial_block_strided_4 ::
  "'a::len encoder \<Rightarrow> zfp_stream \<Rightarrow> 'a word list \<Rightarrow> int \<Rightarrow> nat \<Rightarrow> nat \<Rightarrow> nat \<Rightarrow> nat \<Rightarrow>
     int \<Rightarrow> int \<Rightarrow> int \<Rightarrow> int \<Rightarrow> err + int \<times> zfp_stream" where
  "zfp_encode_partial_block_strided_4 enc z m p kx ky kz kw tx ty tz tw =
     bind_res (gather_partial_4 m p kx ky kz kw tx ty tz tw) (enc 4 z)"

definition zfp_decode_block_strided_1 ::
  "'a::len decoder \<Rightarrow> zfp_stream \<Rightarrow> 'a word list \<Rightarrow> int \<Rightarrow> int \<Rightarrow> err + int \<times> 'a word list \<times> zfp_stream" where
  "zfp_decode_block_strided_1 dec z m p tx =
     bind_res (dec 1 z (replicate 4 0)) (\<lambda>(bits, q, z).
     bind_res (scatter_1 q m p tx) (\<lambda>m. Inr (bits, m, z)))"

definition zfp_decode_partial_block_strided_1 ::
  "'a::len decoder \<Rightarrow> zfp_stream \<Rightarrow> 'a word list \<Rightarrow> int \<Rightarrow> nat \<Rightarrow> int \<Rightarrow>
     err + int \<times> 'a word list \<times> zfp_stream" where
  "zfp_decode_partial_block_strided_1 dec z m p kx tx =
     bind_res (dec 1 z (replicate 4 0)) (\<lambda>(bits, q, z).
     bind_res (scatter_partial_1 q m p kx tx) (\<lambda>m. Inr (bits, m, z)))"

definition zfp_decode_block_strided_2 ::
  "'a::len decoder \<Rightarrow> zfp_stream \<Rightarrow> 'a word list \<Rightarrow> int \<Rightarrow> int \<Rightarrow> int \<Rightarrow>
     err + int \<times> 'a word list \<times> zfp_stream" where
  "zfp_decode_block_strided_2 dec z m p tx ty =
     bind_res (dec 2 z (replicate 16 0)) (\<lambda>(bits, q, z).
     bind_res (scatter_2 q m p tx ty) (\<lambda>m. Inr (bits, m, z)))"

definition zfp_decode_partial_block_strided_2 ::
  "'a::len decoder \<Rightarrow> zfp_stream \<Rightarrow> 'a word list \<Rightarrow> int \<Rightarrow> nat \<Rightarrow> nat \<Rightarrow> int \<Rightarrow> int \<Rightarrow>
     err + int \<times> 'a word list \<times> zfp_stream" where
  "zfp_decode_partial_block_strided_2 dec z m p kx ky tx ty =
     bind_res (dec 2 z (replicate 16 0)) (\<lambda>(bits, q, z).
     bind_res (scatter_partial_2 q m p kx ky tx ty) (\<lambda>m. Inr (bits, m, z)))"

definition zfp_decode_block_strided_3 ::
  "'a::len decoder \<Rightarrow> zfp_stream \<Rightarrow> 'a word list \<Rightarrow> int \<Rightarrow> int \<Rightarrow> int \<Rightarrow> int \<Rightarrow>
     err + int \<times> 'a word list \<times> zfp_stream" where
  "zfp_decode_block_strided_3 dec z m p tx ty tz =
     bind_res (dec 3 z (replicate 64 0)) (\<lambda>(bits, q, z).
     bind_res (scatter_3 q m p tx ty tz) (\<lambda>m. Inr (bits, m, z)))"

definition zfp_decode_partial_block_strided_3 ::
  "'a::len decoder \<Rightarrow> zfp_stream \<Rightarrow> 'a word list \<Rightarrow> int \<Rightarrow> nat \<Rightarrow> nat \<Rightarrow> nat \<Rightarrow> int \<Rightarrow> int \<Rightarrow> int \<Rightarrow>
     err + int \<times> 'a word list \<times> zfp_stream" where
  "zfp_decode_partial_block_strided_3 dec z m p kx ky kz tx ty tz =
     bind_res (dec 3 z (replicate 64 0)) (\<lambda>(bits, q, z).
     bind_res (scatter_partial_3 q m p kx ky kz tx ty tz) (\<lambda>m. Inr (bits, m, z)))"

definition zfp_decode_block_strided_4 ::
  "'a::len decoder \<Rightarrow> zfp_stream \<Rightarrow> 'a word list \<Rightarrow> int \<Rightarrow> int \<Rightarrow> int \<Rightarrow> int \<Rightarrow> int \<Rightarrow>
     err + int \<times> 'a word list \<times> zfp_stream" where
  "zfp_decode_block_strided_4 dec z m p tx ty tz tw =
     bind_res (dec 4 z (replicate 256 0)) (\<lambda>(bits, q, z).
     bind_res (scatter_4 q m p tx ty tz tw) (\<lambda>m. Inr (bits, m, z)))"

definition zfp_decode_partial_block_strided_4 ::
  "'a::len decoder \<Rightarrow> zfp_stream \<Rightarrow> 'a word list \<Rightarrow> int \<Rightarrow> nat \<Rightarrow> nat \<Rightarrow> nat \<Rightarrow> nat \<Rightarrow>
     int \<Rightarrow> int \<Rightarrow> int \<Rightarrow> int \<Rightarrow> err + int \<times> 'a word list \<times> zfp_stream" where
  "zfp_decode_partial_block_strided_4 dec z m p kx ky kz kw tx ty tz tw =
     bind_res (dec 4 z (replicate 256 0)) (\<lambda>(bits, q, z).
     bind_res (scatter_partial_4 q m p kx ky kz kw tx ty tz tw) (\<lambda>m. Inr (bits, m, z)))"

section \<open>The loops over the blocks\<close>

text \<open>
  \<^verbatim>\<open>for (x = 0; x < nx; x += 4)\<close> with an unsigned 32-bit counter: where the addition wraps around, the
  loop is back at the first block, and never ends.
\<close>

function blocks :: "nat \<Rightarrow> (nat \<Rightarrow> 's \<Rightarrow> err + 's) \<Rightarrow> nat \<Rightarrow> 's \<Rightarrow> err + 's" where
  "blocks n f x s =
     (if x < n then bind_res (f x s) (\<lambda>s. if x + 4 < 2 ^ 32 then blocks n f (x + 4) s else Inl Diverges)
      else Inr s)"
  by pat_completeness auto
termination
  by (relation "measure (\<lambda>(n, _, x, _). n - x)") auto

declare blocks.simps [simp del]

definition stride_of :: "int \<Rightarrow> int \<Rightarrow> int" where
  "stride_of s d = (if s \<noteq> 0 then s else d)"

definition compress_1 ::
  "'a::len encoder \<Rightarrow> zfp_stream \<Rightarrow> zfp_field \<Rightarrow> 'a word list \<Rightarrow> err + zfp_stream" where
  "compress_1 enc z f m =
     (let n = unat (nx f); mx = unat (nx f AND NOT 3) in
      bind_res (blocks mx (\<lambda>x z.
          bind_res (enc 1 z (drop (fd_data f + x) m)) (\<lambda>(_, z). Inr z)) 0 z) (\<lambda>z.
        if mx < n
        then bind_res (zfp_encode_partial_block_strided_1 enc z m (int (fd_data f + mx)) (n - mx) 1)
               (\<lambda>(_, z). Inr z)
        else Inr z))"

definition compress_strided_1 ::
  "'a::len encoder \<Rightarrow> zfp_stream \<Rightarrow> zfp_field \<Rightarrow> 'a word list \<Rightarrow> err + zfp_stream" where
  "compress_strided_1 enc z f m =
     (let n = unat (nx f); tx = stride_of (sx f) 1 in
      blocks n (\<lambda>x z.
        let p = int (fd_data f) + tx * int x in
        bind_res (if n - x < 4 then zfp_encode_partial_block_strided_1 enc z m p (n - x) tx
                  else zfp_encode_block_strided_1 enc z m p tx) (\<lambda>(_, z). Inr z)) 0 z)"

definition compress_strided_2 ::
  "'a::len encoder \<Rightarrow> zfp_stream \<Rightarrow> zfp_field \<Rightarrow> 'a word list \<Rightarrow> err + zfp_stream" where
  "compress_strided_2 enc z f m =
     (let ax = unat (nx f); ay = unat (ny f);
          tx = stride_of (sx f) 1; ty = stride_of (sy f) (sint (nx f)) in
      blocks ay (\<lambda>y. blocks ax (\<lambda>x z.
        let p = int (fd_data f) + tx * int x + ty * int y in
        bind_res (if ax - x < 4 \<or> ay - y < 4
                  then zfp_encode_partial_block_strided_2 enc z m p (min (ax - x) 4) (min (ay - y) 4) tx ty
                  else zfp_encode_block_strided_2 enc z m p tx ty) (\<lambda>(_, z). Inr z)) 0) 0 z)"

definition compress_strided_3 ::
  "'a::len encoder \<Rightarrow> zfp_stream \<Rightarrow> zfp_field \<Rightarrow> 'a word list \<Rightarrow> err + zfp_stream" where
  "compress_strided_3 enc z f m =
     (let ax = unat (nx f); ay = unat (ny f); az = unat (nz f);
          tx = stride_of (sx f) 1; ty = stride_of (sy f) (sint (nx f));
          tz = stride_of (sz f) (sint (nx f * ny f)) in
      blocks az (\<lambda>k. blocks ay (\<lambda>y. blocks ax (\<lambda>x z.
        let p = int (fd_data f) + tx * int x + ty * int y + tz * int k in
        bind_res (if ax - x < 4 \<or> ay - y < 4 \<or> az - k < 4
                  then zfp_encode_partial_block_strided_3 enc z m p (min (ax - x) 4) (min (ay - y) 4)
                         (min (az - k) 4) tx ty tz
                  else zfp_encode_block_strided_3 enc z m p tx ty tz) (\<lambda>(_, z). Inr z)) 0) 0) 0 z)"

definition compress_strided_4 ::
  "'a::len encoder \<Rightarrow> zfp_stream \<Rightarrow> zfp_field \<Rightarrow> 'a word list \<Rightarrow> err + zfp_stream" where
  "compress_strided_4 enc z f m =
     (let ax = unat (nx f); ay = unat (ny f); az = unat (nz f); aw = unat (nw f);
          tx = stride_of (sx f) 1; ty = stride_of (sy f) (sint (nx f));
          tz = stride_of (sz f) (sint (nx f * ny f)); tw = stride_of (sw f) (sint (nx f * ny f * nz f)) in
      blocks aw (\<lambda>l. blocks az (\<lambda>k. blocks ay (\<lambda>y. blocks ax (\<lambda>x z.
        let p = int (fd_data f) + tx * int x + ty * int y + tz * int k + tw * int l in
        bind_res (if ax - x < 4 \<or> ay - y < 4 \<or> az - k < 4 \<or> aw - l < 4
                  then zfp_encode_partial_block_strided_4 enc z m p (min (ax - x) 4) (min (ay - y) 4)
                         (min (az - k) 4) (min (aw - l) 4) tx ty tz tw
                  else zfp_encode_block_strided_4 enc z m p tx ty tz tw) (\<lambda>(_, z). Inr z)) 0) 0) 0) 0 z)"

definition decompress_1 ::
  "'a::len decoder \<Rightarrow> zfp_stream \<Rightarrow> zfp_field \<Rightarrow> 'a word list \<Rightarrow> err + 'a word list \<times> zfp_stream" where
  "decompress_1 dec z f m =
     (let n = unat (nx f); mx = unat (nx f AND NOT 3) in
      bind_res (blocks mx (\<lambda>x (m, z).
          let p = fd_data f + x in
          if p + 4 \<le> length m
          then bind_res (dec 1 z (take 4 (drop p m)))
                 (\<lambda>(_, b, z). Inr (take p m @ b @ drop (p + 4) m, z))
          else Inl Out_Of_Bounds) 0 (m, z)) (\<lambda>(m, z).
        if mx < n
        then bind_res (zfp_decode_partial_block_strided_1 dec z m (int (fd_data f + mx)) (n - mx) 1)
               (\<lambda>(_, m, z). Inr (m, z))
        else Inr (m, z)))"

definition decompress_strided_1 ::
  "'a::len decoder \<Rightarrow> zfp_stream \<Rightarrow> zfp_field \<Rightarrow> 'a word list \<Rightarrow> err + 'a word list \<times> zfp_stream" where
  "decompress_strided_1 dec z f m =
     (let n = unat (nx f); tx = stride_of (sx f) 1 in
      blocks n (\<lambda>x (m, z).
        let p = int (fd_data f) + tx * int x in
        bind_res (if n - x < 4 then zfp_decode_partial_block_strided_1 dec z m p (n - x) tx
                  else zfp_decode_block_strided_1 dec z m p tx) (\<lambda>(_, m, z). Inr (m, z))) 0 (m, z))"

definition decompress_strided_2 ::
  "'a::len decoder \<Rightarrow> zfp_stream \<Rightarrow> zfp_field \<Rightarrow> 'a word list \<Rightarrow> err + 'a word list \<times> zfp_stream" where
  "decompress_strided_2 dec z f m =
     (let ax = unat (nx f); ay = unat (ny f);
          tx = stride_of (sx f) 1; ty = stride_of (sy f) (sint (nx f)) in
      blocks ay (\<lambda>y. blocks ax (\<lambda>x (m, z).
        let p = int (fd_data f) + tx * int x + ty * int y in
        bind_res (if ax - x < 4 \<or> ay - y < 4
                  then zfp_decode_partial_block_strided_2 dec z m p (min (ax - x) 4) (min (ay - y) 4) tx ty
                  else zfp_decode_block_strided_2 dec z m p tx ty) (\<lambda>(_, m, z). Inr (m, z))) 0) 0 (m, z))"

definition decompress_strided_3 ::
  "'a::len decoder \<Rightarrow> zfp_stream \<Rightarrow> zfp_field \<Rightarrow> 'a word list \<Rightarrow> err + 'a word list \<times> zfp_stream" where
  "decompress_strided_3 dec z f m =
     (let ax = unat (nx f); ay = unat (ny f); az = unat (nz f);
          tx = stride_of (sx f) 1; ty = stride_of (sy f) (sint (nx f));
          tz = stride_of (sz f) (sint (nx f * ny f)) in
      blocks az (\<lambda>k. blocks ay (\<lambda>y. blocks ax (\<lambda>x (m, z).
        let p = int (fd_data f) + tx * int x + ty * int y + tz * int k in
        bind_res (if ax - x < 4 \<or> ay - y < 4 \<or> az - k < 4
                  then zfp_decode_partial_block_strided_3 dec z m p (min (ax - x) 4) (min (ay - y) 4)
                         (min (az - k) 4) tx ty tz
                  else zfp_decode_block_strided_3 dec z m p tx ty tz) (\<lambda>(_, m, z). Inr (m, z))) 0) 0) 0
        (m, z))"

definition decompress_strided_4 ::
  "'a::len decoder \<Rightarrow> zfp_stream \<Rightarrow> zfp_field \<Rightarrow> 'a word list \<Rightarrow> err + 'a word list \<times> zfp_stream" where
  "decompress_strided_4 dec z f m =
     (let ax = unat (nx f); ay = unat (ny f); az = unat (nz f); aw = unat (nw f);
          tx = stride_of (sx f) 1; ty = stride_of (sy f) (sint (nx f));
          tz = stride_of (sz f) (sint (nx f * ny f)); tw = stride_of (sw f) (sint (nx f * ny f * nz f)) in
      blocks aw (\<lambda>l. blocks az (\<lambda>k. blocks ay (\<lambda>y. blocks ax (\<lambda>x (m, z).
        let p = int (fd_data f) + tx * int x + ty * int y + tz * int k + tw * int l in
        bind_res (if ax - x < 4 \<or> ay - y < 4 \<or> az - k < 4 \<or> aw - l < 4
                  then zfp_decode_partial_block_strided_4 dec z m p (min (ax - x) 4) (min (ay - y) 4)
                         (min (az - k) 4) (min (aw - l) 4) tx ty tz tw
                  else zfp_decode_block_strided_4 dec z m p tx ty tz tw) (\<lambda>(_, m, z). Inr (m, z))) 0) 0) 0) 0
        (m, z))"

section \<open>Lossless steps\<close>

text \<open>
  \<open>enc\<close> appends at most \<open>k\<close> bits to a stream; wherever these bits stand in a stream, \<open>dec\<close> reads them all and
  no other, and puts the elements \<open>a\<close> of the array \<open>src\<close> in their places.
\<close>

definition lossless :: "(zfp_stream \<Rightarrow> err + zfp_stream) \<Rightarrow>
    ('a list \<times> zfp_stream \<Rightarrow> err + 'a list \<times> zfp_stream) \<Rightarrow> 'a list \<Rightarrow> nat set \<Rightarrow> nat \<Rightarrow> bool" where
  "lossless enc dec src a k \<longleftrightarrow> (\<exists>c. length c \<le> k \<and>
     (\<forall>z. rev_mode z \<and> bs_ok (zs_bits z) \<and> k \<le> room (zs_bits z) \<longrightarrow>
        (\<exists>s. enc z = Inr (z\<lparr>zs_bits := s\<rparr>) \<and> bs_ok s \<and> written s = written (zs_bits z) @ c \<and>
          room s + length c = room (zs_bits z))) \<and>
     (\<forall>z m rest. rev_mode z \<and> reading (zs_bits z) \<and> length m = length src \<and> unread (zs_bits z) = c @ rest \<longrightarrow>
        (\<exists>s. dec (m, z) = Inr (blend src a m, z\<lparr>zs_bits := s\<rparr>) \<and> reading s \<and> unread s = rest \<and>
          bs_mem s = bs_mem (zs_bits z))))"

lemma lossless_none [simp]: "lossless Inr Inr src {} 0"
  unfolding lossless_def by (intro exI [of _ "[]"]) (auto intro!: exI)

lemma lossless_mono: "lossless enc dec src a k \<Longrightarrow> k \<le> l \<Longrightarrow> lossless enc dec src a l"
  unfolding lossless_def by (elim exE, rule_tac x = c in exI) (intro conjI, simp_all)

lemma lossless_seq:
  assumes "lossless enc dec src a k" and "lossless enc' dec' src b l"
  shows "lossless (\<lambda>z. bind_res (enc z) enc') (\<lambda>s. bind_res (dec s) dec') src (a \<union> b) (k + l)"
proof -
  obtain c where c: "length c \<le> k"
    "\<And>z. rev_mode z \<Longrightarrow> bs_ok (zs_bits z) \<Longrightarrow> k \<le> room (zs_bits z) \<Longrightarrow>
      \<exists>s. enc z = Inr (z\<lparr>zs_bits := s\<rparr>) \<and> bs_ok s \<and> written s = written (zs_bits z) @ c \<and>
        room s + length c = room (zs_bits z)"
    "\<And>z m rest. rev_mode z \<Longrightarrow> reading (zs_bits z) \<Longrightarrow> length m = length src \<Longrightarrow> unread (zs_bits z) = c @ rest \<Longrightarrow>
      \<exists>s. dec (m, z) = Inr (blend src a m, z\<lparr>zs_bits := s\<rparr>) \<and> reading s \<and> unread s = rest \<and>
        bs_mem s = bs_mem (zs_bits z)"
    using assms(1) unfolding lossless_def by blast
  obtain d where d: "length d \<le> l"
    "\<And>z. rev_mode z \<Longrightarrow> bs_ok (zs_bits z) \<Longrightarrow> l \<le> room (zs_bits z) \<Longrightarrow>
      \<exists>s. enc' z = Inr (z\<lparr>zs_bits := s\<rparr>) \<and> bs_ok s \<and> written s = written (zs_bits z) @ d \<and>
        room s + length d = room (zs_bits z)"
    "\<And>z m rest. rev_mode z \<Longrightarrow> reading (zs_bits z) \<Longrightarrow> length m = length src \<Longrightarrow> unread (zs_bits z) = d @ rest \<Longrightarrow>
      \<exists>s. dec' (m, z) = Inr (blend src b m, z\<lparr>zs_bits := s\<rparr>) \<and> reading s \<and> unread s = rest \<and>
        bs_mem s = bs_mem (zs_bits z)"
    using assms(2) unfolding lossless_def by blast
  have "\<exists>s. bind_res (enc z) enc' = Inr (z\<lparr>zs_bits := s\<rparr>) \<and> bs_ok s \<and> written s = written (zs_bits z) @ c @ d \<and>
      room s + length (c @ d) = room (zs_bits z)"
    if z: "rev_mode z" "bs_ok (zs_bits z)" "k + l \<le> room (zs_bits z)" for z
  proof -
    obtain s where s: "enc z = Inr (z\<lparr>zs_bits := s\<rparr>)" "bs_ok s" "written s = written (zs_bits z) @ c"
      "room s + length c = room (zs_bits z)" using c(2) [OF z(1,2)] z(3) by auto
    then have "l \<le> room s" using z(3) c(1) by linarith
    with d(2) [of "z\<lparr>zs_bits := s\<rparr>"] z(1) s obtain t where "enc' (z\<lparr>zs_bits := s\<rparr>) = Inr (z\<lparr>zs_bits := t\<rparr>)" "bs_ok t"
      "written t = written s @ d" "room t + length d = room s" by auto
    with s show ?thesis by auto
  qed
  moreover have "\<exists>s. bind_res (dec (m, z)) dec' = Inr (blend src (a \<union> b) m, z\<lparr>zs_bits := s\<rparr>) \<and> reading s \<and>
      unread s = rest \<and> bs_mem s = bs_mem (zs_bits z)"
    if z: "rev_mode z" "reading (zs_bits z)" "length m = length src" "unread (zs_bits z) = (c @ d) @ rest" for z m rest
  proof -
    obtain s where s: "dec (m, z) = Inr (blend src a m, z\<lparr>zs_bits := s\<rparr>)" "reading s" "unread s = d @ rest"
      "bs_mem s = bs_mem (zs_bits z)" using c(3) [OF z(1,2,3)] z(4) by auto
    with d(3) [of "z\<lparr>zs_bits := s\<rparr>" "blend src a m" rest] z(1,3) show ?thesis by auto
  qed
  ultimately show ?thesis unfolding lossless_def using c(1) d(1) by (intro exI [of _ "c @ d"]) auto
qed

text \<open>A loop over blocks of which each is lossless.\<close>

definition starts :: "nat \<Rightarrow> nat set" where
  "starts n = {x. x < n \<and> 4 dvd x}"

lemma lossless_blocks:
  assumes n: "n + 4 \<le> 2 ^ 32" and f: "\<And>x. x < n \<Longrightarrow> 4 dvd x \<Longrightarrow> lossless (f x) (g x) src (a x) k"
  shows "lossless (blocks n f 0) (blocks n g 0) src (\<Union>x\<in>starts n. a x) (k * ((n + 3) div 4))"
proof -
  have "4 dvd x \<Longrightarrow> x \<le> n + 3 \<Longrightarrow> lossless (blocks n f x) (blocks n g x) src (\<Union>y\<in>{y \<in> starts n. x \<le> y}. a y)
      (k * ((n + 3 - x) div 4))" for x
  proof (induction "n - x" arbitrary: x rule: less_induct)
    case less
    show ?case
    proof (cases "x < n")
      case False
      then have "{y \<in> starts n. x \<le> y} = {}" by (auto simp: starts_def)
      then have "(\<Union>y\<in>{y \<in> starts n. x \<le> y}. a y) = {}" by (simp only: image_empty Union_empty)
      moreover have "blocks n f x = Inr" "blocks n g x = Inr"
        using False by (auto simp: blocks.simps [of n f x] blocks.simps [of n g x])
      ultimately show ?thesis by (simp only:) (rule lossless_mono [OF lossless_none], simp)
    next
      case True
      have w: "x + 4 < 2 ^ 32" using True n by linarith
      have e: "{y \<in> starts n. x \<le> y} = {x} \<union> {y \<in> starts n. x + 4 \<le> y}"
      proof -
        have nxt: "x + 4 \<le> y" if y: "4 dvd y" "x \<le> y" "y \<noteq> x" for y
        proof -
          obtain i where i: "x = 4 * i" using less.prems(1) by (rule dvdE)
          obtain j where j: "y = 4 * j" using y(1) by (rule dvdE)
          have "i < j" using i j y by auto
          with i j show ?thesis by simp
        qed
        have xs: "x \<in> starts n" using True less.prems(1) by (simp add: starts_def)
        have "y \<in> starts n \<and> x \<le> y \<longleftrightarrow> y = x \<or> y \<in> starts n \<and> x + 4 \<le> y" for y
          using nxt [of y] xs by (cases "y = x") (simp_all add: starts_def, linarith)
        then show ?thesis by (intro set_eqI) simp
      qed
      have "lossless (\<lambda>z. bind_res (f x z) (blocks n f (x + 4))) (\<lambda>s. bind_res (g x s) (blocks n g (x + 4))) src
          (a x \<union> (\<Union>y\<in>{y \<in> starts n. x + 4 \<le> y}. a y)) (k + k * ((n + 3 - (x + 4)) div 4))"
        by (rule lossless_seq [OF f [OF True less.prems(1)] less.hyps]) (use True less.prems(1) in auto)
      moreover have "blocks n f x = (\<lambda>z. bind_res (f x z) (blocks n f (x + 4)))"
        "blocks n g x = (\<lambda>s. bind_res (g x s) (blocks n g (x + 4)))"
        using True w by (auto simp: blocks.simps [of n f x] blocks.simps [of n g x])
      moreover have "n + 3 - x = n + 3 - (x + 4) + 4" using True by simp
      then have "(n + 3 - x) div 4 = (n + 3 - (x + 4)) div 4 + 1" by (simp only: div_add_self2)
      ultimately show ?thesis by (simp add: e)
    qed
  qed
  from this [of 0] show ?thesis by (simp add: starts_def)
qed

lemma BLOCK_SIZE_simps: "BLOCK_SIZE (Suc 0) = 4" "BLOCK_SIZE 1 = 4" "BLOCK_SIZE 2 = 16" "BLOCK_SIZE 3 = 64" "BLOCK_SIZE 4 = 256"
  by (simp_all add: BLOCK_SIZE_def)

section \<open>Blocks make up arrays\<close>

lemma starts_ex: "(\<exists>x\<in>starts n. \<exists>i<min (n - x) 4. P (x + i)) \<longleftrightarrow> (\<exists>j<n. P j)"
proof
  assume "\<exists>j<n. P j"
  then obtain j where j: "j < n" "P j" by blast
  have e: "4 * (j div 4) + j mod 4 = j" by simp
  then have "4 * (j div 4) < n" "j mod 4 < n - 4 * (j div 4)" using j(1) by linarith+
  with j(2) e have "4 * (j div 4) \<in> starts n" "j mod 4 < min (n - 4 * (j div 4)) 4" "P (4 * (j div 4) + j mod 4)"
    by (simp_all add: starts_def)
  then show "\<exists>x\<in>starts n. \<exists>i<min (n - x) 4. P (x + i)" by blast
next
  assume "\<exists>x\<in>starts n. \<exists>i<min (n - x) 4. P (x + i)"
  then obtain x i where "i < min (n - x) 4" "P (x + i)" by blast
  moreover from this have "x + i < n" by linarith
  ultimately show "\<exists>j<n. P j" by blast
qed

lemma mem_cells:
  "a \<in> cells_1 p kx tx \<longleftrightarrow> (\<exists>x<kx. a = nat (p + int x * tx))"
  "a \<in> cells_2 p kx ky tx ty \<longleftrightarrow> (\<exists>y<ky. \<exists>x<kx. a = nat (p + int x * tx + int y * ty))"
  "a \<in> cells_3 p kx ky kz tx ty tz \<longleftrightarrow>
     (\<exists>z<kz. \<exists>y<ky. \<exists>x<kx. a = nat (p + int x * tx + int y * ty + int z * tz))"
  "a \<in> cells_4 p kx ky kz kw tx ty tz tw \<longleftrightarrow>
     (\<exists>w<kw. \<exists>z<kz. \<exists>y<ky. \<exists>x<kx. a = nat (p + int x * tx + int y * ty + int z * tz + int w * tw))"
  by (auto simp: cells_1_def cells_2_def cells_3_def cells_4_def algebra_simps)

lemma cells_1_starts:
  "(\<Union>x\<in>starts n. cells_1 (p + tx * int x) (min (n - x) 4) tx) = cells_1 p n tx"
proof (rule set_eqI)
  fix a
  let ?P = "\<lambda>x. a = nat (p + int x * tx)"
  have "a \<in> (\<Union>x\<in>starts n. cells_1 (p + tx * int x) (min (n - x) 4) tx) \<longleftrightarrow>
      (\<exists>x\<in>starts n. \<exists>i<min (n - x) 4. ?P (x + i))"
    by (simp add: mem_cells algebra_simps)
  then show "a \<in> (\<Union>x\<in>starts n. cells_1 (p + tx * int x) (min (n - x) 4) tx) \<longleftrightarrow> a \<in> cells_1 p n tx"
    by (simp only: starts_ex [of n ?P] mem_cells(1))
qed

lemma cells_2_starts:
  "(\<Union>y\<in>starts ay. \<Union>x\<in>starts ax. cells_2 (p + tx * int x + ty * int y) (min (ax - x) 4) (min (ay - y) 4) tx ty) =
     cells_2 p ax ay tx ty"
proof (rule set_eqI)
  fix a
  let ?P = "\<lambda>y x. a = nat (p + int x * tx + int y * ty)"
  have "a \<in> (\<Union>y\<in>starts ay. \<Union>x\<in>starts ax.
        cells_2 (p + tx * int x + ty * int y) (min (ax - x) 4) (min (ay - y) 4) tx ty) \<longleftrightarrow>
      (\<exists>y\<in>starts ay. \<exists>x\<in>starts ax. \<exists>j<min (ay - y) 4. \<exists>i<min (ax - x) 4. ?P (y + j) (x + i))"
    by (simp add: mem_cells algebra_simps)
  also have "\<dots> \<longleftrightarrow> (\<exists>y\<in>starts ay. \<exists>j<min (ay - y) 4. \<exists>x\<in>starts ax. \<exists>i<min (ax - x) 4. ?P (y + j) (x + i))"
    by blast
  finally show "a \<in> (\<Union>y\<in>starts ay. \<Union>x\<in>starts ax.
      cells_2 (p + tx * int x + ty * int y) (min (ax - x) 4) (min (ay - y) 4) tx ty) \<longleftrightarrow> a \<in> cells_2 p ax ay tx ty"
    by (simp only: starts_ex [of ax "?P y" for y] starts_ex [of ay "\<lambda>y. \<exists>x<ax. ?P y x"] mem_cells(2))
qed

lemma cells_3_starts:
  "(\<Union>k\<in>starts az. \<Union>y\<in>starts ay. \<Union>x\<in>starts ax. cells_3 (p + tx * int x + ty * int y + tz * int k)
      (min (ax - x) 4) (min (ay - y) 4) (min (az - k) 4) tx ty tz) = cells_3 p ax ay az tx ty tz"
proof (rule set_eqI)
  fix a
  let ?P = "\<lambda>k y x. a = nat (p + int x * tx + int y * ty + int k * tz)"
  have "a \<in> (\<Union>k\<in>starts az. \<Union>y\<in>starts ay. \<Union>x\<in>starts ax. cells_3 (p + tx * int x + ty * int y + tz * int k)
        (min (ax - x) 4) (min (ay - y) 4) (min (az - k) 4) tx ty tz) \<longleftrightarrow>
      (\<exists>k\<in>starts az. \<exists>y\<in>starts ay. \<exists>x\<in>starts ax. \<exists>l<min (az - k) 4. \<exists>j<min (ay - y) 4. \<exists>i<min (ax - x) 4.
        ?P (k + l) (y + j) (x + i))"
    by (simp add: mem_cells algebra_simps)
  also have "\<dots> \<longleftrightarrow> (\<exists>k\<in>starts az. \<exists>l<min (az - k) 4. \<exists>y\<in>starts ay. \<exists>j<min (ay - y) 4. \<exists>x\<in>starts ax.
      \<exists>i<min (ax - x) 4. ?P (k + l) (y + j) (x + i))"
    by blast
  finally show "a \<in> (\<Union>k\<in>starts az. \<Union>y\<in>starts ay. \<Union>x\<in>starts ax. cells_3 (p + tx * int x + ty * int y + tz * int k)
        (min (ax - x) 4) (min (ay - y) 4) (min (az - k) 4) tx ty tz) \<longleftrightarrow> a \<in> cells_3 p ax ay az tx ty tz"
    by (simp only: starts_ex [of ax "?P k y" for k y] starts_ex [of ay "\<lambda>y. \<exists>x<ax. ?P k y x" for k]
        starts_ex [of az "\<lambda>k. \<exists>y<ay. \<exists>x<ax. ?P k y x"] mem_cells(3))
qed

lemma cells_4_starts:
  "(\<Union>l\<in>starts aw. \<Union>k\<in>starts az. \<Union>y\<in>starts ay. \<Union>x\<in>starts ax.
      cells_4 (p + tx * int x + ty * int y + tz * int k + tw * int l)
        (min (ax - x) 4) (min (ay - y) 4) (min (az - k) 4) (min (aw - l) 4) tx ty tz tw) =
     cells_4 p ax ay az aw tx ty tz tw"
  (is "?U = _")
proof (rule set_eqI)
  fix a
  let ?P = "\<lambda>l k y x. a = nat (p + int x * tx + int y * ty + int k * tz + int l * tw)"
  have "a \<in> ?U \<longleftrightarrow>
      (\<exists>l\<in>starts aw. \<exists>k\<in>starts az. \<exists>y\<in>starts ay. \<exists>x\<in>starts ax. \<exists>h<min (aw - l) 4. \<exists>m<min (az - k) 4.
        \<exists>j<min (ay - y) 4. \<exists>i<min (ax - x) 4. ?P (l + h) (k + m) (y + j) (x + i))"
    by (simp add: mem_cells algebra_simps)
  also have "\<dots> \<longleftrightarrow> (\<exists>l\<in>starts aw. \<exists>h<min (aw - l) 4. \<exists>k\<in>starts az. \<exists>m<min (az - k) 4. \<exists>y\<in>starts ay.
      \<exists>j<min (ay - y) 4. \<exists>x\<in>starts ax. \<exists>i<min (ax - x) 4. ?P (l + h) (k + m) (y + j) (x + i))"
    by blast
  finally show "a \<in> ?U \<longleftrightarrow> a \<in> cells_4 p ax ay az aw tx ty tz tw"
    by (simp only: starts_ex [of ax "?P l k y" for l k y] starts_ex [of ay "\<lambda>y. \<exists>x<ax. ?P l k y x" for l k]
        starts_ex [of az "\<lambda>k. \<exists>y<ay. \<exists>x<ax. ?P l k y x" for l]
        starts_ex [of aw "\<lambda>l. \<exists>k<az. \<exists>y<ay. \<exists>x<ax. ?P l k y x"] mem_cells(4))
qed

lemma fits_1_starts: "fits_1 p ax tx l \<Longrightarrow> fits_1 (p + tx * int x) (min (ax - x) 4) tx l"
  unfolding fits_1_def
proof (intro allI impI)
  fix i
  assume f: "\<forall>x<ax. 0 \<le> p + int x * tx \<and> p + int x * tx < int l" and "i < min (ax - x) 4"
  then have "x + i < ax" by linarith
  with f have "0 \<le> p + int (x + i) * tx \<and> p + int (x + i) * tx < int l" by blast
  then show "0 \<le> p + tx * int x + int i * tx \<and> p + tx * int x + int i * tx < int l" by (simp add: algebra_simps)
qed

lemma fits_2_starts:
  assumes f: "fits_2 p ax ay tx ty l"
  shows "fits_2 (p + tx * int x + ty * int y) (min (ax - x) 4) (min (ay - y) 4) tx ty l"
  unfolding fits_2_def
proof (intro conjI allI impI)
  fix j
  assume "j < min (ay - y) 4"
  then have "y + j < ay" by linarith
  with f have "fits_1 (p + int (y + j) * ty) ax tx l" unfolding fits_2_def by blast
  from fits_1_starts [OF this] show "fits_1 (p + tx * int x + ty * int y + int j * ty) (min (ax - x) 4) tx l"
    by (simp add: algebra_simps)
qed (use f in \<open>auto simp: fits_2_def\<close>)

lemma fits_3_starts:
  assumes f: "fits_3 p ax ay az tx ty tz l"
  shows "fits_3 (p + tx * int x + ty * int y + tz * int k) (min (ax - x) 4) (min (ay - y) 4) (min (az - k) 4) tx ty tz l"
  unfolding fits_3_def
proof (intro conjI allI impI)
  fix i
  assume "i < min (az - k) 4"
  then have "k + i < az" by linarith
  with f have "fits_2 (p + int (k + i) * tz) ax ay tx ty l" unfolding fits_3_def by blast
  from fits_2_starts [OF this] show "fits_2 (p + tx * int x + ty * int y + tz * int k + int i * tz)
      (min (ax - x) 4) (min (ay - y) 4) tx ty l"
    by (simp add: algebra_simps)
qed (use f in \<open>auto simp: fits_3_def\<close>)

lemma fits_4_starts:
  assumes f: "fits_4 p ax ay az aw tx ty tz tw l"
  shows "fits_4 (p + tx * int x + ty * int y + tz * int k + tw * int h) (min (ax - x) 4) (min (ay - y) 4) (min (az - k) 4)
       (min (aw - h) 4) tx ty tz tw l"
  unfolding fits_4_def
proof (intro conjI allI impI)
  fix i
  assume "i < min (aw - h) 4"
  then have "h + i < aw" by linarith
  with f have "fits_3 (p + int (h + i) * tw) ax ay az tx ty tz l" unfolding fits_4_def by blast
  from fits_3_starts [OF this] show "fits_3 (p + tx * int x + ty * int y + tz * int k + tw * int h + int i * tw)
      (min (ax - x) 4) (min (ay - y) 4) (min (az - k) 4) tx ty tz l"
    by (simp add: algebra_simps)
qed (use f in \<open>auto simp: fits_4_def\<close>)

lemmas fits_starts = fits_1_starts fits_2_starts fits_3_starts fits_4_starts

lemma lossless_cong:
  "lossless enc dec src a k \<Longrightarrow> (\<And>z. enc' z = enc z) \<Longrightarrow> (\<And>m z. dec' (m, z) = dec (m, z)) \<Longrightarrow>
   lossless enc' dec' src a k"
  unfolding lossless_def by simp

lemma starts_pos: "x < n \<Longrightarrow> 1 \<le> min (n - x) 4" "min (n - x) 4 \<le> (4 :: nat)"
  by simp_all

text \<open>The elements of a block are elements of the array.\<close>

lemma cells_block:
  "x \<in> starts ax \<Longrightarrow> cells_1 (p + tx * int x) (min (ax - x) 4) tx \<subseteq> cells_1 p ax tx"
  "x \<in> starts ax \<Longrightarrow> y \<in> starts ay \<Longrightarrow>
     cells_2 (p + tx * int x + ty * int y) (min (ax - x) 4) (min (ay - y) 4) tx ty \<subseteq> cells_2 p ax ay tx ty"
  "x \<in> starts ax \<Longrightarrow> y \<in> starts ay \<Longrightarrow> k \<in> starts az \<Longrightarrow>
     cells_3 (p + tx * int x + ty * int y + tz * int k) (min (ax - x) 4) (min (ay - y) 4) (min (az - k) 4) tx ty tz \<subseteq>
       cells_3 p ax ay az tx ty tz"
  "x \<in> starts ax \<Longrightarrow> y \<in> starts ay \<Longrightarrow> k \<in> starts az \<Longrightarrow> l \<in> starts aw \<Longrightarrow>
     cells_4 (p + tx * int x + ty * int y + tz * int k + tw * int l) (min (ax - x) 4) (min (ay - y) 4) (min (az - k) 4)
       (min (aw - l) 4) tx ty tz tw \<subseteq> cells_4 p ax ay az aw tx ty tz tw"
  unfolding cells_1_starts [where p = p and n = ax, symmetric] cells_2_starts [where p = p and ax = ax and ay = ay, symmetric]
    cells_3_starts [where p = p and ax = ax and ay = ay and az = az, symmetric]
    cells_4_starts [where p = p and ax = ax and ay = ay and az = az and aw = aw, symmetric]
  by blast+

lemma starts_in: "x < n \<Longrightarrow> 4 dvd x \<Longrightarrow> x \<in> starts n"
  by (simp add: starts_def)

lemma ball_sub: "\<forall>i\<in>B. P i \<Longrightarrow> A \<subseteq> B \<Longrightarrow> \<forall>i\<in>A. P i"
  by blast

lemma cells_contiguous: "a \<in> cells_1 (int p) n 1 \<longleftrightarrow> p \<le> a \<and> a < p + n"
  unfolding mem_cells by (auto simp: nat_int_add intro!: exI [of _ "a - p"])

lemma unat_clear_2: "unat (w AND NOT 3 :: u32) = 4 * (unat w div 4)"
proof -
  have "w AND NOT (mask 2) = push_bit 2 (drop_bit 2 w)"
    by (rule bit_eqI) (auto simp: bit_and_iff bit_not_iff bit_mask_iff bit_push_drop)
  moreover have "(3 :: u32) = mask 2" by (simp add: mask_eq_exp_minus_1)
  ultimately have "w AND NOT 3 = push_bit 2 (drop_bit 2 w)" by simp
  moreover have "unat (drop_bit 2 w) * 2 ^ 2 < 2 ^ LENGTH(32)"
  proof -
    have "unat (drop_bit 2 w) * 2 ^ 2 \<le> unat w"
      unfolding unat_drop_bit by (rule div_times_less_eq_dividend)
    also have "unat w < 2 ^ LENGTH(32)" by (rule order_less_le_trans [OF unsigned_less]) simp
    finally show ?thesis .
  qed
  ultimately show ?thesis
    by (simp add: unat_push_bit unat_drop_bit)
qed

lemma match_take: "p + 4 \<le> length src \<Longrightarrow> match_1 (take 4 (drop p src)) 0 src (int p) 4 1"
  by (simp add: match_1_def nat_int_add)

lemma blend_splice:
  assumes "p + 4 \<le> length m" "length m = length src"
  shows "take p m @ take 4 (drop p src) @ drop (p + 4) m = blend src (cells_1 (int p) 4 1) m"
proof (rule nth_equalityI)
  fix i
  assume "i < length (take p m @ take 4 (drop p src) @ drop (p + 4) m)"
  then have i: "i < length m" using assms by simp
  have "i \<in> cells_1 (int p) 4 1 \<longleftrightarrow> p \<le> i \<and> i < p + 4"
    unfolding mem_cells by (auto simp: nat_int_add intro!: exI [of _ "i - p"])
  with i assms show "(take p m @ take 4 (drop p src) @ drop (p + 4) m) ! i = blend src (cells_1 (int p) 4 1) m ! i"
    by (auto simp: nth_append)
qed (use assms in simp)

section \<open>Arrays\<close>

text \<open>The blocks of an array in reversible mode.\<close>

context block_coder
begin

lemma lossless_block:
  fixes q :: "'a word list"
  assumes d: "d \<in> dims" "length q = BLOCK_SIZE d" "\<forall>x\<in>set q. good x"
      "\<And>m. length m = length src \<Longrightarrow> length (b m) = BLOCK_SIZE d"
    and e: "\<And>z. e z = bind_res (enc d z q) (\<lambda>(_, z). Inr z)"
    and f: "\<And>m z. length m = length src \<Longrightarrow>
      f (m, z) = bind_res (bind_res (dec d z (b m)) (\<lambda>(bits, q, z).
        bind_res (put q m) (\<lambda>m. Inr (bits, m, z)))) (\<lambda>(_, m, z). Inr (m, z))"
    and p: "\<And>m. length m = length src \<Longrightarrow> put q m = Inr (blend src a m)"
  shows "lossless e f src a (cap d)"
proof -
  obtain c where len: "length c \<le> cap d" and c: "carries (enc d) (dec d) q c" using carried [OF d(1-3)] by blast
  have "\<exists>s. e z = Inr (z\<lparr>zs_bits := s\<rparr>) \<and> bs_ok s \<and> written s = written (zs_bits z) @ c \<and>
      room s + length c = room (zs_bits z)"
    if z: "rev_mode z" "bs_ok (zs_bits z)" "cap d \<le> room (zs_bits z)" for z
  proof -
    obtain n s where "enc d z q = Inr (n, z\<lparr>zs_bits := s\<rparr>)" "bs_ok s"
      "written s = written (zs_bits z) @ c" "room s + length c = room (zs_bits z)"
      using c z(1,2) order_trans [OF len z(3)] unfolding carries_def by blast
    then show ?thesis by (intro exI [of _ s]) (simp add: e)
  qed
  moreover have "\<exists>s. f (m, z) = Inr (blend src a m, z\<lparr>zs_bits := s\<rparr>) \<and> reading s \<and> unread s = rest \<and>
      bs_mem s = bs_mem (zs_bits z)"
    if z: "rev_mode z" "reading (zs_bits z)" "length m = length src" "unread (zs_bits z) = c @ rest" for z m rest
  proof -
    have "length (b m) = length q" using d(4) [OF z(3)] d(2) by simp
    with c z(1,2,4) obtain n s where "dec d z (b m) = Inr (n, q, z\<lparr>zs_bits := s\<rparr>)" "reading s"
      "unread s = rest" "bs_mem s = bs_mem (zs_bits z)"
      unfolding carries_def by blast
    then show ?thesis using p [OF z(3)] f [OF z(3)] by (intro exI [of _ s]) simp
  qed
  ultimately show ?thesis
    using len unfolding lossless_def by (intro exI [of _ c] conjI) auto
qed

text \<open>A block that was gathered from good elements, and zeros for what is not there.\<close>

lemma gathered: "set q \<subseteq> insert 0 ((!) src ` A) \<Longrightarrow> \<forall>i\<in>A. good (src ! i) \<Longrightarrow> \<forall>x\<in>set q. good x"
  using good_zero by blast

lemma lossless_block_1:
  assumes d: "1 \<in> dims" and g: "\<forall>i\<in>cells_1 p kx tx. good (src ! i)"
    and k: "1 \<le> kx" "kx \<le> 4" "fits_1 p kx tx (length src)"
  shows "lossless
      (\<lambda>z. bind_res (if kx < 4 then zfp_encode_partial_block_strided_1 enc z src p kx tx
                    else zfp_encode_block_strided_1 enc z src p tx) (\<lambda>(_, z). Inr z))
      (\<lambda>(m, z). bind_res (if kx < 4 then zfp_decode_partial_block_strided_1 dec z m p kx tx
                    else zfp_decode_block_strided_1 dec z m p tx) (\<lambda>(_, m, z). Inr (m, z)))
      src (cells_1 p kx tx) (cap 1)"
proof (cases "kx < 4")
  case True
  obtain q where q: "gather_partial_1 src p kx tx = Inr q" "length q = 4" "match_1 q 0 src p kx tx"
    "set q \<subseteq> insert 0 ((!) src ` cells_1 p kx tx)"
    using gather_partial_1_ok [OF k] by blast
  show ?thesis
    by (rule lossless_block [where d = 1 and q = q and b = "\<lambda>_. replicate 4 0" and
          put = "\<lambda>q m. scatter_partial_1 q m p kx tx", OF d _ gathered [OF q(4) g]])
      (use True q k in \<open>simp_all add: BLOCK_SIZE_simps zfp_encode_partial_block_strided_1_def
        zfp_decode_partial_block_strided_1_def scatter_partial_ok\<close>)
next
  case False
  with k have 4: "kx = 4" by simp
  obtain q where q: "gather_1 src p tx = Inr q" "length q = 4" "match_1 q 0 src p 4 tx"
    "set q \<subseteq> insert 0 ((!) src ` cells_1 p 4 tx)"
    using gather_1_ok k(3) unfolding 4 by blast
  show ?thesis
    by (rule lossless_block [where d = 1 and q = q and b = "\<lambda>_. replicate 4 0" and
          put = "\<lambda>q m. scatter_1 q m p tx", OF d _ gathered [OF q(4) g [unfolded 4]]])
      (use 4 q k in \<open>simp_all add: BLOCK_SIZE_simps zfp_encode_block_strided_1_def
        zfp_decode_block_strided_1_def scatter_ok\<close>)
qed

lemma lossless_block_2:
  assumes d: "2 \<in> dims" and g: "\<forall>i\<in>cells_2 p kx ky tx ty. good (src ! i)"
    and k: "1 \<le> kx" "kx \<le> 4" "1 \<le> ky" "ky \<le> 4"
    "fits_2 p kx ky tx ty (length src)"
  shows "lossless
      (\<lambda>z. bind_res (if kx < 4 \<or> ky < 4 then zfp_encode_partial_block_strided_2 enc z src p kx ky tx ty
                    else zfp_encode_block_strided_2 enc z src p tx ty) (\<lambda>(_, z). Inr z))
      (\<lambda>(m, z). bind_res (if kx < 4 \<or> ky < 4 then zfp_decode_partial_block_strided_2 dec z m p kx ky tx ty
                    else zfp_decode_block_strided_2 dec z m p tx ty) (\<lambda>(_, m, z). Inr (m, z)))
      src (cells_2 p kx ky tx ty) (cap 2)"
proof (cases "kx < 4 \<or> ky < 4")
  case True
  obtain q where q: "gather_partial_2 src p kx ky tx ty = Inr q" "length q = 16" "match_2 q 0 src p kx ky tx ty"
    "set q \<subseteq> insert 0 ((!) src ` cells_2 p kx ky tx ty)"
    using gather_partial_2_ok [OF k] by blast
  show ?thesis
    by (rule lossless_block [where d = 2 and q = q and b = "\<lambda>_. replicate 16 0" and
          put = "\<lambda>q m. scatter_partial_2 q m p kx ky tx ty", OF d _ gathered [OF q(4) g]])
      (use True q k in \<open>simp_all add: BLOCK_SIZE_simps zfp_encode_partial_block_strided_2_def
        zfp_decode_partial_block_strided_2_def scatter_partial_ok\<close>)
next
  case False
  with k have 4: "kx = 4" "ky = 4" by simp_all
  obtain q where q: "gather_2 src p tx ty = Inr q" "length q = 16" "match_2 q 0 src p 4 4 tx ty"
    "set q \<subseteq> insert 0 ((!) src ` cells_2 p 4 4 tx ty)"
    using gather_2_ok k(5) unfolding 4 by blast
  show ?thesis
    by (rule lossless_block [where d = 2 and q = q and b = "\<lambda>_. replicate 16 0" and
          put = "\<lambda>q m. scatter_2 q m p tx ty", OF d _ gathered [OF q(4) g [unfolded 4]]])
      (use 4 q k in \<open>simp_all add: BLOCK_SIZE_simps zfp_encode_block_strided_2_def
        zfp_decode_block_strided_2_def scatter_ok\<close>)
qed

lemma lossless_block_3:
  assumes d: "3 \<in> dims" and g: "\<forall>i\<in>cells_3 p kx ky kz tx ty tz. good (src ! i)"
    and k: "1 \<le> kx" "kx \<le> 4" "1 \<le> ky" "ky \<le> 4" "1 \<le> kz" "kz \<le> 4" "fits_3 p kx ky kz tx ty tz (length src)"
  shows "lossless
      (\<lambda>z. bind_res (if kx < 4 \<or> ky < 4 \<or> kz < 4
                    then zfp_encode_partial_block_strided_3 enc z src p kx ky kz tx ty tz
                    else zfp_encode_block_strided_3 enc z src p tx ty tz) (\<lambda>(_, z). Inr z))
      (\<lambda>(m, z). bind_res (if kx < 4 \<or> ky < 4 \<or> kz < 4
                    then zfp_decode_partial_block_strided_3 dec z m p kx ky kz tx ty tz
                    else zfp_decode_block_strided_3 dec z m p tx ty tz) (\<lambda>(_, m, z). Inr (m, z)))
      src (cells_3 p kx ky kz tx ty tz) (cap 3)"
proof (cases "kx < 4 \<or> ky < 4 \<or> kz < 4")
  case True
  obtain q where q: "gather_partial_3 src p kx ky kz tx ty tz = Inr q" "length q = 64"
    "match_3 q 0 src p kx ky kz tx ty tz"
    "set q \<subseteq> insert 0 ((!) src ` cells_3 p kx ky kz tx ty tz)"
    using gather_partial_3_ok [OF k] by blast
  show ?thesis
    by (rule lossless_block [where d = 3 and q = q and b = "\<lambda>_. replicate 64 0" and
          put = "\<lambda>q m. scatter_partial_3 q m p kx ky kz tx ty tz", OF d _ gathered [OF q(4) g]])
      (use True q k in \<open>simp_all add: BLOCK_SIZE_simps zfp_encode_partial_block_strided_3_def
        zfp_decode_partial_block_strided_3_def scatter_partial_ok\<close>)
next
  case False
  with k have 4: "kx = 4" "ky = 4" "kz = 4" by simp_all
  obtain q where q: "gather_3 src p tx ty tz = Inr q" "length q = 64" "match_3 q 0 src p 4 4 4 tx ty tz"
    "set q \<subseteq> insert 0 ((!) src ` cells_3 p 4 4 4 tx ty tz)"
    using gather_3_ok k(7) unfolding 4 by blast
  show ?thesis
    by (rule lossless_block [where d = 3 and q = q and b = "\<lambda>_. replicate 64 0" and
          put = "\<lambda>q m. scatter_3 q m p tx ty tz", OF d _ gathered [OF q(4) g [unfolded 4]]])
      (use 4 q k in \<open>simp_all add: BLOCK_SIZE_simps zfp_encode_block_strided_3_def
        zfp_decode_block_strided_3_def scatter_ok\<close>)
qed

lemma lossless_block_4:
  assumes d: "4 \<in> dims" and g: "\<forall>i\<in>cells_4 p kx ky kz kw tx ty tz tw. good (src ! i)"
    and k: "1 \<le> kx" "kx \<le> 4" "1 \<le> ky" "ky \<le> 4" "1 \<le> kz" "kz \<le> 4" "1 \<le> kw" "kw \<le> 4"
      "fits_4 p kx ky kz kw tx ty tz tw (length src)"
  shows "lossless
      (\<lambda>z. bind_res (if kx < 4 \<or> ky < 4 \<or> kz < 4 \<or> kw < 4
                    then zfp_encode_partial_block_strided_4 enc z src p kx ky kz kw tx ty tz tw
                    else zfp_encode_block_strided_4 enc z src p tx ty tz tw) (\<lambda>(_, z). Inr z))
      (\<lambda>(m, z). bind_res (if kx < 4 \<or> ky < 4 \<or> kz < 4 \<or> kw < 4
                    then zfp_decode_partial_block_strided_4 dec z m p kx ky kz kw tx ty tz tw
                    else zfp_decode_block_strided_4 dec z m p tx ty tz tw) (\<lambda>(_, m, z). Inr (m, z)))
      src (cells_4 p kx ky kz kw tx ty tz tw) (cap 4)"
proof (cases "kx < 4 \<or> ky < 4 \<or> kz < 4 \<or> kw < 4")
  case True
  obtain q where q: "gather_partial_4 src p kx ky kz kw tx ty tz tw = Inr q" "length q = 256"
    "match_4 q src p kx ky kz kw tx ty tz tw"
    "set q \<subseteq> insert 0 ((!) src ` cells_4 p kx ky kz kw tx ty tz tw)"
    using gather_partial_4_ok [OF k] by blast
  show ?thesis
    by (rule lossless_block [where d = 4 and q = q and b = "\<lambda>_. replicate 256 0" and
          put = "\<lambda>q m. scatter_partial_4 q m p kx ky kz kw tx ty tz tw", OF d _ gathered [OF q(4) g]])
      (use True q k in \<open>simp_all add: BLOCK_SIZE_simps zfp_encode_partial_block_strided_4_def
        zfp_decode_partial_block_strided_4_def scatter_partial_ok\<close>)
next
  case False
  with k have 4: "kx = 4" "ky = 4" "kz = 4" "kw = 4" by simp_all
  obtain q where q: "gather_4 src p tx ty tz tw = Inr q" "length q = 256" "match_4 q src p 4 4 4 4 tx ty tz tw"
    "set q \<subseteq> insert 0 ((!) src ` cells_4 p 4 4 4 4 tx ty tz tw)"
    using gather_4_ok k(9) unfolding 4 by blast
  show ?thesis
    by (rule lossless_block [where d = 4 and q = q and b = "\<lambda>_. replicate 256 0" and
          put = "\<lambda>q m. scatter_4 q m p tx ty tz tw", OF d _ gathered [OF q(4) g [unfolded 4]]])
      (use 4 q k in \<open>simp_all add: BLOCK_SIZE_simps zfp_encode_block_strided_4_def
        zfp_decode_block_strided_4_def scatter_ok\<close>)
qed

lemma compress_strided_1_lossless:
  assumes d: "1 \<in> dims" and g: "\<forall>i\<in>cells_1 p n tx. good (src ! i)"
    and n: "unat (nx f) + 4 \<le> 2 ^ 32"
    and c: "p = int (fd_data f)" "n = unat (nx f)" "tx = stride_of (sx f) 1"
    and f: "fits_1 p n tx (length src)"
  shows "lossless (\<lambda>z. compress_strided_1 enc z f src) (\<lambda>(m, z). decompress_strided_1 dec z f m) src
    (cells_1 p n tx) (cap 1 * ((n + 3) div 4))"
proof -
  note [simp] = c [symmetric]
  let ?e = "\<lambda>x z. let p = p + tx * int x in
    bind_res (if n - x < 4 then zfp_encode_partial_block_strided_1 enc z src p (n - x) tx
              else zfp_encode_block_strided_1 enc z src p tx) (\<lambda>(_, z). Inr z)"
  let ?d = "\<lambda>x (m, z). let p = p + tx * int x in
    bind_res (if n - x < 4 then zfp_decode_partial_block_strided_1 dec z m p (n - x) tx
              else zfp_decode_block_strided_1 dec z m p tx) (\<lambda>(_, m, z). Inr (m, z))"
  have "lossless (?e x) (?d x) src (cells_1 (p + tx * int x) (min (n - x) 4) tx) (cap 1)" if x: "x < n" "4 dvd x" for x
    by (rule lossless_cong [OF lossless_block_1 [OF d ball_sub [OF g cells_block(1) [OF starts_in [OF x]]]
          starts_pos(1) [OF x(1)] starts_pos(2) fits_starts(1) [of p n tx]]])
      (use f in \<open>auto simp: min_def Let_def\<close>)
  then have "lossless (blocks n ?e 0) (blocks n ?d 0) src (\<Union>x\<in>starts n. cells_1 (p + tx * int x) (min (n - x) 4) tx)
      (cap 1 * ((n + 3) div 4))"
    by (intro lossless_blocks) (use n in simp_all)
  then show ?thesis
    unfolding cells_1_starts
    by (rule lossless_cong) (simp_all add: compress_strided_1_def decompress_strided_1_def)
qed

lemma compress_strided_2_lossless:
  assumes d: "2 \<in> dims" and g: "\<forall>i\<in>cells_2 p ax ay tx ty. good (src ! i)"
    and n: "unat (nx f) + 4 \<le> 2 ^ 32" "unat (ny f) + 4 \<le> 2 ^ 32"
    and c: "p = int (fd_data f)" "ax = unat (nx f)" "ay = unat (ny f)"
      "tx = stride_of (sx f) 1" "ty = stride_of (sy f) (sint (nx f))"
    and f: "fits_2 p ax ay tx ty (length src)"
  shows "lossless (\<lambda>z. compress_strided_2 enc z f src) (\<lambda>(m, z). decompress_strided_2 dec z f m) src
    (cells_2 p ax ay tx ty) (cap 2 * ((ax + 3) div 4) * ((ay + 3) div 4))"
proof -
  note [simp] = c [symmetric]
  let ?e = "\<lambda>y x z. let p = p + tx * int x + ty * int y in
    bind_res (if ax - x < 4 \<or> ay - y < 4
              then zfp_encode_partial_block_strided_2 enc z src p (min (ax - x) 4) (min (ay - y) 4) tx ty
              else zfp_encode_block_strided_2 enc z src p tx ty) (\<lambda>(_, z). Inr z)"
  let ?d = "\<lambda>y x (m, z). let p = p + tx * int x + ty * int y in
    bind_res (if ax - x < 4 \<or> ay - y < 4
              then zfp_decode_partial_block_strided_2 dec z m p (min (ax - x) 4) (min (ay - y) 4) tx ty
              else zfp_decode_block_strided_2 dec z m p tx ty) (\<lambda>(_, m, z). Inr (m, z))"
  have "lossless (?e y x) (?d y x) src
      (cells_2 (p + tx * int x + ty * int y) (min (ax - x) 4) (min (ay - y) 4) tx ty) (cap 2)"
    if x: "x < ax" "4 dvd x" and y: "y < ay" "4 dvd y" for x y
    by (rule lossless_cong [OF lossless_block_2 [OF d ball_sub [OF g cells_block(2)
          [OF starts_in [OF x] starts_in [OF y]]]
          starts_pos(1) [OF x(1)] starts_pos(2) starts_pos(1) [OF y(1)] starts_pos(2)
          fits_starts(2) [OF f]]]) (auto simp: Let_def)
  then have "lossless (blocks ay (\<lambda>y. blocks ax (?e y) 0) 0) (blocks ay (\<lambda>y. blocks ax (?d y) 0) 0) src
      (\<Union>y\<in>starts ay. \<Union>x\<in>starts ax.
        cells_2 (p + tx * int x + ty * int y) (min (ax - x) 4) (min (ay - y) 4) tx ty)
      (cap 2 * ((ax + 3) div 4) * ((ay + 3) div 4))"
    by (intro lossless_blocks) (use n in simp_all)
  then show ?thesis
    unfolding cells_2_starts
    by (rule lossless_cong) (simp_all add: compress_strided_2_def decompress_strided_2_def)
qed

lemma compress_strided_3_lossless:
  assumes d: "3 \<in> dims" and g: "\<forall>i\<in>cells_3 p ax ay az tx ty tz. good (src ! i)"
    and n: "unat (nx f) + 4 \<le> 2 ^ 32" "unat (ny f) + 4 \<le> 2 ^ 32" "unat (nz f) + 4 \<le> 2 ^ 32"
    and c: "p = int (fd_data f)" "ax = unat (nx f)" "ay = unat (ny f)" "az = unat (nz f)"
      "tx = stride_of (sx f) 1" "ty = stride_of (sy f) (sint (nx f))" "tz = stride_of (sz f) (sint (nx f * ny f))"
    and f: "fits_3 p ax ay az tx ty tz (length src)"
  shows "lossless (\<lambda>z. compress_strided_3 enc z f src) (\<lambda>(m, z). decompress_strided_3 dec z f m) src
    (cells_3 p ax ay az tx ty tz) (cap 3 * ((ax + 3) div 4) * ((ay + 3) div 4) * ((az + 3) div 4))"
proof -
  note [simp] = c [symmetric]
  let ?e = "\<lambda>k y x z. let p = p + tx * int x + ty * int y + tz * int k in
    bind_res (if ax - x < 4 \<or> ay - y < 4 \<or> az - k < 4
              then zfp_encode_partial_block_strided_3 enc z src p (min (ax - x) 4) (min (ay - y) 4)
                     (min (az - k) 4) tx ty tz
              else zfp_encode_block_strided_3 enc z src p tx ty tz) (\<lambda>(_, z). Inr z)"
  let ?d = "\<lambda>k y x (m, z). let p = p + tx * int x + ty * int y + tz * int k in
    bind_res (if ax - x < 4 \<or> ay - y < 4 \<or> az - k < 4
              then zfp_decode_partial_block_strided_3 dec z m p (min (ax - x) 4) (min (ay - y) 4)
                     (min (az - k) 4) tx ty tz
              else zfp_decode_block_strided_3 dec z m p tx ty tz) (\<lambda>(_, m, z). Inr (m, z))"
  have "lossless (?e k y x) (?d k y x) src
      (cells_3 (p + tx * int x + ty * int y + tz * int k) (min (ax - x) 4) (min (ay - y) 4) (min (az - k) 4) tx ty tz)
      (cap 3)"
    if x: "x < ax" "4 dvd x" and y: "y < ay" "4 dvd y" and k: "k < az" "4 dvd k" for x y k
    by (rule lossless_cong [OF lossless_block_3 [OF d ball_sub [OF g cells_block(3)
          [OF starts_in [OF x] starts_in [OF y] starts_in [OF k]]]
          starts_pos(1) [OF x(1)] starts_pos(2) starts_pos(1) [OF y(1)] starts_pos(2)
          starts_pos(1) [OF k(1)] starts_pos(2) fits_starts(3) [OF f]]]) (auto simp: Let_def)
  then have "lossless (blocks az (\<lambda>k. blocks ay (\<lambda>y. blocks ax (?e k y) 0) 0) 0)
      (blocks az (\<lambda>k. blocks ay (\<lambda>y. blocks ax (?d k y) 0) 0) 0) src
      (\<Union>k\<in>starts az. \<Union>y\<in>starts ay. \<Union>x\<in>starts ax. cells_3 (p + tx * int x + ty * int y + tz * int k)
        (min (ax - x) 4) (min (ay - y) 4) (min (az - k) 4) tx ty tz)
      (cap 3 * ((ax + 3) div 4) * ((ay + 3) div 4) * ((az + 3) div 4))"
    by (intro lossless_blocks) (use n in simp_all)
  then show ?thesis
    unfolding cells_3_starts
    by (rule lossless_cong) (simp_all add: compress_strided_3_def decompress_strided_3_def)
qed

lemma compress_strided_4_lossless:
  assumes d: "4 \<in> dims" and g: "\<forall>i\<in>cells_4 p ax ay az aw tx ty tz tw. good (src ! i)"
    and n: "unat (nx f) + 4 \<le> 2 ^ 32" "unat (ny f) + 4 \<le> 2 ^ 32" "unat (nz f) + 4 \<le> 2 ^ 32" "unat (nw f) + 4 \<le> 2 ^ 32"
    and c: "p = int (fd_data f)" "ax = unat (nx f)" "ay = unat (ny f)" "az = unat (nz f)" "aw = unat (nw f)"
      "tx = stride_of (sx f) 1" "ty = stride_of (sy f) (sint (nx f))" "tz = stride_of (sz f) (sint (nx f * ny f))"
      "tw = stride_of (sw f) (sint (nx f * ny f * nz f))"
    and f: "fits_4 p ax ay az aw tx ty tz tw (length src)"
  shows "lossless (\<lambda>z. compress_strided_4 enc z f src) (\<lambda>(m, z). decompress_strided_4 dec z f m) src
    (cells_4 p ax ay az aw tx ty tz tw)
    (cap 4 * ((ax + 3) div 4) * ((ay + 3) div 4) * ((az + 3) div 4) * ((aw + 3) div 4))"
proof -
  note [simp] = c [symmetric]
  let ?e = "\<lambda>l k y x z. let p = p + tx * int x + ty * int y + tz * int k + tw * int l in
    bind_res (if ax - x < 4 \<or> ay - y < 4 \<or> az - k < 4 \<or> aw - l < 4
              then zfp_encode_partial_block_strided_4 enc z src p (min (ax - x) 4) (min (ay - y) 4)
                     (min (az - k) 4) (min (aw - l) 4) tx ty tz tw
              else zfp_encode_block_strided_4 enc z src p tx ty tz tw) (\<lambda>(_, z). Inr z)"
  let ?d = "\<lambda>l k y x (m, z). let p = p + tx * int x + ty * int y + tz * int k + tw * int l in
    bind_res (if ax - x < 4 \<or> ay - y < 4 \<or> az - k < 4 \<or> aw - l < 4
              then zfp_decode_partial_block_strided_4 dec z m p (min (ax - x) 4) (min (ay - y) 4)
                     (min (az - k) 4) (min (aw - l) 4) tx ty tz tw
              else zfp_decode_block_strided_4 dec z m p tx ty tz tw) (\<lambda>(_, m, z). Inr (m, z))"
  have "lossless (?e l k y x) (?d l k y x) src
      (cells_4 (p + tx * int x + ty * int y + tz * int k + tw * int l) (min (ax - x) 4) (min (ay - y) 4)
        (min (az - k) 4) (min (aw - l) 4) tx ty tz tw) (cap 4)"
    if x: "x < ax" "4 dvd x" and y: "y < ay" "4 dvd y" and k: "k < az" "4 dvd k" and l: "l < aw" "4 dvd l" for x y k l
    by (rule lossless_cong [OF lossless_block_4 [OF d ball_sub [OF g cells_block(4)
          [OF starts_in [OF x] starts_in [OF y] starts_in [OF k] starts_in [OF l]]]
          starts_pos(1) [OF x(1)] starts_pos(2) starts_pos(1) [OF y(1)] starts_pos(2)
          starts_pos(1) [OF k(1)] starts_pos(2) starts_pos(1) [OF l(1)] starts_pos(2) fits_starts(4) [OF f]]]) (auto simp: Let_def)
  then have "lossless (blocks aw (\<lambda>l. blocks az (\<lambda>k. blocks ay (\<lambda>y. blocks ax (?e l k y) 0) 0) 0) 0)
      (blocks aw (\<lambda>l. blocks az (\<lambda>k. blocks ay (\<lambda>y. blocks ax (?d l k y) 0) 0) 0) 0) src
      (\<Union>l\<in>starts aw. \<Union>k\<in>starts az. \<Union>y\<in>starts ay. \<Union>x\<in>starts ax.
        cells_4 (p + tx * int x + ty * int y + tz * int k + tw * int l)
          (min (ax - x) 4) (min (ay - y) 4) (min (az - k) 4) (min (aw - l) 4) tx ty tz tw)
      (cap 4 * ((ax + 3) div 4) * ((ay + 3) div 4) * ((az + 3) div 4) * ((aw + 3) div 4))"
    by (intro lossless_blocks) (use n in simp_all)
  then show ?thesis
    unfolding cells_4_starts
    by (rule lossless_cong) (simp_all add: compress_strided_4_def decompress_strided_4_def)
qed

text \<open>The contiguous case: full blocks in place, then a partial one.\<close>

lemma compress_1_lossless:
  assumes d: "1 \<in> dims" and g: "\<forall>i\<in>cells_1 (int p) n 1. good (src ! i)"
    and c: "p = fd_data f" "n = unat (nx f)" and f: "p + n \<le> length src"
  shows "lossless (\<lambda>z. compress_1 enc z f src) (\<lambda>(m, z). decompress_1 dec z f m) src
    (cells_1 (int p) n 1) (cap 1 * ((n + 3) div 4))"
proof -
  have n32: "n < 2 ^ 32" unfolding c(2) by (rule order_less_le_trans [OF unsigned_less]) simp
  note [simp] = c [symmetric]
  define mx where "mx = 4 * (n div 4)"
  have mx: "unat (nx f AND NOT 3) = mx" using unat_clear_2 [of "nx f"] by (simp add: mx_def)
  have "mx \<le> n" by (simp add: mx_def)
  then have m32: "mx + 4 \<le> 2 ^ 32"
  proof -
    have "4 * (n div 4) \<le> n" by simp
    also note n32
    finally have "4 * (n div 4) < 4 * 2 ^ 30" by simp
    then have "n div 4 < 2 ^ 30" by (simp only: mult_less_cancel1)
    then show ?thesis by (simp add: mx_def)
  qed
  let ?e = "\<lambda>x z. bind_res (enc 1 z (drop (p + x) src)) (\<lambda>(_, z). Inr z)"
  let ?d = "\<lambda>x (m, z). let p = p + x in
      if p + 4 \<le> length m
      then bind_res (dec 1 z (take 4 (drop p m)))
             (\<lambda>(_, b, z). Inr (take p m @ b @ drop (p + 4) m, z))
      else Inl Out_Of_Bounds"
  have 1: "lossless (blocks mx ?e 0) (blocks mx ?d 0) src (\<Union>x\<in>starts mx. cells_1 (int p + 1 * int x) (min (mx - x) 4) 1)
      (cap 1 * ((mx + 3) div 4))"
  proof (rule lossless_blocks)
    show "mx + 4 \<le> 2 ^ 32" by (rule m32)
    fix x
    assume x: "x < mx" "4 dvd x"
    have "x + 4 \<le> mx"
    proof -
      obtain j where "x = 4 * j" using x(2) by (rule dvdE)
      with x(1) show ?thesis by (simp add: mx_def)
    qed
    with f \<open>mx \<le> n\<close> have l: "p + x + 4 \<le> length src" "min (mx - x) 4 = 4" by simp_all
    then have l4: "4 \<le> length src - (p + x)" by linarith
    let ?q = "take 4 (drop (p + x) src)"
    have "lossless (?e x) (?d x) src (cells_1 (int (p + x)) 4 1) (cap 1)"
    proof (rule lossless_block [where d = 1 and q = ?q and b = "\<lambda>m. take 4 (drop (p + x) m)" and
          put = "\<lambda>q m. Inr (take (p + x) m @ q @ drop (p + x + 4) m)", OF d])
      show "?e x z = bind_res (enc 1 z ?q) (\<lambda>(_, z). Inr z)" for z
        using l4 enc_block [OF d, of "drop (p + x) src" z] by (simp add: BLOCK_SIZE_simps)
      show "\<forall>v\<in>set ?q. good v"
      proof
        fix v
        assume "v \<in> set ?q"
        then obtain i where i: "i < 4" "v = src ! (p + x + i)" using l4 by (auto simp: in_set_conv_nth)
        have "p + x + i \<in> cells_1 (int p) n 1" unfolding cells_contiguous using i(1) \<open>x + 4 \<le> mx\<close> \<open>mx \<le> n\<close> by simp
        with g i(2) show "good v" by blast
      qed
      show "?d x (m, z) = bind_res (bind_res (dec 1 z (take 4 (drop (p + x) m)))
          (\<lambda>(bits, q, z). bind_res (Inr (take (p + x) m @ q @ drop (p + x + 4) m)) (\<lambda>m. Inr (bits, m, z))))
          (\<lambda>(_, m, z). Inr (m, z))" if "length m = length src" for m z
        using l(1) that
        by (cases "dec 1 z (take 4 (drop (p + x) m))") (auto simp: Let_def)
      show "Inr (take (p + x) m @ ?q @ drop (p + x + 4) m) = Inr (blend src (cells_1 (int (p + x)) 4 1) m)"
        if "length m = length src" for m
        using blend_splice [of "p + x" m src] l(1) that by simp
    qed (use l(1) in \<open>simp_all add: BLOCK_SIZE_simps\<close>)
    with l(2) show "lossless (?e x) (?d x) src (cells_1 (int p + 1 * int x) (min (mx - x) 4) 1) (cap 1)" by simp
  qed
  define k where "k = n - mx"
  have k: "k < 4" by (simp add: k_def mx_def minus_mult_div_eq_mod)
  have "lossless (\<lambda>z. if mx < n then bind_res (zfp_encode_partial_block_strided_1 enc z src (int (p + mx)) k 1)
          (\<lambda>(_, z). Inr z) else Inr z)
      (\<lambda>(m, z). if mx < n then bind_res (zfp_decode_partial_block_strided_1 dec z m (int (p + mx)) k 1)
          (\<lambda>(_, m, z). Inr (m, z)) else Inr (m, z))
      src (cells_1 (int (p + mx)) k 1) (cap 1 * (if mx < n then 1 else 0))"
  proof (cases "mx < n")
    case True
    have "1 \<le> k" "k \<le> 4" "fits_1 (int (p + mx)) k 1 (length src)"
      using True k f by (auto simp: k_def fits_1_def)
    have "cells_1 (int (p + mx)) k 1 \<subseteq> cells_1 (int p) n 1"
      using \<open>mx \<le> n\<close> by (auto simp: cells_contiguous k_def simp del: of_nat_add)
    from lossless_block_1 [OF d ball_sub [OF g this] \<open>1 \<le> k\<close> \<open>k \<le> 4\<close> \<open>fits_1 (int (p + mx)) k 1 (length src)\<close>] show ?thesis by (rule lossless_cong [OF lossless_mono]) (use True k in simp_all)
  next
    case False
    then have "k = 0" by (simp add: k_def)
    with False show ?thesis by (simp add: cells_Suc)
  qed
  from lossless_seq [OF 1 [unfolded cells_1_starts] this]
  have "lossless (\<lambda>z. compress_1 enc z f src) (\<lambda>(m, z). decompress_1 dec z f m) src
      (cells_1 (int p) mx 1 \<union> cells_1 (int (p + mx)) k 1) (cap 1 * ((mx + 3) div 4) + cap 1 * (if mx < n then 1 else 0))"
    by (rule lossless_cong) (unfold compress_1_def decompress_1_def Let_def mx c [symmetric] k_def [symmetric],
        simp_all)
  moreover have "cells_1 (int p) mx 1 \<union> cells_1 (int (p + mx)) k 1 = cells_1 (int p) n 1"
  proof (rule set_eqI)
    fix a
    show "a \<in> cells_1 (int p) mx 1 \<union> cells_1 (int (p + mx)) k 1 \<longleftrightarrow> a \<in> cells_1 (int p) n 1"
      unfolding Un_iff cells_contiguous using \<open>mx \<le> n\<close> by (simp add: k_def) linarith
  qed
  moreover have "(mx + 3) div 4 + (if mx < n then 1 else 0) \<le> (n + 3) div 4"
  proof (cases "mx < n")
    case True
    then have "4 * (n div 4) + 4 \<le> n + 3" by (simp add: mx_def)
    then have "n div 4 + 1 \<le> (n + 3) div 4" by (simp add: less_eq_div_iff_mult_less_eq)
    with True show ?thesis by (simp add: mx_def)
  qed (simp add: mx_def div_le_mono)
  then have "cap 1 * ((mx + 3) div 4) + cap 1 * (if mx < n then 1 else 0) \<le> cap 1 * ((n + 3) div 4)"
    unfolding distrib_left [symmetric] by (rule mult_le_mono2)
  ultimately show ?thesis by (simp only:) (rule lossless_mono)
qed

end

end
