(* ===== verification/Float_Round.thy ===== *)
theory Float_Round
  imports Prelude "HOL-Library.Log_Nat"
begin

text \<open>
  Binary floating point as the C code of the viewer uses it.  A finite value of type \<^verbatim>\<open>float\<close> or
  \<^verbatim>\<open>double\<close> is the rational number it stands for, and an operation is the exact one followed by
  a rounding: to nearest, ties to even, on a grid that is fixed by the binade of the number and
  ends at the smallest subnormal.  Infinities are left out: the code stays below \<open>2\<^sup>8\<close>.

  The locale \<open>float_rounding\<close> says what the code relies on.  Rounding to single precision has these
  laws; so has any finer evaluation, which C allows.
\<close>

section \<open>Rounding to a grid\<close>

definition pow2 :: "int \<Rightarrow> rat" where
  "pow2 k = (if 0 \<le> k then 2 ^ nat k else 1 / 2 ^ nat (- k))"

text \<open>The \<open>k\<close> with \<open>2\<^sup>k \<le> x < 2\<^sup>k\<^sup>+\<^sup>1\<close>, for a positive \<open>x\<close>.\<close>

definition binade :: "rat \<Rightarrow> int" where
  "binade x =
     (case quotient_of x of (a, b) \<Rightarrow>
       let k = int (floorlog 2 (nat a)) - int (floorlog 2 (nat b))
       in if pow2 k \<le> x then k else k - 1)"

definition nearest :: "rat \<Rightarrow> int" where
  "nearest x =
     (let n = \<lfloor>x\<rfloor>; d = x - of_int n
      in if d < 1 / 2 \<or> d = 1 / 2 \<and> even n then n else n + 1)"

text \<open>\<open>p\<close> is the precision in bits, \<open>e\<close> the exponent of the smallest normal number.\<close>

definition grid :: "int \<Rightarrow> int \<Rightarrow> rat \<Rightarrow> rat" where
  "grid p e x = pow2 (max (binade \<bar>x\<bar>) e - (p - 1))"

definition round_to :: "int \<Rightarrow> int \<Rightarrow> rat \<Rightarrow> rat" where
  "round_to p e x = (if x = 0 then 0 else of_int (nearest (x / grid p e x)) * grid p e x)"

definition rnd32 :: "rat \<Rightarrow> rat" where
  "rnd32 x = round_to 24 (- 126) x"

definition rnd64 :: "rat \<Rightarrow> rat" where
  "rnd64 x = round_to 53 (- 1022) x"

lemma pow2_pos [simp]: "0 < pow2 k" "0 \<le> pow2 k" "pow2 k \<noteq> 0"
  by (auto simp: pow2_def)

lemma pow2_Suc: "pow2 (k + 1) = 2 * pow2 k"
proof (cases "0 \<le> k")
  case True
  then show ?thesis by (simp add: pow2_def nat_add_distrib)
next
  case False
  then have e: "nat (- k) = Suc (nat (- (k + 1)))" by linarith
  show ?thesis
  proof (cases "k = - 1")
    case False
    with \<open>\<not> 0 \<le> k\<close> have "\<not> 0 \<le> k + 1" by simp
    with \<open>\<not> 0 \<le> k\<close> show ?thesis unfolding pow2_def e by simp
  qed (simp add: pow2_def)
qed

lemma pow2_add_nat: "pow2 (k + int n) = 2 ^ n * pow2 k"
proof (induction n)
  case (Suc n)
  have "pow2 (k + int (Suc n)) = pow2 ((k + int n) + 1)" by (simp add: algebra_simps)
  with Suc show ?case by (simp add: pow2_Suc del: of_nat_Suc)
qed simp

lemma pow2_mono: "j \<le> k \<Longrightarrow> pow2 j \<le> pow2 k"
  using pow2_add_nat [of j "nat (k - j)"] by (simp add: mult_le_cancel_right1 not_less [THEN iffD2])

lemma pow2_less_cancel: "pow2 j < pow2 k \<Longrightarrow> j < k"
  using pow2_mono [of k j] by (cases "j < k") auto

lemma pow2_diff_nat: "pow2 (int m - int n) = 2 ^ m / 2 ^ n"
proof -
  have "2 ^ n * pow2 (int m - int n) = pow2 (int m - int n + int n)" by (rule pow2_add_nat [symmetric])
  also have "\<dots> = 2 ^ m" by (simp add: pow2_def)
  finally show ?thesis by (simp add: field_simps)
qed

lemma nearest_near: "\<bar>of_int (nearest x) - x\<bar> \<le> 1 / 2"
proof -
  have "of_int \<lfloor>x\<rfloor> \<le> x" "x < of_int \<lfloor>x\<rfloor> + 1" by linarith+
  then show ?thesis unfolding nearest_def Let_def abs_le_iff by (simp add: not_less field_simps; linarith)
qed

lemma nearest_of_int [simp]: "nearest (of_int n) = n"
  by (simp add: nearest_def)

lemma binade_le:
  assumes "0 < x"
  shows "pow2 (binade x) \<le> x"
proof -
  obtain a b where q: "quotient_of x = (a, b)" by (cases "quotient_of x")
  have b: "0 < b" using quotient_of_denom_pos [OF q] .
  have x: "x = of_int a / of_int b" using quotient_of_div [OF q] .
  have a: "0 < a" using assms b x by (simp add: zero_less_divide_iff)
  define k where "k = int (floorlog 2 (nat a)) - int (floorlog 2 (nat b))"
  have le: "pow2 (k - 1) \<le> x"
  proof -
    let ?m = "floorlog 2 (nat a)" and ?n = "floorlog 2 (nat b)"
    have "2 ^ (?m - 1) \<le> nat a" "nat b < 2 ^ ?n"
      using floorlog_bounds [of "nat a" 2] floorlog_bounds [of "nat b" 2] a b by simp_all
    then have "2 ^ (?m - 1) \<le> a" "b < 2 ^ ?n"
      using a b by (simp_all add: le_nat_iff nat_less_iff)
    then have "(2 :: rat) ^ (?m - 1) \<le> of_int a" "of_int b \<le> (2 :: rat) ^ ?n"
      by (metis of_int_le_iff of_int_numeral of_int_power)
         (metis \<open>b < 2 ^ ?n\<close> less_imp_le of_int_le_iff of_int_numeral of_int_power)
    then have "2 ^ (?m - 1) / 2 ^ ?n \<le> x"
      unfolding x using a b by (intro frac_le) simp_all
    moreover have "0 < ?m" using a by (simp add: floorlog_def)
    then have "k - 1 = int (?m - 1) - int ?n" by (simp add: k_def)
    ultimately show ?thesis by (simp add: pow2_diff_nat)
  qed
  then show ?thesis by (auto simp: binade_def q k_def [symmetric] Let_def)
qed

lemma binade_bound:
  assumes "0 < x" and "x < pow2 (m + 1)"
  shows "binade x \<le> m"
proof -
  have "pow2 (binade x) < pow2 (m + 1)" using binade_le [OF assms(1)] assms(2) by simp
  then have "binade x < m + 1" by (rule pow2_less_cancel)
  then show ?thesis by simp
qed

lemma grid_le:
  assumes "x \<noteq> 0" and "\<bar>x\<bar> < pow2 (m + 1)" and "e \<le> m"
  shows "grid p e x \<le> pow2 (m - (p - 1))"
proof -
  have "binade \<bar>x\<bar> \<le> m" by (rule binade_bound) (use assms in auto)
  then show ?thesis unfolding grid_def using assms(3) by (intro pow2_mono) simp
qed

lemma round_to_grid: "\<bar>round_to p e x - x\<bar> \<le> grid p e x / 2"
proof (cases "x = 0")
  case False
  let ?u = "grid p e x"
  have u: "0 < ?u" by (simp add: grid_def)
  have "round_to p e x - x = (of_int (nearest (x / ?u)) - x / ?u) * ?u"
    using False u by (simp add: round_to_def algebra_simps)
  then have "\<bar>round_to p e x - x\<bar> = \<bar>of_int (nearest (x / ?u)) - x / ?u\<bar> * ?u"
    using u by (simp add: abs_mult)
  also have "\<dots> \<le> 1 / 2 * ?u" using u nearest_near by (intro mult_right_mono) simp_all
  finally show ?thesis by simp
qed (simp add: round_to_def grid_def)

lemma pow2_add: "pow2 (a + b) = pow2 a * pow2 b"
proof (cases "0 \<le> b")
  case True
  then show ?thesis using pow2_add_nat [of a "nat b"] by (simp add: pow2_def)
next
  case False
  then have "pow2 a = 2 ^ nat (- b) * pow2 (a + b)" using pow2_add_nat [of "a + b" "nat (- b)"] by simp
  with False show ?thesis by (simp add: pow2_def [of b])
qed

text \<open>Of a normal number, the relative error is at most half a unit in the last place.\<close>

lemma round_to_relative:
  assumes "pow2 e \<le> \<bar>x\<bar>"
  shows "\<bar>round_to p e x - x\<bar> \<le> \<bar>x\<bar> * pow2 (- p)"
proof -
  have "0 < \<bar>x\<bar>" using assms by (rule less_le_trans [OF pow2_pos(1)])
  then have "pow2 (max (binade \<bar>x\<bar>) e) \<le> \<bar>x\<bar>" using assms binade_le by (simp add: max_def)
  then have "pow2 (max (binade \<bar>x\<bar>) e) * pow2 (- p) \<le> \<bar>x\<bar> * pow2 (- p)" by (intro mult_right_mono) simp_all
  moreover have "grid p e x = 2 * (pow2 (max (binade \<bar>x\<bar>) e) * pow2 (- p))"
    using pow2_Suc [of "max (binade \<bar>x\<bar>) e + - p"] by (simp add: grid_def pow2_add [symmetric] algebra_simps)
  ultimately show ?thesis using round_to_grid [of p e x] by linarith
qed

lemma round_to_near:
  assumes "\<bar>x\<bar> < pow2 (m + 1)" and "e \<le> m"
  shows "\<bar>round_to p e x - x\<bar> \<le> pow2 (m - p)"
proof (cases "x = 0")
  case False
  have "grid p e x \<le> pow2 (m - (p - 1))" using False assms by (rule grid_le)
  also have "\<dots> = 2 * pow2 (m - p)" using pow2_Suc [of "m - p"] by (simp add: algebra_simps)
  finally show ?thesis using round_to_grid [of p e x] by simp
qed (simp add: round_to_def)

lemma round_to_exact:
  assumes "x = of_int n * pow2 k" and "\<bar>x\<bar> < pow2 (m + 1)" and "e \<le> m" and "m - (p - 1) \<le> k"
  shows "round_to p e x = x"
proof (cases "x = 0")
  case False
  let ?g = "max (binade \<bar>x\<bar>) e - (p - 1)"
  have "binade \<bar>x\<bar> \<le> m" by (rule binade_bound) (use False assms in auto)
  then have "?g \<le> k" using assms(3,4) by simp
  then have "pow2 k = 2 ^ nat (k - ?g) * pow2 ?g" using pow2_add_nat [of ?g "nat (k - ?g)"] by simp
  then have "x = of_int (n * 2 ^ nat (k - ?g)) * grid p e x" by (simp add: assms(1) grid_def)
  moreover have "grid p e x \<noteq> 0" by (simp add: grid_def)
  ultimately have "x / grid p e x = of_int (n * 2 ^ nat (k - ?g))"
    by (metis nonzero_mult_div_cancel_right)
  then have "round_to p e x = of_int (n * 2 ^ nat (k - ?g)) * grid p e x"
    using False unfolding round_to_def by (simp only: nearest_of_int if_False)
  with \<open>x = of_int (n * 2 ^ nat (k - ?g)) * grid p e x\<close> show ?thesis by simp
qed (simp add: round_to_def)

section \<open>The laws the code relies on\<close>

lemma unit_mix:
  assumes "0 \<le> a" "a \<le> 1" "0 \<le> b" "b \<le> 1" "0 \<le> f" "f \<le> 1"
  shows "0 \<le> a + (b - a) * f \<and> a + (b - a) * f \<le> (1 :: rat)"
proof -
  obtain u v where uv: "a * (1 - f) = u" "b * f = v" by simp
  have "0 \<le> u" "0 \<le> v" using assms by (simp_all add: uv [symmetric])
  moreover have "a * (1 - f) \<le> 1 * (1 - f)" "b * f \<le> 1 * f" using assms by (intro mult_right_mono; simp)+
  then have "u \<le> 1 - f" "v \<le> f" by (simp_all add: uv)
  moreover have "a + (b - a) * f = a * (1 - f) + b * f" by (simp add: algebra_simps)
  then have "a + (b - a) * f = u + v" by (simp add: uv)
  ultimately show ?thesis by simp
qed

locale float_rounding =
  fixes rnd :: "rat \<Rightarrow> rat"
  assumes rnd_unit: "\<bar>x\<bar> < 2 \<Longrightarrow> \<bar>rnd x - x\<bar> \<le> 1 / 2 ^ 24"
    and rnd_byte: "\<bar>x\<bar> < 512 \<Longrightarrow> \<bar>rnd x - x\<bar> \<le> 1 / 2 ^ 16"
    and rnd_quarter: "\<bar>n\<bar> \<le> 1024 \<Longrightarrow> rnd (of_int n / 4) = of_int n / 4"
begin

lemma rnd_quarters: "x = of_int n / 4 \<Longrightarrow> \<bar>n\<bar> \<le> 1024 \<Longrightarrow> rnd x = x"
  using rnd_quarter by metis

text \<open>A step of linear interpolation between two values of the unit interval.\<close>

lemma interpolation_near:
  assumes a: "\<bar>a - a'\<bar> \<le> d" "0 \<le> a'" "a' \<le> 1" and b: "\<bar>b - b'\<bar> \<le> d" "0 \<le> b'" "b' \<le> 1"
    and f: "0 \<le> f" "f \<le> 3 / 4" and d: "0 \<le> d" "d \<le> 1 / 2 ^ 20"
  shows "\<bar>rnd (255 * rnd (a + rnd (rnd (b - a) * f))) - 255 * (a' + (b' - a') * f)\<bar> \<le> 1 / 1000"
proof -
  define e :: rat where "e = 1 / 2 ^ 24"
  have e: "0 \<le> e" "e \<le> 1 / 16777216" by (simp_all add: e_def)
  have d': "d \<le> 1 / 1048576" using d(2) by simp
  define p where "p = rnd (b - a)"
  have p: "\<bar>p - (b - a)\<bar> \<le> e"
    unfolding p_def e_def by (rule rnd_unit) (use a b d' in linarith)
  have pf: "\<bar>p * f - (b - a) * f\<bar> \<le> e"
  proof -
    have "\<bar>p * f - (b - a) * f\<bar> = \<bar>p - (b - a)\<bar> * f" using f by (simp add: left_diff_distrib [symmetric] abs_mult)
    also have "\<dots> \<le> e * 1" using p f e by (intro mult_mono) simp_all
    finally show ?thesis by simp
  qed
  have bf: "\<bar>(b - a) * f - (b' - a') * f\<bar> \<le> 2 * d"
  proof -
    have "\<bar>(b - a) * f - (b' - a') * f\<bar> = \<bar>(b - a) - (b' - a')\<bar> * f"
      using f by (simp add: left_diff_distrib [symmetric] abs_mult)
    also have "\<dots> \<le> 2 * d * 1"
      using a b f d by (intro mult_mono) linarith+
    finally show ?thesis by simp
  qed
  have cf: "0 \<le> a' + (b' - a') * f" "a' + (b' - a') * f \<le> 1" "\<bar>(b' - a') * f\<bar> \<le> 1"
  proof -
    show "0 \<le> a' + (b' - a') * f" "a' + (b' - a') * f \<le> 1"
      using unit_mix [of a' b' f] a b f by simp_all
    have "\<bar>(b' - a') * f\<bar> \<le> 1 * 1"
      unfolding abs_mult using a b f by (intro mult_mono) linarith+
    then show "\<bar>(b' - a') * f\<bar> \<le> 1" by simp
  qed
  define t where "t = rnd (p * f)"
  have "\<bar>p * f\<bar> < 2" using pf bf cf(3) e d' by linarith
  then have t: "\<bar>t - p * f\<bar> \<le> e" unfolding t_def e_def by (rule rnd_unit)
  define s where "s = rnd (a + t)"
  have at: "\<bar>(a + t) - (a' + (b' - a') * f)\<bar> \<le> 2 * e + 3 * d" using t pf bf a by linarith
  then have "\<bar>a + t\<bar> < 2" using cf e d' by linarith
  then have "\<bar>s - (a + t)\<bar> \<le> e" unfolding s_def e_def by (rule rnd_unit)
  then have s: "\<bar>s - (a' + (b' - a') * f)\<bar> \<le> 3 * e + 3 * d" using at by linarith
  then have "\<bar>255 * s\<bar> < 512" using cf e d' by linarith
  then have "\<bar>rnd (255 * s) - 255 * s\<bar> \<le> 1 / 65536" using rnd_byte [of "255 * s"] by simp
  moreover obtain c where c: "a' + (b' - a') * f = c" by simp
  ultimately have "\<bar>rnd (255 * s) - 255 * c\<bar> \<le> 1 / 1000"
    using s [unfolded c] e d' by linarith
  then show ?thesis unfolding c s_def t_def p_def .
qed

end

lemma rnd32_unit: "\<bar>x\<bar> < 2 \<Longrightarrow> \<bar>rnd32 x - x\<bar> \<le> 1 / 2 ^ 24"
  unfolding rnd32_def using round_to_near [of x 0 "- 126" 24] by (simp add: pow2_def)

lemma rnd64_unit: "\<bar>x\<bar> < 2 \<Longrightarrow> \<bar>rnd64 x - x\<bar> \<le> 1 / 2 ^ 24"
  unfolding rnd64_def using round_to_near [of x 0 "- 1022" 53] by (simp add: pow2_def)

lemma rnd32_byte: "\<bar>x\<bar> < 512 \<Longrightarrow> \<bar>rnd32 x - x\<bar> \<le> 1 / 2 ^ 16"
  unfolding rnd32_def using round_to_near [of x 8 "- 126" 24] by (simp add: pow2_def)

lemma rnd32_quarter: "\<bar>n\<bar> \<le> 1024 \<Longrightarrow> rnd32 (of_int n / 4) = of_int n / 4"
proof -
  assume n: "\<bar>n\<bar> \<le> 1024"
  have "\<bar>of_int n / 4 :: rat\<bar> = of_int \<bar>n\<bar> / 4" by simp
  also have "\<dots> \<le> of_int 1024 / 4" using n by (intro divide_right_mono) (simp_all only: of_int_le_iff)
  finally have less: "\<bar>of_int n / 4 :: rat\<bar> < pow2 (8 + 1)" by (simp add: pow2_def)
  have eq: "of_int n / 4 = of_int n * pow2 (- 2)" by (simp add: pow2_def)
  show ?thesis unfolding rnd32_def by (rule round_to_exact [OF eq less]) simp_all
qed

interpretation single: float_rounding rnd32
  by unfold_locales (fact rnd32_unit rnd32_byte rnd32_quarter)+

text \<open>
  A decimal literal of the source is a \<^verbatim>\<open>double\<close>; it initialises an array element of type
  \<^verbatim>\<open>float\<close>.
\<close>

definition literal :: "rat \<Rightarrow> rat" where
  "literal x = rnd32 (rnd64 x)"

lemma literal_near:
  assumes "0 \<le> x" and "x \<le> 1"
  shows "\<bar>literal x - x\<bar> \<le> 1 / 2 ^ 20"
proof -
  have a: "\<bar>rnd64 x - x\<bar> \<le> 1 / 16777216" using rnd64_unit [of x] assms by simp
  then have "\<bar>rnd64 x\<bar> < 2" using assms by linarith
  then have "\<bar>rnd32 (rnd64 x) - rnd64 x\<bar> \<le> 1 / 16777216" using rnd32_unit [of "rnd64 x"] by simp
  with a have "\<bar>rnd32 (rnd64 x) - x\<bar> \<le> 1 / 1048576" by linarith
  then show ?thesis by (simp add: literal_def)
qed

end
