(* ===== verification/Float_Value.thy ===== *)
theory Float_Value
  imports Float_Round
begin

text \<open>
  The values of the types \<^verbatim>\<open>float\<close> and \<^verbatim>\<open>double\<close> and their representation in bits, as \<^verbatim>\<open>memcpy\<close> and
  \<^verbatim>\<open>memcmp\<close> see it: IEEE 754 binary formats, a sign bit, \<open>eb\<close> bits of exponent and the bits of the
  significand in a word of the whole width.  Operations are the exact ones followed by one
  rounding to nearest, without extra range or precision for intermediate results.  A conversion to an
  integer type that cannot hold the result is undefined, and so is the exponent that \<^verbatim>\<open>frexp\<close> gives for
  an infinity.
\<close>

datatype fval = Fin bool rat | Inf bool | Nan

text \<open>The widths of the two formats.\<close>

definition ieee :: "nat \<Rightarrow> 'a::len itself \<Rightarrow> bool" where
  "ieee eb t \<longleftrightarrow> eb = 8 \<and> LENGTH('a) = 32 \<or> eb = 11 \<and> LENGTH('a) = 64"

definition EBIAS :: "nat \<Rightarrow> int" where
  "EBIAS eb = 2 ^ (eb - 1) - 1"

definition sig_bits :: "nat \<Rightarrow> 'a::len itself \<Rightarrow> nat" where
  "sig_bits eb t = LENGTH('a) - 1 - eb"

definition fval_of :: "nat \<Rightarrow> 'a::len word \<Rightarrow> fval" where
  "fval_of eb x =
     (let k = sig_bits eb TYPE('a);
          s = bit x (LENGTH('a) - 1);
          e = uint (take_bit eb (drop_bit k x));
          f = uint (take_bit k x)
      in if e = 2 ^ eb - 1 then (if f = 0 then Inf s else Nan)
         else if e = 0 then Fin s (of_int f * pow2 (1 - EBIAS eb - int k))
         else Fin s (of_int (2 ^ k + f) * pow2 (e - EBIAS eb - int k)))"

text \<open>The bits of a representable value; of the not-a-number, those of the quiet one.\<close>

definition fval_bits :: "nat \<Rightarrow> fval \<Rightarrow> 'a::len word" where
  "fval_bits eb v =
     (let k = sig_bits eb TYPE('a);
          sign = (\<lambda>s. if s then 2 ^ (LENGTH('a) - 1) else 0)
      in word_of_int (case v of
           Fin s m \<Rightarrow>
             (if m = 0 then sign s
              else let e = max (binade m) (1 - EBIAS eb)
                   in sign s + (e + EBIAS eb - 1) * 2 ^ k + \<lfloor>m / pow2 (e - int k)\<rfloor>)
         | Inf s \<Rightarrow> sign s + (2 ^ eb - 1) * 2 ^ k
         | Nan \<Rightarrow> (2 ^ eb - 1) * 2 ^ k + 2 ^ (k - 1)))"

section \<open>Operations\<close>

definition frounded :: "nat \<Rightarrow> 'a::len itself \<Rightarrow> bool \<Rightarrow> rat \<Rightarrow> fval" where
  "frounded eb t s m =
     (let r = round_to (int (sig_bits eb t) + 1) (1 - EBIAS eb) m
      in if pow2 (EBIAS eb + 1) \<le> r then Inf s else Fin s r)"

definition fmult :: "nat \<Rightarrow> 'a::len itself \<Rightarrow> fval \<Rightarrow> fval \<Rightarrow> fval" where
  "fmult eb t a b =
     (case a of
        Nan \<Rightarrow> Nan
      | Inf s \<Rightarrow> (case b of Nan \<Rightarrow> Nan | Inf r \<Rightarrow> Inf (s \<noteq> r) | Fin r y \<Rightarrow> if y = 0 then Nan else Inf (s \<noteq> r))
      | Fin s x \<Rightarrow>
          (case b of Nan \<Rightarrow> Nan | Inf r \<Rightarrow> if x = 0 then Nan else Inf (s \<noteq> r)
           | Fin r y \<Rightarrow> frounded eb t (s \<noteq> r) (x * y)))"

definition fof_int :: "nat \<Rightarrow> 'a::len itself \<Rightarrow> int \<Rightarrow> fval" where
  "fof_int eb t i = frounded eb t (i < 0) (of_int \<bar>i\<bar>)"

text \<open>\<^verbatim>\<open>LDEXP(1, e)\<close>.\<close>

definition fldexp_1 :: "nat \<Rightarrow> 'a::len itself \<Rightarrow> int \<Rightarrow> fval" where
  "fldexp_1 eb t e = frounded eb t False (pow2 e)"

definition fabs_val :: "fval \<Rightarrow> fval" where
  "fabs_val v = (case v of Fin s m \<Rightarrow> Fin False m | Inf s \<Rightarrow> Inf False | Nan \<Rightarrow> Nan)"

text \<open>\<^verbatim>\<open>a < b\<close>; a comparison with a not-a-number is false.\<close>

definition signed :: "bool \<Rightarrow> rat \<Rightarrow> rat" where
  "signed s m = (if s then - m else m)"

definition fless :: "fval \<Rightarrow> fval \<Rightarrow> bool" where
  "fless a b =
     (case a of
        Nan \<Rightarrow> False
      | Inf s \<Rightarrow> (case b of Nan \<Rightarrow> False | Inf r \<Rightarrow> s \<and> \<not> r | Fin r y \<Rightarrow> s)
      | Fin s x \<Rightarrow> (case b of Nan \<Rightarrow> False | Inf r \<Rightarrow> \<not> r | Fin r y \<Rightarrow> signed s x < signed r y))"

definition fzero :: fval where
  "fzero = Fin False 0"

text \<open>The exponent of \<^verbatim>\<open>FREXP(x, &e)\<close> for a positive \<open>x\<close>: \<open>2\<^sup>e\<^sup>-\<^sup>1 \<le> x < 2\<^sup>e\<close>.\<close>

definition frexp_exp :: "fval \<Rightarrow> err + int" where
  "frexp_exp v = (case v of Fin s m \<Rightarrow> Inr (binade m + 1) | _ \<Rightarrow> Inl Undefined)"

text \<open>The conversion to a signed integer type truncates.\<close>

definition fto_int :: "fval \<Rightarrow> err + 'a::len word" where
  "fto_int v =
     (case v of
        Fin s m \<Rightarrow>
          let i = (if s then - \<lfloor>m\<rfloor> else \<lfloor>m\<rfloor>)
          in if - (2 ^ (LENGTH('a) - 1)) \<le> i \<and> i < 2 ^ (LENGTH('a) - 1) then Inr (word_of_int i) else Inl Undefined
      | _ \<Rightarrow> Inl Undefined)"

section \<open>Laws\<close>

lemma ieee_simps:
  assumes "ieee eb TYPE('a::len)"
  shows "sig_bits eb TYPE('a) + eb + 1 = LENGTH('a)" "0 < eb" "0 < sig_bits eb TYPE('a)"
    "int LENGTH('a) \<le> EBIAS eb" "EBIAS eb = 127 \<and> LENGTH('a) = 32 \<and> eb = 8 \<or> EBIAS eb = 1023 \<and> LENGTH('a) = 64 \<and> eb = 11"
  using assms by (auto simp: ieee_def sig_bits_def EBIAS_def)

lemma fval_of_Fin:
  fixes x :: "'a::len word"
  assumes "fval_of eb x = Fin s m"
  obtains e f where
    "m = (if e = 0 then of_int f * pow2 (1 - EBIAS eb - int (sig_bits eb TYPE('a)))
          else of_int (2 ^ sig_bits eb TYPE('a) + f) * pow2 (e - EBIAS eb - int (sig_bits eb TYPE('a))))"
    "0 \<le> f" "f < 2 ^ sig_bits eb TYPE('a)" "0 \<le> e" "e < 2 ^ eb - 1"
proof -
  let ?k = "sig_bits eb TYPE('a)"
  define e f where "e = uint (take_bit eb (drop_bit ?k x))" and "f = uint (take_bit ?k x)"
  have m: "m = (if e = 0 then of_int f * pow2 (1 - EBIAS eb - int ?k) else of_int (2 ^ ?k + f) * pow2 (e - EBIAS eb - int ?k))"
    and ne: "e \<noteq> 2 ^ eb - 1"
    using assms unfolding fval_of_def Let_def e_def [symmetric] f_def [symmetric]
    by (simp_all split: if_splits)
  have f: "f = take_bit ?k (uint x)" unfolding f_def by (rule unsigned_take_bit_eq)
  have e: "e = take_bit eb (uint (drop_bit ?k x))" unfolding e_def by (rule unsigned_take_bit_eq)
  have "0 \<le> f" "f < 2 ^ ?k" "0 \<le> e" "e < 2 ^ eb" unfolding e f by simp_all
  with ne have "e < 2 ^ eb - 1" by simp
  with m \<open>0 \<le> f\<close> \<open>f < 2 ^ ?k\<close> \<open>0 \<le> e\<close> show thesis by (rule that)
qed

lemma fval_of_nonneg: "fval_of eb x = Fin s m \<Longrightarrow> 0 \<le> m"
  by (elim fval_of_Fin) (auto intro!: mult_nonneg_nonneg)

text \<open>A finite value is smaller than every infinity would be.\<close>

lemma fval_of_bound:
  fixes x :: "'a::len word"
  assumes "ieee eb TYPE('a)" and "fval_of eb x = Fin s m"
  shows "m < pow2 (EBIAS eb + 1)"
proof -
  let ?k = "sig_bits eb TYPE('a)"
  obtain e f where m: "m = (if e = 0 then of_int f * pow2 (1 - EBIAS eb - int ?k)
      else of_int (2 ^ ?k + f) * pow2 (e - EBIAS eb - int ?k))"
    and f: "0 \<le> f" "f < 2 ^ ?k" and e: "0 \<le> e" "e < 2 ^ eb - 1"
    by (rule fval_of_Fin [OF assms(2)])
  have eb2: "2 ^ eb = 2 * EBIAS eb + 2" "1 \<le> EBIAS eb" using ieee_simps(5) [OF assms(1)] by auto
  have "of_int g * pow2 (i - int ?k) < pow2 (EBIAS eb + 1)" if "g < 2 * 2 ^ ?k" "i \<le> EBIAS eb" for g i
  proof -
    have "of_int g < (of_int (2 * 2 ^ ?k) :: rat)" using that(1) by (simp only: of_int_less_iff)
    then have "of_int g * pow2 (i - int ?k) < of_int (2 * 2 ^ ?k) * pow2 (i - int ?k)" by simp
    also have "\<dots> = 2 * pow2 i" using pow2_add_nat [of "i - int ?k" ?k] by simp
    also have "\<dots> = pow2 (i + 1)" by (simp add: pow2_Suc)
    also have "\<dots> \<le> pow2 (EBIAS eb + 1)" using that(2) by (intro pow2_mono) simp
    finally show ?thesis .
  qed
  note b = this
  show ?thesis
  proof (cases "e = 0")
    case True
    with b [of f "1 - EBIAS eb"] f eb2 show ?thesis unfolding m by simp
  next
    case False
    with b [of "2 ^ ?k + f" "e - EBIAS eb"] f e eb2 show ?thesis unfolding m by simp
  qed
qed

lemma frounded_small:
  fixes t :: "'a::len itself"
  assumes "ieee eb t" and "0 \<le> m" "m < pow2 (i + 1)" and "1 - EBIAS eb \<le> i" "i + 1 \<le> EBIAS eb"
  shows "\<exists>r. frounded eb t s m = Fin s r \<and> 0 \<le> r \<and> r < pow2 (i + 2)"
proof -
  let ?p = "int (sig_bits eb t) + 1"
  define r where "r = round_to ?p (1 - EBIAS eb) m"
  have near: "\<bar>r - m\<bar> \<le> pow2 (i - ?p)"
    unfolding r_def by (rule round_to_near) (use assms in simp_all)
  have "pow2 (i - ?p) \<le> pow2 (i + 1)" by (rule pow2_mono) simp
  then have "r < pow2 (i + 1) + pow2 (i + 1)" using near assms(3) by linarith
  also have "\<dots> = pow2 (i + 2)" using pow2_Suc [of "i + 1"] by (simp add: add.commute)
  finally have r: "r < pow2 (i + 2)" .
  also have "\<dots> \<le> pow2 (EBIAS eb + 1)" using assms(5) by (intro pow2_mono) simp
  finally have "\<not> pow2 (EBIAS eb + 1) \<le> r" by simp
  moreover have "0 \<le> r"
  proof (cases "m = 0")
    case False
    have "0 \<le> nearest (m / grid ?p (1 - EBIAS eb) m)"
    proof -
      have "0 \<le> m / grid ?p (1 - EBIAS eb) m" using assms(2) by (simp add: grid_def)
      then have "0 \<le> \<lfloor>m / grid ?p (1 - EBIAS eb) m\<rfloor>" by simp
      then show ?thesis unfolding nearest_def Let_def by auto
    qed
    then show ?thesis by (simp add: r_def round_to_def grid_def)
  qed (simp add: r_def round_to_def)
  ultimately show ?thesis using r by (simp add: frounded_def r_def [symmetric] Let_def)
qed

lemma fldexp_1_exact:
  fixes t :: "'a::len itself"
  assumes "ieee eb t" and "1 - EBIAS eb \<le> i" "i \<le> EBIAS eb"
  shows "fldexp_1 eb t i = Fin False (pow2 i)"
proof -
  have "round_to (int (sig_bits eb t) + 1) (1 - EBIAS eb) (pow2 i) = pow2 i"
    by (rule round_to_exact [where n = 1 and k = i and m = i]) (use assms in \<open>simp_all add: pow2_Suc\<close>)
  moreover have "pow2 i < pow2 (EBIAS eb + 1)"
    by (rule order_less_le_trans [of _ "pow2 (i + 1)"]) (use assms(3) in \<open>simp_all add: pow2_Suc pow2_mono\<close>)
  ultimately show ?thesis by (simp add: fldexp_1_def frounded_def)
qed

text \<open>A power of two that is too large becomes infinity.\<close>

lemma fldexp_1_overflow:
  fixes t :: "'a::len itself"
  assumes "ieee eb t" and "EBIAS eb < i"
  shows "fldexp_1 eb t i = Inf False"
proof -
  have "1 - EBIAS eb \<le> i" using assms by (auto simp: ieee_def EBIAS_def)
  then have "round_to (int (sig_bits eb t) + 1) (1 - EBIAS eb) (pow2 i) = pow2 i"
    by (intro round_to_exact [where n = 1 and k = i and m = i]) (simp_all add: pow2_Suc)
  moreover have "pow2 (EBIAS eb + 1) \<le> pow2 i" by (rule pow2_mono) (use assms(2) in simp)
  ultimately show ?thesis by (simp add: fldexp_1_def frounded_def)
qed

lemma fto_int_small:
  assumes "0 \<le> m" "m < pow2 (int LENGTH('a::len) - 1)"
  shows "\<exists>w. (fto_int (Fin s m) :: err + 'a word) = Inr w"
proof -
  have p: "0 < LENGTH('a)" by simp
  obtain P where P: "2 ^ (LENGTH('a) - 1) = (P :: int)" by simp
  have "0 < P" unfolding P [symmetric] by simp
  have "pow2 (int LENGTH('a) - 1) = of_int P"
    using p by (simp add: P [symmetric] pow2_def nat_diff_distrib)
  then have "\<lfloor>m\<rfloor> < P" using assms(2) by (simp only: floor_less_iff)
  moreover have "0 \<le> \<lfloor>m\<rfloor>" using assms(1) by simp
  ultimately have "- P \<le> (if s then - \<lfloor>m\<rfloor> else \<lfloor>m\<rfloor>) \<and> (if s then - \<lfloor>m\<rfloor> else \<lfloor>m\<rfloor>) < P"
    using \<open>0 < P\<close> by (auto simp del: floor_less_iff zero_le_floor)
  then show ?thesis unfolding fto_int_def Let_def fval.case P by simp
qed

text \<open>The bits of the value of a finite pattern are the pattern.\<close>

lemma binade_less:
  assumes "0 < x"
  shows "x < pow2 (binade x + 1)"
proof -
  obtain a b where q: "quotient_of x = (a, b)" by (cases "quotient_of x")
  have b: "0 < b" using quotient_of_denom_pos [OF q] .
  have x: "x = of_int a / of_int b" using quotient_of_div [OF q] .
  have a: "0 < a" using assms b x by (simp add: zero_less_divide_iff)
  let ?m = "floorlog 2 (nat a)" and ?n = "floorlog 2 (nat b)"
  define k where "k = int ?m - int ?n"
  have "nat a < 2 ^ ?m" "2 ^ (?n - 1) \<le> nat b"
    using floorlog_bounds [of "nat a" 2] floorlog_bounds [of "nat b" 2] a b by simp_all
  then have "a < 2 ^ ?m" "2 ^ (?n - 1) \<le> b"
    using a b by (simp_all add: le_nat_iff nat_less_iff)
  then have i: "of_int a < (of_int (2 ^ ?m) :: rat)" "(of_int (2 ^ (?n - 1)) :: rat) \<le> of_int b"
    by (simp_all only: of_int_less_iff of_int_le_iff)
  have "x < 2 ^ ?m / 2 ^ (?n - 1)"
    unfolding x using a b i by (intro frac_less) simp_all
  also have "\<dots> = pow2 (int ?m - int (?n - 1))" by (rule pow2_diff_nat [symmetric])
  also have "int ?m - int (?n - 1) = k + 1" using b by (simp add: k_def floorlog_def)
  finally have "x < pow2 (k + 1)" .
  then show ?thesis by (auto simp: binade_def q k_def [symmetric] Let_def not_le)
qed

lemma binade_eq:
  assumes "pow2 k \<le> x" and "x < pow2 (k + 1)"
  shows "binade x = k"
proof -
  have x: "0 < x" using assms(1) by (rule less_le_trans [OF pow2_pos(1)])
  have "pow2 (binade x) < pow2 (k + 1)" "pow2 k < pow2 (binade x + 1)"
    using binade_le [OF x] binade_less [OF x] assms by simp_all
  then have "binade x < k + 1" "k < binade x + 1" by (auto dest: pow2_less_cancel)
  then show ?thesis by simp
qed

lemma word_of_fields:
  fixes x :: "'a::len word"
  assumes "k + eb + 1 = LENGTH('a)"
  shows "word_of_int ((if bit x (LENGTH('a) - 1) then 2 ^ (LENGTH('a) - 1) else 0) +
    uint (take_bit eb (drop_bit k x)) * 2 ^ k + uint (take_bit k x)) = x"
proof -
  have w: "LENGTH('a) - 1 = k + eb" using assms by simp
  have "uint (take_bit eb (drop_bit k x)) = take_bit eb (drop_bit k (uint x))"
    by (simp only: unsigned_take_bit_eq unsigned_drop_bit_eq) (simp add: take_bit_drop_bit min_absorb1 assms [symmetric])
  moreover have "uint (take_bit k x) = take_bit k (uint x)" by (rule unsigned_take_bit_eq)
  moreover have "uint x = (if bit x (LENGTH('a) - 1) then 2 ^ (k + eb) else 0) + take_bit (k + eb) (uint x)"
  proof -
    have "take_bit (Suc (k + eb)) (uint x) = take_bit (k + eb) (uint x) + of_bool (bit (uint x) (k + eb)) * 2 ^ (k + eb)"
      by (simp add: take_bit_Suc_from_most)
    moreover have "take_bit (Suc (k + eb)) (uint x) = uint x" using assms by (intro take_bit_int_eq_self) simp_all
    moreover have "bit (uint x) (k + eb) = bit x (k + eb)" using assms by (simp add: bit_uint_iff)
    ultimately have "uint x = take_bit (k + eb) (uint x) + of_bool (bit x (k + eb)) * 2 ^ (k + eb)"
      by (simp only:)
    then show ?thesis unfolding w by (cases "bit x (k + eb)") simp_all
  qed
  moreover have "take_bit (k + eb) (uint x) = take_bit eb (drop_bit k (uint x)) * 2 ^ k + take_bit k (uint x)"
  proof -
    have "take_bit (k + eb) (uint x) =
        push_bit k (drop_bit k (take_bit (k + eb) (uint x))) + take_bit k (take_bit (k + eb) (uint x))"
      by (rule bits_ident [symmetric])
    then have "take_bit (k + eb) (uint x) = push_bit k (take_bit eb (drop_bit k (uint x))) + take_bit k (uint x)"
      by (simp only: drop_bit_take_bit take_bit_take_bit) simp
    then show ?thesis by (simp add: push_bit_eq_mult)
  qed
  ultimately show ?thesis unfolding w by (metis word_of_int_uint add.assoc)
qed

theorem fval_bits_of:
  fixes x :: "'a::len word"
  assumes "ieee eb TYPE('a)" and "fval_of eb x = Fin s m"
  shows "fval_bits eb (Fin s m) = x"
proof -
  let ?k = "sig_bits eb TYPE('a)"
  define e f where "e = uint (take_bit eb (drop_bit ?k x))" and "f = uint (take_bit ?k x)"
  have m: "m = (if e = 0 then of_int f * pow2 (1 - EBIAS eb - int ?k) else of_int (2 ^ ?k + f) * pow2 (e - EBIAS eb - int ?k))"
    and s: "s = bit x (LENGTH('a) - 1)"
    using assms(2) unfolding fval_of_def Let_def e_def [symmetric] f_def [symmetric]
    by (simp_all split: if_splits)
  have "f = take_bit ?k (uint x)" unfolding f_def by (rule unsigned_take_bit_eq)
  then have f: "0 \<le> f" "f < 2 ^ ?k" by simp_all
  have e0: "0 \<le> e" by (simp add: e_def)
  note x = word_of_fields [where x = x, OF ieee_simps(1) [OF assms(1)], folded e_def f_def s]
  have split: "of_int (2 ^ ?k) * pow2 (i - int ?k) = pow2 i" for i
    using pow2_add_nat [of "i - int ?k" ?k] by simp
  have enc: "\<lfloor>of_int g * pow2 (i - int ?k) / pow2 (i - int ?k)\<rfloor> = g" for g i by simp
  show ?thesis
  proof (cases "m = 0")
    case True
    have "of_int (2 ^ ?k + f) \<noteq> (0 :: rat)" using f(1) by (simp only: of_int_eq_0_iff) (smt (verit) zero_less_power)
    with True have "e = 0" "f = 0" using m by (auto split: if_splits simp del: of_int_add)
    with True x show ?thesis by (simp add: fval_bits_def Let_def)
  next
    case nz: False
    show ?thesis
    proof (cases "e = 0")
      case True
      then have m0: "m = of_int f * pow2 (1 - EBIAS eb - int ?k)" using m by simp
      with nz f have "0 < f" by (cases "f = 0") auto
      then have "0 < m" by (simp add: m0)
      have "of_int f < (of_int (2 ^ ?k) :: rat)" using f(2) by (simp only: of_int_less_iff)
      then have "m < of_int (2 ^ ?k) * pow2 (1 - EBIAS eb - int ?k)" unfolding m0 by simp
      also have "\<dots> = pow2 (- EBIAS eb + 1)" unfolding split by (simp add: algebra_simps)
      finally have "binade m \<le> - EBIAS eb" using \<open>0 < m\<close> by (intro binade_bound)
      then have mx: "max (binade m) (1 - EBIAS eb) = 1 - EBIAS eb" by simp
      have "fval_bits eb (Fin s m) = (word_of_int ((if s then 2 ^ (LENGTH('a) - 1) else 0) +
          (1 - EBIAS eb + EBIAS eb - 1) * 2 ^ ?k + f) :: 'a word)"
        unfolding fval_bits_def Let_def fval.case mx using nz enc [of f "1 - EBIAS eb"] m0 by simp
      with x True show ?thesis by simp
    next
      case False
      then have m0: "m = of_int (2 ^ ?k + f) * pow2 (e - EBIAS eb - int ?k)" using m by simp
      have "binade m = e - EBIAS eb"
      proof (rule binade_eq)
        have "(of_int (2 ^ ?k) :: rat) \<le> of_int (2 ^ ?k + f)" using f(1) by (simp only: of_int_le_iff)
        then show "pow2 (e - EBIAS eb) \<le> m"
          unfolding m0 split [of "e - EBIAS eb", symmetric] by (intro mult_right_mono) simp_all
        have "of_int (2 ^ ?k + f) < (of_int (2 * 2 ^ ?k) :: rat)" using f(2) by (simp only: of_int_less_iff)
        then have "m < of_int (2 * 2 ^ ?k) * pow2 (e - EBIAS eb - int ?k)" unfolding m0 by simp
        also have "\<dots> = 2 * pow2 (e - EBIAS eb)" using split [of "e - EBIAS eb"] by simp
        finally show "m < pow2 (e - EBIAS eb + 1)" by (simp add: pow2_Suc)
      qed
      then have mx: "max (binade m) (1 - EBIAS eb) = e - EBIAS eb" using False e0 by simp
      have "fval_bits eb (Fin s m) = (word_of_int ((if s then 2 ^ (LENGTH('a) - 1) else 0) +
          (e - EBIAS eb + EBIAS eb - 1) * 2 ^ ?k + (2 ^ ?k + f)) :: 'a word)"
        unfolding fval_bits_def Let_def fval.case mx using nz enc [of "2 ^ ?k + f" "e - EBIAS eb"] m0 by simp
      also have "(if s then 2 ^ (LENGTH('a) - 1) else 0) + (e - EBIAS eb + EBIAS eb - 1) * 2 ^ ?k + (2 ^ ?k + f) =
          (if s then 2 ^ (LENGTH('a) - 1) else 0) + e * 2 ^ ?k + f"
        by (simp add: algebra_simps)
      finally show ?thesis using x by simp
    qed
  qed
qed

end
