(* ===== verification/Zfp_Float.thy ===== *)
theory Zfp_Float
  imports Zfp_Coder Float_Value
begin

text \<open>
  Blocks of floating-point numbers, after \<^verbatim>\<open>codecf.c\<close>, \<^verbatim>\<open>revcodecf.c\<close>, \<^verbatim>\<open>encodef.c\<close>, \<^verbatim>\<open>decodef.c\<close>,
  \<^verbatim>\<open>revencodef.c\<close> and \<^verbatim>\<open>revdecodef.c\<close> in \<^verbatim>\<open>src/zfp-0.5.5/src/template\<close>.  A block is scaled to integers by a
  common power of two, and these are coded as in \<^verbatim>\<open>Zfp_Block\<close>.  In reversible mode the
  encoder tries this, undoes it and compares the bits; if they differ, the bits of the numbers are
  coded as integers.

  A number is the word of its bits; \<open>eb\<close> is the trait \<^verbatim>\<open>EBITS\<close> (\<^verbatim>\<open>traitsf.h\<close>, \<^verbatim>\<open>traitsd.h\<close>), \<open>nb\<close> and \<open>pbits\<close> are
  \<^verbatim>\<open>NBMASK\<close> and \<^verbatim>\<open>PBITS\<close>.  Local blocks are zero before they are written; none is read before.
\<close>

section \<open>Conversion of blocks\<close>

definition exponent :: "nat \<Rightarrow> fval \<Rightarrow> err + int" where
  "exponent eb x =
     (if fless fzero x then bind_res (frexp_exp x) (\<lambda>e. Inr (max e (1 - EBIAS eb)))
      else Inr (- EBIAS eb))"

primrec max_abs :: "nat \<Rightarrow> 'a::len word list \<Rightarrow> fval \<Rightarrow> fval" where
  "max_abs eb [] m = m"
| "max_abs eb (x # p) m = (let f = fabs_val (fval_of eb x) in max_abs eb p (if fless m f then f else m))"

definition exponent_block :: "nat \<Rightarrow> 'a::len word list \<Rightarrow> err + int" where
  "exponent_block eb p = exponent eb (max_abs eb p fzero)"

definition quantize_1 :: "nat \<Rightarrow> 'a::len itself \<Rightarrow> int \<Rightarrow> fval" where
  "quantize_1 eb t e = fldexp_1 eb t (int LENGTH('a) - 2 - e)"

definition dequantize_1 :: "nat \<Rightarrow> 'a::len itself \<Rightarrow> int \<Rightarrow> fval" where
  "dequantize_1 eb t e = fldexp_1 eb t (e - (int LENGTH('a) - 2))"

primrec cast_all :: "nat \<Rightarrow> fval \<Rightarrow> 'a::len word list \<Rightarrow> err + 'a word list" where
  "cast_all eb s [] = Inr []"
| "cast_all eb s (x # p) =
     bind_res (fto_int (fmult eb TYPE('a) s (fval_of eb x))) (\<lambda>i. bind_res (cast_all eb s p) (\<lambda>ib. Inr (i # ib)))"

definition fwd_cast :: "nat \<Rightarrow> 'a::len word list \<Rightarrow> int \<Rightarrow> err + 'a word list" where
  "fwd_cast eb p emax = cast_all eb (quantize_1 eb TYPE('a) emax) p"

definition inv_cast :: "nat \<Rightarrow> 'a::len word list \<Rightarrow> int \<Rightarrow> 'a word list" where
  "inv_cast eb ib emax =
     (let s = dequantize_1 eb TYPE('a) emax
      in List.map (\<lambda>i. fval_bits eb (fmult eb TYPE('a) s (fof_int eb TYPE('a) (sint i)))) ib)"

definition rev_fwd_cast :: "nat \<Rightarrow> 'a::len word list \<Rightarrow> int \<Rightarrow> err + 'a word list" where
  "rev_fwd_cast eb p emax = (if emax \<noteq> - EBIAS eb then fwd_cast eb p emax else Inr (List.map (\<lambda>_. 0) p))"

definition rev_inv_cast :: "nat \<Rightarrow> 'a::len word list \<Rightarrow> int \<Rightarrow> 'a word list" where
  "rev_inv_cast eb ib emax = (if emax \<noteq> - EBIAS eb then inv_cast eb ib emax else List.map (\<lambda>_. 0) ib)"

definition rev_fwd_reversible :: "nat \<Rightarrow> 'a::len word list \<Rightarrow> 'a word list \<Rightarrow> int \<Rightarrow> bool" where
  "rev_fwd_reversible eb ib p emax \<longleftrightarrow> p = rev_inv_cast eb ib emax"

definition TCMASK :: "'a::len word" where
  "TCMASK = mask (LENGTH('a) - 1)"

definition reinterpret :: "'a::len word \<Rightarrow> 'a word" where
  "reinterpret x = (if sint x < 0 then x XOR TCMASK else x)"

definition rev_fwd_reinterpret :: "'a::len word list \<Rightarrow> 'a word list" where
  "rev_fwd_reinterpret p = List.map reinterpret p"

definition rev_inv_reinterpret :: "'a::len word list \<Rightarrow> 'a word list" where
  "rev_inv_reinterpret ib = List.map reinterpret ib"

section \<open>Coders\<close>

text \<open>The planes to encode; the difference of the exponents is computed in type \<^verbatim>\<open>int\<close>.\<close>

definition precision :: "int \<Rightarrow> u32 \<Rightarrow> int \<Rightarrow> nat \<Rightarrow> err + nat" where
  "precision maxe mp mine dims =
     (let k = maxe - mine + 2 * (int dims + 1)
      in if - (2 ^ 31) \<le> maxe - mine \<and> maxe - mine < 2 ^ 31 \<and> k < 2 ^ 31
         then Inr (min (unat mp) (nat (max 0 k)))
         else Inl Undefined)"

text \<open>\<^verbatim>\<open>zfp->minbits - bits\<close> as an argument of type \<^verbatim>\<open>int\<close>.\<close>

definition less_bits :: "u32 \<Rightarrow> nat \<Rightarrow> int" where
  "less_bits m k = sint (m - word_of_nat k)"

definition rev_encode_ints_of ::
  "nat \<Rightarrow> 'a::len word \<Rightarrow> nat \<Rightarrow> zfp_stream \<Rightarrow> bitstream \<Rightarrow> nat \<Rightarrow> 'a word list \<Rightarrow> err + int \<times> zfp_stream" where
  "rev_encode_ints_of d nb pbits z s bits ib =
     bind_res (rev_encode_block d nb pbits s (less_bits (minbits z) bits) (less_bits (maxbits z) bits)
       (sint (maxprec z)) ib) (\<lambda>(n, s). Inr (int bits + n, z\<lparr>zs_bits := s\<rparr>))"

definition rev_encode_fblock ::
  "nat \<Rightarrow> nat \<Rightarrow> 'a::len word \<Rightarrow> nat \<Rightarrow> zfp_stream \<Rightarrow> 'a word list \<Rightarrow> err + int \<times> zfp_stream" where
  "rev_encode_fblock d eb nb pbits z p =
     bind_res (exponent_block eb p) (\<lambda>emax.
     bind_res (rev_fwd_cast eb p emax) (\<lambda>ib.
     if rev_fwd_reversible eb ib p emax
     then let e = to_uint (emax + EBIAS eb) in
       if e \<noteq> 0
       then bind_res (stream_write_bits (zs_bits z) 1 2) (\<lambda>(_, s).
            bind_res (stream_write_bits s (word_of_nat e) eb) (\<lambda>(_, s).
              rev_encode_ints_of d nb pbits z s (2 + eb) ib))
       else bind_res (stream_write_bit (zs_bits z) 0) (\<lambda>(_, s). Inr (1, z\<lparr>zs_bits := s\<rparr>))
     else bind_res (stream_write_bits (zs_bits z) 3 2) (\<lambda>(_, s).
            rev_encode_ints_of d nb pbits z s 1 (rev_fwd_reinterpret p))))"

definition encode_fblock ::
  "nat \<Rightarrow> nat \<Rightarrow> 'a::len word \<Rightarrow> zfp_stream \<Rightarrow> 'a word list \<Rightarrow> err + int \<times> zfp_stream" where
  "encode_fblock d eb nb z p =
     bind_res (exponent_block eb p) (\<lambda>emax.
     bind_res (precision emax (maxprec z) (minexp z) d) (\<lambda>prec.
     let e = (if prec \<noteq> 0 then to_uint (emax + EBIAS eb) else 0) in
     if e \<noteq> 0
     then let bits = 1 + eb in
       bind_res (stream_write_bits (zs_bits z) (word_of_nat (2 * e + 1)) bits) (\<lambda>(_, s).
       bind_res (fwd_cast eb p emax) (\<lambda>ib.
       bind_res (encode_block d nb s (less_bits (minbits z) bits) (less_bits (maxbits z) bits) (int prec) ib) (\<lambda>(n, s).
         Inr (int bits + n, z\<lparr>zs_bits := s\<rparr>))))
     else bind_res (stream_write_bit (zs_bits z) 0) (\<lambda>(_, s).
       if unat (minbits z) > 1
       then bind_res (stream_pad s (unat (minbits z) - 1)) (\<lambda>s. Inr (int (unat (minbits z)), z\<lparr>zs_bits := s\<rparr>))
       else Inr (1, z\<lparr>zs_bits := s\<rparr>))))"

definition zfp_encode_fblock ::
  "nat \<Rightarrow> nat \<Rightarrow> 'a::len word \<Rightarrow> nat \<Rightarrow> zfp_stream \<Rightarrow> 'a word list \<Rightarrow> err + int \<times> zfp_stream" where
  "zfp_encode_fblock d eb nb pbits z p =
     (if BLOCK_SIZE d \<le> length p
      then if is_reversible z then rev_encode_fblock d eb nb pbits z (take (BLOCK_SIZE d) p)
           else encode_fblock d eb nb z (take (BLOCK_SIZE d) p)
      else Inl Out_Of_Bounds)"

text \<open>The rest of a zero block, and where the decoded block goes.\<close>

definition skip_zero_block :: "nat \<Rightarrow> zfp_stream \<Rightarrow> bitstream \<Rightarrow> err + int \<times> 'a::len word list \<times> zfp_stream" where
  "skip_zero_block d z s =
     (let p = replicate (BLOCK_SIZE d) 0
      in if unat (minbits z) > 1
         then bind_res (stream_skip s (unat (minbits z) - 1)) (\<lambda>s. Inr (int (unat (minbits z)), p, z\<lparr>zs_bits := s\<rparr>))
         else Inr (1, p, z\<lparr>zs_bits := s\<rparr>))"

definition rev_decode_ints_of ::
  "nat \<Rightarrow> 'a::len word \<Rightarrow> nat \<Rightarrow> zfp_stream \<Rightarrow> bitstream \<Rightarrow> nat \<Rightarrow> err + int \<times> 'a word list \<times> bitstream" where
  "rev_decode_ints_of d nb pbits z s bits =
     bind_res (rev_decode_block d nb pbits s (less_bits (minbits z) bits) (less_bits (maxbits z) bits)
       (replicate (BLOCK_SIZE d) 0)) (\<lambda>(n, ib, s). Inr (int bits + n, ib, s))"

definition rev_decode_fblock ::
  "nat \<Rightarrow> nat \<Rightarrow> 'a::len word \<Rightarrow> nat \<Rightarrow> zfp_stream \<Rightarrow> err + int \<times> 'a word list \<times> zfp_stream" where
  "rev_decode_fblock d eb nb pbits z =
     bind_res (stream_read_bit (zs_bits z)) (\<lambda>(b, s).
     if b \<noteq> 0
     then bind_res (stream_read_bit s) (\<lambda>(b, s).
       if b \<noteq> 0
       then bind_res (rev_decode_ints_of d nb pbits z s 2) (\<lambda>(n, ib, s).
              Inr (n, rev_inv_reinterpret ib, z\<lparr>zs_bits := s\<rparr>))
       else bind_res (stream_read_bits s eb) (\<lambda>(e, s).
            let emax = sint (ucast e :: u32) - EBIAS eb in
            bind_res (rev_decode_ints_of d nb pbits z s (2 + eb)) (\<lambda>(n, ib, s).
              Inr (n, rev_inv_cast eb ib emax, z\<lparr>zs_bits := s\<rparr>))))
     else skip_zero_block d z s)"

definition decode_fblock ::
  "nat \<Rightarrow> nat \<Rightarrow> 'a::len word \<Rightarrow> zfp_stream \<Rightarrow> err + int \<times> 'a word list \<times> zfp_stream" where
  "decode_fblock d eb nb z =
     bind_res (stream_read_bit (zs_bits z)) (\<lambda>(b, s).
     if b \<noteq> 0
     then let bits = 1 + eb in
       bind_res (stream_read_bits s eb) (\<lambda>(e, s).
       let emax = sint (ucast e :: u32) - EBIAS eb in
       bind_res (precision emax (maxprec z) (minexp z) d) (\<lambda>prec.
       bind_res (decode_block d nb s (less_bits (minbits z) bits) (less_bits (maxbits z) bits) (int prec)
         (replicate (BLOCK_SIZE d) 0)) (\<lambda>(n, ib, s).
         Inr (int bits + n, inv_cast eb ib emax, z\<lparr>zs_bits := s\<rparr>))))
     else skip_zero_block d z s)"

definition zfp_decode_fblock ::
  "nat \<Rightarrow> nat \<Rightarrow> 'a::len word \<Rightarrow> nat \<Rightarrow> zfp_stream \<Rightarrow> 'a word list \<Rightarrow> err + int \<times> 'a word list \<times> zfp_stream" where
  "zfp_decode_fblock d eb nb pbits z p =
     (if BLOCK_SIZE d \<le> length p
      then bind_res (if is_reversible z then rev_decode_fblock d eb nb pbits z else decode_fblock d eb nb z)
             (\<lambda>(n, q, z). Inr (n, q @ drop (BLOCK_SIZE d) p, z))
      else Inl Out_Of_Bounds)"

section \<open>Exponents and conversions\<close>

text \<open>
  A number the coder can scale: zero, or not so small that the factor \<open>2\<^sup>w\<^sup>-\<^sup>2\<^sup>-\<^sup>e\<close> overflows.
\<close>

definition scalable :: "nat \<Rightarrow> 'a::len word \<Rightarrow> bool" where
  "scalable eb x =
     (case fval_of eb x of Fin s m \<Rightarrow> m = 0 \<or> pow2 (int LENGTH('a) - 3 - EBIAS eb) \<le> m | _ \<Rightarrow> False)"

lemma scalable_Fin:
  "scalable eb (x :: 'a::len word) \<longleftrightarrow>
     (\<exists>s m. fval_of eb x = Fin s m \<and> (m = 0 \<or> pow2 (int LENGTH('a) - 3 - EBIAS eb) \<le> m))"
  by (simp add: scalable_def split: fval.splits)

lemma max_abs_ok:
  "(\<And>x. x \<in> set p \<Longrightarrow> \<exists>s m. fval_of eb x = Fin s m) \<Longrightarrow>
   \<exists>M. max_abs eb p (Fin False m0) = Fin False M \<and> m0 \<le> M \<and>
     (\<forall>x\<in>set p. \<forall>s m. fval_of eb x = Fin s m \<longrightarrow> m \<le> M) \<and> (M = m0 \<or> (\<exists>x\<in>set p. \<exists>s. fval_of eb x = Fin s M))"
proof (induction p arbitrary: m0)
  case (Cons x p)
  obtain s m where x: "fval_of eb x = Fin s m" using Cons.prems [of x] by auto
  let ?m = "max m m0"
  have "\<exists>M. max_abs eb p (Fin False ?m) = Fin False M \<and> ?m \<le> M \<and>
     (\<forall>x\<in>set p. \<forall>s m. fval_of eb x = Fin s m \<longrightarrow> m \<le> M) \<and> (M = ?m \<or> (\<exists>x\<in>set p. \<exists>s. fval_of eb x = Fin s M))"
    by (rule Cons.IH) (use Cons.prems in simp)
  then obtain M where M: "max_abs eb p (Fin False ?m) = Fin False M" "?m \<le> M"
    "\<forall>x\<in>set p. \<forall>s m. fval_of eb x = Fin s m \<longrightarrow> m \<le> M" "M = ?m \<or> (\<exists>x\<in>set p. \<exists>s. fval_of eb x = Fin s M)" by blast
  have "max_abs eb (x # p) (Fin False m0) = max_abs eb p (Fin False ?m)"
    by (simp add: x fabs_val_def fless_def signed_def Let_def max_def)
  with M x show ?case by (intro exI [of _ M]) (auto simp: max_def split: if_splits)
qed simp

lemma pow2_le_binade: "0 < x \<Longrightarrow> pow2 j \<le> x \<Longrightarrow> j \<le> binade x"
  using binade_less [of x] pow2_less_cancel [of j "binade x + 1"] by simp

lemma exponent_block_ok:
  fixes p :: "'a::len word list"
  assumes ieee: "ieee eb TYPE('a)" and p: "\<forall>x\<in>set p. scalable eb x"
  shows "exponent_block eb p = Inr (- EBIAS eb) \<or>
    (\<exists>e. exponent_block eb p = Inr e \<and> int LENGTH('a) - 2 - EBIAS eb \<le> e \<and> e \<le> EBIAS eb + 1 \<and>
      (\<forall>x\<in>set p. \<forall>s m. fval_of eb x = Fin s m \<longrightarrow> m < pow2 e))"
proof -
  have fin: "\<exists>s m. fval_of eb x = Fin s m" if "x \<in> set p" for x using p that by (auto simp: scalable_Fin)
  from max_abs_ok [where p = p and eb = eb and ?m0.0 = 0, OF fin] obtain M where M: "max_abs eb p fzero = Fin False M" "0 \<le> M"
    "\<forall>x\<in>set p. \<forall>s m. fval_of eb x = Fin s m \<longrightarrow> m \<le> M" "M = 0 \<or> (\<exists>x\<in>set p. \<exists>s. fval_of eb x = Fin s M)"
    by (auto simp: fzero_def)
  have E: "exponent_block eb p = exponent eb (Fin False M)" by (simp only: exponent_block_def M(1))
  show ?thesis
  proof (cases "M = 0")
    case True
    then show ?thesis by (simp add: E exponent_def fless_def fzero_def signed_def)
  next
    case False
    then obtain x s where x: "x \<in> set p" "fval_of eb x = Fin s M" using M(4) by blast
    have pos: "0 < M" using False M(2) by simp
    have "pow2 (int LENGTH('a) - 3 - EBIAS eb) \<le> M" using p x False by (auto simp: scalable_Fin)
    then have lo: "int LENGTH('a) - 3 - EBIAS eb \<le> binade M" by (rule pow2_le_binade [OF pos])
    have hi: "binade M \<le> EBIAS eb" by (rule binade_bound [OF pos fval_of_bound [OF ieee x(2)]])
    let ?e = "max (binade M + 1) (1 - EBIAS eb)"
    have e: "exponent_block eb p = Inr ?e"
      using pos by (simp add: E exponent_def fless_def fzero_def signed_def frexp_exp_def)
    have "M < pow2 ?e"
      by (rule less_le_trans [OF binade_less [OF pos] pow2_mono]) simp
    with M(3) have "\<forall>x\<in>set p. \<forall>s m. fval_of eb x = Fin s m \<longrightarrow> m < pow2 ?e" by force
    with e lo hi ieee_simps(5) [OF ieee] show ?thesis by (intro disjI2 exI [of _ ?e]) auto
  qed
qed

lemma cast_all_ok:
  fixes p :: "'a::len word list"
  assumes ieee: "ieee eb TYPE('a)" and s: "s = Fin False (pow2 (int LENGTH('a) - 2 - e))"
    and p: "\<forall>x\<in>set p. \<exists>r m. fval_of eb x = Fin r m \<and> 0 \<le> m \<and> m < pow2 e"
  shows "\<exists>ib. cast_all eb s p = Inr ib \<and> length ib = length p"
  using p
proof (induction p)
  case (Cons x p)
  then obtain r m where x: "fval_of eb x = Fin r m" "0 \<le> m" "m < pow2 e" by auto
  let ?w = "int LENGTH('a)"
  have w: "1 - EBIAS eb \<le> ?w - 3" "?w - 3 + 1 \<le> EBIAS eb" using ieee_simps(5) [OF ieee] by auto
  have "pow2 (?w - 2 - e) * m < pow2 (?w - 2 - e) * pow2 e" using x(3) by simp
  also have "\<dots> = pow2 (?w - 3 + 1)" by (simp add: pow2_add [symmetric])
  finally have "pow2 (?w - 2 - e) * m < pow2 (?w - 3 + 1)" .
  from frounded_small [OF ieee _ this w] x(2) obtain v where
    v: "frounded eb TYPE('a) r (pow2 (?w - 2 - e) * m) = Fin r v" "0 \<le> v" "v < pow2 (?w - 3 + 2)" by auto
  have "v < pow2 (?w - 1)" using v(3) by simp
  from fto_int_small [OF v(2) this, of r] obtain i :: "'a word" where "fto_int (Fin r v) = Inr i" by blast
  moreover have "fmult eb TYPE('a) s (fval_of eb x) = Fin r v" using v(1) by (simp add: fmult_def s x(1))
  ultimately show ?case using Cons by auto
qed simp

lemma fwd_cast_ok:
  fixes p :: "'a::len word list"
  assumes ieee: "ieee eb TYPE('a)" and e: "int LENGTH('a) - 2 - EBIAS eb \<le> e" "e \<le> EBIAS eb + 1"
    and p: "\<forall>x\<in>set p. scalable eb x" "\<forall>x\<in>set p. \<forall>s m. fval_of eb x = Fin s m \<longrightarrow> m < pow2 e"
  shows "\<exists>ib. fwd_cast eb p e = Inr ib \<and> length ib = length p"
proof -
  have "quantize_1 eb TYPE('a) e = Fin False (pow2 (int LENGTH('a) - 2 - e))"
    unfolding quantize_1_def by (rule fldexp_1_exact [OF ieee]) (use e ieee_simps(5) [OF ieee] in auto)
  moreover have "\<exists>r m. fval_of eb x = Fin r m \<and> 0 \<le> m \<and> m < pow2 e" if x: "x \<in> set p" for x
  proof -
    obtain r m where "fval_of eb x = Fin r m" using p(1) x by (auto simp: scalable_Fin)
    with p(2) x fval_of_nonneg show ?thesis by blast
  qed
  ultimately show ?thesis unfolding fwd_cast_def by (intro cast_all_ok [OF ieee]) blast+
qed

text \<open>
  Blocks that have no defined conversion: the exponent of an infinity is unspecified, and where all numbers
  are tiny, the factor is infinite and no product fits an integer.
\<close>

definition unscalable :: "nat \<Rightarrow> 'a::len word list \<Rightarrow> bool" where
  "unscalable eb p \<longleftrightarrow> (\<exists>x\<in>set p. \<exists>s. fval_of eb x = Inf s) \<or>
     (\<forall>x\<in>set p. \<exists>s m. fval_of eb x = Fin s m \<and> m < pow2 (int LENGTH('a) - 3 - EBIAS eb)) \<and>
     (\<exists>x\<in>set p. \<exists>s m. fval_of eb x = Fin s m \<and> m \<noteq> 0)"

lemma max_abs_Inf [simp]: "max_abs eb p (Inf False) = Inf False"
  by (induction p) (auto simp: fabs_val_def fless_def Let_def split: fval.split)

lemma max_abs_inf:
  "x \<in> set p \<Longrightarrow> fval_of eb x = Inf s \<Longrightarrow> max_abs eb p (Fin False m0) = Inf False"
proof (induction p arbitrary: m0)
  case (Cons y p)
  consider "fval_of eb y = Nan" | r where "fval_of eb y = Inf r" | r m where "fval_of eb y = Fin r m" by (cases "fval_of eb y")
  then show ?case
  proof cases
    case 1
    then have "x \<in> set p" using Cons.prems by auto
    then have "max_abs eb p (Fin False m0) = Inf False" by (rule Cons.IH [OF _ Cons.prems(2)])
    with 1 show ?thesis by (simp add: fabs_val_def fless_def)
  next
    case 2
    then show ?thesis by (simp add: fabs_val_def fless_def)
  next
    case 3
    then have "x \<in> set p" using Cons.prems by auto
    with Cons.IH [OF this Cons.prems(2)] 3 show ?thesis by (simp add: fabs_val_def Let_def)
  qed
qed simp

lemma unscalable_cast:
  fixes p :: "'a::len word list"
  assumes ieee: "ieee eb TYPE('a)" and p: "unscalable eb p"
  shows "bind_res (exponent_block eb p) (rev_fwd_cast eb p) = Inl Undefined"
proof (cases "\<exists>x\<in>set p. \<exists>s. fval_of eb x = Inf s")
  case True
  then obtain x s where "x \<in> set p" "fval_of eb x = Inf s" by blast
  from max_abs_inf [OF this] show ?thesis
    by (simp add: exponent_block_def exponent_def fzero_def fless_def frexp_exp_def)
next
  case False
  let ?t = "int LENGTH('a) - 3 - EBIAS eb"
  from False p obtain x0 s0 m1 where fin: "\<And>x. x \<in> set p \<Longrightarrow> \<exists>s m. fval_of eb x = Fin s m \<and> m < pow2 ?t"
    and x0: "x0 \<in> set p" "fval_of eb x0 = Fin s0 m1" "m1 \<noteq> 0"
    by (auto simp: unscalable_def)
  have "\<exists>s m. fval_of eb x = Fin s m" if "x \<in> set p" for x using fin [OF that] by blast
  from max_abs_ok [where p = p and eb = eb and ?m0.0 = 0, OF this] obtain M where
    M: "max_abs eb p fzero = Fin False M" "0 \<le> M" "\<forall>x\<in>set p. \<forall>s m. fval_of eb x = Fin s m \<longrightarrow> m \<le> M"
      "M = 0 \<or> (\<exists>x\<in>set p. \<exists>s. fval_of eb x = Fin s M)"
    by (auto simp: fzero_def)
  have "0 < m1" using fval_of_nonneg [OF x0(2)] x0(3) by simp
  then have pos: "0 < M" using M(3) x0 by force
  with M(4) fin have "M < pow2 ?t" by fastforce
  then have "pow2 (binade M) < pow2 ?t" by (rule le_less_trans [OF binade_le [OF pos]])
  then have b: "binade M < ?t" by (rule pow2_less_cancel)
  let ?e = "max (binade M + 1) (1 - EBIAS eb)"
  have e: "exponent_block eb p = Inr ?e"
    using pos unfolding exponent_block_def M(1)
    by (simp add: exponent_def fless_def fzero_def signed_def frexp_exp_def)
  have w: "1 - EBIAS eb < ?t + 1" using ieee_simps(5) [OF ieee] by auto
  have "quantize_1 eb TYPE('a) ?e = Inf False"
    unfolding quantize_1_def by (rule fldexp_1_overflow [OF ieee]) (use b w in linarith)
  moreover obtain x q where q: "p = x # q" using x0(1) by (cases p) auto
  moreover obtain s m where "fval_of eb x = Fin s m" using fin [of x] q by auto
  ultimately have "fwd_cast eb p ?e = Inl Undefined" by (simp add: fwd_cast_def fmult_def fto_int_def)
  with e show ?thesis by (simp add: rev_fwd_cast_def)
qed

lemma unscalable_block:
  fixes p :: "'a::len word list"
  assumes "ieee eb TYPE('a)" and "unscalable eb p" and "is_reversible z" and "length p = BLOCK_SIZE d"
  shows "zfp_encode_fblock d eb nb pbits z p = Inl Undefined"
proof -
  have "bind_res (exponent_block eb p) (\<lambda>e. bind_res (rev_fwd_cast eb p e) (f e)) = Inl Undefined" for f :: "int \<Rightarrow> _ \<Rightarrow> err + int \<times> zfp_stream"
    using unscalable_cast [OF assms(1,2)] by (cases "exponent_block eb p") auto
  with assms(3,4) show ?thesis by (simp add: zfp_encode_fblock_def rev_encode_fblock_def)
qed

lemma reinterpret_inverse [simp]: "reinterpret (reinterpret x) = (x :: 'a::len word)"
proof -
  have "sint (x XOR TCMASK) < 0 \<longleftrightarrow> sint x < 0"
    unfolding bit_last_iff [symmetric] by (simp add: bit_xor_iff TCMASK_def bit_mask_iff)
  then show ?thesis by (simp add: reinterpret_def xor.assoc)
qed

lemma rev_inv_reinterpret_fwd [simp]: "rev_inv_reinterpret (rev_fwd_reinterpret p) = p"
  by (simp add: rev_inv_reinterpret_def rev_fwd_reinterpret_def comp_def)

section \<open>The reversible coder\<close>

text \<open>The limits that are left for the integers after \<open>k\<close> bits in front of them.\<close>

lemma rev_mode_values:
  assumes "rev_mode z"
  shows "is_reversible z" "minbits z = 1" "sint (maxprec z) = 64"
    "k \<in> {1, 2, 10, 13} \<Longrightarrow> less_bits (minbits z) k = 1 - int k \<and> less_bits (maxbits z) k = 16657 - int k"
proof -
  obtain y where z: "z = zfp_stream_set_reversible y" using assms by (metis rev_mode_def)
  show "is_reversible z" "minbits z = 1" "sint (maxprec z) = 64"
    "k \<in> {1, 2, 10, 13} \<Longrightarrow> less_bits (minbits z) k = 1 - int k \<and> less_bits (maxbits z) k = 16657 - int k"
    unfolding z by (auto simp: zfp_stream_set_reversible_def is_reversible_def less_bits_def)
qed

text \<open>The integers of a block after \<open>k\<close> bits.\<close>

lemma rev_ints_code:
  fixes b :: "'a::len word list"
  assumes C: "int_code d nb pbits b C" and z: "rev_mode z" and k: "k \<in> {1, 2, 10, 13}"
    and l: "LENGTH('a) \<le> 64" "(LENGTH('a) + 1) * BLOCK_SIZE d + pbits + k \<le> 16657"
  shows "bs_ok s \<Longrightarrow> length C \<le> room s \<Longrightarrow>
      \<exists>n s'. rev_encode_ints_of d nb pbits z s k b = Inr (n, z\<lparr>zs_bits := s'\<rparr>) \<and> bs_ok s' \<and>
        written s' = written s @ C \<and> room s' + length C = room s"
    and "reading s \<Longrightarrow> unread s = C @ rest \<Longrightarrow>
      \<exists>n s'. rev_decode_ints_of d nb pbits z s k = Inr (n, b, s') \<and> reading s' \<and> unread s' = rest \<and>
        bs_mem s' = bs_mem s"
proof -
  note v = rev_mode_values [OF z]
  have "int ((LENGTH('a) + 1) * BLOCK_SIZE d + pbits + k) \<le> int 16657" using l(2) by (rule iffD2 [OF of_nat_le_iff])
  then have h: "less_bits (minbits z) k \<le> 1" "less_bits (maxbits z) k < 2 ^ 31"
      "int ((LENGTH('a) + 1) * BLOCK_SIZE d) \<le> less_bits (maxbits z) k - int pbits"
    using v(4) [OF k] by simp_all
  have p: "int LENGTH('a) \<le> sint (maxprec z)" using l(1) v(3) by simp
  show "\<exists>n s'. rev_encode_ints_of d nb pbits z s k b = Inr (n, z\<lparr>zs_bits := s'\<rparr>) \<and> bs_ok s' \<and>
      written s' = written s @ C \<and> room s' + length C = room s"
    if s: "bs_ok s" "length C \<le> room s"
  proof -
    obtain s' where "rev_encode_block d nb pbits s (less_bits (minbits z) k) (less_bits (maxbits z) k) (sint (maxprec z)) b =
        Inr (int (length C), s')" "bs_ok s'" "written s' = written s @ C" "room s' + length C = room s"
      using C s h p unfolding int_code_def by blast
    then show ?thesis by (auto simp: rev_encode_ints_of_def)
  qed
  show "\<exists>n s'. rev_decode_ints_of d nb pbits z s k = Inr (n, b, s') \<and> reading s' \<and> unread s' = rest \<and>
      bs_mem s' = bs_mem s"
    if s: "reading s" "unread s = C @ rest"
  proof -
    have "length (replicate (BLOCK_SIZE d) (0 :: 'a word)) = BLOCK_SIZE d" by simp
    with C s h obtain s' where
      "rev_decode_block d nb pbits s (less_bits (minbits z) k) (less_bits (maxbits z) k) (replicate (BLOCK_SIZE d) 0) =
        Inr (int (length C), b, s')" "reading s'" "unread s' = rest" "bs_mem s' = bs_mem s"
      unfolding int_code_def by blast
    then show ?thesis by (auto simp: rev_decode_ints_of_def)
  qed
qed

lemma write_bits_ready:
  assumes "bs_ok s" and "n \<le> 64" and "n \<le> room s"
  obtains s' where "stream_write_bits s v n = Inr (drop_bit n v, s')" "bs_ok s'" "written s' = written s @ word_bits n v"
    "room s' + n = room s"
  using write_bits_room [OF assms] by blast

lemma read_bits_ready:
  assumes "reading s" and "n \<le> 64" and "unread s = word_bits n v @ r"
  obtains s' where "stream_read_bits s n = Inr (take_bit n v, s')" "reading s'" "unread s' = r" "bs_mem s' = bs_mem s"
  using read_bits_reading [OF assms] by blast

lemma read_bit_ready:
  assumes "reading s" and "unread s = x # r"
  obtains s' where "stream_read_bit s = Inr (of_bool x, s')" "reading s'" "unread s' = r" "bs_mem s' = bs_mem s"
proof -
  have "bs_ok s" using assms(1) by (simp add: reading_def)
  from read_bit_ok [OF this assms(2)] obtain s' where s': "stream_read_bit s = Inr (of_bool x, s')" "bs_ok s'"
    "bs_mem s' = bs_mem s" "unread s' = r" by blast
  have "reading s'" using reading_step [OF assms(1) s'(2,3), of "[x]"] assms(2) s'(4) by simp
  with s' that show thesis by blast
qed

text \<open>A block whose bits are coded: two one bits, and the code of the integers.\<close>

lemma reinterpreted_block:
  fixes p :: "'a::len word list"
  assumes p: "length p = BLOCK_SIZE d" and C: "int_code d nb pbits (rev_fwd_reinterpret p) C"
    and l: "LENGTH('a) \<le> 64" "(LENGTH('a) + 1) * BLOCK_SIZE d + pbits + 2 \<le> 16657"
    and e: "exponent_block eb p = Inr emax" "rev_fwd_cast eb p emax = Inr ib" "\<not> rev_fwd_reversible eb ib p emax"
  shows "carries (zfp_encode_fblock d eb nb pbits) (zfp_decode_fblock d eb nb pbits) p (word_bits 2 3 @ C)"
proof (rule carriesI)
  fix z
  assume z: "rev_mode z"
  show "\<exists>n s. zfp_encode_fblock d eb nb pbits z p = Inr (n, z\<lparr>zs_bits := s\<rparr>) \<and> bs_ok s \<and>
      written s = written (zs_bits z) @ word_bits 2 3 @ C \<and> room s + length (word_bits 2 3 @ C) = room (zs_bits z)"
    if s: "bs_ok (zs_bits z)" "length (word_bits 2 3 @ C) \<le> room (zs_bits z)"
  proof -
    obtain s1 where s1: "stream_write_bits (zs_bits z) 3 2 = Inr (drop_bit 2 3, s1)" "bs_ok s1"
        "written s1 = written (zs_bits z) @ word_bits 2 3" "room s1 + 2 = room (zs_bits z)"
      by (rule write_bits_ready [OF s(1), of 2 3]) (use s(2) in simp_all)
    have "length C \<le> room s1" using s1(4) s(2) by simp
    from rev_ints_code(1) [OF C z _ l(1) _ s1(2) this, of 1] l(2) obtain n s2 where
      "rev_encode_ints_of d nb pbits z s1 1 (rev_fwd_reinterpret p) = Inr (n, z\<lparr>zs_bits := s2\<rparr>)" "bs_ok s2"
      "written s2 = written s1 @ C" "room s2 + length C = room s1" by auto
    with s1 e rev_mode_values(1) [OF z] show ?thesis
      by (intro exI [of _ n] exI [of _ s2]) (simp add: zfp_encode_fblock_def rev_encode_fblock_def p)
  qed
  show "\<exists>n s. zfp_decode_fblock d eb nb pbits z b' = Inr (n, p, z\<lparr>zs_bits := s\<rparr>) \<and> reading s \<and> unread s = rest \<and>
      bs_mem s = bs_mem (zs_bits z)"
    if s: "reading (zs_bits z)" "length b' = length p" "unread (zs_bits z) = (word_bits 2 3 @ C) @ rest" for b' rest
  proof -
    have u: "unread (zs_bits z) = True # True # C @ rest" using s(3) by (simp add: word_bits_def numeral_2_eq_2)
    obtain s1 where s1: "stream_read_bit (zs_bits z) = Inr (of_bool True, s1)" "reading s1" "unread s1 = True # C @ rest"
        "bs_mem s1 = bs_mem (zs_bits z)"
      by (rule read_bit_ready [OF s(1) u])
    obtain s2 where s2: "stream_read_bit s1 = Inr (of_bool True, s2)" "reading s2" "unread s2 = C @ rest"
        "bs_mem s2 = bs_mem s1"
      by (rule read_bit_ready [OF s1(2,3)])
    from rev_ints_code(2) [OF C z _ l(1) _ s2(2,3), of 2] l(2) obtain n s3 where
      "rev_decode_ints_of d nb pbits z s2 2 = Inr (n, rev_fwd_reinterpret p, s3)" "reading s3" "unread s3 = rest"
      "bs_mem s3 = bs_mem s2" by auto
    with s1 s2 s(2) p rev_mode_values(1) [OF z] show ?thesis
      by (intro exI [of _ n] exI [of _ s3]) (simp add: zfp_decode_fblock_def rev_decode_fblock_def)
  qed
qed

text \<open>A block that is scaled: the bits \<open>10\<close>, the exponent, and the code of the integers.\<close>

lemma scaled_block:
  fixes p :: "'a::len word list"
  assumes ieee: "ieee eb TYPE('a)" and p: "length p = BLOCK_SIZE d" and C: "int_code d nb pbits ib C"
    and l: "(LENGTH('a) + 1) * BLOCK_SIZE d + pbits + (2 + eb) \<le> 16657"
    and e: "exponent_block eb p = Inr emax" "rev_fwd_cast eb p emax = Inr ib" "rev_fwd_reversible eb ib p emax"
    and b: "- EBIAS eb < emax" "emax \<le> EBIAS eb + 1"
  shows "carries (zfp_encode_fblock d eb nb pbits) (zfp_decode_fblock d eb nb pbits) p
    (word_bits 2 1 @ word_bits eb (word_of_nat (to_uint (emax + EBIAS eb))) @ C)"
proof -
  define v :: u64 where "v = word_of_nat (to_uint (emax + EBIAS eb))"
  have eb: "eb \<le> 64" "2 + eb \<in> {1, 2, 10, 13}" "LENGTH('a) \<le> 64" using ieee by (auto simp: ieee_def)
  have E: "emax + EBIAS eb < 2 ^ eb" "2 ^ eb < (2 ^ 31 :: int)"
    using b(2) ieee by (auto simp: ieee_def EBIAS_def)
  have ev: "to_uint (emax + EBIAS eb) = nat (emax + EBIAS eb)" using b(1) E by (simp add: to_uint_int)
  have e0: "to_uint (emax + EBIAS eb) \<noteq> 0" using b(1) by (simp add: ev)
  have emax: "sint (ucast (take_bit eb v) :: u32) - EBIAS eb = emax"
  proof -
    have n: "nat (emax + EBIAS eb) < 2 ^ eb" using b(1) E(1) by (simp add: nat_less_iff)
    have n31: "nat (emax + EBIAS eb) < 2 ^ 31" using b(1) E by (simp add: nat_less_iff)
    then have u: "unat v = nat (emax + EBIAS eb)" by (simp add: v_def ev unat_of_nat take_bit_nat_eq_self)
    then have t: "unat (take_bit eb v) = nat (emax + EBIAS eb)"
      using n by (simp add: unsigned_take_bit_eq take_bit_nat_eq_self)
    have "(ucast (take_bit eb v) :: u32) = word_of_nat (unat (take_bit eb v))" by (rule of_nat_unat [symmetric])
    then have c: "(ucast (take_bit eb v) :: u32) = word_of_nat (nat (emax + EBIAS eb))" by (simp only: t)
    have "sint (word_of_nat k :: u32) = int k" if "k < 2 ^ 31" for k
      using that by (simp add: signed_of_nat signed_take_bit_int_eq_self)
    from this [OF n31] b(1) show ?thesis unfolding c by simp
  qed
  have rv: "p = rev_inv_cast eb ib emax" using e(3) by (simp add: rev_fwd_reversible_def)
  have "carries (zfp_encode_fblock d eb nb pbits) (zfp_decode_fblock d eb nb pbits) p (word_bits 2 1 @ word_bits eb v @ C)"
  proof (rule carriesI)
    fix z
    assume z: "rev_mode z"
    show "\<exists>n s. zfp_encode_fblock d eb nb pbits z p = Inr (n, z\<lparr>zs_bits := s\<rparr>) \<and> bs_ok s \<and>
        written s = written (zs_bits z) @ word_bits 2 1 @ word_bits eb v @ C \<and>
        room s + length (word_bits 2 1 @ word_bits eb v @ C) = room (zs_bits z)"
      if s: "bs_ok (zs_bits z)" "length (word_bits 2 1 @ word_bits eb v @ C) \<le> room (zs_bits z)"
    proof -
      have len: "2 + eb + length C \<le> room (zs_bits z)" using s(2) by simp
      obtain s1 where s1: "stream_write_bits (zs_bits z) 1 2 = Inr (drop_bit 2 1, s1)" "bs_ok s1"
          "written s1 = written (zs_bits z) @ word_bits 2 1" "room s1 + 2 = room (zs_bits z)"
        by (rule write_bits_ready [OF s(1), of 2 1]) (use s(2) in simp_all)
      have r1: "eb \<le> room s1" using s1(4) len by linarith
      obtain s2 where s2: "stream_write_bits s1 v eb = Inr (drop_bit eb v, s2)" "bs_ok s2"
          "written s2 = written s1 @ word_bits eb v" "room s2 + eb = room s1"
        by (rule write_bits_ready [OF s1(2) eb(1) r1])
      have "length C \<le> room s2" using s1(4) s2(4) len by linarith
      from rev_ints_code(1) [OF C z eb(2,3) l s2(2) this] obtain n s3 where
        s3: "rev_encode_ints_of d nb pbits z s2 (2 + eb) ib = Inr (n, z\<lparr>zs_bits := s3\<rparr>)" "bs_ok s3"
        "written s3 = written s2 @ C" "room s3 + length C = room s2" by blast
      then have "zfp_encode_fblock d eb nb pbits z p = Inr (n, z\<lparr>zs_bits := s3\<rparr>)"
        using s1(1) s2(1) e rev_mode_values(1) [OF z] e0
        by (simp add: zfp_encode_fblock_def rev_encode_fblock_def p v_def Let_def)
      with s1 s2 s3 show ?thesis by (intro exI [of _ n] exI [of _ s3]) simp
    qed
    show "\<exists>n s. zfp_decode_fblock d eb nb pbits z b' = Inr (n, p, z\<lparr>zs_bits := s\<rparr>) \<and> reading s \<and> unread s = rest \<and>
        bs_mem s = bs_mem (zs_bits z)"
      if s: "reading (zs_bits z)" "length b' = length p"
        "unread (zs_bits z) = (word_bits 2 1 @ word_bits eb v @ C) @ rest" for b' rest
    proof -
      have u: "unread (zs_bits z) = True # False # word_bits eb v @ C @ rest"
        using s(3) by (simp add: word_bits_def numeral_2_eq_2)
      obtain s1 where s1: "stream_read_bit (zs_bits z) = Inr (of_bool True, s1)" "reading s1"
          "unread s1 = False # word_bits eb v @ C @ rest" "bs_mem s1 = bs_mem (zs_bits z)"
        by (rule read_bit_ready [OF s(1) u])
      obtain s2 where s2: "stream_read_bit s1 = Inr (of_bool False, s2)" "reading s2"
          "unread s2 = word_bits eb v @ C @ rest" "bs_mem s2 = bs_mem s1"
        by (rule read_bit_ready [OF s1(2,3)])
      obtain s3 where s3: "stream_read_bits s2 eb = Inr (take_bit eb v, s3)" "reading s3" "unread s3 = C @ rest"
          "bs_mem s3 = bs_mem s2"
        by (rule read_bits_ready [OF s2(2) eb(1) s2(3)])
      from rev_ints_code(2) [OF C z eb(2,3) l s3(2,3)] obtain n s4 where
        s4: "rev_decode_ints_of d nb pbits z s3 (2 + eb) = Inr (n, ib, s4)" "reading s4" "unread s4 = rest"
        "bs_mem s4 = bs_mem s3" by blast
      have "rev_decode_fblock d eb nb pbits z = Inr (n, p, z\<lparr>zs_bits := s4\<rparr>)"
        unfolding rev_decode_fblock_def s1(1) s2(1) s3(1) bind_res_Inr Let_def prod.case emax s4(1) rv [symmetric]
        by (simp add: s2(1) s3(1) emax s4(1) rv [symmetric])
      with s1 s2 s3 s4 s(2) p rev_mode_values(1) [OF z] show ?thesis
        by (intro exI [of _ n] exI [of _ s4]) (simp add: zfp_decode_fblock_def)
    qed
  qed
  then show ?thesis by (simp only: v_def)
qed

text \<open>A block of zeros is one zero bit.\<close>

lemma zero_block:
  fixes p :: "'a::len word list"
  assumes ieee: "ieee eb TYPE('a)" and p: "length p = BLOCK_SIZE d" "exponent_block eb p = Inr (- EBIAS eb)"
    and e: "rev_fwd_cast eb p (- EBIAS eb) = Inr ib" "rev_fwd_reversible eb ib p (- EBIAS eb)"
  shows "carries (zfp_encode_fblock d eb nb pbits) (zfp_decode_fblock d eb nb pbits) p [False]"
proof (rule carriesI)
  have "ib = List.map (\<lambda>_. 0) p" using e(1) by (simp add: rev_fwd_cast_def)
  then have p0: "p = replicate (BLOCK_SIZE d) 0"
    using e(2) p(1) by (simp add: rev_fwd_reversible_def rev_inv_cast_def map_replicate_const)
  fix z
  assume z: "rev_mode z"
  show "\<exists>n s. zfp_encode_fblock d eb nb pbits z p = Inr (n, z\<lparr>zs_bits := s\<rparr>) \<and> bs_ok s \<and>
      written s = written (zs_bits z) @ [False] \<and> room s + length [False] = room (zs_bits z)"
    if s: "bs_ok (zs_bits z)" "length [False] \<le> room (zs_bits z)"
  proof -
    have "1 \<le> room (zs_bits z)" using s(2) by simp
    from write_bit_room [OF s(1) _ this, of 0] obtain s1 where "stream_write_bit (zs_bits z) 0 = Inr (0, s1)" "bs_ok s1"
      "written s1 = written (zs_bits z) @ [False]" "room s1 + 1 = room (zs_bits z)" by auto
    then show ?thesis using p e rev_mode_values(1) [OF z]
      by (intro exI [of _ 1] exI [of _ s1]) (simp add: zfp_encode_fblock_def rev_encode_fblock_def to_uint_def)
  qed
  show "\<exists>n s. zfp_decode_fblock d eb nb pbits z b' = Inr (n, p, z\<lparr>zs_bits := s\<rparr>) \<and> reading s \<and> unread s = rest \<and>
      bs_mem s = bs_mem (zs_bits z)"
    if s: "reading (zs_bits z)" "length b' = length p" "unread (zs_bits z) = [False] @ rest" for b' rest
  proof -
    have u: "unread (zs_bits z) = False # rest" using s(3) by simp
    obtain s1 where "stream_read_bit (zs_bits z) = Inr (of_bool False, s1)" "reading s1" "unread s1 = rest"
        "bs_mem s1 = bs_mem (zs_bits z)"
      by (rule read_bit_ready [OF s(1) u])
    with s(2) p(1) rev_mode_values(1,2) [OF z] show ?thesis
      by (intro exI [of _ 1] exI [of _ s1]) (simp add: zfp_decode_fblock_def rev_decode_fblock_def skip_zero_block_def p0)
  qed
qed

text \<open>
  Every block of numbers that can be scaled is carried by some bits.  With doubles in four
  dimensions the bound on the code is more than the budget of 16657 bits for a block.
\<close>

lemma rev_cast_ok:
  fixes p :: "'a::len word list"
  assumes ieee: "ieee eb TYPE('a)" and p: "\<forall>x\<in>set p. scalable eb x"
  obtains e ib where "exponent_block eb p = Inr e" "rev_fwd_cast eb p e = Inr ib" "length ib = length p"
    "e = - EBIAS eb \<or> - EBIAS eb < e \<and> e \<le> EBIAS eb + 1"
proof -
  consider "exponent_block eb p = Inr (- EBIAS eb)"
    | e where "exponent_block eb p = Inr e" "int LENGTH('a) - 2 - EBIAS eb \<le> e" "e \<le> EBIAS eb + 1"
        "\<forall>x\<in>set p. \<forall>s m. fval_of eb x = Fin s m \<longrightarrow> m < pow2 e"
    using exponent_block_ok [OF ieee p] by blast
  then show thesis
  proof cases
    case 1
    show thesis by (rule that [OF 1, of "List.map (\<lambda>_. 0) p"]) (simp_all add: rev_fwd_cast_def)
  next
    case 2
    obtain ib where ib: "fwd_cast eb p e = Inr ib" "length ib = length p"
      using fwd_cast_ok [OF ieee 2(2,3) p 2(4)] by blast
    have lo: "- EBIAS eb < e" using 2(2) ieee_simps(5) [OF ieee] by auto
    then have "rev_fwd_cast eb p e = Inr ib" using ib(1) by (simp add: rev_fwd_cast_def)
    from that [OF 2(1) this ib(2)] lo 2(3) show thesis by blast
  qed
qed

definition float_cap :: "'a::len itself \<Rightarrow> nat \<Rightarrow> nat \<Rightarrow> nat \<Rightarrow> nat" where
  "float_cap t eb pbits d = 2 + eb + int_cap t pbits d"

lemma fblock_carried:
  fixes p :: "'a::len word list"
  assumes ieee: "ieee eb TYPE('a)" and tr: "LENGTH('a) = 2 ^ pbits" "pbits \<le> 6"
    and d: "d \<in> {1, 2, 3, 4}" "d \<le> 3 \<or> eb = 8" "length p = BLOCK_SIZE d" and p: "\<forall>x\<in>set p. scalable eb x"
  shows "float_cap TYPE('a) eb pbits d \<le> 16657 \<and> (\<exists>c. length c \<le> float_cap TYPE('a) eb pbits d \<and>
    carries (zfp_encode_fblock d eb nb pbits) (zfp_decode_fblock d eb nb pbits) p c)"
proof -
  have w: "LENGTH('a) = 32 \<and> eb = 8 \<or> LENGTH('a) = 64 \<and> eb = 11" using ieee by (auto simp: ieee_def)
  have l64: "LENGTH('a) \<le> 64" using w by auto
  have l: "(LENGTH('a) + 1) * BLOCK_SIZE d + pbits + (2 + eb) \<le> 16657"
    using w d(1,2) tr(2) by (auto simp: BLOCK_SIZE_def)
  then have l2: "(LENGTH('a) + 1) * BLOCK_SIZE d + pbits + 2 \<le> 16657" by linarith
  obtain e ib where e: "exponent_block eb p = Inr e" "rev_fwd_cast eb p e = Inr ib" "length ib = length p"
    "e = - EBIAS eb \<or> - EBIAS eb < e \<and> e \<le> EBIAS eb + 1" by (rule rev_cast_ok [OF ieee p])
  have cap: "length C \<le> int_cap TYPE('a) pbits d" if "int_code d nb pbits b C" for b C
    using that by (simp add: int_code_def int_cap_def)
  have ex: "\<exists>C. int_code d nb pbits b C" if "length b = length p" for b :: "'a word list"
    by (rule int_code_ex [OF d(1) _ tr]) (simp add: that d(3))
  have "\<exists>c. length c \<le> float_cap TYPE('a) eb pbits d \<and>
      carries (zfp_encode_fblock d eb nb pbits) (zfp_decode_fblock d eb nb pbits) p c"
  proof (cases "rev_fwd_reversible eb ib p e")
    case False
    obtain C where C: "int_code d nb pbits (rev_fwd_reinterpret p) C"
      using ex [of "rev_fwd_reinterpret p"] by (auto simp: rev_fwd_reinterpret_def)
    have "length (word_bits 2 3 @ C) \<le> float_cap TYPE('a) eb pbits d" using cap [OF C] by (simp add: float_cap_def)
    with reinterpreted_block [OF d(3) C l64 l2 e(1,2) False] show ?thesis by blast
  next
    case True
    show ?thesis
    proof (cases "e = - EBIAS eb")
      case z: True
      have "length [False] \<le> float_cap TYPE('a) eb pbits d" by (simp add: float_cap_def)
      with zero_block [OF ieee d(3) e(1) [unfolded z] e(2) [unfolded z] True [unfolded z]] show ?thesis by blast
    next
      case False
      with e(4) have b: "- EBIAS eb < e" "e \<le> EBIAS eb + 1" by blast+
      obtain C where C: "int_code d nb pbits ib C" using ex [OF e(3)] by blast
      have "length (word_bits 2 1 @ word_bits eb (word_of_nat (to_uint (e + EBIAS eb))) @ C) \<le> float_cap TYPE('a) eb pbits d"
        using cap [OF C] by (simp add: float_cap_def)
      with scaled_block [OF ieee d(3) C l e(1,2) True b] show ?thesis by blast
    qed
  qed
  moreover have "float_cap TYPE('a) eb pbits d \<le> 16657" using l by (simp add: float_cap_def int_cap_def)
  ultimately show ?thesis by blast
qed

lemma scalable_0: "ieee eb TYPE('a) \<Longrightarrow> scalable eb (0 :: 'a::len word)"
  by (auto simp: scalable_def fval_of_def ieee_def)

lemma float_coder:
  assumes ieee: "ieee eb TYPE('a::len)" and tr: "LENGTH('a) = 2 ^ pbits" "pbits \<le> 6"
    and dims: "dims \<subseteq> {1, 2, 3, 4}" "eb = 8 \<or> 4 \<notin> dims"
  shows "block_coder (\<lambda>d. zfp_encode_fblock d eb (nb :: 'a word) pbits) (\<lambda>d. zfp_decode_fblock d eb nb pbits)
    (scalable eb) dims (float_cap TYPE('a) eb pbits)"
proof
  fix d
  assume d: "d \<in> dims"
  have d1: "d \<in> {1, 2, 3, 4}" using d dims(1) by blast
  have d2: "d \<le> 3 \<or> eb = 8" using d1 d dims(2) by auto
  have "\<forall>x\<in>set (replicate (BLOCK_SIZE d) (0 :: 'a word)). scalable eb x" using scalable_0 [OF ieee] by simp
  from fblock_carried [OF ieee tr d1 d2 _ this] show "float_cap TYPE('a) eb pbits d \<le> 16657" by simp
next
  show "dims \<subseteq> {1, 2, 3, 4}" by (rule dims(1))
  show "scalable eb (0 :: 'a word)" by (rule scalable_0 [OF ieee])
next
  fix d and z and b :: "'a word list"
  assume "BLOCK_SIZE d \<le> length b"
  then show "zfp_encode_fblock d eb nb pbits z b = zfp_encode_fblock d eb nb pbits z (take (BLOCK_SIZE d) b)"
    by (simp add: zfp_encode_fblock_def)
next
  fix d :: nat and b :: "'a word list"
  assume d: "d \<in> dims" "length b = BLOCK_SIZE d" and b: "\<forall>x\<in>set b. scalable eb x"
  have d1: "d \<in> {1, 2, 3, 4}" using d(1) dims(1) by blast
  have "d \<le> 3 \<or> eb = 8" using d1 d(1) dims(2) by auto
  from fblock_carried [OF ieee tr d1 this d(2) b] show "\<exists>c. length c \<le> float_cap TYPE('a) eb pbits d \<and>
      carries (zfp_encode_fblock d eb nb pbits) (zfp_decode_fblock d eb nb pbits) b c" by blast
qed

interpretation float32: block_coder "\<lambda>d. zfp_encode_fblock d 8 (0xAAAAAAAA :: u32) 5"
    "\<lambda>d. zfp_decode_fblock d 8 0xAAAAAAAA 5" "scalable 8" "{1, 2, 3, 4}" "float_cap TYPE(32) 8 5"
  by (rule float_coder) (simp_all add: ieee_def)

interpretation float64: block_coder "\<lambda>d. zfp_encode_fblock d 11 (0xAAAAAAAAAAAAAAAA :: u64) 6"
    "\<lambda>d. zfp_decode_fblock d 11 0xAAAAAAAAAAAAAAAA 6" "scalable 11" "{1, 2, 3}" "float_cap TYPE(64) 11 6"
  by (rule float_coder) (auto simp: ieee_def)

section \<open>The accuracy of a stream\<close>

text \<open>
  \<^verbatim>\<open>zfp_stream_set_accuracy\<close> of \<^verbatim>\<open>zfp.c\<close>; the tolerance and the result are doubles.
\<close>

definition zfp_stream_set_accuracy :: "zfp_stream \<Rightarrow> fval \<Rightarrow> err + fval \<times> zfp_stream" where
  "zfp_stream_set_accuracy z tol =
     bind_res (if fless fzero tol then bind_res (frexp_exp tol) (\<lambda>e. Inr (e - 1)) else Inr ZFP_MIN_EXP) (\<lambda>emin.
       Inr (if fless fzero tol then fldexp_1 11 TYPE(64) emin else fzero,
         z\<lparr>minbits := ZFP_MIN_BITS, maxbits := ZFP_MAX_BITS, maxprec := ZFP_MAX_PREC, minexp := emin\<rparr>))"

text \<open>
  The accuracy is the largest power of two that is not more than a positive tolerance; the mode is that of fixed
  accuracy, except for the least positive number, which gives the parameters of an expert.
\<close>

lemma set_accuracy_ok:
  assumes x: "fval_of 11 (x :: u64) = Fin False m" and m: "m \<noteq> 0"
  shows "\<exists>e z'. zfp_stream_set_accuracy z (fval_of 11 x) = Inr (Fin False (pow2 e), z') \<and>
    pow2 e \<le> m \<and> m < pow2 (e + 1) \<and> minexp z' = e \<and>
    zfp_stream_compression_mode z' = (if e = ZFP_MIN_EXP then zfp_mode_expert else zfp_mode_fixed_accuracy)"
proof -
  have ieee: "ieee 11 TYPE(64)" by (simp add: ieee_def)
  have pos: "0 < m" using fval_of_nonneg [OF x] m by simp
  have b: "pow2 (binade m) \<le> m" "m < pow2 (binade m + 1)" by (rule binade_le [OF pos], rule binade_less [OF pos])
  have w: "sig_bits 11 TYPE(64) = 52" "EBIAS 11 = 1023" by (simp_all add: sig_bits_def EBIAS_def)
  obtain e f where ef: "m = (if e = 0 then of_int f * pow2 (1 - EBIAS 11 - int (sig_bits 11 TYPE(64)))
      else of_int (2 ^ sig_bits 11 TYPE(64) + f) * pow2 (e - EBIAS 11 - int (sig_bits 11 TYPE(64))))"
    and f: "0 \<le> f" and e: "0 \<le> e"
    by (rule fval_of_Fin [OF x])
  have m: "m = (if e = 0 then of_int f * pow2 (- 1074) else of_int (2 ^ 52 + f) * pow2 (e - 1075))"
    using ef by (simp add: w)
  have "pow2 (- 1074) \<le> m"
  proof (cases "e = 0")
    case True
    then have "0 < f" using m pos f by (auto simp: zero_less_mult_iff)
    then have "(1 :: rat) \<le> of_int f" by simp
    then show ?thesis using True m by simp
  next
    case False
    then have "pow2 (- 1074) \<le> pow2 (e - 1075)" using e by (intro pow2_mono) simp
    also have "\<dots> \<le> of_int (2 ^ 52 + f) * pow2 (e - 1075)" using f by simp
    finally show ?thesis using False m by simp
  qed
  then have lo: "- 1074 \<le> binade m" by (rule pow2_le_binade [OF pos])
  have hi: "binade m \<le> 1023"
    using binade_bound [OF pos fval_of_bound [OF ieee x]] by (simp add: EBIAS_def)
  have "fldexp_1 11 TYPE(64) (binade m) = Fin False (pow2 (binade m))"
  proof -
    have less: "pow2 (binade m) < pow2 (max (binade m) (- 1022) + 1)"
      by (rule order_less_le_trans [of _ "pow2 (binade m + 1)"]) (simp_all add: pow2_Suc pow2_mono)
    have "round_to (int (sig_bits 11 TYPE(64)) + 1) (1 - EBIAS 11) (pow2 (binade m)) = pow2 (binade m)"
      by (rule round_to_exact [where n = 1 and k = "binade m" and m = "max (binade m) (- 1022)"])
        (use lo less in \<open>simp_all add: w\<close>)
    moreover have "pow2 (binade m) < pow2 (EBIAS 11 + 1)"
      unfolding w by (rule order_less_le_trans [OF _ pow2_mono [of "binade m + 1"]]) (use hi in \<open>simp_all add: pow2_Suc\<close>)
    ultimately show ?thesis by (simp add: fldexp_1_def frounded_def)
  qed
  then show ?thesis
    using b lo pos
    by (intro exI [of _ "binade m"])
      (simp add: zfp_stream_set_accuracy_def x fless_def fzero_def signed_def frexp_exp_def zfp_stream_compression_mode_def)
qed

end
