(* ===== verification/Zfp_Api.thy ===== *)
theory Zfp_Api
  imports Zfp_Compress Zfp_Float
begin

text \<open>
  \<^verbatim>\<open>zfp_compress\<close> and \<^verbatim>\<open>zfp_decompress\<close> of \<^verbatim>\<open>src/zfp-0.5.5/src/zfp.c\<close> on fields of integers and of
  floating-point numbers, and the round trip through a stream: what was compressed in reversible mode is
  decompressed without loss.

  The tables of functions have an entry for each policy, stridedness, dimension and scalar type.  The model
  has those for serial execution; \<open>other\<close> gives the remaining entries for compression, \<open>None\<close> where the table has
  \<^verbatim>\<open>NULL\<close>.  The word type of the memory, \<open>eb\<close>, \<open>nb\<close> and \<open>pbits\<close> are those of the field's scalar type.
\<close>

section \<open>Compression and decompression\<close>

type_synonym 'a compressor = "zfp_stream \<Rightarrow> zfp_field \<Rightarrow> 'a word list \<Rightarrow> err + zfp_stream"
type_synonym 'a decompressor = "zfp_stream \<Rightarrow> zfp_field \<Rightarrow> 'a word list \<Rightarrow> err + 'a word list \<times> zfp_stream"

text \<open>The coders of the scalar types.\<close>

definition scalar_encoder :: "nat \<Rightarrow> 'a::len word \<Rightarrow> nat \<Rightarrow> zfp_type \<Rightarrow> 'a encoder" where
  "scalar_encoder eb nb pbits t d =
     (if t = zfp_type_int32 \<or> t = zfp_type_int64 then zfp_encode_block d nb pbits
      else zfp_encode_fblock d eb nb pbits)"

definition scalar_decoder :: "nat \<Rightarrow> 'a::len word \<Rightarrow> nat \<Rightarrow> zfp_type \<Rightarrow> 'a decoder" where
  "scalar_decoder eb nb pbits t d =
     (if t = zfp_type_int32 \<or> t = zfp_type_int64 then zfp_decode_block d nb pbits
      else zfp_decode_fblock d eb nb pbits)"

text \<open>The tables; a field has one to four dimensions.\<close>

definition compress_table :: "'a::len encoder \<Rightarrow> bool \<Rightarrow> u32 \<Rightarrow> 'a compressor" where
  "compress_table enc strided dims =
     (if dims = 1 then if strided then compress_strided_1 enc else compress_1 enc
      else if dims = 2 then compress_strided_2 enc
      else if dims = 3 then compress_strided_3 enc
      else compress_strided_4 enc)"

definition decompress_table :: "'a::len decoder \<Rightarrow> bool \<Rightarrow> u32 \<Rightarrow> 'a decompressor" where
  "decompress_table dec strided dims =
     (if dims = 1 then if strided then decompress_strided_1 dec else decompress_1 dec
      else if dims = 2 then decompress_strided_2 dec
      else if dims = 3 then decompress_strided_3 dec
      else decompress_strided_4 dec)"

definition zfp_compress :: "nat \<Rightarrow> 'a::len word \<Rightarrow> nat \<Rightarrow>
    (zfp_exec_policy \<Rightarrow> bool \<Rightarrow> u32 \<Rightarrow> zfp_type \<Rightarrow> 'a compressor option) \<Rightarrow>
    zfp_stream \<Rightarrow> zfp_field \<Rightarrow> 'a word list \<Rightarrow> err + nat \<times> zfp_stream" where
  "zfp_compress eb nb pbits other z f m =
     bind_res (zfp_field_stride f None) (\<lambda>(strided, _).
       let dims = zfp_field_dimensionality f in
       if fd_type f = zfp_type_none then Inr (0, z)
       else if dims = 0 then Inl Out_Of_Bounds
       else case (if policy z = zfp_exec_serial
                  then Some (compress_table (scalar_encoder eb nb pbits (fd_type f)) strided dims)
                  else other (policy z) strided dims (fd_type f)) of
         None \<Rightarrow> Inr (0, z)
       | Some compress \<Rightarrow>
           bind_res (compress z f m) (\<lambda>z.
           bind_res (zfp_stream_flush z) (\<lambda>(_, z). Inr (zfp_stream_compressed_size z, z))))"

text \<open>Decompression has no entries for OpenMP, and none for CUDA in a build without it.\<close>

definition zfp_decompress :: "nat \<Rightarrow> 'a::len word \<Rightarrow> nat \<Rightarrow>
    zfp_stream \<Rightarrow> zfp_field \<Rightarrow> 'a word list \<Rightarrow> err + nat \<times> 'a word list \<times> zfp_stream" where
  "zfp_decompress eb nb pbits z f m =
     bind_res (zfp_field_stride f None) (\<lambda>(strided, _).
       let dims = zfp_field_dimensionality f in
       if fd_type f = zfp_type_none then Inr (0, m, z)
       else if dims = 0 then Inl Out_Of_Bounds
       else if policy z \<noteq> zfp_exec_serial then Inr (0, m, z)
       else
         bind_res (decompress_table (scalar_decoder eb nb pbits (fd_type f)) strided dims z f m) (\<lambda>(m, z).
         bind_res (zfp_stream_align z) (\<lambda>(_, z). Inr (zfp_stream_compressed_size z, m, z))))"

section \<open>Round trip\<close>

text \<open>The elements of a field in the array it lives in, and that the array has them all.\<close>

definition field_cells :: "zfp_field \<Rightarrow> nat set" where
  "field_cells f =
     (let p = int (fd_data f); tx = stride_of (sx f) 1; ty = stride_of (sy f) (sint (nx f));
          tz = stride_of (sz f) (sint (nx f * ny f)); tw = stride_of (sw f) (sint (nx f * ny f * nz f)) in
      if ny f = 0 then cells_1 p (unat (nx f)) tx
      else if nz f = 0 then cells_2 p (unat (nx f)) (unat (ny f)) tx ty
      else if nw f = 0 then cells_3 p (unat (nx f)) (unat (ny f)) (unat (nz f)) tx ty tz
      else cells_4 p (unat (nx f)) (unat (ny f)) (unat (nz f)) (unat (nw f)) tx ty tz tw)"

definition field_fits :: "zfp_field \<Rightarrow> nat \<Rightarrow> bool" where
  "field_fits f l =
     (let p = int (fd_data f); tx = stride_of (sx f) 1; ty = stride_of (sy f) (sint (nx f));
          tz = stride_of (sz f) (sint (nx f * ny f)); tw = stride_of (sw f) (sint (nx f * ny f * nz f)) in
      if ny f = 0 then fits_1 p (unat (nx f)) tx l
      else if nz f = 0 then fits_2 p (unat (nx f)) (unat (ny f)) tx ty l
      else if nw f = 0 then fits_3 p (unat (nx f)) (unat (ny f)) (unat (nz f)) tx ty tz l
      else fits_4 p (unat (nx f)) (unat (ny f)) (unat (nz f)) (unat (nw f)) tx ty tz tw l)"

text \<open>
  Fields that can be coded without loss: the counters of the loops run through them, the word type and the
  traits are those of the scalar type, the array has all elements and the increments between the rows and layers of
  full blocks do not overflow (\<open>fits_2\<close> to \<open>fits_4\<close>), floating-point numbers can be scaled, and doubles have at
  most three dimensions.
\<close>

definition scalar_type :: "nat \<Rightarrow> zfp_type \<Rightarrow> 'a::len itself \<Rightarrow> bool" where
  "scalar_type eb t T \<longleftrightarrow>
     (case t of
        zfp_type_none \<Rightarrow> False
      | zfp_type_int32 \<Rightarrow> LENGTH('a) = 32
      | zfp_type_int64 \<Rightarrow> LENGTH('a) = 64
      | zfp_type_float \<Rightarrow> eb = 8 \<and> LENGTH('a) = 32
      | zfp_type_double \<Rightarrow> eb = 11 \<and> LENGTH('a) = 64)"

definition exact_scalar :: "nat \<Rightarrow> zfp_type \<Rightarrow> 'a::len word \<Rightarrow> bool" where
  "exact_scalar eb t x \<longleftrightarrow> (t = zfp_type_float \<or> t = zfp_type_double \<longrightarrow> scalable eb x)"

definition exact_field :: "nat \<Rightarrow> zfp_field \<Rightarrow> 'a::len word list \<Rightarrow> bool" where
  "exact_field eb f m \<longleftrightarrow> scalar_type eb (fd_type f) TYPE('a) \<and> nx f \<noteq> 0 \<and>
     unat (nx f) + 4 \<le> 2 ^ 32 \<and> unat (ny f) + 4 \<le> 2 ^ 32 \<and> unat (nz f) + 4 \<le> 2 ^ 32 \<and>
     unat (nw f) + 4 \<le> 2 ^ 32 \<and> (fd_type f = zfp_type_double \<longrightarrow> nw f = 0) \<and>
     field_fits f (length m) \<and> (\<forall>i\<in>field_cells f. exact_scalar eb (fd_type f) (m ! i))"

lemma field_blocks_le:
  assumes "nx f \<noteq> 0"
  shows "(unat (nx f) + 3) div 4 \<le> field_blocks f"
    and "ny f \<noteq> 0 \<Longrightarrow> (unat (nx f) + 3) div 4 * ((unat (ny f) + 3) div 4) \<le> field_blocks f"
    and "ny f \<noteq> 0 \<Longrightarrow> nz f \<noteq> 0 \<Longrightarrow>
      (unat (nx f) + 3) div 4 * ((unat (ny f) + 3) div 4) * ((unat (nz f) + 3) div 4) \<le> field_blocks f"
    and "ny f \<noteq> 0 \<Longrightarrow> nz f \<noteq> 0 \<Longrightarrow> nw f \<noteq> 0 \<Longrightarrow>
      (unat (nx f) + 3) div 4 * ((unat (ny f) + 3) div 4) * ((unat (nz f) + 3) div 4) * ((unat (nw f) + 3) div 4) \<le>
        field_blocks f"
proof -
  define a b c d where "a = (max (unat (nx f)) 1 + 3) div 4" and "b = (max (unat (ny f)) 1 + 3) div 4"
    and "c = (max (unat (nz f)) 1 + 3) div 4" and "d = (max (unat (nw f)) 1 + 3) div 4"
  have F: "field_blocks f = a * b * c * d"
    by (simp add: field_blocks_def a_def b_def c_def d_def mult.assoc)
  have p: "1 \<le> b" "1 \<le> c" "1 \<le> d" by (simp_all add: b_def c_def d_def)
  have le: "a \<le> a * b" "a * b \<le> a * b * c" "a * b * c \<le> a * b * c * d" using p by simp_all
  have m: "max (unat w) 1 = unat w" if "w \<noteq> 0" for w :: u32
    using that by (simp add: max_absorb1 Suc_le_eq unat_gt_0)
  show "(unat (nx f) + 3) div 4 \<le> field_blocks f"
    using le m [OF assms] unfolding F a_def by linarith
  show "(unat (nx f) + 3) div 4 * ((unat (ny f) + 3) div 4) \<le> field_blocks f" if "ny f \<noteq> 0"
    using le m [OF assms] m [OF that] unfolding F a_def b_def by (simp only:)
  show "(unat (nx f) + 3) div 4 * ((unat (ny f) + 3) div 4) * ((unat (nz f) + 3) div 4) \<le> field_blocks f"
    if "ny f \<noteq> 0" "nz f \<noteq> 0"
    using le m [OF assms] m [OF that(1)] m [OF that(2)] unfolding F a_def b_def c_def by (simp only:)
  show "(unat (nx f) + 3) div 4 * ((unat (ny f) + 3) div 4) * ((unat (nz f) + 3) div 4) * ((unat (nw f) + 3) div 4) \<le>
      field_blocks f" if "ny f \<noteq> 0" "nz f \<noteq> 0" "nw f \<noteq> 0"
    unfolding F a_def b_def c_def d_def m [OF assms] m [OF that(1)] m [OF that(2)] m [OF that(3)] by (rule order_refl)
qed

lemma contiguous_fits:
  assumes "fits_1 (int p) (unat (n :: u32)) 1 l" and "n \<noteq> 0"
  shows "p + unat n \<le> l"
proof -
  have n: "0 < unat n" using assms(2) by (simp add: unat_gt_0)
  then have "unat n - 1 < unat n" by simp
  with assms(1) have "int p + int (unat n - 1) < int l" unfolding fits_1_def by fastforce
  with n show ?thesis by linarith
qed

context block_coder
begin

lemma table_lossless:
  assumes n: "unat (nx f) + 4 \<le> 2 ^ 32" "unat (ny f) + 4 \<le> 2 ^ 32" "unat (nz f) + 4 \<le> 2 ^ 32"
      "unat (nw f) + 4 \<le> 2 ^ 32" and x: "nx f \<noteq> 0"
    and fit: "field_fits f (length src)" and g: "\<forall>i\<in>field_cells f. good (src ! i)"
    and d: "unat (zfp_field_dimensionality f) \<in> dims"
  shows "lossless
    (\<lambda>z. compress_table enc (sx f \<noteq> 0 \<or> sy f \<noteq> 0 \<or> sz f \<noteq> 0 \<or> sw f \<noteq> 0) (zfp_field_dimensionality f) z f src)
    (\<lambda>(m, z). decompress_table dec (sx f \<noteq> 0 \<or> sy f \<noteq> 0 \<or> sz f \<noteq> 0 \<or> sw f \<noteq> 0) (zfp_field_dimensionality f) z f m)
    src (field_cells f) (16657 * field_blocks f)"
proof -
  note b = field_blocks_le [OF x]
  consider (1) "ny f = 0" | (2) "ny f \<noteq> 0" "nz f = 0" | (3) "ny f \<noteq> 0" "nz f \<noteq> 0" "nw f = 0"
      | (4) "ny f \<noteq> 0" "nz f \<noteq> 0" "nw f \<noteq> 0" by blast
  then show ?thesis
  proof cases
    case 1
    have fit: "fits_1 (int (fd_data f)) (unat (nx f)) (stride_of (sx f) 1) (length src)"
      using fit 1 by (simp add: field_fits_def)
    have C: "field_cells f = cells_1 (int (fd_data f)) (unat (nx f)) (stride_of (sx f) 1)"
      using 1 by (simp add: field_cells_def)
    have D: "zfp_field_dimensionality f = 1" using 1 x by (simp add: zfp_field_dimensionality_def)
    have d1: "1 \<in> dims" using d by (simp add: D)
    have k: "cap 1 * ((unat (nx f) + 3) div 4) \<le> 16657 * field_blocks f" by (rule mult_le_mono [OF cap_max [OF d1] b(1)])
    show ?thesis
    proof (cases "sx f \<noteq> 0 \<or> sy f \<noteq> 0 \<or> sz f \<noteq> 0 \<or> sw f \<noteq> 0")
      case True
      from lossless_mono [OF compress_strided_1_lossless [OF d1 g [unfolded C] n(1) refl refl refl fit] k] True show ?thesis
        by (simp add: compress_table_def decompress_table_def D C)
    next
      case False
      then have s1: "stride_of (sx f) 1 = 1" by (simp add: stride_of_def)
      have "fd_data f + unat (nx f) \<le> length src"
        by (rule contiguous_fits [OF fit [unfolded s1] x])
      from lossless_mono [OF compress_1_lossless [OF d1 g [unfolded C s1] refl refl this] k] False show ?thesis
        by (simp add: compress_table_def decompress_table_def D C stride_of_def)
    qed
  next
    case 2
    have fit: "fits_2 (int (fd_data f)) (unat (nx f)) (unat (ny f)) (stride_of (sx f) 1)
        (stride_of (sy f) (sint (nx f))) (length src)"
      using fit 2 by (simp add: field_fits_def)
    have C: "field_cells f = cells_2 (int (fd_data f)) (unat (nx f)) (unat (ny f)) (stride_of (sx f) 1)
        (stride_of (sy f) (sint (nx f)))"
      using 2 by (simp add: field_cells_def)
    have D: "zfp_field_dimensionality f = 2" using 2 x by (simp add: zfp_field_dimensionality_def)
    have d2: "2 \<in> dims" using d by (simp add: D)
    have k: "cap 2 * ((unat (nx f) + 3) div 4) * ((unat (ny f) + 3) div 4) \<le> 16657 * field_blocks f"
      unfolding mult.assoc by (rule mult_le_mono [OF cap_max [OF d2] b(2) [OF 2(1)]])
    from lossless_mono [OF compress_strided_2_lossless [OF d2 g [unfolded C] n(1,2) refl refl refl refl refl fit] k]
    show ?thesis by (simp add: compress_table_def decompress_table_def D C)
  next
    case 3
    have fit: "fits_3 (int (fd_data f)) (unat (nx f)) (unat (ny f)) (unat (nz f)) (stride_of (sx f) 1)
        (stride_of (sy f) (sint (nx f))) (stride_of (sz f) (sint (nx f * ny f))) (length src)"
      using fit 3 by (simp add: field_fits_def)
    have C: "field_cells f = cells_3 (int (fd_data f)) (unat (nx f)) (unat (ny f)) (unat (nz f)) (stride_of (sx f) 1)
        (stride_of (sy f) (sint (nx f))) (stride_of (sz f) (sint (nx f * ny f)))"
      using 3 by (simp add: field_cells_def)
    have D: "zfp_field_dimensionality f = 3" using 3 x by (simp add: zfp_field_dimensionality_def)
    have d3: "3 \<in> dims" using d by (simp add: D)
    have k: "cap 3 * ((unat (nx f) + 3) div 4) * ((unat (ny f) + 3) div 4) * ((unat (nz f) + 3) div 4) \<le>
        16657 * field_blocks f"
      using mult_le_mono [OF cap_max [OF d3] b(3) [OF 3(1,2)]] by (simp only: mult.assoc)
    from lossless_mono [OF compress_strided_3_lossless [OF d3 g [unfolded C] n(1-3) refl refl refl refl refl refl refl fit] k]
    show ?thesis by (simp add: compress_table_def decompress_table_def D C)
  next
    case 4
    have fit: "fits_4 (int (fd_data f)) (unat (nx f)) (unat (ny f)) (unat (nz f)) (unat (nw f)) (stride_of (sx f) 1)
        (stride_of (sy f) (sint (nx f))) (stride_of (sz f) (sint (nx f * ny f)))
        (stride_of (sw f) (sint (nx f * ny f * nz f))) (length src)"
      using fit 4 by (simp add: field_fits_def)
    have C: "field_cells f = cells_4 (int (fd_data f)) (unat (nx f)) (unat (ny f)) (unat (nz f)) (unat (nw f))
        (stride_of (sx f) 1) (stride_of (sy f) (sint (nx f))) (stride_of (sz f) (sint (nx f * ny f)))
        (stride_of (sw f) (sint (nx f * ny f * nz f)))"
      using 4 by (simp add: field_cells_def)
    have D: "zfp_field_dimensionality f = 4" using 4 x by (simp add: zfp_field_dimensionality_def)
    have d4: "4 \<in> dims" using d by (simp add: D)
    have k: "cap 4 * ((unat (nx f) + 3) div 4) * ((unat (ny f) + 3) div 4) * ((unat (nz f) + 3) div 4) *
        ((unat (nw f) + 3) div 4) \<le> 16657 * field_blocks f"
      using mult_le_mono [OF cap_max [OF d4] b(4) [OF 4]] by (simp only: mult.assoc)
    from lossless_mono [OF compress_strided_4_lossless [OF d4 g [unfolded C] n refl refl refl refl refl refl refl refl refl fit] k]
    show ?thesis by (simp add: compress_table_def decompress_table_def D C)
  qed
qed

end

text \<open>The coders of the scalar types obey the laws of a block coder; \<open>scalar_cap\<close> bounds the bits of a block.\<close>

definition scalar_cap :: "nat \<Rightarrow> zfp_type \<Rightarrow> 'a::len itself \<Rightarrow> nat \<Rightarrow> nat \<Rightarrow> nat" where
  "scalar_cap eb t T pbits =
     (if t = zfp_type_int32 \<or> t = zfp_type_int64 then int_cap T pbits else float_cap T eb pbits)"

lemma scalar_coder:
  assumes T: "scalar_type eb t TYPE('a::len)" and tr: "LENGTH('a) = 2 ^ pbits" "pbits \<le> 6"
  shows "block_coder (scalar_encoder eb (nb :: 'a word) pbits t) (scalar_decoder eb nb pbits t) (exact_scalar eb t)
    (if t = zfp_type_double then {1, 2, 3} else {1, 2, 3, 4}) (scalar_cap eb t TYPE('a) pbits)"
proof (cases "t = zfp_type_int32 \<or> t = zfp_type_int64")
  case True
  then have "scalar_encoder eb nb pbits t = (\<lambda>d. zfp_encode_block d nb pbits)"
    "scalar_decoder eb nb pbits t = (\<lambda>d. zfp_decode_block d nb pbits)" "exact_scalar eb t = (\<lambda>_ :: 'a word. True)"
    "t \<noteq> zfp_type_double" "scalar_cap eb t TYPE('a) pbits = int_cap TYPE('a) pbits"
    by (auto simp: scalar_encoder_def scalar_decoder_def exact_scalar_def scalar_cap_def)
  with int_coder [OF tr, of nb] show ?thesis by simp
next
  case False
  with T have t: "t = zfp_type_float \<and> eb = 8 \<or> t = zfp_type_double \<and> eb = 11" and i: "ieee eb TYPE('a)"
    by (auto simp: scalar_type_def ieee_def split: zfp_type.splits)
  with False have e: "scalar_encoder eb nb pbits t = (\<lambda>d. zfp_encode_fblock d eb nb pbits)"
    "scalar_decoder eb nb pbits t = (\<lambda>d. zfp_decode_fblock d eb nb pbits)" "exact_scalar eb t = (scalable eb :: 'a word \<Rightarrow> bool)"
    "scalar_cap eb t TYPE('a) pbits = float_cap TYPE('a) eb pbits"
    by (auto simp: scalar_encoder_def scalar_decoder_def exact_scalar_def scalar_cap_def)
  show ?thesis unfolding e by (rule float_coder [OF i tr]) (use t in auto)
qed

lemma entries_lossless:
  fixes src :: "'a::len word list"
  assumes tr: "LENGTH('a) = 2 ^ pbits" "pbits \<le> 6" and f: "exact_field eb f src"
  shows "lossless
    (\<lambda>z. compress_table (scalar_encoder eb nb pbits (fd_type f)) (sx f \<noteq> 0 \<or> sy f \<noteq> 0 \<or> sz f \<noteq> 0 \<or> sw f \<noteq> 0)
       (zfp_field_dimensionality f) z f src)
    (\<lambda>(m, z). decompress_table (scalar_decoder eb nb pbits (fd_type f)) (sx f \<noteq> 0 \<or> sy f \<noteq> 0 \<or> sz f \<noteq> 0 \<or> sw f \<noteq> 0)
       (zfp_field_dimensionality f) z f m)
    src (field_cells f) (16657 * field_blocks f)"
proof -
  have T: "scalar_type eb (fd_type f) TYPE('a)" using f by (simp add: exact_field_def)
  have "unat (zfp_field_dimensionality f) \<in> (if fd_type f = zfp_type_double then {1, 2, 3} else {1, 2, 3, 4})"
    using f by (auto simp: exact_field_def zfp_field_dimensionality_def)
  then show ?thesis
    by (intro block_coder.table_lossless [OF scalar_coder [OF T tr]]) (use f in \<open>simp_all add: exact_field_def\<close>)
qed

text \<open>Flushing a stream after code, and rewinding it.\<close>

lemma flush_written:
  assumes s: "bs_ok s" "written s = c" "room s + length c = 64 * l"
  shows "\<exists>k n s'. stream_flush s = Inr (n, s') \<and> length (bs_mem s') = l \<and> k < 64 \<and>
    length c + k = 64 * bs_ptr s' \<and> bs_ptr s' \<le> l \<and>
    mem_bits (take (bs_ptr s') (bs_mem s')) = c @ replicate k False \<and>
    unread (stream_rewind s') = c @ replicate k False @ mem_bits (drop (bs_ptr s') (bs_mem s'))"
proof -
  have b: "bs_bits s < 64" "bs_ptr s \<le> length (bs_mem s)" using s(1) by (simp_all add: bs_ok_def)
  have w: "stream_wtell s = length c" using length_written [OF b(2)] s(2) by simp
  have lt: "bs_ptr s < length (bs_mem s)" if "bs_bits s \<noteq> 0"
  proof (rule ccontr)
    assume "\<not> bs_ptr s < length (bs_mem s)"
    with b(2) have "room s = 0" by (simp add: room_def stream_wtell_def)
    with s(3) w have "64 * bs_ptr s + bs_bits s = 64 * l" by (simp add: stream_wtell_def)
    then have "bs_bits s mod 64 = 0" by presburger
    with b(1) that show False by simp
  qed
  have "stream_wtell s \<le> 64 * length (bs_mem s)"
    using b lt by (cases "bs_bits s = 0") (simp_all add: stream_wtell_def)
  with s(3) w have l: "length (bs_mem s) = l" by (simp add: room_def)
  from stream_flush_ok [OF s(1) lt] obtain k s' where
    s': "stream_flush s = Inr (k, s')" "k < 64" "bs_ok s'" "bs_bits s' = 0"
    "written s' = c @ replicate k False" "length (bs_mem s') = l"
    using s(2) l by auto
  have p: "bs_ptr s' \<le> l" using s'(3,6) by (simp add: bs_ok_def)
  have m: "mem_bits (take (bs_ptr s') (bs_mem s')) = c @ replicate k False"
    using s'(4,5) by (simp add: written_def)
  from arg_cong [OF this, of length] p s'(6) have "length c + k = 64 * bs_ptr s'" by simp
  moreover have "mem_bits (bs_mem s') = mem_bits (take (bs_ptr s') (bs_mem s')) @ mem_bits (drop (bs_ptr s') (bs_mem s'))"
    by (metis append_take_drop_id mem_bits_simps(3))
  then have "unread (stream_rewind s') = c @ replicate k False @ mem_bits (drop (bs_ptr s') (bs_mem s'))"
    by (simp add: m)
  ultimately show ?thesis using s' p m by (intro exI [of _ k] exI [of _ s']) simp
qed

lemma flush_code:
  assumes s: "bs_ok s" "written s = c" "room s + length c = 64 * l" "64 * l < 2 ^ 64"
  shows "\<exists>k n s'. stream_flush s = Inr (n, s') \<and> length (bs_mem s') = l \<and> k < 64 \<and>
    length c + k = 64 * bs_ptr s' \<and> bs_ptr s' \<le> l \<and> reading (stream_rewind s') \<and>
    unread (stream_rewind s') = c @ replicate k False @ mem_bits (drop (bs_ptr s') (bs_mem s'))"
proof -
  from flush_written [OF s(1-3)] obtain k n s' where s': "stream_flush s = Inr (n, s')" "length (bs_mem s') = l" "k < 64"
    "length c + k = 64 * bs_ptr s'" "bs_ptr s' \<le> l"
    "unread (stream_rewind s') = c @ replicate k False @ mem_bits (drop (bs_ptr s') (bs_mem s'))" by blast
  have "reading (stream_rewind s')"
    using s'(2) s(4) by (simp add: reading_def) (simp add: stream_rewind_def stream_rtell_def)
  with s' show ?thesis by (intro exI [of _ k] exI [of _ n] exI [of _ s']) simp
qed

text \<open>
  Compressing in reversible mode to an empty stream with room for the largest blocks, rewinding, and
  decompressing to an array of the same size puts every element of the field in its place, and changes no
  other; both calls return the number of bytes that were written.
\<close>

lemma compress_decompress:
  fixes src :: "'a::len word list"
  assumes t: "LENGTH('a) = 2 ^ pbits" "pbits \<le> 6" and f: "exact_field eb f src"
    and z: "z = zfp_stream_set_reversible z0" "policy z = zfp_exec_serial"
    and s: "bs_ok (zs_bits z)" "written (zs_bits z) = []" "64 * length (bs_mem (zs_bits z)) < 2 ^ 64"
      "16657 * field_blocks f \<le> 64 * length (bs_mem (zs_bits z))"
    and m: "length m = length src"
  shows "\<exists>n z' z''. zfp_compress eb nb pbits other z f src = Inr (n, z') \<and>
    zfp_decompress eb nb pbits (zfp_stream_rewind z') f m = Inr (n, blend src (field_cells f) m, z'')"
proof -
  define st where "st \<longleftrightarrow> sx f \<noteq> 0 \<or> sy f \<noteq> 0 \<or> sz f \<noteq> 0 \<or> sw f \<noteq> 0"
  have dims: "zfp_field_dimensionality f \<noteq> 0" "fd_type f \<noteq> zfp_type_none"
    using f by (auto simp: exact_field_def scalar_type_def zfp_field_dimensionality_def)
  have st: "zfp_field_stride f None = Inr (st, None)" by (simp add: zfp_field_stride_def st_def)
  have rz: "rev_mode z" by (simp add: z(1))
  let ?d = "zfp_field_dimensionality f"
  define enc where "enc = compress_table (scalar_encoder eb nb pbits (fd_type f)) st ?d"
  define dec where "dec = decompress_table (scalar_decoder eb nb pbits (fd_type f)) st ?d"
  have "lossless (\<lambda>z. enc z f src) (\<lambda>(m, z). dec z f m) src (field_cells f) (16657 * field_blocks f)"
    unfolding enc_def dec_def st_def by (rule entries_lossless [OF t f])
  then obtain c where c: "length c \<le> 16657 * field_blocks f"
    "\<And>z. rev_mode z \<Longrightarrow> bs_ok (zs_bits z) \<Longrightarrow> 16657 * field_blocks f \<le> room (zs_bits z) \<Longrightarrow>
      \<exists>s. enc z f src = Inr (z\<lparr>zs_bits := s\<rparr>) \<and> bs_ok s \<and> written s = written (zs_bits z) @ c \<and>
        room s + length c = room (zs_bits z)"
    "\<And>z m rest. rev_mode z \<Longrightarrow> reading (zs_bits z) \<Longrightarrow> length m = length src \<Longrightarrow> unread (zs_bits z) = c @ rest \<Longrightarrow>
      \<exists>s. dec z f m = Inr (blend src (field_cells f) m, z\<lparr>zs_bits := s\<rparr>) \<and> reading s \<and> unread s = rest \<and>
        bs_mem s = bs_mem (zs_bits z)"
    unfolding lossless_def by auto
  let ?l = "length (bs_mem (zs_bits z))"
  have "bs_ptr (zs_bits z) \<le> ?l" using s(1) by (simp add: bs_ok_def)
  from length_written [OF this] s(2) have r: "room (zs_bits z) = 64 * ?l" by (simp add: room_def)
  obtain s1 where s1: "enc z f src = Inr (z\<lparr>zs_bits := s1\<rparr>)" "bs_ok s1" "written s1 = c" "room s1 + length c = 64 * ?l"
    using c(2) [OF rz s(1)] s(2,4) r by auto
  obtain k n s2 where s2: "stream_flush s1 = Inr (n, s2)" "length (bs_mem s2) = ?l" "k < 64"
    "length c + k = 64 * bs_ptr s2" "bs_ptr s2 \<le> ?l" "reading (stream_rewind s2)"
    "unread (stream_rewind s2) = c @ replicate k False @ mem_bits (drop (bs_ptr s2) (bs_mem s2))"
    using flush_code [OF s1(2,3,4) s(3)] by blast
  let ?z = "z\<lparr>zs_bits := s2\<rparr>"
  have comp: "zfp_compress eb nb pbits other z f src = Inr (8 * bs_ptr s2, ?z)"
    using dims st s1(1) s2(1) z(2)
    by (simp add: zfp_compress_def enc_def [symmetric] Let_def zfp_stream_flush_def zfp_stream_compressed_size_def stream_size_def)
  let ?y = "zfp_stream_rewind ?z"
  have y: "rev_mode ?y" "zs_bits ?y = stream_rewind s2" "policy ?y = zfp_exec_serial"
    using rz z(2) by (simp_all add: zfp_stream_rewind_def)
  obtain s3 where s3: "dec ?y f m = Inr (blend src (field_cells f) m, ?y\<lparr>zs_bits := s3\<rparr>)" "reading s3"
    "unread s3 = replicate k False @ mem_bits (drop (bs_ptr s2) (bs_mem s2))" "bs_mem s3 = bs_mem s2"
    using c(3) [OF y(1) _ m] s2(6,7) y(2) by auto
  have ptr: "bs_ptr s3 = bs_ptr s2"
  proof -
    have "bs_bits s3 < 64" "bs_ptr s3 \<le> ?l" using s3(2,4) s2(2) by (simp_all add: reading_def bs_ok_def)
    moreover have "bs_bits s3 + 64 * (?l - bs_ptr s3) = k + 64 * (?l - bs_ptr s2)"
      using arg_cong [OF s3(3), of length] s3(4) s2(2) by (simp add: unread_def)
    ultimately show ?thesis using s2(3,5) by linarith
  qed
  obtain s4 where s4: "stream_align s3 = Inr (bs_bits s3, s4)" "bs_ptr s4 = bs_ptr s2"
    using stream_align_ok [OF s3(2)] ptr by auto
  have "zfp_decompress eb nb pbits ?y f m = Inr (8 * bs_ptr s2, blend src (field_cells f) m, ?y\<lparr>zs_bits := s4\<rparr>)"
    using dims st s3(1) s4 y(3)
    by (simp add: zfp_decompress_def dec_def [symmetric] Let_def zfp_stream_align_def zfp_stream_compressed_size_def stream_size_def)
  with comp show ?thesis by blast
qed

section \<open>The largest block\<close>

text \<open>
  A block of four 32-bit integers whose coefficients have both their highest and their lowest bit set: its
  code in reversible mode has five bits of precision and 131 of planes.
\<close>

definition worst_block :: "u32 list" where
  "worst_block = [0x80000001, 2, 4, 8]"

definition worst_coefficients :: "u32 list" where
  "worst_coefficients = replicate 4 0x80000001"

lemma worst_precision: "rev_precision worst_coefficients = Inr 32"
proof -
  have "LENGTH(32) = 2 ^ 5" by simp
  from rev_precision_ok [where 'a = 32, OF this, of worst_coefficients] obtain q where
    q: "q \<le> 32" "rev_precision worst_coefficients = Inr q" "push_bit q (0x80000001 :: u32) = 0"
    by (auto simp: worst_coefficients_def)
  have "q = 32"
  proof (rule ccontr)
    assume "q \<noteq> 32"
    with q(1) have "bit (push_bit q (0x80000001 :: u32)) q" by (simp add: bit_push_bit_iff)
    with q(3) show False by simp
  qed
  with q(2) show ?thesis by simp
qed

lemma worst_block_bits:
  assumes "rev_mode z" and "bs_ok (zs_bits z)" and "16657 \<le> room (zs_bits z)"
  shows "\<exists>s. zfp_encode_block 1 (0xAAAAAAAA :: u32) 5 z worst_block = Inr (136, z\<lparr>zs_bits := s\<rparr>)"
proof -
  have z: "z = zfp_stream_set_reversible z" using assms(1) by (simp add: rev_mode_def)
  have d: "1 \<in> {1, 2, 3, 4 :: nat}" "length worst_block = BLOCK_SIZE 1" "LENGTH(32) = 2 ^ 5" "5 \<le> (6 :: nat)"
    "5 \<le> (64 :: nat)" "length worst_coefficients = BLOCK_SIZE 1" "(32 :: nat) \<le> LENGTH(32)" "32 = max 32 (1 :: nat)"
    by (simp_all add: worst_block_def worst_coefficients_def BLOCK_SIZE_def)
  note l = reversible_limits [where 'a = 32, OF d(1,3,4) z]
  have lo: "sint (minbits z) = 1" by (subst z) (simp add: zfp_stream_set_reversible_def)
  have x: "rev_fwd_xform 1 worst_block = Inr worst_coefficients" by code_simp
  have o': "fwd_order (0xAAAAAAAA :: u32) worst_coefficients (take (BLOCK_SIZE 1) (PERM 1)) = Inr worst_coefficients"
    by code_simp
  have r: "nat (sint (maxbits z)) \<le> room (zs_bits z)" using l(6) assms(3) by simp
  have "length (plane_code 32 worst_coefficients) = 131" by code_simp
  then have n: "int (length (rev_code 5 1 32 worst_coefficients)) = 136" unfolding rev_code_length by simp
  from rev_encode_block_ok [where 'a = 32, OF d(1,2) assms(2) d(3,5) l(2-5) r x o' d(6) worst_precision d(7,8)]
  show ?thesis
    unfolding zfp_block_reversible(1) [OF l(1) d(2)] lo n by auto
qed

end
