(* ===== verification/Zfp_Omp.thy ===== *)
theory Zfp_Omp
  imports Zfp_Api
begin

text \<open>
  Compression of zfp with OpenMP: \<^verbatim>\<open>src/zfp-0.5.5/src/share/parallel.c\<close>, \<^verbatim>\<open>share/omp.c\<close> and
  \<^verbatim>\<open>template/ompcompress.c\<close>.  The blocks of an array are divided into chunks; every chunk is compressed to
  a bit stream of its own, by whichever thread takes it, and the streams are copied one behind the other, or lie so from
  the start when all blocks have the same number of whole words.

  A run of the parallel loop is an interleaving of the chunks' blocks, given by a list of chunk numbers: at
  each one, this chunk compresses its next block, if it has one.  What the list leaves undone follows at the
  end, so that every list stands for a complete run and every complete run is one of the lists.  \<open>mal k n\<close> is
  the memory that the call \<open>k\<close> of \<^verbatim>\<open>malloc\<close> returns for \<open>n\<close> bytes, and \<open>mt\<close> the result of \<^verbatim>\<open>omp_get_max_threads\<close>.
\<close>

section \<open>Chunks\<close>

definition thread_count_omp :: "u32 \<Rightarrow> zfp_stream \<Rightarrow> u32" where
  "thread_count_omp mt z = (let count = omp_threads z in if count = 0 then mt else count)"

definition chunk_count_omp :: "zfp_stream \<Rightarrow> u32 \<Rightarrow> u32 \<Rightarrow> u32" where
  "chunk_count_omp z nblocks threads =
     (let chunk_size = omp_chunk_size z;
          chunks = (if chunk_size \<noteq> 0 then (nblocks + chunk_size - 1) div chunk_size else threads)
      in min chunks nblocks)"

definition chunk_offset :: "u32 \<Rightarrow> u32 \<Rightarrow> u32 \<Rightarrow> u32" where
  "chunk_offset nblocks chunks chunk = ucast ((ucast nblocks * ucast chunk :: u64) div ucast chunks)"

text \<open>The field of the size of a chunk; \<open>None\<close> is the return of \<^verbatim>\<open>NULL\<close>.\<close>

definition chunk_field :: "zfp_field \<Rightarrow> u32 \<Rightarrow> u32 \<Rightarrow> err + zfp_field option" where
  "chunk_field f chunks nblocks =
     (let dims = zfp_field_dimensionality f;
          n = 4 * (nblocks + chunks - 1) div chunks
      in if dims = 0 then Inr None
         else if chunks = 0 then Inl Undefined
         else Inr (Some (if dims = 1 then f\<lparr>nx := n\<rparr>
                         else if dims = 2 then f\<lparr>nx := 4, ny := n\<rparr>
                         else if dims = 3 then f\<lparr>nx := 4, ny := 4, nz := n\<rparr>
                         else f\<lparr>nx := 4, ny := 4, nz := 4, nw := n\<rparr>)))"

text \<open>
  The streams of the chunks.  Without copies a stream is a window on the memory of the stream that all go to, from the
  word \<open>w_at\<close> on; otherwise it has memory of its own.
\<close>

definition compress_init_par :: "(nat \<Rightarrow> nat \<Rightarrow> u64 list option) \<Rightarrow> zfp_stream \<Rightarrow> zfp_field \<Rightarrow> u32 \<Rightarrow> u32 \<Rightarrow>
    err + (nat option \<times> bitstream) list option" where
  "compress_init_par mal z f chunks nblocks =
     bind_res (chunk_field f chunks nblocks) (\<lambda>g. case g of
         None \<Rightarrow> Inr None
       | Some g \<Rightarrow>
           let size = unat (zfp_stream_maximum_size z g);
               copy = (minbits z \<noteq> maxbits z \<or> maxbits z mod 64 \<noteq> 0 \<or> stream_wtell (zs_bits z) mod 64 \<noteq> 0)
           in case mal 0 (8 * unat chunks) of
                None \<Rightarrow> Inr None
              | Some _ \<Rightarrow>
                  if copy
                  then case those (List.map (\<lambda>i. mal (Suc i) size) [0..<unat chunks]) of
                         None \<Rightarrow> Inr None
                       | Some bufs \<Rightarrow> Inr (Some (List.map (\<lambda>buffer. (None, stream_open buffer size)) bufs))
                  else Inr (Some (List.map (\<lambda>i.
                         let block = chunk_offset nblocks chunks (word_of_nat i);
                             buffer = (stream_size (zs_bits z) + unat (block * maxbits z div 8)) div 8
                         in (Some buffer, stream_open (drop buffer (stream_data (zs_bits z))) size))
                       [0..<unat chunks])))"

section \<open>The parallel loop\<close>

text \<open>A chunk: its next block, the end of its blocks, and its stream.\<close>

record worker =
  w_next :: nat
  w_end :: nat
  w_at :: "nat option"
  w_bits :: bitstream

definition new_worker :: "u32 \<Rightarrow> u32 \<Rightarrow> nat \<Rightarrow> nat option \<times> bitstream \<Rightarrow> worker" where
  "new_worker nblocks chunks i = (\<lambda>(a, s).
     let bmin = chunk_offset nblocks chunks (word_of_nat i);
         bmax = chunk_offset nblocks chunks (word_of_nat i + 1)
     in \<lparr>w_next = unat bmin, w_end = (if int i < sint chunks then unat bmax else unat bmin), w_at = a, w_bits = s\<rparr>)"

definition w_load :: "u64 list \<Rightarrow> worker \<Rightarrow> bitstream" where
  "w_load m w =
     (case w_at w of
        None \<Rightarrow> w_bits w
      | Some a \<Rightarrow> (w_bits w)\<lparr>bs_mem := take (length (bs_mem (w_bits w))) (drop a m)\<rparr>)"

definition w_store :: "u64 list \<Rightarrow> worker \<Rightarrow> bitstream \<Rightarrow> u64 list" where
  "w_store m w s =
     (case w_at w of
        None \<Rightarrow> m
      | Some a \<Rightarrow> take a m @ bs_mem s @ drop (a + length (bs_mem s)) m)"

definition par_step :: "(u32 \<Rightarrow> zfp_stream \<Rightarrow> err + zfp_stream) \<Rightarrow> zfp_stream \<Rightarrow> nat \<Rightarrow>
    u64 list \<times> worker list \<Rightarrow> err + u64 list \<times> worker list" where
  "par_step body z i = (\<lambda>(m, ws).
     if i < length ws \<and> w_next (ws ! i) < w_end (ws ! i)
     then let w = ws ! i in
          bind_res (body (word_of_nat (w_next w)) (zfp_stream_set_bit_stream z (w_load m w))) (\<lambda>y.
            Inr (w_store m w (zs_bits y), ws[i := w\<lparr>w_next := Suc (w_next w), w_bits := zs_bits y\<rparr>]))
     else Inr (m, ws))"

primrec par_run :: "(u32 \<Rightarrow> zfp_stream \<Rightarrow> err + zfp_stream) \<Rightarrow> zfp_stream \<Rightarrow> nat list \<Rightarrow>
    u64 list \<times> worker list \<Rightarrow> err + u64 list \<times> worker list" where
  "par_run body z [] st = Inr st"
| "par_run body z (i # is') st = bind_res (par_step body z i st) (par_run body z is')"

definition undone :: "worker list \<Rightarrow> nat list" where
  "undone ws = concat (List.map (\<lambda>i. replicate (w_end (ws ! i) - w_next (ws ! i)) i) [0..<length ws])"

definition par_for :: "(u32 \<Rightarrow> zfp_stream \<Rightarrow> err + zfp_stream) \<Rightarrow> zfp_stream \<Rightarrow> nat list \<Rightarrow>
    u64 list \<times> worker list \<Rightarrow> err + u64 list \<times> worker list" where
  "par_for body z sched st =
     bind_res (par_run body z sched st) (\<lambda>(m, ws). par_run body z (undone ws) (m, ws))"

section \<open>The end of the loop\<close>

text \<open>
  \<^verbatim>\<open>free\<close> of a window is undefined: it was not allocated.  The copy before it, of the memory onto itself, is left out.
\<close>

definition finish_chunk :: "bool \<Rightarrow> worker \<Rightarrow> bitstream \<times> nat \<Rightarrow> err + bitstream \<times> nat" where
  "finish_chunk copy w = (\<lambda>(dst, offset).
     let s = w_load (stream_data dst) w; bits = stream_wtell s; offset = offset + bits in
     bind_res (stream_flush s) (\<lambda>(_, s).
       let dst = dst\<lparr>bs_mem := w_store (stream_data dst) w s\<rparr> in
       if copy
       then if w_at w \<noteq> None then Inl Undefined
            else bind_res (stream_copy dst (stream_rewind s) bits) (\<lambda>(dst, _). Inr (dst, offset))
       else Inr (dst, offset)))"

primrec finish_chunks :: "bool \<Rightarrow> worker list \<Rightarrow> bitstream \<times> nat \<Rightarrow> err + bitstream \<times> nat" where
  "finish_chunks copy [] st = Inr st"
| "finish_chunks copy (w # ws) st = bind_res (finish_chunk copy w st) (finish_chunks copy ws)"

definition compress_finish_par :: "zfp_stream \<Rightarrow> worker list \<Rightarrow> err + zfp_stream" where
  "compress_finish_par z src =
     (let dst = zfp_stream_bit_stream z;
          copy = (w_at (hd src) \<noteq> Some 0);
          offset = stream_wtell dst
      in bind_res (finish_chunks copy src (dst, offset)) (\<lambda>(dst, offset).
         bind_res (if \<not> copy then stream_wseek dst offset else Inr dst) (\<lambda>dst. Inr (z\<lparr>zs_bits := dst\<rparr>))))"

text \<open>What the functions of \<^verbatim>\<open>ompcompress.c\<close> share; they differ in the number of blocks and in how a block is compressed.\<close>

definition compress_par :: "u32 \<Rightarrow> (nat \<Rightarrow> nat \<Rightarrow> u64 list option) \<Rightarrow> nat list \<Rightarrow> u32 \<Rightarrow>
    (u32 \<Rightarrow> zfp_stream \<Rightarrow> err + zfp_stream) \<Rightarrow> zfp_stream \<Rightarrow> zfp_field \<Rightarrow> err + zfp_stream" where
  "compress_par mt mal sched nblocks body z f =
     (let threads = thread_count_omp mt z;
          chunks = chunk_count_omp z nblocks threads
      in bind_res (compress_init_par mal z f chunks nblocks) (\<lambda>bs. case bs of
           None \<Rightarrow> Inr z
         | Some bs \<Rightarrow>
             bind_res (par_for body z sched (stream_data (zs_bits z),
                 List.map (\<lambda>i. new_worker nblocks chunks i (bs ! i)) [0..<length bs])) (\<lambda>(m, ws).
               compress_finish_par (z\<lparr>zs_bits := (zs_bits z)\<lparr>bs_mem := m\<rparr>\<rparr>) ws)))"

definition omp_block_1 :: "'a::len encoder \<Rightarrow> zfp_field \<Rightarrow> 'a word list \<Rightarrow> u32 \<Rightarrow> zfp_stream \<Rightarrow> err + zfp_stream" where
  "omp_block_1 enc f m block z =
     (let x = 4 * block; p = fd_data f + unat x in
      bind_res (if nx f - x < 4 then zfp_encode_partial_block_strided_1 enc z m (int p) (unat (min (nx f - x) 4)) 1
                else enc 1 z (drop p m)) (\<lambda>(_, z). Inr z))"

definition omp_block_strided_1 ::
  "'a::len encoder \<Rightarrow> zfp_field \<Rightarrow> 'a word list \<Rightarrow> u32 \<Rightarrow> zfp_stream \<Rightarrow> err + zfp_stream" where
  "omp_block_strided_1 enc f m block z =
     (let tx = stride_of (sx f) 1; x = 4 * block; p = int (fd_data f) + tx * uint x in
      bind_res (if nx f - x < 4 then zfp_encode_partial_block_strided_1 enc z m p (unat (min (nx f - x) 4)) tx
                else zfp_encode_block_strided_1 enc z m p tx) (\<lambda>(_, z). Inr z))"

definition omp_block_strided_2 ::
  "'a::len encoder \<Rightarrow> zfp_field \<Rightarrow> 'a word list \<Rightarrow> u32 \<Rightarrow> zfp_stream \<Rightarrow> err + zfp_stream" where
  "omp_block_strided_2 enc f m block z =
     (let tx = stride_of (sx f) 1; ty = stride_of (sy f) (sint (nx f));
          bx = (nx f + 3) div 4;
          b = block;
          x = 4 * (b mod bx); b = b div bx;
          y = 4 * b;
          p = int (fd_data f) + tx * uint x + ty * uint y in
      bind_res (if nx f - x < 4 \<or> ny f - y < 4
                then zfp_encode_partial_block_strided_2 enc z m p (unat (min (nx f - x) 4)) (unat (min (ny f - y) 4)) tx ty
                else zfp_encode_block_strided_2 enc z m p tx ty) (\<lambda>(_, z). Inr z))"

definition omp_block_strided_3 ::
  "'a::len encoder \<Rightarrow> zfp_field \<Rightarrow> 'a word list \<Rightarrow> u32 \<Rightarrow> zfp_stream \<Rightarrow> err + zfp_stream" where
  "omp_block_strided_3 enc f m block s =
     (let tx = stride_of (sx f) 1; ty = stride_of (sy f) (sint (nx f)); tz = stride_of (sz f) (sint (nx f * ny f));
          bx = (nx f + 3) div 4; by' = (ny f + 3) div 4;
          b = block;
          x = 4 * (b mod bx); b = b div bx;
          y = 4 * (b mod by'); b = b div by';
          z = 4 * b;
          p = int (fd_data f) + tx * uint x + ty * uint y + tz * uint z in
      bind_res (if nx f - x < 4 \<or> ny f - y < 4 \<or> nz f - z < 4
                then zfp_encode_partial_block_strided_3 enc s m p (unat (min (nx f - x) 4)) (unat (min (ny f - y) 4))
                       (unat (min (nz f - z) 4)) tx ty tz
                else zfp_encode_block_strided_3 enc s m p tx ty tz) (\<lambda>(_, s). Inr s))"

definition omp_block_strided_4 ::
  "'a::len encoder \<Rightarrow> zfp_field \<Rightarrow> 'a word list \<Rightarrow> u32 \<Rightarrow> zfp_stream \<Rightarrow> err + zfp_stream" where
  "omp_block_strided_4 enc f m block s =
     (let tx = stride_of (sx f) 1; ty = stride_of (sy f) (sint (nx f)); tz = stride_of (sz f) (sint (nx f * ny f));
          tw = stride_of (sw f) (sint (nx f * ny f * nz f));
          bx = (nx f + 3) div 4; by' = (ny f + 3) div 4; bz = (nz f + 3) div 4;
          b = block;
          x = 4 * (b mod bx); b = b div bx;
          y = 4 * (b mod by'); b = b div by';
          z = 4 * (b mod bz); b = b div bz;
          w = 4 * b;
          p = int (fd_data f) + tx * uint x + ty * uint y + tz * uint z + tw * uint w in
      bind_res (if nx f - x < 4 \<or> ny f - y < 4 \<or> nz f - z < 4 \<or> nw f - w < 4
                then zfp_encode_partial_block_strided_4 enc s m p (unat (min (nx f - x) 4)) (unat (min (ny f - y) 4))
                       (unat (min (nz f - z) 4)) (unat (min (nw f - w) 4)) tx ty tz tw
                else zfp_encode_block_strided_4 enc s m p tx ty tz tw) (\<lambda>(_, s). Inr s))"

text \<open>The functions, and their table in \<^verbatim>\<open>zfp_compress\<close>.\<close>

definition compress_omp_1 :: "u32 \<Rightarrow> (nat \<Rightarrow> nat \<Rightarrow> u64 list option) \<Rightarrow> nat list \<Rightarrow> 'a::len encoder \<Rightarrow> 'a compressor" where
  "compress_omp_1 mt mal sched enc z f m =
     (let nblocks = (nx f + 3) div 4 in compress_par mt mal sched nblocks (omp_block_1 enc f m) z f)"

definition compress_strided_omp_1 :: "u32 \<Rightarrow> (nat \<Rightarrow> nat \<Rightarrow> u64 list option) \<Rightarrow> nat list \<Rightarrow> 'a::len encoder \<Rightarrow> 'a compressor" where
  "compress_strided_omp_1 mt mal sched enc z f m =
     (let nblocks = (nx f + 3) div 4 in compress_par mt mal sched nblocks (omp_block_strided_1 enc f m) z f)"

definition compress_strided_omp_2 :: "u32 \<Rightarrow> (nat \<Rightarrow> nat \<Rightarrow> u64 list option) \<Rightarrow> nat list \<Rightarrow> 'a::len encoder \<Rightarrow> 'a compressor" where
  "compress_strided_omp_2 mt mal sched enc z f m =
     (let bx = (nx f + 3) div 4; by' = (ny f + 3) div 4;
          nblocks = bx * by'
      in compress_par mt mal sched nblocks (omp_block_strided_2 enc f m) z f)"

definition compress_strided_omp_3 :: "u32 \<Rightarrow> (nat \<Rightarrow> nat \<Rightarrow> u64 list option) \<Rightarrow> nat list \<Rightarrow> 'a::len encoder \<Rightarrow> 'a compressor" where
  "compress_strided_omp_3 mt mal sched enc z f m =
     (let bx = (nx f + 3) div 4; by' = (ny f + 3) div 4; bz = (nz f + 3) div 4;
          nblocks = bx * by' * bz
      in compress_par mt mal sched nblocks (omp_block_strided_3 enc f m) z f)"

definition compress_strided_omp_4 :: "u32 \<Rightarrow> (nat \<Rightarrow> nat \<Rightarrow> u64 list option) \<Rightarrow> nat list \<Rightarrow> 'a::len encoder \<Rightarrow> 'a compressor" where
  "compress_strided_omp_4 mt mal sched enc z f m =
     (let bx = (nx f + 3) div 4; by' = (ny f + 3) div 4; bz = (nz f + 3) div 4; bw = (nw f + 3) div 4;
          nblocks = bx * by' * bz * bw
      in compress_par mt mal sched nblocks (omp_block_strided_4 enc f m) z f)"

definition omp_table :: "u32 \<Rightarrow> (nat \<Rightarrow> nat \<Rightarrow> u64 list option) \<Rightarrow> nat list \<Rightarrow> 'a::len encoder \<Rightarrow> bool \<Rightarrow> u32 \<Rightarrow>
    'a compressor" where
  "omp_table mt mal sched enc strided dims =
     (if dims = 1 then if strided then compress_strided_omp_1 mt mal sched enc else compress_omp_1 mt mal sched enc
      else if dims = 2 then compress_strided_omp_2 mt mal sched enc
      else if dims = 3 then compress_strided_omp_3 mt mal sched enc
      else compress_strided_omp_4 mt mal sched enc)"

text \<open>The entries of a build with OpenMP and without CUDA.\<close>

definition omp_entries :: "u32 \<Rightarrow> (nat \<Rightarrow> nat \<Rightarrow> u64 list option) \<Rightarrow> nat list \<Rightarrow> nat \<Rightarrow> 'a::len word \<Rightarrow> nat \<Rightarrow>
    zfp_exec_policy \<Rightarrow> bool \<Rightarrow> u32 \<Rightarrow> zfp_type \<Rightarrow> 'a compressor option" where
  "omp_entries mt mal sched eb nb pbits p strided dims t =
     (if p = zfp_exec_omp then Some (omp_table mt mal sched (scalar_encoder eb nb pbits t) strided dims) else None)"

end
