(* ===== verification/Zfp_Omp_Blocks.thy ===== *)
theory Zfp_Omp_Blocks
  imports Zfp_Omp
begin

text \<open>
  The blocks of an array by their numbers: the serial loops over the coordinates of the blocks are loops over the
  numbers that the OpenMP functions compute the coordinates from, and in reversible mode each block has a
  code that does not depend on the stream it goes to.
\<close>

section \<open>Numbers of blocks\<close>

text \<open>The number of blocks and the compression of a block, for all entries of the table at once.\<close>

definition omp_blocks :: "zfp_field \<Rightarrow> u32 \<Rightarrow> u32" where
  "omp_blocks f dims =
     (let bx = (nx f + 3) div 4; by' = (ny f + 3) div 4; bz = (nz f + 3) div 4; bw = (nw f + 3) div 4 in
      if dims = 1 then bx else if dims = 2 then bx * by' else if dims = 3 then bx * by' * bz else bx * by' * bz * bw)"

definition omp_block ::
  "'a::len encoder \<Rightarrow> bool \<Rightarrow> u32 \<Rightarrow> zfp_field \<Rightarrow> 'a word list \<Rightarrow> u32 \<Rightarrow> zfp_stream \<Rightarrow> err + zfp_stream" where
  "omp_block enc strided dims =
     (if dims = 1 then if strided then omp_block_strided_1 enc else omp_block_1 enc
      else if dims = 2 then omp_block_strided_2 enc
      else if dims = 3 then omp_block_strided_3 enc
      else omp_block_strided_4 enc)"

lemma omp_table_par:
  "omp_table mt mal sched enc strided dims z f m =
     compress_par mt mal sched (omp_blocks f dims) (omp_block enc strided dims f m) z f"
  by (simp add: omp_table_def omp_blocks_def omp_block_def compress_omp_1_def compress_strided_omp_1_def
      compress_strided_omp_2_def compress_strided_omp_3_def compress_strided_omp_4_def Let_def)

lemma blocks_loop:
  assumes "n + 4 \<le> 2 ^ 32"
  shows "blocks n f 0 s = loop ((n + 3) div 4) (\<lambda>i. f (4 * i)) 0 s"
proof -
  have "n \<le> 4 * i + 4 * k \<Longrightarrow> 4 * i + 4 * k \<le> n + 3 \<Longrightarrow> blocks n f (4 * i) s = loop k (\<lambda>i. f (4 * i)) i s" for i k
  proof (induction k arbitrary: i s)
    case 0
    then show ?case by (simp add: blocks.simps [of n f "4 * i"])
  next
    case (Suc k)
    have l: "4 * i < n" using Suc.prems by simp
    have l2: "4 * i + 4 < 2 ^ 32" using l assms by linarith
    have "blocks n f (4 * Suc i) t = loop k (\<lambda>i. f (4 * i)) (Suc i) t" for t by (rule Suc.IH) (use Suc.prems in simp_all)
    moreover have "4 * Suc i = 4 * i + 4" by simp
    ultimately show ?case using l l2 by (simp add: blocks.simps [of n f "4 * i" s] del: mult_Suc_right)
  qed
  moreover have "n \<le> 4 * 0 + 4 * ((n + 3) div 4)" "4 * 0 + 4 * ((n + 3) div 4) \<le> n + 3" by linarith+
  ultimately have "blocks n f (4 * 0) s = loop ((n + 3) div 4) (\<lambda>i. f (4 * i)) 0 s" by blast
  then show ?thesis by simp
qed


text \<open>The place of a block, computed with unsigned integers.\<close>

lemma block_pos:
  fixes w c :: u32
  assumes n: "unat w + 4 \<le> 2 ^ 32" and i: "unat c < (unat w + 3) div 4"
  shows "unat (4 * c) = 4 * unat c" "uint (4 * c) = int (4 * unat c)" "unat (w - 4 * c) = unat w - 4 * unat c"
    "w - 4 * c < 4 \<longleftrightarrow> unat w - 4 * unat c < 4" "unat (min (w - 4 * c) 4) = min (unat w - 4 * unat c) 4"
proof -
  have lt: "4 * unat c < unat w" using i by linarith
  show u: "unat (4 * c) = 4 * unat c"
    using lt n unat_mult_lem [of "4 :: u32" c] by simp
  then show "uint (4 * c) = int (4 * unat c)" by (simp only: uint_nat)
  show s: "unat (w - 4 * c) = unat w - 4 * unat c"
    using lt u by (subst unat_sub) (simp_all add: word_le_nat_alt)
  show "w - 4 * c < 4 \<longleftrightarrow> unat w - 4 * unat c < 4" by (simp add: word_less_nat_alt s)
  show "unat (min (w - 4 * c) 4) = min (unat w - 4 * unat c) 4" by (simp add: min_def word_le_nat_alt s)
qed

lemma u32_of_nat: "b < 2 ^ 32 \<Longrightarrow> unat (word_of_nat b :: u32) = b"
  by (simp add: unat_of_nat)

lemma block_count: "unat (w :: u32) + 4 \<le> 2 ^ 32 \<Longrightarrow> unat ((w + 3) div 4) = (unat w + 3) div 4"
  using unat_add_lem [of w 3] by (simp add: unat_div)

lemma unat_mult_small: "unat a * unat b < 2 ^ 32 \<Longrightarrow> unat (a * b :: u32) = unat a * unat b"
  using unat_mult_lem [of a b] by simp

text \<open>A block by its place in the array.\<close>

definition block_no :: "u32 \<Rightarrow> nat" where
  "block_no w = (unat w + 3) div 4"

definition at_1 :: "'a::len encoder \<Rightarrow> zfp_field \<Rightarrow> 'a word list \<Rightarrow> nat \<Rightarrow> zfp_stream \<Rightarrow> err + zfp_stream" where
  "at_1 enc f m x z =
     (let n = unat (nx f); tx = stride_of (sx f) 1; p = int (fd_data f) + tx * int x in
      bind_res (if n - x < 4 then zfp_encode_partial_block_strided_1 enc z m p (min (n - x) 4) tx
                else zfp_encode_block_strided_1 enc z m p tx) (\<lambda>(_, z). Inr z))"

definition at_2 ::
  "'a::len encoder \<Rightarrow> zfp_field \<Rightarrow> 'a word list \<Rightarrow> nat \<Rightarrow> nat \<Rightarrow> zfp_stream \<Rightarrow> err + zfp_stream" where
  "at_2 enc f m x y z =
     (let ax = unat (nx f); ay = unat (ny f);
          tx = stride_of (sx f) 1; ty = stride_of (sy f) (sint (nx f));
          p = int (fd_data f) + tx * int x + ty * int y in
      bind_res (if ax - x < 4 \<or> ay - y < 4
                then zfp_encode_partial_block_strided_2 enc z m p (min (ax - x) 4) (min (ay - y) 4) tx ty
                else zfp_encode_block_strided_2 enc z m p tx ty) (\<lambda>(_, z). Inr z))"

definition at_3 ::
  "'a::len encoder \<Rightarrow> zfp_field \<Rightarrow> 'a word list \<Rightarrow> nat \<Rightarrow> nat \<Rightarrow> nat \<Rightarrow> zfp_stream \<Rightarrow> err + zfp_stream" where
  "at_3 enc f m x y k z =
     (let ax = unat (nx f); ay = unat (ny f); az = unat (nz f);
          tx = stride_of (sx f) 1; ty = stride_of (sy f) (sint (nx f)); tz = stride_of (sz f) (sint (nx f * ny f));
          p = int (fd_data f) + tx * int x + ty * int y + tz * int k in
      bind_res (if ax - x < 4 \<or> ay - y < 4 \<or> az - k < 4
                then zfp_encode_partial_block_strided_3 enc z m p (min (ax - x) 4) (min (ay - y) 4)
                       (min (az - k) 4) tx ty tz
                else zfp_encode_block_strided_3 enc z m p tx ty tz) (\<lambda>(_, z). Inr z))"

definition at_4 ::
  "'a::len encoder \<Rightarrow> zfp_field \<Rightarrow> 'a word list \<Rightarrow> nat \<Rightarrow> nat \<Rightarrow> nat \<Rightarrow> nat \<Rightarrow> zfp_stream \<Rightarrow> err + zfp_stream" where
  "at_4 enc f m x y k l z =
     (let ax = unat (nx f); ay = unat (ny f); az = unat (nz f); aw = unat (nw f);
          tx = stride_of (sx f) 1; ty = stride_of (sy f) (sint (nx f));
          tz = stride_of (sz f) (sint (nx f * ny f)); tw = stride_of (sw f) (sint (nx f * ny f * nz f));
          p = int (fd_data f) + tx * int x + ty * int y + tz * int k + tw * int l in
      bind_res (if ax - x < 4 \<or> ay - y < 4 \<or> az - k < 4 \<or> aw - l < 4
                then zfp_encode_partial_block_strided_4 enc z m p (min (ax - x) 4) (min (ay - y) 4)
                       (min (az - k) 4) (min (aw - l) 4) tx ty tz tw
                else zfp_encode_block_strided_4 enc z m p tx ty tz tw) (\<lambda>(_, z). Inr z))"

text \<open>The sizes that neither the counters of the loops nor the number of blocks overflow for.\<close>

definition counted :: "zfp_field \<Rightarrow> nat \<Rightarrow> bool" where
  "counted f dims \<longleftrightarrow>
     unat (nx f) + 4 \<le> 2 ^ 32 \<and> unat (ny f) + 4 \<le> 2 ^ 32 \<and> unat (nz f) + 4 \<le> 2 ^ 32 \<and> unat (nw f) + 4 \<le> 2 ^ 32 \<and>
     nx f \<noteq> 0 \<and> (1 < dims \<longrightarrow> ny f \<noteq> 0) \<and> (2 < dims \<longrightarrow> nz f \<noteq> 0) \<and> (3 < dims \<longrightarrow> nw f \<noteq> 0) \<and>
     block_no (nx f) * (if 1 < dims then block_no (ny f) else 1) * (if 2 < dims then block_no (nz f) else 1) *
       (if 3 < dims then block_no (nw f) else 1) < 2 ^ 32"

lemma countedD:
  assumes "counted f dims"
  shows "unat (nx f) + 4 \<le> 2 ^ 32" "unat (ny f) + 4 \<le> 2 ^ 32" "unat (nz f) + 4 \<le> 2 ^ 32" "unat (nw f) + 4 \<le> 2 ^ 32"
    "unat ((nx f + 3) div 4) = block_no (nx f)" "unat ((ny f + 3) div 4) = block_no (ny f)"
    "unat ((nz f + 3) div 4) = block_no (nz f)" "unat ((nw f + 3) div 4) = block_no (nw f)"
  using assms unfolding counted_def block_no_def by (simp_all only: block_count)

lemma block_no_pos: "w \<noteq> 0 \<Longrightarrow> 0 < block_no w"
  by (simp add: block_no_def div_greater_zero_iff unat_gt_0 Suc_le_eq)

lemma block_start: "i < block_no w \<Longrightarrow> 4 * i < unat w"
  unfolding block_no_def by linarith

lemma omp_blocks_eq:
  "counted f 1 \<Longrightarrow> unat (omp_blocks f 1) = block_no (nx f)"
  "counted f 2 \<Longrightarrow> unat (omp_blocks f 2) = block_no (ny f) * block_no (nx f)"
  "counted f 3 \<Longrightarrow> unat (omp_blocks f 3) = block_no (nz f) * block_no (ny f) * block_no (nx f)"
  "counted f 4 \<Longrightarrow> unat (omp_blocks f 4) = block_no (nw f) * block_no (nz f) * block_no (ny f) * block_no (nx f)"
proof -
  show "unat (omp_blocks f 1) = block_no (nx f)" if "counted f 1"
    using countedD [OF that] by (simp add: omp_blocks_def)
  show "unat (omp_blocks f 2) = block_no (ny f) * block_no (nx f)" if c: "counted f 2"
  proof -
    have "block_no (nx f) * block_no (ny f) < 2 ^ 32" using c by (simp add: counted_def)
    then show ?thesis using countedD [OF c] by (simp add: omp_blocks_def Let_def unat_mult_small)
  qed
  show "unat (omp_blocks f 3) = block_no (nz f) * block_no (ny f) * block_no (nx f)" if c: "counted f 3"
  proof -
    have t: "block_no (nx f) * block_no (ny f) * block_no (nz f) < 2 ^ 32" "0 < block_no (nz f)"
      using c block_no_pos [of "nz f"] by (simp_all add: counted_def)
    then have "block_no (nx f) * block_no (ny f) \<le> block_no (nx f) * block_no (ny f) * block_no (nz f)" by simp
    with t have "block_no (nx f) * block_no (ny f) < 2 ^ 32" by linarith
    with t show ?thesis using countedD [OF c] by (simp add: omp_blocks_def Let_def unat_mult_small)
  qed
  show "unat (omp_blocks f 4) = block_no (nw f) * block_no (nz f) * block_no (ny f) * block_no (nx f)" if c: "counted f 4"
  proof -
    have t: "block_no (nx f) * block_no (ny f) * block_no (nz f) * block_no (nw f) < 2 ^ 32" "0 < block_no (nz f)" "0 < block_no (nw f)"
      using c block_no_pos [of "nz f"] block_no_pos [of "nw f"] by (simp_all add: counted_def)
    then have "block_no (nx f) * block_no (ny f) \<le> block_no (nx f) * block_no (ny f) * block_no (nz f)"
      "block_no (nx f) * block_no (ny f) * block_no (nz f) \<le> block_no (nx f) * block_no (ny f) * block_no (nz f) * block_no (nw f)"
      by simp_all
    with t have "block_no (nx f) * block_no (ny f) < 2 ^ 32" "block_no (nx f) * block_no (ny f) * block_no (nz f) < 2 ^ 32"
      by linarith+
    with t show ?thesis using countedD [OF c] by (simp add: omp_blocks_def Let_def unat_mult_small)
  qed
qed

text \<open>The block of a number, where the OpenMP loops compress it.\<close>

lemma omp_at_1:
  assumes c: "counted f 1" and b: "b < block_no (nx f)"
  shows "omp_block_strided_1 enc f m (word_of_nat b) = at_1 enc f m (4 * b)"
proof -
  note c = countedD [OF c]
  have u: "unat (word_of_nat b :: u32) = b"
    by (rule u32_of_nat) (use b c(1) in \<open>simp add: block_no_def\<close>)
  have px: "unat (word_of_nat b :: u32) < (unat (nx f) + 3) div 4" using b by (simp add: u block_no_def)
  show ?thesis
    by (rule ext) (simp only: omp_block_strided_1_def at_1_def Let_def block_pos [OF c(1) px] u)
qed

lemma omp_at_2:
  fixes f :: zfp_field
  defines "Bx \<equiv> block_no (nx f)" and "By \<equiv> block_no (ny f)"
  assumes c: "counted f 2" and b: "b < By * Bx"
  shows "omp_block_strided_2 enc f m (word_of_nat b) = at_2 enc f m (4 * (b mod Bx)) (4 * (b div Bx))"
    and "b mod Bx < Bx" "b div Bx < By"
proof -
  have "b < 2 ^ 32" using b c by (simp add: counted_def Bx_def By_def mult.commute)
  then have u: "unat (word_of_nat b :: u32) = b" by (rule u32_of_nat)
  note c = countedD [OF c, folded Bx_def By_def]
  have x: "unat (word_of_nat b mod ((nx f + 3) div 4) :: u32) = b mod Bx" by (subst unat_mod) (simp only: c u)
  have y: "unat (word_of_nat b div ((nx f + 3) div 4) :: u32) = b div Bx" by (subst unat_div) (simp only: c u)
  show p: "b mod Bx < Bx" "b div Bx < By" using b by (cases Bx; simp add: less_mult_imp_div_less)+
  note px = p(1) [folded x, unfolded Bx_def block_no_def] and py = p(2) [folded y, unfolded By_def block_no_def]
  show "omp_block_strided_2 enc f m (word_of_nat b) = at_2 enc f m (4 * (b mod Bx)) (4 * (b div Bx))"
    by (rule ext)
      (simp only: omp_block_strided_2_def at_2_def Let_def block_pos [OF c(1) px] block_pos [OF c(2) py] x y)
qed

lemma omp_at_3:
  fixes f :: zfp_field
  defines "Bx \<equiv> block_no (nx f)" and "By \<equiv> block_no (ny f)" and "Bz \<equiv> block_no (nz f)"
  assumes c: "counted f 3" and b: "b < Bz * By * Bx"
  shows "omp_block_strided_3 enc f m (word_of_nat b) =
      at_3 enc f m (4 * (b mod Bx)) (4 * (b div Bx mod By)) (4 * (b div Bx div By))"
    and "b mod Bx < Bx" "b div Bx mod By < By" "b div Bx div By < Bz"
proof -
  let ?q = "word_of_nat b div ((nx f + 3) div 4) :: u32"
  have "b < 2 ^ 32" using b c by (simp add: counted_def Bx_def By_def Bz_def ac_simps)
  then have u: "unat (word_of_nat b :: u32) = b" by (rule u32_of_nat)
  note c = countedD [OF c, folded Bx_def By_def Bz_def]
  have x: "unat (word_of_nat b mod ((nx f + 3) div 4) :: u32) = b mod Bx" by (subst unat_mod) (simp only: c u)
  have q: "unat ?q = b div Bx" by (subst unat_div) (simp only: c u)
  have y: "unat (?q mod ((ny f + 3) div 4)) = b div Bx mod By" by (subst unat_mod) (simp only: c q)
  have k: "unat (?q div ((ny f + 3) div 4)) = b div Bx div By" by (subst unat_div) (simp only: c q)
  show p: "b mod Bx < Bx" "b div Bx mod By < By" "b div Bx div By < Bz"
    using b by (cases Bx; cases By; simp add: less_mult_imp_div_less)+
  note px = p(1) [folded x, unfolded Bx_def block_no_def] and py = p(2) [folded y, unfolded By_def block_no_def]
    and pz = p(3) [folded k, unfolded Bz_def block_no_def]
  show "omp_block_strided_3 enc f m (word_of_nat b) =
      at_3 enc f m (4 * (b mod Bx)) (4 * (b div Bx mod By)) (4 * (b div Bx div By))"
    by (rule ext) (simp only: omp_block_strided_3_def at_3_def Let_def block_pos [OF c(1) px] block_pos [OF c(2) py]
        block_pos [OF c(3) pz] x y k)
qed

lemma omp_at_4:
  fixes f :: zfp_field
  defines "Bx \<equiv> block_no (nx f)" and "By \<equiv> block_no (ny f)" and "Bz \<equiv> block_no (nz f)" and "Bw \<equiv> block_no (nw f)"
  assumes c: "counted f 4" and b: "b < Bw * Bz * By * Bx"
  shows "omp_block_strided_4 enc f m (word_of_nat b) =
      at_4 enc f m (4 * (b mod Bx)) (4 * (b div Bx mod By)) (4 * (b div Bx div By mod Bz)) (4 * (b div Bx div By div Bz))"
    and "b mod Bx < Bx" "b div Bx mod By < By" "b div Bx div By mod Bz < Bz" "b div Bx div By div Bz < Bw"
proof -
  let ?q = "word_of_nat b div ((nx f + 3) div 4) :: u32"
  let ?r = "?q div ((ny f + 3) div 4)"
  have "b < 2 ^ 32" using b c by (simp add: counted_def Bx_def By_def Bz_def Bw_def ac_simps)
  then have u: "unat (word_of_nat b :: u32) = b" by (rule u32_of_nat)
  note c = countedD [OF c, folded Bx_def By_def Bz_def Bw_def]
  have x: "unat (word_of_nat b mod ((nx f + 3) div 4) :: u32) = b mod Bx" by (subst unat_mod) (simp only: c u)
  have q: "unat ?q = b div Bx" by (subst unat_div) (simp only: c u)
  have y: "unat (?q mod ((ny f + 3) div 4)) = b div Bx mod By" by (subst unat_mod) (simp only: c q)
  have r: "unat ?r = b div Bx div By" by (subst unat_div) (simp only: c q)
  have k: "unat (?r mod ((nz f + 3) div 4)) = b div Bx div By mod Bz" by (subst unat_mod) (simp only: c r)
  have w: "unat (?r div ((nz f + 3) div 4)) = b div Bx div By div Bz" by (subst unat_div) (simp only: c r)
  show p: "b mod Bx < Bx" "b div Bx mod By < By" "b div Bx div By mod Bz < Bz" "b div Bx div By div Bz < Bw"
    using b by (cases Bx; cases By; cases Bz; simp add: less_mult_imp_div_less)+
  note px = p(1) [folded x, unfolded Bx_def block_no_def] and py = p(2) [folded y, unfolded By_def block_no_def]
    and pz = p(3) [folded k, unfolded Bz_def block_no_def] and pw = p(4) [folded w, unfolded Bw_def block_no_def]
  show "omp_block_strided_4 enc f m (word_of_nat b) =
      at_4 enc f m (4 * (b mod Bx)) (4 * (b div Bx mod By)) (4 * (b div Bx div By mod Bz)) (4 * (b div Bx div By div Bz))"
    by (rule ext) (simp only: omp_block_strided_4_def at_4_def Let_def block_pos [OF c(1) px] block_pos [OF c(2) py]
        block_pos [OF c(3) pz] block_pos [OF c(4) pw] x y k w)
qed

text \<open>The serial loops as loops over the numbers of the blocks.\<close>

lemma omp_serial:
  shows "counted f 1 \<Longrightarrow> compress_strided_1 enc z f m =
      loop (block_no (nx f)) (\<lambda>b. omp_block_strided_1 enc f m (word_of_nat b)) 0 z"
    and "counted f 2 \<Longrightarrow> compress_strided_2 enc z f m =
      loop (block_no (ny f) * block_no (nx f)) (\<lambda>b. omp_block_strided_2 enc f m (word_of_nat b)) 0 z"
    and "counted f 3 \<Longrightarrow> compress_strided_3 enc z f m =
      loop (block_no (nz f) * block_no (ny f) * block_no (nx f)) (\<lambda>b. omp_block_strided_3 enc f m (word_of_nat b)) 0 z"
    and "counted f 4 \<Longrightarrow> compress_strided_4 enc z f m =
      loop (block_no (nw f) * block_no (nz f) * block_no (ny f) * block_no (nx f))
        (\<lambda>b. omp_block_strided_4 enc f m (word_of_nat b)) 0 z"
proof -
  show "compress_strided_1 enc z f m = loop (block_no (nx f)) (\<lambda>b. omp_block_strided_1 enc f m (word_of_nat b)) 0 z"
    if c: "counted f 1"
  proof -
    have "compress_strided_1 enc z f m = loop (block_no (nx f)) (\<lambda>b. at_1 enc f m (4 * b)) 0 z"
      unfolding compress_strided_1_def Let_def blocks_loop [OF countedD(1) [OF c]] block_no_def
      by (rule loop_cong) (simp add: at_1_def Let_def min_def)
    also have "\<dots> = loop (block_no (nx f)) (\<lambda>b. omp_block_strided_1 enc f m (word_of_nat b)) 0 z"
      by (rule loop_cong) (simp add: omp_at_1 [OF c])
    finally show ?thesis .
  qed
  show "compress_strided_2 enc z f m =
      loop (block_no (ny f) * block_no (nx f)) (\<lambda>b. omp_block_strided_2 enc f m (word_of_nat b)) 0 z"
    if c: "counted f 2"
  proof -
    have "compress_strided_2 enc z f m = loop (block_no (ny f)) (\<lambda>y. loop (block_no (nx f)) (\<lambda>x. at_2 enc f m (4 * x) (4 * y)) 0) 0 z"
      unfolding compress_strided_2_def Let_def blocks_loop [OF countedD(1) [OF c]] blocks_loop [OF countedD(2) [OF c]]
        block_no_def at_2_def ..
    also have "\<dots> = loop (block_no (ny f) * block_no (nx f)) (\<lambda>b. omp_block_strided_2 enc f m (word_of_nat b)) 0 z"
      unfolding loop_nested by (rule loop_cong) (simp add: omp_at_2 [OF c])
    finally show ?thesis .
  qed
  show "compress_strided_3 enc z f m =
      loop (block_no (nz f) * block_no (ny f) * block_no (nx f)) (\<lambda>b. omp_block_strided_3 enc f m (word_of_nat b)) 0 z"
    if c: "counted f 3"
  proof -
    have "compress_strided_3 enc z f m = loop (block_no (nz f)) (\<lambda>k. loop (block_no (ny f)) (\<lambda>y.
        loop (block_no (nx f)) (\<lambda>x. at_3 enc f m (4 * x) (4 * y) (4 * k)) 0) 0) 0 z"
      unfolding compress_strided_3_def Let_def blocks_loop [OF countedD(1) [OF c]] blocks_loop [OF countedD(2) [OF c]]
        blocks_loop [OF countedD(3) [OF c]] block_no_def at_3_def ..
    also have "\<dots> = loop (block_no (nz f) * block_no (ny f) * block_no (nx f)) (\<lambda>b. omp_block_strided_3 enc f m (word_of_nat b)) 0 z"
      unfolding loop_nested_3 by (rule loop_cong) (simp add: omp_at_3 [OF c])
    finally show ?thesis .
  qed
  show "compress_strided_4 enc z f m =
      loop (block_no (nw f) * block_no (nz f) * block_no (ny f) * block_no (nx f))
        (\<lambda>b. omp_block_strided_4 enc f m (word_of_nat b)) 0 z" if c: "counted f 4"
  proof -
    have "compress_strided_4 enc z f m = loop (block_no (nw f)) (\<lambda>l. loop (block_no (nz f)) (\<lambda>k. loop (block_no (ny f)) (\<lambda>y.
        loop (block_no (nx f)) (\<lambda>x. at_4 enc f m (4 * x) (4 * y) (4 * k) (4 * l)) 0) 0) 0) 0 z"
      unfolding compress_strided_4_def Let_def blocks_loop [OF countedD(1) [OF c]] blocks_loop [OF countedD(2) [OF c]]
        blocks_loop [OF countedD(3) [OF c]] blocks_loop [OF countedD(4) [OF c]] block_no_def at_4_def ..
    also have "\<dots> = loop (block_no (nw f) * block_no (nz f) * block_no (ny f) * block_no (nx f))
        (\<lambda>b. omp_block_strided_4 enc f m (word_of_nat b)) 0 z"
      unfolding loop_nested_4 by (rule loop_cong) (simp add: omp_at_4 [OF c])
    finally show ?thesis .
  qed
qed

lemma omp_contiguous_1:
  assumes n: "unat (nx f) + 4 \<le> 2 ^ 32"
  shows "compress_1 enc z f m = loop (block_no (nx f)) (\<lambda>b. omp_block_1 enc f m (word_of_nat b)) 0 z"
proof -
  define k where "k = unat (nx f) div 4"
  have N: "block_no (nx f) = k + (if 4 * k < unat (nx f) then 1 else 0)"
    by (simp add: block_no_def k_def) presburger
  have mx: "unat (nx f AND NOT 3) = 4 * k"
    unfolding k_def by (rule unat_clear_2)
  have u: "unat (word_of_nat b :: u32) = b" if "b \<le> k" for b
    by (rule u32_of_nat) (use that n in \<open>simp add: k_def\<close>)
  have full: "omp_block_1 enc f m (word_of_nat b) z = bind_res (enc 1 z (drop (fd_data f + 4 * b) m)) (\<lambda>(_, z). Inr z)"
    if b: "b < k" for b z
  proof -
    have px: "unat (word_of_nat b :: u32) < (unat (nx f) + 3) div 4" using b by (simp add: u k_def)
    have "\<not> unat (nx f) - 4 * b < 4" using b by (simp add: k_def)
    then show ?thesis unfolding omp_block_1_def Let_def block_pos [OF n px] using b by (simp add: u)
  qed
  have part: "omp_block_1 enc f m (word_of_nat k) z = bind_res (zfp_encode_partial_block_strided_1 enc z m
      (int (fd_data f + 4 * k)) (unat (nx f) - 4 * k) 1) (\<lambda>(_, z). Inr z)" if b: "4 * k < unat (nx f)" for z
  proof -
    have px: "unat (word_of_nat k :: u32) < (unat (nx f) + 3) div 4" using b by (simp add: u) 
    have "unat (nx f) - 4 * k < 4" by (simp add: k_def)
    then show ?thesis unfolding omp_block_1_def Let_def block_pos [OF n px] by (simp add: u min_def)
  qed
  have "4 * k + 4 \<le> 2 ^ 32" using n by (simp add: k_def)
  note l = blocks_loop [OF this]
  have "(4 * k + 3) div 4 = k" by simp
  then have "blocks (4 * k) (\<lambda>x z. bind_res (enc 1 z (drop (fd_data f + x) m)) (\<lambda>(_, z). Inr z)) 0 z =
      loop k (\<lambda>b. omp_block_1 enc f m (word_of_nat b)) 0 z"
    unfolding l by (simp only:) (rule loop_cong, simp add: full)
  then show ?thesis
    unfolding compress_1_def Let_def mx N
    by (cases "4 * k < unat (nx f)") (simp_all add: loop_Suc_end part bind_res_Inr_right del: loop.simps cong: bind_res_cong)
qed

section \<open>The code of a block\<close>

text \<open>\<open>g\<close> appends the bits \<open>c\<close>, at most \<open>k\<close>, to any stream that has room for \<open>k\<close>.\<close>

definition appends :: "nat \<Rightarrow> (zfp_stream \<Rightarrow> err + zfp_stream) \<Rightarrow> bool list \<Rightarrow> bool" where
  "appends k g c \<longleftrightarrow> length c \<le> k \<and>
     (\<forall>z. rev_mode z \<and> bs_ok (zs_bits z) \<and> k \<le> room (zs_bits z) \<longrightarrow>
        (\<exists>s. g z = Inr (z\<lparr>zs_bits := s\<rparr>) \<and> bs_ok s \<and> written s = written (zs_bits z) @ c \<and>
          room s + length c = room (zs_bits z)))"

lemma appendsD:
  assumes "appends k g c" and "rev_mode z" and "bs_ok (zs_bits z)" and "k \<le> room (zs_bits z)"
  shows "\<exists>s. g z = Inr (z\<lparr>zs_bits := s\<rparr>) \<and> bs_ok s \<and> written s = written (zs_bits z) @ c \<and> room s + length c = room (zs_bits z)"
  using assms unfolding appends_def by blast

lemma lossless_appends: "lossless e f src a k \<Longrightarrow> \<exists>c. appends k e c"
  unfolding lossless_def appends_def by (elim exE, rule_tac x = c in exI) simp

context block_coder
begin

lemma at_1_code:
  assumes d: "1 \<in> dims" and g: "\<forall>i\<in>field_cells f. good (src ! i)"
    and f: "field_fits f (length src)" "ny f = 0"
    and x: "4 * x < unat (nx f)"
  shows "\<exists>c. appends (cap 1) (at_1 enc f src (4 * x)) c"
proof -
  note g = g [unfolded field_cells_def Let_def if_P [OF f(2)]]
    and fit = f(1) [unfolded field_fits_def Let_def if_P [OF f(2)]]
  have e: "4 dvd 4 * j" for j :: nat by simp
  from lossless_appends [OF lossless_block_1 [OF d ball_sub [OF g cells_block(1) [OF starts_in [OF x(1) e]]]
        starts_pos(1) [OF x(1)] starts_pos(2) fits_starts(1) [OF fit]]]
  show ?thesis by (simp add: at_1_def [abs_def] Let_def min_less_iff_disj)
qed

lemma at_2_code:
  assumes d: "2 \<in> dims" and g: "\<forall>i\<in>field_cells f. good (src ! i)"
    and f: "field_fits f (length src)" "ny f \<noteq> 0" "nz f = 0"
    and x: "4 * x < unat (nx f)" "4 * y < unat (ny f)"
  shows "\<exists>c. appends (cap 2) (at_2 enc f src (4 * x) (4 * y)) c"
proof -
  note g = g [unfolded field_cells_def Let_def if_not_P [OF f(2)] if_P [OF f(3)]]
    and fit = f(1) [unfolded field_fits_def Let_def if_not_P [OF f(2)] if_P [OF f(3)]]
  have e: "4 dvd 4 * j" for j :: nat by simp
  from lossless_appends [OF lossless_block_2 [OF d ball_sub [OF g cells_block(2) [OF starts_in [OF x(1) e] starts_in [OF x(2) e]]]
        starts_pos(1) [OF x(1)] starts_pos(2) starts_pos(1) [OF x(2)] starts_pos(2) fits_starts(2) [OF fit]]]
  show ?thesis by (simp add: at_2_def [abs_def] Let_def min_less_iff_disj)
qed

lemma at_3_code:
  assumes d: "3 \<in> dims" and g: "\<forall>i\<in>field_cells f. good (src ! i)"
    and f: "field_fits f (length src)" "ny f \<noteq> 0" "nz f \<noteq> 0" "nw f = 0"
    and x: "4 * x < unat (nx f)" "4 * y < unat (ny f)" "4 * k < unat (nz f)"
  shows "\<exists>c. appends (cap 3) (at_3 enc f src (4 * x) (4 * y) (4 * k)) c"
proof -
  note g = g [unfolded field_cells_def Let_def if_not_P [OF f(2)] if_not_P [OF f(3)] if_P [OF f(4)]]
    and fit = f(1) [unfolded field_fits_def Let_def if_not_P [OF f(2)] if_not_P [OF f(3)] if_P [OF f(4)]]
  have e: "4 dvd 4 * j" for j :: nat by simp
  from lossless_appends [OF lossless_block_3 [OF d ball_sub [OF g cells_block(3) [OF starts_in [OF x(1) e] starts_in [OF x(2) e] starts_in [OF x(3) e]]]
        starts_pos(1) [OF x(1)] starts_pos(2) starts_pos(1) [OF x(2)] starts_pos(2) starts_pos(1) [OF x(3)] starts_pos(2) fits_starts(3) [OF fit]]]
  show ?thesis by (simp add: at_3_def [abs_def] Let_def min_less_iff_disj)
qed

lemma at_4_code:
  assumes d: "4 \<in> dims" and g: "\<forall>i\<in>field_cells f. good (src ! i)"
    and f: "field_fits f (length src)" "ny f \<noteq> 0" "nz f \<noteq> 0" "nw f \<noteq> 0"
    and x: "4 * x < unat (nx f)" "4 * y < unat (ny f)" "4 * k < unat (nz f)" "4 * l < unat (nw f)"
  shows "\<exists>c. appends (cap 4) (at_4 enc f src (4 * x) (4 * y) (4 * k) (4 * l)) c"
proof -
  note g = g [unfolded field_cells_def Let_def if_not_P [OF f(2)] if_not_P [OF f(3)] if_not_P [OF f(4)]]
    and fit = f(1) [unfolded field_fits_def Let_def if_not_P [OF f(2)] if_not_P [OF f(3)] if_not_P [OF f(4)]]
  have e: "4 dvd 4 * j" for j :: nat by simp
  from lossless_appends [OF lossless_block_4 [OF d ball_sub [OF g cells_block(4) [OF starts_in [OF x(1) e] starts_in [OF x(2) e] starts_in [OF x(3) e] starts_in [OF x(4) e]]]
        starts_pos(1) [OF x(1)] starts_pos(2) starts_pos(1) [OF x(2)] starts_pos(2) starts_pos(1) [OF x(3)] starts_pos(2) starts_pos(1) [OF x(4)] starts_pos(2) fits_starts(4) [OF fit]]]
  show ?thesis by (simp add: at_4_def [abs_def] Let_def min_less_iff_disj)
qed


lemma gather_contiguous:
  assumes "p + 4 \<le> length src"
  shows "gather_1 src (int p) 1 = Inr (take 4 (drop p src))"
proof -
  have "fits_1 (int p) 4 1 (length src)" using assms by (simp add: fits_1_def)
  then obtain q where q: "gather_1 src (int p) 1 = Inr q" "length q = 4" "match_1 q 0 src (int p) 4 1"
    using gather_1_ok by blast
  have "q = take 4 (drop p src)"
    by (rule nth_equalityI) (use q assms in \<open>simp_all add: match_1_def nat_int_add\<close>)
  with q(1) show ?thesis by simp
qed

lemma contiguous_at_1:
  assumes d: "1 \<in> dims" and c: "counted f 1" and b: "b < block_no (nx f)" and s: "sx f = 0"
    and l: "fd_data f + unat (nx f) \<le> length src"
  shows "omp_block_1 enc f src (word_of_nat b) = at_1 enc f src (4 * b)"
proof -
  note n = countedD(1) [OF c]
  have u: "unat (word_of_nat b :: u32) = b"
    by (rule u32_of_nat) (use b n in \<open>simp add: block_no_def\<close>)
  have px: "unat (word_of_nat b :: u32) < (unat (nx f) + 3) div 4" using b by (simp add: u block_no_def)
  have "enc 1 z (drop (fd_data f + 4 * b) src) = enc 1 z (take 4 (drop (fd_data f + 4 * b) src)) \<and>
      gather_1 src (int (fd_data f + 4 * b)) 1 = Inr (take 4 (drop (fd_data f + 4 * b) src))"
    if "\<not> unat (nx f) - 4 * b < 4" for z
    using enc_block [OF d, of "drop (fd_data f + 4 * b) src" z] gather_contiguous [of "fd_data f + 4 * b" src] that l
    by (simp add: BLOCK_SIZE_simps)
  then show ?thesis
    by (intro ext) (simp add: omp_block_1_def at_1_def Let_def block_pos [OF n px] u stride_of_def s
        zfp_encode_block_strided_1_def)
qed

text \<open>The blocks of a field, by their numbers.\<close>

lemma block_code:
  assumes d: "d = unat (zfp_field_dimensionality f)" "d \<in> dims" and c: "counted f d"
    and g: "\<forall>i\<in>field_cells f. good (src ! i)" and f: "field_fits f (length src)"
    and b: "b < unat (omp_blocks f (zfp_field_dimensionality f))"
  shows "\<exists>c. appends (cap d) (omp_block enc (sx f \<noteq> 0 \<or> sy f \<noteq> 0 \<or> sz f \<noteq> 0 \<or> sw f \<noteq> 0) (zfp_field_dimensionality f) f src
    (word_of_nat b)) c"
proof -
  have x: "nx f \<noteq> 0" using c by (simp add: counted_def)
  consider (1) "ny f = 0" | (2) "ny f \<noteq> 0" "nz f = 0" | (3) "ny f \<noteq> 0" "nz f \<noteq> 0" "nw f = 0"
      | (4) "ny f \<noteq> 0" "nz f \<noteq> 0" "nw f \<noteq> 0" by blast
  then show ?thesis
  proof cases
    case 1
    have D: "zfp_field_dimensionality f = 1" using 1 x by (simp add: zfp_field_dimensionality_def)
    then have d1: "d = 1" "1 \<in> dims" "counted f 1" using d c by simp_all
    have b: "b < block_no (nx f)" using b omp_blocks_eq(1) [OF d1(3)] by (simp add: D)
    note code = at_1_code [OF d1(2) g f 1 block_start [OF b]]
    show ?thesis
    proof (cases "sx f \<noteq> 0 \<or> sy f \<noteq> 0 \<or> sz f \<noteq> 0 \<or> sw f \<noteq> 0")
      case True
      then show ?thesis using code by (simp add: omp_block_def D omp_at_1 [OF d1(3) b] d1(1))
    next
      case False
      have "fd_data f + unat (nx f) \<le> length src"
        by (rule contiguous_fits) (use f 1 x False in \<open>simp_all add: field_fits_def stride_of_def\<close>)
      from contiguous_at_1 [OF d1(2,3) b _ this] False show ?thesis using code by (simp add: omp_block_def D d1(1))
    qed
  next
    case 2
    have D: "zfp_field_dimensionality f = 2" using 2 x by (simp add: zfp_field_dimensionality_def)
    then have d2: "d = 2" "2 \<in> dims" "counted f 2" using d c by simp_all
    have b: "b < block_no (ny f) * block_no (nx f)" using b omp_blocks_eq(2) [OF d2(3)] by (simp add: D)
    note at = omp_at_2 [OF d2(3) b]
    from at_2_code [OF d2(2) g f 2 block_start [OF at(2)] block_start [OF at(3)]] show ?thesis
      by (simp add: omp_block_def D at(1) d2(1))
  next
    case 3
    have D: "zfp_field_dimensionality f = 3" using 3 x by (simp add: zfp_field_dimensionality_def)
    then have d3: "d = 3" "3 \<in> dims" "counted f 3" using d c by simp_all
    have b: "b < block_no (nz f) * block_no (ny f) * block_no (nx f)" using b omp_blocks_eq(3) [OF d3(3)] by (simp add: D)
    note at = omp_at_3 [OF d3(3) b]
    from at_3_code [OF d3(2) g f 3 block_start [OF at(2)] block_start [OF at(3)] block_start [OF at(4)]] show ?thesis
      by (simp add: omp_block_def D at(1) d3(1))
  next
    case 4
    have D: "zfp_field_dimensionality f = 4" using 4 x by (simp add: zfp_field_dimensionality_def)
    then have d4: "d = 4" "4 \<in> dims" "counted f 4" using d c by simp_all
    have b: "b < block_no (nw f) * block_no (nz f) * block_no (ny f) * block_no (nx f)"
      using b omp_blocks_eq(4) [OF d4(3)] by (simp add: D)
    note at = omp_at_4 [OF d4(3) b]
    from at_4_code [OF d4(2) g f 4 block_start [OF at(2)] block_start [OF at(3)] block_start [OF at(4)] block_start [OF at(5)]]
    show ?thesis by (simp add: omp_block_def D at(1) d4(1))
  qed
qed

end

lemma serial_loop:
  assumes d: "d = unat (zfp_field_dimensionality f)" and c: "counted f d"
  shows "compress_table enc st (zfp_field_dimensionality f) z f m =
    loop (unat (omp_blocks f (zfp_field_dimensionality f)))
      (\<lambda>b. omp_block enc st (zfp_field_dimensionality f) f m (word_of_nat b)) 0 z"
proof -
  have x: "nx f \<noteq> 0" using c by (simp add: counted_def)
  then have "zfp_field_dimensionality f = 1 \<or> zfp_field_dimensionality f = 2 \<or> zfp_field_dimensionality f = 3 \<or>
      zfp_field_dimensionality f = 4"
    by (simp add: zfp_field_dimensionality_def)
  then consider (1) "zfp_field_dimensionality f = 1" | (2) "zfp_field_dimensionality f = 2"
      | (3) "zfp_field_dimensionality f = 3" | (4) "zfp_field_dimensionality f = 4" by blast
  then show ?thesis
  proof cases
    case 1
    then have c: "counted f 1" using c d by simp
    show ?thesis
      by (simp add: 1 compress_table_def omp_block_def omp_serial(1) [OF c] omp_contiguous_1 [OF countedD(1) [OF c]]
          omp_blocks_eq(1) [OF c])
  next
    case 2
    then have c: "counted f 2" using c d by simp
    show ?thesis by (simp add: 2 compress_table_def omp_block_def omp_serial(2) [OF c] omp_blocks_eq(2) [OF c])
  next
    case 3
    then have c: "counted f 3" using c d by simp
    show ?thesis by (simp add: 3 compress_table_def omp_block_def omp_serial(3) [OF c] omp_blocks_eq(3) [OF c])
  next
    case 4
    then have c: "counted f 4" using c d by simp
    show ?thesis by (simp add: 4 compress_table_def omp_block_def omp_serial(4) [OF c] omp_blocks_eq(4) [OF c])
  qed
qed

end
