(* ===== verification/Zfp_Omp_Runs.thy ===== *)
theory Zfp_Omp_Runs
  imports Zfp_Omp_Blocks
begin

text \<open>
  Runs of the OpenMP compressors in reversible mode: by an invariant of the chunks, every interleaving of their blocks ends
  with the same streams; joined, these are what the serial compressor writes.  Where the memory for the
  chunks comes from, and when it is large enough; and runs that go wrong.
\<close>

section \<open>Interleavings\<close>

text \<open>
  A chunk with memory of its own that has compressed its blocks from \<open>lo\<close> on, where the block \<open>b\<close> has the code \<open>C b\<close> of at
  most \<open>k\<close> bits, and has room for those that follow.
\<close>

definition worker_at :: "nat \<Rightarrow> (nat \<Rightarrow> bool list) \<Rightarrow> nat \<Rightarrow> worker \<Rightarrow> bool" where
  "worker_at k C lo w \<longleftrightarrow> w_at w = None \<and> lo \<le> w_next w \<and> w_next w \<le> w_end w \<and> bs_ok (w_bits w) \<and>
     written (w_bits w) = concat (List.map C [lo..<w_next w]) \<and> k * (w_end w - w_next w) \<le> room (w_bits w) \<and>
     (\<exists>l. room (w_bits w) + length (written (w_bits w)) = 64 * l)"

lemma worker_step:
  assumes w: "worker_at k C lo w" "w_next w < w_end w" and z: "rev_mode z"
    and a: "appends k (body (word_of_nat (w_next w))) (C (w_next w))"
  shows "\<exists>y. body (word_of_nat (w_next w)) (zfp_stream_set_bit_stream z (w_load m w)) = Inr y \<and>
    worker_at k C lo (w\<lparr>w_next := Suc (w_next w), w_bits := zs_bits y\<rparr>)"
proof -
  let ?z = "z\<lparr>zs_bits := w_bits w\<rparr>"
  have l: "zfp_stream_set_bit_stream z (w_load m w) = ?z"
    using w(1) by (simp add: worker_at_def w_load_def zfp_stream_set_bit_stream_def)
  have n: "w_end w - w_next w = Suc (w_end w - Suc (w_next w))" using w(2) by simp
  have "k \<le> room (zs_bits ?z)" using w(1) unfolding worker_at_def n by simp
  with appendsD [OF a, of ?z] w z obtain s where s: "body (word_of_nat (w_next w)) ?z = Inr (z\<lparr>zs_bits := s\<rparr>)" "bs_ok s"
    "written s = written (w_bits w) @ C (w_next w)" "room s + length (C (w_next w)) = room (w_bits w)"
    by (auto simp: worker_at_def)
  have c: "length (C (w_next w)) \<le> k" using a by (simp add: appends_def)
  have r: "k * (w_end w - Suc (w_next w)) \<le> room s"
    using w(1) s(4) c unfolding worker_at_def n by simp
  obtain l where "room (w_bits w) + length (written (w_bits w)) = 64 * l" using w(1) unfolding worker_at_def by blast
  with s(3,4) have "room s + length (written s) = 64 * l" by simp
  moreover have "written s = concat (List.map C [lo..<Suc (w_next w)])"
    using w(1) s(3) by (simp add: worker_at_def)
  ultimately have "worker_at k C lo (w\<lparr>w_next := Suc (w_next w), w_bits := s\<rparr>)"
    using w s(2) r unfolding worker_at_def by (intro conjI) auto
  with s(1) show ?thesis unfolding l by simp
qed

text \<open>After any sequence of steps each chunk is where its share of the steps has brought it.\<close>

lemma par_run_ok:
  assumes z: "rev_mode z" and a: "\<And>b. b < B \<Longrightarrow> appends k (body (word_of_nat b)) (C b)"
  shows "\<forall>i<length ws. worker_at k C (lo i) (ws ! i) \<and> w_end (ws ! i) \<le> B \<Longrightarrow>
    \<exists>ws'. par_run body z sched (m, ws) = Inr (m, ws') \<and> length ws' = length ws \<and>
      (\<forall>i<length ws. worker_at k C (lo i) (ws' ! i) \<and> w_end (ws' ! i) = w_end (ws ! i) \<and>
         w_next (ws' ! i) = min (w_end (ws ! i)) (w_next (ws ! i) + count_list sched i))"
proof (induction sched arbitrary: ws)
  case Nil
  then show ?case by (auto simp: worker_at_def min_def intro!: exI [of _ ws])
next
  case (Cons i sched)
  have "\<exists>vs. par_step body z i (m, ws) = Inr (m, vs) \<and> length vs = length ws \<and>
      (\<forall>j<length ws. worker_at k C (lo j) (vs ! j) \<and> w_end (vs ! j) = w_end (ws ! j) \<and>
         w_next (vs ! j) = (if i = j then min (w_end (ws ! j)) (Suc (w_next (ws ! j))) else w_next (ws ! j)))"
  proof (cases "i < length ws \<and> w_next (ws ! i) < w_end (ws ! i)")
    case True
    then have w: "worker_at k C (lo i) (ws ! i)" "w_next (ws ! i) < w_end (ws ! i)" "w_next (ws ! i) < B"
      using Cons.prems by fastforce+
    from worker_step [where body = body and C = C, OF w(1,2) z a [OF w(3)]] obtain y where
      y: "body (word_of_nat (w_next (ws ! i))) (zfp_stream_set_bit_stream z (w_load m (ws ! i))) = Inr y"
      "worker_at k C (lo i) ((ws ! i)\<lparr>w_next := Suc (w_next (ws ! i)), w_bits := zs_bits y\<rparr>)" by blast
    have "w_store m (ws ! i) (zs_bits y) = m" using w(1) by (simp add: w_store_def worker_at_def)
    then show ?thesis
      using True y Cons.prems by (intro exI [of _ "ws[i := (ws ! i)\<lparr>w_next := Suc (w_next (ws ! i)), w_bits := zs_bits y\<rparr>]"])
        (auto simp: par_step_def Let_def nth_list_update)
  next
    case False
    then show ?thesis using Cons.prems by (intro exI [of _ ws]) (auto simp: par_step_def worker_at_def)
  qed
  then obtain vs where vs: "par_step body z i (m, ws) = Inr (m, vs)" "length vs = length ws"
    "\<forall>j<length ws. worker_at k C (lo j) (vs ! j) \<and> w_end (vs ! j) = w_end (ws ! j) \<and>
       w_next (vs ! j) = (if i = j then min (w_end (ws ! j)) (Suc (w_next (ws ! j))) else w_next (ws ! j))" by blast
  have "\<forall>j<length vs. worker_at k C (lo j) (vs ! j) \<and> w_end (vs ! j) \<le> B" using vs Cons.prems by simp
  from Cons.IH [OF this] obtain us where us: "par_run body z sched (m, vs) = Inr (m, us)" "length us = length vs"
    "\<forall>j<length vs. worker_at k C (lo j) (us ! j) \<and> w_end (us ! j) = w_end (vs ! j) \<and>
       w_next (us ! j) = min (w_end (vs ! j)) (w_next (vs ! j) + count_list sched j)" by blast
  then show ?case using vs by (intro exI [of _ us]) auto
qed

lemma count_list_replicate: "count_list (replicate n x) y = (if x = y then n else 0)"
  by (cases "x = y"; induction n) simp_all

lemma count_undone: "i < length ws \<Longrightarrow> count_list (undone ws) i = w_end (ws ! i) - w_next (ws ! i)"
proof -
  have "count_list (concat (List.map (\<lambda>i. replicate (f i) i) [0..<n])) i = (if i < n then f i else 0)" for f n
    by (induction n) (auto simp: count_list_replicate)
  from this [of "\<lambda>i. w_end (ws ! i) - w_next (ws ! i)"] show "i < length ws \<Longrightarrow> ?thesis" by (simp add: undone_def)
qed

text \<open>Every interleaving ends with the codes of the chunks' blocks in their streams, in order.\<close>

lemma par_for_ok:
  assumes z: "rev_mode z" and a: "\<And>b. b < B \<Longrightarrow> appends k (body (word_of_nat b)) (C b)"
    and w: "\<forall>i<length ws. worker_at k C (lo i) (ws ! i) \<and> w_end (ws ! i) \<le> B"
  shows "\<exists>ws'. par_for body z sched (m, ws) = Inr (m, ws') \<and> length ws' = length ws \<and>
    (\<forall>i<length ws. worker_at k C (lo i) (ws' ! i) \<and> w_next (ws' ! i) = w_end (ws ! i))"
proof -
  from par_run_ok [OF z a w] obtain vs where vs: "par_run body z sched (m, ws) = Inr (m, vs)" "length vs = length ws"
    "\<forall>i<length ws. worker_at k C (lo i) (vs ! i) \<and> w_end (vs ! i) = w_end (ws ! i)" by blast
  have "\<forall>i<length vs. worker_at k C (lo i) (vs ! i) \<and> w_end (vs ! i) \<le> B" using vs w by simp
  from par_run_ok [OF z a this] obtain us where us: "par_run body z (undone vs) (m, vs) = Inr (m, us)" "length us = length vs"
    "\<forall>i<length vs. worker_at k C (lo i) (us ! i) \<and>
       w_next (us ! i) = min (w_end (vs ! i)) (w_next (vs ! i) + count_list (undone vs) i)" by blast
  have "w_next (us ! i) = w_end (ws ! i)" if i: "i < length ws" for i
  proof -
    have "w_next (vs ! i) \<le> w_end (vs ! i)" using vs(3) i unfolding worker_at_def by blast
    then show ?thesis using us(3) vs i by (simp add: count_undone)
  qed
  with vs us show ?thesis by (intro exI [of _ us]) (simp add: par_for_def)
qed

section \<open>Concatenation\<close>

lemma finish_chunk_ok:
  assumes w: "w_at w = None" "bs_ok (w_bits w)" "room (w_bits w) + length (written (w_bits w)) = 64 * l"
    and d: "bs_ok dst" "length (written (w_bits w)) \<le> room dst"
  shows "\<exists>dst' n'. finish_chunk True w (dst, n) = Inr (dst', n') \<and> bs_ok dst' \<and>
    written dst' = written dst @ written (w_bits w) \<and> room dst' + length (written (w_bits w)) = room dst"
proof -
  have b: "stream_wtell (w_bits w) = length (written (w_bits w))"
    using length_written [of "w_bits w"] w(2) by (simp add: bs_ok_def)
  from flush_written [OF w(2) refl w(3)] obtain k i s where s: "stream_flush (w_bits w) = Inr (i, s)"
    "unread (stream_rewind s) = written (w_bits w) @ replicate k False @ mem_bits (drop (bs_ptr s) (bs_mem s))" by blast
  have "length (written (w_bits w)) \<le> length (unread (stream_rewind s))" unfolding s(2) by simp
  from stream_copy_ok [OF d(1) _ this d(2)] obtain dst' src' where
    "stream_copy dst (stream_rewind s) (length (written (w_bits w))) = Inr (dst', src')" "bs_ok dst'"
    "written dst' = written dst @ take (length (written (w_bits w))) (unread (stream_rewind s))"
    "room dst' + length (written (w_bits w)) = room dst" by auto
  with s show ?thesis
    by (intro exI [of _ dst'] exI [of _ "n + length (written (w_bits w))"])
      (simp add: finish_chunk_def w_load_def w_store_def w(1) b stream_data_def)
qed

lemma finish_chunks_ok:
  assumes "\<forall>w\<in>set ws. w_at w = None \<and> bs_ok (w_bits w) \<and> (\<exists>l. room (w_bits w) + length (written (w_bits w)) = 64 * l)"
    and "bs_ok dst" and "length (concat (List.map (\<lambda>w. written (w_bits w)) ws)) \<le> room dst"
  shows "\<exists>dst' n'. finish_chunks True ws (dst, n) = Inr (dst', n') \<and> bs_ok dst' \<and>
    written dst' = written dst @ concat (List.map (\<lambda>w. written (w_bits w)) ws) \<and>
    room dst' + length (concat (List.map (\<lambda>w. written (w_bits w)) ws)) = room dst"
  using assms
proof (induction ws arbitrary: dst n)
  case (Cons w ws)
  obtain l where w: "w_at w = None" "bs_ok (w_bits w)" "room (w_bits w) + length (written (w_bits w)) = 64 * l"
    using Cons.prems(1) by auto
  have "length (written (w_bits w)) \<le> room dst" using Cons.prems(3) by simp
  from finish_chunk_ok [OF w Cons.prems(2) this] obtain d' n' where
    d: "finish_chunk True w (dst, n) = Inr (d', n')" "bs_ok d'" "written d' = written dst @ written (w_bits w)"
    "room d' + length (written (w_bits w)) = room dst" by blast
  have "\<exists>dst' n''. finish_chunks True ws (d', n') = Inr (dst', n'') \<and> bs_ok dst' \<and>
      written dst' = written d' @ concat (List.map (\<lambda>w. written (w_bits w)) ws) \<and>
      room dst' + length (concat (List.map (\<lambda>w. written (w_bits w)) ws)) = room d'"
    by (rule Cons.IH) (use Cons.prems d in auto)
  with d show ?case by auto
qed simp

section \<open>Chunks\<close>

lemma chunk_offset_eq:
  assumes "i \<le> unat ch" and "0 < unat ch"
  shows "unat (chunk_offset nb ch (word_of_nat i)) = unat nb * i div unat ch"
proof -
  have ib: "i < 2 ^ 32" using le_less_trans [OF assms(1) unat_u32_less] by simp
  have u: "unat (ucast (word_of_nat i :: u32) :: u64) = i" by (simp add: u32_of_nat [OF ib])
  have "unat nb * i < 2 ^ 32 * 2 ^ 32" by (rule mult_strict_mono) (use unat_u32_less [of nb] ib in simp_all)
  then have "unat (ucast nb * ucast (word_of_nat i :: u32) :: u64) = unat nb * i"
    using unat_mult_lem [of "ucast nb :: u64" "ucast (word_of_nat i :: u32)"] by (simp add: u u32_of_nat [OF ib])
  then have q: "unat (ucast nb * ucast (word_of_nat i :: u32) div ucast ch :: u64) = unat nb * i div unat ch"
    by (subst unat_div) simp
  have "unat nb * i div unat ch \<le> unat nb * unat ch div unat ch" by (intro div_le_mono mult_le_mono2 assms(1))
  also have "\<dots> = unat nb" using assms(2) by simp
  finally have "unat nb * i div unat ch < 2 ^ 32" using le_less_trans [OF _ unat_u32_less] by simp
  then show ?thesis unfolding chunk_offset_def by (simp add: unsigned_ucast_eq q take_bit_nat_eq_self)
qed

text \<open>A chunk has at most the rounded up quotient of blocks.\<close>

lemma chunk_blocks_le:
  fixes n c i :: nat
  assumes "0 < c"
  shows "n * Suc i div c - n * i div c \<le> (n + c - 1) div c"
proof -
  have r: "n * i mod c \<le> c - 1" using assms by (simp add: less_Suc_eq_le [symmetric])
  have "n * Suc i div c = (n * i mod c + n + n * i div c * c) div c" by (simp add: add.commute)
  also have "\<dots> = (n * i mod c + n) div c + n * i div c" using assms by (subst div_mult_self1) simp_all
  also have "(n * i mod c + n) div c \<le> (n + c - 1) div c" by (rule div_le_mono) (use r assms in simp)
  finally show ?thesis by simp
qed

lemma concat_chunks:
  fixes lo :: "nat \<Rightarrow> nat"
  assumes "\<And>i. i < n \<Longrightarrow> lo i \<le> lo (Suc i)" and "lo 0 = 0"
  shows "concat (List.map (\<lambda>i. concat (List.map C [lo i..<lo (Suc i)])) [0..<n]) = concat (List.map C [0..<lo n])"
  using assms
proof (induction n)
  case (Suc n)
  then have "concat (List.map (\<lambda>i. concat (List.map C [lo i..<lo (Suc i)])) [0..<n]) = concat (List.map C [0..<lo n])" by simp
  moreover have "[0..<lo (Suc n)] = [0..<lo n] @ [lo n..<lo (Suc n)]"
    using Suc.prems(1) [of n] upt_add_eq_append [of 0 "lo n" "lo (Suc n) - lo n"] by simp
  ultimately show ?case by simp
qed simp

lemma those_map: "\<forall>x\<in>set xs. f x \<noteq> None \<Longrightarrow> those (List.map f xs) = Some (List.map (\<lambda>x. the (f x)) xs)"
  by (induction xs) auto

text \<open>Memory is there when it is asked for, and at least as much.\<close>

definition mal_ok :: "(nat \<Rightarrow> nat \<Rightarrow> u64 list option) \<Rightarrow> bool" where
  "mal_ok mal \<longleftrightarrow> (\<forall>k n. \<exists>ws. mal k n = Some ws \<and> n div 8 \<le> length ws)"

lemma sint_small:
  assumes "unat w < 2 ^ 31"
  shows "sint (w :: u32) = int (unat w)"
proof -
  have "int (unat w) < 2 ^ 31" using assms by (simp only: of_nat_less_iff [symmetric, where 'a = int]) simp
  moreover have "- (2 ^ 31) \<le> int (unat w)" by (rule order_trans [OF _ of_nat_0_le_iff]) simp
  ultimately have "signed_take_bit 31 (int (unat w)) = int (unat w)" by (intro signed_take_bit_int_eq_self)
  moreover have "sint (word_of_nat (unat w) :: u32) = signed_take_bit 31 (int (unat w))"
    unfolding signed_of_nat by simp
  ultimately show ?thesis by simp
qed

lemma init_par_copy:
  assumes z: "rev_mode z" and m: "mal_ok mal" and g: "chunk_field f ch nb = Inr (Some g)"
    and by8: "by8 = unat (zfp_stream_maximum_size z g)"
  shows "\<exists>bufs. compress_init_par mal z f ch nb = Inr (Some (List.map (\<lambda>i. (None, stream_open (bufs i) by8)) [0..<unat ch])) \<and>
    (\<forall>i. by8 div 8 \<le> length (bufs i))"
proof -
  have r: "z = zfp_stream_set_reversible z" using z by (simp add: rev_mode_def)
  have "minbits z = 1" by (subst r) (simp add: zfp_stream_set_reversible_def)
  moreover have "maxbits z = 16657" by (subst r) (simp add: zfp_stream_set_reversible_def)
  ultimately have c: "minbits z \<noteq> maxbits z" by simp
  have a: "\<exists>ws. mal k n = Some ws \<and> n div 8 \<le> length ws" for k n using m unfolding mal_ok_def by blast
  obtain w0 where w0: "mal 0 (8 * unat ch) = Some w0" using a by blast
  have t: "those (List.map (\<lambda>i. mal (Suc i) by8) [0..<unat ch]) = Some (List.map (\<lambda>i. the (mal (Suc i) by8)) [0..<unat ch])"
  proof (rule those_map, rule ballI)
    fix i
    show "mal (Suc i) by8 \<noteq> None" using a [of "Suc i" by8] by auto
  qed
  have "by8 div 8 \<le> length (the (mal (Suc i) by8))" for i using a [of "Suc i" by8] by auto
  with c w0 t g show ?thesis
    by (intro exI [of _ "\<lambda>i. the (mal (Suc i) by8)"]) (simp add: compress_init_par_def Let_def by8 [symmetric] comp_def)
qed

lemma open_stream:
  assumes "by8 div 8 \<le> length ws"
  shows "bs_ok (stream_open ws by8)" "written (stream_open ws by8) = []" "room (stream_open ws by8) = 64 * (by8 div 8)"
  using assms by (simp_all add: stream_open_def) (simp add: room_def stream_wtell_def stream_rewind_def min_absorb2)

text \<open>
  The OpenMP functions in reversible mode: whatever the interleaving, they append to the stream the codes of all
  blocks in their order.
\<close>

lemma compress_par_ok:
  assumes z: "rev_mode z" "bs_ok (zs_bits z)" "k * unat nb \<le> room (zs_bits z)"
    and ch: "ch = chunk_count_omp z nb (thread_count_omp mt z)" "0 < unat ch" "unat ch < 2 ^ 31"
    and g: "chunk_field f ch nb = Inr (Some g)"
    and size: "k * ((unat nb + unat ch - 1) div unat ch) \<le> 64 * (unat (zfp_stream_maximum_size z g) div 8)"
    and m: "mal_ok mal"
    and a: "\<And>b. b < unat nb \<Longrightarrow> appends k (body (word_of_nat b)) (C b)"
  shows "\<exists>s. compress_par mt mal sched nb body z f = Inr (z\<lparr>zs_bits := s\<rparr>) \<and> bs_ok s \<and>
    written s = written (zs_bits z) @ concat (List.map C [0..<unat nb]) \<and>
    room s + length (concat (List.map C [0..<unat nb])) = room (zs_bits z)"
proof -
  define n where "n = unat ch"
  define lo where "lo i = unat nb * i div n" for i
  define by8 where "by8 = unat (zfp_stream_maximum_size z g)"
  from init_par_copy [OF z(1) m g refl] obtain bufs where bufs:
    "compress_init_par mal z f ch nb = Inr (Some (List.map (\<lambda>i. (None, stream_open (bufs i) by8)) [0..<n]))"
    "\<And>i. by8 div 8 \<le> length (bufs i)" unfolding n_def by8_def by blast
  define ws where "ws = List.map (\<lambda>i. new_worker nb ch i (None, stream_open (bufs i) by8)) [0..<n]"
  have lo: "lo 0 = 0" "lo n = unat nb" using ch(2) by (simp_all add: lo_def n_def)
  have mono: "lo i \<le> lo (Suc i)" for i unfolding lo_def by (intro div_le_mono mult_le_mono2) simp
  have off: "unat (chunk_offset nb ch (word_of_nat i)) = lo i" if "i \<le> n" for i
    using chunk_offset_eq [of i ch nb] that ch(2) by (simp add: lo_def n_def)
  have sint: "sint ch = int n"
    unfolding n_def by (rule sint_small) (use ch(3) in simp)
  have new: "new_worker nb ch i (None, s) = \<lparr>w_next = lo i, w_end = lo (Suc i), w_at = None, w_bits = s\<rparr>" if "i < n" for i s
    using off [of i] off [of "Suc i"] that by (simp add: new_worker_def Let_def sint add.commute)
  have le: "lo (Suc i) \<le> unat nb" if "i < n" for i
  proof -
    have "lo (Suc i) \<le> lo n" unfolding lo_def by (intro div_le_mono mult_le_mono2) (use that in simp)
    then show ?thesis by (simp add: lo(2))
  qed
  have w: "\<forall>i<length ws. worker_at k C (lo i) (ws ! i) \<and> w_end (ws ! i) \<le> unat nb"
  proof (intro allI impI)
    fix i
    assume i: "i < length ws"
    then have i: "i < n" by (simp add: ws_def)
    have "lo (Suc i) - lo i \<le> (unat nb + n - 1) div n"
      unfolding lo_def by (rule chunk_blocks_le) (use ch(2) in \<open>simp add: n_def\<close>)
    then have "k * (lo (Suc i) - lo i) \<le> k * ((unat nb + n - 1) div n)" by (rule mult_le_mono2)
    also have "\<dots> \<le> 64 * (by8 div 8)" using size unfolding n_def by8_def .
    finally have "k * (lo (Suc i) - lo i) \<le> 64 * (by8 div 8)" .
    with le [OF i] mono [of i] open_stream [OF bufs(2) [of i]] i show "worker_at k C (lo i) (ws ! i) \<and> w_end (ws ! i) \<le> unat nb"
      by (simp add: ws_def new worker_at_def)
  qed
  have lw: "length ws = n" by (simp add: ws_def)
  from par_for_ok [OF z(1) a w, of sched "stream_data (zs_bits z)"] obtain us where us: "par_for body z sched (stream_data (zs_bits z), ws) = Inr (stream_data (zs_bits z), us)"
    "length us = n" "\<forall>i<n. worker_at k C (lo i) (us ! i) \<and> w_next (us ! i) = w_end (ws ! i)" unfolding lw by blast
  have "us \<noteq> []" using us(2) ch(2) by (auto simp: n_def)
  then have hd: "w_at (hd us) = None" using us ch(2) by (simp add: hd_conv_nth worker_at_def n_def)
  have "concat (List.map (\<lambda>w. written (w_bits w)) us) = concat (List.map (\<lambda>i. concat (List.map C [lo i..<lo (Suc i)])) [0..<n])"
  proof (rule arg_cong [where f = concat], rule nth_equalityI)
    fix i
    assume "i < length (List.map (\<lambda>w. written (w_bits w)) us)"
    then have i: "i < n" by (simp add: us(2))
    then have "w_end (ws ! i) = lo (Suc i)" by (simp add: ws_def new)
    with us i show "List.map (\<lambda>w. written (w_bits w)) us ! i = List.map (\<lambda>i. concat (List.map C [lo i..<lo (Suc i)])) [0..<n] ! i"
      by (simp add: worker_at_def)
  qed (simp add: us(2))
  also have "\<dots> = concat (List.map C [0..<unat nb])" unfolding lo(2) [symmetric] by (rule concat_chunks [OF mono lo(1)])
  finally have cc: "concat (List.map (\<lambda>w. written (w_bits w)) us) = concat (List.map C [0..<unat nb])" .
  have "length (concat (List.map C [0..<b])) \<le> k * b" if "b \<le> unat nb" for b
    using that
  proof (induction b)
    case (Suc b)
    then have "length (C b) \<le> k" using a [of b] by (simp add: appends_def)
    with Suc show ?case by simp
  qed simp
  then have "length (concat (List.map C [0..<unat nb])) \<le> room (zs_bits z)" using z(3) le_trans by blast
  then have len: "length (concat (List.map (\<lambda>w. written (w_bits w)) us)) \<le> room (zs_bits z)" by (simp only: cc)
  have all: "\<forall>w\<in>set us. w_at w = None \<and> bs_ok (w_bits w) \<and> (\<exists>l. room (w_bits w) + length (written (w_bits w)) = 64 * l)"
  proof
    fix w
    assume "w \<in> set us"
    then obtain i where "i < n" "w = us ! i" using us(2) by (auto simp: in_set_conv_nth)
    then have "worker_at k C (lo i) w" using us(3) by simp
    then show "w_at w = None \<and> bs_ok (w_bits w) \<and> (\<exists>l. room (w_bits w) + length (written (w_bits w)) = 64 * l)"
      unfolding worker_at_def by blast
  qed
  from finish_chunks_ok [OF all z(2) len, of "stream_wtell (zs_bits z)", unfolded cc] obtain d o' where
    d: "finish_chunks True us (zs_bits z, stream_wtell (zs_bits z)) = Inr (d, o')" "bs_ok d"
    "written d = written (zs_bits z) @ concat (List.map C [0..<unat nb])"
    "room d + length (concat (List.map C [0..<unat nb])) = room (zs_bits z)" by blast
  have "compress_finish_par (z\<lparr>zs_bits := (zs_bits z)\<lparr>bs_mem := stream_data (zs_bits z)\<rparr>\<rparr>) us = Inr (z\<lparr>zs_bits := d\<rparr>)"
    using d(1) by (simp add: compress_finish_par_def hd zfp_stream_bit_stream_def stream_data_def)
  moreover have "List.map (\<lambda>i. new_worker nb ch i (List.map (\<lambda>i. (None, stream_open (bufs i) by8)) [0..<n] ! i)) [0..<n] = ws"
    unfolding ws_def by (rule map_cong [OF refl]) simp
  ultimately have "compress_par mt mal sched nb body z f = Inr (z\<lparr>zs_bits := d\<rparr>)"
    using us(1) by (simp add: compress_par_def ch(1) [symmetric] Let_def bufs(1))
  with d show ?thesis by blast
qed

section \<open>The size of the chunks' memory\<close>

text \<open>
  \<^verbatim>\<open>zfp_stream_maximum_size\<close> leaves out up to six bits of a block, and adds a header that the chunks do not have: the memory is enough
  for chunks of at most 24 blocks.
\<close>

lemma rev_params:
  assumes "rev_mode z"
  shows "minbits z = 1" "maxbits z = 16657" "maxprec z = 64" "is_reversible z"
proof -
  have r: "z = zfp_stream_set_reversible z" using assms by (simp add: rev_mode_def)
  show "minbits z = 1" by (subst r) (simp add: zfp_stream_set_reversible_def)
  show "maxbits z = 16657" by (subst r) (simp add: zfp_stream_set_reversible_def)
  show "maxprec z = 64" by (subst r) (simp add: zfp_stream_set_reversible_def)
  show "is_reversible z" by (subst r) (simp add: zfp_stream_set_reversible_def is_reversible_def)
qed

lemma cap_maxbits:
  assumes z: "rev_mode z" and t: "scalar_type eb (fd_type g) TYPE('a::len)" "LENGTH('a) = 2 ^ pbits"
    and d: "zfp_field_dimensionality g = d" "d \<in> {1, 2, 3, 4}" "fd_type g = zfp_type_double \<Longrightarrow> d \<noteq> 4"
  shows "scalar_cap eb (fd_type g) TYPE('a) pbits (unat d) \<le> unat (block_maxbits z g) + 6" "0 < unat (block_maxbits z g)"
    "unat (block_maxbits z g) \<le> 16657"
proof -
  have p: "pbits = 5" if "LENGTH('a) = 32" using that t(2) power_inject_exp [of "2 :: nat" pbits 5] by simp
  have q: "pbits = 6" if "LENGTH('a) = 64" using that t(2) power_inject_exp [of "2 :: nat" pbits 6] by simp
  have "scalar_cap eb (fd_type g) TYPE('a) pbits (unat d) \<le> unat (block_maxbits z g) + 6 \<and> 0 < unat (block_maxbits z g) \<and>
      unat (block_maxbits z g) \<le> 16657"
    using t(1) d(2,3) p q
    by (cases "fd_type g")
      (auto simp: scalar_type_def scalar_cap_def int_cap_def float_cap_def block_maxbits_def d(1) rev_params [OF z] Let_def
        BLOCK_SIZE_def min_def max_def word_le_nat_alt push_bit_eq_mult)
  then show "scalar_cap eb (fd_type g) TYPE('a) pbits (unat d) \<le> unat (block_maxbits z g) + 6"
    "0 < unat (block_maxbits z g)" "unat (block_maxbits z g) \<le> 16657" by simp_all
qed

lemma chunk_length:
  assumes "0 < unat ch" and "unat ch \<le> unat nb" and "unat nb \<le> 2 ^ 29"
  shows "unat (4 * (nb + ch - 1) div ch :: u32) = 4 * (unat nb + unat ch - 1) div unat ch"
proof -
  have l: "unat nb + unat ch < 2 ^ 32" "4 * (unat nb + unat ch - 1) < 2 ^ 32" using assms by simp_all
  have s: "unat (nb + ch) = unat nb + unat ch" using unat_add_lem [of nb ch] l(1) by simp
  have "unat (nb + ch - 1) = unat nb + unat ch - 1"
    using assms(1) s by (subst unat_sub) (simp_all add: word_le_nat_alt)
  then have "unat (4 * (nb + ch - 1)) = 4 * (unat nb + unat ch - 1)"
    using unat_mult_small [of 4 "nb + ch - 1"] l(2) by simp
  then show ?thesis by (subst unat_div) simp
qed

lemma chunk_field_blocks:
  fixes q n c :: nat
  assumes "0 < c" and "c \<le> n" and "q = 4 * (n + c - 1) div c"
  shows "(n + c - 1) div c \<le> (max q 1 + 3) div 4" "(max q 1 + 3) div 4 \<le> n" "0 < q"
proof -
  have k: "1 \<le> (n + c - 1) div c" using assms(1,2) by (simp add: Suc_le_eq div_greater_zero_iff)
  have "4 * ((n + c - 1) div c) * c \<le> 4 * (n + c - 1)" by simp
  then have le: "4 * ((n + c - 1) div c) \<le> q" unfolding assms(3) using assms(1) by (simp add: less_eq_div_iff_mult_less_eq)
  with k show "0 < q" "(n + c - 1) div c \<le> (max q 1 + 3) div 4" by linarith+
  have "n + c - 1 \<le> n * c"
  proof -
    obtain a b where "n = Suc a" "c = Suc b" using assms(1,2) by (cases n; cases c) auto
    then show ?thesis by simp
  qed
  then have "4 * (n + c - 1) div c \<le> (4 * n) * c div c" by (intro div_le_mono) simp
  then have "q \<le> 4 * n" using assms(1,3) by simp
  then show "(max q 1 + 3) div 4 \<le> n" using \<open>0 < q\<close> by linarith
qed

lemma block_no_max: "w \<noteq> 0 \<Longrightarrow> (max (unat w) (Suc 0) + 3) div 4 = block_no w"
  by (simp add: block_no_def max_absorb1 Suc_le_eq unat_gt_0)

lemma unat_3_4: "unat (3 :: u32) = 3" "unat (4 :: u32) = 4"
  by simp_all

lemma blocks_pos: "0 < (max n (Suc 0) + 3) div 4"
  by linarith

lemma field_counted:
  assumes n: "unat (nx f) + 4 \<le> 2 ^ 32" "unat (ny f) + 4 \<le> 2 ^ 32" "unat (nz f) + 4 \<le> 2 ^ 32" "unat (nw f) + 4 \<le> 2 ^ 32"
    and x: "nx f \<noteq> 0" and b: "field_blocks f \<le> 2 ^ 29"
  shows "counted f (unat (zfp_field_dimensionality f))" 
    "unat (omp_blocks f (zfp_field_dimensionality f)) \<le> field_blocks f"
    "0 < unat (omp_blocks f (zfp_field_dimensionality f))"
proof -
  note l = field_blocks_le [OF x, folded block_no_def]
  have "counted f (unat (zfp_field_dimensionality f)) \<and>
    unat (omp_blocks f (zfp_field_dimensionality f)) \<le> field_blocks f \<and>
    0 < unat (omp_blocks f (zfp_field_dimensionality f))"
  proof -
    consider (1) "ny f = 0" | (2) "ny f \<noteq> 0" "nz f = 0" | (3) "ny f \<noteq> 0" "nz f \<noteq> 0" "nw f = 0"
      | (4) "ny f \<noteq> 0" "nz f \<noteq> 0" "nw f \<noteq> 0" by blast
    then show ?thesis
    proof cases
      case 1
      have c: "counted f 1" using n x l(1) b by (simp add: counted_def)
      then show ?thesis using 1 x l(1) omp_blocks_eq(1) [OF c] block_no_pos [OF x] by (simp add: zfp_field_dimensionality_def)
    next
      case 2
      have c: "counted f 2" using n x 2 l(2) [OF 2(1)] b by (simp add: counted_def)
      then show ?thesis
        using 2 x l(2) [OF 2(1)] omp_blocks_eq(2) [OF c] block_no_pos [OF x] block_no_pos [OF 2(1)]
        by (simp add: zfp_field_dimensionality_def mult.commute)
    next
      case 3
      have c: "counted f 3" using n x 3 l(3) [OF 3(1,2)] b by (simp add: counted_def)
      then show ?thesis
        using 3 x c l(3) [OF 3(1,2)] omp_blocks_eq(3) [OF c] unat_3_4 block_no_pos [OF x] block_no_pos [OF 3(1)] block_no_pos [OF 3(2)]
        by (simp del: unsigned_numeral add: zfp_field_dimensionality_def ac_simps)
    next
      case 4
      have c: "counted f 4" using n x 4 l(4) [OF 4] b by (simp add: counted_def)
      then show ?thesis
        using 4 x c unat_3_4 l(4) [OF 4] omp_blocks_eq(4) [OF c] block_no_pos [OF x] block_no_pos [OF 4(1)] block_no_pos [OF 4(2)]
          block_no_pos [OF 4(3)]
        by (simp del: unsigned_numeral add: zfp_field_dimensionality_def ac_simps)
    qed
  qed
  then show "counted f (unat (zfp_field_dimensionality f))" 
    "unat (omp_blocks f (zfp_field_dimensionality f)) \<le> field_blocks f"
    "0 < unat (omp_blocks f (zfp_field_dimensionality f))" by blast+
qed

text \<open>The field of a chunk has the dimensionality of the whole and as many blocks as the largest chunk.\<close>

lemma chunk_field_ok:
  assumes n: "unat (nx f) + 4 \<le> 2 ^ 32" "unat (ny f) + 4 \<le> 2 ^ 32" "unat (nz f) + 4 \<le> 2 ^ 32" "unat (nw f) + 4 \<le> 2 ^ 32"
    and x: "nx f \<noteq> 0" and b: "field_blocks f \<le> 2 ^ 29"
    and nb: "nb = omp_blocks f (zfp_field_dimensionality f)" and ch: "0 < unat ch" "unat ch \<le> unat nb"
  shows "\<exists>g. chunk_field f ch nb = Inr (Some g) \<and> zfp_field_dimensionality g = zfp_field_dimensionality f \<and>
    fd_type g = fd_type f \<and> (\<forall>w \<in> {nx g, ny g, nz g, nw g}. unat w \<le> 4294967292) \<and>
    (unat nb + unat ch - 1) div unat ch \<le> field_blocks g \<and> field_blocks g \<le> field_blocks f"
proof -
  note c = field_counted [OF n x b, folded nb]
  define q where "q = 4 * (nb + ch - 1) div ch"
  have q: "unat q = 4 * (unat nb + unat ch - 1) div unat ch"
    unfolding q_def by (rule chunk_length [OF ch]) (use c(2) b in simp)
  note k = chunk_field_blocks [OF ch q]
  have q0: "q \<noteq> 0" using k(3) by (auto simp: unat_gt_0 [symmetric])
  define r where "r = (max (unat q) 1 + 3) div 4"
  define K where "K = (unat nb + unat ch - 1) div unat ch"
  note k = k [folded r_def K_def]
  have "q \<noteq> 0 \<Longrightarrow> unat q \<le> 4 * r" unfolding r_def by linarith
  then have ql: "unat q \<le> 4294967292" using q0 k(2) c(2) b by simp
  have ch0: "ch \<noteq> 0" using ch(1) by auto
  have CF: "chunk_field f ch nb = (if zfp_field_dimensionality f = 0 then Inr None else if ch = 0 then Inl Undefined
      else Inr (Some (if zfp_field_dimensionality f = 1 then f\<lparr>nx := q\<rparr>
        else if zfp_field_dimensionality f = 2 then f\<lparr>nx := 4, ny := q\<rparr>
        else if zfp_field_dimensionality f = 3 then f\<lparr>nx := 4, ny := 4, nz := q\<rparr>
        else f\<lparr>nx := 4, ny := 4, nz := 4, nw := q\<rparr>)))"
    unfolding chunk_field_def Let_def q_def ..
  consider (1) "ny f = 0" | (2) "ny f \<noteq> 0" "nz f = 0" | (3) "ny f \<noteq> 0" "nz f \<noteq> 0" "nw f = 0"
    | (4) "ny f \<noteq> 0" "nz f \<noteq> 0" "nw f \<noteq> 0" by blast
  then show ?thesis
  proof cases
    case 1
    have D: "zfp_field_dimensionality f = 1" "zfp_field_dimensionality (f\<lparr>nx := q\<rparr>) = 1"
      using 1 x q0 by (simp_all add: zfp_field_dimensionality_def)
    have N: "unat nb = block_no (nx f)" using omp_blocks_eq(1) [of f] c(1) nb by (simp add: D)
    define s where "s = (max (unat (ny f)) 1 + 3) div 4 * ((max (unat (nz f)) 1 + 3) div 4) * ((max (unat (nw f)) 1 + 3) div 4)"
    have s: "1 \<le> s" by (simp add: s_def Suc_le_eq blocks_pos)
    have "field_blocks f = unat nb * s" "field_blocks (f\<lparr>nx := q\<rparr>) = r * s"
      by (simp_all add: field_blocks_def s_def r_def N block_no_max [OF x] mult.assoc)
    moreover have "K * 1 \<le> r * s" by (rule mult_le_mono [OF k(1) s])
    ultimately show ?thesis
      using D 1 ch0 n ql k(2) unfolding K_def [symmetric]
      by (intro exI [of _ "f\<lparr>nx := q\<rparr>"]) (simp add: CF)
  next
    case 2
    have D: "zfp_field_dimensionality f = 2" "zfp_field_dimensionality (f\<lparr>nx := 4, ny := q\<rparr>) = 2"
      using 2 x q0 by (simp_all add: zfp_field_dimensionality_def)
    have N: "unat nb = block_no (ny f) * block_no (nx f)" using omp_blocks_eq(2) [of f] c(1) nb by (simp add: D)
    define s where "s = (max (unat (nw f)) 1 + 3) div 4"
    have s: "1 \<le> s" by (simp add: s_def Suc_le_eq blocks_pos)
    have "field_blocks f = unat nb * s" "field_blocks (f\<lparr>nx := 4, ny := q\<rparr>) = r * s"
      by (simp_all add: field_blocks_def s_def r_def N block_no_max [OF x] block_no_max [OF 2(1)] 2(2))
    moreover have "K * 1 \<le> r * s" by (rule mult_le_mono [OF k(1) s])
    ultimately show ?thesis
      using D 2 ch0 n ql k(2) unfolding K_def [symmetric]
      by (intro exI [of _ "f\<lparr>nx := 4, ny := q\<rparr>"])
        (simp add: CF)
  next
    case 3
    have D: "zfp_field_dimensionality f = 3" "zfp_field_dimensionality (f\<lparr>nx := 4, ny := 4, nz := q\<rparr>) = 3"
      using 3 x q0 by (simp_all add: zfp_field_dimensionality_def)
    have N: "unat nb = block_no (nz f) * block_no (ny f) * block_no (nx f)" using omp_blocks_eq(3) [of f] c(1) nb by (simp add: D)
    have "field_blocks f = unat nb" "field_blocks (f\<lparr>nx := 4, ny := 4, nz := q\<rparr>) = r"
      by (simp_all add: field_blocks_def r_def N block_no_max [OF x] block_no_max [OF 3(1)] block_no_max [OF 3(2)] 3(3))
    then show ?thesis
      using D 3 ch0 n ql k(1,2) unfolding K_def [symmetric]
      by (intro exI [of _ "f\<lparr>nx := 4, ny := 4, nz := q\<rparr>"])
        (simp add: CF)
  next
    case 4
    have D: "zfp_field_dimensionality f = 4" "zfp_field_dimensionality (f\<lparr>nx := 4, ny := 4, nz := 4, nw := q\<rparr>) = 4"
      using 4 x q0 by (simp_all add: zfp_field_dimensionality_def)
    have N: "unat nb = block_no (nw f) * block_no (nz f) * block_no (ny f) * block_no (nx f)"
      using omp_blocks_eq(4) [of f] c(1) nb by (simp add: D)
    have "field_blocks f = unat nb" "field_blocks (f\<lparr>nx := 4, ny := 4, nz := 4, nw := q\<rparr>) = r"
      by (simp_all add: field_blocks_def r_def N block_no_max [OF x] block_no_max [OF 4(1)] block_no_max [OF 4(2)]
          block_no_max [OF 4(3)])
    then show ?thesis
      using D 4 ch0 n ql k(1,2) unfolding K_def [symmetric]
      by (intro exI [of _ "f\<lparr>nx := 4, ny := 4, nz := 4, nw := q\<rparr>"])
        (simp add: CF)
  qed
qed

lemma words_ge: "n \<le> 64 * ((n + 63) div 64)" for n :: nat
  by linarith

lemma chunk_memory:
  assumes z: "rev_mode z" and t: "scalar_type eb (fd_type f) TYPE('a::len)" "LENGTH('a) = 2 ^ pbits"
    and n: "unat (nx f) + 4 \<le> 2 ^ 32" "unat (ny f) + 4 \<le> 2 ^ 32" "unat (nz f) + 4 \<le> 2 ^ 32" "unat (nw f) + 4 \<le> 2 ^ 32"
    and x: "nx f \<noteq> 0" and b: "field_blocks f \<le> 2 ^ 29" and db: "fd_type f = zfp_type_double \<longrightarrow> nw f = 0"
    and nb: "nb = omp_blocks f (zfp_field_dimensionality f)" and ch: "0 < unat ch" "unat ch \<le> unat nb"
      "unat nb \<le> 24 * unat ch"
  shows "\<exists>g. chunk_field f ch nb = Inr (Some g) \<and>
    scalar_cap eb (fd_type f) TYPE('a) pbits (unat (zfp_field_dimensionality f)) * ((unat nb + unat ch - 1) div unat ch) \<le>
      64 * (unat (zfp_stream_maximum_size z g) div 8)"
proof -
  from chunk_field_ok [OF n x b nb ch(1,2)] obtain g where g: "chunk_field f ch nb = Inr (Some g)"
    "zfp_field_dimensionality g = zfp_field_dimensionality f" "fd_type g = fd_type f"
    "\<forall>w \<in> {nx g, ny g, nz g, nw g}. unat w \<le> 4294967292"
    "(unat nb + unat ch - 1) div unat ch \<le> field_blocks g" "field_blocks g \<le> field_blocks f" by blast
  define M K where "M = unat (block_maxbits z g)" and "K = (unat nb + unat ch - 1) div unat ch"
  have d: "zfp_field_dimensionality f \<in> {1, 2, 3, 4}" "fd_type g = zfp_type_double \<Longrightarrow> zfp_field_dimensionality f \<noteq> 4"
    using x db g(3) by (auto simp: zfp_field_dimensionality_def)
  note m = cap_maxbits [OF z t [folded g(3)] g(2) d, folded M_def]
  have "K \<le> 24"
  proof -
    have "unat nb + unat ch - 1 < 25 * unat ch" using ch by simp
    then have "K < 25" unfolding K_def using ch(1) by (simp add: div_less_iff_less_mult)
    then show ?thesis by simp
  qed
  have fb: "field_blocks g * M \<le> 2 ^ 29 * 16657" using g(6) b m(3) by (intro mult_le_mono) simp_all
  have "unat (zfp_stream_maximum_size z g) = 8 * ((148 + field_blocks g * M + 63) div 64)"
    unfolding M_def
    by (rule maximum_size_eq) (use d(1) g t(1) m(2) fb in \<open>auto simp: M_def scalar_type_def\<close>)
  then have s: "64 * (unat (zfp_stream_maximum_size z g) div 8) \<ge> 148 + field_blocks g * M"
    using words_ge [of "148 + field_blocks g * M"] by simp
  have "scalar_cap eb (fd_type f) TYPE('a) pbits (unat (zfp_field_dimensionality f)) * K \<le> (M + 6) * K"
    using m(1) by (simp add: g(3))
  also have "\<dots> \<le> field_blocks g * M + 148"
  proof -
    have "K * M \<le> field_blocks g * M" using g(5) by (simp add: K_def)
    moreover have "(M + 6) * K = K * M + 6 * K" by (simp add: algebra_simps)
    ultimately show ?thesis using \<open>K \<le> 24\<close> by linarith
  qed
  finally show ?thesis using g(1) s unfolding K_def by (intro exI [of _ g]) linarith
qed

section \<open>Parallel and serial compression\<close>

lemma loop_appends:
  assumes a: "\<And>b. b < n \<Longrightarrow> appends k (body b) (C b)" and z: "rev_mode z" "bs_ok (zs_bits z)" "k * n \<le> room (zs_bits z)"
  shows "\<exists>s. loop n body 0 z = Inr (z\<lparr>zs_bits := s\<rparr>) \<and> bs_ok s \<and> written s = written (zs_bits z) @ concat (List.map C [0..<n]) \<and>
    room s + length (concat (List.map C [0..<n])) = room (zs_bits z)"
  using a z(3)
proof (induction n)
  case 0
  then show ?case using z by (intro exI [of _ "zs_bits z"]) simp
next
  case (Suc n)
  have "k * n \<le> room (zs_bits z)" using Suc.prems(2) by simp
  with Suc.IH Suc.prems(1) obtain s where s: "loop n body 0 z = Inr (z\<lparr>zs_bits := s\<rparr>)" "bs_ok s"
    "written s = written (zs_bits z) @ concat (List.map C [0..<n])"
    "room s + length (concat (List.map C [0..<n])) = room (zs_bits z)" by auto
  have "length (concat (List.map C [0..<n])) \<le> k * n"
    using Suc.prems(1)
  proof (induction n)
    case (Suc n)
    then have "length (C n) \<le> k" by (simp add: appends_def)
    with Suc show ?case by simp
  qed simp
  then have "k \<le> room s" using s(4) Suc.prems(2) by simp
  with appendsD [OF Suc.prems(1) [of n], of "z\<lparr>zs_bits := s\<rparr>"] s(2) z(1) obtain t where
    "body n (z\<lparr>zs_bits := s\<rparr>) = Inr (z\<lparr>zs_bits := t\<rparr>)" "bs_ok t" "written t = written s @ C n"
    "room t + length (C n) = room s" by auto
  with s show ?case by (intro exI [of _ t]) (simp add: loop_Suc_end del: loop.simps)
qed

text \<open>Two streams with the same bits are flushed to the same words.\<close>

lemma flush_same:
  assumes s: "bs_ok s" "written s = c" "room s + length c = 64 * l" and t: "bs_ok t" "written t = c" "room t + length c = 64 * l"
  shows "\<exists>i j s' t'. stream_flush s = Inr (i, s') \<and> stream_flush t = Inr (j, t') \<and> bs_ptr s' = bs_ptr t' \<and>
    take (bs_ptr s') (bs_mem s') = take (bs_ptr s') (bs_mem t')"
proof -
  from flush_written [OF s] obtain k i s' where s': "stream_flush s = Inr (i, s')" "length (bs_mem s') = l" "k < 64"
    "length c + k = 64 * bs_ptr s'" "bs_ptr s' \<le> l" "mem_bits (take (bs_ptr s') (bs_mem s')) = c @ replicate k False" by blast
  from flush_written [OF t] obtain h j t' where t': "stream_flush t = Inr (j, t')" "length (bs_mem t') = l" "h < 64"
    "length c + h = 64 * bs_ptr t'" "bs_ptr t' \<le> l" "mem_bits (take (bs_ptr t') (bs_mem t')) = c @ replicate h False" by blast
  have p: "bs_ptr s' = bs_ptr t'" using s'(3,4) t'(3,4) by linarith
  then have "h = k" using s'(4) t'(4) by linarith
  then have "mem_bits (take (bs_ptr s') (bs_mem s')) = mem_bits (take (bs_ptr s') (bs_mem t'))"
    using s'(6) t'(6) by (simp add: p)
  moreover have "length (take (bs_ptr s') (bs_mem s')) = length (take (bs_ptr s') (bs_mem t'))"
    using s'(2) t'(2) by simp
  ultimately have "take (bs_ptr s') (bs_mem s') = take (bs_ptr s') (bs_mem t')" using mem_bits_inj by blast
  with s'(1) t'(1) p show ?thesis by blast
qed

lemma omp_compress:
  fixes m :: "'a::len word list"
  assumes tr: "LENGTH('a) = 2 ^ pbits" "pbits \<le> 6" and f: "exact_field eb f m" "field_blocks f \<le> 2 ^ 29"
    and z: "rev_mode z" "policy z = zfp_exec_omp" "bs_ok (zs_bits z)" "16657 * field_blocks f \<le> room (zs_bits z)"
    and nb: "nb = omp_blocks f (zfp_field_dimensionality f)"
    and ch: "unat nb \<le> 24 * unat (chunk_count_omp z nb (thread_count_omp mt z))"
    and mal: "mal_ok mal"
  shows "\<exists>n y s. zfp_compress eb msk pbits (omp_entries mt mal sched eb msk pbits) z f m = Inr (n, y) \<and>
    zfp_compress eb msk pbits other (z\<lparr>policy := zfp_exec_serial\<rparr>) f m = Inr (n, s) \<and>
    take (n div 8) (stream_data (zs_bits y)) = take (n div 8) (stream_data (zs_bits s))"
proof -
  define st where "st \<longleftrightarrow> sx f \<noteq> 0 \<or> sy f \<noteq> 0 \<or> sz f \<noteq> 0 \<or> sw f \<noteq> 0"
  define D where "D = zfp_field_dimensionality f"
  define t where "t = fd_type f"
  define c where "c = chunk_count_omp z nb (thread_count_omp mt z)"
  define k where "k = scalar_cap eb t TYPE('a) pbits (unat D)"
  note e = f(1) [unfolded exact_field_def]
  have n: "unat (nx f) + 4 \<le> 2 ^ 32" "unat (ny f) + 4 \<le> 2 ^ 32" "unat (nz f) + 4 \<le> 2 ^ 32" "unat (nw f) + 4 \<le> 2 ^ 32"
    and x: "nx f \<noteq> 0" and T: "scalar_type eb t TYPE('a)" and db: "t = zfp_type_double \<longrightarrow> nw f = 0"
    and fit: "field_fits f (length m)" and g: "\<forall>i\<in>field_cells f. exact_scalar eb t (m ! i)"
    using e by (simp_all add: t_def)
  note cnt = field_counted [OF n x f(2), folded nb D_def]
  have nb': "nb = omp_blocks f D" using nb by (simp add: D_def)
  have c0: "0 < unat c" "unat c \<le> unat nb" "unat c < 2 ^ 31"
  proof -
    show "0 < unat c" using ch cnt(3) nb' by (simp add: c_def)
    show le: "unat c \<le> unat nb" by (simp add: c_def chunk_count_omp_def Let_def min_def word_le_nat_alt)
    show "unat c < 2 ^ 31" using le cnt(2) f(2) nb' by simp
  qed
  have ch: "unat nb \<le> 24 * unat c" using ch by (simp add: c_def)
  from chunk_memory [OF z(1) T [unfolded t_def] tr(1) n x f(2) db [unfolded t_def] nb c0(1,2) ch] obtain h where
    h: "chunk_field f c nb = Inr (Some h)"
    "k * ((unat nb + unat c - 1) div unat c) \<le> 64 * (unat (zfp_stream_maximum_size z h) div 8)"
    unfolding k_def t_def D_def by blast
  have dims: "unat D \<in> (if t = zfp_type_double then {1, 2, 3} else {1, 2, 3, 4})"
    using x db by (auto simp: D_def zfp_field_dimensionality_def)
  let ?body = "\<lambda>b. omp_block (scalar_encoder eb msk pbits t) st D f m (word_of_nat b)"
  have "\<exists>c. appends k (?body b) c" if b: "b < unat nb" for b
    unfolding k_def st_def D_def
    by (rule block_coder.block_code [OF scalar_coder [OF T tr] refl dims [unfolded D_def] cnt(1) [unfolded D_def] g fit
          b [unfolded nb]])
  then obtain C where C: "\<And>b. b < unat nb \<Longrightarrow> appends k (?body b) (C b)" by metis
  have k: "k \<le> 16657" unfolding k_def by (rule block_coder.cap_max [OF scalar_coder [OF T tr] dims])
  then have "k * unat nb \<le> 16657 * field_blocks f" using cnt(2) nb' by (intro mult_le_mono) simp_all
  then have r: "k * unat nb \<le> room (zs_bits z)" using z(4) by linarith
  define cs where "cs = concat (List.map C [0..<unat nb])"
  from compress_par_ok [where body = "omp_block (scalar_encoder eb msk pbits t) st D f m" and sched = sched,
      OF z(1,3) r c_def c0(1,3) h mal C] obtain sp where
    sp: "compress_par mt mal sched nb (omp_block (scalar_encoder eb msk pbits t) st D f m) z f = Inr (z\<lparr>zs_bits := sp\<rparr>)"
    "bs_ok sp" "written sp = written (zs_bits z) @ cs" "room sp + length cs = room (zs_bits z)"
    unfolding cs_def by blast
  let ?z = "z\<lparr>policy := zfp_exec_serial\<rparr>"
  have "rev_mode ?z" using z(1) by (cases z) (simp add: rev_mode_def zfp_stream_set_reversible_def)
  then obtain ss where ss: "loop (unat nb) ?body 0 ?z = Inr (?z\<lparr>zs_bits := ss\<rparr>)" "bs_ok ss"
    "written ss = written (zs_bits z) @ cs" "room ss + length cs = room (zs_bits z)"
    using loop_appends [of "unat nb" k ?body C ?z] C z(3) r unfolding cs_def by auto
  have l: "room (zs_bits z) + length (written (zs_bits z)) = 64 * length (bs_mem (zs_bits z))"
  proof -
    have "0 < room (zs_bits z)" using z(4) cnt(2,3) by linarith
    then show ?thesis using length_written [of "zs_bits z"] z(3) by (simp add: room_def bs_ok_def)
  qed
  from flush_same [of sp _ "length (bs_mem (zs_bits z))" ss, OF sp(2,3) _ ss(2,3)] sp(4) ss(4) l obtain i j s' t' where
    fl: "stream_flush sp = Inr (i, s')" "stream_flush ss = Inr (j, t')" "bs_ptr s' = bs_ptr t'"
    "take (bs_ptr s') (bs_mem s') = take (bs_ptr s') (bs_mem t')" by auto
  have tn: "t \<noteq> zfp_type_none" using T by (auto simp: scalar_type_def)
  have d0: "D \<noteq> 0" using x by (simp add: D_def zfp_field_dimensionality_def)
  obtain ignored where str: "zfp_field_stride f None = Inr (st, ignored)"
    by (auto simp: zfp_field_stride_def st_def)
  have P: "zfp_compress eb msk pbits (omp_entries mt mal sched eb msk pbits) z f m = Inr (8 * bs_ptr s', z\<lparr>zs_bits := s'\<rparr>)"
    using str tn d0 sp(1) fl(1) z(2)
    by (simp add: zfp_compress_def t_def [symmetric] D_def [symmetric] Let_def omp_entries_def omp_table_par nb' [symmetric]
        zfp_stream_flush_def zfp_stream_compressed_size_def stream_size_def)
  have "compress_table (scalar_encoder eb msk pbits t) st D ?z f m = Inr (?z\<lparr>zs_bits := ss\<rparr>)"
    unfolding D_def serial_loop [OF refl cnt(1) [unfolded D_def]] by (rule ss(1) [unfolded nb' D_def])
  then have S: "zfp_compress eb msk pbits other ?z f m = Inr (8 * bs_ptr s', ?z\<lparr>zs_bits := t'\<rparr>)"
    using str tn d0 fl(2,3)
    by (simp add: zfp_compress_def t_def [symmetric] D_def [symmetric] Let_def
        zfp_stream_flush_def zfp_stream_compressed_size_def stream_size_def)
  show ?thesis
    by (intro exI [of _ "8 * bs_ptr s'"] exI [of _ "z\<lparr>zs_bits := s'\<rparr>"] exI [of _ "?z\<lparr>zs_bits := t'\<rparr>"])
      (simp add: P S stream_data_def fl(4))
qed

section \<open>Runs that fail\<close>

lemma par_step_at:
  assumes "par_step body z i (m, ws) = Inr (m', ws')"
  shows "List.map w_at ws' = List.map w_at ws"
proof (cases "i < length ws \<and> w_next (ws ! i) < w_end (ws ! i)")
  case True
  then obtain y where y: "body (word_of_nat (w_next (ws ! i))) (zfp_stream_set_bit_stream z (w_load m (ws ! i))) = Inr y"
    using assms by (cases "body (word_of_nat (w_next (ws ! i))) (zfp_stream_set_bit_stream z (w_load m (ws ! i)))")
      (simp_all add: par_step_def Let_def)
  then have "ws' = ws[i := (ws ! i)\<lparr>w_next := Suc (w_next (ws ! i)), w_bits := zs_bits y\<rparr>]"
    using True assms by (simp add: par_step_def Let_def)
  then show ?thesis using True by (simp add: map_update list_update_same_conv)
next
  case False
  with assms show ?thesis by (auto simp: par_step_def)
qed

lemma par_run_at: "par_run body z sched (m, ws) = Inr (m', ws') \<Longrightarrow> List.map w_at ws' = List.map w_at ws"
proof (induction sched arbitrary: m ws)
  case (Cons i sched)
  then obtain m2 ws2 where "par_step body z i (m, ws) = Inr (m2, ws2)" "par_run body z sched (m2, ws2) = Inr (m', ws')"
    by (auto simp: bind_res_eq_Inr)
  with Cons.IH par_step_at show ?case by metis
qed simp

lemma par_for_at:
  assumes "par_for body z sched (m, ws) = Inr (m', ws')"
  shows "List.map w_at ws' = List.map w_at ws"
  using assms par_run_at by (auto simp: par_for_def bind_res_eq_Inr)

text \<open>A first window that does not start where the stream does is taken for memory of its own, and freed.\<close>

lemma finish_window:
  assumes "us \<noteq> []" and "w_at (hd us) = Some a" and "a \<noteq> 0"
  shows "compress_finish_par z us \<noteq> Inr r"
proof -
  obtain w ws where us: "us = w # ws" using assms(1) by (cases us) auto
  have "finish_chunk True w (dst, n) \<noteq> Inr r'" for dst n r'
    using assms by (auto simp: finish_chunk_def us Let_def bind_res_eq_Inr)
  then have "finish_chunks True us (dst, n) \<noteq> Inr r'" for dst n r' by (auto simp: us bind_res_eq_Inr)
  then show ?thesis using assms by (auto simp: compress_finish_par_def us Let_def bind_res_eq_Inr)
qed

lemma compress_par_window:
  assumes p: "minbits z = maxbits z" "maxbits z mod 64 = 0" "stream_wtell (zs_bits z) mod 64 = 0" "bs_ptr (zs_bits z) \<noteq> 0"
    and f: "zfp_field_dimensionality f \<noteq> 0" and mal: "mal_ok mal"
  shows "compress_par mt mal sched nb body z f \<noteq> Inr r"
proof
  assume r: "compress_par mt mal sched nb body z f = Inr r"
  define ch where "ch = chunk_count_omp z nb (thread_count_omp mt z)"
  define a where "a i = (stream_size (zs_bits z) + unat (chunk_offset nb ch (word_of_nat i) * maxbits z div 8)) div 8" for i
  have a0: "a 0 = bs_ptr (zs_bits z)" by (simp add: a_def chunk_offset_def stream_size_def)
  have ch: "ch \<noteq> 0" using r f by (auto simp: compress_par_def compress_init_par_def chunk_field_def Let_def ch_def [symmetric])
  then obtain g where g: "chunk_field f ch nb = Inr (Some g)" using f by (simp add: chunk_field_def Let_def)
  obtain w0 where w0: "mal 0 (8 * unat ch) = Some w0" using mal unfolding mal_ok_def by blast
  define s where "s i = stream_open (drop (a i) (stream_data (zs_bits z))) (unat (zfp_stream_maximum_size z g))" for i
  have init: "compress_init_par mal z f ch nb = Inr (Some (List.map (\<lambda>i. (Some (a i), s i)) [0..<unat ch]))"
    by (simp add: compress_init_par_def g w0 p(1-3) Let_def a_def s_def)
  have "List.map (\<lambda>i. new_worker nb ch i (List.map (\<lambda>i. (Some (a i), s i)) [0..<unat ch] ! i)) [0..<unat ch] =
      List.map (\<lambda>i. new_worker nb ch i (Some (a i), s i)) [0..<unat ch]"
    by (rule map_cong [OF refl]) simp
  with r init obtain m us where
    us: "par_for body z sched (stream_data (zs_bits z), List.map (\<lambda>i. new_worker nb ch i (Some (a i), s i)) [0..<unat ch]) = Inr (m, us)"
    "compress_finish_par (z\<lparr>zs_bits := (zs_bits z)\<lparr>bs_mem := m\<rparr>\<rparr>) us = Inr r"
    by (auto simp: compress_par_def Let_def bind_res_eq_Inr ch_def [symmetric])
  have at: "List.map w_at us = List.map (\<lambda>i. Some (a i)) [0..<unat ch]"
    using par_for_at [OF us(1)] by (simp add: new_worker_def Let_def comp_def)
  have n: "0 < unat ch" using ch by (simp add: unat_gt_0)
  from arg_cong [OF at, of length] n have "us \<noteq> []" by auto
  moreover from this arg_cong [OF at, of hd] n have "w_at (hd us) = Some (bs_ptr (zs_bits z))"
    by (simp add: hd_map a0 [symmetric])
  ultimately show False using finish_window us(2) p(4) by blast
qed

text \<open>A chunk size near the largest number makes the number of chunks overflow to zero, and divides by it.\<close>

lemma chunk_size_overflow:
  assumes "omp_chunk_size z = - 1" and "2 \<le> nb" and "zfp_field_dimensionality f \<noteq> 0"
  shows "compress_par mt mal sched nb body z f = Inl Undefined"
proof -
  have "nb + (- 1) - 1 = nb - 2" by simp
  moreover have "(nb - 2) div (- 1) = 0"
  proof -
    have "nb - 2 \<noteq> - 1"
    proof
      assume "nb - 2 = - 1"
      then have "nb = 1" by (simp add: diff_eq_eq)
      with assms(2) show False by (simp add: word_le_nat_alt)
    qed
    then have "nb - 2 < - 1" by (simp only: word_order.not_eq_extremum)
    then have "unat (nb - 2) < unat (- 1 :: u32)" by (simp only: word_less_nat_alt)
    then have "unat ((nb - 2) div (- 1)) = 0" by (subst unat_div) (rule div_less)
    then show ?thesis by (simp only: unsigned_eq_0_iff)
  qed
  ultimately have "chunk_count_omp z nb (thread_count_omp mt z) = 0"
    using assms(1) by (simp add: chunk_count_omp_def Let_def)
  then show ?thesis using assms(3) by (simp add: compress_par_def compress_init_par_def chunk_field_def Let_def)
qed

end
