(* ===== verification/Zfp_Promote.thy ===== *)
theory Zfp_Promote
  imports Zfp_Field
begin

text \<open>
  The conversions between 8- or 16-bit samples and the 32-bit integers that zfp compresses, at the
  end of \<^verbatim>\<open>src/zfp-0.5.5/src/zfp.c\<close>.  A signed integer of \<open>w\<close> bits is a \<open>w\<close>-bit word read with
  \<^const>\<open>sint\<close>; shifts to the left of negative numbers and casts to narrower signed types are taken modulo
  \<open>2 ^ w\<close>, as the compilers the library supports define them.
\<close>

section \<open>The conversions\<close>

text \<open>\<^verbatim>\<open>while (count--) *oblock++ = f(*iblock++);\<close>\<close>

primrec convert :: "('a \<Rightarrow> 'b) \<Rightarrow> nat \<Rightarrow> 'b list \<Rightarrow> 'a list \<Rightarrow> err + 'b list" where
  "convert f 0 ob ib = Inr ob"
| "convert f (Suc n) ob ib =
     (case ib of [] \<Rightarrow> Inl Out_Of_Bounds
      | x # ib' \<Rightarrow> (case ob of [] \<Rightarrow> Inl Out_Of_Bounds
                   | _ # ob' \<Rightarrow> bind_res (convert f n ob' ib') (\<lambda>ob'. Inr (f x # ob'))))"

definition block_count :: "nat \<Rightarrow> nat" where
  "block_count dims = unat (push_bit (2 * dims) 1 :: u32)"

definition zfp_promote_int8_to_int32 :: "u32 list \<Rightarrow> u8 list \<Rightarrow> nat \<Rightarrow> err + u32 list" where
  "zfp_promote_int8_to_int32 ob ib dims = convert (\<lambda>x. push_bit 23 (scast x)) (block_count dims) ob ib"

definition zfp_promote_uint8_to_int32 :: "u32 list \<Rightarrow> u8 list \<Rightarrow> nat \<Rightarrow> err + u32 list" where
  "zfp_promote_uint8_to_int32 ob ib dims = convert (\<lambda>x. push_bit 23 (ucast x - 0x80)) (block_count dims) ob ib"

definition zfp_promote_int16_to_int32 :: "u32 list \<Rightarrow> u16 list \<Rightarrow> nat \<Rightarrow> err + u32 list" where
  "zfp_promote_int16_to_int32 ob ib dims = convert (\<lambda>x. push_bit 15 (scast x)) (block_count dims) ob ib"

definition zfp_promote_uint16_to_int32 :: "u32 list \<Rightarrow> u16 list \<Rightarrow> nat \<Rightarrow> err + u32 list" where
  "zfp_promote_uint16_to_int32 ob ib dims = convert (\<lambda>x. push_bit 15 (ucast x - 0x8000)) (block_count dims) ob ib"

definition zfp_demote_int32_to_int8 :: "u8 list \<Rightarrow> u32 list \<Rightarrow> nat \<Rightarrow> err + u8 list" where
  "zfp_demote_int32_to_int8 ob ib dims =
     convert (\<lambda>x. let i = sint (signed_drop_bit 23 x) in word_of_int (max (- 0x80) (min i 0x7f)))
       (block_count dims) ob ib"

definition zfp_demote_int32_to_uint8 :: "u8 list \<Rightarrow> u32 list \<Rightarrow> nat \<Rightarrow> err + u8 list" where
  "zfp_demote_int32_to_uint8 ob ib dims =
     convert (\<lambda>x. let i = sint (signed_drop_bit 23 x) + 0x80 in word_of_int (max 0x00 (min i 0xff)))
       (block_count dims) ob ib"

definition zfp_demote_int32_to_int16 :: "u16 list \<Rightarrow> u32 list \<Rightarrow> nat \<Rightarrow> err + u16 list" where
  "zfp_demote_int32_to_int16 ob ib dims =
     convert (\<lambda>x. let i = sint (signed_drop_bit 15 x) in word_of_int (max (- 0x8000) (min i 0x7fff)))
       (block_count dims) ob ib"

definition zfp_demote_int32_to_uint16 :: "u16 list \<Rightarrow> u32 list \<Rightarrow> nat \<Rightarrow> err + u16 list" where
  "zfp_demote_int32_to_uint16 ob ib dims =
     convert (\<lambda>x. let i = sint (signed_drop_bit 15 x) + 0x8000 in word_of_int (max 0x0000 (min i 0xffff)))
       (block_count dims) ob ib"

section \<open>Round trips\<close>

lemma convert_ok:
  "n \<le> length ib \<Longrightarrow> n \<le> length ob \<Longrightarrow> convert f n ob ib = Inr (List.map f (take n ib) @ drop n ob)"
proof (induction n arbitrary: ib ob)
  case (Suc n)
  then obtain x ib' y ob' where "ib = x # ib'" "ob = y # ob'"
    by (metis Suc_le_length_iff)
  with Suc show ?case by simp
qed simp

lemma convert_back:
  assumes "\<And>x. g (f x) = x" and "n \<le> length xs" and "n \<le> length ob" and "n \<le> length ob'"
  shows "\<exists>ys. convert f n ob xs = Inr ys \<and> convert g n ob' ys = Inr (take n xs @ drop n ob')"
proof -
  let ?ys = "List.map f (take n xs) @ drop n ob"
  have "convert f n ob xs = Inr ?ys" by (rule convert_ok [OF assms(2,3)])
  moreover have "convert g n ob' ?ys = Inr (List.map g (take n ?ys) @ drop n ob')"
    by (rule convert_ok) (use assms(2,4) in simp_all)
  moreover have "List.map g (take n ?ys) = take n xs"
    using assms(1,2) by (simp add: comp_def)
  ultimately have "convert f n ob xs = Inr ?ys \<and> convert g n ob' ?ys = Inr (take n xs @ drop n ob')"
    by (simp only: simp_thms)
  then show ?thesis by (rule exI)
qed

lemma sint_push:
  "- (2 ^ 31) \<le> k * 2 ^ n \<Longrightarrow> k * 2 ^ n < 2 ^ 31 \<Longrightarrow> sint (push_bit n (word_of_int k) :: u32) = k * 2 ^ n"
proof -
  assume k: "- (2 ^ 31) \<le> k * 2 ^ n" "k * 2 ^ n < 2 ^ 31"
  have "(push_bit n (word_of_int k) :: u32) = word_of_int (k * 2 ^ n)"
    by (simp add: push_bit_eq_mult)
  with k show ?thesis by (simp only: signed_of_int) (simp add: signed_take_bit_int_eq_self)
qed

lemma demote_promote:
  assumes "- (2 ^ 31) \<le> k * 2 ^ n" and "k * 2 ^ n < 2 ^ 31"
  shows "sint (signed_drop_bit n (push_bit n (word_of_int k) :: u32)) = k"
proof -
  have "sint (signed_drop_bit n (push_bit n (word_of_int k) :: u32)) = drop_bit n (k * 2 ^ n)"
    by (simp only: sint_signed_drop_bit_eq sint_push [OF assms])
  then show ?thesis by (simp add: drop_bit_eq_div)
qed

lemma sint_bounds:
  "- 128 \<le> sint (x :: u8) \<and> sint x \<le> 127" "- 32768 \<le> sint (y :: u16) \<and> sint y \<le> 32767"
  using sint_greater_eq [of x] sint_less [of x] sint_greater_eq [of y] sint_less [of y] by simp_all

lemma int8_back:
  "(let i = sint (signed_drop_bit 23 (push_bit 23 (scast x) :: u32)) in word_of_int (max (- 0x80) (min i 0x7f))) = (x :: u8)"
proof -
  have "sint (signed_drop_bit 23 (push_bit 23 (word_of_int (sint x)) :: u32)) = sint x"
    by (rule demote_promote) (use sint_bounds(1) [of x] in simp_all)
  moreover have "max (- 0x80) (min (sint x) 0x7f) = sint x" using sint_bounds(1) [of x] by simp
  ultimately show ?thesis by simp
qed

lemma int16_back:
  "(let i = sint (signed_drop_bit 15 (push_bit 15 (scast x) :: u32)) in word_of_int (max (- 0x8000) (min i 0x7fff))) = (x :: u16)"
proof -
  have "sint (signed_drop_bit 15 (push_bit 15 (word_of_int (sint x)) :: u32)) = sint x"
    by (rule demote_promote) (use sint_bounds(2) [of x] in simp_all)
  moreover have "max (- 0x8000) (min (sint x) 0x7fff) = sint x" using sint_bounds(2) [of x] by simp
  ultimately show ?thesis by simp
qed

lemma ucast_minus: "(ucast x :: u32) - word_of_int k = word_of_int (uint x - k)"
  by simp

lemma uint_bounds: "0 \<le> uint (x :: u8) \<and> uint x \<le> 255" "0 \<le> uint (y :: u16) \<and> uint y \<le> 65535"
  using uint_bounded [of x] uint_bounded [of y] by simp_all

lemma uint8_back:
  "(let i = sint (signed_drop_bit 23 (push_bit 23 (ucast x - 0x80) :: u32)) + 0x80 in word_of_int (max 0x00 (min i 0xff))) = (x :: u8)"
proof -
  have "sint (signed_drop_bit 23 (push_bit 23 (word_of_int (uint x - 0x80)) :: u32)) = uint x - 0x80"
    by (rule demote_promote) (use uint_bounds(1) [of x] in simp_all)
  moreover have "max 0x00 (min (uint x) 0xff) = uint x" using uint_bounds(1) [of x] by simp
  ultimately show ?thesis using ucast_minus [of x "0x80"] by simp
qed

lemma uint16_back:
  "(let i = sint (signed_drop_bit 15 (push_bit 15 (ucast x - 0x8000) :: u32)) + 0x8000 in word_of_int (max 0x0000 (min i 0xffff))) = (x :: u16)"
proof -
  have "sint (signed_drop_bit 15 (push_bit 15 (word_of_int (uint x - 0x8000)) :: u32)) = uint x - 0x8000"
    by (rule demote_promote) (use uint_bounds(2) [of x] in simp_all)
  moreover have "max 0x0000 (min (uint x) 0xffff) = uint x" using uint_bounds(2) [of x] by simp
  ultimately show ?thesis using ucast_minus [of x "0x8000"] by simp
qed

text \<open>Demoting inverts promoting on every block, for each of the four sample types.\<close>

lemma promote_demote_blocks:
  fixes ob8 :: "u8 list" and ob16 :: "u16 list"
  assumes "block_count d \<le> length xs" "block_count d \<le> length ys" "block_count d \<le> length ob"
    and "block_count d \<le> length ob8" "block_count d \<le> length ob16"
  shows "\<exists>b. zfp_promote_int8_to_int32 ob xs d = Inr b \<and>
      zfp_demote_int32_to_int8 ob8 b d = Inr (take (block_count d) xs @ drop (block_count d) ob8)"
    and "\<exists>b. zfp_promote_uint8_to_int32 ob xs d = Inr b \<and>
      zfp_demote_int32_to_uint8 ob8 b d = Inr (take (block_count d) xs @ drop (block_count d) ob8)"
    and "\<exists>b. zfp_promote_int16_to_int32 ob ys d = Inr b \<and>
      zfp_demote_int32_to_int16 ob16 b d = Inr (take (block_count d) ys @ drop (block_count d) ob16)"
    and "\<exists>b. zfp_promote_uint16_to_int32 ob ys d = Inr b \<and>
      zfp_demote_int32_to_uint16 ob16 b d = Inr (take (block_count d) ys @ drop (block_count d) ob16)"
proof -
  show "\<exists>b. zfp_promote_int8_to_int32 ob xs d = Inr b \<and>
      zfp_demote_int32_to_int8 ob8 b d = Inr (take (block_count d) xs @ drop (block_count d) ob8)"
    unfolding zfp_promote_int8_to_int32_def zfp_demote_int32_to_int8_def
    by (rule convert_back) (use assms in \<open>simp_all only: int8_back\<close>)
  show "\<exists>b. zfp_promote_uint8_to_int32 ob xs d = Inr b \<and>
      zfp_demote_int32_to_uint8 ob8 b d = Inr (take (block_count d) xs @ drop (block_count d) ob8)"
    unfolding zfp_promote_uint8_to_int32_def zfp_demote_int32_to_uint8_def
    by (rule convert_back) (use assms in \<open>simp_all only: uint8_back\<close>)
  show "\<exists>b. zfp_promote_int16_to_int32 ob ys d = Inr b \<and>
      zfp_demote_int32_to_int16 ob16 b d = Inr (take (block_count d) ys @ drop (block_count d) ob16)"
    unfolding zfp_promote_int16_to_int32_def zfp_demote_int32_to_int16_def
    by (rule convert_back) (use assms in \<open>simp_all only: int16_back\<close>)
  show "\<exists>b. zfp_promote_uint16_to_int32 ob ys d = Inr b \<and>
      zfp_demote_int32_to_uint16 ob16 b d = Inr (take (block_count d) ys @ drop (block_count d) ob16)"
    unfolding zfp_promote_uint16_to_int32_def zfp_demote_int32_to_uint16_def
    by (rule convert_back) (use assms in \<open>simp_all only: uint16_back\<close>)
qed

end
