(* ===== verification/Colourmap.thy ===== *)
theory Colourmap
  imports Colour_Tables
begin

text \<open>
  Painting decoded video frames into a canvas: \<^verbatim>\<open>src/WebAssembly/colourmap.c\<close>.

  A plane of bytes is a list, from the byte a pointer points at to the end of its block; a pointer that
  may be \<^verbatim>\<open>NULL\<close> is an option.  Offsets have type \<^verbatim>\<open>size_t\<close>, which has 32 bits in WebAssembly; row numbers and
  strides are of type \<^verbatim>\<open>int\<close>.  Arithmetic on \<^verbatim>\<open>float\<close> takes its rounding as the argument \<open>rnd\<close>.
\<close>

section \<open>The code\<close>

text \<open>Multiplication on \<^verbatim>\<open>int\<close>, and the conversion of a \<^verbatim>\<open>float\<close> to \<^verbatim>\<open>unsigned char\<close>.\<close>

definition int_mult :: "int \<Rightarrow> int \<Rightarrow> err + int" where
  "int_mult a b = (if - (2 ^ 31) \<le> a * b \<and> a * b < 2 ^ 31 then Inr (a * b) else Inl Undefined)"

definition trunc :: "rat \<Rightarrow> int" where
  "trunc x = (if 0 \<le> x then \<lfloor>x\<rfloor> else \<lceil>x\<rceil>)"

definition to_uchar :: "rat \<Rightarrow> err + u8" where
  "to_uchar x = (if 0 \<le> trunc x \<and> trunc x < 256 then Inr (word_of_int (trunc x)) else Inl Undefined)"

text \<open>The assignments to four consecutive bytes of the canvas at \<^verbatim>\<open>dst_offset\<close>.\<close>

definition put_rgba :: "bytes \<Rightarrow> u32 \<Rightarrow> u8 \<Rightarrow> u8 \<Rightarrow> u8 \<Rightarrow> u8 \<Rightarrow> err + bytes \<times> u32" where
  "put_rgba canvas dst r g b a =
     bind_res (store canvas (uint dst) r) (\<lambda>canvas.
     bind_res (store canvas (uint (dst + 1)) g) (\<lambda>canvas.
     bind_res (store canvas (uint (dst + 1 + 1)) b) (\<lambda>canvas.
     bind_res (store canvas (uint (dst + 1 + 1 + 1)) a) (\<lambda>canvas.
       Inr (canvas, dst + 1 + 1 + 1 + 1)))))"

definition channel :: "(rat \<Rightarrow> rat) \<Rightarrow> rat list \<Rightarrow> int \<Rightarrow> rat \<Rightarrow> err + u8" where
  "channel rnd t x0 fr =
     bind_res (load t x0) (\<lambda>t0.
     bind_res (load t (x0 + 1)) (\<lambda>t1.
       to_uchar (rnd (0xFF * rnd (t0 + rnd (rnd (t1 - t0) * fr))))))"

definition interp_factor :: "(rat \<Rightarrow> rat) \<Rightarrow> rat" where
  "interp_factor rnd = rnd (64 / 256)"

definition colour_of ::
  "(rat \<Rightarrow> rat) \<Rightarrow> rat list \<Rightarrow> rat list \<Rightarrow> rat list \<Rightarrow> u8 \<Rightarrow> err + u8 \<times> u8 \<times> u8" where
  "colour_of rnd r g b pixel =
     (let pos = rnd (of_nat (unat pixel) * interp_factor rnd);
          fr = rnd (pos - of_int \<lfloor>pos\<rfloor>);
          x0 = \<lfloor>pos\<rfloor>
      in bind_res (channel rnd r x0 fr) (\<lambda>r_pixel.
         bind_res (channel rnd g x0 fr) (\<lambda>g_pixel.
         bind_res (channel rnd b x0 fr) (\<lambda>b_pixel. Inr (r_pixel, g_pixel, b_pixel)))))"

text \<open>
  One round of the inner loops of \<^verbatim>\<open>apply_colourmap\<close> and \<^verbatim>\<open>apply_greyscale\<close>: the state is the canvas and the
  offsets into canvas, luma and alpha plane.
\<close>

type_synonym raster = "bytes \<times> u32 \<times> u32 \<times> u32"

definition colour_step ::
  "(rat \<Rightarrow> rat) \<Rightarrow> bytes \<Rightarrow> bytes \<Rightarrow> bool \<Rightarrow> rat list \<Rightarrow> rat list \<Rightarrow> rat list \<Rightarrow> u8 \<Rightarrow> raster \<Rightarrow> err + raster" where
  "colour_step rnd luma alpha invert r g b fill = (\<lambda>(canvas, dst_offset, luma_offset, alpha_offset).
     bind_res (load luma (uint luma_offset)) (\<lambda>pixel.
     bind_res (load alpha (uint alpha_offset)) (\<lambda>a.
     let pixel = (if invert then 255 - pixel else pixel);
         mask = (if a < 128 then 0 else 255 :: u8)
     in bind_res (colour_of rnd r g b pixel) (\<lambda>(r_pixel, g_pixel, b_pixel).
        bind_res (put_rgba canvas dst_offset (if mask = 0 then fill else r_pixel)
          (if mask = 0 then fill else g_pixel) (if mask = 0 then fill else b_pixel) 255)
        (\<lambda>(canvas, dst_offset). Inr (canvas, dst_offset, luma_offset + 1, alpha_offset + 1))))))"

definition grey_step :: "bytes \<Rightarrow> bytes \<Rightarrow> bool \<Rightarrow> u8 \<Rightarrow> raster \<Rightarrow> err + raster" where
  "grey_step luma alpha invert fill = (\<lambda>(canvas, dst_offset, luma_offset, alpha_offset).
     bind_res (load luma (uint luma_offset)) (\<lambda>p.
     bind_res (load alpha (uint alpha_offset)) (\<lambda>a.
     let pixel = (if invert then 255 - p else p);
         mask = (if a < 128 then 0 else 255 :: u8);
         pixel = (if mask = 0 then fill else pixel)
     in bind_res (put_rgba canvas dst_offset pixel pixel pixel 255)
        (\<lambda>(canvas, dst_offset). Inr (canvas, dst_offset, luma_offset + 1, alpha_offset + 1)))))"

text \<open>The loops around it, which flip the image.\<close>

definition flipped_rows ::
  "(raster \<Rightarrow> err + raster) \<Rightarrow> int \<Rightarrow> int \<Rightarrow> int \<Rightarrow> int \<Rightarrow> bytes \<Rightarrow> err + bytes" where
  "flipped_rows step w h stride_luma stride_alpha canvas =
     bind_res (loop (nat h) (\<lambda>j (canvas, dst_offset).
       bind_res (int_mult (h - 1 - int j) stride_luma) (\<lambda>luma_offset.
       bind_res (int_mult (h - 1 - int j) stride_alpha) (\<lambda>alpha_offset.
       bind_res (loop (nat w) (\<lambda>i. step) 0 (canvas, dst_offset, word_of_int luma_offset, word_of_int alpha_offset))
         (\<lambda>(canvas, dst_offset, _, _). Inr (canvas, dst_offset))))) 0 (canvas, 0))
     (\<lambda>(canvas, _). Inr canvas)"

definition apply_colourmap ::
  "(rat \<Rightarrow> rat) \<Rightarrow> bytes option \<Rightarrow> int \<Rightarrow> int \<Rightarrow> bytes option \<Rightarrow> int \<Rightarrow> bytes option \<Rightarrow> int \<Rightarrow> bool \<Rightarrow>
   rat list \<Rightarrow> rat list \<Rightarrow> rat list \<Rightarrow> u8 \<Rightarrow> err + bytes option" where
  "apply_colourmap rnd canvas w h luma stride_luma alpha stride_alpha invert r g b fill =
     (case (canvas, luma, alpha) of (Some canvas, Some luma, Some alpha) \<Rightarrow>
        bind_res (flipped_rows (colour_step rnd luma alpha invert r g b fill) w h stride_luma stride_alpha canvas)
          (\<lambda>canvas. Inr (Some canvas))
      | _ \<Rightarrow> Inr canvas)"

definition apply_greyscale ::
  "bytes option \<Rightarrow> int \<Rightarrow> int \<Rightarrow> bytes option \<Rightarrow> int \<Rightarrow> bytes option \<Rightarrow> int \<Rightarrow> bool \<Rightarrow> u8 \<Rightarrow>
   err + bytes option" where
  "apply_greyscale canvas w h luma stride_luma alpha stride_alpha invert fill =
     (case (canvas, luma, alpha) of (Some canvas, Some luma, Some alpha) \<Rightarrow>
        bind_res (flipped_rows (grey_step luma alpha invert fill) w h stride_luma stride_alpha canvas)
          (\<lambda>canvas. Inr (Some canvas))
      | _ \<Rightarrow> Inr canvas)"

text \<open>The comparisons of \<^verbatim>\<open>clamp\<close> are exact.\<close>

definition clamp :: "rat \<Rightarrow> rat \<Rightarrow> rat \<Rightarrow> rat" where
  "clamp x lo hi = (if x < lo then lo else if hi < x then hi else x)"

definition yuv_step :: "bytes \<Rightarrow> bytes \<Rightarrow> bytes \<Rightarrow> bytes \<Rightarrow> raster \<Rightarrow> err + raster" where
  "yuv_step y u v alpha = (\<lambda>(canvas, dst_offset, src_offset, offset).
     bind_res (load y (uint offset)) (\<lambda>r.
     bind_res (load u (uint offset)) (\<lambda>g.
     bind_res (load v (uint offset)) (\<lambda>b.
     bind_res (load alpha (uint src_offset)) (\<lambda>a.
     bind_res (put_rgba canvas dst_offset r g b a)
       (\<lambda>(canvas, dst_offset). Inr (canvas, dst_offset, src_offset + 1, offset + 1)))))))"

definition apply_yuv ::
  "bytes option \<Rightarrow> bytes option \<Rightarrow> bytes option \<Rightarrow> bytes option \<Rightarrow> int \<Rightarrow> int \<Rightarrow> int \<Rightarrow> bytes option \<Rightarrow>
   err + bytes option" where
  "apply_yuv canvas y u v w h stride alpha =
     (case (canvas, y, u, v, alpha) of (Some canvas, Some y, Some u, Some v, Some alpha) \<Rightarrow>
        bind_res (loop (nat h) (\<lambda>j (canvas, dst_offset, src_offset).
          bind_res (int_mult (int j) stride) (\<lambda>offset.
          bind_res (loop (nat w) (\<lambda>i. yuv_step y u v alpha) 0 (canvas, dst_offset, src_offset, word_of_int offset))
          (\<lambda>(canvas, dst_offset, src_offset, _). Inr (canvas, dst_offset, src_offset)))) 0 (canvas, 0, 0))
        (\<lambda>(canvas, _, _). Inr (Some canvas))
      | _ \<Rightarrow> Inr canvas)"

section \<open>Painting\<close>

text \<open>
  A canvas whose first \<open>k\<close> pixels are those of \<open>f\<close>; a pixel is four bytes.  The pixel in column \<open>i\<close> of
  row \<open>j\<close> has number \<open>j * w + i\<close>.
\<close>

definition painted :: "(nat \<Rightarrow> bytes) \<Rightarrow> nat \<Rightarrow> bytes \<Rightarrow> bytes" where
  "painted f k c = concat (List.map f [0..<k]) @ drop (4 * k) c"

definition pixel_at :: "nat \<Rightarrow> bytes \<Rightarrow> nat \<Rightarrow> nat \<Rightarrow> bytes" where
  "pixel_at w c i j = take 4 (drop (4 * (j * w + i)) c)"

lemma painted_0 [simp]: "painted f 0 c = c"
  by (simp add: painted_def)

lemma length_pixels:
  assumes "\<And>n. length (f n) = 4"
  shows "length (concat (List.map f [0..<k])) = 4 * k"
  by (induction k) (simp_all add: assms)

lemma pixels_at:
  assumes "\<And>n. length (f n) = 4" and "n < k"
  shows "take 4 (drop (4 * n) (painted f k c)) = f n"
proof -
  have "[0..<k] = [0..<n] @ n # [Suc n..<k]"
    using assms(2) by (metis less_imp_le upt_add_eq_append upt_conv_Cons le_add_diff_inverse zero_le)
  then show ?thesis by (simp add: painted_def length_pixels [OF assms(1)] assms(1))
qed

lemma length_painted:
  assumes "\<And>n. length (f n) = 4" and "4 * k \<le> length c"
  shows "length (painted f k c) = length c"
  using assms(2) by (simp add: painted_def length_pixels [OF assms(1)])

lemma drop_painted:
  assumes "\<And>n. length (f n) = 4"
  shows "drop (4 * k) (painted f k c) = drop (4 * k) c"
  by (simp add: painted_def length_pixels [OF assms])

lemma store_after: "n = length xs + k \<Longrightarrow> k < length ys \<Longrightarrow> store (xs @ ys) (int n) v = Inr (xs @ ys[k := v])"
  by (simp add: store_def list_update_append nat_int_add)

lemma uint_of_nat: "n < 2 ^ 32 \<Longrightarrow> uint (word_of_nat n :: u32) = int n"
  by (simp add: unsigned_of_nat take_bit_nat_eq_self uint_nat)

lemma put_rgba_painted:
  assumes f: "\<And>n. length (f n) = 4" "f k = [r, g, b, a]" and c: "4 * k + 4 \<le> length c" "length c < 2 ^ 32"
  shows "put_rgba (painted f k c) (word_of_nat (4 * k)) r g b a = Inr (painted f (Suc k) c, word_of_nat (4 * Suc k))"
proof -
  let ?p = "concat (List.map f [0..<k])"
  have l: "length ?p = 4 * k" by (rule length_pixels) (rule f(1))
  have w: "word_of_nat (4 * k) + 1 = (word_of_nat (4 * k + 1) :: u32)"
    "word_of_nat (4 * k + 1) + 1 = (word_of_nat (4 * k + 2) :: u32)"
    "word_of_nat (4 * k + 2) + 1 = (word_of_nat (4 * k + 3) :: u32)"
    "word_of_nat (4 * k + 3) + 1 = (word_of_nat (4 * Suc k) :: u32)"
    by simp_all
  have u: "uint (word_of_nat (4 * k + i) :: u32) = int (4 * k + i)" if "i < 4" for i
    by (rule uint_of_nat) (use that c in simp)
  have "4 \<le> length (drop (4 * k) c)" using c(1) by simp
  then obtain w x y z ys where d: "drop (4 * k) c = w # x # y # z # ys"
    by (auto simp: numeral_eq_Suc Suc_le_length_iff simp del: length_drop)
  have "drop (4 * Suc k) c = drop 4 (drop (4 * k) c)" by (simp add: add.commute)
  then have e: "drop (4 * Suc k) c = ys" by (simp add: d)
  have s: "store (?p @ ys) (int (4 * k + i)) v = Inr (?p @ ys[i := v])" if "i < length ys" for i ys and v :: u8
    by (rule store_after) (use that l in simp_all)
  show ?thesis
    using u [of 0] u [of 1] u [of 2] u [of 3] s [of 0] s [of 1] s [of 2] s [of 3]
    unfolding put_rgba_def w painted_def d e by (simp add: f(2))
qed

text \<open>A counting loop through known states.\<close>

lemma loop0_run:
  assumes "\<And>j. j < k \<Longrightarrow> f j (S j) = Inr (S (Suc j))"
  shows "loop k f 0 (S 0) = Inr (S k)"
  using loop0_ok [of k "\<lambda>j s. s = S j" f "S 0"] assms by auto

text \<open>
  A plane that holds \<open>h\<close> rows of \<open>w\<close> bytes with stride \<open>s\<close>, and the byte in column \<open>i\<close> of row \<open>k\<close>.
\<close>

definition plane_ok :: "bytes \<Rightarrow> nat \<Rightarrow> nat \<Rightarrow> int \<Rightarrow> bool" where
  "plane_ok p w h s \<longleftrightarrow> 0 \<le> s \<and> length p < 2 ^ 32 \<and>
     (0 < h \<longrightarrow> (int h - 1) * s < 2 ^ 31 \<and> (int h - 1) * s + int w \<le> int (length p))"

definition plane_at :: "bytes \<Rightarrow> int \<Rightarrow> nat \<Rightarrow> nat \<Rightarrow> u8" where
  "plane_at p s k i = p ! (nat (int k * s) + i)"

lemma plane_row:
  assumes "plane_ok p w h s" and "k < h"
  shows "0 \<le> int k * s" "int k * s < 2 ^ 31" "int k * s + int w \<le> int (length p)" "length p < 2 ^ 32"
proof -
  have "int k * s \<le> (int h - 1) * s"
    using assms by (intro mult_right_mono) (simp_all add: plane_ok_def)
  then show "0 \<le> int k * s" "int k * s < 2 ^ 31" "int k * s + int w \<le> int (length p)" "length p < 2 ^ 32"
    using assms by (simp_all add: plane_ok_def)
qed

lemma int_mult_row: "plane_ok p w h s \<Longrightarrow> k < h \<Longrightarrow> int_mult (int k) s = Inr (int k * s)"
  using plane_row [of p w h s k] by (simp add: int_mult_def)

lemma load_plane:
  assumes "plane_ok p w h s" and "k < h" and "i < w"
  shows "load p (uint (word_of_int (int k * s) + word_of_nat i :: u32)) = Inr (plane_at p s k i)"
proof -
  define n where "n = nat (int k * s) + i"
  have n: "n < length p" "n < 2 ^ 32" "int k * s = int (nat (int k * s))"
    using plane_row [OF assms(1,2)] assms(3) by (simp_all add: n_def)
  have "word_of_int (int k * s) + word_of_nat i = (word_of_nat n :: u32)"
    by (subst n(3)) (simp only: n_def of_nat_add of_int_of_nat_eq)
  with n show ?thesis unfolding plane_at_def n_def [symmetric] by (simp add: uint_of_nat load_def)
qed

text \<open>What the three functions paint: row \<open>j\<close> of the canvas is row \<open>h - 1 - j\<close> of the planes, or row \<open>j\<close> in \<^verbatim>\<open>apply_yuv\<close>.\<close>

definition pixel_value :: "bool \<Rightarrow> u8 \<Rightarrow> u8" where
  "pixel_value invert p = (if invert then 255 - p else p)"

definition grey_pixel :: "bytes \<Rightarrow> int \<Rightarrow> bytes \<Rightarrow> int \<Rightarrow> bool \<Rightarrow> u8 \<Rightarrow> nat \<Rightarrow> nat \<Rightarrow> bytes" where
  "grey_pixel luma sl alpha sa invert fill k i =
     (let v = (if plane_at alpha sa k i < 128 then fill else pixel_value invert (plane_at luma sl k i))
      in [v, v, v, 255])"

lemma word_succ: "word_of_nat (Suc i) = word_of_nat i + (1 :: 'a::len word)"
  by simp

lemma row_flip: "j < h \<Longrightarrow> int h - 1 - int j = int (h - 1 - j)"
  by simp

lemma row_pixel: "j < h \<Longrightarrow> i < w \<Longrightarrow> j * w + i < w * (h :: nat)"
proof -
  assume a: "j < h" "i < w"
  then have "Suc j * w \<le> h * w" by (intro mult_le_mono1) simp
  then show ?thesis using a(2) by (simp add: mult.commute)
qed

text \<open>If a round paints the pixel it is for and moves on by a column, then the loops paint the image.\<close>

lemma flipped_rows_painted:
  assumes f: "\<And>n. length (f n) = 4" and c: "4 * (w * h) \<le> length c" "length c < 2 ^ 32"
    and l: "plane_ok luma w h sl" and a: "plane_ok alpha w h sa"
    and step: "\<And>j i x y. j < h \<Longrightarrow> i < w \<Longrightarrow>
      load luma (uint x) = Inr (plane_at luma sl (h - 1 - j) i) \<Longrightarrow>
      load alpha (uint y) = Inr (plane_at alpha sa (h - 1 - j) i) \<Longrightarrow>
      (\<And>r g b a. f (j * w + i) = [r, g, b, a] \<Longrightarrow>
        put_rgba (painted f (j * w + i) c) (word_of_nat (4 * (j * w + i))) r g b a =
          Inr (painted f (j * w + Suc i) c, word_of_nat (4 * (j * w + Suc i)))) \<Longrightarrow>
      step (painted f (j * w + i) c, word_of_nat (4 * (j * w + i)), x, y) =
        Inr (painted f (j * w + Suc i) c, word_of_nat (4 * (j * w + Suc i)), x + 1, y + 1)"
  shows "flipped_rows step (int w) (int h) sl sa c = Inr (painted f (w * h) c)"
proof -
  define S where "S j i = (painted f (j * w + i) c, word_of_nat (4 * (j * w + i)) :: u32,
    word_of_int (int (h - 1 - j) * sl) + word_of_nat i :: u32,
    word_of_int (int (h - 1 - j) * sa) + word_of_nat i :: u32)" for j i
  have S: "step (S j i) = Inr (S j (Suc i))" if "j < h" "i < w" for j i
  proof -
    have "Suc (j * w + i) \<le> w * h" using row_pixel [OF that] by simp
    then have k: "4 * (j * w + i) + 4 \<le> length c" using c(1) by simp
    have k': "h - 1 - j < h" using that(1) by simp
    have p: "put_rgba (painted f (j * w + i) c) (word_of_nat (4 * (j * w + i))) r g b a =
        Inr (painted f (j * w + Suc i) c, word_of_nat (4 * (j * w + Suc i)))"
      if "f (j * w + i) = [r, g, b, a]" for r g b a
      using put_rgba_painted [of f, OF f that k c(2)] by (simp only: add_Suc_right)
    note step [OF that load_plane [OF l k' that(2)] load_plane [OF a k' that(2)] p]
    then show ?thesis by (simp only: S_def word_succ add.assoc)
  qed
  have row: "loop w (\<lambda>i. step) 0 (S j 0) = Inr (S j w)" if "j < h" for j
    using loop0_run [of w "\<lambda>i. step" "S j"] S [OF that] by simp
  define T where "T j = (painted f (j * w) c, word_of_nat (4 * (j * w)) :: u32)" for j
  have start: "(fst (T j), snd (T j), word_of_int (int (h - 1 - j) * sl), word_of_int (int (h - 1 - j) * sa)) = S j 0" for j
    by (simp add: S_def T_def)
  have stop: "(\<lambda>(canvas, dst, _, _). Inr (canvas, dst)) (S j w) = Inr (T (Suc j))" for j
    by (simp add: S_def T_def add.commute)
  have "loop h (\<lambda>j (canvas, dst).
       bind_res (int_mult (int h - 1 - int j) sl) (\<lambda>lo.
       bind_res (int_mult (int h - 1 - int j) sa) (\<lambda>ao.
       bind_res (loop w (\<lambda>i. step) 0 (canvas, dst, word_of_int lo, word_of_int ao))
         (\<lambda>(canvas, dst, _, _). Inr (canvas, dst))))) 0 (T 0) = Inr (T h)"
  proof (rule loop0_run)
    fix j assume j: "j < h"
    then have "h - 1 - j < h" by simp
    then have m: "int_mult (int h - 1 - int j) sl = Inr (int (h - 1 - j) * sl)"
      "int_mult (int h - 1 - int j) sa = Inr (int (h - 1 - j) * sa)"
      unfolding row_flip [OF j] using int_mult_row [OF l] int_mult_row [OF a] by blast+
    show "(case T j of (canvas, dst) \<Rightarrow>
       bind_res (int_mult (int h - 1 - int j) sl) (\<lambda>lo.
       bind_res (int_mult (int h - 1 - int j) sa) (\<lambda>ao.
       bind_res (loop w (\<lambda>i. step) 0 (canvas, dst, word_of_int lo, word_of_int ao))
         (\<lambda>(canvas, dst, _, _). Inr (canvas, dst))))) = Inr (T (Suc j))"
      using row [OF j] start [of j] stop [of j] unfolding case_prod_beta' m bind_res_Inr by simp
  qed
  then show ?thesis by (simp add: flipped_rows_def T_def mult.commute)
qed

definition grey_image :: "bytes \<Rightarrow> int \<Rightarrow> bytes \<Rightarrow> int \<Rightarrow> bool \<Rightarrow> u8 \<Rightarrow> nat \<Rightarrow> nat \<Rightarrow> nat \<Rightarrow> bytes" where
  "grey_image luma sl alpha sa invert fill w h n = grey_pixel luma sl alpha sa invert fill (h - 1 - n div w) (n mod w)"

lemma apply_greyscale_painted:
  assumes c: "4 * (w * h) \<le> length c" "length c < 2 ^ 32"
    and l: "plane_ok luma w h sl" and a: "plane_ok alpha w h sa"
  shows "apply_greyscale (Some c) (int w) (int h) (Some luma) sl (Some alpha) sa invert fill =
    Inr (Some (painted (grey_image luma sl alpha sa invert fill w h) (w * h) c))"
proof -
  have "flipped_rows (grey_step luma alpha invert fill) (int w) (int h) sl sa c =
      Inr (painted (grey_image luma sl alpha sa invert fill w h) (w * h) c)"
  proof (rule flipped_rows_painted [OF _ c l a])
    show "length (grey_image luma sl alpha sa invert fill w h n) = 4" for n
      by (simp add: grey_image_def grey_pixel_def Let_def)
  next
    fix j i :: nat and x y :: u32
    let ?f = "grey_image luma sl alpha sa invert fill w h" and ?n = "j * w + i"
    let ?p = "plane_at luma sl (h - 1 - j) i" and ?a = "plane_at alpha sa (h - 1 - j) i"
    assume ji: "j < h" "i < w" and ld: "load luma (uint x) = Inr ?p" "load alpha (uint y) = Inr ?a"
      and put: "\<And>r g b a. ?f ?n = [r, g, b, a] \<Longrightarrow> put_rgba (painted ?f ?n c) (word_of_nat (4 * ?n)) r g b a =
        Inr (painted ?f (j * w + Suc i) c, word_of_nat (4 * (j * w + Suc i)))"
    let ?v = "if ?a < 128 then fill else pixel_value invert ?p"
    have "?f ?n = [?v, ?v, ?v, 255]" using ji by (simp add: grey_image_def grey_pixel_def Let_def)
    note p = put [OF this]
    have "(if (if ?a < 128 then 0 else 255 :: u8) = 0 then fill else if invert then 255 - ?p else ?p) = ?v"
      by (simp add: pixel_value_def)
    then show "grey_step luma alpha invert fill (painted ?f ?n c, word_of_nat (4 * ?n), x, y) =
        Inr (painted ?f (j * w + Suc i) c, word_of_nat (4 * (j * w + Suc i)), x + 1, y + 1)"
      unfolding grey_step_def prod.case ld bind_res_Inr Let_def by (simp only: p bind_res_Inr prod.case)
  qed
  then show ?thesis by (simp add: apply_greyscale_def)
qed

section \<open>Colours\<close>

text \<open>
  The intensity between the entries of a table for a byte, and a byte that is this intensity cut to an
  integer, up to the rounding errors of single precision.
\<close>

definition ideal_intensity :: "rat list \<Rightarrow> u8 \<Rightarrow> rat" where
  "ideal_intensity xs p =
     (let k = unat p div 4 in 255 * (xs ! k + (xs ! (k + 1) - xs ! k) * (of_nat (unat p mod 4) / 4)))"

definition near_intensity :: "u8 \<Rightarrow> rat \<Rightarrow> bool" where
  "near_intensity b v \<longleftrightarrow> v - 1 - 1 / 1000 < of_nat (unat b) \<and> of_nat (unat b) \<le> v + 1 / 1000"

lemma ideal_intensity_range:
  assumes "ideal_table t xs"
  shows "0 \<le> ideal_intensity xs p \<and> ideal_intensity xs p \<le> 255"
proof -
  define k where "k = unat p div 4"
  define f :: rat where "f = of_nat (unat p mod 4) / 4"
  have f: "0 \<le> f" "f \<le> 1" by (simp_all add: f_def)
  have "k < 64" using unat_u8_less [of p] unfolding k_def by linarith
  then have x: "0 \<le> xs ! k" "xs ! k \<le> 1" "0 \<le> xs ! (k + 1)" "xs ! (k + 1) \<le> 1"
    using ideal_table_near [OF assms, of k] ideal_table_near [OF assms, of "k + 1"] by simp_all
  have "0 \<le> xs ! k + (xs ! (k + 1) - xs ! k) * f \<and> xs ! k + (xs ! (k + 1) - xs ! k) * f \<le> 1"
    using x f by (rule unit_mix)
  then show ?thesis by (simp add: ideal_intensity_def k_def f_def Let_def)
qed

lemma to_uchar_near:
  assumes "\<bar>x - v\<bar> \<le> 1 / 1000" and "0 \<le> v" and "v \<le> 255"
  shows "\<exists>b. to_uchar x = Inr b \<and> near_intensity b v"
proof -
  have t: "0 \<le> trunc x" "trunc x < 256" "of_int (trunc x) \<le> v + 1 / 1000" "v - 1 - 1 / 1000 < of_int (trunc x)"
  proof -
    have "0 \<le> trunc x \<and> trunc x < 256 \<and> of_int (trunc x) \<le> v + 1 / 1000 \<and> v - 1 - 1 / 1000 < of_int (trunc x)"
    proof (cases "0 \<le> x")
      case True
      have n: "of_int \<lfloor>x\<rfloor> \<le> x" "x < of_int \<lfloor>x\<rfloor> + 1" by linarith+
      then have "of_int \<lfloor>x\<rfloor> \<le> v + 1 / 1000" "v - 1 - 1 / 1000 < of_int \<lfloor>x\<rfloor>" using assms(1) by linarith+
      moreover have "x < 256" using assms by linarith
      ultimately show ?thesis using True by (simp add: trunc_def floor_less_iff)
    next
      case False
      then have "- 1 < x" "x < 0" "v < 1 / 1000 + 0" using assms by linarith+
      then have "\<lceil>x\<rceil> = 0" by (simp add: ceiling_eq_iff)
      moreover have "0 \<le> v + 1 / 1000" "v - 1 - 1 / 1000 < 0" using assms \<open>x < 0\<close> by linarith+
      ultimately show ?thesis using False by (simp add: trunc_def)
    qed
    then show "0 \<le> trunc x" "trunc x < 256" "of_int (trunc x) \<le> v + 1 / 1000" "v - 1 - 1 / 1000 < of_int (trunc x)"
      by simp_all
  qed
  have "unat (word_of_int (trunc x) :: u8) = nat (trunc x)"
    using t(1,2) by (simp add: unsigned_of_int take_bit_int_eq_self)
  then have "(of_nat (unat (word_of_int (trunc x) :: u8)) :: rat) = of_int (trunc x)"
    using t(1) by simp
  then have "near_intensity (word_of_int (trunc x)) v" using t(3,4) by (simp add: near_intensity_def)
  moreover have "to_uchar x = Inr (word_of_int (trunc x))" using t(1,2) by (simp add: to_uchar_def)
  ultimately show ?thesis by blast
qed

context float_rounding
begin

lemma channel_near:
  assumes t: "ideal_table t xs" and p: "unat p div 4 = k" and f: "of_nat (unat p mod 4) / 4 = f"
  shows "\<exists>b. channel rnd t (int k) f = Inr b \<and> near_intensity b (ideal_intensity xs p)"
proof -
  have k: "k < 64" using unat_u8_less [of p] p by linarith
  have f': "0 \<le> f" "f \<le> 3 / 4"
  proof -
    have "unat p mod 4 \<le> 3" by simp
    then have "(of_nat (unat p mod 4) :: rat) \<le> of_nat 3" by (rule of_nat_mono)
    then show "0 \<le> f" "f \<le> 3 / 4" using f by simp_all
  qed
  have l: "load t (int k) = Inr (t ! k)" "load t (int k + 1) = Inr (t ! (k + 1))"
    using k ideal_table_length [OF t] by (simp_all add: load_def nat_add_distrib)
  have "\<bar>rnd (255 * rnd (t ! k + rnd (rnd (t ! (k + 1) - t ! k) * f))) - 255 * (xs ! k + (xs ! (k + 1) - xs ! k) * f)\<bar>
      \<le> 1 / 1000"
    using ideal_table_near [OF t, of k] ideal_table_near [OF t, of "k + 1"] k f'
    by (intro interpolation_near [where d = "1 / 2 ^ 20"]) simp_all
  then have "\<bar>rnd (255 * rnd (t ! k + rnd (rnd (t ! (k + 1) - t ! k) * f))) - ideal_intensity xs p\<bar> \<le> 1 / 1000"
    by (simp add: ideal_intensity_def p f [symmetric] Let_def)
  from to_uchar_near [OF this] show ?thesis
    using ideal_intensity_range [OF t, of p] by (simp add: channel_def l)
qed

lemma colour_of_near:
  assumes "ideal_table r xr" and "ideal_table g xg" and "ideal_table b xb"
  shows "\<exists>R G B. colour_of rnd r g b p = Inr (R, G, B) \<and> near_intensity R (ideal_intensity xr p) \<and>
    near_intensity G (ideal_intensity xg p) \<and> near_intensity B (ideal_intensity xb p)"
proof -
  let ?u = "int (unat p)"
  have u: "?u < 256" using unat_u8_less [of p] by linarith
  have i: "interp_factor rnd = 1 / 4"
    using rnd_quarter [of 1] by (simp add: interp_factor_def)
  have pos: "rnd (of_nat (unat p) * interp_factor rnd) = of_int ?u / 4"
    using rnd_quarter [of ?u] u by (simp add: i)
  have fl: "\<lfloor>of_int ?u / 4 :: rat\<rfloor> = int (unat p div 4)"
    by (metis floor_divide_of_int_eq of_int_numeral zdiv_int of_nat_numeral)
  have "(of_nat (unat p) :: rat) = of_nat (4 * (unat p div 4) + unat p mod 4)" by simp
  then have d: "(of_int ?u / 4 :: rat) - of_int (int (unat p div 4)) = of_int (int (unat p mod 4)) / 4"
    by (simp only: of_nat_add of_nat_mult of_int_of_nat_eq of_nat_numeral) (simp add: field_simps)
  have "unat p mod 4 < 4" by simp
  then have m: "\<bar>int (unat p mod 4)\<bar> \<le> 1024" by linarith
  have fr: "rnd (of_int ?u / 4 - of_int (int (unat p div 4))) = of_nat (unat p mod 4) / 4"
    unfolding d rnd_quarter [OF m] by simp
  obtain R G B where
    "channel rnd r (int (unat p div 4)) (of_nat (unat p mod 4) / 4) = Inr R" "near_intensity R (ideal_intensity xr p)"
    "channel rnd g (int (unat p div 4)) (of_nat (unat p mod 4) / 4) = Inr G" "near_intensity G (ideal_intensity xg p)"
    "channel rnd b (int (unat p div 4)) (of_nat (unat p mod 4) / 4) = Inr B" "near_intensity B (ideal_intensity xb p)"
    using channel_near [OF assms(1) refl refl] channel_near [OF assms(2) refl refl]
      channel_near [OF assms(3) refl refl] by metis
  then show ?thesis by (simp only: colour_of_def Let_def pos fl fr bind_res_Inr) simp
qed

end

definition colour_pixel ::
  "(rat \<Rightarrow> rat) \<Rightarrow> rat list \<Rightarrow> rat list \<Rightarrow> rat list \<Rightarrow> bytes \<Rightarrow> int \<Rightarrow> bytes \<Rightarrow> int \<Rightarrow> bool \<Rightarrow> u8 \<Rightarrow> nat \<Rightarrow> nat \<Rightarrow> bytes" where
  "colour_pixel rnd r g b luma sl alpha sa invert fill k i =
     (if plane_at alpha sa k i < 128 then [fill, fill, fill, 255]
      else case colour_of rnd r g b (pixel_value invert (plane_at luma sl k i)) of
        Inr (R, G, B) \<Rightarrow> [R, G, B, 255] | Inl _ \<Rightarrow> [fill, fill, fill, 255])"

definition colour_image ::
  "(rat \<Rightarrow> rat) \<Rightarrow> rat list \<Rightarrow> rat list \<Rightarrow> rat list \<Rightarrow> bytes \<Rightarrow> int \<Rightarrow> bytes \<Rightarrow> int \<Rightarrow> bool \<Rightarrow> u8 \<Rightarrow> nat \<Rightarrow> nat \<Rightarrow>
   nat \<Rightarrow> bytes" where
  "colour_image rnd r g b luma sl alpha sa invert fill w h n =
     colour_pixel rnd r g b luma sl alpha sa invert fill (h - 1 - n div w) (n mod w)"

lemma colour_image_length [simp]: "length (colour_image rnd r g b luma sl alpha sa invert fill w h n) = 4"
  by (simp add: colour_image_def colour_pixel_def split: sum.splits prod.splits)

lemma apply_colourmap_painted:
  assumes c: "4 * (w * h) \<le> length c" "length c < 2 ^ 32"
    and l: "plane_ok luma w h sl" and a: "plane_ok alpha w h sa"
    and t: "\<And>p. \<exists>R G B. colour_of rnd r g b p = Inr (R, G, B)"
  shows "apply_colourmap rnd (Some c) (int w) (int h) (Some luma) sl (Some alpha) sa invert r g b fill =
    Inr (Some (painted (colour_image rnd r g b luma sl alpha sa invert fill w h) (w * h) c))"
proof -
  have "flipped_rows (colour_step rnd luma alpha invert r g b fill) (int w) (int h) sl sa c =
      Inr (painted (colour_image rnd r g b luma sl alpha sa invert fill w h) (w * h) c)"
  proof (rule flipped_rows_painted [OF _ c l a])
    fix j i :: nat and x y :: u32
    let ?f = "colour_image rnd r g b luma sl alpha sa invert fill w h" and ?n = "j * w + i"
    let ?p = "plane_at luma sl (h - 1 - j) i" and ?a = "plane_at alpha sa (h - 1 - j) i"
    assume ji: "j < h" "i < w" and ld: "load luma (uint x) = Inr ?p" "load alpha (uint y) = Inr ?a"
      and put: "\<And>r g b a. ?f ?n = [r, g, b, a] \<Longrightarrow> put_rgba (painted ?f ?n c) (word_of_nat (4 * ?n)) r g b a =
        Inr (painted ?f (j * w + Suc i) c, word_of_nat (4 * (j * w + Suc i)))"
    let ?v = "pixel_value invert ?p"
    obtain R G B where q: "colour_of rnd r g b ?v = Inr (R, G, B)" using t by metis
    let ?m = "\<lambda>V. if ?a < 128 then fill else V"
    have "?f ?n = [?m R, ?m G, ?m B, 255]" using ji q by (simp add: colour_image_def colour_pixel_def)
    note p = put [OF this]
    have m: "(if (if ?a < 128 then 0 else 255 :: u8) = 0 then fill else V) = ?m V" for V
      by simp
    show "colour_step rnd luma alpha invert r g b fill (painted ?f ?n c, word_of_nat (4 * ?n), x, y) =
        Inr (painted ?f (j * w + Suc i) c, word_of_nat (4 * (j * w + Suc i)), x + 1, y + 1)"
      unfolding colour_step_def prod.case ld bind_res_Inr Let_def pixel_value_def [symmetric] q m
      by (simp only: p bind_res_Inr prod.case)
  qed simp
  then show ?thesis by (simp add: apply_colourmap_def)
qed

text \<open>So every visible pixel has the colour the tables give its value, and the masked ones the fill colour.\<close>

lemma apply_colourmap_near:
  assumes t: "ideal_table r xr" "ideal_table g xg" "ideal_table b xb"
    and pl: "plane_ok luma w h sl" "plane_ok alpha w h sa"
    and c: "4 * (w * h) \<le> length c" "length c < 2 ^ 32"
  shows "\<exists>c'. apply_colourmap rnd32 (Some c) (int w) (int h) (Some luma) sl (Some alpha) sa invert r g b fill =
      Inr (Some c') \<and> drop (4 * (w * h)) c' = drop (4 * (w * h)) c \<and>
    (\<forall>j < h. \<forall>i < w.
      let a = plane_at alpha sa (h - 1 - j) i; p = pixel_value invert (plane_at luma sl (h - 1 - j) i)
      in if a < 128 then pixel_at w c' i j = [fill, fill, fill, 255]
         else \<exists>R G B. pixel_at w c' i j = [R, G, B, 255] \<and> near_intensity R (ideal_intensity xr p) \<and>
           near_intensity G (ideal_intensity xg p) \<and> near_intensity B (ideal_intensity xb p))"
proof -
  let ?f = "colour_image rnd32 r g b luma sl alpha sa invert fill w h"
  have n: "\<exists>R G B. colour_of rnd32 r g b p = Inr (R, G, B) \<and> near_intensity R (ideal_intensity xr p) \<and>
    near_intensity G (ideal_intensity xg p) \<and> near_intensity B (ideal_intensity xb p)" for p
    by (rule single.colour_of_near [OF t])
  then have "\<exists>R G B. colour_of rnd32 r g b p = Inr (R, G, B)" for p by blast
  note p = apply_colourmap_painted [OF c pl this]
  have "let a = plane_at alpha sa (h - 1 - j) i; p = pixel_value invert (plane_at luma sl (h - 1 - j) i)
      in if a < 128 then pixel_at w (painted ?f (w * h) c) i j = [fill, fill, fill, 255]
         else \<exists>R G B. pixel_at w (painted ?f (w * h) c) i j = [R, G, B, 255] \<and> near_intensity R (ideal_intensity xr p) \<and>
           near_intensity G (ideal_intensity xg p) \<and> near_intensity B (ideal_intensity xb p)"
    if ji: "j < h" "i < w" for j i
  proof -
    obtain R G B where q: "colour_of rnd32 r g b (pixel_value invert (plane_at luma sl (h - 1 - j) i)) = Inr (R, G, B)"
      "near_intensity R (ideal_intensity xr (pixel_value invert (plane_at luma sl (h - 1 - j) i)))"
      "near_intensity G (ideal_intensity xg (pixel_value invert (plane_at luma sl (h - 1 - j) i)))"
      "near_intensity B (ideal_intensity xb (pixel_value invert (plane_at luma sl (h - 1 - j) i)))"
      using n by blast
    have "pixel_at w (painted ?f (w * h) c) i j = ?f (j * w + i)"
      unfolding pixel_at_def by (rule pixels_at) (simp_all add: row_pixel [OF ji])
    also have "\<dots> = colour_pixel rnd32 r g b luma sl alpha sa invert fill (h - 1 - j) i"
      using ji by (simp add: colour_image_def)
    finally show ?thesis using q by (simp add: colour_pixel_def Let_def)
  qed
  moreover have "drop (4 * (w * h)) (painted ?f (w * h) c) = drop (4 * (w * h)) c"
    by (rule drop_painted) simp
  ultimately show ?thesis unfolding p by blast
qed

section \<open>Three planes\<close>

text \<open>\<^verbatim>\<open>apply_yuv\<close> reads the rows of \<open>alpha\<close> without a stride.\<close>

definition yuv_image :: "bytes \<Rightarrow> bytes \<Rightarrow> bytes \<Rightarrow> int \<Rightarrow> bytes \<Rightarrow> nat \<Rightarrow> nat \<Rightarrow> bytes" where
  "yuv_image y u v s alpha w n =
     [plane_at y s (n div w) (n mod w), plane_at u s (n div w) (n mod w), plane_at v s (n div w) (n mod w), alpha ! n]"

lemma apply_yuv_painted:
  assumes c: "4 * (w * h) \<le> length c" "length c < 2 ^ 32"
    and pl: "plane_ok y w h s" "plane_ok u w h s" "plane_ok v w h s" and al: "w * h \<le> length alpha"
  shows "apply_yuv (Some c) (Some y) (Some u) (Some v) (int w) (int h) s (Some alpha) =
    Inr (Some (painted (yuv_image y u v s alpha w) (w * h) c))"
proof -
  let ?f = "yuv_image y u v s alpha w"
  have f4: "length (?f n) = 4" for n by (simp add: yuv_image_def)
  define S where "S j i = (painted ?f (j * w + i) c, word_of_nat (4 * (j * w + i)) :: u32,
    word_of_nat (j * w + i) :: u32, word_of_int (int j * s) + word_of_nat i :: u32)" for j i
  have S: "yuv_step y u v alpha (S j i) = Inr (S j (Suc i))" if "j < h" "i < w" for j i
  proof -
    have n: "Suc (j * w + i) \<le> w * h" using row_pixel [OF that] by simp
    then have k: "4 * (j * w + i) + 4 \<le> length c" using c(1) by simp
    then have "uint (word_of_nat (j * w + i) :: u32) = int (j * w + i)"
      using c(2) by (intro uint_of_nat) simp
    then have a: "load alpha (uint (word_of_nat (j * w + i) :: u32)) = Inr (alpha ! (j * w + i))"
      unfolding load_def using n al by (simp del: of_nat_add of_nat_mult)
    have "?f (j * w + i) = [plane_at y s j i, plane_at u s j i, plane_at v s j i, alpha ! (j * w + i)]"
      using that by (simp add: yuv_image_def)
    note p = put_rgba_painted [of ?f, OF f4 this k c(2)]
    have "yuv_step y u v alpha (S j i) = Inr (painted ?f (Suc (j * w + i)) c, word_of_nat (4 * Suc (j * w + i)),
        word_of_nat (j * w + i) + 1, word_of_int (int j * s) + word_of_nat i + 1)"
      unfolding yuv_step_def S_def prod.case load_plane [OF pl(1) that] load_plane [OF pl(2) that]
        load_plane [OF pl(3) that] a bind_res_Inr p by simp
    then show ?thesis by (simp only: S_def word_succ add_Suc_right add.assoc)
  qed
  have row: "loop w (\<lambda>i. yuv_step y u v alpha) 0 (S j 0) = Inr (S j w)" if "j < h" for j
    using loop0_run [of w "\<lambda>i. yuv_step y u v alpha" "S j"] S [OF that] by simp
  define T where "T j = (painted ?f (j * w) c, word_of_nat (4 * (j * w)) :: u32, word_of_nat (j * w) :: u32)" for j
  have "loop h (\<lambda>j (canvas, dst, src).
       bind_res (int_mult (int j) s) (\<lambda>o'.
       bind_res (loop w (\<lambda>i. yuv_step y u v alpha) 0 (canvas, dst, src, word_of_int o'))
         (\<lambda>(canvas, dst, src, _). Inr (canvas, dst, src)))) 0 (T 0) = Inr (T h)"
  proof (rule loop0_run)
    fix j assume j: "j < h"
    have start: "(fst (T j), fst (snd (T j)), snd (snd (T j)), word_of_int (int j * s)) = S j 0"
      by (simp add: S_def T_def)
    have stop: "(\<lambda>(canvas, dst, src, _). Inr (canvas, dst, src)) (S j w) = Inr (T (Suc j))"
      by (simp add: S_def T_def add.commute)
    show "(case T j of (canvas, dst, src) \<Rightarrow>
       bind_res (int_mult (int j) s) (\<lambda>o'.
       bind_res (loop w (\<lambda>i. yuv_step y u v alpha) 0 (canvas, dst, src, word_of_int o'))
         (\<lambda>(canvas, dst, src, _). Inr (canvas, dst, src)))) = Inr (T (Suc j))"
      using row [OF j] start stop unfolding case_prod_beta' int_mult_row [OF pl(1) j] bind_res_Inr by simp
  qed
  then show ?thesis by (simp add: apply_yuv_def T_def mult.commute)
qed

end
