(* ===== verification/Hevc.thy ===== *)
theory Hevc
  imports Colourmap
begin

text \<open>
  The video decoder of the viewer: \<^verbatim>\<open>src/WebAssembly/hevc_decoder.c\<close>.

  The code drives FFmpeg.  What FFmpeg does is the parameter \<open>la\<close> of type \<open>libav\<close>: a decoder context is a
  value of type \<open>'c\<close>, and a call gives the returned code and the new context.  A frame is what the code reads of an
  \<^verbatim>\<open>AVFrame\<close>.  Messages to the console are left out.
\<close>

section \<open>FFmpeg as the code sees it\<close>

record frame =
  fr_format :: int
  fr_width :: int
  fr_height :: int
  fr_data0 :: "bytes option"
  fr_linesize0 :: int
  fr_data1 :: "bytes option"
  fr_linesize1 :: int

text \<open>
  The allocations take the number of the decoder they are for, and \<open>av_malloc\<close> says whether \<^verbatim>\<open>malloc\<close> meets a
  request of so many bytes.
\<close>

record 'c libav =
  av_malloc :: "u32 \<Rightarrow> bool"
  alloc_context :: "nat \<Rightarrow> 'c option"
  alloc_packet :: "nat \<Rightarrow> bool"
  alloc_frame :: "nat \<Rightarrow> bool"
  set_crccheck :: "'c \<Rightarrow> 'c"
  codec_open :: "'c \<Rightarrow> int \<times> 'c"
  send_packet :: "'c \<Rightarrow> bytes \<Rightarrow> int \<Rightarrow> int \<times> 'c"
  receive_frame :: "'c \<Rightarrow> int \<times> 'c \<times> frame"

definition AV_INPUT_BUFFER_PADDING_SIZE :: nat where
  "AV_INPUT_BUFFER_PADDING_SIZE = 64"

definition AV_PIX_FMT_YUV444P :: int where
  "AV_PIX_FMT_YUV444P = 5"

section \<open>The decoders\<close>

text \<open>
  The static arrays of \<^verbatim>\<open>hevc_decoder.c\<close>; an array or an element that is \<^verbatim>\<open>NULL\<close> is \<open>None\<close>.  Of a packet and of a frame
  only the pointer matters between calls.
\<close>

record 'c decoders =
  avctx :: "'c option list option"
  avpkt :: "unit option list option"
  avframe :: "unit option list option"

definition no_decoders :: "'c decoders" where
  "no_decoders = \<lparr>avctx = None, avpkt = None, avframe = None\<rparr>"

text \<open>Access through the array pointer: a null pointer and an index outside the array are out of bounds.\<close>

definition elem :: "'a list option \<Rightarrow> int \<Rightarrow> err + 'a" where
  "elem arr i = (case arr of None \<Rightarrow> Inl Out_Of_Bounds | Some xs \<Rightarrow> load xs i)"

definition set_elem :: "'a list option \<Rightarrow> int \<Rightarrow> 'a \<Rightarrow> err + 'a list option" where
  "set_elem arr i v =
     (case arr of None \<Rightarrow> Inl Out_Of_Bounds | Some xs \<Rightarrow> bind_res (store xs i v) (\<lambda>xs. Inr (Some xs)))"

text \<open>\<^verbatim>\<open>malloc(va_count * sizeof(T *))\<close> with pointers of four bytes; every element is written before it is read.\<close>

definition alloc_array :: "'c libav \<Rightarrow> int \<Rightarrow> 'a option list option" where
  "alloc_array la va_count =
     (let bytes = word_of_int va_count * 4 :: u32
      in if av_malloc la bytes then Some (replicate (unat bytes div 4) None) else None)"

definition init_array :: "'c libav \<Rightarrow> int \<Rightarrow> (nat \<Rightarrow> 'a option) \<Rightarrow> 'a option list option \<Rightarrow> err + 'a option list option" where
  "init_array la va_count alloc arr =
     (if arr = None then loop (nat va_count) (\<lambda>i arr. set_elem arr (int i) (alloc i)) 0 (alloc_array la va_count)
      else Inr arr)"

definition open_codec :: "'c libav \<Rightarrow> nat \<Rightarrow> 'c option list option \<Rightarrow> err + 'c option list option" where
  "open_codec la i arr =
     bind_res (elem arr (int i)) (\<lambda>p.
       case p of None \<Rightarrow> Inl Out_Of_Bounds
       | Some c \<Rightarrow> set_elem arr (int i) (Some (snd (codec_open la (set_crccheck la c)))))"

definition hevc_init :: "'c libav \<Rightarrow> int \<Rightarrow> 'c decoders \<Rightarrow> err + 'c decoders" where
  "hevc_init la va_count st =
     bind_res (init_array la va_count (alloc_context la) (avctx st)) (\<lambda>ctx.
     bind_res (init_array la va_count (\<lambda>i. if alloc_packet la i then Some () else None) (avpkt st)) (\<lambda>pkt.
     bind_res (init_array la va_count (\<lambda>i. if alloc_frame la i then Some () else None) (avframe st)) (\<lambda>fr.
     bind_res (loop (nat va_count) (open_codec la) 0 ctx) (\<lambda>ctx.
       Inr \<lparr>avctx = ctx, avpkt = pkt, avframe = fr\<rparr>))))"

text \<open>Every element is freed and set to \<^verbatim>\<open>NULL\<close>, then the array.\<close>

definition destroy_array :: "int \<Rightarrow> 'a option list option \<Rightarrow> err + 'a option list option" where
  "destroy_array va_count arr =
     (if arr \<noteq> None then
        bind_res (loop (nat va_count) (\<lambda>i arr.
          bind_res (elem arr (int i)) (\<lambda>p. if p \<noteq> None then set_elem arr (int i) None else Inr arr)) 0 arr)
        (\<lambda>_. Inr None)
      else Inr arr)"

definition hevc_destroy :: "int \<Rightarrow> 'c decoders \<Rightarrow> err + 'c decoders" where
  "hevc_destroy va_count st =
     bind_res (destroy_array va_count (avctx st)) (\<lambda>ctx.
     bind_res (destroy_array va_count (avframe st)) (\<lambda>fr.
     bind_res (destroy_array va_count (avpkt st)) (\<lambda>pkt.
       Inr \<lparr>avctx = ctx, avpkt = pkt, avframe = fr\<rparr>)))"

text \<open>The choice of the colour map; a pointer to its name never is \<^verbatim>\<open>NULL\<close>.\<close>

definition paint ::
  "(rat \<Rightarrow> rat) \<Rightarrow> bytes option \<Rightarrow> int \<Rightarrow> int \<Rightarrow> bytes option \<Rightarrow> int \<Rightarrow> bytes option \<Rightarrow> int \<Rightarrow> string \<Rightarrow> u8 \<Rightarrow>
   err + bytes option" where
  "paint rnd canvas w h luma sl alpha sa colourmap fill =
     (let colours = (\<lambda>invert r g b. apply_colourmap rnd canvas w h luma sl alpha sa invert r g b fill)
      in if colourmap = ''red'' then colours False ocean_g ocean_r ocean_b
      else if colourmap = ''green'' then colours False ocean_r ocean_g ocean_b
      else if colourmap = ''blue'' then colours False ocean_b ocean_r ocean_g
      else if colourmap = ''hot'' then colours False hot_r hot_g hot_b
      else if colourmap = ''haxby'' then colours False haxby_r haxby_g haxby_b
      else if colourmap = ''rainbow'' then colours True rainbow_r rainbow_g rainbow_b
      else if colourmap = ''cubehelix'' then colours False cubehelix_r cubehelix_g cubehelix_b
      else if colourmap = ''parula'' then colours False parula_r parula_g parula_b
      else if colourmap = ''inferno'' then colours False inferno_r inferno_g inferno_b
      else if colourmap = ''magma'' then colours False magma_r magma_g magma_b
      else if colourmap = ''plasma'' then colours False plasma_r plasma_g plasma_b
      else if colourmap = ''viridis'' then colours False viridis_r viridis_g viridis_b
      else if colourmap = ''negative'' then apply_greyscale canvas w h luma sl alpha sa True fill
      else apply_greyscale canvas w h luma sl alpha sa False fill)"

text \<open>What the loop does with a frame.  \<^verbatim>\<open>w == _w\<close> compares an \<^verbatim>\<open>int\<close> with an \<^verbatim>\<open>unsigned int\<close>.\<close>

definition show_frame ::
  "(rat \<Rightarrow> rat) \<Rightarrow> u32 \<Rightarrow> u32 \<Rightarrow> string \<Rightarrow> u8 \<Rightarrow> frame \<Rightarrow> bytes option \<Rightarrow> err + bytes option" where
  "show_frame rnd uw uh colourmap fill fr canvas =
     (if fr_format fr = AV_PIX_FMT_YUV444P then
        let w = fr_width fr; h = fr_height fr
        in if word_of_int w = uw \<and> word_of_int h = uh \<and> canvas \<noteq> None then
             paint rnd canvas w h (fr_data0 fr) (fr_linesize0 fr) (fr_data1 fr) (fr_linesize1 fr) colourmap fill
           else Inr canvas
      else Inr canvas)"

text \<open>The receiving loop, with fuel.\<close>

fun receive_frames ::
  "nat \<Rightarrow> 'c libav \<Rightarrow> (frame \<Rightarrow> bytes option \<Rightarrow> err + bytes option) \<Rightarrow> 'c \<Rightarrow> bytes option \<Rightarrow> ('c \<times> bytes option) run" where
  "receive_frames 0 la show c canvas = None"
| "receive_frames (Suc n) la show c canvas =
     (case receive_frame la c of (ret, c, fr) \<Rightarrow>
        if ret = 0 then
          (case show fr canvas of Inl e \<Rightarrow> Some (Inl e) | Inr canvas \<Rightarrow> receive_frames n la show c canvas)
        else Some (Inr (c, canvas)))"

text \<open>
  \<^verbatim>\<open>hevc_decode_nal_unit\<close> at the clock readings \<open>start\<close> and \<open>stop\<close>; the result is the elapsed time.  The copy of the
  data is followed by zeros.
\<close>

definition hevc_decode_nal_unit ::
  "nat \<Rightarrow> 'c libav \<Rightarrow> (rat \<Rightarrow> rat) \<Rightarrow> rat \<Rightarrow> rat \<Rightarrow> int \<Rightarrow> bytes \<Rightarrow> bytes option \<Rightarrow> u32 \<Rightarrow> u32 \<Rightarrow> string \<Rightarrow> u8 \<Rightarrow> 'c decoders \<Rightarrow>
   (rat \<times> bytes option \<times> 'c decoders) run" where
  "hevc_decode_nal_unit n la rnd start stop index data canvas uw uh colourmap fill st =
     (if avctx st = None \<or> avpkt st = None \<or> avframe st = None then Some (Inr (0, canvas, st))
      else bind_run (Some (elem (avctx st) index)) (\<lambda>ctx.
        if ctx = None then Some (Inr (0, canvas, st))
        else bind_run (Some (elem (avpkt st) index)) (\<lambda>pkt.
        if pkt = None then Some (Inr (0, canvas, st))
        else bind_run (Some (elem (avframe st) index)) (\<lambda>fr.
        if fr = None then Some (Inr (0, canvas, st))
        else if \<not> av_malloc la (word_of_nat (length data + AV_INPUT_BUFFER_PADDING_SIZE)) then Some (Inl Out_Of_Bounds)
        else
          let buf = data @ replicate AV_INPUT_BUFFER_PADDING_SIZE 0
          in case send_packet la (the ctx) buf (int (length data)) of (ret, c) \<Rightarrow>
             bind_run (receive_frames n la (show_frame rnd uw uh colourmap fill) c canvas) (\<lambda>(c, canvas).
             bind_run (Some (set_elem (avctx st) index (Some c))) (\<lambda>arr.
               Some (Inr (rnd64 (stop - start), canvas, st\<lparr>avctx := arr\<rparr>))))))))"

section \<open>What the code relies on\<close>

text \<open>
  FFmpeg refuses pictures that are too large (\<^verbatim>\<open>av_image_check_size\<close>), and gives a planar frame that it has decoded two
  planes of its size.
\<close>

definition frame_ok :: "frame \<Rightarrow> bool" where
  "frame_ok fr \<longleftrightarrow> (fr_format fr = AV_PIX_FMT_YUV444P \<longrightarrow>
     0 < fr_width fr \<and> 0 < fr_height fr \<and> 8 * ((fr_width fr + 128) * (fr_height fr + 128)) < 2 ^ 31 \<and>
     (\<exists>luma alpha. fr_data0 fr = Some luma \<and> plane_ok luma (nat (fr_width fr)) (nat (fr_height fr)) (fr_linesize0 fr) \<and>
        fr_data1 fr = Some alpha \<and> plane_ok alpha (nat (fr_width fr)) (nat (fr_height fr)) (fr_linesize1 fr)))"

text \<open>
  A context holds finitely many frames, \<open>pending\<close> of them: \<^verbatim>\<open>avcodec_receive_frame\<close> gives them one after the other and then
  fails until more data is sent.
\<close>

definition libav_ok :: "'c libav \<Rightarrow> ('c \<Rightarrow> nat) \<Rightarrow> bool" where
  "libav_ok la pending \<longleftrightarrow>
     (\<forall>c c' fr. receive_frame la c = (0, c', fr) \<longrightarrow> pending c' < pending c \<and> frame_ok fr)"

lemma libav_okD:
  "libav_ok la pending \<Longrightarrow> receive_frame la c = (0, c', fr) \<Longrightarrow> pending c' < pending c \<and> frame_ok fr"
  by (auto simp: libav_ok_def)

section \<open>Painting a frame\<close>

lemma colour_of_total:
  "colour_table r \<Longrightarrow> colour_table g \<Longrightarrow> colour_table b \<Longrightarrow> \<exists>R G B. colour_of rnd32 r g b p = Inr (R, G, B)"
  unfolding colour_table_def using single.colour_of_near [of r _ g _ b _ p] by blast

lemma paint_length:
  assumes c: "4 * (w * h) \<le> length c" "length c < 2 ^ 32"
    and pl: "plane_ok luma w h sl" "plane_ok alpha w h sa"
  shows "\<exists>c'. paint rnd32 (Some c) (int w) (int h) (Some luma) sl (Some alpha) sa colourmap fill = Inr (Some c') \<and>
    length c' = length c"
proof -
  have g: "\<exists>c'. apply_greyscale (Some c) (int w) (int h) (Some luma) sl (Some alpha) sa inv fill = Inr (Some c') \<and>
    length c' = length c" for inv
    unfolding apply_greyscale_painted [OF c pl] using length_painted [OF _ c(1)]
    by (simp add: grey_image_def grey_pixel_def Let_def)
  have k: "\<exists>c'. apply_colourmap rnd32 (Some c) (int w) (int h) (Some luma) sl (Some alpha) sa inv r g b fill =
      Inr (Some c') \<and> length c' = length c"
    if "colour_table r" "colour_table g" "colour_table b" for inv r g b
    unfolding apply_colourmap_painted [OF c pl colour_of_total [OF that]] using length_painted [OF _ c(1)] by simp
  show ?thesis unfolding paint_def Let_def by (simp add: g k)
qed

lemma show_frame_keeps:
  assumes fr: "frame_ok fr" and c: "\<And>c. canvas = Some c \<Longrightarrow> length c = unat (uw * uh * 4)"
  shows "\<exists>canvas'. show_frame rnd32 uw uh colourmap fill fr canvas = Inr canvas' \<and>
    map_option length canvas' = map_option length canvas"
proof (cases "fr_format fr = AV_PIX_FMT_YUV444P \<and> word_of_int (fr_width fr) = uw \<and>
    word_of_int (fr_height fr) = uh \<and> canvas \<noteq> None")
  case True
  then obtain d where d: "canvas = Some d" by blast
  obtain w h where wh: "fr_width fr = int w" "fr_height fr = int h" "0 < w" "0 < h"
    using fr True by (auto simp: frame_ok_def) (metis zero_less_imp_eq_int)
  obtain luma alpha where pl: "fr_data0 fr = Some luma" "plane_ok luma w h (fr_linesize0 fr)"
    "fr_data1 fr = Some alpha" "plane_ok alpha w h (fr_linesize1 fr)"
    using fr True by (auto simp: frame_ok_def wh)
  have "8 * ((int w + 128) * (int h + 128)) < 2 ^ 31" using fr True by (simp add: frame_ok_def wh)
  then have "int (8 * ((w + 128) * (h + 128))) < int (2 ^ 31)" by simp
  then have size: "8 * ((w + 128) * (h + 128)) < 2 ^ 31" by (simp only: of_nat_less_iff)
  have "w * h \<le> (w + 128) * (h + 128)" by (intro mult_le_mono) simp_all
  with size have "8 * (w * h) < 2 ^ 31" by linarith
  then have wh4: "4 * (w * h) < 2 ^ 32" by simp
  have "uw = word_of_nat w" "uh = word_of_nat h" using True wh by auto
  then have "uw * uh * 4 = word_of_nat (w * h * 4)" by simp
  then have "unat (uw * uh * 4) = w * h * 4"
    using wh4 by (simp add: unsigned_of_nat take_bit_nat_eq_self del: of_nat_mult)
  then have len: "length d = 4 * (w * h)" using c d by simp
  obtain d' where "paint rnd32 (Some d) (int w) (int h) (Some luma) (fr_linesize0 fr) (Some alpha) (fr_linesize1 fr)
      colourmap fill = Inr (Some d')" "length d' = length d"
    using paint_length [OF _ _ pl(2,4), of d colourmap fill] len wh4 by auto
  then show ?thesis using True by (simp add: show_frame_def Let_def d wh pl)
qed (auto simp: show_frame_def Let_def)

lemma receive_frames_keeps:
  assumes la: "libav_ok la pending" and c: "\<And>d. canvas = Some d \<Longrightarrow> length d = unat (uw * uh * 4)"
  shows "\<exists>n. \<forall>m \<ge> n. \<exists>c' canvas'. receive_frames m la (show_frame rnd32 uw uh colourmap fill) c canvas =
    Some (Inr (c', canvas')) \<and> map_option length canvas' = map_option length canvas"
  using c
proof (induction "pending c" arbitrary: c canvas rule: less_induct)
  case less
  obtain ret c1 fr where r: "receive_frame la c = (ret, c1, fr)" by (cases "receive_frame la c")
  show ?case
  proof (cases "ret = 0")
    case False
    then have "\<exists>c' canvas'. receive_frames m la (show_frame rnd32 uw uh colourmap fill) c canvas =
        Some (Inr (c', canvas')) \<and> map_option length canvas' = map_option length canvas" if "Suc 0 \<le> m" for m
      using that r by (cases m) simp_all
    then show ?thesis by blast
  next
    case True
    then have p: "pending c1 < pending c" "frame_ok fr" using libav_okD [OF la] r by auto
    obtain k1 where k1: "show_frame rnd32 uw uh colourmap fill fr canvas = Inr k1"
      "map_option length k1 = map_option length canvas"
      using show_frame_keeps [OF p(2), of canvas uw uh] less.prems by metis
    have "length d = unat (uw * uh * 4)" if "k1 = Some d" for d
      using that k1(2) less.prems by (cases canvas) auto
    from less.hyps [OF p(1) this] obtain n where n: "\<forall>m \<ge> n. \<exists>c' canvas'.
        receive_frames m la (show_frame rnd32 uw uh colourmap fill) c1 k1 = Some (Inr (c', canvas')) \<and>
        map_option length canvas' = map_option length k1" by blast
    have "\<exists>c' canvas'. receive_frames m la (show_frame rnd32 uw uh colourmap fill) c canvas =
        Some (Inr (c', canvas')) \<and> map_option length canvas' = map_option length canvas" if m: "Suc n \<le> m" for m
    proof -
      obtain m' where m': "m = Suc m'" "n \<le> m'" using m by (cases m) auto
      with n k1(2) r True k1(1) show ?thesis by simp
    qed
    then show ?thesis by blast
  qed
qed

section \<open>The arrays\<close>

text \<open>An array for \<open>n\<close> decoders, or none; in the array of contexts no element is null.\<close>

definition array_of :: "nat \<Rightarrow> 'a option list option \<Rightarrow> bool" where
  "array_of n arr \<longleftrightarrow> (\<forall>xs. arr = Some xs \<longrightarrow> length xs = n)"

definition decoders_ok :: "nat \<Rightarrow> 'c decoders \<Rightarrow> bool" where
  "decoders_ok n st \<longleftrightarrow> array_of n (avctx st) \<and> array_of n (avpkt st) \<and> array_of n (avframe st) \<and>
     (\<forall>xs. avctx st = Some xs \<longrightarrow> None \<notin> set xs)"

text \<open>What \<^verbatim>\<open>hevc_init\<close> needs: memory for the arrays, and a context for every decoder.\<close>

definition alloc_ok :: "'c libav \<Rightarrow> nat \<Rightarrow> bool" where
  "alloc_ok la n \<longleftrightarrow> n < 2 ^ 30 \<and> av_malloc la (word_of_nat n * 4) \<and> (\<forall>i < n. alloc_context la i \<noteq> None)"

lemma alloc_array_ok: "alloc_ok la n \<Longrightarrow> alloc_array la (int n) = Some (replicate n None)"
proof -
  assume a: "alloc_ok la n"
  then have "unat (word_of_nat (4 * n) :: u32) = 4 * n"
    by (simp add: alloc_ok_def unsigned_of_nat take_bit_nat_eq_self del: of_nat_mult)
  then have "unat (word_of_nat n * 4 :: u32) = 4 * n" by (simp add: mult.commute)
  then show ?thesis using a by (simp add: alloc_array_def alloc_ok_def)
qed

lemma init_array_ok:
  fixes alloc :: "nat \<Rightarrow> 'a option"
  assumes "alloc_ok la n"
  shows "init_array la (int n) alloc None = Inr (Some (List.map alloc [0..<n]))"
proof -
  have "loop n (\<lambda>i arr. set_elem arr (int i) (alloc i)) 0
      (Some (List.map alloc [0..<0] @ replicate (n - 0) None)) =
    Inr (Some (List.map alloc [0..<n] @ replicate (n - n) None))"
  proof (rule loop0_run)
    fix j assume j: "j < n"
    then have "replicate (n - j) None = None # replicate (n - Suc j) (None :: 'a option)"
      by (metis Suc_diff_Suc replicate_Suc)
    then show "set_elem (Some (List.map alloc [0..<j] @ replicate (n - j) None)) (int j) (alloc j) =
      Inr (Some (List.map alloc [0..<Suc j] @ replicate (n - Suc j) None))"
      using j by (simp add: set_elem_def store_after [of j _ 0])
  qed
  then show ?thesis by (simp add: init_array_def alloc_array_ok [OF assms])
qed

lemma init_array_of:
  assumes "alloc_ok la n" and "array_of n arr"
  shows "\<exists>xs. init_array la (int n) alloc arr = Inr (Some xs) \<and> length xs = n \<and>
    (arr = None \<longrightarrow> xs = List.map alloc [0..<n]) \<and> (\<forall>ys. arr = Some ys \<longrightarrow> xs = ys)"
  using assms init_array_ok [OF assms(1), of alloc] by (cases arr) (auto simp: init_array_def array_of_def)

lemma open_codecs_ok:
  assumes "length xs = n" and "None \<notin> set xs"
  shows "\<exists>ys. loop n (open_codec la) 0 (Some xs) = Inr (Some ys) \<and> length ys = n \<and> None \<notin> set ys"
proof -
  have "\<exists>t. loop n (open_codec la) 0 (Some xs) = Inr t \<and> (\<exists>ys. t = Some ys \<and> length ys = n \<and> None \<notin> set ys)"
  proof (rule loop0_ok [of n "\<lambda>_ t. \<exists>ys. t = Some ys \<and> length ys = n \<and> None \<notin> set ys"])
    fix j and t :: "'a option list option"
    assume j: "j < n" and "\<exists>ys. t = Some ys \<and> length ys = n \<and> None \<notin> set ys"
    then obtain ys where ys: "t = Some ys" "length ys = n" "None \<notin> set ys" by blast
    have "ys ! j \<noteq> None" using ys j by (metis nth_mem)
    then obtain c where c: "ys ! j = Some c" by blast
    have "None \<notin> set (ys[j := Some (snd (codec_open la (set_crccheck la c)))])"
      using ys(3) set_update_subset_insert [of ys j] by blast
    then show "\<exists>t'. open_codec la j t = Inr t' \<and> (\<exists>ys. t' = Some ys \<and> length ys = n \<and> None \<notin> set ys)"
      using j ys c by (simp add: open_codec_def elem_def set_elem_def load_def store_def)
  qed (use assms in simp)
  then show ?thesis by blast
qed

lemma hevc_init_ok:
  assumes a: "alloc_ok la n" and st: "decoders_ok n st"
  shows "\<exists>st'. hevc_init la (int n) st = Inr st' \<and> decoders_ok n st' \<and>
    avctx st' \<noteq> None \<and> avpkt st' \<noteq> None \<and> avframe st' \<noteq> None"
proof -
  obtain cs where cs: "init_array la (int n) (alloc_context la) (avctx st) = Inr (Some cs)" "length cs = n"
    "avctx st = None \<longrightarrow> cs = List.map (alloc_context la) [0..<n]" "\<forall>ys. avctx st = Some ys \<longrightarrow> cs = ys"
    using init_array_of [OF a, of "avctx st" "alloc_context la"] st unfolding decoders_ok_def by metis
  have "None \<notin> set cs" using cs(3,4) a st by (cases "avctx st") (auto simp: alloc_ok_def decoders_ok_def)
  from open_codecs_ok [OF cs(2) this, of la] obtain ds where ds: "loop n (open_codec la) 0 (Some cs) = Inr (Some ds)"
    "length ds = n" "None \<notin> set ds" by blast
  obtain ps where "init_array la (int n) (\<lambda>i. if alloc_packet la i then Some () else None) (avpkt st) = Inr (Some ps)"
    "length ps = n"
    using init_array_of [OF a, of "avpkt st"] st unfolding decoders_ok_def by metis
  moreover obtain fs where "init_array la (int n) (\<lambda>i. if alloc_frame la i then Some () else None) (avframe st) =
      Inr (Some fs)" "length fs = n"
    using init_array_of [OF a, of "avframe st"] st unfolding decoders_ok_def by metis
  ultimately show ?thesis using cs(1) ds by (simp add: hevc_init_def decoders_ok_def array_of_def)
qed

lemma destroy_array_ok:
  assumes "array_of n arr"
  shows "destroy_array (int n) arr = Inr None"
proof (cases arr)
  case (Some xs)
  have "\<exists>t. loop n (\<lambda>i arr. bind_res (elem arr (int i)) (\<lambda>p. if p \<noteq> None then set_elem arr (int i) None else Inr arr))
      0 (Some xs) = Inr t \<and> (\<exists>ys. t = Some ys \<and> length ys = n)"
  proof (rule loop0_ok [of n "\<lambda>_ t. \<exists>ys. t = Some ys \<and> length ys = n"])
    fix j and t :: "'a option list option"
    assume j: "j < n" and "\<exists>ys. t = Some ys \<and> length ys = n"
    then show "\<exists>t'. bind_res (elem t (int j)) (\<lambda>p. if p \<noteq> None then set_elem t (int j) None else Inr t) = Inr t' \<and>
        (\<exists>ys. t' = Some ys \<and> length ys = n)"
      by (auto simp: elem_def set_elem_def load_def store_def)
  qed (use assms Some in \<open>simp add: array_of_def\<close>)
  then show ?thesis by (auto simp: destroy_array_def Some)
qed (simp add: destroy_array_def)

lemma hevc_destroy_ok: "decoders_ok n st \<Longrightarrow> hevc_destroy (int n) st = Inr no_decoders"
  by (simp add: decoders_ok_def hevc_destroy_def destroy_array_ok no_decoders_def)

text \<open>
  An allocation that fails is reported, and then its null pointer is used; and \<^verbatim>\<open>hevc_init\<close> does not enlarge arrays it
  finds.
\<close>

lemma hevc_init_null_context:
  assumes "alloc_ok la 1" "alloc_context la' = (\<lambda>_. None)" "av_malloc la' = av_malloc la"
  shows "hevc_init la' 1 no_decoders = Inl Out_Of_Bounds"
  using assms
  by (simp add: hevc_init_def init_array_def no_decoders_def alloc_array_def alloc_ok_def set_elem_def store_def
      open_codec_def elem_def load_def)

lemma hevc_init_too_small:
  assumes "avctx st = Some [Some c]" "avpkt st = Some [p]" "avframe st = Some [f]"
  shows "hevc_init la 2 st = Inl Out_Of_Bounds"
  using assms
  by (simp add: hevc_init_def init_array_def numeral_2_eq_2 open_codec_def elem_def set_elem_def load_def store_def)

section \<open>Decoding\<close>

lemma elem_array_of:
  assumes "arr = Some xs" and "array_of n arr" and "0 \<le> i" and "i < int n"
  shows "elem arr i = Inr (xs ! nat i)" and "set_elem arr i v = Inr (Some (xs[nat i := v]))"
  using assms by (simp_all add: elem_def set_elem_def load_def store_def array_of_def)

lemma decode_keeps:
  assumes la: "libav_ok la pending" and st: "decoders_ok k st" and i: "0 \<le> index" "index < int k"
    and mem: "av_malloc la (word_of_nat (length data + AV_INPUT_BUFFER_PADDING_SIZE))"
    and c: "\<And>d. canvas = Some d \<Longrightarrow> length d = unat (uw * uh * 4)"
  shows "\<exists>n. \<forall>m \<ge> n. \<exists>t canvas' st'.
    hevc_decode_nal_unit m la rnd32 start stop index data canvas uw uh colourmap fill st = Some (Inr (t, canvas', st')) \<and>
    map_option length canvas' = map_option length canvas \<and> decoders_ok k st'"
proof (cases "avctx st = None \<or> avpkt st = None \<or> avframe st = None")
  case False
  then obtain xs ps fs where a: "avctx st = Some xs" "avpkt st = Some ps" "avframe st = Some fs" by auto
  note ok = st [unfolded decoders_ok_def]
  note e = elem_array_of [OF a(1) _ i] elem_array_of [OF a(2) _ i] elem_array_of [OF a(3) _ i]
  have l: "length xs = k" "None \<notin> set xs" using ok a by (simp_all add: array_of_def)
  then have "xs ! nat index \<noteq> None" using i by (metis nat_less_iff nth_mem)
  then obtain cx where cx: "xs ! nat index = Some cx" by blast
  show ?thesis
  proof (cases "ps ! nat index = None \<or> fs ! nat index = None")
    case True
    then show ?thesis
      unfolding hevc_decode_nal_unit_def using False st ok e cx by (auto simp: a)
  next
    case p: False
    obtain ret c1 where s: "send_packet la cx (data @ replicate AV_INPUT_BUFFER_PADDING_SIZE 0) (int (length data)) =
      (ret, c1)" by fastforce
    obtain n where n: "\<forall>m \<ge> n. \<exists>c' canvas'. receive_frames m la (show_frame rnd32 uw uh colourmap fill) c1 canvas =
        Some (Inr (c', canvas')) \<and> map_option length canvas' = map_option length canvas"
      using receive_frames_keeps [OF la c, where c = c1] by blast
    have "\<exists>t canvas' st'.
      hevc_decode_nal_unit m la rnd32 start stop index data canvas uw uh colourmap fill st = Some (Inr (t, canvas', st')) \<and>
      map_option length canvas' = map_option length canvas \<and> decoders_ok k st'" if m: "n \<le> m" for m
    proof -
      obtain c' canvas' where r: "receive_frames m la (show_frame rnd32 uw uh colourmap fill) c1 canvas =
        Some (Inr (c', canvas'))" "map_option length canvas' = map_option length canvas"
        using n m by blast
      have "None \<notin> set (xs[nat index := Some c'])"
        using l(2) set_update_subset_insert [of xs "nat index"] by blast
      then have "decoders_ok k (st\<lparr>avctx := Some (xs[nat index := Some c'])\<rparr>)"
        using ok l a by (simp add: decoders_ok_def array_of_def)
      then show ?thesis
        unfolding hevc_decode_nal_unit_def using False ok e cx p mem s r by (simp add: a Let_def)
    qed
    then show ?thesis by blast
  qed
qed (use st in \<open>auto simp: hevc_decode_nal_unit_def\<close>)

end
