(* ===== verification/Viewer.thy ===== *)
theory Viewer
  imports Hevc
begin

text \<open>
  The part of \<^verbatim>\<open>src/WebAssembly/main.cc\<close> that owns the canvas: the three entry points the page calls, the states
  they reach in any order, and the invariant of these states.
\<close>

section \<open>The canvas of the viewer\<close>

text \<open>The static variables of \<^verbatim>\<open>main.cc\<close>.\<close>

record 'c viewer =
  canvas_buffer :: "bytes option"
  canvas_length :: u32
  decoders :: "'c decoders"

definition start_viewer :: "'c viewer" where
  "start_viewer = \<lparr>canvas_buffer = None, canvas_length = 0, decoders = no_decoders\<rparr>"

text \<open>A fresh buffer has the bytes \<open>junk\<close> gives it.\<close>

definition hevc_init_frame ::
  "'c libav \<Rightarrow> (nat \<Rightarrow> u8) \<Rightarrow> int \<Rightarrow> int \<Rightarrow> int \<Rightarrow> 'c viewer \<Rightarrow> err + 'c viewer" where
  "hevc_init_frame la junk va_count w h v =
     bind_res (int_mult w h) (\<lambda>wh.
     bind_res (int_mult wh 4) (\<lambda>wh4.
     let len = word_of_int wh4 :: u32;
         v = (if canvas_length v \<noteq> len then v\<lparr>canvas_buffer := None, canvas_length := 0\<rparr> else v);
         v = (if canvas_buffer v = None then
                if av_malloc la len then v\<lparr>canvas_buffer := Some (List.map junk [0..<unat len]), canvas_length := len\<rparr> else v
              else v)
     in bind_res (hevc_init la va_count (decoders v)) (\<lambda>st. Inr (v\<lparr>decoders := st\<rparr>))))"

definition hevc_destroy_frame :: "int \<Rightarrow> 'c viewer \<Rightarrow> err + 'c viewer" where
  "hevc_destroy_frame va_count v =
     (let v = (if canvas_buffer v \<noteq> None then v\<lparr>canvas_buffer := None, canvas_length := 0\<rparr> else v)
      in bind_res (hevc_destroy va_count (decoders v)) (\<lambda>st. Inr (v\<lparr>decoders := st\<rparr>)))"

text \<open>The result of \<^verbatim>\<open>hevc_decode_frame\<close> is a view of the canvas buffer.\<close>

definition hevc_decode_frame ::
  "nat \<Rightarrow> 'c libav \<Rightarrow> (rat \<Rightarrow> rat) \<Rightarrow> rat \<Rightarrow> rat \<Rightarrow> u32 \<Rightarrow> u32 \<Rightarrow> bytes \<Rightarrow> int \<Rightarrow> string \<Rightarrow> u8 \<Rightarrow> 'c viewer \<Rightarrow>
   'c viewer run" where
  "hevc_decode_frame n la rnd start stop uw uh data index colourmap fill v =
     (let len = uw * uh * 4
      in if canvas_buffer v \<noteq> None \<and> canvas_length v = len then
        bind_run (hevc_decode_nal_unit n la rnd start stop index data (canvas_buffer v) uw uh colourmap fill (decoders v))
          (\<lambda>(_, canvas, st). Some (Inr (v\<lparr>canvas_buffer := canvas, decoders := st\<rparr>)))
      else
        bind_run (hevc_decode_nal_unit n la rnd start stop index data None uw uh colourmap fill (decoders v))
          (\<lambda>(_, _, st). Some (Inr (v\<lparr>decoders := st\<rparr>))))"

section \<open>Calls of the page\<close>

text \<open>
  The page calls the entry points in any order, with one number of decoders.  A call of \<open>Decode_Frame\<close> carries the
  size, the data, the number of the decoder, the colour map and the fill value.
\<close>

datatype viewer_call =
  Init_Frame int int
| Destroy_Frame
| Decode_Frame u32 u32 bytes int string u8

fun run_call :: "nat \<Rightarrow> 'c libav \<Rightarrow> (nat \<Rightarrow> u8) \<Rightarrow> nat \<Rightarrow> viewer_call \<Rightarrow> 'c viewer \<Rightarrow> 'c viewer run" where
  "run_call n la junk k (Init_Frame w h) v = Some (hevc_init_frame la junk (int k) w h v)"
| "run_call n la junk k Destroy_Frame v = Some (hevc_destroy_frame (int k) v)"
| "run_call n la junk k (Decode_Frame uw uh data index colourmap fill) v =
     hevc_decode_frame n la rnd32 0 0 uw uh data index colourmap fill v"

text \<open>
  The calls the code is made for: a canvas whose size in bytes is an \<^verbatim>\<open>int\<close>, the number of one of the decoders, and data
  there is memory for.
\<close>

fun call_ok :: "'c libav \<Rightarrow> nat \<Rightarrow> viewer_call \<Rightarrow> bool" where
  "call_ok la k (Init_Frame w h) \<longleftrightarrow> \<bar>w * h\<bar> < 2 ^ 29"
| "call_ok la k Destroy_Frame \<longleftrightarrow> True"
| "call_ok la k (Decode_Frame uw uh data index colourmap fill) \<longleftrightarrow> 0 \<le> index \<and> index < int k \<and>
     av_malloc la (word_of_nat (length data + AV_INPUT_BUFFER_PADDING_SIZE))"

inductive viewer_reaches :: "'c libav \<Rightarrow> (nat \<Rightarrow> u8) \<Rightarrow> nat \<Rightarrow> 'c viewer \<Rightarrow> bool" for la junk k where
  start: "viewer_reaches la junk k start_viewer"
| call: "viewer_reaches la junk k v \<Longrightarrow> call_ok la k c \<Longrightarrow> run_call n la junk k c v = Some (Inr v') \<Longrightarrow>
    viewer_reaches la junk k v'"

inductive_simps run_nothing: "viewer_reaches la junk k start_viewer"

text \<open>The canvas has the length that is kept for it, and the decoders are complete.\<close>

definition viewer_ok :: "nat \<Rightarrow> 'c viewer \<Rightarrow> bool" where
  "viewer_ok k v \<longleftrightarrow> map_option length (canvas_buffer v) = (if canvas_buffer v = None then None else Some (unat (canvas_length v))) \<and>
     (canvas_buffer v = None \<longrightarrow> canvas_length v = 0) \<and> decoders_ok k (decoders v)"

lemma start_viewer_ok [simp]: "viewer_ok k start_viewer"
  by (simp add: viewer_ok_def start_viewer_def no_decoders_def decoders_ok_def array_of_def)

lemma init_frame_ok:
  assumes "alloc_ok la k" and "viewer_ok k v" and "\<bar>w * h\<bar> < 2 ^ 29"
  shows "\<exists>v'. hevc_init_frame la junk (int k) w h v = Inr v' \<and> viewer_ok k v'"
proof -
  obtain st where st: "hevc_init la (int k) (decoders v) = Inr st" "decoders_ok k st"
    using hevc_init_ok [OF assms(1), of "decoders v"] assms(2) by (auto simp: viewer_ok_def)
  obtain p where p: "w * h = p" by simp
  have m: "int_mult w h = Inr (w * h)" "int_mult (w * h) 4 = Inr (w * h * 4)"
    using abs_less_iff [of p "2 ^ 29"] assms(3) unfolding int_mult_def p by auto
  show ?thesis using assms(2) st unfolding hevc_init_frame_def m bind_res_Inr Let_def
    by (auto simp: viewer_ok_def split: if_splits)
qed

lemma destroy_frame_ok: "viewer_ok k v \<Longrightarrow> \<exists>v'. hevc_destroy_frame (int k) v = Inr v' \<and> viewer_ok k v'"
  by (auto simp: hevc_destroy_frame_def viewer_ok_def hevc_destroy_ok no_decoders_def decoders_ok_def array_of_def Let_def)

lemma decode_frame_ok:
  assumes la: "libav_ok la pending" and v: "viewer_ok k v" and i: "0 \<le> index" "index < int k"
    and mem: "av_malloc la (word_of_nat (length data + AV_INPUT_BUFFER_PADDING_SIZE))"
  shows "\<exists>n. \<forall>m \<ge> n. \<exists>v'. hevc_decode_frame m la rnd32 start stop uw uh data index colourmap fill v = Some (Inr v') \<and>
    viewer_ok k v'"
proof -
  have st: "decoders_ok k (decoders v)" using v by (simp add: viewer_ok_def)
  show ?thesis
  proof (cases "canvas_buffer v \<noteq> None \<and> canvas_length v = uw * uh * 4")
    case True
    then have "length d = unat (uw * uh * 4)" if "canvas_buffer v = Some d" for d
      using v that by (simp add: viewer_ok_def)
    from decode_keeps [OF la st i mem this, of "canvas_buffer v" start stop colourmap fill] obtain n where
      n: "\<forall>m \<ge> n. \<exists>t canvas' st'. hevc_decode_nal_unit m la rnd32 start stop index data (canvas_buffer v) uw uh colourmap fill
        (decoders v) = Some (Inr (t, canvas', st')) \<and>
        map_option length canvas' = map_option length (canvas_buffer v) \<and> decoders_ok k st'" by blast
    have "\<exists>v'. hevc_decode_frame m la rnd32 start stop uw uh data index colourmap fill v = Some (Inr v') \<and> viewer_ok k v'"
      if m: "n \<le> m" for m
    proof -
      obtain t canvas' st' where r: "hevc_decode_nal_unit m la rnd32 start stop index data (canvas_buffer v) uw uh colourmap fill
        (decoders v) = Some (Inr (t, canvas', st'))"
        "map_option length canvas' = map_option length (canvas_buffer v)" "decoders_ok k st'" using n m by blast
      then obtain d where "canvas' = Some d" using True by auto
      then show ?thesis
        using r(2,3) True v unfolding hevc_decode_frame_def Let_def if_P [OF True] r(1) by (auto simp: viewer_ok_def)
    qed
    then show ?thesis by blast
  next
    case False
    obtain n where
      n: "\<forall>m \<ge> n. \<exists>t canvas' st'. hevc_decode_nal_unit m la rnd32 start stop index data None uw uh colourmap fill
        (decoders v) = Some (Inr (t, canvas', st')) \<and>
        map_option length canvas' = map_option length (None :: bytes option) \<and> decoders_ok k st'"
      using decode_keeps [OF la st i mem, of None uw uh start stop colourmap fill] by auto
    have "\<exists>v'. hevc_decode_frame m la rnd32 start stop uw uh data index colourmap fill v = Some (Inr v') \<and> viewer_ok k v'"
      if m: "n \<le> m" for m
    proof -
      obtain t canvas' st' where r: "hevc_decode_nal_unit m la rnd32 start stop index data None uw uh colourmap fill
        (decoders v) = Some (Inr (t, canvas', st'))" "decoders_ok k st'" using n m by blast
      then show ?thesis
        using v unfolding hevc_decode_frame_def Let_def if_not_P [OF False] r(1) by (auto simp: viewer_ok_def)
    qed
    then show ?thesis by blast
  qed
qed

lemma run_call_ok:
  assumes "alloc_ok la k" and "libav_ok la pending" and "viewer_ok k v" and "call_ok la k c"
  shows "\<exists>n. \<forall>m \<ge> n. \<exists>v'. run_call m la junk k c v = Some (Inr v') \<and> viewer_ok k v'"
proof (cases c)
  case (Init_Frame w h)
  with init_frame_ok [OF assms(1,3), of w h junk] assms(4) show ?thesis by simp
next
  case Destroy_Frame
  with destroy_frame_ok [OF assms(3)] show ?thesis by simp
next
  case (Decode_Frame uw uh data index colourmap fill)
  with decode_frame_ok [OF assms(2,3), of index data 0 0 uw uh colourmap fill] assms(4) show ?thesis by simp
qed

lemma receive_frames_mono:
  "receive_frames n la show c canvas = Some r \<Longrightarrow> n \<le> m \<Longrightarrow> receive_frames m la show c canvas = Some r"
proof (induction n arbitrary: m c canvas)
  case (Suc n)
  then obtain m' where "m = Suc m'" "n \<le> m'" by (cases m) auto
  with Suc show ?case by (auto split: prod.splits sum.splits if_splits)
qed simp

lemma run_call_mono:
  assumes "run_call n la junk k c v = Some r" and "n \<le> m"
  shows "run_call m la junk k c v = Some r"
proof (cases c)
  case (Decode_Frame uw uh data index colourmap fill)
  have d: "hevc_decode_nal_unit m la rnd32 0 0 index data canvas uw uh colourmap fill st = Some r"
    if "hevc_decode_nal_unit n la rnd32 0 0 index data canvas uw uh colourmap fill st = Some r" for canvas st r
    using that
    by (auto simp: hevc_decode_nal_unit_def bind_run_def Let_def
        split: sum.splits option.splits prod.splits if_splits dest!: receive_frames_mono [OF _ assms(2)])
  show ?thesis using assms d by (auto simp: Decode_Frame hevc_decode_frame_def bind_run_def split: option.splits if_splits)
qed (use assms in simp_all)

lemma viewer_reaches_ok:
  assumes "alloc_ok la k" and "libav_ok la pending" and "viewer_reaches la junk k v"
  shows "viewer_ok k v"
  using assms(3)
proof induction
  case (call v c n v')
  obtain m where m: "\<forall>j \<ge> m. \<exists>v''. run_call j la junk k c v = Some (Inr v'') \<and> viewer_ok k v''"
    using run_call_ok [OF assms(1,2) call.IH call.hyps(2)] by blast
  moreover have "run_call (max m n) la junk k c v = Some (Inr v')"
    using call.hyps(3) by (rule run_call_mono) simp
  ultimately show ?case by (metis max.cobounded1 option.inject sum.inject(2))
qed simp

end
