(* ===== verification/Sessions.thy ===== *)
theory Sessions
  imports Float_Round "HOL-Library.Sublist"
begin

text \<open>
  Sessions of connected pages: \<^verbatim>\<open>src/src/global.h\<close>, with the code of \<^verbatim>\<open>src/src/fits.cpp\<close> and \<^verbatim>\<open>src/src/main_uWS.cpp\<close>
  that uses it.  Every operation of \<^verbatim>\<open>global.h\<close> holds the mutex of what it works on from its first access to its last, so
  it is one step on the state; what uses several of them, in several threads, is in \<open>Connections\<close>.  Times are counts of nanoseconds, the unit of \<^verbatim>\<open>system_clock\<close>; they do not overflow.
\<close>

section \<open>The data\<close>

text \<open>
  The constructors leave no field listed here undefined; the fields of \<^verbatim>\<open>UserSession\<close> they leave undefined (the image
  statistics) and the objects of other libraries (image, Kalman filters, threads, encoder), which start empty, are left out.
\<close>

record user_session =
  us_session_id :: "128 word"
  us_ts :: int
  us_primary_id :: string
  us_ids :: "string list"
  us_hist :: "u32 list"
  us_last_seq :: int
  us_last_video_seq :: int
  us_last_frame_idx :: int
  us_active :: bool
  us_streaming :: bool
  us_width :: int
  us_height :: int
  us_fps :: int
  us_bitrate :: int

definition NBINS :: nat where
  "NBINS = 1024"

definition new_user_session :: "128 word \<Rightarrow> int \<Rightarrow> string \<Rightarrow> string list \<Rightarrow> user_session" where
  "new_user_session session_id t primary_id ids =
     \<lparr>us_session_id = session_id, us_ts = t, us_primary_id = primary_id, us_ids = ids, us_hist = replicate NBINS 0,
      us_last_seq = - 1, us_last_video_seq = - 1, us_last_frame_idx = - 1, us_active = True, us_streaming = False,
      us_width = 0, us_height = 0, us_fps = 10, us_bitrate = 1000\<rparr>"

record 'f fits_download =
  dl_dataset_id :: string
  dl_fp :: "'f option"
  dl_previous_size :: nat
  dl_size :: nat
  dl_buffer_size :: nat
  dl_fits :: "'f option"
  dl_running_size :: nat
  dl_dmin :: rat
  dl_dmax :: rat
  dl_hdr_end :: bool
  dl_success :: bool

definition FLT_MAX :: rat where
  "FLT_MAX = (2 ^ 24 - 1) * 2 ^ 104"

definition new_fits_download :: "'f fits_download" where
  "new_fits_download =
     \<lparr>dl_dataset_id = '''', dl_fp = None, dl_previous_size = 0, dl_size = 0, dl_buffer_size = 0, dl_fits = None,
      dl_running_size = 0, dl_dmin = FLT_MAX, dl_dmax = - FLT_MAX, dl_hdr_end = False, dl_success = True\<rparr>"

section \<open>The registries\<close>

text \<open>
  \<^verbatim>\<open>sessions\<close> maps session ids to shared pointers, here of any type; inserting into an \<^verbatim>\<open>unordered_map\<close> keeps an entry
  that is there.  \<^verbatim>\<open>cluster\<close> is the set of the known peers.
\<close>

definition session_exists :: "string \<Rightarrow> (string \<rightharpoonup> 'p) \<Rightarrow> bool" where
  "session_exists session_id sessions \<longleftrightarrow> sessions session_id \<noteq> None"

definition get_session :: "string \<Rightarrow> (string \<rightharpoonup> 'p) \<Rightarrow> 'p option" where
  "get_session session_id sessions = sessions session_id"

definition insert_session :: "string \<Rightarrow> 'p \<Rightarrow> (string \<rightharpoonup> 'p) \<Rightarrow> (string \<rightharpoonup> 'p)" where
  "insert_session session_id session sessions =
     (if sessions session_id = None then sessions(session_id \<mapsto> session) else sessions)"

definition erase_session :: "string \<Rightarrow> (string \<rightharpoonup> 'p) \<Rightarrow> (string \<rightharpoonup> 'p)" where
  "erase_session session_id sessions = sessions(session_id := None)"

definition cluster_contains_node :: "string \<Rightarrow> string set \<Rightarrow> bool" where
  "cluster_contains_node node cluster \<longleftrightarrow> node \<in> cluster"

definition cluster_insert_node :: "string \<Rightarrow> string set \<Rightarrow> string set" where
  "cluster_insert_node node cluster = insert node cluster"

definition cluster_erase_node :: "string \<Rightarrow> string set \<Rightarrow> string set" where
  "cluster_erase_node node cluster = cluster - {node}"

text \<open>What both promise.\<close>

locale registry =
  fixes has :: "'k \<Rightarrow> 's \<Rightarrow> bool" and add :: "'k \<Rightarrow> 's \<Rightarrow> 's" and remove :: "'k \<Rightarrow> 's \<Rightarrow> 's"
  assumes has_add: "has j (add k s) \<longleftrightarrow> j = k \<or> has j s"
    and has_remove: "has j (remove k s) \<longleftrightarrow> j \<noteq> k \<and> has j s"
    and add_known: "has k s \<Longrightarrow> add k s = s"
    and remove_unknown: "\<not> has k s \<Longrightarrow> remove k s = s"
begin

text \<open>Asking before adding or removing makes no difference.\<close>

lemma add_if_missing: "(if \<not> has k s then add k s else s) = add k s"
  by (simp add: add_known)

lemma remove_if_present: "(if has k s then remove k s else s) = remove k s"
  by (simp add: remove_unknown)

text \<open>After a sequence of additions and removals, what counts is the last one.\<close>

primrec apply_log :: "('k \<times> bool) list \<Rightarrow> 's \<Rightarrow> 's" where
  "apply_log [] s = s"
| "apply_log (x # xs) s = apply_log xs (if snd x then add (fst x) s else remove (fst x) s)"

lemma has_apply_log:
  "has k (apply_log xs s) \<longleftrightarrow>
    (case List.filter (\<lambda>x. fst x = k) xs of [] \<Rightarrow> has k s | ys \<Rightarrow> snd (last ys))"
  by (induction xs arbitrary: s) (auto simp: has_add has_remove split: list.splits)

end

interpretation session_registry: registry session_exists "\<lambda>k. insert_session k p" erase_session for p
  by unfold_locales (auto simp: session_exists_def insert_session_def erase_session_def)

interpretation peers: registry cluster_contains_node cluster_insert_node cluster_erase_node
  by unfold_locales (auto simp: cluster_contains_node_def cluster_insert_node_def cluster_erase_node_def)

text \<open>A session stays registered under its id until it is erased, whatever is inserted.\<close>

lemma get_insert_session:
  "get_session j (insert_session k p s) =
     (if j = k then Some (case get_session k s of None \<Rightarrow> p | Some q \<Rightarrow> q) else get_session j s)"
  by (auto simp: get_session_def insert_session_def split: option.splits)

lemma get_erase_session: "get_session j (erase_session k s) = (if j = k then None else get_session j s)"
  by (simp add: get_session_def erase_session_def)

text \<open>
  The thread that listens to the beacons of the other nodes handles a message from \<open>ip\<close>; a message may hold both words.
\<close>

definition beacon_message :: "string \<Rightarrow> string \<Rightarrow> string \<Rightarrow> string set \<Rightarrow> string set" where
  "beacon_message my_hostname ip message cluster =
     (let cluster = (if sublist ''ENTER'' message \<and> my_hostname \<noteq> ip then
                       if \<not> cluster_contains_node ip cluster then cluster_insert_node ip cluster else cluster
                     else cluster)
      in if sublist ''LEAVE'' message \<and> my_hostname \<noteq> ip then
           if cluster_contains_node ip cluster then cluster_erase_node ip cluster else cluster
         else cluster)"

lemma beacon_message_eq:
  "beacon_message own ip message c =
     (if ip = own then c
      else if sublist ''LEAVE'' message then cluster_erase_node ip c
      else if sublist ''ENTER'' message then cluster_insert_node ip c else c)"
  unfolding beacon_message_def Let_def peers.add_if_missing peers.remove_if_present
  by (auto simp: cluster_insert_node_def cluster_erase_node_def)

lemma own_node_not_in_cluster: "own \<notin> c \<Longrightarrow> own \<notin> beacon_message own ip message c"
  by (simp add: beacon_message_eq cluster_insert_node_def cluster_erase_node_def)

text \<open>What the messages of other nodes, in the order they come in, add to the cluster and remove from it.\<close>

definition beacon_log :: "string \<Rightarrow> (string \<times> string) list \<Rightarrow> (string \<times> bool) list" where
  "beacon_log own ms = concat (List.map (\<lambda>(ip, message).
     if ip = own then [] else if sublist ''LEAVE'' message then [(ip, False)]
     else if sublist ''ENTER'' message then [(ip, True)] else []) ms)"

lemma beacon_log_Cons:
  "beacon_log own ((ip, message) # ms) =
     (if ip = own then [] else if sublist ''LEAVE'' message then [(ip, False)]
      else if sublist ''ENTER'' message then [(ip, True)] else []) @ beacon_log own ms"
  by (simp add: beacon_log_def)

lemma beacon_messages_log:
  "fold (\<lambda>(ip, message). beacon_message own ip message) ms c = peers.apply_log (beacon_log own ms) c"
proof (induction ms arbitrary: c)
  case (Cons m ms)
  then show ?case by (cases m) (simp add: beacon_log_Cons beacon_message_eq)
qed (simp add: beacon_log_def)

lemma in_cluster_iff:
  "node \<in> fold (\<lambda>(ip, message). beacon_message own ip message) ms {} \<longleftrightarrow>
    (case List.filter (\<lambda>x. fst x = node) (beacon_log own ms) of [] \<Rightarrow> False | ys \<Rightarrow> snd (last ys))"
  using peers.has_apply_log [of node "beacon_log own ms" "{}"]
  unfolding beacon_messages_log cluster_contains_node_def empty_iff .

section \<open>Progress notifications\<close>

text \<open>
  \<^verbatim>\<open>elapsed\<close> is a \<^verbatim>\<open>duration<double, std::milli>\<close>, and is compared in nanoseconds of type \<^verbatim>\<open>double\<close> with a quarter of a
  second.
\<close>

definition uWS_PROGRESS_TIMEOUT :: rat where
  "uWS_PROGRESS_TIMEOUT = 0.25"

definition to_nanoseconds :: "rat \<Rightarrow> int" where
  "to_nanoseconds t = \<lfloor>rnd64 (t * 10 ^ 9)\<rfloor>"

definition check_progress_timeout :: "user_session option \<Rightarrow> int \<Rightarrow> bool" where
  "check_progress_timeout session now =
     (case session of None \<Rightarrow> False
      | Some s \<Rightarrow>
          let elapsed = rnd64 (rnd64 (of_int (now - us_ts s)) / 10 ^ 6)
          in rnd64 (of_int (to_nanoseconds uWS_PROGRESS_TIMEOUT)) \<le> rnd64 (elapsed * 10 ^ 6))"

definition update_session_timestamp :: "int \<Rightarrow> user_session option \<Rightarrow> user_session option" where
  "update_session_timestamp now session = map_option (\<lambda>s. s\<lparr>us_ts := now\<rparr>) session"

text \<open>The timestamp of a new session lies back by the timeout.\<close>

definition connect_session :: "128 word \<Rightarrow> int \<Rightarrow> string list \<Rightarrow> user_session option" where
  "connect_session session_id now ids =
     (if 0 < length ids then Some (new_user_session session_id (now - to_nanoseconds uWS_PROGRESS_TIMEOUT) (ids ! 0) ids)
      else None)"

lemma rnd64_of_int: "\<bar>n\<bar> < 2 ^ 31 \<Longrightarrow> rnd64 (of_int n) = of_int n"
proof -
  assume n: "\<bar>n\<bar> < 2 ^ 31"
  then have "of_int \<bar>n\<bar> < (of_int (2 ^ 31) :: rat)" by (simp only: of_int_less_iff)
  then have less: "\<bar>of_int n :: rat\<bar> < pow2 (30 + 1)" by (simp add: pow2_def)
  have eq: "of_int n = (of_int n :: rat) * pow2 0" by (simp add: pow2_def)
  show ?thesis unfolding rnd64_def by (rule round_to_exact [OF eq less]) simp_all
qed

lemma timeout_ns [simp]: "to_nanoseconds uWS_PROGRESS_TIMEOUT = 250000000"
  using rnd64_of_int [of 250000000] by (simp add: to_nanoseconds_def uWS_PROGRESS_TIMEOUT_def)

lemma rnd64_relative:
  assumes "1 / 10 ^ 9 \<le> \<bar>x\<bar>"
  shows "\<bar>rnd64 x - x\<bar> \<le> \<bar>x\<bar> / 10 ^ 15"
proof -
  have "pow2 (- 1022) \<le> pow2 (- 30)" by (rule pow2_mono) simp
  also have "\<dots> \<le> \<bar>x\<bar>" using assms by (simp add: pow2_def)
  finally have "\<bar>rnd64 x - x\<bar> \<le> \<bar>x\<bar> * pow2 (- 53)" unfolding rnd64_def by (rule round_to_relative)
  also have "\<dots> \<le> \<bar>x\<bar> * (1 / 10 ^ 15)" by (intro mult_left_mono) (simp_all add: pow2_def)
  finally show ?thesis by simp
qed

lemma check_progress_timeout_iff:
  "check_progress_timeout (Some s) now \<longleftrightarrow> 250000000 \<le> now - us_ts s"
proof -
  define d where "d = now - us_ts s"
  define a where "a = rnd64 (of_int d)"
  define b where "b = rnd64 (a / 10 ^ 6)"
  define c where "c = rnd64 (b * 10 ^ 6)"
  have "rnd64 (250000000 :: rat) = 250000000" using rnd64_of_int [of 250000000] by simp
  then have check: "check_progress_timeout (Some s) now \<longleftrightarrow> 250000000 \<le> c"
    by (simp add: check_progress_timeout_def Let_def a_def b_def c_def d_def)
  have "250000000 \<le> c \<longleftrightarrow> 250000000 \<le> d"
  proof (cases "d = 0 \<or> d = 250000000")
    case True
    then show ?thesis
    proof
      assume "d = 0"
      then have "c = 0" using rnd64_of_int [of 0] by (simp add: c_def b_def a_def)
      with \<open>d = 0\<close> show ?thesis by simp
    next
      assume d: "d = 250000000"
      then have "a = 250000000" using rnd64_of_int [of 250000000] by (simp add: a_def)
      moreover have "b = 250" using rnd64_of_int [of 250] calculation by (simp add: b_def)
      ultimately have "c = 250000000" using rnd64_of_int [of 250000000] by (simp add: c_def)
      with d show ?thesis by simp
    qed
  next
    case False
    define x :: rat where "x = of_int d"
    have x: "1 \<le> \<bar>x\<bar>" using False by (simp add: x_def flip: of_int_abs) linarith
    then have a: "\<bar>a - x\<bar> \<le> \<bar>x\<bar> / 1000000000000000"
      using rnd64_relative [of x] by (simp add: a_def x_def)
    define q where "q = a / 1000000"
    have q6: "1 / 1000000000 \<le> \<bar>q\<bar>" using a x unfolding q_def by linarith
    have b: "\<bar>b - q\<bar> \<le> \<bar>q\<bar> / 1000000000000000"
      using rnd64_relative [of q] q6 by (simp add: b_def q_def)
    define p where "p = b * 1000000"
    have p6: "1 / 1000000000 \<le> \<bar>p\<bar>" using b q6 unfolding p_def by linarith
    have c: "\<bar>c - p\<bar> \<le> \<bar>p\<bar> / 1000000000000000"
      using rnd64_relative [of p] p6 by (simp add: c_def p_def)
    show ?thesis
    proof (cases "250000000 \<le> d")
      case True
      then have "250000001 \<le> d" using False by simp
      then have "250000001 \<le> x" by (simp add: x_def)
      then have "250000000 \<le> c" using a b c unfolding q_def p_def by linarith
      with True show ?thesis by simp
    next
      case False
      then have "x \<le> 249999999" by (simp add: x_def)
      then have "c < 250000000" using a b c x unfolding q_def p_def by linarith
      with False show ?thesis by simp
    qed
  qed
  then show ?thesis by (simp add: check d_def)
qed

text \<open>A new session is due at once.\<close>

lemma connect_session_Some:
  "connect_session u now ids = Some s \<longleftrightarrow>
     ids \<noteq> [] \<and> s = new_user_session u (now - 250000000) (ids ! 0) ids"
  by (auto simp: connect_session_def)

lemma first_message_due: "connect_session u now ids = Some s \<Longrightarrow> now \<le> now' \<Longrightarrow> check_progress_timeout (Some s) now'"
  by (auto simp: connect_session_Some check_progress_timeout_iff new_user_session_def)

end
