(* ===== verification/Connections.thy ===== *)
theory Connections
  imports Sessions
begin

text \<open>
  Progress notifications and the life of connections: the lists of connections by data set of \<^verbatim>\<open>src/src/global.h\<close>, kept by
  the WebSocket handlers of \<^verbatim>\<open>src/src/main_uWS.cpp\<close> and read by \<^verbatim>\<open>send_progress_notification\<close> of \<^verbatim>\<open>src/src/fits.cpp\<close>,
  which the threads of an OpenMP loop call.

  A WebSocket is a number, that of its memory, and its user data points to the session in \<open>hub_sessions\<close>; both are gone once
  they are deleted, and a number may be used again then.  The handlers of one WebSocket run one after the other, in the thread of
  its event loop, at the same time as everything else.  The handlers \<^verbatim>\<open>open\<close> and \<^verbatim>\<open>close\<close> leave the work on
  \<^verbatim>\<open>m_progress\<close> to threads they detach: \<open>hub_tasks\<close> holds those that have not got \<^verbatim>\<open>m_progress_mutex\<close> yet, in the order they
  were started.  A call of \<^verbatim>\<open>send_progress_notification\<close> holds this mutex shared while it is in \<open>hub_calls\<close>, and they hold it
  alone; a critical section on the mutex of a session is one event.  So are the copy of the list, although its \<^verbatim>\<open>m_progress[id]\<close> may
  insert an entry under the shared mutex (two at a time are a race in the source), and each read or write of a timestamp or of
  \<^verbatim>\<open>active\<close> without a mutex.  The clock does not go back.  What the library does (to call
  \<^verbatim>\<open>open\<close> after \<^verbatim>\<open>upgrade\<close>, to free a WebSocket after \<^verbatim>\<open>close\<close>) is part of the events; \<^verbatim>\<open>user\<close> and \<^verbatim>\<open>user->ptr\<close> are not
  null, as every WebSocket is made with a session.
\<close>

section \<open>The state\<close>

datatype task = Register string nat | Unregister string nat

type_synonym progress_list = "string \<rightharpoonup> nat set"

text \<open>
  Where a call is with the first of the WebSockets it has not dealt with: about to look at its user data; with the time, about
  to compare it with the timestamp; about to ask whether the page is active; about to send; about to set the timestamp.
\<close>

datatype stage = Looking | Asking int | Passed | Sending | Stamping

record call =
  call_dataset :: string
  call_running :: nat
  call_total :: nat
  call_rest :: "nat list"
  call_stage :: stage

text \<open>
  What the event loop is doing with a WebSocket: in a handler of a message, with the time it has read; in \<^verbatim>\<open>close\<close>, after
  it has cleared \<^verbatim>\<open>active\<close>, started the thread, deleted the session.
\<close>

datatype handler = Handling int | Deactivated | Launched | Deleted

text \<open>\<open>hub_sent\<close> are the messages sent, the latest first: by which thread, on which WebSocket, when, and whether the work was done.\<close>

record hub =
  hub_clock :: int
  hub_progress :: progress_list
  hub_sockets :: "nat set"
  hub_sessions :: "nat \<rightharpoonup> user_session"
  hub_handler :: "nat \<rightharpoonup> handler"
  hub_tasks :: "task list"
  hub_threads :: nat
  hub_calls :: "nat \<rightharpoonup> call"
  hub_sent :: "(nat \<times> nat \<times> int \<times> bool) list"

definition new_hub :: "nat \<Rightarrow> int \<Rightarrow> hub" where
  "new_hub threads t = \<lparr>hub_clock = t, hub_progress = Map.empty, hub_sockets = {}, hub_sessions = Map.empty,
     hub_handler = Map.empty, hub_tasks = [], hub_threads = threads, hub_calls = Map.empty, hub_sent = []\<rparr>"

section \<open>The handlers\<close>

text \<open>
  \<open>Rejected\<close> is the answer where an event cannot happen, and \<open>Out_Of_Bounds\<close> that of an access to deleted memory.
  \<^verbatim>\<open>m_progress[id]\<close> makes an empty entry where there is none.
\<close>

definition connections_of :: "progress_list \<Rightarrow> string \<Rightarrow> nat set" where
  "connections_of p id' = (case p id' of None \<Rightarrow> {} | Some c \<Rightarrow> c)"

fun run_task :: "task \<Rightarrow> progress_list \<Rightarrow> progress_list" where
  "run_task (Register primary_id ws) p = p(primary_id \<mapsto> insert ws (connections_of p primary_id))"
| "run_task (Unregister primary_id ws) p =
     (let connections = connections_of p primary_id - {ws};
          p = p(primary_id \<mapsto> connections)
      in if connections = {} then p(primary_id := None) else p)"

definition with_session :: "nat \<Rightarrow> hub \<Rightarrow> (user_session \<Rightarrow> hub) \<Rightarrow> err + hub" where
  "with_session ws h f = (case hub_sessions h ws of None \<Rightarrow> Inl Out_Of_Bounds | Some s \<Rightarrow> Inr (f s))"

definition ws_upgrade :: "nat \<Rightarrow> 128 word \<Rightarrow> string list \<Rightarrow> hub \<Rightarrow> err + hub" where
  "ws_upgrade ws u ids h =
     (if ws \<in> hub_sockets h then Inl Rejected
      else case connect_session u (hub_clock h) ids of None \<Rightarrow> Inr h
        | Some s \<Rightarrow> Inr (h\<lparr>hub_sockets := insert ws (hub_sockets h), hub_sessions := (hub_sessions h)(ws \<mapsto> s)\<rparr>))"

definition ws_open :: "nat \<Rightarrow> hub \<Rightarrow> err + hub" where
  "ws_open ws h =
     (if ws \<notin> hub_sockets h \<or> hub_handler h ws \<noteq> None then Inl Rejected
      else with_session ws h (\<lambda>s. h\<lparr>hub_tasks := hub_tasks h @ [Register (us_primary_id s) ws]\<rparr>))"

text \<open>The handlers of \<^verbatim>\<open>[init_video]\<close>, \<^verbatim>\<open>[end_video]\<close>, \<^verbatim>\<open>[video]\<close>, \<^verbatim>\<open>[image]\<close> and \<^verbatim>\<open>[realtime_image_spectrum]\<close> start with
  \<^verbatim>\<open>auto now = system_clock::now(); user->ptr->ts = now;\<close>, without a mutex.\<close>

definition ws_message :: "nat \<Rightarrow> hub \<Rightarrow> err + hub" where
  "ws_message ws h =
     (if ws \<notin> hub_sockets h \<or> hub_handler h ws \<noteq> None then Inl Rejected
      else Inr (h\<lparr>hub_handler := (hub_handler h)(ws \<mapsto> Handling (hub_clock h))\<rparr>))"

definition ws_message_stamp :: "nat \<Rightarrow> hub \<Rightarrow> err + hub" where
  "ws_message_stamp ws h =
     (case hub_handler h ws of
        Some (Handling now) \<Rightarrow>
          with_session ws h (\<lambda>s. h\<lparr>hub_sessions := (hub_sessions h)(ws \<mapsto> s\<lparr>us_ts := now\<rparr>),
            hub_handler := (hub_handler h)(ws := None)\<rparr>)
      | _ \<Rightarrow> Inl Rejected)"

text \<open>
  \<^verbatim>\<open>close\<close>: \<^verbatim>\<open>active = false\<close>; the thread is started; the threads of the session are joined and the session is deleted;
  and when the handler returns, the library frees the WebSocket.
\<close>

definition ws_close :: "nat \<Rightarrow> hub \<Rightarrow> err + hub" where
  "ws_close ws h =
     (if ws \<notin> hub_sockets h \<or> hub_handler h ws \<noteq> None then Inl Rejected
      else with_session ws h (\<lambda>s. h\<lparr>hub_sessions := (hub_sessions h)(ws \<mapsto> s\<lparr>us_active := False\<rparr>),
        hub_handler := (hub_handler h)(ws \<mapsto> Deactivated)\<rparr>))"

definition ws_close_launch :: "nat \<Rightarrow> hub \<Rightarrow> err + hub" where
  "ws_close_launch ws h =
     (if hub_handler h ws \<noteq> Some Deactivated then Inl Rejected
      else with_session ws h (\<lambda>s. h\<lparr>hub_tasks := hub_tasks h @ [Unregister (us_primary_id s) ws],
        hub_handler := (hub_handler h)(ws \<mapsto> Launched)\<rparr>))"

definition ws_close_delete :: "nat \<Rightarrow> hub \<Rightarrow> err + hub" where
  "ws_close_delete ws h =
     (if hub_handler h ws \<noteq> Some Launched then Inl Rejected
      else with_session ws h (\<lambda>s. h\<lparr>hub_sessions := (hub_sessions h)(ws := None),
        hub_handler := (hub_handler h)(ws \<mapsto> Deleted)\<rparr>))"

definition ws_free :: "nat \<Rightarrow> hub \<Rightarrow> err + hub" where
  "ws_free ws h =
     (if hub_handler h ws \<noteq> Some Deleted then Inl Rejected
      else Inr (h\<lparr>hub_sockets := hub_sockets h - {ws}, hub_handler := (hub_handler h)(ws := None)\<rparr>))"

text \<open>The waiting thread at position \<open>i\<close> gets the mutex, which no call holds.\<close>

definition run_thread :: "nat \<Rightarrow> hub \<Rightarrow> err + hub" where
  "run_thread i h =
     (if i < length (hub_tasks h) \<and> (\<forall>j < hub_threads h. hub_calls h j = None) then
        Inr (h\<lparr>hub_progress := run_task (hub_tasks h ! i) (hub_progress h),
          hub_tasks := take i (hub_tasks h) @ drop (Suc i) (hub_tasks h)\<rparr>)
      else Inl Rejected)"

section \<open>Sending\<close>

text \<open>Thread \<open>i\<close> calls \<^verbatim>\<open>send_progress_notification\<close>: the list of connections is copied under the mutex, which is kept.\<close>

definition call_start :: "nat \<Rightarrow> string \<Rightarrow> nat \<Rightarrow> nat \<Rightarrow> hub \<Rightarrow> err + hub" where
  "call_start i dataset_id running whole h =
     (if i < hub_threads h \<and> hub_calls h i = None then
        let connections = connections_of (hub_progress h) dataset_id
        in Inr (h\<lparr>hub_progress := (hub_progress h)(dataset_id \<mapsto> connections),
             hub_calls := (hub_calls h)(i \<mapsto> \<lparr>call_dataset = dataset_id, call_running = running, call_total = whole,
               call_rest = sorted_list_of_set connections, call_stage = Looking\<rparr>)\<rparr>)
      else Inl Rejected)"

text \<open>Its next access to shared memory; at the end of the list it returns, and releases the mutex.\<close>

definition set_call :: "nat \<Rightarrow> call \<Rightarrow> hub \<Rightarrow> hub" where
  "set_call i c h = h\<lparr>hub_calls := (hub_calls h)(i \<mapsto> c)\<rparr>"

definition call_next :: "call \<Rightarrow> call" where
  "call_next c = c\<lparr>call_rest := tl (call_rest c), call_stage := Looking\<rparr>"

definition call_done :: "call \<Rightarrow> bool" where
  "call_done c \<longleftrightarrow> call_running c = call_total c"

definition call_at :: "nat \<Rightarrow> call \<Rightarrow> nat \<Rightarrow> hub \<Rightarrow> err + hub" where
  "call_at i c ws h =
     (case call_stage c of
        Looking \<Rightarrow>
          if ws \<in> hub_sockets h then Inr (set_call i (c\<lparr>call_stage := Asking (hub_clock h)\<rparr>) h) else Inl Out_Of_Bounds
      | Asking now \<Rightarrow>
          with_session ws h (\<lambda>s. set_call i
            (if check_progress_timeout (Some s) now \<or> call_done c then c\<lparr>call_stage := Passed\<rparr> else call_next c) h)
      | Passed \<Rightarrow>
          with_session ws h (\<lambda>s. set_call i (if us_active s then c\<lparr>call_stage := Sending\<rparr> else call_next c) h)
      | Sending \<Rightarrow>
          if ws \<in> hub_sockets h then
            Inr (set_call i (c\<lparr>call_stage := Stamping\<rparr>) (h\<lparr>hub_sent := (i, ws, hub_clock h, call_done c) # hub_sent h\<rparr>))
          else Inl Out_Of_Bounds
      | Stamping \<Rightarrow>
          with_session ws h (\<lambda>s. set_call i (call_next c)
            (h\<lparr>hub_sessions := (hub_sessions h)(ws := update_session_timestamp (hub_clock h) (Some s))\<rparr>)))"

definition call_step :: "nat \<Rightarrow> hub \<Rightarrow> err + hub" where
  "call_step i h =
     (case hub_calls h i of
        None \<Rightarrow> Inl Rejected
      | Some c \<Rightarrow>
          (case call_rest c of
             [] \<Rightarrow> Inr (h\<lparr>hub_calls := (hub_calls h)(i := None)\<rparr>)
           | ws # _ \<Rightarrow> call_at i c ws h))"

section \<open>Events and runs\<close>

datatype event =
    Tick nat
  | Upgrade nat "128 word" "string list" | Open nat | Message nat | Stamp nat
  | Close nat | Launch nat | Delete nat | Free nat
  | Thread nat
  | Call nat string nat nat | Step nat

fun perform :: "event \<Rightarrow> hub \<Rightarrow> err + hub" where
  "perform (Tick n) h = Inr (h\<lparr>hub_clock := hub_clock h + int n\<rparr>)"
| "perform (Upgrade ws u ids) h = ws_upgrade ws u ids h"
| "perform (Open ws) h = ws_open ws h"
| "perform (Message ws) h = ws_message ws h"
| "perform (Stamp ws) h = ws_message_stamp ws h"
| "perform (Close ws) h = ws_close ws h"
| "perform (Launch ws) h = ws_close_launch ws h"
| "perform (Delete ws) h = ws_close_delete ws h"
| "perform (Free ws) h = ws_free ws h"
| "perform (Thread i) h = run_thread i h"
| "perform (Call i d running whole) h = call_start i d running whole h"
| "perform (Step i) h = call_step i h"

text \<open>A run of events that are all allowed by \<open>ok\<close>, and the same as a function.\<close>

inductive hub_run :: "(event \<Rightarrow> hub \<Rightarrow> bool) \<Rightarrow> hub \<Rightarrow> event list \<Rightarrow> hub \<Rightarrow> bool" for ok h where
  start: "hub_run ok h [] h"
| event: "hub_run ok h es h1 \<Longrightarrow> ok e h1 \<Longrightarrow> perform e h1 = Inr h2 \<Longrightarrow> hub_run ok h (es @ [e]) h2"

fun try_run :: "(event \<Rightarrow> hub \<Rightarrow> bool) \<Rightarrow> event list \<Rightarrow> hub \<Rightarrow> err + hub" where
  "try_run ok [] h = Inr h"
| "try_run ok (e # es) h = (if ok e h then bind_res (perform e h) (try_run ok es) else Inl Rejected)"

lemma hub_run_trans: "hub_run ok h1 fs h2 \<Longrightarrow> hub_run ok h es h1 \<Longrightarrow> hub_run ok h (es @ fs) h2"
proof (induction rule: hub_run.induct)
  case (event fs h2 e h3)
  from hub_run.event [OF event.IH [OF event.prems] event.hyps(2,3)] show ?case by simp
qed simp

lemma hub_run_mono: "hub_run ok h es h' \<Longrightarrow> (\<And>e h. ok e h \<Longrightarrow> ok' e h) \<Longrightarrow> hub_run ok' h es h'"
  by (induction rule: hub_run.induct) (auto intro: hub_run.intros)

lemma try_run_hub_run: "try_run ok es h = Inr h' \<Longrightarrow> hub_run ok h es h'"
proof (induction es arbitrary: h)
  case (Cons e es)
  then obtain h1 where "ok e h" "perform e h = Inr h1" "try_run ok es h1 = Inr h'"
    by (auto simp: res_simps split: if_splits)
  then have "hub_run ok h ([] @ [e]) h1" "hub_run ok h1 es h'"
    by (auto intro: hub_run.intros Cons.IH simp del: append_Nil)
  then show ?case using hub_run_trans by fastforce
qed (simp add: hub_run.start)

end
