(* ===== verification/Notifications.thy ===== *)
theory Notifications
  imports Connections
begin

text \<open>
  What holds of progress notifications (\<open>Connections\<close>): no access to deleted memory if the threads started by \<^verbatim>\<open>open\<close> and
  \<^verbatim>\<open>close\<close> keep their order and \<^verbatim>\<open>close\<close> waits for them, and messages to a page that are a quarter of a second apart but for those
  of calls that run at the same time.
\<close>

section \<open>Lists of connections\<close>

lemma connections_of_Register:
  "connections_of (run_task (Register id' ws) p) d =
     (if d = id' then insert ws (connections_of p d) else connections_of p d)"
  by (simp add: connections_of_def)

lemma connections_of_Unregister:
  "connections_of (run_task (Unregister id' ws) p) d =
     (if d = id' then connections_of p d - {ws} else connections_of p d)"
  by (simp add: connections_of_def Let_def split: option.splits)

lemmas connections_of_simps [simp] = connections_of_Register connections_of_Unregister

lemma connections_of_lookup [simp]: "connections_of (p(d \<mapsto> connections_of p d)) = connections_of p"
  by (rule ext) (simp add: connections_of_def)

declare run_task.simps [simp del]

fun task_ws :: "task \<Rightarrow> nat" where
  "task_ws (Register d ws) = ws"
| "task_ws (Unregister d ws) = ws"

fun task_dataset :: "task \<Rightarrow> string" where
  "task_dataset (Register d ws) = d"
| "task_dataset (Unregister d ws) = d"

text \<open>The connections once all waiting threads have run.\<close>

definition settled :: "hub \<Rightarrow> string \<Rightarrow> nat set" where
  "settled h d = connections_of (fold run_task (hub_tasks h) (hub_progress h)) d"

lemma connections_of_run_task_cong:
  "connections_of p = connections_of q \<Longrightarrow> connections_of (run_task t p) = connections_of (run_task t q)"
  by (rule ext) (cases t; simp only: connections_of_simps)

lemma fold_run_task_cong:
  "connections_of p = connections_of q \<Longrightarrow> connections_of (fold run_task ts p) = connections_of (fold run_task ts q)"
proof (induction ts arbitrary: p q)
  case (Cons t ts)
  from Cons.IH [OF connections_of_run_task_cong [OF Cons.prems]] show ?case unfolding fold_Cons o_apply .
qed (simp only: fold_Nil id_apply)

lemma fold_run_task_other:
  "ws \<notin> task_ws ` set ts \<Longrightarrow> ws \<in> connections_of (fold run_task ts p) d \<longleftrightarrow> ws \<in> connections_of p d"
proof (induction ts arbitrary: p)
  case (Cons t ts)
  have "ws \<in> connections_of (run_task t p) d \<longleftrightarrow> ws \<in> connections_of p d" using Cons.prems by (cases t) auto
  moreover have "ws \<in> connections_of (fold run_task ts (run_task t p)) d \<longleftrightarrow> ws \<in> connections_of (run_task t p) d"
    by (rule Cons.IH) (use Cons.prems in simp)
  ultimately show ?case unfolding fold_Cons o_apply by (simp only:)
qed (simp only: fold_Nil id_apply)

section \<open>Memory\<close>

text \<open>
  The first holds when the detached threads get the mutex in the order they were started, the second when \<^verbatim>\<open>close\<close> deletes a
  session only once the threads started for its WebSocket have run.
\<close>

fun in_order :: "event \<Rightarrow> hub \<Rightarrow> bool" where
  "in_order (Thread i) h \<longleftrightarrow> i = 0"
| "in_order _ h \<longleftrightarrow> True"

fun awaited :: "event \<Rightarrow> hub \<Rightarrow> bool" where
  "awaited (Delete ws) h \<longleftrightarrow> ws \<notin> task_ws ` set (hub_tasks h)"
| "awaited _ h \<longleftrightarrow> True"

definition careful :: "event \<Rightarrow> hub \<Rightarrow> bool" where
  "careful e h \<longleftrightarrow> in_order e h \<and> awaited e h"

text \<open>
  A WebSocket that is open has a session until \<^verbatim>\<open>close\<close> has deleted it; what a waiting thread or a list will name belongs to an
  open connection to that data set; and a call goes through connections that are in the list.
\<close>

definition opened :: "hub \<Rightarrow> nat \<Rightarrow> bool" where
  "opened h ws \<longleftrightarrow> ws \<in> hub_sockets h \<and> hub_sessions h ws \<noteq> None"

definition handlers_ok :: "hub \<Rightarrow> bool" where
  "handlers_ok h \<longleftrightarrow> (\<forall>ws.
     (ws \<notin> hub_sockets h \<longrightarrow> hub_sessions h ws = None \<and> hub_handler h ws = None) \<and>
     (ws \<in> hub_sockets h \<longrightarrow> (hub_sessions h ws = None \<longleftrightarrow> hub_handler h ws = Some Deleted)))"

definition connected :: "hub \<Rightarrow> nat \<Rightarrow> string \<Rightarrow> bool" where
  "connected h ws d \<longleftrightarrow> (\<exists>s. hub_sessions h ws = Some s \<and> us_primary_id s = d)"

definition lists_ok :: "hub \<Rightarrow> bool" where
  "lists_ok h \<longleftrightarrow> (\<forall>d. \<forall>ws \<in> settled h d. connected h ws d \<and> hub_handler h ws \<noteq> Some Launched) \<and>
     (\<forall>t \<in> set (hub_tasks h). connected h (task_ws t) (task_dataset t))"

definition calls_ok :: "hub \<Rightarrow> bool" where
  "calls_ok h \<longleftrightarrow> (\<forall>i c. hub_calls h i = Some c \<longrightarrow> i < hub_threads h \<and>
     set (call_rest c) \<subseteq> connections_of (hub_progress h) (call_dataset c)) \<and>
     (\<forall>d. finite (connections_of (hub_progress h) d))"

text \<open>Lists under the events of handlers.\<close>

lemma settled_cong:
  "hub_tasks h' = hub_tasks h \<Longrightarrow> connections_of (hub_progress h') = connections_of (hub_progress h) \<Longrightarrow> settled h' = settled h"
  unfolding settled_def using fold_run_task_cong [of "hub_progress h'" "hub_progress h"] by (auto intro!: ext)

lemma settled_add:
  "hub_tasks h' = hub_tasks h @ [t] \<Longrightarrow> hub_progress h' = hub_progress h \<Longrightarrow>
   settled h' d = connections_of (run_task t (fold run_task (hub_tasks h) (hub_progress h))) d"
  by (simp add: settled_def)

lemma settled_first:
  "hub_tasks h = t # ts \<Longrightarrow> hub_tasks h' = ts \<Longrightarrow> hub_progress h' = run_task t (hub_progress h) \<Longrightarrow> settled h' = settled h"
  by (rule ext) (simp add: settled_def)

lemma connected_cong:
  "hub_sessions h' ws = Some s' \<Longrightarrow> hub_sessions h ws = Some s \<Longrightarrow> us_primary_id s' = us_primary_id s \<Longrightarrow>
   connected h' ws d \<longleftrightarrow> connected h ws d"
  by (simp add: connected_def)

text \<open>What does not change for the lists: the sessions keep their data sets, and no \<^verbatim>\<open>close\<close> gets further.\<close>

lemma lists_ok_same:
  assumes "lists_ok h" and "hub_tasks h' = hub_tasks h"
    and "connections_of (hub_progress h') = connections_of (hub_progress h)"
    and "\<And>ws d. connected h ws d \<Longrightarrow> connected h' ws d"
    and "\<And>ws. hub_sessions h ws \<noteq> None \<Longrightarrow> hub_handler h' ws = Some Launched \<Longrightarrow> hub_handler h ws = Some Launched"
  shows "lists_ok h'"
proof -
  have s: "settled h' = settled h" using assms(2,3) by (rule settled_cong)
  have c: "hub_sessions h ws \<noteq> None" if "connected h ws d" for ws d using that by (auto simp: connected_def)
  show ?thesis unfolding lists_ok_def s assms(2) using assms(1,4,5) c unfolding lists_ok_def by blast
qed

text \<open>Every WebSocket a call goes through, and every one that a waiting thread will name, is open.\<close>

lemma listed_opened:
  assumes "lists_ok h" and "ws \<in> connections_of (hub_progress h) d"
  shows "hub_sessions h ws \<noteq> None"
proof (cases "ws \<in> task_ws ` set (hub_tasks h)")
  case True
  then show ?thesis using assms(1) by (auto simp: lists_ok_def connected_def)
next
  case False
  then have "ws \<in> settled h d" using assms(2) by (simp add: settled_def fold_run_task_other)
  then have "connected h ws d" using assms(1) unfolding lists_ok_def by blast
  then show ?thesis by (auto simp: connected_def)
qed

lemma called_opened:
  assumes "handlers_ok h" "lists_ok h" "calls_ok h" "hub_calls h i = Some c" "ws \<in> set (call_rest c)"
  shows "opened h ws"
proof -
  have "ws \<in> connections_of (hub_progress h) (call_dataset c)" using assms(3-5) by (auto simp: calls_ok_def)
  then have "hub_sessions h ws \<noteq> None" by (rule listed_opened [OF assms(2)])
  with assms(1) show ?thesis by (auto simp: opened_def handlers_ok_def)
qed

text \<open>The three together, and that every event which may happen keeps them.\<close>

definition hub_ok :: "hub \<Rightarrow> bool" where
  "hub_ok h \<longleftrightarrow> handlers_ok h \<and> lists_ok h \<and> calls_ok h"

lemma hub_ok_new: "hub_ok (new_hub n t)"
  by (simp add: hub_ok_def handlers_ok_def lists_ok_def calls_ok_def settled_def new_hub_def connections_of_def)

lemma calls_ok_same:
  "calls_ok h \<Longrightarrow> hub_calls h' = hub_calls h \<Longrightarrow> hub_threads h' = hub_threads h \<Longrightarrow>
   connections_of (hub_progress h') = connections_of (hub_progress h) \<Longrightarrow> calls_ok h'"
  by (simp add: calls_ok_def)

lemma with_session_eq [res_simps]:
  "with_session ws h f = Inr h' \<longleftrightarrow> (\<exists>s. hub_sessions h ws = Some s \<and> h' = f s)"
  "with_session ws h f = Inl e \<longleftrightarrow> hub_sessions h ws = None \<and> e = Out_Of_Bounds"
  by (auto simp: with_session_def split: option.splits)

lemma hub_ok_upgrade:
  assumes "hub_ok h" "ws_upgrade ws u ids h = Inr h'"
  shows "hub_ok h'"
proof (cases "connect_session u (hub_clock h) ids")
  case None
  with assms show ?thesis by (auto simp: ws_upgrade_def split: if_splits)
next
  case (Some s)
  with assms have w: "ws \<notin> hub_sockets h" and
    h': "h' = h\<lparr>hub_sockets := insert ws (hub_sockets h), hub_sessions := (hub_sessions h)(ws \<mapsto> s)\<rparr>"
    by (auto simp: ws_upgrade_def split: if_splits)
  have none: "hub_sessions h ws = None" "hub_handler h ws = None" using assms(1) w by (auto simp: hub_ok_def handlers_ok_def)
  have "handlers_ok h'" using assms(1) none by (auto simp: hub_ok_def handlers_ok_def h')
  moreover have "lists_ok h'"
  proof (rule lists_ok_same [where h = h])
    fix w d
    assume "connected h w d"
    then show "connected h' w d" using none by (auto simp: connected_def h')
  qed (use assms(1) in \<open>simp_all add: hub_ok_def h'\<close>)
  moreover have "calls_ok h'" by (rule calls_ok_same [where h = h]) (use assms(1) in \<open>simp_all add: hub_ok_def h'\<close>)
  ultimately show ?thesis by (simp add: hub_ok_def)
qed

text \<open>Events that only change a session, the handler or the calls.\<close>

lemma hub_ok_same:
  assumes h: "hub_ok h" and same: "hub_tasks h' = hub_tasks h" "hub_sockets h' = hub_sockets h"
      "connections_of (hub_progress h') = connections_of (hub_progress h)"
    and s: "\<And>ws. map_option us_primary_id (hub_sessions h' ws) = map_option us_primary_id (hub_sessions h ws)"
    and hd: "\<And>ws. hub_handler h' ws = hub_handler h ws \<or>
      hub_handler h ws \<noteq> Some Deleted \<and> hub_handler h' ws \<noteq> Some Launched \<and> hub_handler h' ws \<noteq> Some Deleted \<and>
      ws \<in> hub_sockets h"
    and c: "calls_ok h'"
  shows "hub_ok h'"
proof -
  have none: "hub_sessions h' ws = None \<longleftrightarrow> hub_sessions h ws = None" for ws
    using s [of ws] by (metis map_option_is_None)
  have "handlers_ok h'"
    unfolding handlers_ok_def same none
  proof (intro allI conjI impI)
    fix ws
    have o: "(ws \<notin> hub_sockets h \<longrightarrow> hub_sessions h ws = None \<and> hub_handler h ws = None) \<and>
       (ws \<in> hub_sockets h \<longrightarrow> (hub_sessions h ws = None \<longleftrightarrow> hub_handler h ws = Some Deleted))"
      using h by (simp add: hub_ok_def handlers_ok_def)
    show "hub_sessions h ws = None" if "ws \<notin> hub_sockets h" using o that by blast
    show "hub_handler h' ws = None" if "ws \<notin> hub_sockets h" using o that hd [of ws] by auto
    show "hub_sessions h ws = None \<longleftrightarrow> hub_handler h' ws = Some Deleted" if "ws \<in> hub_sockets h"
      using o that hd [of ws] by auto
  qed
  moreover have "lists_ok h'"
  proof (rule lists_ok_same [OF _ same(1,3)])
    fix ws d
    assume "connected h ws d"
    then have "map_option us_primary_id (hub_sessions h ws) = Some d" by (auto simp: connected_def)
    then show "connected h' ws d" using s [of ws] by (auto simp: connected_def)
  next
    fix ws
    assume "hub_handler h' ws = Some Launched"
    then show "hub_handler h ws = Some Launched" using hd [of ws] by auto
  qed (use h in \<open>simp add: hub_ok_def\<close>)
  ultimately show ?thesis using c by (simp add: hub_ok_def)
qed

lemma hub_ok_message: "hub_ok h \<Longrightarrow> ws_message ws h = Inr h' \<Longrightarrow> hub_ok h'"
  by (rule hub_ok_same [where h = h])
    (auto simp: ws_message_def hub_ok_def intro: calls_ok_same [where h = h] split: if_splits)

lemma hub_ok_stamp:
  assumes "hub_ok h" "ws_message_stamp ws h = Inr h'"
  shows "hub_ok h'"
proof -
  obtain now s where hd: "hub_handler h ws = Some (Handling now)" "hub_sessions h ws = Some s" and
    h': "h' = h\<lparr>hub_sessions := (hub_sessions h)(ws \<mapsto> s\<lparr>us_ts := now\<rparr>), hub_handler := (hub_handler h)(ws := None)\<rparr>"
    using assms(2) by (auto simp: ws_message_stamp_def res_simps split: option.splits handler.splits)
  have "ws \<in> hub_sockets h" using assms(1) hd by (auto simp: hub_ok_def handlers_ok_def)
  moreover have "calls_ok h'"
    by (rule calls_ok_same [where h = h]) (use assms(1) in \<open>simp_all add: hub_ok_def h'\<close>)
  ultimately show ?thesis by (intro hub_ok_same [OF assms(1)]) (simp_all add: hd h')
qed

lemma hub_ok_close: "hub_ok h \<Longrightarrow> ws_close ws h = Inr h' \<Longrightarrow> hub_ok h'"
  by (rule hub_ok_same [where h = h])
    (auto simp: ws_close_def hub_ok_def res_simps intro: calls_ok_same [where h = h] split: if_splits)

text \<open>Events that start a thread, or delete what a closed connection had.\<close>

lemma hub_ok_open:
  assumes h: "hub_ok h" and "ws_open ws h = Inr h'"
  shows "hub_ok h'"
proof -
  obtain s where w: "hub_handler h ws = None" "hub_sessions h ws = Some s" and
    h': "h' = h\<lparr>hub_tasks := hub_tasks h @ [Register (us_primary_id s) ws]\<rparr>"
    using assms(2) by (auto simp: ws_open_def res_simps split: if_splits)
  have st: "settled h' d = (if d = us_primary_id s then insert ws (settled h d) else settled h d)" for d
    unfolding settled_def h' by simp
  have con: "connected h' = connected h" by (intro ext) (simp add: connected_def h')
  have "lists_ok h'"
    unfolding lists_ok_def con
  proof (intro conjI allI ballI)
    fix d w
    assume "w \<in> settled h' d"
    then have "w \<in> settled h d \<or> w = ws \<and> d = us_primary_id s" by (auto simp: st split: if_splits)
    then show "connected h w d" "hub_handler h' w \<noteq> Some Launched"
      using h w by (auto simp: hub_ok_def lists_ok_def connected_def h')
  next
    fix t
    assume "t \<in> set (hub_tasks h')"
    then have "t \<in> set (hub_tasks h) \<or> t = Register (us_primary_id s) ws" by (auto simp: h')
    then show "connected h (task_ws t) (task_dataset t)"
      using h w by (auto simp: hub_ok_def lists_ok_def connected_def)
  qed
  moreover have "handlers_ok h'" using h by (simp add: hub_ok_def handlers_ok_def h')
  moreover have "calls_ok h'" by (rule calls_ok_same [where h = h]) (use h in \<open>simp_all add: hub_ok_def h'\<close>)
  ultimately show ?thesis by (simp add: hub_ok_def)
qed

lemma hub_ok_launch:
  assumes h: "hub_ok h" and "ws_close_launch ws h = Inr h'"
  shows "hub_ok h'"
proof -
  obtain s where w: "hub_handler h ws = Some Deactivated" "hub_sessions h ws = Some s" and
    h': "h' = h\<lparr>hub_tasks := hub_tasks h @ [Unregister (us_primary_id s) ws],
      hub_handler := (hub_handler h)(ws \<mapsto> Launched)\<rparr>"
    using assms(2) by (auto simp: ws_close_launch_def res_simps split: if_splits)
  have st: "settled h' d = (if d = us_primary_id s then settled h d - {ws} else settled h d)" for d
    unfolding settled_def h' by simp
  have con: "connected h' = connected h" by (intro ext) (simp add: connected_def h')
  have "lists_ok h'"
    unfolding lists_ok_def con
  proof (intro conjI allI ballI)
    fix d x
    assume x: "x \<in> settled h' d"
    then have "x \<in> settled h d" by (auto simp: st split: if_splits)
    then have c: "connected h x d" "hub_handler h x \<noteq> Some Launched" using h by (auto simp: hub_ok_def lists_ok_def)
    then show "connected h x d" by simp
    have "x \<noteq> ws" using x c(1) w(2) by (auto simp: st connected_def split: if_splits)
    then show "hub_handler h' x \<noteq> Some Launched" using c(2) by (simp add: h')
  next
    fix t
    assume "t \<in> set (hub_tasks h')"
    then have "t \<in> set (hub_tasks h) \<or> t = Unregister (us_primary_id s) ws" by (auto simp: h')
    then show "connected h (task_ws t) (task_dataset t)"
      using h w by (auto simp: hub_ok_def lists_ok_def connected_def)
  qed
  moreover have "handlers_ok h'"
    unfolding handlers_ok_def
  proof (intro allI)
    fix x
    have "(x \<notin> hub_sockets h \<longrightarrow> hub_sessions h x = None \<and> hub_handler h x = None) \<and>
       (x \<in> hub_sockets h \<longrightarrow> (hub_sessions h x = None \<longleftrightarrow> hub_handler h x = Some Deleted))"
      using h by (simp add: hub_ok_def handlers_ok_def)
    then show "(x \<notin> hub_sockets h' \<longrightarrow> hub_sessions h' x = None \<and> hub_handler h' x = None) \<and>
       (x \<in> hub_sockets h' \<longrightarrow> (hub_sessions h' x = None \<longleftrightarrow> hub_handler h' x = Some Deleted))"
      using w by (auto simp: h')
  qed
  moreover have "calls_ok h'" by (rule calls_ok_same [where h = h]) (use h in \<open>simp_all add: hub_ok_def h'\<close>)
  ultimately show ?thesis by (simp add: hub_ok_def)
qed

lemma hub_ok_delete:
  assumes h: "hub_ok h" and "ws_close_delete ws h = Inr h'" and "ws \<notin> task_ws ` set (hub_tasks h)"
  shows "hub_ok h'"
proof -
  obtain s where w: "hub_handler h ws = Some Launched" "hub_sessions h ws = Some s" and
    h': "h' = h\<lparr>hub_sessions := (hub_sessions h)(ws := None), hub_handler := (hub_handler h)(ws \<mapsto> Deleted)\<rparr>"
    using assms(2) by (auto simp: ws_close_delete_def res_simps split: if_splits)
  have sock: "ws \<in> hub_sockets h" using h w by (auto simp: hub_ok_def handlers_ok_def)
  have st: "settled h' = settled h" by (rule settled_cong) (simp_all add: h')
  have con: "connected h' x d \<longleftrightarrow> connected h x d" if "x \<noteq> ws" for x d using that by (simp add: connected_def h')
  have "lists_ok h'"
    unfolding lists_ok_def st
  proof (intro conjI allI ballI)
    fix d x
    assume "x \<in> settled h d"
    then have c: "connected h x d" "hub_handler h x \<noteq> Some Launched" using h by (auto simp: hub_ok_def lists_ok_def)
    then have "x \<noteq> ws" using w by auto
    with c show "connected h' x d" "hub_handler h' x \<noteq> Some Launched" by (simp_all add: con) (simp add: h')
  next
    fix t
    assume "t \<in> set (hub_tasks h')"
    then have t: "t \<in> set (hub_tasks h)" by (simp add: h')
    then have "task_ws t \<noteq> ws" using assms(3) by auto
    then show "connected h' (task_ws t) (task_dataset t)" using h t by (simp add: con hub_ok_def lists_ok_def)
  qed
  moreover have "handlers_ok h'" using h sock by (auto simp: hub_ok_def handlers_ok_def h')
  moreover have "calls_ok h'" by (rule calls_ok_same [where h = h]) (use h in \<open>simp_all add: hub_ok_def h'\<close>)
  ultimately show ?thesis by (simp add: hub_ok_def)
qed

lemma hub_ok_free:
  assumes h: "hub_ok h" and "ws_free ws h = Inr h'"
  shows "hub_ok h'"
proof -
  have w: "hub_handler h ws = Some Deleted" and
    h': "h' = h\<lparr>hub_sockets := hub_sockets h - {ws}, hub_handler := (hub_handler h)(ws := None)\<rparr>"
    using assms(2) by (auto simp: ws_free_def split: if_splits)
  have "hub_sessions h ws = None" using h w by (auto simp: hub_ok_def handlers_ok_def)
  then have "handlers_ok h'" using h by (auto simp: hub_ok_def handlers_ok_def h')
  moreover have "lists_ok h'"
    by (rule lists_ok_same [where h = h]) (use h in \<open>auto simp: hub_ok_def connected_def h' split: if_splits\<close>)
  moreover have "calls_ok h'" by (rule calls_ok_same [where h = h]) (use h in \<open>simp_all add: hub_ok_def h'\<close>)
  ultimately show ?thesis by (simp add: hub_ok_def)
qed

text \<open>The first waiting thread, and calls.\<close>

lemma hub_ok_thread:
  assumes h: "hub_ok h" and "run_thread 0 h = Inr h'"
  shows "hub_ok h'"
proof -
  have idle: "hub_tasks h \<noteq> []" "\<forall>j < hub_threads h. hub_calls h j = None"
    and h': "h' = h\<lparr>hub_progress := run_task (hub_tasks h ! 0) (hub_progress h), hub_tasks := drop 1 (hub_tasks h)\<rparr>"
    using assms(2) by (auto simp: run_thread_def split: if_splits)
  obtain t ts where ts: "hub_tasks h = t # ts" using idle(1) by (cases "hub_tasks h") auto
  have st: "settled h' = settled h" by (rule settled_first [OF ts]) (simp_all add: h' ts)
  have con: "connected h' = connected h" by (intro ext) (simp add: connected_def h')
  have none: "hub_calls h i = None" for i
  proof (cases "hub_calls h i")
    case (Some c)
    then have "i < hub_threads h" using h by (simp add: hub_ok_def calls_ok_def)
    with idle(2) Some show ?thesis by simp
  qed simp
  have fin: "finite (connections_of (hub_progress h) d)" for d using h by (simp add: hub_ok_def calls_ok_def)
  have "finite (connections_of (run_task t (hub_progress h)) d)" for d using fin by (cases t) simp_all
  then have "calls_ok h'" using none by (simp add: calls_ok_def h' ts)
  moreover have "lists_ok h'" using h unfolding hub_ok_def lists_ok_def st con by (auto simp: h' ts)
  moreover have "handlers_ok h'" using h by (simp add: hub_ok_def handlers_ok_def h')
  ultimately show ?thesis by (simp add: hub_ok_def)
qed

lemma hub_ok_call:
  assumes h: "hub_ok h" and "call_start i d running whole h = Inr h'"
  shows "hub_ok h'"
proof -
  let ?C = "connections_of (hub_progress h) d"
  have i: "i < hub_threads h" and h': "h' = h\<lparr>hub_progress := (hub_progress h)(d \<mapsto> ?C),
      hub_calls := (hub_calls h)(i \<mapsto> \<lparr>call_dataset = d, call_running = running, call_total = whole,
        call_rest = sorted_list_of_set ?C, call_stage = Looking\<rparr>)\<rparr>"
    using assms(2) by (auto simp: call_start_def Let_def split: if_splits)
  have "finite ?C" using h by (simp add: hub_ok_def calls_ok_def)
  then have "calls_ok h'" using h i by (auto simp: hub_ok_def calls_ok_def h')
  then show ?thesis by (intro hub_ok_same [OF h]) (simp_all add: h')
qed

lemma calls_ok_set_call:
  assumes "calls_ok h" "hub_calls h i = Some c" "call_dataset c' = call_dataset c" "set (call_rest c') \<subseteq> set (call_rest c)"
  shows "calls_ok (set_call i c' h)"
proof -
  have "set (call_rest c) \<subseteq> connections_of (hub_progress h) (call_dataset c)" "i < hub_threads h"
    using assms(1,2) by (simp_all add: calls_ok_def)
  with assms show ?thesis by (auto simp: calls_ok_def set_call_def)
qed

lemma set_call_simps [simp]:
  "hub_clock (set_call i c h) = hub_clock h" "hub_progress (set_call i c h) = hub_progress h"
  "hub_sockets (set_call i c h) = hub_sockets h" "hub_sessions (set_call i c h) = hub_sessions h"
  "hub_handler (set_call i c h) = hub_handler h" "hub_tasks (set_call i c h) = hub_tasks h"
  "hub_threads (set_call i c h) = hub_threads h" "hub_sent (set_call i c h) = hub_sent h"
  "hub_calls (set_call i c h) = (hub_calls h)(i \<mapsto> c)"
  by (simp_all add: set_call_def)

text \<open>
  What a call does at a WebSocket: it goes on there or with the next one, may send, and may set the timestamp to the time.
\<close>

lemma call_at_cases:
  assumes "call_at i c ws h = Inr h'" and "call_rest c \<noteq> []"
  obtains (go) c' sent sessions where
      "h' = set_call i c' (h\<lparr>hub_sessions := sessions, hub_sent := sent\<rparr>)"
      "call_dataset c' = call_dataset c" "call_running c' = call_running c" "call_total c' = call_total c"
      "call_rest c' = call_rest c \<or> call_rest c' = tl (call_rest c) \<and> call_stage c' = Looking"
      "sent = hub_sent h \<or> sent = (i, ws, hub_clock h, call_done c) # hub_sent h"
      "sessions = hub_sessions h \<or>
        (\<exists>s. hub_sessions h ws = Some s \<and> sessions = (hub_sessions h)(ws \<mapsto> s\<lparr>us_ts := hub_clock h\<rparr>))"
proof (cases "call_stage c")
  case Looking
  then show ?thesis using assms go [of "c\<lparr>call_stage := Asking (hub_clock h)\<rparr>" "hub_sent h" "hub_sessions h"]
    by (simp add: call_at_def split: if_splits)
next
  case (Asking now)
  then obtain s where "hub_sessions h ws = Some s" "h' = set_call i
      (if check_progress_timeout (Some s) now \<or> call_done c then c\<lparr>call_stage := Passed\<rparr> else call_next c) h"
    using assms by (auto simp: call_at_def res_simps)
  then show ?thesis
    using go [of "if check_progress_timeout (Some s) now \<or> call_done c then c\<lparr>call_stage := Passed\<rparr> else call_next c"
      "hub_sent h" "hub_sessions h"] by (simp add: call_next_def)
next
  case Passed
  then obtain s where "hub_sessions h ws = Some s" "h' = set_call i (if us_active s then c\<lparr>call_stage := Sending\<rparr> else call_next c) h"
    using assms by (auto simp: call_at_def res_simps)
  then show ?thesis
    using go [of "if us_active s then c\<lparr>call_stage := Sending\<rparr> else call_next c" "hub_sent h" "hub_sessions h"]
    by (simp add: call_next_def)
next
  case Sending
  then show ?thesis
    using assms go [of "c\<lparr>call_stage := Stamping\<rparr>" "(i, ws, hub_clock h, call_done c) # hub_sent h" "hub_sessions h"]
    by (simp add: call_at_def split: if_splits)
next
  case Stamping
  then obtain s where "hub_sessions h ws = Some s"
    "h' = set_call i (call_next c) (h\<lparr>hub_sessions := (hub_sessions h)(ws \<mapsto> s\<lparr>us_ts := hub_clock h\<rparr>)\<rparr>)"
    using assms by (auto simp: call_at_def res_simps update_session_timestamp_def)
  then show ?thesis
    using go [of "call_next c" "hub_sent h" "(hub_sessions h)(ws \<mapsto> s\<lparr>us_ts := hub_clock h\<rparr>)"] by (simp add: call_next_def)
qed

lemma hub_ok_step:
  assumes h: "hub_ok h" and "call_step i h = Inr h'"
  shows "hub_ok h'"
proof -
  obtain c where c: "hub_calls h i = Some c" using assms(2) by (auto simp: call_step_def split: option.splits)
  have ok: "calls_ok h" using h by (simp add: hub_ok_def)
  show ?thesis
  proof (cases "call_rest c")
    case Nil
    with c assms(2) have h': "h' = h\<lparr>hub_calls := (hub_calls h)(i := None)\<rparr>" by (simp add: call_step_def)
    have "calls_ok h'" using ok by (simp add: calls_ok_def h')
    then show ?thesis by (intro hub_ok_same [OF h]) (simp_all add: h')
  next
    case (Cons ws wss)
    with c assms(2) have a: "call_at i c ws h = Inr h'" and ne: "call_rest c \<noteq> []" by (simp_all add: call_step_def)
    show ?thesis
    proof (cases rule: call_at_cases [OF a ne])
      case (1 c' sent sessions)
      have "set (call_rest c') \<subseteq> set (call_rest c)" using 1(5) Cons by auto
      from calls_ok_set_call [OF ok c 1(2) this] have "calls_ok h'" by (simp add: calls_ok_def 1(1) set_call_def)
      then show ?thesis
      proof (rule hub_ok_same [OF h, rotated -1])
        show "map_option us_primary_id (hub_sessions h' w) = map_option us_primary_id (hub_sessions h w)" for w
          using 1(7) by (auto simp: 1(1))
      qed (simp_all add: 1(1))
    qed
  qed
qed

text \<open>So careful runs keep the invariant, and nothing is accessed after it was deleted.\<close>

lemma hub_ok_perform:
  assumes "hub_ok h" "careful e h" "perform e h = Inr h'"
  shows "hub_ok h'"
proof (cases e)
  case (Tick n)
  then have h': "h' = h\<lparr>hub_clock := hub_clock h + int n\<rparr>" using assms(3) by simp
  have "calls_ok h'" by (rule calls_ok_same [where h = h]) (use assms(1) in \<open>simp_all add: hub_ok_def h'\<close>)
  then show ?thesis by (intro hub_ok_same [OF assms(1)]) (simp_all add: h')
next
  case (Upgrade ws u ids)
  then show ?thesis using assms hub_ok_upgrade by simp
next
  case (Open ws)
  then show ?thesis using assms hub_ok_open by simp
next
  case (Message ws)
  then show ?thesis using assms hub_ok_message by simp
next
  case (Stamp ws)
  then show ?thesis using assms hub_ok_stamp by simp
next
  case (Close ws)
  then show ?thesis using assms hub_ok_close by simp
next
  case (Launch ws)
  then show ?thesis using assms hub_ok_launch by simp
next
  case (Delete ws)
  then show ?thesis using assms hub_ok_delete by (simp add: careful_def)
next
  case (Free ws)
  then show ?thesis using assms hub_ok_free by simp
next
  case (Thread i)
  then show ?thesis using assms hub_ok_thread by (simp add: careful_def)
next
  case (Call i d running whole)
  then show ?thesis using assms hub_ok_call by simp
next
  case (Step i)
  then show ?thesis using assms hub_ok_step by simp
qed

lemma hub_ok_run: "hub_run careful h es h' \<Longrightarrow> hub_ok h \<Longrightarrow> hub_ok h'"
  by (induction rule: hub_run.induct) (auto intro: hub_ok_perform)

lemma handler_session:
  "hub_ok h \<Longrightarrow> ws \<in> hub_sockets h \<Longrightarrow> hub_handler h ws \<noteq> Some Deleted \<Longrightarrow> hub_sessions h ws \<noteq> None"
  "hub_ok h \<Longrightarrow> hub_handler h ws = Some x \<Longrightarrow> x \<noteq> Deleted \<Longrightarrow> hub_sessions h ws \<noteq> None"
  by (cases "ws \<in> hub_sockets h"; simp add: hub_ok_def handlers_ok_def)+

lemma call_step_no_error:
  assumes "hub_ok h"
  shows "call_step i h \<noteq> Inl Out_Of_Bounds"
proof
  assume e: "call_step i h = Inl Out_Of_Bounds"
  then obtain c ws wss where c: "hub_calls h i = Some c" "call_rest c = ws # wss" "call_at i c ws h = Inl Out_Of_Bounds"
    by (auto simp: call_step_def split: option.splits list.splits)
  have "opened h ws" using called_opened [of h i c ws] assms c by (simp add: hub_ok_def)
  with c(3) show False by (auto simp: call_at_def opened_def res_simps split: stage.splits if_splits)
qed

lemma perform_no_error:
  assumes "hub_ok h"
  shows "perform e h \<noteq> Inl Out_Of_Bounds"
proof (cases e)
  case (Stamp ws)
  then show ?thesis using handler_session [OF assms, of ws]
    by (auto simp: ws_message_stamp_def res_simps split: option.splits handler.splits)
next
  case (Step i)
  then show ?thesis using call_step_no_error [OF assms] by simp
qed (use handler_session [OF assms] in \<open>auto simp: ws_upgrade_def ws_open_def ws_message_def ws_close_def ws_close_launch_def
    ws_close_delete_def ws_free_def run_thread_def call_start_def Let_def res_simps split: option.splits if_splits\<close>)

section \<open>Pace\<close>

text \<open>Readings of the clock lie in the past.\<close>

definition time_ok :: "hub \<Rightarrow> bool" where
  "time_ok h \<longleftrightarrow> (\<forall>ws s. hub_sessions h ws = Some s \<longrightarrow> us_ts s \<le> hub_clock h) \<and>
     (\<forall>ws now. hub_handler h ws = Some (Handling now) \<longrightarrow> now \<le> hub_clock h) \<and>
     (\<forall>i c now. hub_calls h i = Some c \<longrightarrow> call_stage c = Asking now \<longrightarrow> now \<le> hub_clock h)"

lemma time_ok_new: "time_ok (new_hub n t)"
  by (simp add: time_ok_def new_hub_def)

lemma time_ok_set_call:
  "time_ok h \<Longrightarrow> (\<And>now. call_stage c = Asking now \<Longrightarrow> now \<le> hub_clock h) \<Longrightarrow> time_ok (set_call i c h)"
  by (auto simp: time_ok_def)

lemma call_next_simps [simp]:
  "call_stage (call_next c) = Looking" "call_rest (call_next c) = tl (call_rest c)"
  by (simp_all add: call_next_def)

lemma time_ok_call_at:
  assumes "time_ok h" and "call_at i c ws h = Inr h'"
  shows "time_ok h'"
proof (cases "call_stage c")
  case Stamping
  then obtain s where s: "hub_sessions h ws = Some s"
    and h': "h' = set_call i (call_next c) (h\<lparr>hub_sessions := (hub_sessions h)(ws \<mapsto> s\<lparr>us_ts := hub_clock h\<rparr>)\<rparr>)"
    using assms(2) by (auto simp: call_at_def res_simps update_session_timestamp_def)
  have "time_ok (h\<lparr>hub_sessions := (hub_sessions h)(ws \<mapsto> s\<lparr>us_ts := hub_clock h\<rparr>)\<rparr>)"
    using assms(1) by (auto simp: time_ok_def)
  then show ?thesis unfolding h' by (rule time_ok_set_call) simp
next
  case Sending
  have "time_ok (h\<lparr>hub_sent := x\<rparr>)" for x using assms(1) by (auto simp: time_ok_def)
  with Sending assms(2) show ?thesis by (auto simp: call_at_def intro!: time_ok_set_call split: if_splits)
qed (use assms in \<open>auto simp: call_at_def res_simps intro!: time_ok_set_call split: if_splits\<close>)

lemma time_ok_perform:
  assumes "time_ok h" "perform e h = Inr h'"
  shows "time_ok h'"
proof (cases e)
  case (Step i)
  with assms(2) obtain c where c: "hub_calls h i = Some c" by (auto simp: call_step_def split: option.splits)
  show ?thesis
  proof (cases "call_rest c")
    case Nil
    with Step assms(2) c have "h' = h\<lparr>hub_calls := (hub_calls h)(i := None)\<rparr>" by (simp add: call_step_def)
    with assms(1) show ?thesis by (auto simp: time_ok_def split: if_splits)
  next
    case (Cons ws wss)
    with Step assms(2) c have "call_at i c ws h = Inr h'" by (simp add: call_step_def)
    with assms(1) show ?thesis by (rule time_ok_call_at)
  qed
next
  case (Tick n)
  with assms have "h' = h\<lparr>hub_clock := hub_clock h + int n\<rparr>" by simp
  with assms(1) show ?thesis by (force simp: time_ok_def)
next
  case (Upgrade ws u ids)
  with assms show ?thesis
    by (auto simp: ws_upgrade_def time_ok_def connect_session_Some new_user_session_def split: if_splits option.splits)
next
  case (Stamp ws)
  with assms(2) obtain now s where hd: "hub_handler h ws = Some (Handling now)" and
    h': "h' = h\<lparr>hub_sessions := (hub_sessions h)(ws \<mapsto> s\<lparr>us_ts := now\<rparr>), hub_handler := (hub_handler h)(ws := None)\<rparr>"
    by (auto simp: ws_message_stamp_def res_simps split: option.splits handler.splits)
  with assms(1) show ?thesis by (auto simp: time_ok_def split: if_splits)
next
  case (Call i d running whole)
  with assms show ?thesis by (auto simp: time_ok_def call_start_def Let_def split: if_splits)
qed (use assms in \<open>auto simp: time_ok_def ws_open_def ws_message_def ws_close_def ws_close_launch_def ws_close_delete_def ws_free_def
    run_thread_def res_simps split: if_splits\<close>)

lemma time_ok_run: "hub_run ok h es h' \<Longrightarrow> time_ok h \<Longrightarrow> time_ok h'"
  by (induction rule: hub_run.induct) (auto intro: time_ok_perform)

text \<open>
  The calls that have found the timestamp of \<open>ws\<close> old enough and have not sent their message yet; the threads that have sent
  messages to it, but for those that say the work is done; and events that are neither messages from the page nor a new page.
\<close>

definition cleared :: "nat \<Rightarrow> call \<Rightarrow> bool" where
  "cleared ws c \<longleftrightarrow> call_rest c \<noteq> [] \<and> hd (call_rest c) = ws \<and> (call_stage c = Passed \<or> call_stage c = Sending) \<and> \<not> call_done c"

definition cleared_calls :: "hub \<Rightarrow> nat \<Rightarrow> nat set" where
  "cleared_calls h ws = {i. \<exists>c. hub_calls h i = Some c \<and> cleared ws c}"

definition senders :: "nat \<Rightarrow> (nat \<times> nat \<times> int \<times> bool) list \<Rightarrow> nat list" where
  "senders ws ms = List.map fst (List.filter (\<lambda>(i, w, t, finished). w = ws \<and> \<not> finished) ms)"

fun quiet :: "nat \<Rightarrow> event \<Rightarrow> hub \<Rightarrow> bool" where
  "quiet ws (Upgrade w u ids) h \<longleftrightarrow> w \<noteq> ws"
| "quiet ws (Stamp w) h \<longleftrightarrow> w \<noteq> ws"
| "quiet ws _ h \<longleftrightarrow> True"

text \<open>What one event may do: every message uses up a call that was cleared, and no other call is cleared.\<close>

definition paced :: "nat \<Rightarrow> hub \<Rightarrow> hub \<Rightarrow> bool" where
  "paced ws h h' \<longleftrightarrow> (\<exists>new. hub_sent h' = new @ hub_sent h \<and> distinct (senders ws new) \<and>
     set (senders ws new) \<subseteq> cleared_calls h ws \<and>
     cleared_calls h' ws \<subseteq> cleared_calls h ws - set (senders ws new))"

lemma senders_simps [simp]:
  "senders ws [] = []"
  "senders ws (m # ms) = (case m of (i, w, t, finished) \<Rightarrow> if w = ws \<and> \<not> finished then i # senders ws ms else senders ws ms)"
  "senders ws (ms @ ns) = senders ws ms @ senders ws ns"
  by (simp_all add: senders_def split: prod.splits)

lemma paced_frame:
  "hub_sent h' = hub_sent h \<Longrightarrow> cleared_calls h' ws \<subseteq> cleared_calls h ws \<Longrightarrow> paced ws h h'"
  by (simp add: paced_def)

lemma cleared_calls_cong: "hub_calls h' = hub_calls h \<Longrightarrow> cleared_calls h' ws = cleared_calls h ws"
  by (simp add: cleared_calls_def)

lemma paced_trans:
  assumes "paced ws h1 h2" "paced ws h2 h3"
  shows "paced ws h1 h3"
proof -
  obtain m where m: "hub_sent h2 = m @ hub_sent h1" "distinct (senders ws m)" "set (senders ws m) \<subseteq> cleared_calls h1 ws"
    "cleared_calls h2 ws \<subseteq> cleared_calls h1 ws - set (senders ws m)" using assms(1) by (auto simp: paced_def)
  obtain n where n: "hub_sent h3 = n @ hub_sent h2" "distinct (senders ws n)" "set (senders ws n) \<subseteq> cleared_calls h2 ws"
    "cleared_calls h3 ws \<subseteq> cleared_calls h2 ws - set (senders ws n)" using assms(2) by (auto simp: paced_def)
  have "distinct (senders ws (n @ m))" using m n by auto
  moreover have "set (senders ws (n @ m)) \<subseteq> cleared_calls h1 ws" using m n by auto
  moreover have "cleared_calls h3 ws \<subseteq> cleared_calls h1 ws - set (senders ws (n @ m))" using m n by auto
  ultimately show ?thesis using m(1) n(1) unfolding paced_def by (intro exI [of _ "n @ m"]) simp
qed

lemma cleared_set_call:
  "hub_calls h i = Some c \<Longrightarrow> (cleared ws c' \<Longrightarrow> cleared ws c) \<Longrightarrow>
   cleared_calls (set_call i c' h) ws \<subseteq> cleared_calls h ws"
  by (auto simp: cleared_calls_def split: if_splits)

lemma cleared_next [simp]: "\<not> cleared ws (call_next c)"
  by (simp add: cleared_def)

text \<open>A call is cleared only when a quarter of a second has passed since the timestamp.\<close>

lemma paced_call_at:
  assumes "hub_calls h i = Some c" "call_rest c = w # wss" "call_at i c w h = Inr h'" "time_ok h"
    and T: "\<And>s. hub_sessions h ws = Some s \<Longrightarrow> hub_clock h < us_ts s + 250000000"
  shows "paced ws h h'"
proof (cases "call_stage c")
  case Looking
  then have "h' = set_call i (c\<lparr>call_stage := Asking (hub_clock h)\<rparr>) h"
    using assms(3) by (auto simp: call_at_def split: if_splits)
  moreover have "cleared_calls (set_call i (c\<lparr>call_stage := Asking (hub_clock h)\<rparr>) h) ws \<subseteq> cleared_calls h ws"
    by (rule cleared_set_call [OF assms(1)]) (simp add: cleared_def)
  ultimately show ?thesis by (simp add: paced_frame)
next
  case (Asking now)
  then obtain s where s: "hub_sessions h w = Some s" "h' = set_call i
      (if check_progress_timeout (Some s) now \<or> call_done c then c\<lparr>call_stage := Passed\<rparr> else call_next c) h"
    using assms(3) by (auto simp: call_at_def res_simps)
  have now: "now \<le> hub_clock h" using assms(1,4) Asking by (auto simp: time_ok_def)
  have "\<not> cleared ws (if check_progress_timeout (Some s) now \<or> call_done c then c\<lparr>call_stage := Passed\<rparr> else call_next c)"
    using T [of s] s(1) now by (auto simp: cleared_def check_progress_timeout_iff call_done_def assms(2))
  then have "cleared_calls h' ws \<subseteq> cleared_calls h ws" unfolding s(2) by (intro cleared_set_call [OF assms(1)]) simp
  then show ?thesis by (rule paced_frame [rotated]) (simp add: s(2))
next
  case Passed
  then obtain s where s: "hub_sessions h w = Some s"
    "h' = set_call i (if us_active s then c\<lparr>call_stage := Sending\<rparr> else call_next c) h"
    using assms(3) by (auto simp: call_at_def res_simps)
  have "cleared_calls h' ws \<subseteq> cleared_calls h ws"
    unfolding s(2) by (intro cleared_set_call [OF assms(1)]) (use Passed in \<open>auto simp: cleared_def call_done_def split: if_splits\<close>)
  then show ?thesis by (rule paced_frame [rotated]) (simp add: s(2))
next
  case Sending
  then have h': "h' = set_call i (c\<lparr>call_stage := Stamping\<rparr>)
      (h\<lparr>hub_sent := (i, w, hub_clock h, call_done c) # hub_sent h\<rparr>)"
    using assms(3) by (auto simp: call_at_def split: if_splits)
  have c': "cleared_calls h' ws = cleared_calls h ws - {i}"
    by (auto simp: cleared_calls_def h' cleared_def split: if_splits)
  show ?thesis
  proof (cases "w = ws \<and> \<not> call_done c")
    case True
    then have "i \<in> cleared_calls h ws" using assms(1,2) Sending by (simp add: cleared_calls_def cleared_def)
    with True c' show ?thesis
      unfolding paced_def by (intro exI [of _ "[(i, w, hub_clock h, call_done c)]"]) (simp add: h')
  next
    case False
    with c' show ?thesis
      unfolding paced_def by (intro exI [of _ "[(i, w, hub_clock h, call_done c)]"]) (auto simp: h')
  qed
next
  case Stamping
  then obtain s where "h' = set_call i (call_next c) (h\<lparr>hub_sessions := (hub_sessions h)(w \<mapsto> s\<lparr>us_ts := hub_clock h\<rparr>)\<rparr>)"
    using assms(3) by (auto simp: call_at_def res_simps update_session_timestamp_def)
  then show ?thesis by (intro paced_frame) (auto simp: cleared_calls_def split: if_splits)
qed

text \<open>And the timestamp never goes back.\<close>

definition not_before :: "nat \<Rightarrow> int \<Rightarrow> hub \<Rightarrow> bool" where
  "not_before ws t h \<longleftrightarrow> (\<forall>s. hub_sessions h ws = Some s \<longrightarrow> t \<le> us_ts s)"

lemma not_before_call_at:
  assumes "not_before ws t h" "time_ok h" "call_at i c w h = Inr h'"
  shows "not_before ws t h'"
proof (cases "call_stage c")
  case Stamping
  then obtain s where s: "hub_sessions h w = Some s"
    "h' = set_call i (call_next c) (h\<lparr>hub_sessions := (hub_sessions h)(w \<mapsto> s\<lparr>us_ts := hub_clock h\<rparr>)\<rparr>)"
    using assms(3) by (auto simp: call_at_def res_simps update_session_timestamp_def)
  have "us_ts s \<le> hub_clock h" using assms(2) s(1) by (simp add: time_ok_def)
  with assms(1) s show ?thesis by (auto simp: not_before_def)
qed (use assms in \<open>auto simp: call_at_def not_before_def res_simps split: if_splits\<close>)

lemma call_step_pace:
  assumes "call_step i h = Inr h'" "time_ok h" "not_before ws t h" "hub_clock h < t + 250000000"
  shows "paced ws h h' \<and> not_before ws t h'"
proof -
  obtain c where c: "hub_calls h i = Some c" using assms(1) by (auto simp: call_step_def split: option.splits)
  show ?thesis
  proof (cases "call_rest c")
    case Nil
    with assms(1) c have h': "h' = h\<lparr>hub_calls := (hub_calls h)(i := None)\<rparr>" by (simp add: call_step_def)
    have "paced ws h h'" by (rule paced_frame) (auto simp: h' cleared_calls_def split: if_splits)
    with assms(3) show ?thesis by (simp add: not_before_def h')
  next
    case (Cons w wss)
    with assms(1) c have a: "call_at i c w h = Inr h'" by (simp add: call_step_def)
    have "paced ws h h'"
      by (rule paced_call_at [OF c Cons a assms(2)]) (use assms(3,4) in \<open>force simp: not_before_def\<close>)
    with not_before_call_at [OF assms(3,2) a] show ?thesis by simp
  qed
qed

lemma perform_pace:
  assumes "perform e h = Inr h'" "time_ok h" "quiet ws e h" "not_before ws t h" "hub_clock h < t + 250000000"
  shows "paced ws h h' \<and> not_before ws t h'"
proof (cases e)
  case (Step i)
  with assms call_step_pace show ?thesis by simp
next
  case (Call i d running whole)
  with assms(1) have free: "hub_calls h i = None" and
    h': "\<exists>p r. h' = h\<lparr>hub_progress := p, hub_calls := (hub_calls h)(i \<mapsto> \<lparr>call_dataset = d, call_running = running,
      call_total = whole, call_rest = r, call_stage = Looking\<rparr>)\<rparr>"
    by (auto simp: call_start_def Let_def split: if_splits)
  then have "paced ws h h'" by (intro paced_frame) (auto simp: cleared_calls_def cleared_def split: if_splits)
  with h' assms(4) show ?thesis by (auto simp: not_before_def)
next
  case (Upgrade w u ids)
  with assms(1,3,4) show ?thesis
    by (auto simp: ws_upgrade_def not_before_def intro!: paced_frame simp: cleared_calls_def split: if_splits option.splits)
next
  case (Stamp w)
  with assms(1,3,4) show ?thesis
    by (auto simp: ws_message_stamp_def not_before_def res_simps intro!: paced_frame simp: cleared_calls_def
        split: option.splits handler.splits)
qed (use assms(1,4) in \<open>auto simp: ws_open_def ws_message_def ws_close_def ws_close_launch_def ws_close_delete_def ws_free_def
    run_thread_def not_before_def res_simps intro!: paced_frame simp: cleared_calls_def split: if_splits\<close>)

lemma clock_perform:
  assumes "perform e h = Inr h'"
  shows "hub_clock h \<le> hub_clock h'"
proof (cases e)
  case (Step i)
  with assms obtain c where c: "hub_calls h i = Some c" by (auto simp: call_step_def split: option.splits)
  show ?thesis
  proof (cases "call_rest c")
    case Nil
    with Step assms c show ?thesis by (auto simp: call_step_def)
  next
    case (Cons ws wss)
    with Step assms c have a: "call_at i c ws h = Inr h'" and "call_rest c \<noteq> []" by (simp_all add: call_step_def)
    show ?thesis by (cases rule: call_at_cases [OF a \<open>call_rest c \<noteq> []\<close>]) simp
  qed
qed (use assms in \<open>auto simp: ws_upgrade_def ws_open_def ws_message_def ws_message_stamp_def ws_close_def ws_close_launch_def
    ws_close_delete_def ws_free_def run_thread_def call_start_def Let_def res_simps split: if_splits option.splits handler.splits\<close>)

lemma run_pace:
  "hub_run (quiet ws) h es h' \<Longrightarrow> time_ok h \<Longrightarrow> not_before ws t h \<Longrightarrow> hub_clock h' < t + 250000000 \<Longrightarrow>
   paced ws h h' \<and> not_before ws t h'"
proof (induction rule: hub_run.induct)
  case start
  then show ?case by (simp add: paced_frame)
next
  case (event es h1 e h2)
  have "hub_clock h1 < t + 250000000" using clock_perform [OF event.hyps(3)] event.prems(3) by simp
  with event have IH: "paced ws h h1" "not_before ws t h1" by blast+
  have "time_ok h1" using time_ok_run [OF event.hyps(1)] event.prems(1) by simp
  then have "paced ws h1 h2 \<and> not_before ws t h2"
    by (rule perform_pace [OF event.hyps(3) _ event.hyps(2) IH(2) \<open>hub_clock h1 < t + 250000000\<close>])
  with paced_trans [OF IH(1)] show ?case by blast
qed

lemma not_before_perform:
  assumes "perform e h = Inr h'" "time_ok h" "quiet ws e h" "not_before ws t h"
  shows "not_before ws t h'"
proof (cases e)
  case (Step i)
  with assms(1) obtain c where c: "hub_calls h i = Some c" by (auto simp: call_step_def split: option.splits)
  show ?thesis
  proof (cases "call_rest c")
    case Nil
    with Step assms(1,4) c show ?thesis by (auto simp: call_step_def not_before_def)
  next
    case (Cons w wss)
    with Step assms(1) c have "call_at i c w h = Inr h'" by (simp add: call_step_def)
    then show ?thesis by (rule not_before_call_at [OF assms(4,2)])
  qed
next
  case (Call i d running whole)
  with assms(1,4) show ?thesis by (auto simp: call_start_def Let_def not_before_def split: if_splits)
next
  case (Upgrade w u ids)
  with assms(1,3,4) show ?thesis by (auto simp: ws_upgrade_def not_before_def split: if_splits option.splits)
next
  case (Stamp w)
  with assms(1,3,4) show ?thesis
    by (auto simp: ws_message_stamp_def not_before_def res_simps split: option.splits handler.splits)
qed (use assms(1,4) in \<open>auto simp: ws_open_def ws_message_def ws_close_def ws_close_launch_def ws_close_delete_def ws_free_def
    run_thread_def not_before_def res_simps split: if_splits\<close>)

text \<open>
  The messages of one thread to \<open>ws\<close>, but for those that say the work is done, come a quarter of a second after those it
  sent before.  The latest message is the first of the list.
\<close>

primrec spaced :: "nat \<Rightarrow> (nat \<times> nat \<times> int \<times> bool) list \<Rightarrow> bool" where
  "spaced ws [] \<longleftrightarrow> True"
| "spaced ws (m # ms) \<longleftrightarrow> (case m of (i, w, t, finished) \<Rightarrow>
      w = ws \<and> \<not> finished \<longrightarrow> (\<forall>(i', w', t', f) \<in> set ms. i' = i \<and> w' = ws \<longrightarrow> t' + 250000000 \<le> t)) \<and> spaced ws ms"

text \<open>
  Why: a message sent is either about to be followed by its timestamp, or not later than the timestamp; and a call that is
  cleared comes a quarter of a second after the messages its thread has sent.
\<close>

definition stamping :: "hub \<Rightarrow> nat \<Rightarrow> nat \<Rightarrow> bool" where
  "stamping h ws i \<longleftrightarrow>
     (\<exists>c. hub_calls h i = Some c \<and> call_rest c \<noteq> [] \<and> hd (call_rest c) = ws \<and> call_stage c = Stamping)"

definition pace_ok :: "nat \<Rightarrow> (nat \<times> nat \<times> int \<times> bool) list \<Rightarrow> hub \<Rightarrow> bool" where
  "pace_ok ws new h \<longleftrightarrow> spaced ws new \<and>
     (\<forall>i t f. (i, ws, t, f) \<in> set new \<longrightarrow> t \<le> hub_clock h \<and> (stamping h ws i \<or> not_before ws t h)) \<and>
     (\<forall>i t f. (i, ws, t, f) \<in> set new \<longrightarrow> i \<in> cleared_calls h ws \<longrightarrow> t + 250000000 \<le> hub_clock h)"

lemma pace_okD:
  assumes "pace_ok ws new h" "(i, ws, t, f) \<in> set new"
  shows "t \<le> hub_clock h" "stamping h ws i \<or> not_before ws t h"
    "i \<in> cleared_calls h ws \<Longrightarrow> t + 250000000 \<le> hub_clock h"
  using assms unfolding pace_ok_def by blast+

lemma pace_ok_frame:
  assumes "pace_ok ws new h" "hub_clock h \<le> hub_clock h'" "\<And>t. not_before ws t h \<Longrightarrow> not_before ws t h'"
    and "cleared_calls h' ws \<subseteq> cleared_calls h ws"
    and "\<And>i t. stamping h ws i \<Longrightarrow> t \<le> hub_clock h \<Longrightarrow> stamping h' ws i \<or> not_before ws t h'"
  shows "pace_ok ws new h'"
  unfolding pace_ok_def
proof (intro conjI allI impI)
  show "spaced ws new" using assms(1) by (simp add: pace_ok_def)
  fix i t f
  assume m: "(i, ws, t, f) \<in> set new"
  note t = pace_okD(1,2) [OF assms(1) m]
  show "t \<le> hub_clock h'" using t(1) assms(2) by simp
  show "stamping h' ws i \<or> not_before ws t h'" using t assms(3,5) by blast
  assume "i \<in> cleared_calls h' ws"
  then have "t + 250000000 \<le> hub_clock h" using assms(4) by (intro pace_okD(3) [OF assms(1) m]) blast
  then show "t + 250000000 \<le> hub_clock h'" using assms(2) by simp
qed

lemma pace_ok_call_at:
  assumes p: "pace_ok ws new h" and c: "hub_calls h i = Some c" "call_rest c = w # wss"
    and a: "call_at i c w h = Inr h'" and t: "time_ok h" and nb: "\<And>t. not_before ws t h \<Longrightarrow> not_before ws t h'"
  shows "\<exists>m. hub_sent h' = m @ hub_sent h \<and> pace_ok ws (m @ new) h'"
proof (cases "call_stage c")
  case Looking
  then have h': "h' = set_call i (c\<lparr>call_stage := Asking (hub_clock h)\<rparr>) h"
    using a by (auto simp: call_at_def split: if_splits)
  have "pace_ok ws new h'"
    by (rule pace_ok_frame [OF p _ nb])
      (use Looking c in \<open>auto simp: h' cleared_calls_def cleared_def stamping_def split: if_splits\<close>)
  then show ?thesis by (simp add: h')
next
  case (Asking now)
  let ?c = "\<lambda>s. if check_progress_timeout (Some s) now \<or> call_done c then c\<lparr>call_stage := Passed\<rparr> else call_next c"
  obtain s where s: "hub_sessions h w = Some s" "h' = set_call i (?c s) h"
    using Asking a by (auto simp: call_at_def res_simps)
  have now: "now \<le> hub_clock h" using c(1) t Asking by (auto simp: time_ok_def)
  have st: "stamping h' ws j" if "stamping h ws j" for j
    using that c Asking by (auto simp: stamping_def s(2) split: if_splits)
  have "pace_ok ws new h'"
    unfolding pace_ok_def
  proof (intro conjI allI impI)
    show "spaced ws new" using p by (simp add: pace_ok_def)
    fix j u f
    assume m: "(j, ws, u, f) \<in> set new"
    note u = pace_okD(1,2) [OF p m]
    then show "u \<le> hub_clock h'" "stamping h' ws j \<or> not_before ws u h'" using st nb by (auto simp: s(2))
    assume j: "j \<in> cleared_calls h' ws"
    show "u + 250000000 \<le> hub_clock h'"
    proof (cases "j = i")
      case False
      then have "j \<in> cleared_calls h ws" using j by (auto simp: s(2) cleared_calls_def)
      from pace_okD(3) [OF p m this] show ?thesis by (simp add: s(2))
    next
      case True
      then have "cleared ws (?c s)" using j by (simp add: s(2) cleared_calls_def)
      then have w: "w = ws" "\<not> call_done c" "check_progress_timeout (Some s) now"
        using c(2) by (auto simp: cleared_def call_done_def split: if_splits)
      have "\<not> stamping h ws j" using True c Asking by (simp add: stamping_def)
      then have "u \<le> us_ts s" using u(2) s(1) w(1) by (simp add: not_before_def)
      then show ?thesis using w(3) now by (simp add: check_progress_timeout_iff s(2))
    qed
  qed
  then show ?thesis by (simp add: s(2))
next
  case Passed
  then obtain s where s: "hub_sessions h w = Some s"
    "h' = set_call i (if us_active s then c\<lparr>call_stage := Sending\<rparr> else call_next c) h"
    using a by (auto simp: call_at_def res_simps)
  have "cleared_calls h' ws \<subseteq> cleared_calls h ws"
    unfolding s(2) by (intro cleared_set_call [OF c(1)]) (use Passed in \<open>auto simp: cleared_def call_done_def split: if_splits\<close>)
  then have "pace_ok ws new h'"
    by (intro pace_ok_frame [OF p _ nb]) (use Passed c in \<open>auto simp: s(2) stamping_def split: if_splits\<close>)
  then show ?thesis by (simp add: s(2))
next
  case Sending
  let ?m = "(i, w, hub_clock h, call_done c)"
  have h': "h' = set_call i (c\<lparr>call_stage := Stamping\<rparr>) (h\<lparr>hub_sent := ?m # hub_sent h\<rparr>)"
    using Sending a by (auto simp: call_at_def split: if_splits)
  have p': "pace_ok ws new h'"
    by (rule pace_ok_frame [OF p _ nb]) (use Sending c in \<open>auto simp: h' cleared_calls_def cleared_def stamping_def split: if_splits\<close>)
  have late: "u + 250000000 \<le> hub_clock h" if "w = ws" "\<not> call_done c" "(i, ws, u, f) \<in> set new" for u f
  proof -
    have "i \<in> cleared_calls h ws" using that c Sending by (simp add: cleared_calls_def cleared_def)
    then show ?thesis by (rule pace_okD(3) [OF p that(3)])
  qed
  have "pace_ok ws (?m # new) h'"
    unfolding pace_ok_def
  proof (intro conjI allI impI)
    have "spaced ws new" using p by (simp add: pace_ok_def)
    with late show "spaced ws (?m # new)" by auto
    fix j u f
    assume m: "(j, ws, u, f) \<in> set (?m # new)"
    then consider (old) "(j, ws, u, f) \<in> set new" | (this) "j = i" "w = ws" "u = hub_clock h" by auto
    then have "u \<le> hub_clock h' \<and> (stamping h' ws j \<or> not_before ws u h') \<and>
      (j \<in> cleared_calls h' ws \<longrightarrow> u + 250000000 \<le> hub_clock h')"
    proof cases
      case old
      with pace_okD [OF p' old] show ?thesis by blast
    next
      case this
      moreover have "stamping h' ws i" if "w = ws" using that c by (simp add: stamping_def h')
      moreover have "i \<notin> cleared_calls h' ws" by (simp add: cleared_calls_def h' cleared_def)
      ultimately show ?thesis by (simp add: h')
    qed
    then show "u \<le> hub_clock h'" "stamping h' ws j \<or> not_before ws u h'"
      "j \<in> cleared_calls h' ws \<Longrightarrow> u + 250000000 \<le> hub_clock h'" by blast+
  qed
  then show ?thesis by (intro exI [of _ "[?m]"]) (simp add: h')
next
  case Stamping
  then obtain s where s: "hub_sessions h w = Some s"
    "h' = set_call i (call_next c) (h\<lparr>hub_sessions := (hub_sessions h)(w \<mapsto> s\<lparr>us_ts := hub_clock h\<rparr>)\<rparr>)"
    using a by (auto simp: call_at_def res_simps update_session_timestamp_def)
  have "stamping h' ws j \<or> not_before ws u h'" if j: "stamping h ws j" and u: "u \<le> hub_clock h" for j u
  proof (cases "w = ws")
    case True
    then show ?thesis using u by (simp add: not_before_def s(2))
  next
    case False
    then have "j \<noteq> i" using j c by (auto simp: stamping_def)
    then show ?thesis using j by (simp add: stamping_def s(2))
  qed
  then have "pace_ok ws new h'"
    by (intro pace_ok_frame [OF p _ nb]) (auto simp: s(2) cleared_calls_def split: if_splits)
  then show ?thesis by (simp add: s(2))
qed

lemma pace_ok_perform:
  assumes "pace_ok ws new h" "perform e h = Inr h'" "quiet ws e h" "time_ok h"
  shows "\<exists>m. hub_sent h' = m @ hub_sent h \<and> pace_ok ws (m @ new) h'"
proof -
  have nb: "not_before ws t h \<Longrightarrow> not_before ws t h'" for t
    by (rule not_before_perform [OF assms(2,4,3)])
  have clk: "hub_clock h \<le> hub_clock h'" by (rule clock_perform [OF assms(2)])
  have frame: ?thesis if "hub_sent h' = hub_sent h" "cleared_calls h' ws \<subseteq> cleared_calls h ws"
    "\<And>i. stamping h ws i \<Longrightarrow> stamping h' ws i"
    using pace_ok_frame [OF assms(1) clk nb that(2)] that(1,3) by simp
  have same: ?thesis if "hub_sent h' = hub_sent h" "hub_calls h' = hub_calls h"
    by (rule frame) (use that in \<open>simp_all add: cleared_calls_def stamping_def\<close>)
  show ?thesis
  proof (cases e)
    case (Step i)
    with assms(2) obtain c where c: "hub_calls h i = Some c" by (auto simp: call_step_def split: option.splits)
    show ?thesis
    proof (cases "call_rest c")
      case Nil
      with Step assms(2) c have h': "h' = h\<lparr>hub_calls := (hub_calls h)(i := None)\<rparr>" by (simp add: call_step_def)
      show ?thesis
        by (rule frame) (use Nil c in \<open>auto simp: h' cleared_calls_def stamping_def split: if_splits\<close>)
    next
      case (Cons w wss)
      with Step assms(2) c have "call_at i c w h = Inr h'" by (simp add: call_step_def)
      from pace_ok_call_at [OF assms(1) c Cons this assms(4) nb] show ?thesis .
    qed
  next
    case (Call i d running whole)
    with assms(2) have "hub_calls h i = None"
      "\<exists>p r. h' = h\<lparr>hub_progress := p, hub_calls := (hub_calls h)(i \<mapsto> \<lparr>call_dataset = d, call_running = running,
        call_total = whole, call_rest = r, call_stage = Looking\<rparr>)\<rparr>"
      by (auto simp: call_start_def Let_def split: if_splits)
    then show ?thesis
      by (intro frame) (auto simp: cleared_calls_def cleared_def stamping_def split: if_splits)
  next
    case (Stamp w)
    with assms(2) show ?thesis
      by (intro same) (auto simp: ws_message_stamp_def res_simps split: option.splits handler.splits)
  qed (rule same; use assms(2) in \<open>auto simp: ws_upgrade_def ws_open_def ws_message_def ws_close_def ws_close_launch_def
      ws_close_delete_def ws_free_def run_thread_def res_simps split: if_splits option.splits\<close>)+
qed

lemma run_spaced:
  "hub_run (quiet ws) h es h' \<Longrightarrow> time_ok h \<Longrightarrow> \<exists>new. hub_sent h' = new @ hub_sent h \<and> pace_ok ws new h'"
proof (induction rule: hub_run.induct)
  case start
  then show ?case by (simp add: pace_ok_def)
next
  case (event es h1 e h2)
  then obtain new where new: "hub_sent h1 = new @ hub_sent h" "pace_ok ws new h1" by blast
  have "time_ok h1" using time_ok_run [OF event.hyps(1)] event.prems by simp
  from pace_ok_perform [OF new(2) event.hyps(3,2) this] new(1) show ?case by auto
qed

text \<open>A call that is not interrupted notifies a page that is there, if it is time or the work is done.\<close>

lemma uninterrupted_call:
  assumes "hub_calls h i = Some c" "call_rest c = ws # wss" "call_stage c = Looking" "ws \<in> hub_sockets h"
    and "hub_sessions h ws = Some s" "us_active s" "250000000 \<le> hub_clock h - us_ts s \<or> call_done c"
  shows "\<exists>h'. try_run (\<lambda>_ _. True) [Step i, Step i, Step i, Step i, Step i] h = Inr h' \<and>
    hub_sent h' = (i, ws, hub_clock h, call_done c) # hub_sent h \<and>
    hub_sessions h' ws = Some (s\<lparr>us_ts := hub_clock h\<rparr>) \<and> hub_calls h' i = Some (call_next c)"
  using assms by (simp add: call_step_def call_at_def with_session_def check_progress_timeout_iff call_done_def call_next_def
      update_session_timestamp_def)

section \<open>Three runs\<close>

text \<open>Two threads that look at the same timestamp both send, at the same time.\<close>

definition burst :: "string \<Rightarrow> event list" where
  "burst d = [Upgrade 0 0 [d], Open 0, Thread 0, Call 0 d 1 2, Call 1 d 1 2, Step 0, Step 1, Step 0, Step 1, Step 0, Step 1,
     Step 0, Step 1, Step 0, Step 1]"

text \<open>A page whose connection is closed while a call has its WebSocket in the copied list; the detached threads keep their order.\<close>

definition late_close :: "string \<Rightarrow> event list" where
  "late_close d = [Upgrade 0 0 [d], Open 0, Thread 0, Call 0 d 1 2, Step 0, Close 0, Launch 0, Delete 0]"

text \<open>A connection whose list entry is made after it was removed, although \<^verbatim>\<open>close\<close> waited for both threads.\<close>

definition stale_entry :: "string \<Rightarrow> event list" where
  "stale_entry d = [Upgrade 0 0 [d], Open 0, Close 0, Launch 0, Thread 1, Thread 0, Delete 0, Free 0, Call 0 d 1 2]"

lemmas run_simps = new_hub_def ws_upgrade_def connect_session_def new_user_session_def ws_open_def with_session_def run_thread_def
  run_task.simps connections_of_def call_start_def call_step_def call_at_def set_call_def call_next_def call_done_def
  check_progress_timeout_iff update_session_timestamp_def Let_def ws_close_def ws_close_launch_def ws_close_delete_def ws_free_def

lemma burst_run:
  "\<exists>h. try_run (\<lambda>_ _. True) (burst d) (new_hub 2 t) = Inr h \<and> hub_sent h = [(1, 0, t, False), (0, 0, t, False)]"
  by (simp add: burst_def run_simps)

lemma late_close_run:
  "\<exists>h. try_run in_order (late_close d) (new_hub 1 t) = Inr h \<and> perform (Step 0) h = Inl Out_Of_Bounds"
  by (simp add: late_close_def run_simps)

lemma stale_entry_run:
  "\<exists>h. try_run awaited (stale_entry d) (new_hub 1 t) = Inr h \<and> perform (Step 0) h = Inl Out_Of_Bounds"
  by (simp add: stale_entry_def run_simps)

end
