(* ===== verification/Inet.thy ===== *)
theory Inet
  imports Prelude
begin

text \<open>
  The tool \<^verbatim>\<open>src/src/inet.c\<close>, which prints the broadcast address of a network.  \<^verbatim>\<open>inet_pton\<close> and
  \<^verbatim>\<open>inet_ntop\<close> are parameters: an address is a word of 32 bits, in the byte order of the network.  The result is the
  exit code and the line that is printed, to the standard output or to the standard error.
\<close>

definition inet_main :: "(string \<Rightarrow> u32 option) \<Rightarrow> (u32 \<Rightarrow> string option) \<Rightarrow> string list \<Rightarrow> nat \<times> string" where
  "inet_main pton ntop argv =
     (let host_ip = (if 1 < length argv then argv ! 1 else ''127.0.0.1'');
          netmask = (if 2 < length argv then argv ! 2 else ''255.255.255.255'')
      in case (pton host_ip, pton netmask) of
           (Some host, Some netm) \<Rightarrow>
             (case ntop (host OR NOT netm) of
                Some broadcast_address \<Rightarrow>
                  (0, ''Broadcast address of '' @ host_ip @ '' with netmask '' @ netmask @ '' is '' @ broadcast_address)
              | None \<Rightarrow> (1, ''Failed converting number to string''))
         | _ \<Rightarrow> (1, ''Failed converting strings to numbers''))"

text \<open>The broadcast address is the last address of the network the host is in.\<close>

lemma broadcast_in_network: "(host OR NOT netm) AND netm = host AND (netm :: u32)"
  by (simp add: bit_eq_iff bit_and_iff bit_or_iff bit_not_iff) blast

lemma broadcast_last: "a AND netm = host AND netm \<Longrightarrow> a \<le> host OR NOT (netm :: u32)"
proof -
  assume a: "a AND netm = host AND netm"
  have "a AND (host OR NOT netm) = a"
  proof (rule bit_eqI)
    fix n
    have "bit (a AND netm) n = bit (host AND netm) n" by (simp add: a)
    then show "bit (a AND (host OR NOT netm)) n = bit a n"
      by (auto simp: bit_and_iff bit_or_iff bit_not_iff bit_imp_le_length dest: bit_imp_le_length)
  qed
  then show ?thesis by (metis and.commute word_and_le1)
qed

lemma inet_main_ok:
  assumes "pton h = Some host" "pton m = Some netm" "ntop (host OR NOT netm) = Some s"
  shows "inet_main pton ntop [prog, h, m] = (0, ''Broadcast address of '' @ h @ '' with netmask '' @ m @ '' is '' @ s)"
  using assms by (simp add: inet_main_def)

lemma inet_main_fails:
  "fst (inet_main pton ntop argv) \<noteq> 0 \<Longrightarrow>
    pton (if 1 < length argv then argv ! 1 else ''127.0.0.1'') = None \<or>
    pton (if 2 < length argv then argv ! 2 else ''255.255.255.255'') = None \<or> (\<exists>a. ntop a = None)"
  by (auto simp: inet_main_def Let_def split: option.splits if_splits)

end
