(* ===== verification/Spec2Isabelle.thy ===== *)
theory Spec2Isabelle
  imports Json_Buffer_Int Json_Emit Json_Tree Zfp_Omp_Runs Zfp_Promote Viewer Notifications Inet
begin

text \<open>
  A verification development for the C sources of FITSWebQL, a server that lets many users look at large
  astronomical images and spectra in a web browser.

  \<^bold>\<open>The program.\<close>  The server (\<^verbatim>\<open>src/src\<close>, C++ and C) answers requests for data sets, runs long computations and tells
  the pages that wait for them how far they are.  It talks JSON, with the library \<^verbatim>\<open>src/src/json.c\<close>, over HTTP and
  WebSockets; it keeps arrays compressed with zfp (\<^verbatim>\<open>src/zfp-0.5.5\<close>); and it sends images as HEVC video.  The page runs C
  code compiled to WebAssembly (\<^verbatim>\<open>src/WebAssembly\<close>) that decodes the video with FFmpeg and paints it, through a
  colour map, into a canvas.  Modelled are the parts in C: the JSON library, zfp with serial and with OpenMP execution, the viewer, and the small
  tool \<^verbatim>\<open>src/src/inet.c\<close>; and of the server the sessions of \<^verbatim>\<open>src/src/global.h\<close> with the code that
  connects them to WebSockets and notifies them.

  \<^bold>\<open>Conventions\<close> (\<^verbatim>\<open>Prelude\<close>).  A function that can fail returns \<open>err + 'a\<close>: \<open>Rejected\<close> is a refusal the C code reports itself, the
  other errors are what must not happen: an access outside of an object, a failing assertion, an undefined operation, a
  loop without end.  Text is read through cursors, the bytes from a pointer to the end of its block; arrays are lists, and pointers into
  them indices.  Integers are words of their width wherever the code can wrap around.  Loops along
  pointers, whose end depends on the heap or on FFmpeg, have fuel, and \<open>None\<close> is running out of it: for the operations on
  trees (\<^verbatim>\<open>Json_Heap\<close>) enough fuel exists for every well-formed tree, and for the receiving loop of the decoder (\<^verbatim>\<open>Hevc\<close>)
  whenever the decoder holds finitely many frames; no theorem is about a fixed amount.

  \<^bold>\<open>JSON text\<close> (C1 to C11).  \<^verbatim>\<open>Json_Buffer\<close> is the growing buffer \<^verbatim>\<open>SB\<close> with natural numbers for sizes, and \<^verbatim>\<open>Json_Buffer_Int\<close> the same at the widths of the source, with the limits up to which both agree; \<^verbatim>\<open>Json_Utf8\<close> the validation, reading and writing of UTF-8 and of
  surrogate pairs; \<^verbatim>\<open>Json_Lex\<close> white space, literals, hexadecimal digits and numbers; \<^verbatim>\<open>Json_String\<close>
  \<^verbatim>\<open>parse_string\<close> and \<^verbatim>\<open>emit_string\<close>; \<^verbatim>\<open>Json_Parse\<close> the recursive parser with \<^verbatim>\<open>json_decode\<close> and \<^verbatim>\<open>json_validate\<close>; \<^verbatim>\<open>Json_Emit\<close> the
  printer in both layouts.  The lexical functions are instances of the locale \<open>lexer\<close>, which promises that a
  function moves forward in a terminated text or refuses it; from this the parser is shown to be safe.  The
  printer writes through the locale \<open>byte_sink\<close>, so its output is a function of the tree (\<open>encoding\<close>), and this is
  the abstract specification that the round trips rest on.  \<^verbatim>\<open>strtod\<close> and \<^verbatim>\<open>sprintf\<close> are parameters.

  \<^bold>\<open>JSON trees in memory\<close> (C12 to C18).  \<^verbatim>\<open>Json_Heap\<close> has the nodes with their parent, child and sibling pointers, and the
  operations on them; \<^verbatim>\<open>Json_Tree\<close> relates a node to the tree it represents, and shows that appending, removing and
  finding refine the operations on lists, that deleting frees each node once, and what \<^verbatim>\<open>json_check\<close> accepts and where it
  does not end.

  \<^bold>\<open>zfp\<close> (C19 to C36).  \<^verbatim>\<open>Zfp_Bitstream\<close> models the stream of 64-bit words and says what was \<open>written\<close> and is \<open>unread\<close> as lists of bits; later
  theories speak of these lists only.  \<^verbatim>\<open>Zfp_Field\<close> and \<^verbatim>\<open>Zfp_Stream\<close> have fields, parameters, modes and headers; \<^verbatim>\<open>Zfp_Promote\<close> the
  conversion of samples.  \<^verbatim>\<open>Zfp_Plane\<close> and \<^verbatim>\<open>Zfp_Many\<close> have the embedded coder of bit planes, for up to 64 integers and for more,
  shown to write and to read a code given as a function on lists of bits.  \<^verbatim>\<open>Zfp_Block\<close> has the transforms and the coders of
  blocks of integers and \<^verbatim>\<open>Zfp_Codec\<close> their correctness.  \<^verbatim>\<open>Float_Round\<close> and \<^verbatim>\<open>Float_Value\<close> model binary floating point: values, their
  bits, and operations with one rounding; \<^verbatim>\<open>Zfp_Float\<close> has the blocks of \<^verbatim>\<open>float\<close> and \<^verbatim>\<open>double\<close>.  \<^verbatim>\<open>Zfp_Coder\<close> states, as the locale
  \<open>block_coder\<close>, what arrays need of the coder of a block in reversible mode: that some bits carry the
  block.  It is interpreted for all four scalar types.  \<^verbatim>\<open>Zfp_Array\<close> gathers and scatters blocks of strided arrays, with the
  increments between the rows of full blocks in type \<^verbatim>\<open>int\<close>, as in the source,
  \<^verbatim>\<open>Zfp_Compress\<close> runs over all blocks of an array in one to four dimensions, and \<^verbatim>\<open>Zfp_Api\<close> has \<^verbatim>\<open>zfp_compress\<close> and
  \<^verbatim>\<open>zfp_decompress\<close>; in reversible mode the two are inverse to each other.  The bound of 16657 bits per block is \<^verbatim>\<open>ZFP_MAX_BITS\<close>, the
  budget of the reversible mode; every code of integers stays below it, also those of 256 integers of 64 bits (16646 bits).
  Two bits and an exponent in front of scaled doubles exceed it, by the same bound, in blocks of 256, so doubles in four dimensions
  are left out of the round trip.  \<^verbatim>\<open>Zfp_Omp\<close> has the compression with OpenMP: a run is an interleaving of the chunks' blocks, given by a list of
  chunk numbers, and the memory of the chunks comes from a parameter.  \<^verbatim>\<open>Zfp_Omp_Blocks\<close> numbers the blocks and shows that the serial loops run
  over the same numbers, and \<^verbatim>\<open>Zfp_Omp_Runs\<close> that every run writes what the serial compressor writes, by an invariant of
  the chunks; and where it goes wrong.

  \<^bold>\<open>Video\<close> (C37, C38).  \<^verbatim>\<open>Colour_Tables\<close> are the tables of the colour maps, \<^verbatim>\<open>Colourmap\<close> the painting of a decoded
  frame with every rounding in single precision, \<^verbatim>\<open>Hevc\<close> the decoder around FFmpeg, which is a parameter (a record of functions),
  and \<^verbatim>\<open>Viewer\<close> the entry points of the page; their invariant holds after any sequence of calls.

  \<^bold>\<open>Sessions\<close> (C39, C40).  \<^verbatim>\<open>Sessions\<close> has the maps of sessions and peers as instances of the locale \<open>registry\<close>, and when a page
  is due for a notification.  \<^verbatim>\<open>Connections\<close> is the concurrent part, in single accesses to shared memory: any number of threads in
  \<^verbatim>\<open>send_progress_notification\<close>, the handlers of the WebSockets in steps (\<^verbatim>\<open>upgrade\<close>, \<^verbatim>\<open>open\<close>, messages that set the
  timestamp, \<^verbatim>\<open>close\<close>), and the threads that \<^verbatim>\<open>open\<close> and \<^verbatim>\<open>close\<close> leave behind.  The state is the record \<open>hub\<close>, \<open>perform\<close> does one
  event and says where it goes through a dangling pointer, and \<open>hub_run\<close> are the runs, in which the events come in any
  order that the mutexes allow.  \<^verbatim>\<open>Notifications\<close> has the invariants: of memory (\<open>hub_ok\<close>), of time (\<open>time_ok\<close>) and of pace
  (\<open>paced\<close>, \<open>pace_ok\<close>).  The rest of the handlers of messages is not modelled.  \<^verbatim>\<open>Inet\<close> is the tool that prints a broadcast address.

  \<^bold>\<open>Not modelled.\<close>  The astronomical computations of \<^verbatim>\<open>fits.cpp\<close> and \<^verbatim>\<open>webql.ispc\<close> (C++ and ISPC on vector units, whose results are
  statistics of floating-point data without a stated specification), the HTTP and WebSocket servers built on boost, uWebSockets and mongoose, contour tracing,
  classification, Kalman filters, and the pages in JavaScript are not C or are glue around libraries; they are listed in the
  manifest.  Of zfp, CUDA, the array classes in C++, and all copies but version 0.5.5 are left out.  FFmpeg, OpenEXR, fpzip,
  roaring, lz4, mongoose and BitMagic are third-party code the sources only call.  Allocation is taken to succeed where the code does not
  handle its failure, except in \<^verbatim>\<open>Hevc\<close>, where it is a parameter.
\<close>

section \<open>JSON text\<close>

text \<open>C1.
  \<^verbatim>\<open>json_decode\<close> is memory safe on every zero-terminated block: it returns a tree or rejects
  the text, and never reads behind the terminator, overruns its string buffer, trips an
  assertion or loops.
\<close>

theorem json_decode_memory_safe:
  assumes "0 \<in> set s"
  shows "json_decode strtod s = Inl Rejected \<or> (\<exists>j. json_decode strtod s = Inr j)"
  using json_decode_safe [OF assms, of strtod] by (cases "json_decode strtod s") auto

theorem json_decode_memory_safe_witness:
  "(0 :: u8) \<in> set (cstr [0x5B, 0x5C]) \<and>
   (json_decode length (cstr [0x5B, 0x5C]) = Inl Rejected \<or>
    (\<exists>j. json_decode length (cstr [0x5B, 0x5C]) = Inr j))"
  using json_decode_memory_safe [of "cstr [0x5B, 0x5C]" length] by (simp add: cstr_def)

text \<open>
  For the witnesses: numbers kept as their text, read up to a byte that may follow a value.
\<close>

definition text_strtod :: "cursor \<Rightarrow> bytes" where
  "text_strtod s = takeWhile (\<lambda>c. \<not> value_stop c) s"

lemma some_digits_stop: "some_digits ds \<Longrightarrow> c \<in> set ds \<Longrightarrow> \<not> value_stop c"
  by (auto simp: some_digits_def list_all_iff value_stop_def is_space_def is_digit_def)

lemma json_number_stop:
  assumes "json_number n" and "c \<in> set n"
  shows "\<not> value_stop c"
proof -
  have marks: "\<not> value_stop 0x2D" "\<not> value_stop 0x2B" "\<not> value_stop 0x2E" "\<not> value_stop 0x45"
    "\<not> value_stop 0x65" "\<not> value_stop 0x30"
    by (simp_all add: value_stop_def is_space_def)
  obtain sg ip fr ex where n: "n = sg @ ip @ fr @ ex" "sg = [] \<or> sg = [0x2D]"
    "int_part ip" "frac_part fr" "exp_part ex" using assms(1) by (auto simp: json_number_def)
  have "\<not> value_stop c" if "c \<in> set ip"
    using that n(3) some_digits_stop marks by (auto simp: int_part_def)
  moreover have "\<not> value_stop c" if "c \<in> set fr"
    using that n(4) some_digits_stop [of "tl fr" c] marks by (cases fr) (auto simp: frac_part_def)
  moreover have "\<not> value_stop c" if "c \<in> set ex"
    using that n(5) some_digits_stop [of "tl ex" c] some_digits_stop [of "tl (tl ex)" c] marks
    by (cases ex; cases "tl ex") (auto simp: exp_part_def)
  ultimately show ?thesis using assms(2) n(1,2) marks by auto
qed

lemma text_strtod_reads: "strtod_reads text_strtod (\<lambda>n. n)"
  unfolding strtod_reads_def text_strtod_def
  by (auto simp: takeWhile_append2 json_number_stop)

text \<open>C2.
  Printing and parsing: for every tree whose texts are valid, \<^verbatim>\<open>json_stringify\<close> succeeds with
  any layout of white space, and \<^verbatim>\<open>json_decode\<close> of the result gives the tree back, with each
  number as printed and read again and \<^verbatim>\<open>null\<close> for a number without a JSON form; unless some
  text holds U+001F, in which case the printed document is rejected.
\<close>

theorem json_stringify_decode:
  assumes "json_all valid_text (fmt_ok fmt) v" and "\<forall>sp. space = Some sp \<longrightarrow> blanks sp"
    and "strtod_reads strtod value"
  shows "\<exists>out. json_stringify fmt v space = Inr out \<and>
    json_decode strtod (cstr out) = (if us_free v then Inr (reread value fmt v) else Inl Rejected)"
proof -
  have "\<forall>sp. space = Some sp \<longrightarrow> 0 \<notin> set sp"
    using assms(2) not_spaces(1) unfolding blanks_def by blast
  with json_stringify_encoding [OF assms(1)] json_decode_encoding [OF assms] show ?thesis by blast
qed

definition sample :: "bytes json" where
  "sample = JSON_OBJECT [(ascii ''a'', JSON_ARRAY [JSON_NUMBER (ascii ''-1.5e3''), JSON_NULL, JSON_BOOL True]),
     ([0xC3, 0xA9], JSON_STRING [0x22, 0x0A])]"

lemma sample_ok: "json_all valid_text (fmt_ok (\<lambda>n. n)) sample"
  by code_simp

theorem json_stringify_decode_witness:
  "json_all valid_text (fmt_ok (\<lambda>n. n)) sample \<and> strtod_reads text_strtod (\<lambda>n. n) \<and> blanks [0x20] \<and>
   (\<exists>out. json_stringify (\<lambda>n. n) sample (Some [0x20]) = Inr out \<and>
      json_decode text_strtod (cstr out) =
        (if us_free sample then Inr (reread (\<lambda>n. n) (\<lambda>n. n) sample) else Inl Rejected))"
  using json_stringify_decode [OF sample_ok _ text_strtod_reads, of "Some [0x20]"] sample_ok text_strtod_reads
  by (simp add: blanks_def is_space_def)

text \<open>C3.
  Without loss: if every number of the tree has a JSON form that reads back to itself and no
  text holds U+001F, \<^verbatim>\<open>json_decode\<close> inverts \<^verbatim>\<open>json_encode\<close>.
\<close>

theorem json_encode_decode_lossless:
  assumes "json_all (\<lambda>k. valid_text k \<and> no_us k) (\<lambda>d. fmt_ok fmt d \<and> json_number (fmt d) \<and> value (fmt d) = d) v"
    and "strtod_reads strtod value"
  shows "bind_res (json_encode fmt v) (\<lambda>out. json_decode strtod (cstr out)) = Inr v"
proof -
  have m: "json_all P' Q' v" if "json_all P Q v" "\<And>k. P k \<Longrightarrow> P' k" "\<And>d. Q d \<Longrightarrow> Q' d" for P Q P' Q'
    using that by (induction v) fastforce+
  have "json_all valid_text (fmt_ok fmt) v" "us_free v"
    "json_all (\<lambda>_. True) (\<lambda>d. json_number (fmt d) \<and> 0 \<notin> set (fmt d) \<and> value (fmt d) = d) v"
    by (rule m [OF assms(1)]; simp add: fmt_ok_def)+
  then obtain out where "json_stringify fmt v None = Inr out" "json_decode strtod (cstr out) = Inr (reread value fmt v)"
    "reread value fmt v = v"
    using json_stringify_encoding [of fmt v None] json_decode_encoding [of fmt v None strtod "value"] assms(2) reread_id
    by auto
  then show ?thesis by (simp add: json_encode_def)
qed

theorem json_encode_decode_lossless_witness:
  "bind_res (json_encode (\<lambda>n. n) (JSON_ARRAY [JSON_NUMBER [0x31], JSON_STRING []]))
     (\<lambda>out. json_decode text_strtod (cstr out)) = Inr (JSON_ARRAY [JSON_NUMBER [0x31], JSON_STRING []])"
proof (rule json_encode_decode_lossless [OF _ text_strtod_reads])
  have "json_number [0x31]"
    unfolding json_number_def
    by (intro exI [of _ "[]"] exI [of _ "[0x31]"]) (simp add: int_part_def some_digits_def is_digit_def
        frac_part_def exp_part_def)
  moreover have "valid_text []" by code_simp
  ultimately show "json_all (\<lambda>k. valid_text k \<and> no_us k)
     (\<lambda>d. fmt_ok (\<lambda>n. n) d \<and> json_number ((\<lambda>n. n) d) \<and> (\<lambda>n. n) d = d)
     (JSON_ARRAY [JSON_NUMBER [0x31], JSON_STRING []])"
    by (simp add: no_us_def fmt_ok_def)
qed

text \<open>C4.
  The emitters implement the encoding: whatever the layout, \<^verbatim>\<open>json_stringify\<close> writes exactly
  \<open>encoding space fmt v\<close>, with no overrun of the growing buffer and no failing assertion.
\<close>

theorem json_stringify_writes_encoding:
  assumes "json_all valid_text (fmt_ok fmt) v" and "\<forall>sp. space = Some sp \<longrightarrow> 0 \<notin> set sp"
  shows "json_stringify fmt v space = Inr (encoding space fmt v)"
  using assms by (rule json_stringify_encoding)

theorem json_stringify_writes_encoding_witness:
  "json_stringify (\<lambda>n. n) sample None = Inr (encoding None (\<lambda>n. n) sample) \<and>
   encoding None (\<lambda>n. n) (JSON_ARRAY [JSON_NUMBER [0x37], JSON_BOOL False]) = ascii ''[7,false]''"
proof
  show "json_stringify (\<lambda>n. n) sample None = Inr (encoding None (\<lambda>n. n) sample)"
    by (rule json_stringify_writes_encoding [OF sample_ok]) simp
  show "encoding None (\<lambda>n. n) (JSON_ARRAY [JSON_NUMBER [0x37], JSON_BOOL False]) = ascii ''[7,false]''"
    by code_simp
qed

text \<open>C5.
  \<^verbatim>\<open>json_validate\<close> accepts exactly the texts that \<^verbatim>\<open>json_decode\<close> turns into a tree, although it
  writes to a throwaway buffer and builds nothing.
\<close>

theorem json_validate_agrees:
  assumes "0 \<in> set s"
  shows "json_validate s = Inr (\<exists>j. json_decode strtod s = Inr j)"
  using assms by (rule json_validate_eq)

theorem json_validate_agrees_witness:
  "json_validate (cstr (ascii ''[1,2]'')) = Inr True \<and>
   json_validate (cstr (ascii ''[1,2]'')) = Inr (\<exists>j. json_decode length (cstr (ascii ''[1,2]'')) = Inr j)"
proof
  show "json_validate (cstr (ascii ''[1,2]'')) = Inr True" by code_simp
  show "json_validate (cstr (ascii ''[1,2]'')) = Inr (\<exists>j. json_decode length (cstr (ascii ''[1,2]'')) = Inr j)"
    by (rule json_validate_agrees) (simp add: cstr_def)
qed

text \<open>C6.
  Every string and every key of a decoded tree is valid UTF-8 without a zero byte, and every
  number is what \<^verbatim>\<open>strtod\<close> made of a text of the JSON number grammar.
\<close>

theorem json_decode_well_formed:
  assumes "json_decode strtod s = Inr j"
  shows "json_all valid_text (read_from strtod) j"
  using assms by (rule json_decode_texts)

theorem json_decode_well_formed_witness:
  "json_all valid_text (read_from length) (JSON_STRING [0xC3, 0xA9])"
proof (rule json_decode_well_formed)
  show "json_decode length (cstr [0x22, 0x5C, 0x75, 0x30, 0x30, 0x65, 0x39, 0x22]) = Inr (JSON_STRING [0xC3, 0xA9])"
    by code_simp
qed

text \<open>C7.
  A string printed by \<^verbatim>\<open>json_encode_string\<close> is read back by \<^verbatim>\<open>parse_string\<close>, whatever follows
  it, exactly when it does not hold the character U+001F.
\<close>

theorem json_string_roundtrip:
  assumes "valid_text s"
  shows "\<exists>b. json_encode_string s = Inr b \<and>
    parse_string True (b @ r) = (if 0x1F \<in> set s then Inl Rejected else Inr (Some s, r))"
proof -
  obtain us where us: "s = concat (List.map utf8_enc us)" "\<forall>u \<in> set us. scalar u \<and> u \<noteq> 0"
    using assms by (auto simp: valid_text_iff)
  then have "0x1F \<in> set s \<longleftrightarrow> 0x1F \<in> set us" using unit_separator_in_encs by simp
  with us json_encode_string_enc [OF us(2)] parse_enc_string [OF us(2), of True False r] show ?thesis by simp
qed

theorem json_string_roundtrip_witness:
  "valid_text [0xF0, 0x9F, 0x98, 0x80, 0x09] \<and>
   (\<exists>b. json_encode_string [0xF0, 0x9F, 0x98, 0x80, 0x09] = Inr b \<and>
     parse_string True (b @ [0x2C]) = Inr (Some [0xF0, 0x9F, 0x98, 0x80, 0x09], [0x2C]))"
proof
  show v: "valid_text [0xF0, 0x9F, 0x98, 0x80, 0x09]" by code_simp
  show "\<exists>b. json_encode_string [0xF0, 0x9F, 0x98, 0x80, 0x09] = Inr b \<and>
     parse_string True (b @ [0x2C]) = Inr (Some [0xF0, 0x9F, 0x98, 0x80, 0x09], [0x2C])"
    using json_string_roundtrip [OF v, of "[0x2C]"] by simp
qed

text \<open>C8.
  \<^verbatim>\<open>utf8_validate\<close> accepts a C string exactly when it is a sequence of encodings of Unicode
  scalar values.
\<close>

theorem utf8_validate_exact:
  assumes "0 \<notin> set xs"
  shows "utf8_validate (cstr xs) = Inr True \<longleftrightarrow>
    (\<exists>us. xs = concat (List.map utf8_enc us) \<and> (\<forall>u \<in> set us. scalar u \<and> u \<noteq> 0))"
  using assms by (rule utf8_validate_iff)

theorem utf8_validate_exact_witness:
  "\<not> (\<exists>us. [0xED, 0xA0, 0x80] = concat (List.map utf8_enc us) \<and> (\<forall>u \<in> set us. scalar u \<and> u \<noteq> 0))"
proof -
  have "utf8_validate (cstr [0xED, 0xA0, 0x80]) = Inr False" by code_simp
  then show ?thesis using utf8_validate_exact [of "[0xED, 0xA0, 0x80]"] by simp
qed

text \<open>C9.
  \<^verbatim>\<open>utf8_write_char\<close> and \<^verbatim>\<open>utf8_read_char\<close> are inverse on every scalar value, in any context,
  and the length they agree on is the one \<^verbatim>\<open>utf8_validate_cz\<close> computes.
\<close>

theorem utf8_write_read:
  assumes "scalar u"
  shows "\<exists>b. utf8_write_char u = Inr b \<and> length b \<le> 4 \<and>
    utf8_validate_cz (b @ rest) = Inr (length b) \<and> utf8_read_char (b @ rest) = Inr (length b, u)"
  using assms utf8_validate_cz_enc utf8_read_char_enc utf8_enc_length [of u]
  by (simp add: utf8_write_char_def)

theorem utf8_write_read_witness:
  "scalar 0x1F600 \<and> (\<exists>b. utf8_write_char 0x1F600 = Inr b \<and> length b \<le> 4 \<and>
    utf8_validate_cz (b @ []) = Inr (length b) \<and> utf8_read_char (b @ []) = Inr (length b, 0x1F600))"
  using utf8_write_read [of "0x1F600" "[]"] by (simp add: scalar_def)

text \<open>
  UTF-16 surrogate pairs: the two conversions are inverse to each other, in both directions.
\<close>

theorem surrogate_pairs_inverse:
  "(\<exists>uc lc. 0x10000 \<le> u \<and> u \<le> 0x10FFFF \<and> to_surrogate_pair u = Inr (uc, lc) \<and>
      from_surrogate_pair uc lc = Some u) \<or> \<not> (0x10000 \<le> u \<and> u \<le> 0x10FFFF) \<and>
      (\<nexists>uc lc. from_surrogate_pair uc lc = Some u)"
  using from_to_surrogate_pair [of u] to_from_surrogate_pair by blast

text \<open>
  \<^verbatim>\<open>parse_hex16\<close> reads back what \<^verbatim>\<open>write_hex16\<close> wrote, for every 16-bit value.
\<close>

theorem hex16_roundtrip:
  "parse_hex16 (write_hex16 v @ rest) = Inr (v, rest)"
  by (rule parse_write_hex16)

text \<open>C10.
  \<^verbatim>\<open>number_is_valid\<close> decides the number grammar of JSON.
\<close>

theorem number_is_valid_exact:
  assumes "0 \<notin> set n"
  shows "number_is_valid (cstr n) = Inr (json_number n)"
  using assms by (rule number_is_valid_iff)

theorem number_is_valid_exact_witness:
  "json_number (ascii ''-0.5e+10'') \<and> \<not> json_number (ascii ''01'')"
proof -
  have "number_is_valid (cstr (ascii ''-0.5e+10'')) = Inr True" "number_is_valid (cstr (ascii ''01'')) = Inr False"
    by code_simp+
  then show ?thesis
    using number_is_valid_exact [of "ascii ''-0.5e+10''"] number_is_valid_exact [of "ascii ''01''"] by simp
qed

text \<open>C11.
  The string buffer at the widths of the source: after any sequence of \<^verbatim>\<open>sb_put\<close>, \<^verbatim>\<open>sb_puts\<close> and \<^verbatim>\<open>sb_putc\<close> on a fresh
  buffer, with pieces of less than \<open>2 ^ 31\<close> bytes and \<open>2 ^ 61\<close> bytes at most in all, nothing was stored outside the
  buffer, no size wrapped around, the content is what was put, the capacity is 16 times a power of two that has room
  for it and at most twice the content unless it is still 16 bytes, and \<^verbatim>\<open>sb_finish\<close> returns the content when it has
  no zero byte.
\<close>

theorem sb_calls_content:
  assumes "\<forall>x \<in> set calls. length (call_bytes x) < 2 ^ 31" and "length (concat (List.map call_bytes calls)) \<le> 2 ^ 61"
  shows "\<exists>b k. sb_calls calls sb_init = Inr b \<and> sb_data b = concat (List.map call_bytes calls) \<and>
    sb_alloc b = 16 * 2 ^ k \<and> length (sb_data b) \<le> sb_alloc b \<and>
    (sb_alloc b = 16 \<or> sb_alloc b \<le> 2 * length (sb_data b)) \<and> (0 \<in> set (sb_data b) \<or> sb_finish b = Inr (sb_data b))"
proof -
  obtain b where b: "sb_calls calls sb_init = Inr b" "roomy b" "sb_data b = concat (List.map call_bytes calls)"
    using sb_calls_roomy [OF roomy_init assms(1)] assms(2) by (auto simp: sb_init_def)
  then obtain k where k: "sb_alloc b = 16 * 2 ^ k" by (auto simp: roomy_def)
  have "sb_inv b" using b(2) by (simp add: roomy_def)
  then have "length (sb_data b) \<le> sb_alloc b" "0 \<in> set (sb_data b) \<or> sb_finish b = Inr (sb_data b)"
    using sb_finish_data by (auto simp: sb_inv_def)
  with b k show ?thesis by (intro exI [of _ b] exI [of _ k]) (auto simp: roomy_def)
qed

theorem sb_calls_content_witness:
  "\<exists>b. sb_calls [Putc 0x5B, Puts (ascii ''true'' @ [0, 7]), Put (replicate 20 0x20)] sb_init = Inr b \<and>
    sb_finish b = Inr ([0x5B] @ ascii ''true'' @ replicate 20 0x20)"
  using sb_calls_content [of "[Putc 0x5B, Puts (ascii ''true'' @ [0, 7]), Put (replicate 20 0x20)]"]
  by (auto simp: of_char_def)

section \<open>JSON trees in memory\<close>

text \<open>C12.
  \<^verbatim>\<open>json_delete\<close> on the root of a tree frees every node of the tree exactly once, touches no freed
  node, changes no other node, and ends: two units of fuel per node are enough.
\<close>

theorem json_delete_frees_tree:
  assumes "tree h a v F" and "h_nodes h a = Some n" and "n_parent n = 0" and "2 * card F \<le> fuel"
  shows "\<exists>h'. json_delete fuel a h = Some (Inr h') \<and>
    (\<forall>x. h_nodes h' x = (if x \<in> F then None else h_nodes h x))"
  using json_delete_tree [OF assms] by (simp add: removed_def)

text \<open>For the witnesses: an array with one element, and a single node beside it.\<close>

definition small_heap :: "nat heap" where
  "small_heap = \<lparr>h_nodes = [1 \<mapsto> \<lparr>n_parent = 0, n_prev = 0, n_next = 0, n_key = None, n_tag = TAG_ARRAY,
       n_payload = Children 2 2\<rparr>,
     2 \<mapsto> \<lparr>n_parent = 1, n_prev = 0, n_next = 0, n_key = None, n_tag = TAG_BOOL, n_payload = Bool_P True\<rparr>,
     3 \<mapsto> \<lparr>n_parent = 0, n_prev = 0, n_next = 0, n_key = None, n_tag = TAG_NUMBER, n_payload = Number_P 7\<rparr>,
     4 \<mapsto> \<lparr>n_parent = 0, n_prev = 0, n_next = 0, n_key = None, n_tag = TAG_OBJECT,
       n_payload = Zeroed\<rparr>],
     h_fresh = 5\<rparr>"

lemma small_heap_list: "child_list small_heap 1 [2]" "child_list small_heap 4 []"
  by (simp_all add: child_list_def small_heap_def children_at_def node_at_def children_def)

lemma small_heap_trees:
  "tree small_heap 1 (JSON_ARRAY [JSON_BOOL True]) {1, 2}" "tree small_heap 3 (JSON_NUMBER 7) {3}"
  "tree small_heap 4 (JSON_OBJECT []) {4}"
proof -
  have n: "h_nodes small_heap 1 = Some \<lparr>n_parent = 0, n_prev = 0, n_next = 0, n_key = None, n_tag = 4,
      n_payload = Children 2 2\<rparr>"
    "h_nodes small_heap 2 = Some \<lparr>n_parent = 1, n_prev = 0, n_next = 0, n_key = None, n_tag = 1,
      n_payload = Bool_P True\<rparr>"
    "h_nodes small_heap 3 = Some \<lparr>n_parent = 0, n_prev = 0, n_next = 0, n_key = None, n_tag = 3,
      n_payload = Number_P 7\<rparr>"
    "h_nodes small_heap 4 = Some \<lparr>n_parent = 0, n_prev = 0, n_next = 0, n_key = None, n_tag = 5,
      n_payload = Zeroed\<rparr>"
    by (simp_all add: small_heap_def)
  have b: "tree small_heap 2 (JSON_BOOL True) {2}" by (rule tree_bool [OF n(2)]) simp_all
  have "trees small_heap [2] [(None, JSON_BOOL True)] {2}"
    using trees_Cons [OF b _ trees_Nil, of None] n(2) by (simp add: key_at_def)
  then have "tree small_heap 1 (JSON_ARRAY [JSON_BOOL True]) (insert 1 {2})"
    by (intro tree_array [OF n(1) _ small_heap_list(1)]) simp_all
  then show "tree small_heap 1 (JSON_ARRAY [JSON_BOOL True]) {1, 2}" by simp
  show "tree small_heap 3 (JSON_NUMBER 7) {3}" by (rule tree_number [OF n(3)]) simp_all
  have "tree small_heap 4 (JSON_OBJECT []) (insert 4 {})"
    by (rule tree_object [OF n(4) _ small_heap_list(2)]) (simp_all add: trees_Nil)
  then show "tree small_heap 4 (JSON_OBJECT []) {4}" by simp
qed

theorem json_delete_frees_tree_witness:
  "\<exists>h'. json_delete 4 1 small_heap = Some (Inr h') \<and>
    (\<forall>x. h_nodes h' x = (if x \<in> {1, 2} then None else h_nodes small_heap x))"
  by (rule json_delete_frees_tree [OF small_heap_trees(1)]) (simp_all add: small_heap_def, simp_all?)

text \<open>C13.
  \<^verbatim>\<open>json_append_element\<close> refines appending to a list: it passes its assertions, the array then
  represents the old elements followed by the new one, over the union of the two sets of nodes,
  and no other node changes.
\<close>

theorem json_append_element_refines:
  assumes "tree h p (JSON_ARRAY vs) F" and "tree h c v G" and "F \<inter> G = {}"
    and "h_nodes h c = Some m" and "n_parent m = 0" and "n_key m = None"
  shows "\<exists>h'. json_append_element p c h = Inr h' \<and> tree h' p (JSON_ARRAY (vs @ [v])) (F \<union> G) \<and>
    (\<forall>x. x \<notin> F \<union> G \<longrightarrow> h_nodes h' x = h_nodes h x)"
  using assms by (rule json_append_element_tree)

theorem json_append_element_refines_witness:
  "\<exists>h'. json_append_element 1 3 small_heap = Inr h' \<and>
     tree h' 1 (JSON_ARRAY ([JSON_BOOL True] @ [JSON_NUMBER 7])) ({1, 2} \<union> {3}) \<and>
     (\<forall>x. x \<notin> {1, 2} \<union> {3} \<longrightarrow> h_nodes h' x = h_nodes small_heap x)"
  by (rule json_append_element_refines [OF small_heap_trees(1,2)]) (simp_all add: small_heap_def, simp_all?)

text \<open>C14.
  \<^verbatim>\<open>json_append_member\<close> refines appending a pair to the list of members; the key is copied.
\<close>

theorem json_append_member_refines:
  assumes "tree h p (JSON_OBJECT ms) F" and "tree h c v G" and "F \<inter> G = {}"
    and "h_nodes h c = Some m" and "n_parent m = 0" and "0 \<notin> set k"
  shows "\<exists>h'. json_append_member p (cstr k) c h = Inr h' \<and> tree h' p (JSON_OBJECT (ms @ [(k, v)])) (F \<union> G) \<and>
    (\<forall>x. x \<notin> F \<union> G \<longrightarrow> h_nodes h' x = h_nodes h x)"
  using assms by (rule json_append_member_tree)

theorem json_append_member_refines_witness:
  "\<exists>h'. json_append_member 4 (cstr [0x6B]) 3 small_heap = Inr h' \<and>
     tree h' 4 (JSON_OBJECT ([] @ [([0x6B], JSON_NUMBER 7)])) ({4} \<union> {3}) \<and>
     (\<forall>x. x \<notin> {4} \<union> {3} \<longrightarrow> h_nodes h' x = h_nodes small_heap x)"
  by (rule json_append_member_refines [OF small_heap_trees(3,2)]) (simp_all add: small_heap_def, simp_all?)

text \<open>C15.
  \<^verbatim>\<open>json_remove_from_parent\<close> takes a node out of the list of children at any place, leaves the
  others in order, clears the links and the key of the node, and changes only links elsewhere.
\<close>

theorem json_remove_from_parent_list:
  assumes "child_list h p (xs @ c # ys)"
  shows "\<exists>h' m. json_remove_from_parent c h = Inr h' \<and> child_list h' p (xs @ ys) \<and>
    h_nodes h c = Some m \<and>
    h_nodes h' c = Some (m\<lparr>n_parent := 0, n_prev := 0, n_next := 0, n_key := None\<rparr>) \<and>
    (\<forall>a. a \<notin> {p, c} \<longrightarrow> data_at h' a = data_at h a)"
  using remove_node_list [OF assms] by (fastforce simp: agree_def)

theorem json_remove_from_parent_list_witness:
  "\<exists>h' m. json_remove_from_parent 2 small_heap = Inr h' \<and> child_list h' 1 ([] @ []) \<and>
    h_nodes small_heap 2 = Some m \<and>
    h_nodes h' 2 = Some (m\<lparr>n_parent := 0, n_prev := 0, n_next := 0, n_key := None\<rparr>) \<and>
    (\<forall>a. a \<notin> {1, 2} \<longrightarrow> data_at h' a = data_at small_heap a)"
  by (rule json_remove_from_parent_list) (use small_heap_list(1) in simp)

text \<open>C16.
  \<^verbatim>\<open>json_find_element\<close> indexes the list of children and gives \<^verbatim>\<open>NULL\<close> for every index outside it,
  negative ones included.
\<close>

theorem json_find_element_indexes:
  assumes "child_list h p xs" and "h_nodes h p = Some n" and "n_tag n = TAG_ARRAY" and "length xs < fuel"
  shows "json_find_element fuel p index h =
    Some (Inr (if 0 \<le> index \<and> index < int (length xs) then xs ! nat index else 0))"
  using assms by (rule json_find_element_list)

theorem json_find_element_indexes_witness:
  "json_find_element 2 1 0 small_heap = Some (Inr 2) \<and> json_find_element 2 1 (-1) small_heap = Some (Inr 0)"
  using json_find_element_indexes [OF small_heap_list(1), of _ 2 0] json_find_element_indexes [OF small_heap_list(1), of _ 2 "-1"]
  by (simp add: small_heap_def)

text \<open>C17.
  \<^verbatim>\<open>json_check\<close> accepts every tree whose strings and keys are valid texts, and ends.
\<close>

theorem json_check_accepts_trees:
  assumes "tree h a v F" and "json_all valid_text (\<lambda>_. True) v"
    and "key_at h a \<noteq> None \<longrightarrow> valid_text (the (key_at h a))" and "2 * card F \<le> fuel"
  shows "json_check fuel a h = Some (Inr None)"
  using assms by (rule json_check_tree)

theorem json_check_accepts_trees_witness:
  "json_check 4 1 small_heap = Some (Inr None)"
  by (rule json_check_accepts_trees [OF small_heap_trees(1)]) (simp_all add: key_at_def small_heap_def, simp_all?)

text \<open>C18.
  \<^verbatim>\<open>json_check\<close> does not find every cycle: two arrays that are each other's only child satisfy all
  its tests, and the recursion between them never ends.
\<close>

theorem json_check_misses_cycle:
  "json_check fuel 1 (two_cycle :: nat heap) = None"
  using json_check_two_cycle by blast

section \<open>Bit streams\<close>

text \<open>For the witnesses: an empty stream over \<open>n\<close> words of zeros.\<close>

definition empty_stream :: "nat \<Rightarrow> bitstream" where
  "empty_stream n = stream_open (replicate n 0) (8 * n)"

lemma empty_stream_simps [simp]:
  "bs_ok (empty_stream n)" "written (empty_stream n) = []" "room (empty_stream n) = 64 * n"
  "length (bs_mem (empty_stream n)) = n" "bs_bits (empty_stream n) = 0" "bs_ptr (empty_stream n) = 0"
  by (simp_all add: empty_stream_def stream_open_def stream_rewind_def bs_ok_def written_def room_def stream_wtell_def)

text \<open>C19.
  \<^verbatim>\<open>stream_write_bits\<close> does what the loop over \<^verbatim>\<open>stream_write_bit\<close> does that its comment gives as its
  meaning: it leaves the stream in the same state and returns the same rest of the value, for up to 64 bits
  and whenever the word that has to be written out is inside the buffer.
\<close>

theorem stream_write_bits_is_bit_loop:
  assumes "bs_ok s" and "n \<le> 64" and "64 \<le> bs_bits s + n \<Longrightarrow> bs_ptr s < length (bs_mem s)"
  shows "stream_write_bits s v n = write_each s v n"
  using assms by (rule write_bits_eq_each)

theorem stream_write_bits_is_bit_loop_witness:
  "stream_write_bits (empty_stream 1) 0xABCDEF0123456789 64 = write_each (empty_stream 1) 0xABCDEF0123456789 64"
  by (rule stream_write_bits_is_bit_loop) simp_all

text \<open>C20.
  Values written with \<^verbatim>\<open>stream_write_bits\<close>, flushed and rewound, are read back by \<^verbatim>\<open>stream_read_bits\<close>: each
  call gives the low bits of the value that was written, in the same order, whatever the widths up to 64.
\<close>

theorem stream_write_read_list:
  assumes "bs_ok s" and "written s = []" and "\<forall>x \<in> set xs. snd x \<le> 64"
    and "sum_list (List.map snd xs) \<le> room s" and "64 * length (bs_mem s) < 2 ^ 64"
  shows "\<exists>t n u. put_all stream_write_bits s xs = Inr t \<and> stream_flush t = Inr (n, u) \<and>
    (\<exists>v. get_all stream_read_bits (stream_rewind u) (List.map snd xs) =
      Inr (List.map (\<lambda>(v, n). take_bit n v) xs, v))"
proof -
  have "bs_ptr s \<le> length (bs_mem s)" using assms(1) by (simp add: bs_ok_def)
  from length_written [OF this] assms(2) have r: "room s = 64 * length (bs_mem s)" by (simp add: room_def)
  obtain t where t: "put_all stream_write_bits s xs = Inr t" "bs_ok t" "written t = bits_of xs"
    "room t + sum_list (List.map snd xs) = room s"
    using bs_sink.put_all_ok [OF assms(1,3,4)] assms(2) by auto
  obtain k n u where u: "stream_flush t = Inr (n, u)"
    "unread (stream_rewind u) = bits_of xs @ replicate k False @ mem_bits (drop (bs_ptr u) (bs_mem u))"
    using flush_code [OF t(2,3) _ assms(5)] t(4) r by (auto simp: length_bits_of)
  have "bs_ok (stream_rewind u)" by simp
  from bs_source.get_all_ok [OF this assms(3) u(2)] t(1) u(1) show ?thesis by blast
qed

theorem stream_write_read_list_witness:
  "\<exists>t n u. put_all stream_write_bits (empty_stream 2) [(5, 3), (1, 1), (0x123456789ABCDEF, 60), (7, 2)] = Inr t \<and>
    stream_flush t = Inr (n, u) \<and>
    (\<exists>v. get_all stream_read_bits (stream_rewind u) [3, 1, 60, 2] = Inr ([5, 1, 0x123456789ABCDEF, 3], v))"
  using stream_write_read_list [of "empty_stream 2" "[(5, 3), (1, 1), (0x123456789ABCDEF, 60), (7, 2)]"] by simp

text \<open>C21.
  Positions: \<^verbatim>\<open>stream_rseek\<close> to any bit offset inside the buffer succeeds and \<^verbatim>\<open>stream_rtell\<close> tells that
  offset; skipping moves by the number of bits skipped; aligning moves to the end of the current word.
\<close>

theorem stream_positions:
  assumes "64 * length (bs_mem s) < 2 ^ 64" and "i + k \<le> 64 * length (bs_mem s)"
  shows "\<exists>t u n v. stream_rseek s i = Inr t \<and> stream_rtell t = i \<and> unread t = drop i (mem_bits (bs_mem s)) \<and>
    stream_skip t k = Inr u \<and> stream_rtell u = i + k \<and> unread u = drop (i + k) (mem_bits (bs_mem s)) \<and>
    stream_align u = Inr (n, v) \<and> n < 64 \<and> stream_rtell v = i + k + n \<and> 64 dvd stream_rtell v"
proof -
  have "i \<le> 64 * length (bs_mem s)" using assms(2) by simp
  from stream_rseek_ok [OF this assms(1)] obtain t where t: "stream_rseek s i = Inr t" "reading t"
    "bs_mem t = bs_mem s" "stream_rtell t = i" "unread t = drop i (mem_bits (bs_mem s))" by blast
  have "k \<le> length (unread t)" using assms(2) t(5) by simp
  from stream_skip_ok [OF t(2) this] obtain u where u: "stream_skip t k = Inr u" "reading u"
    "stream_rtell u = i + k" "unread u = drop (i + k) (mem_bits (bs_mem s))"
    using t(4,5) by (auto simp: add.commute)
  obtain v where v: "stream_align u = Inr (bs_bits u, v)" "reading v" "bs_bits v = 0" "bs_ptr v = bs_ptr u"
    "unread v = drop (bs_bits u) (unread u)"
    using stream_align_ok [OF u(2)] by blast
  have "stream_rtell v = 64 * bs_ptr u" "stream_rtell u = 64 * bs_ptr u - bs_bits u" "bs_bits u < 64"
    "bs_bits u \<le> 64 * bs_ptr u"
    using u(2) v(2,3,4) by (simp_all add: reading_def bs_ok_def stream_rtell_eq)
  with t u v(1) show ?thesis by (intro exI [of _ t] exI [of _ u] exI [of _ "bs_bits u"] exI [of _ v]) simp
qed

theorem stream_positions_witness:
  "\<exists>t u n v. stream_rseek (empty_stream 3) 70 = Inr t \<and> stream_skip t 30 = Inr u \<and> stream_rtell u = 100 \<and>
    stream_align u = Inr (n, v) \<and> n < 64 \<and> stream_rtell v = 100 + n \<and> 64 dvd stream_rtell v"
  using stream_positions [of "empty_stream 3" 70 30] by auto

section \<open>Fields, parameters and headers of zfp\<close>

text \<open>C22.
  The 52-bit description of a field is read back by \<^verbatim>\<open>zfp_field_set_metadata\<close>: type and sizes are those of
  the field, the strides are cleared, and the pointer is left alone.
\<close>

theorem field_metadata_roundtrip:
  assumes "meta_fits f"
  shows "zfp_field_metadata f \<noteq> ZFP_META_NULL \<and> drop_bit 52 (zfp_field_metadata f) = 0 \<and>
    zfp_field_set_metadata g (zfp_field_metadata f) = (True, described f g)"
  using assms by (rule metadata_roundtrip)

text \<open>For the witnesses: a field of 100 times 50 double precision numbers.\<close>

definition sample_field :: zfp_field where
  "sample_field = \<lparr>fd_type = zfp_type_double, nx = 100, ny = 50, nz = 0, nw = 0, sx = 1, sy = 100, sz = 0, sw = 0,
     fd_data = 0\<rparr>"

lemma sample_field_fits: "meta_fits sample_field"
  by (simp add: meta_fits_def sample_field_def zfp_field_dimensionality_def)

theorem field_metadata_roundtrip_witness:
  "zfp_field_set_metadata sample_field (zfp_field_metadata sample_field) =
     (True, sample_field\<lparr>sx := 0, sy := 0\<rparr>)"
  using field_metadata_roundtrip [OF sample_field_fits, of sample_field]
  by (simp add: described_def sample_field_def zfp_field_dimensionality_def)

text \<open>
  A field with a size that the description has no room for, 24 bits in two dimensions, 16 in three and 12 in
  four, is refused with \<^verbatim>\<open>ZFP_META_NULL\<close>.
\<close>

theorem field_metadata_overflow:
  assumes "fd_type f \<noteq> zfp_type_none" and "zfp_field_dimensionality f \<noteq> 0" and "\<not> meta_fits f"
  shows "zfp_field_metadata f = ZFP_META_NULL"
  using assms by (rule metadata_overflow)

theorem field_metadata_overflow_witness:
  "zfp_field_metadata (sample_field\<lparr>nx := 0x1000001\<rparr>) = ZFP_META_NULL"
  by (rule field_metadata_overflow)
    (simp_all add: sample_field_def zfp_field_dimensionality_def meta_fits_def)

text \<open>C23.
  \<^verbatim>\<open>zfp_stream_set_mode\<close> reads back the number that \<^verbatim>\<open>zfp_stream_mode\<close> gives for a valid configuration: the
  four parameters are those of the stream, up to the limits that do not matter in a mode with a 12-bit
  number, and the mode is theirs.
\<close>

theorem stream_mode_roundtrip:
  assumes "mode_encodable z"
  shows "zfp_stream_set_mode y (zfp_stream_mode z) = (zfp_stream_compression_mode (mode_canonical z),
    y\<lparr>minbits := minbits (mode_canonical z), maxbits := maxbits (mode_canonical z),
      maxprec := maxprec (mode_canonical z), minexp := minexp (mode_canonical z)\<rparr>)"
  using assms by (rule set_mode_roundtrip)

text \<open>For the witnesses: a stream in reversible mode over \<open>n\<close> words.\<close>

definition sample_stream :: "nat \<Rightarrow> zfp_stream" where
  "sample_stream n = zfp_stream_set_reversible (the (zfp_stream_open True 0 0 (empty_stream n)))"

lemma sample_stream_simps [simp]:
  "zs_bits (sample_stream n) = empty_stream n" "policy (sample_stream n) = zfp_exec_serial"
  "minbits (sample_stream n) = 1" "maxbits (sample_stream n) = 16657" "maxprec (sample_stream n) = 64"
  "minexp (sample_stream n) = - 1075" "rev_mode (sample_stream n)"
  by (simp_all add: sample_stream_def zfp_stream_open_def zfp_stream_set_reversible_def rev_mode_def)

lemma sample_stream_mode:
  "zfp_stream_compression_mode (sample_stream n) = zfp_mode_reversible" "mode_encodable (sample_stream n)"
  "mode_canonical (sample_stream n) = sample_stream n" "zfp_stream_mode (sample_stream n) = 2176"
proof -
  show 1: "zfp_stream_compression_mode (sample_stream n) = zfp_mode_reversible"
    by (simp add: zfp_stream_compression_mode_def)
  show "mode_encodable (sample_stream n)" by (simp add: mode_encodable_def 1)
  show "mode_canonical (sample_stream n) = sample_stream n"
    by (simp add: mode_canonical_def 1)
  show "zfp_stream_mode (sample_stream n) = 2176" by (simp add: zfp_stream_mode_def 1)
qed

theorem stream_mode_roundtrip_witness:
  "zfp_stream_set_mode (zfp_stream_set_reversible (sample_stream 1)) (zfp_stream_mode (sample_stream 4)) =
     (zfp_mode_reversible, sample_stream 1)"
  using stream_mode_roundtrip [OF sample_stream_mode(2), of "zfp_stream_set_reversible (sample_stream 1)" 4]
  by (simp add: sample_stream_mode) (simp add: sample_stream_def zfp_stream_set_reversible_def)

text \<open>C24.
  A header written by \<^verbatim>\<open>zfp_write_header\<close>, flushed and rewound, is accepted by \<^verbatim>\<open>zfp_read_header\<close> with the
  same mask, and both return the same number of bits: the reader's field has the type and sizes of the
  writer's, and its stream the writer's parameters, for every mask of magic, description and mode.
\<close>

theorem header_roundtrip:
  assumes "bs_ok (zs_bits z)" and "written (zs_bits z) = []" and "64 * length (bs_mem (zs_bits z)) < 2 ^ 64"
    and "148 \<le> room (zs_bits z)" and "meta_fits f" and "mode_encodable z"
  shows "\<exists>n z' k z'' y. zfp_write_header z f m = Inr (n, z') \<and> zfp_stream_flush z' = Inr (k, z'') \<and>
    zfp_read_header (zfp_stream_rewind z'') g m =
      Inr (n, (if header_mode m then with_params (mode_canonical z) else id) y,
        if header_meta m then described f g else g)"
proof -
  let ?n = "sum_list (List.map snd (header_fields z f m))"
  have "?n \<le> 148" by (simp add: header_fields_def)
  with assms(4) have n: "?n \<le> room (zs_bits z)" by linarith
  have "bs_ptr (zs_bits z) \<le> length (bs_mem (zs_bits z))" using assms(1) by (simp add: bs_ok_def)
  from length_written [OF this] assms(2) have r: "room (zs_bits z) = 64 * length (bs_mem (zs_bits z))"
    by (simp add: room_def)
  obtain s where s: "zfp_write_header z f m = Inr (?n, z\<lparr>zs_bits := s\<rparr>)" "bs_ok s"
    "written s = bits_of (header_fields z f m)" "room s + ?n = 64 * length (bs_mem (zs_bits z))"
    using write_header_ok [OF assms(1,5) n] assms(2) r by auto
  obtain k i u where u: "stream_flush s = Inr (i, u)"
    "unread (stream_rewind u) = bits_of (header_fields z f m) @ replicate k False @ mem_bits (drop (bs_ptr u) (bs_mem u))"
    using flush_code [OF s(2,3) _ assms(3)] s(4) by (auto simp: length_bits_of)
  let ?y = "zfp_stream_rewind (z\<lparr>zs_bits := u\<rparr>)"
  have y: "zs_bits ?y = stream_rewind u" "bs_ok (zs_bits ?y)" by (simp_all add: zfp_stream_rewind_def)
  obtain t where t: "zfp_read_header ?y g m = Inr (?n,
      (if header_mode m then with_params (mode_canonical z) else id) (?y\<lparr>zs_bits := t\<rparr>),
      if header_meta m then described f g else g)"
    using read_header_ok [of ?y m f z _ g, OF y(2)] assms(5,6) u(2) y(1) by auto
  have "zfp_stream_flush (z\<lparr>zs_bits := s\<rparr>) = Inr (i, z\<lparr>zs_bits := u\<rparr>)"
    using u(1) by (simp add: zfp_stream_flush_def)
  with s(1) t show ?thesis by blast
qed

theorem header_roundtrip_witness:
  "\<exists>n z' k z'' y. zfp_write_header (sample_stream 3) sample_field 7 = Inr (n, z') \<and>
    zfp_stream_flush z' = Inr (k, z'') \<and>
    zfp_read_header (zfp_stream_rewind z'') (sample_field\<lparr>nx := 0\<rparr>) 7 =
      Inr (n, with_params (sample_stream 3) y, sample_field\<lparr>sx := 0, sy := 0\<rparr>)"
  using header_roundtrip [of "sample_stream 3" sample_field 7 "sample_field\<lparr>nx := 0\<rparr>"]
    sample_field_fits sample_stream_mode
  by (simp add: described_def sample_field_def zfp_field_dimensionality_def)

text \<open>C25.
  \<^verbatim>\<open>zfp_stream_maximum_size\<close> is the size in bytes of the largest header and all blocks of the field at the
  bound per block, rounded up to whole words, as long as this fits in 64 bits and no size is so near to \<open>2 ^ 32\<close>
  that rounding it up to a multiple of four overflows.
\<close>

theorem maximum_size_exact:
  assumes "zfp_field_dimensionality f \<noteq> 0" and "fd_type f \<noteq> zfp_type_none"
    and "\<forall>n \<in> {nx f, ny f, nz f, nw f}. unat n \<le> 4294967292"
    and "148 + field_blocks f * unat (block_maxbits z f) + 63 < 2 ^ 64"
    and "0 < unat (block_maxbits z f)"
  shows "unat (zfp_stream_maximum_size z f) =
    8 * ((148 + field_blocks f * unat (block_maxbits z f) + 63) div 64)"
  using assms by (rule maximum_size_eq)

theorem maximum_size_exact_witness:
  "unat (zfp_stream_maximum_size (sample_stream 1) sample_field) = 8 * ((148 + 325 * 1057 + 63) div 64)"
proof -
  have "unat (block_maxbits (sample_stream 1) sample_field) = 1057"
    by (simp add: block_maxbits_def sample_field_def zfp_field_dimensionality_def is_reversible_def Let_def
        min_def max_def word_le_nat_alt)
  moreover have "field_blocks sample_field = 325" by (simp add: field_blocks_def sample_field_def)
  ultimately show ?thesis
    using maximum_size_exact [of sample_field "sample_stream 1"]
    by (simp add: sample_field_def zfp_field_dimensionality_def)
qed

text \<open>C26.
  In reversible mode the bound per block leaves out the bits that tell the precision of a block of integers: a
  block of four 32-bit integers takes 136 bits where the bound has 132, and the 60 blocks of a field of 240
  integers that are all of this kind, 8160 bits, have no room in the size that \<^verbatim>\<open>zfp_stream_maximum_size\<close>
  says is enough for the field and a header.
\<close>

theorem maximum_size_too_small:
  assumes "rev_mode z" and "bs_ok (zs_bits z)" and "16657 \<le> room (zs_bits z)"
    and "f = the (zfp_field_1d True p zfp_type_int32 240)"
  shows "\<exists>b s. length b = 4 \<and> zfp_encode_block 1 (0xAAAAAAAA :: u32) 5 z b = Inr (136, z\<lparr>zs_bits := s\<rparr>) \<and>
    unat (block_maxbits z f) = 132 \<and> 8 * unat (zfp_stream_maximum_size z f) < 60 * 136"
proof -
  have z: "maxprec z = 64" "maxbits z = 16657" "minbits z = 1"
    using assms(1) by (cases z; simp add: rev_mode_def zfp_stream_set_reversible_def)+
  have m: "unat (block_maxbits z f) = 132"
    by (simp add: block_maxbits_def assms(4) zfp_field_1d_def zfp_field_alloc_def zfp_field_dimensionality_def z
        Let_def min_def max_def word_le_nat_alt)
  have b: "field_blocks f = 60" by (simp add: field_blocks_def assms(4) zfp_field_1d_def zfp_field_alloc_def)
  have "unat (zfp_stream_maximum_size z f) = 8 * ((148 + field_blocks f * unat (block_maxbits z f) + 63) div 64)"
    by (rule maximum_size_eq)
      (simp_all add: m b, simp_all add: assms(4) zfp_field_1d_def zfp_field_alloc_def zfp_field_dimensionality_def)
  then have "8 * unat (zfp_stream_maximum_size z f) < 60 * 136" by (simp add: m b)
  moreover have "length worst_block = 4" by (simp add: worst_block_def)
  ultimately show ?thesis using worst_block_bits [OF assms(1-3)] m by blast
qed

theorem maximum_size_too_small_witness:
  "\<exists>b s. length b = 4 \<and> zfp_encode_block 1 (0xAAAAAAAA :: u32) 5 (sample_stream 300) b =
      Inr (136, sample_stream 300\<lparr>zs_bits := s\<rparr>)"
proof -
  have "16657 \<le> room (zs_bits (sample_stream 300))" by simp
  from maximum_size_too_small [OF _ _ this refl, of 0] show ?thesis by auto
qed

section \<open>Blocks of zfp\<close>

text \<open>
  Demoting inverts promoting, block by block: what \<^verbatim>\<open>zfp_promote_int8_to_int32\<close> and its three siblings made
  of the samples of a block, the demoting functions clamp back to the same samples.
\<close>

theorem promote_demote_roundtrip:
  fixes xs ob8 :: "u8 list" and ys ob16 :: "u16 list"
  assumes "block_count d \<le> length xs" "block_count d \<le> length ys" "block_count d \<le> length ob"
    and "block_count d \<le> length ob8" "block_count d \<le> length ob16"
  shows "\<exists>a b c e. zfp_promote_int8_to_int32 ob xs d = Inr a \<and>
      zfp_demote_int32_to_int8 ob8 a d = Inr (take (block_count d) xs @ drop (block_count d) ob8) \<and>
    zfp_promote_uint8_to_int32 ob xs d = Inr b \<and>
      zfp_demote_int32_to_uint8 ob8 b d = Inr (take (block_count d) xs @ drop (block_count d) ob8) \<and>
    zfp_promote_int16_to_int32 ob ys d = Inr c \<and>
      zfp_demote_int32_to_int16 ob16 c d = Inr (take (block_count d) ys @ drop (block_count d) ob16) \<and>
    zfp_promote_uint16_to_int32 ob ys d = Inr e \<and>
      zfp_demote_int32_to_uint16 ob16 e d = Inr (take (block_count d) ys @ drop (block_count d) ob16)"
  using promote_demote_blocks [OF assms] by blast

theorem promote_demote_roundtrip_witness:
  "\<exists>a. zfp_promote_int8_to_int32 [0, 0, 0, 0] [0x80, 0x7F, 0xFF, 1] 1 = Inr a \<and>
    zfp_demote_int32_to_int8 [0, 0, 0, 0] a 1 = Inr [0x80, 0x7F, 0xFF, 1]"
  using promote_demote_roundtrip [of 1 "[0x80, 0x7F, 0xFF, 1]" "[0, 0, 0, 0]" "[0, 0, 0, 0]" "[0, 0, 0, 0]" "[0, 0, 0, 0]"]
  by (auto simp: block_count_def)

text \<open>C27.
  \<^verbatim>\<open>decode_ints\<close> inverts \<^verbatim>\<open>encode_ints\<close>: with a budget for all bits of the coded planes, encoding up to 64
  integers appends a code from which decoding, wherever the code stands in a stream, gives the integers
  without the bit planes below the precision, takes exactly the code's bits, and reports their number.
\<close>

theorem coded_planes_roundtrip:
  fixes xs :: "'a::len word list"
  assumes "0 < length xs" and "length xs \<le> 64" and "bs_ok s"
    and "(prec + 1) * length xs \<le> k" and "(prec + 1) * length xs \<le> room s"
  shows "\<exists>c t. encode_ints s k prec xs (length xs) = Inr (length c, t) \<and> written t = written s @ c \<and>
    (\<forall>u rest ys. bs_ok u \<and> unread u = c @ rest \<and> length ys = length xs \<longrightarrow>
      (\<exists>v. decode_ints u k prec ys (length xs) = Inr (length c, keep_from (LENGTH('a) - prec) xs, v) \<and>
        unread v = rest))"
proof -
  let ?c = "plane_code prec xs"
  have "length ?c \<le> min prec LENGTH('a) * length xs + length xs" by (rule plane_code_length)
  also have "\<dots> \<le> (prec + 1) * length xs" by (simp add: mult_le_mono1)
  finally have l: "length ?c \<le> k" "length ?c \<le> room s" using assms(4,5) by linarith+
  obtain t where t: "encode_ints s k prec xs (length xs) = Inr (length ?c, t)" "written t = written s @ ?c"
    using encode_ints_ok [OF assms(1-3) l] by blast
  have "\<exists>v. decode_ints u k prec ys (length xs) = Inr (length ?c, keep_from (LENGTH('a) - prec) xs, v) \<and>
      unread v = rest" if "bs_ok u" "unread u = ?c @ rest" "length ys = length xs" for u rest ys
    using decode_ints_ok [OF assms(1,2) that(1,3) l(1) that(2)] by blast
  with t show ?thesis by blast
qed

theorem coded_planes_roundtrip_witness:
  "\<exists>c t. encode_ints (empty_stream 4) 132 32 [3, 1, 0, 0xFFFFFFFF :: u32] 4 = Inr (length c, t) \<and> written t = c \<and>
    (\<forall>u. bs_ok u \<and> unread u = c \<longrightarrow>
      (\<exists>v. decode_ints u 132 32 [0, 0, 0, 0] 4 = Inr (length c, [3, 1, 0, 0xFFFFFFFF :: u32], v)))"
proof -
  have l: "length [3, 1, 0, 0xFFFFFFFF :: u32] = 4" by simp
  obtain c t where c: "encode_ints (empty_stream 4) 132 32 [3, 1, 0, 0xFFFFFFFF :: u32] 4 = Inr (length c, t)" "written t = c"
    "\<And>u rest ys. bs_ok u \<Longrightarrow> unread u = c @ rest \<Longrightarrow> length ys = 4 \<Longrightarrow>
      \<exists>v. decode_ints u 132 32 ys 4 = Inr (length c, [3, 1, 0, 0xFFFFFFFF :: u32], v) \<and> unread v = rest"
    using coded_planes_roundtrip [of "[3, 1, 0, 0xFFFFFFFF :: u32]" "empty_stream 4" 32 132, unfolded l] by auto
  have "\<exists>v. decode_ints u 132 32 [0, 0, 0, 0] 4 = Inr (length c, [3, 1, 0, 0xFFFFFFFF :: u32], v)"
    if "bs_ok u" "unread u = c" for u
    using c(3) [of u "[]" "[0, 0, 0, 0]"] that by auto
  with c(1,2) show ?thesis by blast
qed

text \<open>
  \<^verbatim>\<open>rev_precision\<close> ends on every block and gives the least number of bit planes, counted from the most
  significant one, that leaves no bit of the block behind: shifted up by so many bits, all integers vanish,
  and by one bit less, some integer does not.
\<close>

theorem rev_precision_least:
  fixes b :: "'a::len word list"
  assumes "LENGTH('a) = 2 ^ j"
  shows "\<exists>q \<le> LENGTH('a). rev_precision b = Inr q \<and> (\<forall>w \<in> set b. push_bit q w = 0) \<and>
    (q = 0 \<or> (\<exists>w \<in> set b. push_bit (q - 1) w \<noteq> 0))"
  using assms by (rule rev_precision_ok)

theorem rev_precision_least_witness:
  "\<exists>q \<le> 32. rev_precision [0x30000000, 0x40000000 :: u32] = Inr q \<and> push_bit q (0x30000000 :: u32) = 0"
  using rev_precision_least [where 'a = 32 and j = 5 and b = "[0x30000000, 0x40000000]"] by auto

text \<open>C28.
  The reversible coder of a block is lossless: in reversible mode, \<^verbatim>\<open>zfp_encode_block\<close> on a stream with room
  for the largest block appends a code from which \<^verbatim>\<open>zfp_decode_block\<close> gives back the same integers,
  wherever the code stands in a stream in reversible mode, and takes exactly the bits of the code.
\<close>

theorem reversible_block_lossless:
  fixes b :: "'a::len word list"
  assumes "d \<in> {1, 2, 3, 4}" and "length b = BLOCK_SIZE d" and "LENGTH('a) = 2 ^ pbits" and "pbits \<le> 6"
  shows "\<exists>c. length c \<le> 16657 \<and>
    (\<forall>z. rev_mode z \<and> bs_ok (zs_bits z) \<and> 16657 \<le> room (zs_bits z) \<longrightarrow>
      (\<exists>s. zfp_encode_block d nb pbits z b = Inr (int (length c), z\<lparr>zs_bits := s\<rparr>) \<and>
        written s = written (zs_bits z) @ c)) \<and>
    (\<forall>z b' rest. rev_mode z \<and> reading (zs_bits z) \<and> length b' = BLOCK_SIZE d \<and> unread (zs_bits z) = c @ rest \<longrightarrow>
      (\<exists>s. zfp_decode_block d nb pbits z b' = Inr (int (length c), b, z\<lparr>zs_bits := s\<rparr>) \<and> unread s = rest))"
proof -
  obtain c where c: "codes d nb pbits b c" using reversible_codes [OF assms] by blast
  have r: "z = zfp_stream_set_reversible z" if "rev_mode z" for z using that by (simp add: rev_mode_def)
  have "\<exists>s. zfp_encode_block d nb pbits z b = Inr (int (length c), z\<lparr>zs_bits := s\<rparr>) \<and>
      written s = written (zs_bits z) @ c"
    if z: "rev_mode z" "bs_ok (zs_bits z)" "16657 \<le> room (zs_bits z)" for z
    using c r [OF z(1)] z(2,3) unfolding codes_def by blast
  moreover have "\<exists>s. zfp_decode_block d nb pbits z b' = Inr (int (length c), b, z\<lparr>zs_bits := s\<rparr>) \<and> unread s = rest"
    if z: "rev_mode z" "reading (zs_bits z)" "length b' = BLOCK_SIZE d" "unread (zs_bits z) = c @ rest" for z b' rest
    using c r [OF z(1)] z(2-4) unfolding codes_def by blast
  moreover have "length c \<le> 16657" using c by (simp add: codes_def)
  ultimately show ?thesis by (intro exI [of _ c]) simp
qed

theorem reversible_block_lossless_witness:
  "\<exists>c s. zfp_encode_block 1 (0xAAAAAAAA :: u32) 5 (sample_stream 261) [1, 2, 0, 0xFFFFFFFF] =
    Inr (int (length c), sample_stream 261\<lparr>zs_bits := s\<rparr>) \<and> written s = c"
proof -
  have "length [1, 2, 0, 0xFFFFFFFF :: u32] = BLOCK_SIZE 1" "1 \<in> {1, 2, 3, 4 :: nat}" "LENGTH(32) = 2 ^ 5"
    by (simp_all add: BLOCK_SIZE_def)
  from reversible_block_lossless [where 'a = 32, OF this(2,1,3), of "0xAAAAAAAA"] obtain c where
    c: "\<And>z. rev_mode z \<Longrightarrow> bs_ok (zs_bits z) \<Longrightarrow> 16657 \<le> room (zs_bits z) \<Longrightarrow>
      \<exists>s. zfp_encode_block 1 0xAAAAAAAA 5 z [1, 2, 0, 0xFFFFFFFF :: u32] = Inr (int (length c), z\<lparr>zs_bits := s\<rparr>) \<and>
        written s = written (zs_bits z) @ c" by auto
  from c [of "sample_stream 261"] show ?thesis by auto
qed

text \<open>C29.
  The ordinary coder loses, at full precision and with a budget for all planes, exactly what its transform
  loses: decoding the code of a block gives the inverse transform of its forward transform.
\<close>

theorem ordinary_block_loss:
  fixes b :: "'a::len word list"
  assumes d: "d \<in> {1, 2, 3, 4}" "length b = BLOCK_SIZE d" and s: "bs_ok s" "nat hi \<le> room s"
    and lim: "int LENGTH('a) \<le> mp" "mp < 2 ^ 31" "lo \<le> hi" "hi < 2 ^ 31"
      "int ((LENGTH('a) + 1) * BLOCK_SIZE d) \<le> hi"
  shows "\<exists>c e t x. encode_block d nb s lo hi mp b = Inr (int (length e), t) \<and> written t = written s @ e \<and>
    fwd_xform d b = Inr c \<and> inv_xform d c = Inr x \<and>
    (\<forall>u rest b'. reading u \<and> unread u = e @ rest \<and> length b' = BLOCK_SIZE d \<longrightarrow>
      (\<exists>v. decode_block d nb u lo hi mp b' = Inr (int (length e), x, v) \<and> unread v = rest))"
proof -
  obtain c where c: "fwd_xform d b = Inr c" "length c = BLOCK_SIZE d"
    using fwd_lines_ok(1) [OF d, of fwd_vec] d(2) unfolding fwd_xform_def by auto
  obtain x where x: "inv_xform d c = Inr x"
    using fwd_lines_ok(2) [OF d(1) c(2), of inv_vec] unfolding inv_xform_def by auto
  obtain u where u: "fwd_order nb c (take (BLOCK_SIZE d) (PERM d)) = Inr u" "length u = BLOCK_SIZE d"
    using order_roundtrip [OF d(1) c(2) c(2)] by blast
  let ?e = "block_code lo mp u"
  obtain t where t: "encode_block d nb s lo hi mp b = Inr (int (length ?e), t)" "written t = written s @ ?e"
    using encode_block_ok [OF d s(1) lim s(2) c(1) u] by blast
  have "\<exists>w. decode_block d nb v lo hi mp b' = Inr (int (length ?e), x, w) \<and> unread w = rest"
    if "reading v" "unread v = ?e @ rest" "length b' = BLOCK_SIZE d" for v rest b'
    using decode_block_ok [OF d(1) that(3) c(2) that(1) lim u(1) that(2) x] by blast
  with t c(1) x show ?thesis by blast
qed

theorem ordinary_block_loss_witness:
  "\<exists>e t. encode_block 1 (0xAAAAAAAA :: u32) (empty_stream 261) 1 16657 64 [1, 2, 3, 4] = Inr (int (length e), t) \<and>
    written t = e"
  using ordinary_block_loss [of 1 "[1, 2, 3, 4 :: u32]" "empty_stream 261" 16657 64 1 "0xAAAAAAAA"]
  by (auto simp: BLOCK_SIZE_def)

text \<open>C30.
  The reversible coder of a block of floating-point numbers gives the numbers back bit by bit: in one to four
  dimensions for single precision and up to three for double precision, for all blocks of numbers that are
  zero or not too tiny to be scaled, whether the block is all zeros, is scaled to integers, or has its bits coded as
  integers; negative zeros and subnormal numbers of other scale do not matter.
\<close>

theorem reversible_float_block_lossless:
  fixes p :: "'a::len word list"
  assumes "ieee eb TYPE('a)" and "LENGTH('a) = 2 ^ pbits" and "pbits \<le> 6" and "d \<in> {1, 2, 3, 4}" and "d \<le> 3 \<or> eb = 8"
    and "length p = BLOCK_SIZE d" and "\<forall>x\<in>set p. scalable eb x"
  shows "\<exists>c. length c \<le> 16657 \<and>
    (\<forall>z. rev_mode z \<and> bs_ok (zs_bits z) \<and> 16657 \<le> room (zs_bits z) \<longrightarrow>
      (\<exists>n s. zfp_encode_fblock d eb nb pbits z p = Inr (n, z\<lparr>zs_bits := s\<rparr>) \<and>
        written s = written (zs_bits z) @ c)) \<and>
    (\<forall>z b rest. rev_mode z \<and> reading (zs_bits z) \<and> length b = length p \<and> unread (zs_bits z) = c @ rest \<longrightarrow>
      (\<exists>n s. zfp_decode_fblock d eb nb pbits z b = Inr (n, p, z\<lparr>zs_bits := s\<rparr>) \<and> unread s = rest))"
proof -
  obtain c where "length c \<le> float_cap TYPE('a) eb pbits d" "float_cap TYPE('a) eb pbits d \<le> 16657"
    and c: "carries (zfp_encode_fblock d eb nb pbits) (zfp_decode_fblock d eb nb pbits) p c"
    using fblock_carried [OF assms] by blast
  then have len: "length c \<le> 16657" by linarith
  note c = c [unfolded carries_def]
  have "\<exists>n s. zfp_encode_fblock d eb nb pbits z p = Inr (n, z\<lparr>zs_bits := s\<rparr>) \<and> written s = written (zs_bits z) @ c"
    if "rev_mode z" "bs_ok (zs_bits z)" "16657 \<le> room (zs_bits z)" for z
    using c that(1,2) order_trans [OF len that(3)] by blast
  moreover have "\<exists>n s. zfp_decode_fblock d eb nb pbits z b = Inr (n, p, z\<lparr>zs_bits := s\<rparr>) \<and> unread s = rest"
    if "rev_mode z" "reading (zs_bits z)" "length b = length p" "unread (zs_bits z) = c @ rest" for z b rest
    using c that by blast
  ultimately show ?thesis using len by (intro exI [of _ c]) simp
qed

text \<open>For the witnesses: one, minus two, zero and one half in single precision; and four of the least normal number.\<close>

definition sample_floats :: "u32 list" where
  "sample_floats = [0x3F800000, 0xC0000000, 0, 0x3F000000]"

definition tiny_floats :: "u32 list" where
  "tiny_floats = replicate 4 0x00800000"

lemma sample_floats_scalable: "\<forall>x\<in>set sample_floats. scalable 8 x"
  by (simp add: sample_floats_def scalable_def fval_of_def sig_bits_def EBIAS_def pow2_def)

theorem reversible_float_block_lossless_witness:
  "\<exists>c n s. zfp_encode_fblock 1 8 0xAAAAAAAA 5 (sample_stream 261) sample_floats =
      Inr (n, sample_stream 261\<lparr>zs_bits := s\<rparr>) \<and> written s = c"
proof -
  have "ieee 8 TYPE(32)" "LENGTH(32) = 2 ^ 5" "length sample_floats = BLOCK_SIZE 1"
    by (simp_all add: ieee_def sample_floats_def BLOCK_SIZE_def)
  from reversible_float_block_lossless [where 'a = 32, OF this(1,2) _ _ _ this(3) sample_floats_scalable, of "0xAAAAAAAA"]
  obtain c where c: "\<And>z. rev_mode z \<Longrightarrow> bs_ok (zs_bits z) \<Longrightarrow> 16657 \<le> room (zs_bits z) \<Longrightarrow>
      \<exists>n s. zfp_encode_fblock 1 8 0xAAAAAAAA 5 z sample_floats = Inr (n, z\<lparr>zs_bits := s\<rparr>) \<and>
        written s = written (zs_bits z) @ c" by auto
  from c [of "sample_stream 261"] show ?thesis by auto
qed

text \<open>C31.
  A block of floating-point numbers with an infinity, or one that is not zero but so tiny that the power of two
  that would scale it overflows (all magnitudes below \<open>2\<^sup>-\<^sup>9\<^sup>8\<close> in single precision), has no defined code: the
  encoder converts an infinite product to an integer, or takes the exponent of an infinity.
\<close>

theorem float_block_undefined:
  fixes p :: "'a::len word list"
  assumes "ieee eb TYPE('a)" and "unscalable eb p" and "is_reversible z" and "length p = BLOCK_SIZE d"
  shows "zfp_encode_fblock d eb nb pbits z p = Inl Undefined"
  using assms by (rule unscalable_block)

theorem float_block_undefined_witness:
  "zfp_encode_fblock 1 8 0xAAAAAAAA 5 (sample_stream 261) tiny_floats = Inl Undefined"
proof -
  have "ieee 8 TYPE(32)" "length tiny_floats = BLOCK_SIZE 1" by (simp_all add: ieee_def tiny_floats_def BLOCK_SIZE_def)
  moreover have "fval_of 8 (0x00800000 :: u32) = Fin False (pow2 (- 126))"
    by (simp add: fval_of_def sig_bits_def EBIAS_def pow2_def)
  then have "unscalable 8 tiny_floats" 
    by (simp add: tiny_floats_def unscalable_def EBIAS_def)
      (simp add: pow2_def, rule exI [of Not False], simp)
  moreover have "is_reversible (sample_stream 261)"
    by (simp add: sample_stream_def is_reversible_def zfp_stream_set_reversible_def)
  ultimately show ?thesis by (intro float_block_undefined)
qed

section \<open>Arrays\<close>

text \<open>C32.
  \<^verbatim>\<open>zfp_decompress\<close> inverts \<^verbatim>\<open>zfp_compress\<close> in reversible mode: for every field of 32- or 64-bit integers or of single
  precision numbers in one to four dimensions, or of doubles in up to three, with any sizes up to \<open>2 ^ 32 - 4\<close>, any
  strides and any position that lie in the array, where the increments between the rows and layers of full blocks
  (\<^verbatim>\<open>sy - 4 * sx\<close> and so on, in type \<^verbatim>\<open>int\<close>) do not overflow, and with floating-point numbers that are zero or can be
  scaled, compression to an empty stream with room for 16657 bits per block succeeds; after a rewind,
  decompression into an array of the same length puts each element of the field in its place, bit by bit, changes
  nothing else, and returns the same number of bytes.
\<close>

theorem compress_decompress_lossless:
  fixes src :: "'a::len word list"
  assumes "LENGTH('a) = 2 ^ pbits" and "pbits \<le> 6" and "exact_field eb f src"
    and "z = zfp_stream_set_reversible z0" and "policy z = zfp_exec_serial"
    and "bs_ok (zs_bits z)" and "written (zs_bits z) = []" and "64 * length (bs_mem (zs_bits z)) < 2 ^ 64"
    and "16657 * field_blocks f \<le> 64 * length (bs_mem (zs_bits z))"
    and "length m = length src"
  shows "\<exists>n z' z''. zfp_compress eb nb pbits other z f src = Inr (n, z') \<and>
    zfp_decompress eb nb pbits (zfp_stream_rewind z') f m = Inr (n, blend src (field_cells f) m, z'')"
  using assms by (rule compress_decompress)

text \<open>For the witness: every second element of seven single precision numbers.\<close>

definition every_second :: zfp_field where
  "every_second = \<lparr>fd_type = zfp_type_float, nx = 4, ny = 0, nz = 0, nw = 0, sx = 2, sy = 0, sz = 0, sw = 0,
     fd_data = 0\<rparr>"

definition spread_floats :: "u32 list" where
  "spread_floats = [0x3F800000, 7, 0xC0000000, 7, 0, 7, 0x3F000000]"

lemma every_second_simps:
  "exact_field 8 every_second spread_floats" "field_blocks every_second = 1"
  "blend spread_floats (field_cells every_second) (replicate 7 1) = [0x3F800000, 1, 0xC0000000, 1, 0, 1, 0x3F000000]"
proof -
  have c: "field_cells every_second = {0, 2, 4, 6}"
  proof -
    have "{..<4 :: nat} = {0, 1, 2, 3}" by auto
    then show ?thesis by (simp add: field_cells_def every_second_def cells_1_def stride_of_def)
  qed
  have "field_fits every_second (length spread_floats)"
    by (simp add: field_fits_def every_second_def fits_1_def stride_of_def spread_floats_def)
  moreover have "\<forall>i\<in>{0, 2, 4, 6}. scalable 8 (spread_floats ! i)"
    using sample_floats_scalable by (simp add: sample_floats_def spread_floats_def)
  ultimately show "exact_field 8 every_second spread_floats"
    unfolding exact_field_def c by (simp add: every_second_def scalar_type_def exact_scalar_def)
  show "field_blocks every_second = 1" by (simp add: field_blocks_def every_second_def)
  show "blend spread_floats (field_cells every_second) (replicate 7 1) = [0x3F800000, 1, 0xC0000000, 1, 0, 1, 0x3F000000]"
    unfolding c by code_simp
qed

theorem compress_decompress_lossless_witness:
  "\<exists>n z' z''. zfp_compress 8 0xAAAAAAAA 5 (\<lambda>_ _ _ _. None) (sample_stream 261) every_second spread_floats = Inr (n, z') \<and>
    zfp_decompress 8 (0xAAAAAAAA :: u32) 5 (zfp_stream_rewind z') every_second (replicate 7 1) =
      Inr (n, [0x3F800000, 1, 0xC0000000, 1, 0, 1, 0x3F000000], z'')"
proof -
  have l: "LENGTH(32) = 2 ^ 5" "(5 :: nat) \<le> 6" "length (replicate 7 (1 :: u32)) = length spread_floats"
    "16657 * field_blocks every_second \<le> 64 * length (bs_mem (zs_bits (sample_stream 261)))"
    by (simp_all only: every_second_simps(2)) (simp_all add: spread_floats_def)
  have z: "sample_stream 261 = zfp_stream_set_reversible (sample_stream 261)"
    by (simp add: sample_stream_def zfp_stream_set_reversible_def)
  show ?thesis
    using compress_decompress_lossless [where 'a = 32, OF l(1,2) every_second_simps(1) z _ _ _ _ l(4,3),
        of "0xAAAAAAAA" "\<lambda>_ _ _ _. None"]
    unfolding every_second_simps(3) by simp
qed

text \<open>C33.
  The increments between the rows of a full block are computed in type \<^verbatim>\<open>int\<close>, those of a partial block are not: where
  four times a stride, or the step from the end of a row to the next row, is too large for \<^verbatim>\<open>int\<close>, \<^verbatim>\<open>gather\<close> and \<^verbatim>\<open>scatter\<close> of a
  block of 4 x 4 elements are undefined although all elements lie in the array, while \<^verbatim>\<open>gather_partial\<close> reads the
  first one to three rows of the same block, and \<^verbatim>\<open>scatter_partial\<close> puts them back where they were.
\<close>

theorem stride_increment_overflow:
  fixes m :: "'a::len word list"
  assumes "\<forall>y<4. fits_1 (p + int y * ty) 4 tx (length m)" and "\<not> int_steps ty tx" and "length q = 16"
    and "1 \<le> ky" and "ky < 4"
  shows "gather_2 m p tx ty = Inl Undefined \<and> scatter_2 q m p tx ty = Inl Undefined \<and>
    (\<exists>q'. gather_partial_2 m p 4 ky tx ty = Inr q' \<and> match_2 q' 0 m p 4 ky tx ty \<and>
      scatter_partial_2 q' m p 4 ky tx ty = Inr m)"
proof (intro conjI)
  have adv: "advance ty tx r = Inl Undefined" for r :: "'a word list \<times> int"
    using assms(2) by (cases r) (auto simp: advance_def int_value_def int_steps_def)
  have f: "fits_1 p 4 tx (length m)" using assms(1) by (auto dest: spec [of _ 0])
  obtain s where "get_row m 4 tx 0 (replicate 16 0, p) = Inr s"
    using get_row_ok [OF f, of 0 "replicate 16 0"] by auto
  then show "gather_2 m p tx ty = Inl Undefined"
    by (simp add: gather_2_def get_rows_def adv loop_fails)
  obtain s where "put_row q 4 tx 0 (m, p) = Inr s" using put_row_returns [OF f, of 0 q] assms(3) by auto
  then show "scatter_2 q m p tx ty = Inl Undefined"
    by (simp add: scatter_2_def put_rows_def adv loop_fails)
  have f2: "fits_2 p 4 ky tx ty (length m)" using assms(1,5) by (simp add: fits_2_def)
  then obtain q' where q': "gather_partial_2 m p 4 ky tx ty = Inr q'" "length q' = 16" "match_2 q' 0 m p 4 ky tx ty"
    using gather_partial_2_ok [of 4 ky p tx ty m] assms(4,5) by auto
  have "scatter_partial_2 q' m p 4 ky tx ty = Inr (blend m (cells_2 p 4 ky tx ty) m)"
    by (rule scatter_partial_ok(2) [OF _ _ f2 q'(3,2)]) (use assms(5) in simp_all)
  with q' show "\<exists>q'. gather_partial_2 m p 4 ky tx ty = Inr q' \<and> match_2 q' 0 m p 4 ky tx ty \<and>
      scatter_partial_2 q' m p 4 ky tx ty = Inr m" by auto
qed

theorem stride_increment_overflow_witness:
  "gather_2 (replicate (3 * 2 ^ 30 + 4) (0 :: u32)) 0 (2 ^ 30) 1 = Inl Undefined \<and>
   (\<exists>q. gather_partial_2 (replicate (3 * 2 ^ 30 + 4) (0 :: u32)) 0 4 3 (2 ^ 30) 1 = Inr q)"
proof -
  have f: "\<forall>y<4. fits_1 (0 + int y * 1) 4 (2 ^ 30) (length (replicate (3 * 2 ^ 30 + 4) (0 :: u32)))"
    unfolding length_replicate by (auto simp: fits_1_def)
  have "\<not> int_steps 1 (2 ^ 30)" by (simp add: int_steps_def)
  from stride_increment_overflow [OF f this, of "replicate 16 0" 3] show ?thesis by auto
qed
text \<open>C34.
  A row of more than \<open>2 ^ 32 - 4\<close> elements is never compressed: the 32-bit counter of the loop over the blocks
  wraps around to zero before it reaches the end, and the function does not return.
\<close>

theorem block_counter_wraps:
  assumes "2 ^ 32 - 4 < unat (nx f)"
  shows "compress_strided_1 enc z f m \<noteq> Inr z'"
proof -
  have "blocks n g x s \<noteq> Inr s'" if n: "2 ^ 32 - 4 < n" and x: "4 dvd x" "x < n" for n g and x :: nat and s s' :: zfp_stream
    using x
  proof (induction "n - x" arbitrary: x s rule: less_induct)
    case less
    show ?case
    proof (cases "x + 4 < 2 ^ 32")
      case True
      obtain j where "x = 4 * j" using less.prems(1) by (rule dvdE)
      with True have "x + 4 \<le> 2 ^ 32 - 4" by simp
      with n have "x + 4 < n" by linarith
      then have "blocks n g (x + 4) t \<noteq> Inr s'" for t using less.prems by (intro less.hyps) simp_all
      with less.prems True show ?thesis by (subst blocks.simps) (auto simp: bind_res_eq_Inr)
    qed (use less.prems in \<open>subst blocks.simps, auto simp: bind_res_eq_Inr\<close>)
  qed
  with assms show ?thesis unfolding compress_strided_1_def Let_def by simp
qed

theorem block_counter_wraps_witness:
  "\<forall>m z'. compress_strided_1 (\<lambda>d. zfp_encode_block d (0xAAAAAAAA :: u32) 5) (sample_stream 1) (every_second\<lparr>nx := 0xFFFFFFFF\<rparr>) m \<noteq> Inr z'"
  by (intro allI block_counter_wraps) (simp add: every_second_def)

text \<open>C35.
  OpenMP makes no difference in reversible mode: for every field that can be coded without loss, every
  number of threads and chunk size that give chunks of at most 24 blocks, and every interleaving of the
  chunks' blocks, \<^verbatim>\<open>zfp_compress\<close> with the OpenMP policy returns the number of bytes that the serial compressor returns, and has
  written the same bytes, behind whatever was in the stream.  The limit of 24 blocks is what the memory of a
  chunk is sure to hold.
\<close>

theorem omp_same_as_serial:
  fixes m :: "'a::len word list"
  assumes "LENGTH('a) = 2 ^ pbits" and "pbits \<le> 6" and "exact_field eb f m" and "field_blocks f \<le> 2 ^ 29"
    and "rev_mode z" and "policy z = zfp_exec_omp" and "bs_ok (zs_bits z)" and "16657 * field_blocks f \<le> room (zs_bits z)"
    and "b = omp_blocks f (zfp_field_dimensionality f)"
    and "unat b \<le> 24 * unat (chunk_count_omp z b (thread_count_omp mt z))" and "mal_ok mal"
  shows "\<exists>n y s. zfp_compress eb nb pbits (omp_entries mt mal sched eb nb pbits) z f m = Inr (n, y) \<and>
    zfp_compress eb nb pbits other (z\<lparr>policy := zfp_exec_serial\<rparr>) f m = Inr (n, s) \<and>
    take (n div 8) (stream_data (zs_bits y)) = take (n div 8) (stream_data (zs_bits s))"
  using assms by (rule omp_compress)

text \<open>For the witness: ten integers, three blocks, and two threads; and memory that is all zero.\<close>

definition ten_integers :: zfp_field where
  "ten_integers = \<lparr>fd_type = zfp_type_int32, nx = 10, ny = 0, nz = 0, nw = 0, sx = 0, sy = 0, sz = 0, sw = 0, fd_data = 0\<rparr>"

definition zero_memory :: "nat \<Rightarrow> nat \<Rightarrow> u64 list option" where
  "zero_memory k n = Some (replicate (n div 8) 0)"

lemma zero_memory_ok: "mal_ok zero_memory"
  by (simp add: mal_ok_def zero_memory_def)

theorem omp_same_as_serial_witness:
  "\<exists>n y s. zfp_compress 8 (0xAAAAAAAA :: u32) 5 (omp_entries 2 zero_memory [1, 0, 1] 8 0xAAAAAAAA 5)
      (sample_stream 800\<lparr>policy := zfp_exec_omp\<rparr>) ten_integers [5, 4, 3, 2, 1, 9, 8, 7, 6, 0] = Inr (n, y) \<and>
    zfp_compress 8 (0xAAAAAAAA :: u32) 5 (\<lambda>_ _ _ _. None) (sample_stream 800) ten_integers [5, 4, 3, 2, 1, 9, 8, 7, 6, 0] = Inr (n, s) \<and>
    take (n div 8) (stream_data (zs_bits y)) = take (n div 8) (stream_data (zs_bits s))"
proof -
  let ?z = "sample_stream 800\<lparr>policy := zfp_exec_omp\<rparr>" and ?m = "[5, 4, 3, 2, 1, 9, 8, 7, 6, 0] :: u32 list"
  have f: "exact_field 8 ten_integers ?m" "field_blocks ten_integers = 3" "zfp_field_dimensionality ten_integers = 1"
    "omp_blocks ten_integers 1 = 3"
    by (simp_all add: exact_field_def scalar_type_def exact_scalar_def ten_integers_def field_fits_def fits_1_def stride_of_def
        field_blocks_def zfp_field_dimensionality_def omp_blocks_def)
  have z: "rev_mode ?z" "policy ?z = zfp_exec_omp" "zs_bits ?z = empty_stream 800" "?z\<lparr>policy := zfp_exec_serial\<rparr> = sample_stream 800"
    by (simp_all add: sample_stream_def zfp_stream_open_def zfp_stream_set_reversible_def rev_mode_def)
  have c: "chunk_count_omp ?z 3 (thread_count_omp 2 ?z) = 2"
    by (simp add: sample_stream_def zfp_stream_open_def zfp_stream_set_reversible_def chunk_count_omp_def thread_count_omp_def)
  show ?thesis
    using omp_same_as_serial [where 'a = 32 and pbits = 5 and nb = "0xAAAAAAAA" and sched = "[1, 0, 1]" and
        other = "\<lambda>_ _ _ _. None", OF _ _ f(1) _ z(1,2) _ _ refl _ zero_memory_ok, of 2]
    unfolding f(2,3,4) z(3,4) c by simp
qed

text \<open>C36.
  Where all blocks have the same number of whole words, the chunks are windows on the stream itself; but if the
  stream is not empty, say after a header of 64 bits, the end of the OpenMP compressor takes the windows for
  memory of their own and frees them: no call of \<^verbatim>\<open>zfp_compress\<close> returns, whatever the field and the interleaving.
\<close>

theorem omp_frees_window:
  assumes "policy z = zfp_exec_omp" and "minbits z = maxbits z" and "maxbits z mod 64 = 0"
    and "stream_wtell (zs_bits z) mod 64 = 0" and "bs_ptr (zs_bits z) \<noteq> 0"
    and "zfp_field_dimensionality f \<noteq> 0" and "fd_type f \<noteq> zfp_type_none" and "mal_ok mal"
  shows "zfp_compress eb nb pbits (omp_entries mt mal sched eb nb pbits) z f m \<noteq> Inr r"
proof -
  have "omp_table mt mal sched enc st dims z f m \<noteq> Inr y" for enc st dims y
    unfolding omp_table_par by (rule compress_par_window) fact+
  with assms show ?thesis
    by (auto simp: zfp_compress_def omp_entries_def Let_def bind_res_eq_Inr)
qed

theorem omp_frees_window_witness:
  "\<forall>r. zfp_compress 8 (0xAAAAAAAA :: u32) 5 (omp_entries 2 zero_memory [0] 8 0xAAAAAAAA 5)
      (sample_stream 800\<lparr>policy := zfp_exec_omp, minbits := 128, maxbits := 128, zs_bits := (empty_stream 800)\<lparr>bs_ptr := 1\<rparr>\<rparr>)
      ten_integers [5, 4, 3, 2, 1, 9, 8, 7, 6, 0] \<noteq> Inr r"
  by (intro allI omp_frees_window zero_memory_ok)
    (simp_all add: empty_stream_def stream_open_def stream_rewind_def stream_wtell_def ten_integers_def zfp_field_dimensionality_def)

section \<open>Video\<close>

text \<open>
  For the witnesses: a table of one intensity, a frame of one pixel, and a decoder whose context counts the frames it
  holds, one for every packet it is sent.
\<close>

definition sample_table :: "rat list" where
  "sample_table = colours (replicate 65 (1 / 2))"

lemma sample_table_ideal: "ideal_table sample_table (replicate 65 (1 / 2))"
  by (simp add: ideal_table_def sample_table_def list_all_iff)

definition sample_frame :: frame where
  "sample_frame = \<lparr>fr_format = AV_PIX_FMT_YUV444P, fr_width = 1, fr_height = 1, fr_data0 = Some [200], fr_linesize0 = 1,
     fr_data1 = Some [255], fr_linesize1 = 1\<rparr>"

definition sample_libav :: "nat libav" where
  "sample_libav = \<lparr>av_malloc = (\<lambda>n. True), alloc_context = (\<lambda>i. Some 0), alloc_packet = (\<lambda>i. True),
     alloc_frame = (\<lambda>i. True), set_crccheck = (\<lambda>c. c), codec_open = (\<lambda>c. (0, c)),
     send_packet = (\<lambda>c data len. (0, Suc c)),
     receive_frame = (\<lambda>c. if c = 0 then (- 11, 0, sample_frame) else (0, c - 1, sample_frame))\<rparr>"

definition sample_viewer :: "nat viewer" where
  "sample_viewer = \<lparr>canvas_buffer = Some [0, 0, 0, 0], canvas_length = 4,
     decoders = \<lparr>avctx = Some [Some 0], avpkt = Some [Some ()], avframe = Some [Some ()]\<rparr>\<rparr>"

text \<open>C37.
  \<^verbatim>\<open>apply_colourmap\<close> in single precision, for any complete tables and any planes that hold the image: it does nothing
  undefined; masked pixels get the fill colour; every other pixel gets, in each channel, the intensity interpolated in the
  table for its (possibly inverted) value, cut to an integer, up to a thousandth; the image is upside down; and nothing
  behind it is changed.
\<close>

theorem colourmap_paints:
  assumes "ideal_table r xr" and "ideal_table g xg" and "ideal_table b xb"
    and "plane_ok luma w h sl" and "plane_ok alpha w h sa" and "4 * (w * h) \<le> length c" and "length c < 2 ^ 32"
  shows "\<exists>c'. apply_colourmap rnd32 (Some c) (int w) (int h) (Some luma) sl (Some alpha) sa invert r g b fill =
      Inr (Some c') \<and> drop (4 * (w * h)) c' = drop (4 * (w * h)) c \<and>
    (\<forall>j < h. \<forall>i < w.
      let a = plane_at alpha sa (h - 1 - j) i; p = pixel_value invert (plane_at luma sl (h - 1 - j) i)
      in if a < 128 then pixel_at w c' i j = [fill, fill, fill, 255]
         else \<exists>R G B. pixel_at w c' i j = [R, G, B, 255] \<and> near_intensity R (ideal_intensity xr p) \<and>
           near_intensity G (ideal_intensity xg p) \<and> near_intensity B (ideal_intensity xb p))"
  using assms by (rule apply_colourmap_near)

theorem colourmap_paints_witness:
  "\<exists>c' R. apply_colourmap rnd32 (Some (replicate 4 0)) 1 1 (Some [200]) 1 (Some [255]) 1 False sample_table sample_table
      sample_table 7 = Inr (Some c') \<and> near_intensity R (255 / 2) \<and> take 1 c' = [R]"
proof -
  have pl: "plane_ok [200] 1 1 1" "plane_ok [255] 1 1 1" by (simp_all add: plane_ok_def)
  have v: "plane_at [255] 1 0 0 = 255" "plane_at [200] 1 0 0 = 200" by (simp_all add: plane_at_def)
  have i: "ideal_intensity (replicate 65 (1 / 2)) 200 = 255 / 2"
    by (simp add: ideal_intensity_def)
  show ?thesis
    using colourmap_paints [OF sample_table_ideal sample_table_ideal sample_table_ideal pl, of "replicate 4 0" False 7]
    by (auto simp: Let_def v i pixel_value_def pixel_at_def take_Suc_conv_app_nth dest: arg_cong [where f = "take 1"])
qed

text \<open>C38.
  The page may call the three entry points of the viewer in any order and as often as it likes, with one number of
  decoders, whatever FFmpeg decodes: a call never reads or writes outside the canvas, the planes of a frame or the arrays,
  does nothing undefined and ends, and the canvas keeps the length the viewer holds for it.
\<close>

theorem viewer_never_fails:
  assumes "alloc_ok la k" and "libav_ok la pending" and "viewer_reaches la junk k v" and "call_ok la k c"
  shows "viewer_ok k v \<and> (\<exists>n v'. run_call n la junk k c v = Some (Inr v') \<and> viewer_ok k v')"
proof -
  have v: "viewer_ok k v" by (rule viewer_reaches_ok [OF assms(1-3)])
  with run_call_ok [OF assms(1,2) v assms(4)] show ?thesis by blast
qed

theorem viewer_never_fails_witness:
  "viewer_reaches sample_libav (\<lambda>i. 0) 1 sample_viewer \<and>
   (\<exists>n v'. run_call n sample_libav (\<lambda>i. 0) 1 (Decode_Frame 1 1 [1, 2, 3] 0 ''hot'' 0) sample_viewer = Some (Inr v') \<and>
     viewer_ok 1 v')"
proof -
  have a: "alloc_ok sample_libav 1" by (simp add: alloc_ok_def sample_libav_def)
  have f: "frame_ok sample_frame" by (simp add: frame_ok_def sample_frame_def plane_ok_def)
  have l: "libav_ok sample_libav (\<lambda>c. c)"
  proof (unfold libav_ok_def, intro allI impI)
    fix c c' fr
    assume "receive_frame sample_libav c = (0, c', fr)"
    then have "c' < c \<and> fr = sample_frame" by (auto simp: sample_libav_def split: if_splits)
    with f show "c' < c \<and> frame_ok fr" by simp
  qed
  have u: "[0..<4] = [0, 1, 2, 3 :: nat]" by (simp add: upt_rec)
  have "run_call 0 sample_libav (\<lambda>i. 0) 1 (Init_Frame 1 1) start_viewer = Some (Inr sample_viewer)"
    by (simp add: hevc_init_frame_def int_mult_def start_viewer_def sample_libav_def sample_viewer_def hevc_init_def
        init_array_def alloc_array_def no_decoders_def set_elem_def store_def open_codec_def elem_def load_def Let_def u)
  then have r: "viewer_reaches sample_libav (\<lambda>i. 0) 1 sample_viewer"
    by (intro viewer_reaches.call [OF viewer_reaches.start, where c = "Init_Frame 1 1" and n = 0]) simp_all
  have "call_ok sample_libav 1 (Decode_Frame 1 1 [1, 2, 3] 0 ''hot'' 0)" by (simp add: sample_libav_def)
  with viewer_never_fails [OF a l r this] r show ?thesis by blast
qed

section \<open>Sessions\<close>

text \<open>C39.
  Progress notifications, with threads that send at the same time, handlers that set the timestamp of a session, and
  connections that come and go in between.  From any reachable state on, and as long as the page itself sends no message that
  sets the timestamp: two messages of one thread to the page are a quarter of a second apart, unless the
  second says that the work is done; and until a quarter of a second after the timestamp, the only such messages are those of
  calls that had found an older timestamp before, at most one of each thread.  (So several threads may send at the same time,
  as the witness shows.)  And a call that gets to a page a quarter of a second after its timestamp, or with the work done, and is not
  interrupted there, sends a message and sets the timestamp.
\<close>

theorem notifications_paced:
  assumes "hub_run (\<lambda>_ _. True) (new_hub n t0) es0 h1" and "hub_run (quiet ws) h1 es h2"
  shows "\<exists>new. hub_sent h2 = new @ hub_sent h1 \<and> spaced ws new \<and>
    (\<forall>s. hub_sessions h1 ws = Some s \<and> hub_clock h2 < us_ts s + 250000000 \<longrightarrow>
      distinct (senders ws new) \<and> set (senders ws new) \<subseteq> cleared_calls h1 ws) \<and>
    (\<forall>i c wss s. hub_calls h2 i = Some c \<and> call_rest c = ws # wss \<and> call_stage c = Looking \<and> ws \<in> hub_sockets h2 \<and>
      hub_sessions h2 ws = Some s \<and> us_active s \<and> (250000000 \<le> hub_clock h2 - us_ts s \<or> call_done c) \<longrightarrow>
      (\<exists>h3. try_run (\<lambda>_ _. True) [Step i, Step i, Step i, Step i, Step i] h2 = Inr h3 \<and>
        hub_sent h3 = (i, ws, hub_clock h2, call_done c) # hub_sent h2 \<and>
        hub_sessions h3 ws = Some (s\<lparr>us_ts := hub_clock h2\<rparr>)))"
proof -
  have ok: "time_ok h1" by (rule time_ok_run [OF assms(1) time_ok_new])
  obtain new where new: "hub_sent h2 = new @ hub_sent h1" "spaced ws new"
    using run_spaced [OF assms(2) ok] by (auto simp: pace_ok_def)
  have "distinct (senders ws new) \<and> set (senders ws new) \<subseteq> cleared_calls h1 ws"
    if "hub_sessions h1 ws = Some s" "hub_clock h2 < us_ts s + 250000000" for s
    using run_pace [OF assms(2) ok, of "us_ts s"] that new(1) by (auto simp: paced_def not_before_def)
  with new show ?thesis using uninterrupted_call by blast
qed

text \<open>
  For the witness: two threads have found that a page is due; the first has sent its message and set the timestamp, and a
  nanosecond later the second sends its message, too.
\<close>

definition both_cleared :: "event list" where
  "both_cleared = [Upgrade 0 0 [''a''], Open 0, Thread 0, Call 0 ''a'' 1 2, Call 1 ''a'' 1 2,
     Step 0, Step 1, Step 0, Step 1, Step 0, Step 0, Step 0]"

theorem notifications_paced_witness:
  "\<exists>h1 h2 s. hub_run (\<lambda>_ _. True) (new_hub 2 0) both_cleared h1 \<and> hub_run (quiet 0) h1 [Tick 1, Step 1, Step 1] h2 \<and>
    hub_sessions h1 0 = Some s \<and> hub_clock h2 < us_ts s + 250000000 \<and>
    hub_sent h1 = [(0, 0, 0, False)] \<and> hub_sent h2 = [(1, 0, 1, False), (0, 0, 0, False)] \<and> 1 \<in> cleared_calls h1 0"
proof -
  obtain h1 h2 s where h: "try_run (\<lambda>_ _. True) both_cleared (new_hub 2 0) = Inr h1"
    "try_run (quiet 0) [Tick 1, Step 1, Step 1] h1 = Inr h2" "hub_sessions h1 0 = Some s" "us_ts s = 0" "hub_clock h2 = 1"
    "hub_sent h1 = [(0, 0, 0, False)]" "hub_sent h2 = [(1, 0, 1, False), (0, 0, 0, False)]"
    by (simp add: both_cleared_def run_simps)
  note r = try_run_hub_run [OF h(1)] try_run_hub_run [OF h(2)]
  from notifications_paced [OF r] obtain new where new: "hub_sent h2 = new @ hub_sent h1"
    "\<forall>s. hub_sessions h1 0 = Some s \<and> hub_clock h2 < us_ts s + 250000000 \<longrightarrow>
      distinct (senders 0 new) \<and> set (senders 0 new) \<subseteq> cleared_calls h1 0" by blast
  have "new = [(1, 0, 1, False)]" using new(1) h(6,7) by (cases new) (auto simp: Cons_eq_append_conv)
  then have "1 \<in> cleared_calls h1 0" using new(2) h(3,4,5) by simp
  moreover have "hub_clock h2 < us_ts s + 250000000" using h(4,5) by simp
  ultimately show ?thesis using r h(3,6,7) by blast
qed

text \<open>C40.
  Memory and notifications: if the threads that the handlers \<^verbatim>\<open>open\<close> and \<^verbatim>\<open>close\<close> detach get the mutex in the order they were
  started, and a session is deleted only when the threads of its connection have run, then in every reachable state, also in the middle of
  notifications and of handlers, no event goes through a dangling pointer (where the copy of a list of connections is one event).  The code ensures neither, and either alone is not enough: with the
  order kept, \<^verbatim>\<open>close\<close> can delete a session while a call has its WebSocket in the list it has copied; and with
  \<^verbatim>\<open>close\<close> waiting, a connection that is gone stays in the list when the thread of \<^verbatim>\<open>open\<close> runs last.
\<close>

theorem notification_memory:
  assumes "hub_run careful (new_hub n t) es h"
  shows "perform e h \<noteq> Inl Out_Of_Bounds \<and>
    (\<exists>es h. hub_run in_order (new_hub 1 t) es h \<and> perform (Step 0) h = Inl Out_Of_Bounds) \<and>
    (\<exists>es h. hub_run awaited (new_hub 1 t) es h \<and> perform (Step 0) h = Inl Out_Of_Bounds)"
  using perform_no_error [OF hub_ok_run [OF assms hub_ok_new]] late_close_run stale_entry_run try_run_hub_run by blast

text \<open>For the witness: a call is in the middle of notifying a page that is closing.\<close>

theorem notification_memory_witness:
  "\<exists>h c s. hub_run careful (new_hub 1 0) [Upgrade 0 0 [''a''], Open 0, Thread 0, Call 0 ''a'' 1 2, Step 0, Close 0, Launch 0] h \<and>
    hub_calls h 0 = Some c \<and> call_rest c = [0] \<and> hub_handler h 0 = Some Launched \<and> hub_sessions h 0 = Some s \<and>
    perform (Step 0) h \<noteq> Inl Out_Of_Bounds"
proof -
  let ?es = "[Upgrade 0 0 [''a''], Open 0, Thread 0, Call 0 ''a'' 1 2, Step 0, Close 0, Launch 0]"
  obtain h c s where h: "try_run careful ?es (new_hub 1 0) = Inr h" "hub_calls h 0 = Some c" "call_rest c = [0]"
    "hub_handler h 0 = Some Launched" "hub_sessions h 0 = Some s"
    by (simp add: run_simps careful_def)
  from try_run_hub_run [OF h(1)] have r: "hub_run careful (new_hub 1 0) ?es h" .
  with notification_memory [OF r, of "Step 0"] h show ?thesis by blast
qed

end
